(* ===== verification/Prelude.thy ===== *)
theory Prelude
  imports Main "HOL-Library.Word"
begin

text \<open>
  What every component shares: the machine types of the C code (\<^verbatim>\<open>uint8_t\<close>,
  \<^verbatim>\<open>usize_t\<close> = \<^verbatim>\<open>uint32_t\<close>, \<^verbatim>\<open>xoff_t\<close> = \<^verbatim>\<open>uint64_t\<close>), the return codes of
  \<^verbatim>\<open>xdelta3.h\<close>, the overflow macros of \<^verbatim>\<open>xdelta3.c\<close>, and the lemmas on words and
  lists that the component proofs rest on.

  A C function that can fail returns \<open>Inl (code, msg)\<close> or \<open>Inr\<close> of its result. Where the
  C standard gives a step no meaning (a read or write outside its buffer), the model's
  step is \<open>None\<close>, so that memory safety is the statement that a run is not \<open>None\<close>.
\<close>

unbundle bit_operations_syntax

section \<open>Machine types\<close>

type_synonym u8 = "8 word"
type_synonym u16 = "16 word"
type_synonym u32 = "32 word"
type_synonym u64 = "64 word"
type_synonym bytes = "u8 list"

section \<open>Return codes\<close>

datatype xd3_ret =
    XD3_OK
  | XD3_INPUT | XD3_OUTPUT | XD3_GETSRCBLK | XD3_GOTHEADER | XD3_WINSTART
  | XD3_WINFINISH | XD3_TOOFARBACK | XD3_INTERNAL | XD3_INVALID
  | XD3_INVALID_INPUT | XD3_NOSECOND | XD3_UNIMPLEMENTED
  | ENOMEM

fun rvalue :: "xd3_ret \<Rightarrow> int" where
  "rvalue XD3_OK = 0"
| "rvalue XD3_INPUT = -17703"
| "rvalue XD3_OUTPUT = -17704"
| "rvalue XD3_GETSRCBLK = -17705"
| "rvalue XD3_GOTHEADER = -17706"
| "rvalue XD3_WINSTART = -17707"
| "rvalue XD3_WINFINISH = -17708"
| "rvalue XD3_TOOFARBACK = -17709"
| "rvalue XD3_INTERNAL = -17710"
| "rvalue XD3_INVALID = -17711"
| "rvalue XD3_INVALID_INPUT = -17712"
| "rvalue XD3_NOSECOND = -17713"
| "rvalue XD3_UNIMPLEMENTED = -17714"
| "rvalue ENOMEM = 12"

definition xd3_strerror :: "int \<Rightarrow> string option" where
  "xd3_strerror ret =
     (if ret = rvalue XD3_INPUT then Some ''XD3_INPUT''
      else if ret = rvalue XD3_OUTPUT then Some ''XD3_OUTPUT''
      else if ret = rvalue XD3_GETSRCBLK then Some ''XD3_GETSRCBLK''
      else if ret = rvalue XD3_GOTHEADER then Some ''XD3_GOTHEADER''
      else if ret = rvalue XD3_WINSTART then Some ''XD3_WINSTART''
      else if ret = rvalue XD3_WINFINISH then Some ''XD3_WINFINISH''
      else if ret = rvalue XD3_TOOFARBACK then Some ''XD3_TOOFARBACK''
      else if ret = rvalue XD3_INTERNAL then Some ''XD3_INTERNAL''
      else if ret = rvalue XD3_INVALID then Some ''XD3_INVALID''
      else if ret = rvalue XD3_INVALID_INPUT then Some ''XD3_INVALID_INPUT''
      else if ret = rvalue XD3_NOSECOND then Some ''XD3_NOSECOND''
      else if ret = rvalue XD3_UNIMPLEMENTED then Some ''XD3_UNIMPLEMENTED''
      else None)"

text \<open>A failing call: the code it returns and the text it leaves in \<^verbatim>\<open>stream->msg\<close>.\<close>

type_synonym xd3_err = "xd3_ret \<times> string"

section \<open>Overflow tests\<close>

definition USIZE_T_OVERFLOW :: "u32 \<Rightarrow> u32 \<Rightarrow> bool" where
  "USIZE_T_OVERFLOW a b = (0xffffffff - a < b)"

definition XOFF_T_OVERFLOW :: "u64 \<Rightarrow> u64 \<Rightarrow> bool" where
  "XOFF_T_OVERFLOW a b = (0xffffffffffffffff - a < b)"

section \<open>Lemma collections\<close>

named_theorems unat_simps \<open>word arithmetic read as arithmetic on naturals, where it does not wrap\<close>

section \<open>Words\<close>

lemma max_word_minus_less_iff:
  fixes a b :: "'a::len word"
  shows "- 1 - a < b \<longleftrightarrow> 2 ^ LENGTH('a) \<le> unat a + unat b"
proof -
  have "unat (- 1 - a) = unat (- 1 :: 'a word) - unat a"
    by (rule unat_sub) simp
  then have eq: "unat (- 1 - a) = 2 ^ LENGTH('a) - 1 - unat a"
    by (simp add: unsigned_minus_1_eq_mask mask_eq_exp_minus_1)
  have "unat a < 2 ^ LENGTH('a)" by (rule unsigned_less)
  with eq show ?thesis unfolding word_less_nat_alt by linarith
qed

lemma USIZE_T_OVERFLOW_iff [unat_simps]:
  "USIZE_T_OVERFLOW a b \<longleftrightarrow> 2 ^ 32 \<le> unat a + unat b"
proof -
  have "(0xffffffff :: u32) = - 1" by simp
  then show ?thesis
    using max_word_minus_less_iff [of a b] by (simp only: USIZE_T_OVERFLOW_def) simp
qed

lemma XOFF_T_OVERFLOW_iff [unat_simps]:
  "XOFF_T_OVERFLOW a b \<longleftrightarrow> 2 ^ 64 \<le> unat a + unat b"
proof -
  have "(0xffffffffffffffff :: u64) = - 1" by simp
  then show ?thesis
    using max_word_minus_less_iff [of a b] by (simp only: XOFF_T_OVERFLOW_def) simp
qed

lemma unat_add_noovf:
  fixes a b :: "'a::len word"
  shows "unat a + unat b < 2 ^ LENGTH('a) \<Longrightarrow> unat (a + b) = unat a + unat b"
  by (simp add: unat_word_ariths)

lemma unat_add_u32 [unat_simps]:
  "unat (a :: u32) + unat b < 2 ^ 32 \<Longrightarrow> unat (a + b) = unat a + unat b"
  using unat_add_noovf [of a b] by simp

lemma unat_add_u64 [unat_simps]:
  "unat (a :: u64) + unat b < 2 ^ 64 \<Longrightarrow> unat (a + b) = unat a + unat b"
  using unat_add_noovf [of a b] by simp

lemma unat_sub_le [unat_simps]:
  fixes a b :: "'a::len word"
  shows "b \<le> a \<Longrightarrow> unat (a - b) = unat a - unat b"
  by (rule unat_sub)

lemma unat_and_mask: "unat (w AND mask n :: 'a::len word) = unat w mod 2 ^ n"
  by (simp only: take_bit_eq_mask [symmetric] unsigned_take_bit_eq take_bit_eq_mod [where ?'a = nat])

lemma unat_drop_bit: "unat (drop_bit n w :: 'a::len word) = unat w div 2 ^ n"
  by (simp only: unat_drop_bit_eq drop_bit_eq_div [where ?'a = nat])

lemma bit_unat_iff: "bit w n \<longleftrightarrow> odd (unat (w :: 'a::len word) div 2 ^ n)"
  by (simp add: bit_iff_odd [symmetric] bit_unsigned_iff)

lemma unat_push_bit_noovf:
  fixes w :: "'a::len word"
  assumes "unat w * 2 ^ n < 2 ^ LENGTH('a)"
  shows "unat (push_bit n w) = unat w * 2 ^ n"
  using assms unfolding unsigned_push_bit_eq
  by (simp add: push_bit_eq_mult [where ?'a = nat] take_bit_nat_eq_self)

lemma unat_or_disjoint:
  fixes a b :: "'a::len word"
  assumes "a AND b = 0"
  shows "unat (a OR b) = unat a + unat b"
proof -
  have "unat a AND unat b = 0"
    using assms by (metis unsigned_and_eq unsigned_0)
  then have "unat a OR unat b = unat a + unat b"
    by (simp add: disjunctive_add_eq_or)
  then show ?thesis by (simp add: unsigned_or_eq)
qed

lemma and_not_mask_eq_0_iff:
  "w AND NOT (mask n) = 0 \<longleftrightarrow> unat (w :: 'a::len word) < 2 ^ n"
proof -
  have "w AND NOT (mask n) = 0 \<longleftrightarrow> w AND mask n = w"
    by (auto simp: bit_eq_iff bit_simps)
  also have "\<dots> \<longleftrightarrow> unat w mod 2 ^ n = unat w"
    by (metis unat_and_mask word_unat_eq_iff)
  also have "\<dots> \<longleftrightarrow> unat w < 2 ^ n"
    by (metis mod_less mod_less_divisor zero_less_numeral zero_less_power)
  finally show ?thesis .
qed

lemma unat_less_u8: "unat (b :: u8) < 256"
  using unsigned_less [of b, where ?'a = nat] by simp

lemma unat_less_u32: "unat (b :: u32) < 4294967296"
  using unsigned_less [of b, where ?'a = nat] by simp

lemma unat_less_u64: "unat (b :: u64) < 18446744073709551616"
  using unsigned_less [of b, where ?'a = nat] by simp

lemma unat_ucast_u8:
  assumes "8 \<le> LENGTH('a)"
  shows "unat (ucast (b :: u8) :: 'a::len word) = unat b"
proof -
  have "unat b < 2 ^ 8" using unat_less_u8 [of b] by simp
  also have "\<dots> \<le> 2 ^ LENGTH('a)" using assms by (rule power_increasing) simp
  finally show ?thesis by (simp add: unsigned_ucast_eq take_bit_nat_eq_self)
qed

section \<open>Return codes and overflow tests\<close>

lemma rvalue_inj: "rvalue a = rvalue b \<Longrightarrow> a = b"
  by (cases a; cases b) simp_all

section \<open>Bytes taken from 32-bit values\<close>

lemma u8_of_u32_add: "(ucast (a + b :: u32) :: u8) = ucast a + ucast b"
  by (simp add: word_uint_eq_iff unsigned_ucast_eq uint_word_ariths take_bit_eq_mod
        mod_mod_cancel mod_simps)

lemma u8_of_u32_diff: "(ucast (a - b :: u32) :: u8) = ucast a - ucast b"
  by (simp add: word_uint_eq_iff unsigned_ucast_eq uint_word_ariths take_bit_eq_mod
        mod_mod_cancel mod_simps)

lemma u8_of_u32_mult: "(ucast (a * b :: u32) :: u8) = ucast a * ucast b"
  by (simp add: word_uint_eq_iff unsigned_ucast_eq uint_word_ariths take_bit_eq_mod
        mod_mod_cancel mod_simps)

lemma unat_u8_plus_ucast:
  fixes a :: u8 and s :: u32
  assumes "unat a + unat s < 256"
  shows "unat (a + ucast s) = unat a + unat s"
proof -
  have s: "unat (ucast s :: u8) = unat s"
    using assms by (simp add: unsigned_ucast_eq take_bit_nat_eq_self)
  show ?thesis using assms by (subst unat_add_noovf) (simp_all add: s)
qed

section \<open>Sequencing calls that return an error code\<close>

definition err_then :: "'e + 'a \<Rightarrow> ('a \<Rightarrow> 'e + 'b) \<Rightarrow> 'e + 'b" where
  "err_then r f = (case r of Inl e \<Rightarrow> Inl e | Inr x \<Rightarrow> f x)"

lemma err_then_simps [simp]: "err_then (Inl e) f = Inl e" "err_then (Inr x) f = f x"
  by (simp_all add: err_then_def)

lemma err_then_Inr: "err_then r f = Inr y \<longleftrightarrow> (\<exists>x. r = Inr x \<and> f x = Inr y)"
  by (cases r) simp_all

end
