(* ===== verification/Output.thy ===== *)
theory Output
  imports Prelude
begin

text \<open>
  The encoder's output sections (\<^verbatim>\<open>xdelta3.c\<close>): a section is a chain of pages
  (\<^verbatim>\<open>struct _xd3_output\<close>), of which only the last is written. A chain is the list of its
  pages, head first; a page is the bytes written to it, \<^verbatim>\<open>base[0..next)\<close>, and the room
  left, \<^verbatim>\<open>avail - next\<close> (the bytes of a page at or past \<^verbatim>\<open>next\<close> are never read). Pages
  come from the stream's free list, or from the client's allocator, whose answer to a
  request is a parameter of the model.
\<close>

section \<open>Pages and the page allocator\<close>

record xd3_output =
  o_base :: bytes
  o_room :: nat

definition o_avail :: "xd3_output \<Rightarrow> nat" where
  "o_avail p = length (o_base p) + o_room p"

definition XD3_ALLOCSIZE :: nat where
  "XD3_ALLOCSIZE = 2 ^ 14"

text \<open>
  \<open>enc_alloc m what elts\<close> says whether the client's allocator returns memory for \<open>elts\<close>
  elements of the type named \<open>what\<close>.
\<close>

record enc_mem =
  enc_free :: "xd3_output list"
  enc_alloc :: "string \<Rightarrow> nat \<Rightarrow> bool"

text \<open>The page with nothing written on it (\<^verbatim>\<open>next = 0\<close>).\<close>

definition page_reset :: "xd3_output \<Rightarrow> xd3_output" where
  "page_reset p = \<lparr>o_base = [], o_room = o_avail p\<rparr>"

definition xd3_alloc_output :: "enc_mem \<Rightarrow> (xd3_output \<times> enc_mem) option" where
  "xd3_alloc_output m =
     (case enc_free m of
        output # rest \<Rightarrow> Some (page_reset output, m\<lparr>enc_free := rest\<rparr>)
      | [] \<Rightarrow>
          (if \<not> enc_alloc m ''xd3_output'' 1 then None
           else if \<not> enc_alloc m ''uint8_t'' XD3_ALLOCSIZE then None
           else Some (\<lparr>o_base = [], o_room = XD3_ALLOCSIZE\<rparr>, m)))"

section \<open>Writing\<close>

definition oom :: xd3_err where
  "oom = (ENOMEM, ''out of memory'')"

text \<open>The page a write goes to: the tail of the chain, or a new tail when it is full.\<close>

definition tail_with_room :: "enc_mem \<Rightarrow> xd3_output list \<Rightarrow> (xd3_output list \<times> enc_mem) option" where
  "tail_with_room m ps =
     (if o_room (last ps) = 0
      then (case xd3_alloc_output m of
              None \<Rightarrow> None
            | Some (p, m') \<Rightarrow> Some (ps @ [p], m'))
      else Some (ps, m))"

definition put_tail :: "xd3_output list \<Rightarrow> bytes \<Rightarrow> xd3_output list" where
  "put_tail ps bs =
     butlast ps @ [\<lparr>o_base = o_base (last ps) @ bs, o_room = o_room (last ps) - length bs\<rparr>]"

definition xd3_emit_byte ::
    "enc_mem \<Rightarrow> xd3_output list \<Rightarrow> u8 \<Rightarrow> xd3_err + (xd3_output list \<times> enc_mem)" where
  "xd3_emit_byte m ps code =
     (case tail_with_room m ps of
        None \<Rightarrow> Inl oom
      | Some (ps', m') \<Rightarrow> Inr (put_tail ps' [code], m'))"

lemma xd3_alloc_output_Some:
  assumes "xd3_alloc_output m = Some (p, m')"
  shows "o_base p = []" and "enc_alloc m' = enc_alloc m"
    and "o_room p = 0 \<Longrightarrow> length (enc_free m') < length (enc_free m)"
  using assms by (auto simp: xd3_alloc_output_def page_reset_def XD3_ALLOCSIZE_def
    split: list.splits if_splits)

lemma tail_with_room_cases:
  assumes "tail_with_room m ps = Some (ps', m')"
  obtains (same) "o_room (last ps) \<noteq> 0" "ps' = ps" "m' = m"
  | (fresh) p where "o_room (last ps) = 0"
      "xd3_alloc_output m = Some (p, m')" "ps' = ps @ [p]"
  using assms by (auto simp: tail_with_room_def split: if_splits option.splits)

text \<open>
  Every turn of the copy loop writes a byte or, when it took a page of no capacity from
  the free list, leaves a shorter free list.
\<close>

lemma tail_with_room_progress:
  assumes "tail_with_room m ps = Some (ps', m')" and "o_room (last ps') = 0"
  shows "length (enc_free m') < length (enc_free m)"
  using assms by (cases rule: tail_with_room_cases) (auto dest: xd3_alloc_output_Some)

text \<open>
  The copy loop. It runs at least once, so writing no bytes to a full chain still adds a
  page.
\<close>

function xd3_emit_bytes ::
    "enc_mem \<Rightarrow> xd3_output list \<Rightarrow> bytes \<Rightarrow> xd3_err + (xd3_output list \<times> enc_mem)" where
  "xd3_emit_bytes m ps bs =
     (case tail_with_room m ps of
        None \<Rightarrow> Inl oom
      | Some (ps', m') \<Rightarrow>
          (let ntake = min (o_room (last ps')) (length bs);
               ps'' = put_tail ps' (take ntake bs);
               rest = drop ntake bs
           in if rest \<noteq> [] then xd3_emit_bytes m' ps'' rest else Inr (ps'', m')))"
  by pat_completeness auto
termination
proof (relation "measures [\<lambda>(m, ps, bs). length bs, \<lambda>(m, ps, bs). length (enc_free m)]", goal_cases)
  case 1
  show ?case by simp
next
  case (2 m ps bs pm ps' m' n ps'' rest)
  then have t: "tail_with_room m ps = Some (ps', m')" and n: "n = min (o_room (last ps')) (length bs)"
    and rest: "rest = drop n bs" "rest \<noteq> []" by simp_all
  show ?case
  proof (cases "o_room (last ps') = 0")
    case True
    with tail_with_room_progress [OF t] rest n show ?thesis by simp
  next
    case False
    with rest n show ?thesis by simp linarith
  qed
qed

declare xd3_emit_bytes.simps [simp del]

text \<open>\<^verbatim>\<open>usize_t\<close> arithmetic: the total wraps at \<open>2 ^ 32\<close>.\<close>

fun xd3_sizeof_output :: "xd3_output list \<Rightarrow> u32" where
  "xd3_sizeof_output [] = 0"
| "xd3_sizeof_output (p # ps) = of_nat (length (o_base p)) + xd3_sizeof_output ps"

fun xd3_freelist_output :: "enc_mem \<Rightarrow> xd3_output list \<Rightarrow> enc_mem" where
  "xd3_freelist_output m [] = m"
| "xd3_freelist_output m (p # ps) =
     xd3_freelist_output (m\<lparr>enc_free := page_reset p # enc_free m\<rparr>) ps"

section \<open>The contents of a chain\<close>

definition chain_bytes :: "xd3_output list \<Rightarrow> bytes" where
  "chain_bytes ps = concat (map o_base ps)"

definition mem_never_fails :: "enc_mem \<Rightarrow> bool" where
  "mem_never_fails m \<longleftrightarrow> (\<forall>what n. enc_alloc m what n)"

lemma chain_bytes_put_tail [simp]:
  "ps \<noteq> [] \<Longrightarrow> chain_bytes (put_tail ps bs) = chain_bytes ps @ bs"
  by (cases ps rule: rev_cases) (simp_all add: chain_bytes_def put_tail_def)

lemma put_tail_nonempty [simp]: "put_tail ps bs \<noteq> []"
  by (simp add: put_tail_def)

lemma tail_with_room_Some:
  assumes "tail_with_room m ps = Some (ps', m')"
  shows "chain_bytes ps' = chain_bytes ps" and "enc_alloc m' = enc_alloc m"
    and "ps \<noteq> [] \<Longrightarrow> ps' \<noteq> []"
  using assms
  by (cases rule: tail_with_room_cases; simp add: chain_bytes_def xd3_alloc_output_Some)+

lemma tail_with_room_total:
  "mem_never_fails m \<Longrightarrow> \<exists>ps' m'. tail_with_room m ps = Some (ps', m')"
  by (cases "enc_free m")
     (simp_all add: tail_with_room_def xd3_alloc_output_def mem_never_fails_def)

lemma mem_never_fails_cong:
  "enc_alloc m' = enc_alloc m \<Longrightarrow> mem_never_fails m' = mem_never_fails m"
  by (simp add: mem_never_fails_def)

lemma xd3_emit_byte_appends:
  assumes "xd3_emit_byte m ps code = Inr (ps', m')" and "ps \<noteq> []"
  shows "chain_bytes ps' = chain_bytes ps @ [code]" and "ps' \<noteq> []"
    and "enc_alloc m' = enc_alloc m"
  using assms by (auto simp: xd3_emit_byte_def tail_with_room_Some split: option.splits)

lemma xd3_emit_bytes_appends:
  assumes "xd3_emit_bytes m ps bs = Inr (ps', m')" and "ps \<noteq> []"
  shows "chain_bytes ps' = chain_bytes ps @ bs \<and> ps' \<noteq> [] \<and> enc_alloc m' = enc_alloc m"
  using assms
proof (induction m ps bs arbitrary: ps' m' rule: xd3_emit_bytes.induct)
  case (1 m ps bs)
  from "1.prems"(1) obtain ps1 m1 where t: "tail_with_room m ps = Some (ps1, m1)"
    by (subst (asm) xd3_emit_bytes.simps) (auto split: option.splits)
  note t' = tail_with_room_Some [OF t]
  let ?n = "min (o_room (last ps1)) (length bs)"
  let ?ps2 = "put_tail ps1 (take ?n bs)"
  have c: "chain_bytes ?ps2 = chain_bytes ps @ take ?n bs"
    using t' "1.prems"(2) by simp
  show ?case
  proof (cases "drop ?n bs = []")
    case True
    with "1.prems"(1) t have "ps' = ?ps2" "m' = m1"
      by (subst (asm) xd3_emit_bytes.simps; simp add: Let_def)+
    with c True t' show ?thesis by simp
  next
    case False
    with "1.prems"(1) t have "xd3_emit_bytes m1 ?ps2 (drop ?n bs) = Inr (ps', m')"
      by (subst (asm) xd3_emit_bytes.simps) (simp add: Let_def)
    from "1.IH" [OF t refl refl refl refl False this] c t' show ?thesis
      by (metis append.assoc append_take_drop_id put_tail_nonempty)
  qed
qed

lemma xd3_emit_bytes_total:
  "mem_never_fails m \<Longrightarrow> \<exists>ps' m'. xd3_emit_bytes m ps bs = Inr (ps', m')"
proof (induction m ps bs rule: xd3_emit_bytes.induct)
  case (1 m ps bs)
  then obtain ps1 m1 where t: "tail_with_room m ps = Some (ps1, m1)"
    using tail_with_room_total by blast
  have "mem_never_fails m1"
    using "1.prems" tail_with_room_Some(2) [OF t] mem_never_fails_cong by blast
  with "1.IH" [OF t refl refl refl refl] t show ?case
    by (subst xd3_emit_bytes.simps) (simp add: Let_def)
qed

lemma xd3_sizeof_output_eq:
  "xd3_sizeof_output ps = of_nat (length (chain_bytes ps))"
  by (induction ps) (simp_all add: chain_bytes_def)

section \<open>A byte sink\<close>

text \<open>
  What the encoder relies on: a write appends to the section and keeps it writable. Any
  sequence of writes then leaves the concatenation of what was written.
\<close>

locale byte_sink =
  fixes emit :: "'m \<Rightarrow> 'c \<Rightarrow> bytes \<Rightarrow> 'e + ('c \<times> 'm)"
    and content :: "'c \<Rightarrow> bytes"
    and writable :: "'c \<Rightarrow> bool"
    and reliable :: "'m \<Rightarrow> bool"
  assumes emit_appends: "emit m c bs = Inr (c', m') \<Longrightarrow> writable c \<Longrightarrow> content c' = content c @ bs"
    and emit_writable: "emit m c bs = Inr (c', m') \<Longrightarrow> writable c \<Longrightarrow> writable c'"
    and emit_total: "reliable m \<Longrightarrow> \<exists>c' m'. emit m c bs = Inr (c', m')"
    and emit_reliable: "emit m c bs = Inr (c', m') \<Longrightarrow> writable c \<Longrightarrow> reliable m \<Longrightarrow> reliable m'"
begin

lemma emit_reliably:
  assumes "reliable m" and "writable c"
  obtains c' m' where "emit m c bs = Inr (c', m')" "content c' = content c @ bs"
    "writable c'" "reliable m'"
  using assms emit_total [of m c bs] emit_appends emit_writable emit_reliable by blast

lemma emit_twice_reliably:
  assumes "reliable m" and "writable c"
  obtains c1 m1 c2 m2 where "emit m c as = Inr (c1, m1)" "emit m1 c1 bs = Inr (c2, m2)"
    "content c2 = content c @ as @ bs" "writable c2" "reliable m2"
proof -
  from emit_reliably [OF assms] obtain c1 m1 where 1: "emit m c as = Inr (c1, m1)"
    "content c1 = content c @ as" "writable c1" "reliable m1" .
  from emit_reliably [OF 1(4,3)] obtain c2 m2 where "emit m1 c1 bs = Inr (c2, m2)"
    "content c2 = content c1 @ bs" "writable c2" "reliable m2" .
  with 1 that show thesis by simp
qed

end

interpretation chain: byte_sink xd3_emit_bytes chain_bytes "\<lambda>ps. ps \<noteq> []" mem_never_fails
proof unfold_locales
  show "chain_bytes ps' = chain_bytes ps @ bs"
    if "xd3_emit_bytes m ps bs = Inr (ps', m')" "ps \<noteq> []" for m ps bs ps' m'
    using xd3_emit_bytes_appends [OF that] by simp
  show "ps' \<noteq> []" if "xd3_emit_bytes m ps bs = Inr (ps', m')" "ps \<noteq> []" for m ps bs ps' m'
    using xd3_emit_bytes_appends [OF that] by simp
  show "\<exists>ps' m'. xd3_emit_bytes m ps bs = Inr (ps', m')" if "mem_never_fails m" for m ps bs
    using xd3_emit_bytes_total [OF that] .
  show "mem_never_fails m'"
    if "xd3_emit_bytes m ps bs = Inr (ps', m')" "ps \<noteq> []" "mem_never_fails m" for m ps bs ps' m'
    using xd3_emit_bytes_appends [OF that(1,2)] that(3) mem_never_fails_cong by blast
qed

end
