(* ===== verification/Varint.thy ===== *)
theory Varint
  imports Output
begin

text \<open>
  The variable-length integers of VCDIFF (\<^verbatim>\<open>xdelta3.c\<close>, integer encoder/decoder
  functions): base 128, most significant digit first, bit 7 set on every byte but the
  last. The three macros \<^verbatim>\<open>DECODE_INTEGER_TYPE\<close>, \<^verbatim>\<open>READ_INTEGER_TYPE\<close> and
  \<^verbatim>\<open>EMIT_INTEGER_TYPE\<close> are functions over any word length; their 32 and 64 bit
  instances follow. \<open>decode_integer\<close> is reentrant: what it has read of a number stays in
  \<^verbatim>\<open>dec_32part\<close> or \<^verbatim>\<open>dec_64part\<close> when the input ends.
\<close>

section \<open>The macros\<close>

definition UINT32_OFLOW_MASK :: u32 where
  "UINT32_OFLOW_MASK = 0xfe000000"

definition UINT64_OFLOW_MASK :: u64 where
  "UINT64_OFLOW_MASK = 0xfe00000000000000"

text \<open>\<^verbatim>\<open>(PART << 7) | (next & 127)\<close>\<close>

definition shift_in :: "'a::len word \<Rightarrow> u8 \<Rightarrow> 'a word" where
  "shift_in part b = push_bit 7 part OR (ucast b AND 127)"

text \<open>The result, what is left in \<open>PART\<close>, and what is left of the input.\<close>

fun decode_integer ::
    "'a::len word \<Rightarrow> 'a word \<Rightarrow> bytes \<Rightarrow> (xd3_err + 'a word) \<times> 'a word \<times> bytes" where
  "decode_integer oflow part [] = (Inl (XD3_INPUT, ''further input required''), part, [])"
| "decode_integer oflow part (b # bs) =
     (if part AND oflow \<noteq> 0
      then (Inl (XD3_INVALID_INPUT, ''overflow in decode_integer''), part, bs)
      else if b AND 128 = 0 then (Inr (shift_in part b), 0, bs)
      else decode_integer oflow (shift_in part b) bs)"

fun read_integer :: "'a::len word \<Rightarrow> 'a word \<Rightarrow> bytes \<Rightarrow> xd3_err + ('a word \<times> bytes)" where
  "read_integer oflow val [] = Inl (XD3_INVALID_INPUT, ''end-of-input in read_integer'')"
| "read_integer oflow val (b # inp) =
     (if val AND oflow \<noteq> 0 then Inl (XD3_INVALID_INPUT, ''overflow in read_intger'')
      else if b AND 128 \<noteq> 0 then read_integer oflow (shift_in val b) inp
      else Inr (shift_in val b, inp))"

text \<open>
  The digits of a number from the last to the first, each with bit 7 set: the loop that
  fills \<^verbatim>\<open>buf\<close> from its end. \<open>acc\<close> is \<^verbatim>\<open>buf[bufi..10)\<close>.
\<close>

function emit_digits :: "'a::len word \<Rightarrow> bytes \<Rightarrow> bytes" where
  "emit_digits num acc =
     (let acc' = ((ucast (num AND 127) OR 128) :: u8) # acc; num' = drop_bit 7 num
      in if num' \<noteq> 0 then emit_digits num' acc' else acc')"
  by pat_completeness auto
termination
proof (relation "measure (\<lambda>(num, acc). unat num)", goal_cases)
  case 1
  show ?case by simp
next
  case (2 num acc acc' num')
  then have "num \<noteq> 0" by auto
  then have "0 < unat num" by (simp add: unat_gt_0)
  then have "unat (drop_bit 7 num) < unat num"
    unfolding unat_drop_bit by simp
  with 2 show ?case by simp
qed

declare emit_digits.simps [simp del]

text \<open>\<^verbatim>\<open>buf[9] &= 127\<close>\<close>

definition integer_bytes :: "'a::len word \<Rightarrow> bytes" where
  "integer_bytes num =
     (let buf = emit_digits num [] in butlast buf @ [last buf AND 127])"

definition emit_integer ::
    "enc_mem \<Rightarrow> xd3_output list \<Rightarrow> 'a::len word \<Rightarrow> xd3_err + (xd3_output list \<times> enc_mem)" where
  "emit_integer m ps num = xd3_emit_bytes m ps (integer_bytes num)"

section \<open>The instances\<close>

definition xd3_decode_uint32_t :: "u32 \<Rightarrow> bytes \<Rightarrow> (xd3_err + u32) \<times> u32 \<times> bytes" where
  "xd3_decode_uint32_t = decode_integer UINT32_OFLOW_MASK"

definition xd3_decode_uint64_t :: "u64 \<Rightarrow> bytes \<Rightarrow> (xd3_err + u64) \<times> u64 \<times> bytes" where
  "xd3_decode_uint64_t = decode_integer UINT64_OFLOW_MASK"

definition xd3_read_uint32_t :: "bytes \<Rightarrow> xd3_err + (u32 \<times> bytes)" where
  "xd3_read_uint32_t = read_integer UINT32_OFLOW_MASK 0"

definition xd3_read_uint64_t :: "bytes \<Rightarrow> xd3_err + (u64 \<times> bytes)" where
  "xd3_read_uint64_t = read_integer UINT64_OFLOW_MASK 0"

definition xd3_emit_uint32_t ::
    "enc_mem \<Rightarrow> xd3_output list \<Rightarrow> u32 \<Rightarrow> xd3_err + (xd3_output list \<times> enc_mem)" where
  "xd3_emit_uint32_t = emit_integer"

definition xd3_emit_uint64_t ::
    "enc_mem \<Rightarrow> xd3_output list \<Rightarrow> u64 \<Rightarrow> xd3_err + (xd3_output list \<times> enc_mem)" where
  "xd3_emit_uint64_t = emit_integer"

definition xd3_sizeof_uint32_t :: "u32 \<Rightarrow> u32" where
  "xd3_sizeof_uint32_t num =
     (if num < push_bit (7 * 1) 1 then 1
      else if num < push_bit (7 * 2) 1 then 2
      else if num < push_bit (7 * 3) 1 then 3
      else if num < push_bit (7 * 4) 1 then 4
      else 5)"

definition xd3_sizeof_uint64_t :: "u64 \<Rightarrow> u32" where
  "xd3_sizeof_uint64_t num =
     (if num < push_bit (7 * 1) 1 then 1
      else if num < push_bit (7 * 2) 1 then 2
      else if num < push_bit (7 * 3) 1 then 3
      else if num < push_bit (7 * 4) 1 then 4
      else if num < push_bit (7 * 5) 1 then 5
      else if num < push_bit (7 * 6) 1 then 6
      else if num < push_bit (7 * 7) 1 then 7
      else if num < push_bit (7 * 8) 1 then 8
      else if num < push_bit (7 * 9) 1 then 9
      else 10)"

section \<open>The number a byte string stands for\<close>

definition digit :: "u8 \<Rightarrow> nat" where
  "digit b = unat b mod 128"

text \<open>The value of an integer that has \<open>v\<close> read so far: no wrap-around, a plain natural.\<close>

fun base128 :: "nat \<Rightarrow> bytes \<Rightarrow> nat" where
  "base128 v [] = v"
| "base128 v (b # bs) = base128 (v * 128 + digit b) bs"

text \<open>Bit 7 set on every byte but the last.\<close>

fun well_terminated :: "bytes \<Rightarrow> bool" where
  "well_terminated [] = False"
| "well_terminated [b] = (b AND 128 = 0)"
| "well_terminated (b # bs) = (b AND 128 \<noteq> 0 \<and> well_terminated bs)"

subsection \<open>Bytes\<close>

lemma u8_and_127: "unat (b AND 127 :: u8) = unat b mod 128"
proof -
  have m: "(127 :: u8) = mask 7" by (simp add: mask_eq_exp_minus_1)
  show ?thesis unfolding m unat_and_mask by simp
qed

lemma u8_and_128_eq_0: "b AND 128 = 0 \<longleftrightarrow> unat (b :: u8) < 128"
proof -
  have "b AND 128 = 0 \<longleftrightarrow> \<not> bit b 7"
    using and_exp_eq_0_iff_not_bit [of b 7] by simp
  also have "\<dots> \<longleftrightarrow> even (unat b div 128)"
    unfolding bit_unat_iff by simp
  also have "\<dots> \<longleftrightarrow> unat b < 128"
    using unat_less_u8 [of b] by (cases "unat b < 128") (simp_all add: div_if)
  finally show ?thesis .
qed

lemma u8_or_128:
  fixes x :: "'a::len word"
  assumes "8 \<le> LENGTH('a)"
  shows "digit (ucast (x AND 127) OR 128) = unat x mod 128"
    and "(ucast (x AND 127) OR 128 :: u8) AND 128 \<noteq> 0"
proof -
  have m: "(127 :: 'a word) = mask 7" by (simp add: mask_eq_exp_minus_1)
  let ?d = "ucast (x AND 127) :: u8"
  have u: "unat ?d = unat x mod 128"
    unfolding m unsigned_ucast_eq unat_and_mask by (simp add: take_bit_nat_eq_self)
  have "unat ?d < 128" unfolding u by simp
  then have d: "?d AND 128 = 0" by (simp add: u8_and_128_eq_0)
  have "unat (?d OR 128) = unat x mod 128 + 128"
    using unat_or_disjoint [OF d] u by simp
  then show "digit (?d OR 128) = unat x mod 128" by (simp add: digit_def)
  show "(?d OR 128) AND 128 \<noteq> 0"
    using \<open>unat (?d OR 128) = unat x mod 128 + 128\<close> by (simp add: u8_and_128_eq_0)
qed

lemma digit_and_127 [simp]: "digit (b AND 127) = digit b"
  by (simp add: digit_def u8_and_127)

lemma and_127_top_clear [simp]: "(b AND 127 :: u8) AND 128 = 0"
  by (simp add: u8_and_128_eq_0 u8_and_127)

lemma digit_less [simp]: "digit b < 128"
  by (simp add: digit_def)

subsection \<open>Shifting a digit in\<close>

definition oflow_mask :: "'a::len word" where
  "oflow_mask = NOT (mask (LENGTH('a) - 7))"

lemma UINT32_OFLOW_MASK_eq: "UINT32_OFLOW_MASK = oflow_mask"
  by (simp add: UINT32_OFLOW_MASK_def oflow_mask_def mask_eq_exp_minus_1)

lemma UINT64_OFLOW_MASK_eq: "UINT64_OFLOW_MASK = oflow_mask"
  by (simp add: UINT64_OFLOW_MASK_def oflow_mask_def mask_eq_exp_minus_1)

lemma and_oflow_mask_eq_0:
  "w AND oflow_mask = 0 \<longleftrightarrow> unat (w :: 'a::len word) < 2 ^ (LENGTH('a) - 7)"
  by (simp add: oflow_mask_def and_not_mask_eq_0_iff)

lemma unat_shift_in:
  fixes part :: "'a::len word"
  assumes len: "8 \<le> LENGTH('a)" and part: "unat part < 2 ^ (LENGTH('a) - 7)"
  shows "unat (shift_in part b) = unat part * 128 + digit b"
proof -
  have m: "(127 :: 'a word) = mask 7" by (simp add: mask_eq_exp_minus_1)
  have "2 ^ LENGTH('a) = (2::nat) ^ (LENGTH('a) - 7 + 7)"
    using len by simp
  then have "2 ^ LENGTH('a) = 2 ^ (LENGTH('a) - 7) * (2::nat) ^ 7"
    by (simp only: power_add)
  with part have "unat part * 2 ^ 7 < 2 ^ LENGTH('a)" by simp
  then have p: "unat (push_bit 7 part) = unat part * 128"
    using unat_push_bit_noovf by fastforce
  have d: "unat (ucast b AND mask 7 :: 'a word) = digit b"
    unfolding unat_and_mask digit_def unat_ucast_u8 [OF len] by simp
  have "push_bit 7 part AND (ucast b AND mask 7 :: 'a word) = 0"
    by (rule bit_eqI) (auto simp: bit_simps)
  from unat_or_disjoint [OF this] p d show ?thesis
    unfolding shift_in_def m by simp
qed

section \<open>What the reader accepts\<close>

lemma base128_ge_self: "v \<le> base128 v bs"
proof (induction bs arbitrary: v)
  case (Cons b bs)
  from Cons.IH [of "v * 128 + digit b"] show ?case by simp
qed simp

lemma base128_append [simp]: "base128 v (as @ bs) = base128 (base128 v as) bs"
  by (induction as arbitrary: v) auto

text \<open>The check before each shift rejects exactly the numbers that do not fit.\<close>

lemma fits_prefix:
  assumes "8 \<le> LENGTH('a::len)"
  shows "v * 128 + digit b < 2 ^ LENGTH('a) \<longleftrightarrow> v < 2 ^ (LENGTH('a) - 7)"
proof -
  have "2 ^ LENGTH('a) = (2::nat) ^ (LENGTH('a) - 7 + 7)" using assms by simp
  then have "2 ^ LENGTH('a) = 2 ^ (LENGTH('a) - 7) * (128::nat)"
    by (simp only: power_add) simp
  with digit_less [of b] show ?thesis by linarith
qed

lemma read_integer_iff:
  fixes v r :: "'a::len word"
  assumes len: "8 \<le> LENGTH('a)"
  shows "read_integer oflow_mask v inp = Inr (r, rest) \<longleftrightarrow>
    (\<exists>ds. inp = ds @ rest \<and> well_terminated ds \<and> unat r = base128 (unat v) ds)"
    (is "?R v inp \<longleftrightarrow> ?S v inp")
proof (induction inp arbitrary: v)
  case Nil
  show ?case by auto
next
  case (Cons b inp)
  have ext: "?S v (b # inp) \<longleftrightarrow>
    (b AND 128 = 0 \<and> rest = inp \<and> unat r = unat v * 128 + digit b) \<or>
    (b AND 128 \<noteq> 0 \<and> (\<exists>ds. inp = ds @ rest \<and> well_terminated ds \<and>
       unat r = base128 (unat v * 128 + digit b) ds))" (is "_ \<longleftrightarrow> ?E")
  proof
    assume "?S v (b # inp)"
    then obtain ds where ds: "b # inp = ds @ rest" "well_terminated ds"
      "unat r = base128 (unat v) ds" by blast
    then show ?E by (cases ds rule: well_terminated.cases) auto
  next
    assume ?E
    then show "?S v (b # inp)"
    proof
      assume "b AND 128 = 0 \<and> rest = inp \<and> unat r = unat v * 128 + digit b"
      then show ?thesis by (intro exI [of _ "[b]"]) simp
    next
      assume "b AND 128 \<noteq> 0 \<and> (\<exists>ds. inp = ds @ rest \<and> well_terminated ds \<and>
        unat r = base128 (unat v * 128 + digit b) ds)"
      then obtain ds where "b AND 128 \<noteq> 0" "inp = ds @ rest" "well_terminated ds"
        "unat r = base128 (unat v * 128 + digit b) ds" by blast
      then show ?thesis by (intro exI [of _ "b # ds"]) (cases ds; simp)
    qed
  qed
  show ?case
  proof (cases "v AND oflow_mask = 0")
    case True
    then have v: "unat v < 2 ^ (LENGTH('a) - 7)" by (simp add: and_oflow_mask_eq_0)
    note s = unat_shift_in [OF len v, of b]
    show ?thesis
      unfolding ext using True Cons.IH [of "shift_in v b"]
      by (auto simp: s word_unat_eq_iff)
  next
    case False
    then have "\<not> unat v * 128 + digit b < 2 ^ LENGTH('a)"
      by (simp add: and_oflow_mask_eq_0 fits_prefix [OF len])
    moreover have "unat r < 2 ^ LENGTH('a)" by (rule unsigned_less)
    ultimately have "\<not> ?E"
      using base128_ge_self [of "unat v * 128 + digit b"] by (metis le_less_trans)
    with False ext show ?thesis by simp
  qed
qed

section \<open>What the writer writes\<close>

definition all_continue :: "bytes \<Rightarrow> bool" where
  "all_continue xs \<longleftrightarrow> (\<forall>x\<in>set xs. x AND 128 \<noteq> 0)"

lemma emit_digits_shape:
  fixes num :: "'a::len word"
  assumes "8 \<le> LENGTH('a)"
  shows "\<exists>xs. emit_digits num acc = xs @ acc \<and> xs \<noteq> [] \<and> all_continue xs \<and>
    base128 0 xs = unat num \<and> (length xs = 1 \<or> 128 ^ (length xs - 1) \<le> unat num) \<and>
    unat num < 128 ^ length xs"
proof (induction num acc rule: emit_digits.induct)
  case (1 num acc)
  let ?d = "ucast (num AND 127) OR 128 :: u8" and ?n = "drop_bit 7 num"
  note d = u8_or_128 [OF assms, of num]
  have n: "unat ?n = unat num div 128" unfolding unat_drop_bit by simp
  show ?case
  proof (cases "?n = 0")
    case True
    then have "unat num < 128" using n by (simp add: div_eq_0_iff)
    with True d show ?thesis
      by (intro exI [of _ "[?d]"]) (simp add: emit_digits.simps [of num] Let_def all_continue_def)
  next
    case False
    with "1.IH" [OF refl refl] obtain xs where xs:
      "emit_digits ?n (?d # acc) = xs @ ?d # acc" "xs \<noteq> []" "all_continue xs"
      "base128 0 xs = unat num div 128" "length xs = 1 \<or> 128 ^ (length xs - 1) \<le> unat num div 128"
      "unat num div 128 < 128 ^ length xs"
      unfolding n by blast
    have "emit_digits num acc = (xs @ [?d]) @ acc"
      using False xs(1) by (simp add: emit_digits.simps [of num acc] Let_def)
    moreover have "128 ^ (length (xs @ [?d]) - 1) \<le> unat num"
    proof (cases "length xs = 1")
      case True
      have "unat num div 128 \<noteq> 0" using False n by (simp add: unat_eq_0 [symmetric])
      with True show ?thesis by (simp add: div_eq_0_iff)
    next
      case False
      with xs(5) have "128 ^ (length xs - 1) * 128 \<le> unat num" by (simp add: less_eq_div_iff_mult_less_eq)
      with xs(2) show ?thesis by (cases xs) (simp_all add: mult.commute)
    qed
    moreover have "unat num < 128 ^ length (xs @ [?d])"
      using xs(6) by (simp add: div_less_iff_less_mult mult.commute)
    ultimately show ?thesis using xs d
      by (intro exI [of _ "xs @ [?d]"]) (auto simp: all_continue_def)
  qed
qed

lemma well_terminated_snoc: "well_terminated (xs @ [b]) \<longleftrightarrow> all_continue xs \<and> b AND 128 = 0"
proof (induction xs)
  case (Cons x xs)
  then show ?case by (cases xs) (auto simp: all_continue_def)
qed (simp add: all_continue_def)

lemma integer_bytes_shape:
  fixes num :: "'a::len word"
  assumes "8 \<le> LENGTH('a)"
  shows "well_terminated (integer_bytes num)" and "base128 0 (integer_bytes num) = unat num"
    and "integer_bytes num \<noteq> []" and "unat num < 128 ^ length (integer_bytes num)"
    and "length (integer_bytes num) = 1 \<or> 128 ^ (length (integer_bytes num) - 1) \<le> unat num"
proof -
  from emit_digits_shape [OF assms, of num "[]"] obtain xs where xs:
    "emit_digits num [] = xs" "xs \<noteq> []" "all_continue xs" "base128 0 xs = unat num"
    "length xs = 1 \<or> 128 ^ (length xs - 1) \<le> unat num" "unat num < 128 ^ length xs"
    by auto
  from xs(2) obtain ys y where y: "xs = ys @ [y]" by (cases xs rule: rev_cases) auto
  have b: "integer_bytes num = ys @ [y AND 127]"
    by (simp add: integer_bytes_def xs(1) y)
  show "well_terminated (integer_bytes num)" "base128 0 (integer_bytes num) = unat num"
    "integer_bytes num \<noteq> []" "unat num < 128 ^ length (integer_bytes num)"
    "length (integer_bytes num) = 1 \<or> 128 ^ (length (integer_bytes num) - 1) \<le> unat num"
    using xs y by (auto simp: b well_terminated_snoc all_continue_def)
qed

text \<open>The ten bytes of \<^verbatim>\<open>buf\<close> are enough for any 64-bit number, five for 32 bits.\<close>

lemma integer_bytes_length:
  fixes num :: "'a::len word"
  assumes len: "8 \<le> LENGTH('a)" and k: "2 ^ LENGTH('a) \<le> (128::nat) ^ k" and "0 < k"
  shows "length (integer_bytes num) \<le> k"
proof (rule ccontr)
  assume "\<not> length (integer_bytes num) \<le> k"
  then have "k \<le> length (integer_bytes num) - 1" "length (integer_bytes num) \<noteq> 1"
    using \<open>0 < k\<close> by auto
  then have "(128::nat) ^ k \<le> unat num"
    using integer_bytes_shape(5) [OF len, of num] power_increasing
    by (metis le_trans one_le_numeral)
  with k unsigned_less [of num, where ?'a = nat] show False by linarith
qed

lemma read_integer_bytes:
  fixes num :: "'a::len word"
  assumes "8 \<le> LENGTH('a)"
  shows "read_integer oflow_mask 0 (integer_bytes num @ rest) = Inr (num, rest)"
  using integer_bytes_shape [OF assms, of num] by (auto simp: read_integer_iff [OF assms])

section \<open>The interface of an integer code\<close>

text \<open>
  What the rest of the program needs of a code for numbers: reading gives back what was
  written, and leaves the rest of the input alone. Then no code word is a prefix of
  another, and a run of numbers reads back as itself.
\<close>

locale int_code =
  fixes enc :: "'v \<Rightarrow> bytes"
    and dec :: "bytes \<Rightarrow> xd3_err + ('v \<times> bytes)"
  assumes dec_enc: "dec (enc v @ rest) = Inr (v, rest)"
begin

lemma enc_inj: "enc v = enc w \<Longrightarrow> v = w"
  using dec_enc [of v "[]"] dec_enc [of w "[]"] by simp

lemma enc_prefix_free: "enc v @ xs = enc w @ ys \<Longrightarrow> v = w \<and> xs = ys"
  by (metis dec_enc prod.inject sum.inject(2))

primrec dec_run :: "nat \<Rightarrow> bytes \<Rightarrow> xd3_err + ('v list \<times> bytes)" where
  "dec_run 0 inp = Inr ([], inp)"
| "dec_run (Suc n) inp =
     (case dec inp of
        Inl e \<Rightarrow> Inl e
      | Inr (v, inp') \<Rightarrow>
          (case dec_run n inp' of Inl e \<Rightarrow> Inl e | Inr (vs, out) \<Rightarrow> Inr (v # vs, out)))"

lemma dec_run_enc: "dec_run (length vs) (concat (map enc vs) @ rest) = Inr (vs, rest)"
  by (induction vs) (simp_all add: dec_enc)

end

interpretation u32_code: int_code "integer_bytes :: u32 \<Rightarrow> bytes" xd3_read_uint32_t
  by unfold_locales
     (simp add: xd3_read_uint32_t_def UINT32_OFLOW_MASK_eq read_integer_bytes)

interpretation u64_code: int_code "integer_bytes :: u64 \<Rightarrow> bytes" xd3_read_uint64_t
  by unfold_locales
     (simp add: xd3_read_uint64_t_def UINT64_OFLOW_MASK_eq read_integer_bytes)

section \<open>Reentrant decoding\<close>

text \<open>
  Where the input stops inside a number makes no difference: decoding the rest later,
  from the part kept, ends as decoding all of it at once.
\<close>

lemma decode_integer_append:
  "decode_integer oflow part (xs @ ys) =
     (case decode_integer oflow part xs of
        (Inl (e, msg), part', left) \<Rightarrow>
          (if e = XD3_INPUT then decode_integer oflow part' ys
           else (Inl (e, msg), part', left @ ys))
      | (Inr v, part', left) \<Rightarrow> (Inr v, part', left @ ys))"
  by (induction oflow part xs rule: decode_integer.induct) simp_all

lemma decode_integer_INPUT:
  "decode_integer oflow part xs = (Inl (XD3_INPUT, msg), part', left) \<Longrightarrow> left = []"
  by (induction oflow part xs rule: decode_integer.induct) (auto split: if_splits)

lemma decode_integer_suffix:
  "decode_integer oflow part xs = (r, part', left) \<Longrightarrow> \<exists>used. xs = used @ left"
proof (induction oflow part xs rule: decode_integer.induct)
  case (2 oflow part b bs)
  show ?case
  proof (cases "part AND oflow = 0 \<and> b AND 128 \<noteq> 0")
    case True
    with "2.prems" have "decode_integer oflow (shift_in part b) bs = (r, part', left)" by simp
    with "2.IH" True obtain used where "bs = used @ left" by auto
    then show ?thesis by (intro exI [of _ "b # used"]) simp
  next
    case False
    with "2.prems" have "left = bs" by (auto split: if_splits)
    then show ?thesis by (intro exI [of _ "[b]"]) simp
  qed
qed simp

text \<open>The reentrant and the one-shot reader accept the same numbers.\<close>

lemma decode_integer_read:
  "decode_integer oflow v inp = (Inr r, part', rest) \<longleftrightarrow>
    part' = 0 \<and> read_integer oflow v inp = Inr (r, rest)"
  by (induction oflow v inp rule: decode_integer.induct) auto

lemma decode_integer_bytes:
  fixes num :: "'a::len word"
  assumes "8 \<le> LENGTH('a)"
  shows "decode_integer oflow_mask 0 (integer_bytes num @ rest) = (Inr num, 0, rest)"
  by (simp add: decode_integer_read read_integer_bytes [OF assms])

section \<open>Sizes\<close>

lemma integer_bytes_length_iff:
  fixes num :: "'a::len word"
  assumes "8 \<le> LENGTH('a)"
  shows "length (integer_bytes num) \<le> k \<longleftrightarrow> 0 < k \<and> unat num < 128 ^ k"
proof -
  note shape = integer_bytes_shape [OF assms, of num]
  let ?l = "length (integer_bytes num)"
  have l: "0 < ?l" using shape(3) by simp
  show ?thesis
  proof
    assume *: "?l \<le> k"
    then have "(128::nat) ^ ?l \<le> 128 ^ k" by (rule power_increasing) simp
    with shape(4) * l show "0 < k \<and> unat num < 128 ^ k" by linarith
  next
    assume *: "0 < k \<and> unat num < 128 ^ k"
    show "?l \<le> k"
    proof (rule ccontr)
      assume "\<not> ?l \<le> k"
      with * have "?l \<noteq> 1" "k \<le> ?l - 1" by auto
      then have "(128::nat) ^ k \<le> unat num"
        using shape(5) by (metis le_trans one_le_numeral power_increasing)
      with * show False by simp
    qed
  qed
qed

lemma xd3_sizeof_uint32_t_nat: "unat (xd3_sizeof_uint32_t num) = length (integer_bytes num)"
proof -
  define l where "l = length (integer_bytes num)"
  have iff: "l \<le> k \<longleftrightarrow> 0 < k \<and> unat num < 128 ^ k" for k
    unfolding l_def by (rule integer_bytes_length_iff) simp
  have "l \<le> 5" using unat_less_u32 [of num] unfolding iff by simp
  moreover have "0 < l" using integer_bytes_shape(3) [of num] by (simp add: l_def)
  moreover note iff [of 1] iff [of 2] iff [of 3] iff [of 4]
  ultimately have "unat (xd3_sizeof_uint32_t num) = l"
    by (simp add: xd3_sizeof_uint32_t_def word_less_nat_alt push_bit_eq_mult) linarith
  then show ?thesis by (simp add: l_def)
qed

lemma xd3_sizeof_uint64_t_nat: "unat (xd3_sizeof_uint64_t num) = length (integer_bytes num)"
proof -
  define l where "l = length (integer_bytes num)"
  have iff: "l \<le> k \<longleftrightarrow> 0 < k \<and> unat num < 128 ^ k" for k
    unfolding l_def by (rule integer_bytes_length_iff) simp
  have "l \<le> 10" using unat_less_u64 [of num] unfolding iff by simp
  moreover have "0 < l" using integer_bytes_shape(3) [of num] by (simp add: l_def)
  ultimately have "l = 1 \<or> l = 2 \<or> l = 3 \<or> l = 4 \<or> l = 5 \<or> l = 6 \<or> l = 7 \<or> l = 8 \<or> l = 9 \<or> l = 10"
    by presburger
  then have "unat (xd3_sizeof_uint64_t num) = l"
    using iff [of 1] iff [of 2] iff [of 3] iff [of 4] iff [of 5] iff [of 6] iff [of 7]
      iff [of 8] iff [of 9]
    by (elim disjE) (simp_all add: xd3_sizeof_uint64_t_def word_less_nat_alt push_bit_eq_mult)
  then show ?thesis by (simp add: l_def)
qed

section \<open>Properties\<close>

text \<open>C17: Emitting a 32 or 64 bit integer with memory available appends to the section exactly
  as many bytes as the size function says, and reading those bytes gives back the integer and
  leaves whatever follows them.\<close>

theorem emit_read_roundtrip:
  assumes "mem_never_fails m" and "ps \<noteq> []"
  shows "(\<exists>ps' m' bs. xd3_emit_uint32_t m ps v = Inr (ps', m') \<and>
           chain_bytes ps' = chain_bytes ps @ bs \<and> length bs = unat (xd3_sizeof_uint32_t v) \<and>
           (\<forall>rest. xd3_read_uint32_t (bs @ rest) = Inr (v, rest))) \<and>
         (\<exists>ps' m' bs. xd3_emit_uint64_t m ps w = Inr (ps', m') \<and>
           chain_bytes ps' = chain_bytes ps @ bs \<and> length bs = unat (xd3_sizeof_uint64_t w) \<and>
           (\<forall>rest. xd3_read_uint64_t (bs @ rest) = Inr (w, rest)))"
proof
  from chain.emit_reliably [OF assms] obtain ps' m' where
    "xd3_emit_bytes m ps (integer_bytes v) = Inr (ps', m')"
    "chain_bytes ps' = chain_bytes ps @ integer_bytes v" .
  then show "\<exists>ps' m' bs. xd3_emit_uint32_t m ps v = Inr (ps', m') \<and>
           chain_bytes ps' = chain_bytes ps @ bs \<and> length bs = unat (xd3_sizeof_uint32_t v) \<and>
           (\<forall>rest. xd3_read_uint32_t (bs @ rest) = Inr (v, rest))"
    by (auto simp: xd3_emit_uint32_t_def emit_integer_def xd3_sizeof_uint32_t_nat u32_code.dec_enc)
next
  from chain.emit_reliably [OF assms] obtain ps' m' where
    "xd3_emit_bytes m ps (integer_bytes w) = Inr (ps', m')"
    "chain_bytes ps' = chain_bytes ps @ integer_bytes w" .
  then show "\<exists>ps' m' bs. xd3_emit_uint64_t m ps w = Inr (ps', m') \<and>
           chain_bytes ps' = chain_bytes ps @ bs \<and> length bs = unat (xd3_sizeof_uint64_t w) \<and>
           (\<forall>rest. xd3_read_uint64_t (bs @ rest) = Inr (w, rest))"
    by (auto simp: xd3_emit_uint64_t_def emit_integer_def xd3_sizeof_uint64_t_nat u64_code.dec_enc)
qed

theorem emit_read_roundtrip_witness:
  "\<exists>ps' m' bs.
     xd3_emit_uint32_t \<lparr>enc_free = [], enc_alloc = \<lambda>_ _. True\<rparr> [\<lparr>o_base = [], o_room = 1\<rparr>] 300 =
       Inr (ps', m') \<and>
     length bs = 2 \<and> xd3_read_uint32_t (bs @ [7]) = Inr (300, [7])"
proof -
  have m: "mem_never_fails \<lparr>enc_free = [], enc_alloc = \<lambda>_ _. True\<rparr>"
    by (simp add: mem_never_fails_def)
  have size: "unat (xd3_sizeof_uint32_t 300) = 2" by (simp add: xd3_sizeof_uint32_t_def)
  from emit_read_roundtrip [OF m, of "[\<lparr>o_base = [], o_room = 1\<rparr>]" 300] show ?thesis
    unfolding size by blast
qed

text \<open>C18: The one-shot readers accept exactly the terminated digit strings whose value fits the
  word, and return that value: the overflow mask rejects every longer number and no shorter one.\<close>

theorem read_integer_exact:
  "(xd3_read_uint32_t inp = Inr (v, rest) \<longleftrightarrow>
     (\<exists>ds. inp = ds @ rest \<and> well_terminated ds \<and> unat v = base128 0 ds)) \<and>
   (xd3_read_uint64_t inp = Inr (w, rest) \<longleftrightarrow>
     (\<exists>ds. inp = ds @ rest \<and> well_terminated ds \<and> unat w = base128 0 ds))"
  by (simp add: xd3_read_uint32_t_def xd3_read_uint64_t_def UINT32_OFLOW_MASK_eq
      UINT64_OFLOW_MASK_eq read_integer_iff)

text \<open>C19: The streaming reader is reentrant: when the input ends inside a number it keeps what it
  has read and asks for more input, and continuing with the rest ends exactly as reading the
  whole input at once would have.\<close>

theorem decode_integer_resumes:
  "xd3_decode_uint32_t part (xs @ ys) =
     (case xd3_decode_uint32_t part xs of
        (Inl (e, msg), part', left) \<Rightarrow>
          (if e = XD3_INPUT then xd3_decode_uint32_t part' ys
           else (Inl (e, msg), part', left @ ys))
      | (Inr v, part', left) \<Rightarrow> (Inr v, part', left @ ys)) \<and>
   (xd3_decode_uint32_t 0 inp = (Inr v, part', rest) \<longleftrightarrow>
     part' = 0 \<and> xd3_read_uint32_t inp = Inr (v, rest))"
  unfolding xd3_decode_uint32_t_def xd3_read_uint32_t_def decode_integer_read
  by (intro conjI decode_integer_append refl)

end
