(* ===== verification/AddrCache.thy ===== *)
theory AddrCache
  imports Varint
begin

text \<open>
  The address cache of VCDIFF (\<^verbatim>\<open>xdelta3.c\<close>, address cache stuff): the \<^verbatim>\<open>near\<close> and
  \<^verbatim>\<open>same\<close> arrays, the encoder's choice of an address mode and the decoder's reading of
  one. Both sides run \<open>xd3_update_cache\<close> on the same addresses, so that their caches
  stay equal.
\<close>

section \<open>The cache\<close>

definition VCD_SELF :: nat where "VCD_SELF = 0"
definition VCD_HERE :: nat where "VCD_HERE = 1"

record xd3_addr_cache =
  s_near :: u32
  s_same :: u32
  next_slot :: u32
  near_array :: "u32 list"
  same_array :: "u32 list"

text \<open>
  \<open>alloc n\<close> is the allocator's answer for an array of \<open>n\<close> words: a block with any
  contents, or \<^verbatim>\<open>NULL\<close>. The arrays of an earlier call are freed first.
\<close>

definition xd3_alloc_cache ::
    "(u32 \<Rightarrow> u32 list option) \<Rightarrow> xd3_addr_cache \<Rightarrow> xd3_ret + xd3_addr_cache" where
  "xd3_alloc_cache alloc ac =
     (if s_near ac > 0 \<and> alloc (s_near ac) = None \<or>
         s_same ac > 0 \<and> alloc (s_same ac * 256) = None
      then Inl ENOMEM
      else Inr (ac\<lparr>near_array := (if s_near ac > 0 then the (alloc (s_near ac)) else near_array ac),
                   same_array := (if s_same ac > 0 then the (alloc (s_same ac * 256))
                                  else same_array ac)\<rparr>))"

definition xd3_init_cache :: "xd3_addr_cache \<Rightarrow> xd3_addr_cache" where
  "xd3_init_cache ac =
     (let ac1 = (if s_near ac > 0
                 then ac\<lparr>near_array := replicate (unat (s_near ac)) 0, next_slot := 0\<rparr> else ac)
      in if s_same ac > 0
         then ac1\<lparr>same_array := replicate (unat (s_same ac * 256)) 0\<rparr> else ac1)"

definition xd3_update_cache :: "xd3_addr_cache \<Rightarrow> u32 \<Rightarrow> xd3_addr_cache" where
  "xd3_update_cache ac addr =
     (let ac1 = (if s_near ac > 0
                 then ac\<lparr>near_array := (near_array ac)[unat (next_slot ac) := addr],
                         next_slot := (next_slot ac + 1) mod s_near ac\<rparr>
                 else ac)
      in if s_same ac1 > 0
         then ac1\<lparr>same_array := (same_array ac1)[unat (addr mod (s_same ac1 * 256)) := addr]\<rparr>
         else ac1)"

section \<open>Encoding an address\<close>

text \<open>
  \<^verbatim>\<open>SMALLEST_INT\<close>: a value that fits in one byte ends the search (\<^verbatim>\<open>goto good\<close>). The
  search returns \<^verbatim>\<open>bestd\<close>, \<^verbatim>\<open>bestm\<close> and whether it ended by the jump.
\<close>

definition SMALLEST_INT :: "u32 \<Rightarrow> bool" where
  "SMALLEST_INT x \<longleftrightarrow> x AND NOT 127 = 0"

fun near_search :: "u32 \<Rightarrow> u32 list \<Rightarrow> u32 \<Rightarrow> u32 \<Rightarrow> u32 \<Rightarrow> u32 \<times> u32 \<times> bool" where
  "near_search addr [] i bestd bestm = (bestd, bestm, False)"
| "near_search addr (n # ns) i bestd bestm =
     (if addr \<ge> n \<and> addr - n < bestd
      then (if SMALLEST_INT (addr - n) then (addr - n, i + 2, True)
            else near_search addr ns (i + 1) (addr - n) (i + 2))
      else near_search addr ns (i + 1) bestd bestm)"

definition best_mode :: "xd3_addr_cache \<Rightarrow> u32 \<Rightarrow> u32 \<Rightarrow> u32 \<times> u32 \<times> bool" where
  "best_mode ac addr here =
     (if SMALLEST_INT addr then (addr, of_nat VCD_SELF, True)
      else
        (let d = here - addr
         in if d < addr
            then (if SMALLEST_INT d then (d, of_nat VCD_HERE, True)
                  else near_search addr (near_array ac) 0 d (of_nat VCD_HERE))
            else near_search addr (near_array ac) 0 addr (of_nat VCD_SELF)))"

text \<open>The stream's memory, the address section and the cache are passed and returned.\<close>

definition xd3_encode_address ::
    "enc_mem \<Rightarrow> xd3_output list \<Rightarrow> xd3_addr_cache \<Rightarrow> u32 \<Rightarrow> u32 \<Rightarrow> u8 \<Rightarrow>
     xd3_err + (xd3_output list \<times> enc_mem \<times> xd3_addr_cache \<times> u8)" where
  "xd3_encode_address m ps ac addr here mode =
     (case best_mode ac addr here of (bestd, bestm, good) \<Rightarrow>
        if \<not> good \<and> s_same ac > 0 \<and> same_array ac ! unat (addr mod (s_same ac * 256)) = addr
        then
          (let d = addr mod (s_same ac * 256)
           in case xd3_emit_byte m ps (ucast (d mod 256)) of
                Inl e \<Rightarrow> Inl e
              | Inr (ps', m') \<Rightarrow>
                  Inr (ps', m', xd3_update_cache ac addr, mode + ucast (s_near ac + 2 + d div 256)))
        else
          (case xd3_emit_uint32_t m ps bestd of
             Inl e \<Rightarrow> Inl e
           | Inr (ps', m') \<Rightarrow> Inr (ps', m', xd3_update_cache ac addr, mode + ucast bestm)))"

section \<open>Decoding an address\<close>

text \<open>
  The input is the bytes from \<^verbatim>\<open>*inpp\<close> to \<^verbatim>\<open>max\<close>. \<open>None\<close> is a read outside one of the
  two arrays, which a mode that is too large would make.
\<close>

definition xd3_decode_address ::
    "xd3_addr_cache \<Rightarrow> u32 \<Rightarrow> nat \<Rightarrow> bytes \<Rightarrow> (xd3_err + (u32 \<times> xd3_addr_cache \<times> bytes)) option" where
  "xd3_decode_address ac here mode inp =
     (let same_start = 2 + unat (s_near ac)
      in if mode < same_start
         then
           (case xd3_read_uint32_t inp of
              Inl e \<Rightarrow> Some (Inl e)
            | Inr (val, inp') \<Rightarrow>
                (if mode = VCD_SELF then Some (Inr (val, xd3_update_cache ac val, inp'))
                 else if mode = VCD_HERE
                 then Some (Inr (here - val, xd3_update_cache ac (here - val), inp'))
                 else if mode - 2 < length (near_array ac)
                 then (let val' = val + near_array ac ! (mode - 2)
                       in Some (Inr (val', xd3_update_cache ac val', inp')))
                 else None))
         else
           (case inp of
              [] \<Rightarrow> Some (Inl (XD3_INVALID_INPUT, ''address underflow''))
            | b # inp' \<Rightarrow>
                (let i = (mode - same_start) * 256 + unat b
                 in if i < length (same_array ac)
                    then Some (Inr (same_array ac ! i, xd3_update_cache ac (same_array ac ! i), inp'))
                    else None)))"

section \<open>The invariant\<close>

text \<open>The arrays have the sizes the counts say, and the counts are those a code table can have.\<close>

definition wf_cache :: "xd3_addr_cache \<Rightarrow> bool" where
  "wf_cache ac \<longleftrightarrow>
     length (near_array ac) = unat (s_near ac) \<and>
     length (same_array ac) = 256 * unat (s_same ac) \<and>
     (s_near ac > 0 \<longrightarrow> next_slot ac < s_near ac) \<and>
     unat (s_near ac) + unat (s_same ac) < 256"

definition cache_modes :: "xd3_addr_cache \<Rightarrow> nat" where
  "cache_modes ac = 2 + unat (s_near ac) + unat (s_same ac)"

lemma same_size: "wf_cache ac \<Longrightarrow> unat (s_same ac * 256) = 256 * unat (s_same ac)"
  by (simp add: wf_cache_def unat_word_ariths)

lemma same_slot:
  assumes "wf_cache ac" "s_same ac > 0"
  shows "unat (addr mod (s_same ac * 256)) = unat addr mod (256 * unat (s_same ac))"
    and "unat (addr mod (s_same ac * 256)) < 256 * unat (s_same ac)"
  using assms same_size [OF assms(1)] by (simp_all add: unat_mod word_less_nat_alt)

lemma next_slot_less:
  assumes "k < (n :: u32)"
  shows "(k + 1) mod n < n"
  using assms by (simp add: word_less_nat_alt unat_mod)

lemma update_cache_sizes [simp]:
  "s_near (xd3_update_cache ac addr) = s_near ac"
  "s_same (xd3_update_cache ac addr) = s_same ac"
  by (simp_all add: xd3_update_cache_def Let_def)

lemma wf_update_cache: "wf_cache ac \<Longrightarrow> wf_cache (xd3_update_cache ac addr)"
  by (simp add: wf_cache_def xd3_update_cache_def Let_def next_slot_less)

lemma wf_init_cache:
  assumes "unat (s_near ac) + unat (s_same ac) < 256"
    "s_near ac = 0 \<Longrightarrow> near_array ac = []" "s_same ac = 0 \<Longrightarrow> same_array ac = []"
  shows "wf_cache (xd3_init_cache ac)"
  using assms
  by (cases "s_near ac = 0"; cases "s_same ac = 0")
    (simp_all add: wf_cache_def xd3_init_cache_def Let_def unat_word_ariths word_neq_0_conv)

text \<open>After an update the address is in the \<^verbatim>\<open>same\<close> slot of its hash and the newest of the \<^verbatim>\<open>near\<close> slots.\<close>

lemma update_cache_same:
  assumes "wf_cache ac" "s_same ac > 0"
  shows "same_array (xd3_update_cache ac addr) ! unat (addr mod (s_same ac * 256)) = addr"
  using assms same_slot [OF assms, of addr]
  by (simp add: xd3_update_cache_def Let_def wf_cache_def)

lemma update_cache_near:
  assumes "wf_cache ac" "s_near ac > 0"
  shows "near_array (xd3_update_cache ac addr) ! unat (next_slot ac) = addr"
  using assms by (simp add: xd3_update_cache_def Let_def wf_cache_def word_less_nat_alt)

section \<open>What the search finds\<close>

text \<open>\<open>stands_for ac addr here d m\<close>: decoding \<open>d\<close> in mode \<open>m\<close> (not a \<^verbatim>\<open>same\<close> mode) gives \<open>addr\<close>.\<close>

definition stands_for :: "xd3_addr_cache \<Rightarrow> u32 \<Rightarrow> u32 \<Rightarrow> u32 \<Rightarrow> nat \<Rightarrow> bool" where
  "stands_for ac addr here d m \<longleftrightarrow>
     m = VCD_SELF \<and> d = addr \<or>
     m = VCD_HERE \<and> d = here - addr \<or>
     2 \<le> m \<and> m - 2 < length (near_array ac) \<and> d = addr - near_array ac ! (m - 2)"

lemma near_search_result:
  assumes "near_search addr ns i bd bm = (d, m, good)"
    "unat i + length ns < 2 ^ 31"
  shows "(d, m) = (bd, bm) \<or>
    (\<exists>k < length ns. unat m = unat i + k + 2 \<and> d = addr - ns ! k \<and> ns ! k \<le> addr)"
  using assms
proof (induction addr ns i bd bm rule: near_search.induct)
  case (2 addr n ns i bd bm)
  have i1: "unat (i + 1) = unat i + 1" using "2.prems"(2) by (subst unat_add_u32) simp_all
  have step: ?case
    if *: "(d, m) = (bd', bm') \<or>
        (\<exists>k < length ns. unat m = unat (i + 1) + k + 2 \<and> d = addr - ns ! k \<and> ns ! k \<le> addr)"
      and "(bd', bm') = (bd, bm) \<or> bd' = addr - n \<and> bm' = i + 2 \<and> n \<le> addr" for bd' bm'
  proof -
    have i2: "unat (i + 2) = unat i + 2" using "2.prems"(2) by (subst unat_add_u32) simp_all
    from that i1 i2 show ?thesis
      by (elim disjE exE conjE) (force intro: exI [of _ "Suc k" for k] exI [of _ 0])+
  qed
  have i2: "unat (i + 2) = unat i + 2" using "2.prems"(2) by (subst unat_add_u32) simp_all
  consider (stop) "n \<le> addr" "(d, m) = (addr - n, i + 2)"
    | (take) "n \<le> addr" "addr - n < bd" "\<not> SMALLEST_INT (addr - n)"
        "near_search addr ns (i + 1) (addr - n) (i + 2) = (d, m, good)"
    | (skip) "\<not> (n \<le> addr \<and> addr - n < bd)" "near_search addr ns (i + 1) bd bm = (d, m, good)"
    using "2.prems"(1) by (auto split: if_splits)
  then show ?case
  proof cases
    case stop
    then show ?thesis using i2 by (intro disjI2 exI [of _ 0]) simp
  next
    case take
    show ?thesis by (rule step [OF "2.IH"(1)]) (use take "2.prems"(2) i1 in auto)
  next
    case skip
    show ?thesis by (rule step [OF "2.IH"(2)]) (use skip "2.prems"(2) i1 in auto)
  qed
qed simp

text \<open>No candidate beats the result, unless the result fits in a byte.\<close>

lemma near_search_least:
  assumes "near_search addr ns i bd bm = (d, m, good)"
  shows "if good then SMALLEST_INT d
    else d \<le> bd \<and> (\<forall>k < length ns. ns ! k \<le> addr \<longrightarrow> d \<le> addr - ns ! k)"
  using assms
proof (induction addr ns i bd bm rule: near_search.induct)
  case (2 addr n ns i bd bm)
  then show ?case
    by (auto split: if_splits simp: nth_Cons split: nat.splits dest: order_trans)
qed simp

lemma best_mode_stands_for:
  assumes "best_mode ac addr here = (d, m, good)" "wf_cache ac"
  shows "stands_for ac addr here d (unat m)" and "unat m < 2 + unat (s_near ac)"
proof -
  have len: "unat (0 :: u32) + length (near_array ac) < 2 ^ 31"
    using assms(2) by (simp add: wf_cache_def)
  have "stands_for ac addr here d (unat m) \<and> unat m < 2 + unat (s_near ac)"
    using assms near_search_result [OF _ len]
    by (fastforce simp: best_mode_def Let_def stands_for_def wf_cache_def VCD_SELF_def VCD_HERE_def
        split: if_splits)
  then show "stands_for ac addr here d (unat m)" and "unat m < 2 + unat (s_near ac)" by auto
qed

section \<open>Encode and decode\<close>

text \<open>The mode and the bytes the encoder writes for an address.\<close>

definition address_code :: "xd3_addr_cache \<Rightarrow> u32 \<Rightarrow> u32 \<Rightarrow> nat \<times> bytes" where
  "address_code ac addr here =
     (case best_mode ac addr here of (bestd, bestm, good) \<Rightarrow>
        if \<not> good \<and> s_same ac > 0 \<and> same_array ac ! unat (addr mod (s_same ac * 256)) = addr
        then (let d = unat (addr mod (s_same ac * 256))
              in (unat (s_near ac) + 2 + d div 256, [of_nat (d mod 256)]))
        else (unat bestm, integer_bytes bestd))"

lemma decode_stands_for:
  assumes "stands_for ac addr here d m" "m < 2 + unat (s_near ac)"
  shows "xd3_decode_address ac here m (integer_bytes d @ rest) =
    Some (Inr (addr, xd3_update_cache ac addr, rest))"
  using assms u32_code.dec_enc [of d rest]
  by (auto simp: xd3_decode_address_def stands_for_def VCD_SELF_def VCD_HERE_def Let_def)

lemma decode_address_code:
  assumes wf: "wf_cache ac" and code: "address_code ac addr here = (mode, bs)"
  shows "mode < cache_modes ac"
    and "xd3_decode_address ac here mode (bs @ rest) = Some (Inr (addr, xd3_update_cache ac addr, rest))"
proof -
  obtain d m good where best: "best_mode ac addr here = (d, m, good)" by (cases "best_mode ac addr here")
  note std = best_mode_stands_for [OF best wf]
  have "mode < cache_modes ac \<and>
    xd3_decode_address ac here mode (bs @ rest) = Some (Inr (addr, xd3_update_cache ac addr, rest))"
  proof (cases "\<not> good \<and> s_same ac > 0 \<and> same_array ac ! unat (addr mod (s_same ac * 256)) = addr")
    case True
    define h where "h = unat (addr mod (s_same ac * 256))"
    have h: "h < 256 * unat (s_same ac)" using same_slot(2) [OF wf] True by (simp add: h_def)
    then have q: "h div 256 < unat (s_same ac)" by (simp add: less_mult_imp_div_less mult.commute)
    have u: "unat (of_nat (h mod 256) :: u8) = h mod 256"
      by (simp add: unsigned_of_nat take_bit_eq_mod)
    have len: "h < length (same_array ac)" using h wf by (simp add: wf_cache_def)
    have "mode = unat (s_near ac) + 2 + h div 256" "bs = [of_nat (h mod 256)]"
      using code best True by (auto simp: address_code_def h_def Let_def)
    then show ?thesis
      using q u len True by (simp add: xd3_decode_address_def Let_def cache_modes_def h_def [symmetric])
  next
    case False
    then have "mode = unat m" "bs = integer_bytes d"
      using code best by (auto simp: address_code_def)
    then show ?thesis using decode_stands_for [OF std] std(2) by (simp add: cache_modes_def)
  qed
  then show "mode < cache_modes ac"
    and "xd3_decode_address ac here mode (bs @ rest) = Some (Inr (addr, xd3_update_cache ac addr, rest))"
    by auto
qed

lemma u8_same_mode:
  assumes "wf_cache ac" "s_same ac > 0"
  shows "(ucast (s_near ac + 2 + addr mod (s_same ac * 256) div 256) :: u8) =
    of_nat (unat (s_near ac) + 2 + unat (addr mod (s_same ac * 256)) div 256)"
proof -
  let ?h = "addr mod (s_same ac * 256)"
  have "unat ?h div 256 < 256"
    using same_slot(2) [OF assms, of addr] assms(1) by (simp add: wf_cache_def less_mult_imp_div_less)
  moreover have "unat (s_near ac) < 256" using assms(1) by (simp add: wf_cache_def)
  ultimately have "unat (s_near ac + 2 + ?h div 256) = unat (s_near ac) + 2 + unat ?h div 256"
    by (simp add: unat_word_ariths unat_div)
  then have "(of_nat (unat (s_near ac + 2 + ?h div 256)) :: u8) =
      of_nat (unat (s_near ac) + 2 + unat ?h div 256)" by (rule arg_cong)
  then show ?thesis by simp
qed

lemma encode_address_code:
  assumes wf: "wf_cache ac" and code: "address_code ac addr here = (k, bs)"
    and enc: "xd3_encode_address m ps ac addr here mode = Inr (ps', m', ac', mode')"
    and ps: "ps \<noteq> []"
  shows "ps' \<noteq> [] \<and> enc_alloc m' = enc_alloc m \<and> chain_bytes ps' = chain_bytes ps @ bs \<and> ac' = xd3_update_cache ac addr \<and>
    mode' = mode + of_nat k"
proof -
  obtain d bm good where best: "best_mode ac addr here = (d, bm, good)" by (cases "best_mode ac addr here")
  show ?thesis
  proof (cases "\<not> good \<and> s_same ac > 0 \<and> same_array ac ! unat (addr mod (s_same ac * 256)) = addr")
    case True
    have "unat (addr mod (s_same ac * 256) mod 256) = unat (addr mod (s_same ac * 256)) mod 256"
      by (simp add: unat_mod)
    then have b: "(ucast (addr mod (s_same ac * 256) mod 256) :: u8) =
        of_nat (unat (addr mod (s_same ac * 256)) mod 256)"
      by (metis of_nat_unat)
    have k: "k = unat (s_near ac) + 2 + unat (addr mod (s_same ac * 256)) div 256"
      "bs = [of_nat (unat (addr mod (s_same ac * 256)) mod 256)]"
      using code best True by (auto simp: address_code_def Let_def)
    from enc best True ps show ?thesis
      by (auto simp: xd3_encode_address_def Let_def k b u8_same_mode [OF wf]
          split: sum.splits dest: xd3_emit_byte_appends simp del: of_nat_add)
  next
    case False
    then have "k = unat bm" "bs = integer_bytes d" using code best by (auto simp: address_code_def)
    with enc best False ps show ?thesis
      by (auto simp: xd3_encode_address_def xd3_emit_uint32_t_def emit_integer_def
          split: sum.splits dest: xd3_emit_bytes_appends)
  qed
qed

lemma encode_address_total:
  assumes "mem_never_fails m"
  shows "\<exists>r. xd3_encode_address m ps ac addr here mode = Inr r"
proof -
  have byte: "\<exists>r. xd3_emit_byte m ps b = Inr r" for b
    using tail_with_room_total [OF assms, of ps] by (auto simp: xd3_emit_byte_def)
  obtain d bm good where "best_mode ac addr here = (d, bm, good)" by (cases "best_mode ac addr here")
  then show ?thesis
    using byte [of "ucast (addr mod (s_same ac * 256) mod 256)"]
      xd3_emit_bytes_total [OF assms, of ps "integer_bytes d"]
    by (auto simp: xd3_encode_address_def xd3_emit_uint32_t_def emit_integer_def Let_def
        split: sum.splits)
qed

section \<open>A run of addresses\<close>

text \<open>
  The contract of a coder whose two sides carry the same state: what the encoder writes
  of one item, the decoder reads back, leaving it in the encoder's next state. A run of
  items then reads back item by item. \<open>'h\<close> is what both sides know of an item.
\<close>

locale state_code =
  fixes enc :: "'s \<Rightarrow> 'a \<Rightarrow> 'h \<Rightarrow> 'm \<times> bytes"
    and dec :: "'s \<Rightarrow> 'h \<Rightarrow> 'm \<Rightarrow> bytes \<Rightarrow> ('e + ('a \<times> 's \<times> bytes)) option"
    and upd :: "'s \<Rightarrow> 'a \<Rightarrow> 's"
    and inv :: "'s \<Rightarrow> bool"
  assumes inv_upd: "inv s \<Longrightarrow> inv (upd s a)"
    and dec_enc: "inv s \<Longrightarrow> enc s a h = (m, bs) \<Longrightarrow> dec s h m (bs @ rest) = Some (Inr (a, upd s a, rest))"
begin

primrec enc_run :: "'s \<Rightarrow> ('a \<times> 'h) list \<Rightarrow> 'm list \<times> bytes" where
  "enc_run s [] = ([], [])"
| "enc_run s (i # is) =
     (let (m, bs) = enc s (fst i) (snd i); (ms, bs') = enc_run (upd s (fst i)) is
      in (m # ms, bs @ bs'))"

primrec dec_run :: "'s \<Rightarrow> ('h \<times> 'm) list \<Rightarrow> bytes \<Rightarrow> ('e + ('a list \<times> 's \<times> bytes)) option" where
  "dec_run s [] inp = Some (Inr ([], s, inp))"
| "dec_run s (i # is) inp =
     (case dec s (fst i) (snd i) inp of
        None \<Rightarrow> None
      | Some (Inl e) \<Rightarrow> Some (Inl e)
      | Some (Inr (a, s', inp')) \<Rightarrow>
          (case dec_run s' is inp' of
             None \<Rightarrow> None
           | Some (Inl e) \<Rightarrow> Some (Inl e)
           | Some (Inr (as, s'', out)) \<Rightarrow> Some (Inr (a # as, s'', out))))"

lemma inv_run: "inv s \<Longrightarrow> inv (fold (\<lambda>i s. upd s (fst i)) is s)"
  by (induction "is" arbitrary: s) (simp_all add: inv_upd)

lemma dec_run_enc_run:
  "inv s \<Longrightarrow> enc_run s is = (ms, bs) \<Longrightarrow>
   dec_run s (zip (map snd is) ms) (bs @ rest) =
     Some (Inr (map fst is, fold (\<lambda>i s. upd s (fst i)) is s, rest))"
proof (induction "is" arbitrary: s ms bs)
  case (Cons i "is")
  obtain m b where e: "enc s (fst i) (snd i) = (m, b)" by (cases "enc s (fst i) (snd i)")
  obtain ms' b' where r: "enc_run (upd s (fst i)) is = (ms', b')" by (cases "enc_run (upd s (fst i)) is")
  have eq: "ms = m # ms'" "bs = b @ b'" using Cons.prems(2) e r by auto
  show ?case
    using dec_enc [OF Cons.prems(1) e, of "b' @ rest"] Cons.IH [OF inv_upd [OF Cons.prems(1)] r]
    by (simp add: eq)
qed simp

end

interpretation addrs: state_code address_code xd3_decode_address xd3_update_cache wf_cache
  by unfold_locales (simp_all add: wf_update_cache decode_address_code)

text \<open>
  The addresses of a window's copies, one after another: each with the position it is encoded at,
  \<open>base\<close> the type of a copy without its mode.
\<close>

fun encode_addresses :: "enc_mem \<Rightarrow> xd3_output list \<Rightarrow> xd3_addr_cache \<Rightarrow> u8 \<Rightarrow> (u32 \<times> u32) list \<Rightarrow>
    xd3_err + (xd3_output list \<times> enc_mem \<times> xd3_addr_cache \<times> u8 list)" where
  "encode_addresses m ps ac base [] = Inr (ps, m, ac, [])"
| "encode_addresses m ps ac base (i # is) =
     err_then (xd3_encode_address m ps ac (fst i) (snd i) base) (\<lambda>(ps, m, ac, ty).
     err_then (encode_addresses m ps ac base is) (\<lambda>(ps, m, ac, tys). Inr (ps, m, ac, ty # tys)))"

lemma encode_addresses_run:
  assumes "wf_cache ac" "mem_never_fails m" "ps \<noteq> []" "addrs.enc_run ac is = (ks, bs)"
  shows "\<exists>ps' m'. encode_addresses m ps ac base is =
      Inr (ps', m', fold (\<lambda>i s. xd3_update_cache s (fst i)) is ac, map (\<lambda>k. base + of_nat k) ks) \<and>
    chain_bytes ps' = chain_bytes ps @ bs \<and> list_all (\<lambda>k. k < cache_modes ac) ks \<and> length ks = length is"
  using assms
proof (induction "is" arbitrary: m ps ac ks bs)
  case (Cons i "is")
  let ?ac = "xd3_update_cache ac (fst i)"
  obtain k b where c: "address_code ac (fst i) (snd i) = (k, b)" by (cases "address_code ac (fst i) (snd i)")
  obtain ks' bs' where r: "addrs.enc_run ?ac is = (ks', bs')" by (cases "addrs.enc_run ?ac is")
  have eq: "ks = k # ks'" "bs = b @ bs'" using Cons.prems(4) c r by auto
  obtain ps1 m1 ac1 ty where e: "xd3_encode_address m ps ac (fst i) (snd i) base = Inr (ps1, m1, ac1, ty)"
    using encode_address_total [OF Cons.prems(2), of ps ac "fst i" "snd i" base] by auto
  note one = encode_address_code [OF Cons.prems(1) c e Cons.prems(3)]
  have m1: "mem_never_fails m1" using one Cons.prems(2) by (simp add: mem_never_fails_def)
  have modes: "cache_modes ?ac = cache_modes ac" by (simp add: cache_modes_def xd3_update_cache_def Let_def)
  from Cons.IH [OF wf_update_cache [OF Cons.prems(1)] m1 _ r, of ps1] one
  show ?case using decode_address_code(1) [OF Cons.prems(1) c] e modes by (auto simp: eq)
qed simp

section \<open>Safety and size\<close>

text \<open>A mode of the code table never reads outside the arrays, whatever the input.\<close>

lemma decode_address_safe:
  assumes wf: "wf_cache ac" and mode: "mode < cache_modes ac"
  shows "\<exists>r. xd3_decode_address ac here mode inp = Some r \<and>
    (\<forall>val ac' inp'. r = Inr (val, ac', inp') \<longrightarrow>
       ac' = xd3_update_cache ac val \<and> (\<exists>bs. bs \<noteq> [] \<and> inp = bs @ inp'))"
proof (cases "mode < 2 + unat (s_near ac)")
  case True
  have n: "mode - 2 < length (near_array ac) \<or> mode < 2"
    using True wf by (auto simp: wf_cache_def)
  have r: "\<exists>bs. bs \<noteq> [] \<and> inp = bs @ inp'" if "xd3_read_uint32_t inp = Inr (val, inp')" for val inp'
    using that by (auto simp: xd3_read_uint32_t_def UINT32_OFLOW_MASK_eq read_integer_iff)
  show ?thesis
    using True n r by (auto simp: xd3_decode_address_def Let_def VCD_SELF_def VCD_HERE_def split: sum.split)
next
  case False
  have "(mode - (2 + unat (s_near ac))) * 256 + unat b < length (same_array ac)" for b :: u8
  proof -
    have "mode - (2 + unat (s_near ac)) < unat (s_same ac)"
      using mode False by (simp add: cache_modes_def)
    then have "(mode - (2 + unat (s_near ac))) * 256 + 256 \<le> unat (s_same ac) * 256" by simp
    then show ?thesis using wf unat_less_u8 [of b] by (simp add: wf_cache_def)
  qed
  then show ?thesis
    using False by (auto simp: xd3_decode_address_def Let_def split: list.split)
qed

lemma integer_bytes_nonempty: "0 < length (integer_bytes (v :: u32))"
  using integer_bytes_shape(3) [of v] by simp

lemma integer_bytes_mono:
  fixes a b :: u32
  assumes "a \<le> b"
  shows "length (integer_bytes a) \<le> length (integer_bytes b)"
proof -
  let ?n = "length (integer_bytes b)"
  have "0 < ?n \<and> unat b < 128 ^ ?n" using integer_bytes_length_iff [of b ?n] by simp
  then have "0 < ?n \<and> unat a < 128 ^ ?n" using assms by (simp add: word_le_nat_alt)
  then show ?thesis using integer_bytes_length_iff [of a ?n] by simp
qed

lemma SMALLEST_INT_length:
  assumes "SMALLEST_INT d"
  shows "length (integer_bytes d) = 1"
proof -
  have "(127 :: u32) = mask 7" by (simp add: mask_eq_exp_minus_1)
  then have "unat d < 2 ^ 7"
    using assms and_not_mask_eq_0_iff [of d 7] by (simp add: SMALLEST_INT_def)
  then have "length (integer_bytes d) \<le> 1" using integer_bytes_length_iff [of d 1] by simp
  then show ?thesis using integer_bytes_nonempty [of d] by linarith
qed

lemma best_mode_least:
  assumes "best_mode ac addr here = (d, m, good)"
  shows "if good then SMALLEST_INT d
    else d \<le> addr \<and> d \<le> here - addr \<and> (\<forall>n \<in> set (near_array ac). n \<le> addr \<longrightarrow> d \<le> addr - n)"
  using assms near_search_least [of addr "near_array ac" 0]
  by (fastforce simp: best_mode_def Let_def in_set_conv_nth split: if_splits)

lemma address_code_smallest:
  assumes code: "address_code ac addr here = (mode, bs)"
  shows "length bs \<le> length (integer_bytes addr)"
    and "length bs \<le> length (integer_bytes (here - addr))"
    and "n \<in> set (near_array ac) \<Longrightarrow> n \<le> addr \<Longrightarrow> length bs \<le> length (integer_bytes (addr - n))"
    and "s_same ac > 0 \<Longrightarrow> same_array ac ! unat (addr mod (s_same ac * 256)) = addr \<Longrightarrow> length bs = 1"
proof -
  obtain d bm good where best: "best_mode ac addr here = (d, bm, good)" by (cases "best_mode ac addr here")
  note least = best_mode_least [OF best]
  have pos: "1 \<le> length (integer_bytes v)" for v :: u32 using integer_bytes_nonempty [of v] by linarith
  have good: "length bs = 1" if good
    using code best least that SMALLEST_INT_length by (auto simp: address_code_def)
  have same: "length bs = 1"
    if "s_same ac > 0" "same_array ac ! unat (addr mod (s_same ac * 256)) = addr" "\<not> good"
    using code best that by (auto simp: address_code_def Let_def)
  have other: "length bs \<le> length (integer_bytes d)" 
    using code best pos by (auto simp: address_code_def Let_def split: if_splits)
  show "length bs \<le> length (integer_bytes addr)"
    using good pos other least integer_bytes_mono [of d addr] by (cases good) (auto intro: order_trans)
  show "length bs \<le> length (integer_bytes (here - addr))"
    using good pos other least integer_bytes_mono [of d "here - addr"] by (cases good) (auto intro: order_trans)
  show "n \<in> set (near_array ac) \<Longrightarrow> n \<le> addr \<Longrightarrow> length bs \<le> length (integer_bytes (addr - n))"
    using good pos other least integer_bytes_mono [of d "addr - n"] by (cases good) (auto intro: order_trans)
  show "s_same ac > 0 \<Longrightarrow> same_array ac ! unat (addr mod (s_same ac * 256)) = addr \<Longrightarrow> length bs = 1"
    using good same by blast
qed

section \<open>Properties\<close>

text \<open>C16: What the encoder writes of an address, in the mode it picks, the decoder reads back to
  the same address, consuming exactly those bytes, and both sides are left with the same,
  still well-formed cache.\<close>

theorem address_roundtrip:
  assumes "wf_cache ac" and "mem_never_fails m" and "ps \<noteq> []"
  shows "\<exists>ps' m' k bs. xd3_encode_address m ps ac addr here mode =
      Inr (ps', m', xd3_update_cache ac addr, mode + of_nat k) \<and>
    k < cache_modes ac \<and> chain_bytes ps' = chain_bytes ps @ bs \<and>
    (\<forall>rest. xd3_decode_address ac here k (bs @ rest) = Some (Inr (addr, xd3_update_cache ac addr, rest))) \<and>
    wf_cache (xd3_update_cache ac addr)"
proof -
  obtain k bs where code: "address_code ac addr here = (k, bs)" by (cases "address_code ac addr here")
  obtain ps' m' ac' mode' where enc: "xd3_encode_address m ps ac addr here mode = Inr (ps', m', ac', mode')"
    using encode_address_total [OF assms(2), of ps ac addr here mode] by auto
  from encode_address_code [OF assms(1) code enc assms(3)] decode_address_code [OF assms(1) code]
    wf_update_cache [OF assms(1)] enc
  show ?thesis by blast
qed

definition rfc_cache :: xd3_addr_cache where
  "rfc_cache = xd3_init_cache
     \<lparr>s_near = 4, s_same = 3, next_slot = 0, near_array = replicate 4 0, same_array = replicate 768 0\<rparr>"

lemma wf_rfc_cache: "wf_cache rfc_cache"
  unfolding rfc_cache_def by (rule wf_init_cache) simp_all

theorem address_roundtrip_witness:
  "\<exists>ps' m' k. xd3_encode_address \<lparr>enc_free = [], enc_alloc = \<lambda>_ _. True\<rparr> [\<lparr>o_base = [], o_room = 8\<rparr>]
      rfc_cache 1000 1010 3 = Inr (ps', m', xd3_update_cache rfc_cache 1000, 3 + of_nat k)"
  using address_roundtrip [OF wf_rfc_cache, of "\<lparr>enc_free = [], enc_alloc = \<lambda>_ _. True\<rparr>"
      "[\<lparr>o_base = [], o_room = 8\<rparr>]" 1000 1010 3]
  by (auto simp: mem_never_fails_def)

text \<open>C27: Of a whole run of copies, the encoder writes the addresses and picks their types, and the
  decoder reads them all back from the bytes written, each with the mode that is in the copy's type:
  the two caches move in step.\<close>

theorem address_run_roundtrip:
  assumes "wf_cache ac" and "cache_modes ac \<le> 256" and "mem_never_fails m" and "ps \<noteq> []"
  shows "\<exists>ps' m' ac' tys bs. encode_addresses m ps ac base is = Inr (ps', m', ac', tys) \<and>
    length tys = length is \<and> chain_bytes ps' = chain_bytes ps @ bs \<and>
    (\<forall>rest. addrs.dec_run ac (zip (map snd is) (map (\<lambda>ty. unat (ty - base)) tys)) (bs @ rest) =
       Some (Inr (map fst is, ac', rest)))"
proof -
  obtain ks bs where r: "addrs.enc_run ac is = (ks, bs)" by (cases "addrs.enc_run ac is")
  obtain ps' m' where e: "encode_addresses m ps ac base is =
      Inr (ps', m', fold (\<lambda>i s. xd3_update_cache s (fst i)) is ac, map (\<lambda>k. base + of_nat k) ks)"
    "chain_bytes ps' = chain_bytes ps @ bs" "list_all (\<lambda>k. k < cache_modes ac) ks" "length ks = length is"
    using encode_addresses_run [OF assms(1,3,4) r] by blast
  have "map (\<lambda>ty. unat (ty - base)) (map (\<lambda>k. base + of_nat k) ks) = ks"
    using e(3) assms(2) by (intro nth_equalityI) (auto simp: list_all_length unsigned_of_nat take_bit_nat_eq_self)
  then show ?thesis using e addrs.dec_run_enc_run [OF assms(1) r] by auto
qed

theorem address_run_roundtrip_witness:
  "\<exists>ps' m' ac' tys. encode_addresses \<lparr>enc_free = [], enc_alloc = \<lambda>_ _. True\<rparr> [\<lparr>o_base = [], o_room = 8\<rparr>] rfc_cache 3
       [(900, 1000), (900, 2000)] = Inr (ps', m', ac', tys) \<and>
     addrs.dec_run rfc_cache (zip [1000, 2000] (map (\<lambda>ty. unat (ty - 3)) tys)) (chain_bytes ps') =
       Some (Inr ([900, 900], ac', []))"
proof -
  have "cache_modes rfc_cache \<le> 256" by (simp add: cache_modes_def rfc_cache_def xd3_init_cache_def)
  from address_run_roundtrip [OF wf_rfc_cache this, of "\<lparr>enc_free = [], enc_alloc = \<lambda>_ _. True\<rparr>"
      "[\<lparr>o_base = [], o_room = 8\<rparr>]" 3 "[(900, 1000), (900, 2000)]"]
  show ?thesis by (force simp: mem_never_fails_def chain_bytes_def dest: spec [of _ "[]"])
qed

text \<open>C28: What the encoder writes of an address is as short as any of the modes can make it: no longer than
  the address itself, its distance from the current position, or its distance from any near
  address at or below it, and one byte when the same cache holds it.\<close>

theorem encoded_address_is_smallest:
  assumes "wf_cache ac" and "ps \<noteq> []"
    and "xd3_encode_address m ps ac addr here mode = Inr (ps', m', ac', mode')"
  shows "\<exists>bs. chain_bytes ps' = chain_bytes ps @ bs \<and>
    length bs \<le> length (integer_bytes addr) \<and>
    length bs \<le> length (integer_bytes (here - addr)) \<and>
    (\<forall>n \<in> set (near_array ac). n \<le> addr \<longrightarrow> length bs \<le> length (integer_bytes (addr - n))) \<and>
    (s_same ac > 0 \<and> same_array ac ! unat (addr mod (s_same ac * 256)) = addr \<longrightarrow> length bs = 1)"
proof -
  obtain k bs where c: "address_code ac addr here = (k, bs)" by (cases "address_code ac addr here")
  show ?thesis using encode_address_code [OF assms(1) c assms(3,2)] address_code_smallest [OF c] by blast
qed

theorem encoded_address_is_smallest_witness:
  "\<exists>ps' m' ac' ty. xd3_encode_address \<lparr>enc_free = [], enc_alloc = \<lambda>_ _. True\<rparr> [\<lparr>o_base = [], o_room = 8\<rparr>] rfc_cache 0x12345 0x12400 3 =
       Inr (ps', m', ac', ty) \<and> length (chain_bytes ps') \<le> 2"
proof -
  let ?m = "\<lparr>enc_free = [], enc_alloc = \<lambda>_ _. True\<rparr>" and ?ps = "[\<lparr>o_base = [], o_room = 8\<rparr>]"
  obtain r where e: "xd3_encode_address ?m ?ps rfc_cache 0x12345 0x12400 3 = Inr r"
    using encode_address_total [of ?m ?ps rfc_cache "0x12345" "0x12400" 3] by (auto simp: mem_never_fails_def)
  obtain ps' m' ac' ty where r: "r = (ps', m', ac', ty)" by (cases r)
  have "length (integer_bytes (0x12400 - 0x12345 :: u32)) = 2" by code_simp
  moreover have "chain_bytes ?ps = []" by (simp add: chain_bytes_def)
  ultimately show ?thesis using encoded_address_is_smallest [OF wf_rfc_cache _ e [unfolded r]] e r by auto
qed

text \<open>C26: With a mode of the code table, decoding an address never reads outside the cache arrays
  whatever the input bytes; it consumes at least a byte, and the caches stay well-formed.\<close>

theorem decode_address_in_bounds:
  assumes "wf_cache ac" and "mode < cache_modes ac"
  shows "\<exists>r. xd3_decode_address ac here mode inp = Some r \<and>
    (\<forall>val ac' inp'. r = Inr (val, ac', inp') \<longrightarrow>
       wf_cache ac' \<and> cache_modes ac' = cache_modes ac \<and> length inp' < length inp)"
  using decode_address_safe [OF assms, of here inp] wf_update_cache [OF assms(1)]
  by (fastforce simp: cache_modes_def)

theorem decode_address_in_bounds_witness:
  "\<exists>r. xd3_decode_address rfc_cache 500 8 [255] = Some r"
  using decode_address_in_bounds [OF wf_rfc_cache, of 8 500 "[255]"]
  by (auto simp: cache_modes_def rfc_cache_def xd3_init_cache_def)

end
