(* ===== verification/CodeTable.thy ===== *)
theory CodeTable
  imports Prelude
begin

text \<open>
  Instruction code tables (\<^verbatim>\<open>xdelta3.c\<close>, instruction tables): the parametrised
  description of a table, the table built from it, the two versions of the function that
  picks the opcode of an instruction, and the 1536-byte string that stands for a table
  in a VCDIFF header.
\<close>

section \<open>Instructions\<close>

definition XD3_NOOP :: nat where "XD3_NOOP = 0"
definition XD3_ADD :: nat where "XD3_ADD = 1"
definition XD3_RUN :: nat where "XD3_RUN = 2"
definition XD3_CPY :: nat where "XD3_CPY = 3"

lemmas inst_types = XD3_NOOP_def XD3_ADD_def XD3_RUN_def XD3_CPY_def

definition MIN_MATCH :: nat where "MIN_MATCH = 4"
definition MIN_ADD :: nat where "MIN_ADD = 1"

text \<open>The code-table form of a single or double instruction.\<close>

record xd3_dinst =
  type1 :: u8
  size1 :: u8
  type2 :: u8
  size2 :: u8

text \<open>The raw encoding of an instruction used in the instruction buffer.\<close>

record xd3_rinst =
  r_type :: u8
  r_xtra :: u8
  r_code1 :: u8
  r_code2 :: u8
  r_pos :: u32
  r_size :: u32
  r_addr :: u64

section \<open>Table descriptions\<close>

record xd3_code_table_sizes =
  cpy_max :: u8
  ct_offset :: u8
  ct_mult :: u8

record xd3_code_table_desc =
  add_sizes :: u8
  near_modes :: u8
  same_modes :: u8
  cpy_sizes :: u8
  addcopy_add_max :: u8
  addcopy_near_cpy_max :: u8
  addcopy_same_cpy_max :: u8
  copyadd_add_max :: u8
  copyadd_near_cpy_max :: u8
  copyadd_same_cpy_max :: u8
  addcopy_max_sizes :: "xd3_code_table_sizes list"
  copyadd_max_sizes :: "xd3_code_table_sizes list"

definition ct_sizes :: "u8 \<times> u8 \<times> u8 \<Rightarrow> xd3_code_table_sizes" where
  "ct_sizes t = (case t of (c, off, m) \<Rightarrow> \<lparr>cpy_max = c, ct_offset = off, ct_mult = m\<rparr>)"

definition rfc3284_code_table_desc :: xd3_code_table_desc where
  "rfc3284_code_table_desc =
     \<lparr>add_sizes = 17, near_modes = 4, same_modes = 3, cpy_sizes = 15,
      addcopy_add_max = 4, addcopy_near_cpy_max = 6, addcopy_same_cpy_max = 4,
      copyadd_add_max = 1, copyadd_near_cpy_max = 4, copyadd_same_cpy_max = 4,
      addcopy_max_sizes = map ct_sizes
        [(6, 163, 3), (6, 175, 3), (6, 187, 3), (6, 199, 3), (6, 211, 3), (6, 223, 3),
         (4, 235, 1), (4, 239, 1), (4, 243, 1)],
      copyadd_max_sizes = map ct_sizes
        [(4, 247, 1), (4, 248, 1), (4, 249, 1), (4, 250, 1), (4, 251, 1), (4, 252, 1),
         (4, 253, 1), (4, 254, 1), (4, 255, 1)]\<rparr>"

definition alternate_code_table_desc :: xd3_code_table_desc where
  "alternate_code_table_desc =
     \<lparr>add_sizes = 23, near_modes = 5, same_modes = 0, cpy_sizes = 17,
      addcopy_add_max = 4, addcopy_near_cpy_max = 6, addcopy_same_cpy_max = 0,
      copyadd_add_max = 3, copyadd_near_cpy_max = 4, copyadd_same_cpy_max = 0,
      addcopy_max_sizes = map ct_sizes
        [(6, 151, 3), (6, 163, 3), (6, 175, 3), (6, 187, 3), (6, 199, 3), (6, 211, 3),
         (6, 223, 3), (0, 0, 0), (0, 0, 0)],
      copyadd_max_sizes = map ct_sizes
        [(4, 235, 1), (4, 238, 1), (4, 241, 1), (4, 244, 1), (4, 247, 1), (4, 250, 1),
         (4, 253, 1), (0, 0, 0), (0, 0, 0)]\<rparr>"

section \<open>Building a table\<close>

text \<open>An entry whose first half, or both halves, are set; the rest of the static array is zero.\<close>

definition single_inst :: "nat \<Rightarrow> nat \<Rightarrow> xd3_dinst" where
  "single_inst t s = \<lparr>type1 = of_nat t, size1 = of_nat s, type2 = 0, size2 = 0\<rparr>"

definition double_inst :: "nat \<Rightarrow> nat \<Rightarrow> nat \<Rightarrow> nat \<Rightarrow> xd3_dinst" where
  "double_inst t1 s1 t2 s2 =
     \<lparr>type1 = of_nat t1, size1 = of_nat s1, type2 = of_nat t2, size2 = of_nat s2\<rparr>"

text \<open>The entries in the order the code writes them, the pointer \<^verbatim>\<open>d\<close> moving on by one each time.\<close>

definition xd3_build_code_table :: "xd3_code_table_desc \<Rightarrow> xd3_dinst list" where
  "xd3_build_code_table desc =
     (let cpy_modes = 2 + unat (near_modes desc) + unat (same_modes desc);
          addcopy_max = (\<lambda>mode. if mode < 2 + unat (near_modes desc)
                                then unat (addcopy_near_cpy_max desc)
                                else unat (addcopy_same_cpy_max desc));
          copyadd_max = (\<lambda>mode. if mode < 2 + unat (near_modes desc)
                                then unat (copyadd_near_cpy_max desc)
                                else unat (copyadd_same_cpy_max desc))
      in [single_inst XD3_RUN 0, single_inst XD3_ADD 0] @
         map (single_inst XD3_ADD) [1 ..< unat (add_sizes desc) + 1] @
         concat (map (\<lambda>mode.
             single_inst (XD3_CPY + mode) 0 #
             map (single_inst (XD3_CPY + mode)) [MIN_MATCH ..< MIN_MATCH + unat (cpy_sizes desc)])
           [0 ..< cpy_modes]) @
         concat (map (\<lambda>mode.
             concat (map (\<lambda>size1.
                 map (\<lambda>size2. double_inst XD3_ADD size1 (XD3_CPY + mode) size2)
                   [MIN_MATCH ..< addcopy_max mode + 1])
               [1 ..< unat (addcopy_add_max desc) + 1]))
           [0 ..< cpy_modes]) @
         concat (map (\<lambda>mode.
             concat (map (\<lambda>size1.
                 map (\<lambda>size2. double_inst (XD3_CPY + mode) size1 XD3_ADD size2)
                   [1 ..< unat (copyadd_add_max desc) + 1])
               [MIN_MATCH ..< copyadd_max mode + 1]))
           [0 ..< cpy_modes]))"

definition xd3_rfc3284_code_table :: "xd3_dinst list" where
  "xd3_rfc3284_code_table = xd3_build_code_table rfc3284_code_table_desc"

definition xd3_alternate_code_table :: "xd3_dinst list" where
  "xd3_alternate_code_table = xd3_build_code_table alternate_code_table_desc"

section \<open>Choosing an opcode\<close>

text \<open>
  Both versions update \<^verbatim>\<open>inst->code1\<close> and, when the pair fits a double instruction,
  \<^verbatim>\<open>prev->code2\<close>; they return the two instructions.
\<close>

definition choose_instruction_desc ::
    "xd3_code_table_desc \<Rightarrow> xd3_rinst option \<Rightarrow> xd3_rinst \<Rightarrow> xd3_rinst option \<times> xd3_rinst" where
  "choose_instruction_desc desc prev inst =
     (let t = unat (r_type inst) in
      if t = XD3_RUN then (prev, inst\<lparr>r_code1 := 0\<rparr>)
      else if t = XD3_ADD then
        (if r_size inst > ucast (add_sizes desc) then (prev, inst\<lparr>r_code1 := 1\<rparr>)
         else
           (let inst' = inst\<lparr>r_code1 := ucast (1 + r_size inst)\<rparr> in
            case prev of
              None \<Rightarrow> (None, inst')
            | Some p \<Rightarrow>
                (let prev_mode = int (unat (r_type p)) - int XD3_CPY in
                 if prev_mode \<ge> 0 \<and> r_size inst \<le> ucast (copyadd_add_max desc)
                 then
                   (let sizes = copyadd_max_sizes desc ! nat prev_mode in
                    if r_size p \<le> ucast (cpy_max sizes)
                    then (Some (p\<lparr>r_code2 := ucast (ucast (ct_offset sizes) +
                                (ucast (ct_mult sizes) * (r_size p - of_nat MIN_MATCH)) +
                                (r_size inst - of_nat MIN_ADD) :: u32)\<rparr>), inst')
                    else (prev, inst'))
                 else (prev, inst'))))
      else
        (let mode = int t - int XD3_CPY;
             code1 = (of_int (2 + int (unat (add_sizes desc)) +
                              (1 + int (unat (cpy_sizes desc))) * mode) :: u8)
         in if r_size inst < of_nat MIN_MATCH + ucast (cpy_sizes desc) \<and>
               r_size inst \<ge> of_nat MIN_MATCH
            then
              (let inst' = inst\<lparr>r_code1 := code1 + ucast (r_size inst + 1 - of_nat MIN_MATCH)\<rparr> in
               case prev of
                 None \<Rightarrow> (None, inst')
               | Some p \<Rightarrow>
                   (if unat (r_type p) = XD3_ADD \<and> r_size p \<le> ucast (addcopy_add_max desc)
                    then
                      (let sizes = addcopy_max_sizes desc ! nat mode in
                       if r_size inst \<le> ucast (cpy_max sizes)
                       then (Some (p\<lparr>r_code2 := ucast (ucast (ct_offset sizes) +
                                   (ucast (ct_mult sizes) * (r_size p - of_nat MIN_ADD)) +
                                   (r_size inst - of_nat MIN_MATCH) :: u32)\<rparr>), inst')
                       else (prev, inst'))
                    else (prev, inst')))
            else (prev, inst\<lparr>r_code1 := code1\<rparr>)))"

definition xd3_choose_instruction ::
    "xd3_rinst option \<Rightarrow> xd3_rinst \<Rightarrow> xd3_rinst option \<times> xd3_rinst" where
  "xd3_choose_instruction prev inst =
     (let t = unat (r_type inst) in
      if t = XD3_RUN then (prev, inst\<lparr>r_code1 := 0\<rparr>)
      else if t = XD3_ADD then
        (if r_size inst \<le> 17
         then
           (let inst' = inst\<lparr>r_code1 := 1 + ucast (r_size inst)\<rparr> in
            case prev of
              None \<Rightarrow> (None, inst')
            | Some p \<Rightarrow>
                (if r_size inst = 1 \<and> r_size p = 4 \<and> unat (r_type p) \<ge> XD3_CPY
                 then (Some (p\<lparr>r_code2 := of_int (247 + (int (unat (r_type p)) - int XD3_CPY))\<rparr>), inst')
                 else (prev, inst')))
         else (prev, inst\<lparr>r_code1 := 1\<rparr>))
      else
        (let mode = int t - int XD3_CPY; code1 = (of_int (19 + 16 * mode) :: u8)
         in if r_size inst \<le> 18 \<and> r_size inst \<ge> 4
            then
              (let inst' = inst\<lparr>r_code1 := code1 + ucast (r_size inst - 3)\<rparr> in
               case prev of
                 None \<Rightarrow> (None, inst')
               | Some p \<Rightarrow>
                   (if unat (r_type p) = XD3_ADD \<and> r_size p \<le> 4
                    then
                      (if r_size inst \<le> 6 \<and> mode \<le> 5
                       then (Some (p\<lparr>r_code2 := of_int (163 + (mode * 12)) +
                                   ucast ((3 * (r_size p - 1)) + (r_size inst - 4) :: u32)\<rparr>), inst')
                       else if r_size inst = 4 \<and> mode \<ge> 6
                       then (Some (p\<lparr>r_code2 := of_int (235 + ((mode - 6) * 4)) +
                                   ucast (r_size p - 1 :: u32)\<rparr>), inst')
                       else (prev, inst'))
                    else (prev, inst')))
            else (prev, inst\<lparr>r_code1 := code1\<rparr>)))"

section \<open>The table as a string\<close>

definition CODE_TABLE_STRING_SIZE :: nat where
  "CODE_TABLE_STRING_SIZE = 6 * 256"

fun table_column :: "nat \<Rightarrow> xd3_dinst \<Rightarrow> u8" where
  "table_column s d =
     (if s = 0 then (if unat (type1 d) \<ge> XD3_CPY then of_nat XD3_CPY else type1 d)
      else if s = 1 then (if unat (type2 d) \<ge> XD3_CPY then of_nat XD3_CPY else type2 d)
      else if s = 2 then size1 d
      else if s = 3 then size2 d
      else if s = 4 then (if unat (type1 d) \<ge> XD3_CPY then type1 d - of_nat XD3_CPY else 0)
      else (if unat (type2 d) \<ge> XD3_CPY then type2 d - of_nat XD3_CPY else 0))"

definition xd3_compute_code_table_string :: "xd3_dinst list \<Rightarrow> bytes" where
  "xd3_compute_code_table_string code_table =
     concat (map (\<lambda>s. map (\<lambda>i. table_column s (code_table ! i)) [0 ..< 256]) [0 ..< 6])"

text \<open>One byte of the string, checked and put into column \<open>s\<close> of an entry.\<close>

fun apply_byte :: "nat \<Rightarrow> nat \<Rightarrow> u8 \<Rightarrow> xd3_dinst \<Rightarrow> xd3_err + xd3_dinst" where
  "apply_byte s modes c d =
     (if s = 0 then
        (if unat c > XD3_CPY then Inl (XD3_INTERNAL, ''invalid code-table opcode'')
         else Inr (d\<lparr>type1 := c\<rparr>))
      else if s = 1 then
        (if unat c > XD3_CPY then Inl (XD3_INTERNAL, ''invalid code-table opcode'')
         else Inr (d\<lparr>type2 := c\<rparr>))
      else if s = 2 then
        (if c \<noteq> 0 \<and> unat (type1 d) = XD3_NOOP then Inl (XD3_INTERNAL, ''invalid code-table size'')
         else Inr (d\<lparr>size1 := c\<rparr>))
      else if s = 3 then
        (if c \<noteq> 0 \<and> unat (type2 d) = XD3_NOOP then Inl (XD3_INTERNAL, ''invalid code-table size'')
         else Inr (d\<lparr>size2 := c\<rparr>))
      else if s = 4 then
        (if unat c \<ge> modes then Inl (XD3_INTERNAL, ''invalid code-table mode'')
         else if c \<noteq> 0 \<and> unat (type1 d) \<noteq> XD3_CPY then Inl (XD3_INTERNAL, ''invalid code-table mode'')
         else Inr (d\<lparr>type1 := type1 d + c\<rparr>))
      else
        (if unat c \<ge> modes then Inl (XD3_INTERNAL, ''invalid code-table mode'')
         else if c \<noteq> 0 \<and> unat (type2 d) \<noteq> XD3_CPY then Inl (XD3_INTERNAL, ''invalid code-table mode'')
         else Inr (d\<lparr>type2 := type2 d + c\<rparr>)))"

text \<open>The inner loop over the 256 entries, and the outer loop over the columns.\<close>

fun apply_column :: "nat \<Rightarrow> nat \<Rightarrow> xd3_dinst list \<Rightarrow> bytes \<Rightarrow> xd3_err + (xd3_dinst list \<times> bytes)" where
  "apply_column s modes [] str = Inr ([], str)"
| "apply_column s modes (d # ds) str =
     (case apply_byte s modes (hd str) d of
        Inl e \<Rightarrow> Inl e
      | Inr d' \<Rightarrow>
          (case apply_column s modes ds (tl str) of
             Inl e \<Rightarrow> Inl e
           | Inr (ds', str') \<Rightarrow> Inr (d' # ds', str')))"

fun apply_columns :: "nat list \<Rightarrow> nat \<Rightarrow> xd3_dinst list \<Rightarrow> bytes \<Rightarrow> xd3_err + xd3_dinst list" where
  "apply_columns [] modes ds str = Inr ds"
| "apply_columns (s # ss) modes ds str =
     (case apply_column s modes ds str of
        Inl e \<Rightarrow> Inl e
      | Inr (ds', str') \<Rightarrow> apply_columns ss modes ds' str')"

text \<open>
  \<open>alloc\<close> is the allocator's answer for the 256 entries. The string is a buffer of
  \<^verbatim>\<open>CODE_TABLE_STRING_SIZE\<close> bytes; every field of an entry is written before it is read, so
  the initial contents do not matter.
\<close>

definition xd3_apply_table_string :: "bool \<Rightarrow> nat \<Rightarrow> bytes \<Rightarrow> xd3_err + xd3_dinst list" where
  "xd3_apply_table_string alloc modes code_string =
     (if \<not> alloc then Inl (ENOMEM, ''out of memory'')
      else apply_columns [0 ..< 6] modes (replicate 256 (single_inst 0 0)) code_string)"

section \<open>The default table entry by entry\<close>

text \<open>The default code table of RFC 3284, section 5.6, entry by entry.\<close>

definition rfc_entry :: "nat \<Rightarrow> xd3_dinst" where
  "rfc_entry k =
     (if k = 0 then single_inst XD3_RUN 0
      else if k = 1 then single_inst XD3_ADD 0
      else if k < 19 then single_inst XD3_ADD (k - 1)
      else if k < 163 then
        (let j = k - 19
         in single_inst (XD3_CPY + j div 16) (if j mod 16 = 0 then 0 else j mod 16 + 3))
      else if k < 235 then
        (let j = k - 163
         in double_inst XD3_ADD (j mod 12 div 3 + 1) (XD3_CPY + j div 12) (j mod 3 + 4))
      else if k < 247 then
        (let j = k - 235
         in double_inst XD3_ADD (j mod 4 + 1) (XD3_CPY + 6 + j div 4) 4)
      else double_inst (XD3_CPY + (k - 247)) 4 XD3_ADD 1)"

lemma rfc_table_entries: "xd3_rfc3284_code_table = map rfc_entry [0 ..< 256]"
  by code_simp

lemma rfc_table_nth: "k < 256 \<Longrightarrow> xd3_rfc3284_code_table ! k = rfc_entry k"
  by (simp add: rfc_table_entries)

definition valid_type :: "nat \<Rightarrow> bool" where
  "valid_type t \<longleftrightarrow> XD3_ADD \<le> t \<and> t \<le> XD3_CPY + 8"

definition valid_inst :: "xd3_rinst \<Rightarrow> bool" where
  "valid_inst i \<longleftrightarrow> valid_type (unat (r_type i)) \<and> 1 \<le> unat (r_size i) \<and>
     (unat (r_type i) \<ge> XD3_CPY \<longrightarrow> MIN_MATCH \<le> unat (r_size i))"

lemma type_cases:
  assumes "valid_type (unat (t::u8))"
  shows "t \<in> {1,2,3,4,5,6,7,8,9,10,11}"
proof -
  have "unat t \<in> {1,2,3,4,5,6,7,8,9,10,11}" using assms unfolding valid_type_def inst_types insert_iff empty_iff
    by presburger
  then have "(of_nat (unat t) :: u8) \<in> of_nat ` {1,2,3,4,5,6,7,8,9,10,11}" by blast
  then show ?thesis by simp
qed

lemma choose_eq:
  assumes i: "valid_inst inst" and p: "\<And>p. prev = Some p \<Longrightarrow> valid_inst p"
  shows "choose_instruction_desc rfc3284_code_table_desc prev inst = xd3_choose_instruction prev inst"
proof -
  obtain ty xt c1 c2 po sz ad where inst: "inst = \<lparr>r_type = ty, r_xtra = xt, r_code1 = c1, r_code2 = c2, r_pos = po, r_size = sz, r_addr = ad\<rparr>"
    by (cases inst)
  have ty: "ty \<in> {1,2,3,4,5,6,7,8,9,10,11}" using i inst by (intro type_cases) (simp add: valid_inst_def)
  show ?thesis
  proof (cases prev)
    case None
    show ?thesis using ty unfolding insert_iff empty_iff
      apply (elim disjE; simp add: None inst choose_instruction_desc_def xd3_choose_instruction_def rfc3284_code_table_desc_def inst_types MIN_MATCH_def MIN_ADD_def Let_def u8_of_u32_add u8_of_u32_diff word_le_nat_alt word_less_nat_alt)
      done
  next
    case (Some p)
    have vp: "valid_inst p" using p Some by blast
    have pt: "r_type p \<in> {1,2,3,4,5,6,7,8,9,10,11}" using vp by (intro type_cases) (simp add: valid_inst_def)
    note defs = Some inst choose_instruction_desc_def xd3_choose_instruction_def
      rfc3284_code_table_desc_def inst_types MIN_MATCH_def MIN_ADD_def Let_def ct_sizes_def
      u8_of_u32_add u8_of_u32_diff u8_of_u32_mult word_le_nat_alt word_less_nat_alt
    note eqs = word_unat_eq_iff [of _ "4::u32"] word_unat_eq_iff [of _ "1::u32"]
    consider "ty = 1" | "ty = 2" | "ty \<in> {3,4,5,6,7,8,9,10,11}" using ty by blast
    then show ?thesis
    proof cases
      case 1
      have sz: "1 \<le> unat sz" using i by (simp add: valid_inst_def inst)
      have psz: "XD3_CPY \<le> unat (r_type p) \<Longrightarrow> 4 \<le> unat (r_size p)" using vp by (auto simp add: valid_inst_def MIN_MATCH_def)
      show ?thesis
      proof (cases "sz = 1 \<and> r_size p = 4")
        case True
        then show ?thesis using pt 1 unfolding insert_iff empty_iff
          by (elim disjE; simp add: defs)
      next
        case False
        then have "unat sz \<noteq> 1 \<or> unat (r_size p) \<noteq> 4" by (simp add: word_unat_eq_iff)
        then show ?thesis using pt sz psz 1 unfolding insert_iff empty_iff
          by (elim disjE; auto simp add: defs eqs)
      qed
    next
      case 2 then show ?thesis by (simp add: defs)
    next
      case 3
      then have "4 \<le> unat sz" using i by (auto simp add: valid_inst_def inst inst_types MIN_MATCH_def)
      show ?thesis
      proof (cases "sz = 4")
        case True
        with 3 show ?thesis unfolding insert_iff empty_iff by (elim disjE; simp add: defs)
      next
        case False
        then have "unat sz \<noteq> 4" by (simp add: word_unat_eq_iff)
        with 3 \<open>4 \<le> unat sz\<close> show ?thesis unfolding insert_iff empty_iff
          by (elim disjE; simp add: defs eqs)
      qed
    qed
  qed
qed

lemma rfc_entry_add: "n < 18 \<Longrightarrow> rfc_entry (Suc n) = single_inst XD3_ADD n"
  by (simp add: rfc_entry_def)

lemma rfc_entry_cpy0: "mode < 9 \<Longrightarrow> rfc_entry (19 + 16 * mode) = single_inst (XD3_CPY + mode) 0"
  by (simp add: rfc_entry_def)

lemma rfc_entry_cpy:
  assumes "mode < 9" "4 \<le> n" "n \<le> 18"
  shows "rfc_entry (19 + 16 * mode + (n - 3)) = single_inst (XD3_CPY + mode) n"
proof -
  have *: "\<forall>mode\<in>{0..<9}. \<forall>n\<in>{4..<19}.
      rfc_entry (19 + 16 * mode + (n - 3)) = single_inst (XD3_CPY + mode) n"
    by code_simp
  show ?thesis by (rule * [rule_format]) (use assms in simp_all)
qed

lemma rfc_entry_addcopy:
  assumes "mode < 9" "1 \<le> a" "a \<le> 4" "4 \<le> c" "c \<le> (if mode < 6 then 6 else 4)"
  shows "rfc_entry (if mode < 6 then 163 + 12 * mode + (3 * (a - 1) + (c - 4)) else 235 + 4 * (mode - 6) + (a - 1))
           = double_inst XD3_ADD a (XD3_CPY + mode) c"
proof -
  have *: "\<forall>mode\<in>{0..<9}. \<forall>a\<in>{1..<5}. \<forall>c\<in>{4..<(if mode < 6 then 7 else 5)}.
      rfc_entry (if mode < 6 then 163 + 12 * mode + (3 * (a - 1) + (c - 4)) else 235 + 4 * (mode - 6) + (a - 1))
           = double_inst XD3_ADD a (XD3_CPY + mode) c"
    by code_simp
  show ?thesis by (rule * [rule_format]) (use assms in \<open>auto split: if_splits\<close>)
qed

lemma rfc_entry_copyadd: "mode < 9 \<Longrightarrow> rfc_entry (247 + mode) = double_inst (XD3_CPY + mode) 4 XD3_ADD 1"
  by (simp add: rfc_entry_def)

text \<open>What it means that an opcode stands for one instruction or for a pair.\<close>

definition codes_single :: "xd3_dinst list \<Rightarrow> u8 \<Rightarrow> xd3_rinst \<Rightarrow> bool" where
  "codes_single table c i \<longleftrightarrow>
     table ! unat c = single_inst (unat (r_type i)) 0 \<or>
     table ! unat c = single_inst (unat (r_type i)) (unat (r_size i)) \<and> unat (r_size i) < 256"

definition codes_double :: "xd3_dinst list \<Rightarrow> u8 \<Rightarrow> xd3_rinst \<Rightarrow> xd3_rinst \<Rightarrow> bool" where
  "codes_double table c p i \<longleftrightarrow>
     table ! unat c = double_inst (unat (r_type p)) (unat (r_size p)) (unat (r_type i)) (unat (r_size i)) \<and>
     unat (r_size p) < 256 \<and> unat (r_size i) < 256"

lemma codes_singleI:
  assumes "unat c = k" "k < 256"
    "rfc_entry k = single_inst (unat (r_type i)) s" "s = 0 \<or> s = unat (r_size i) \<and> s < 256"
  shows "codes_single xd3_rfc3284_code_table c i"
  using assms by (auto simp: codes_single_def rfc_table_nth)

lemma codes_doubleI:
  assumes "unat c = k" "k < 256"
    "rfc_entry k = double_inst (unat (r_type p)) (unat (r_size p)) (unat (r_type i)) (unat (r_size i))"
    "unat (r_size p) < 256" "unat (r_size i) < 256"
  shows "codes_double xd3_rfc3284_code_table c p i"
  using assms by (auto simp: codes_double_def rfc_table_nth)

lemma choose_single_run:
  "unat (r_type inst) = XD3_RUN \<Longrightarrow> xd3_choose_instruction prev inst = (prev, inst\<lparr>r_code1 := 0\<rparr>)"
  by (simp add: xd3_choose_instruction_def)

lemma u8_of_int_nat: "0 \<le> k \<Longrightarrow> k < 256 \<Longrightarrow> unat (of_int k :: u8) = nat k"
  by (simp add: unsigned_of_int take_bit_int_eq_self)

lemma choose_single_add:
  assumes i: "unat (r_type inst) = XD3_ADD" and c: "xd3_choose_instruction prev inst = (prev', inst')"
  shows "\<exists>c. inst' = inst\<lparr>r_code1 := c\<rparr> \<and> codes_single xd3_rfc3284_code_table c inst"
proof (cases "r_size inst \<le> 17")
  case True
  then have n: "unat (r_size inst) \<le> 17" by (simp add: word_le_nat_alt)
  have "inst' = inst\<lparr>r_code1 := 1 + ucast (r_size inst)\<rparr>"
    using c True i by (auto simp: xd3_choose_instruction_def inst_types Let_def split: option.splits if_splits)
  moreover have "codes_single xd3_rfc3284_code_table (1 + ucast (r_size inst)) inst"
    by (rule codes_singleI [where k = "Suc (unat (r_size inst))"])
      (use n i in \<open>auto simp: unat_u8_plus_ucast rfc_entry_add\<close>)
  ultimately show ?thesis by blast
next
  case False
  then have "inst' = inst\<lparr>r_code1 := 1\<rparr>"
    using c i by (auto simp: xd3_choose_instruction_def inst_types Let_def split: option.splits if_splits)
  moreover have "codes_single xd3_rfc3284_code_table 1 inst"
    by (rule codes_singleI [where k = 1 and s = 0]) (use i in \<open>auto simp: rfc_entry_def\<close>)
  ultimately show ?thesis by blast
qed

lemma choose_single_cpy:
  assumes i: "valid_inst inst" "XD3_CPY \<le> unat (r_type inst)"
    and c: "xd3_choose_instruction prev inst = (prev', inst')"
  shows "\<exists>c. inst' = inst\<lparr>r_code1 := c\<rparr> \<and> codes_single xd3_rfc3284_code_table c inst"
proof -
  define m where "m = unat (r_type inst) - 3"
  have m: "unat (r_type inst) = 3 + m" "m < 9" "4 \<le> unat (r_size inst)"
    using i by (auto simp: valid_inst_def valid_type_def inst_types MIN_MATCH_def m_def)
  have c0: "unat (of_int (19 + 16 * int m) :: u8) = 19 + 16 * m" using m by (subst u8_of_int_nat) auto
  show ?thesis
  proof (cases "r_size inst \<le> 18 \<and> r_size inst \<ge> 4")
    case True
    then have n: "unat (r_size inst) \<le> 18" "3 \<le> r_size inst" by (auto simp: word_le_nat_alt)
    have "inst' = inst\<lparr>r_code1 := of_int (19 + 16 * int m) + ucast (r_size inst - 3)\<rparr>"
      using c True m by (auto simp: xd3_choose_instruction_def inst_types Let_def split: option.splits if_splits)
    moreover have "codes_single xd3_rfc3284_code_table (of_int (19 + 16 * int m) + ucast (r_size inst - 3)) inst"
    proof (rule codes_singleI [where k = "19 + 16 * m + (unat (r_size inst) - 3)" and s = "unat (r_size inst)"])
      show "unat (of_int (19 + 16 * int m) + ucast (r_size inst - 3) :: u8) = 19 + 16 * m + (unat (r_size inst) - 3)"
        using c0 n m by (subst unat_u8_plus_ucast) (simp_all add: unat_sub)
      show "rfc_entry (19 + 16 * m + (unat (r_size inst) - 3)) = single_inst (unat (r_type inst)) (unat (r_size inst))"
        using rfc_entry_cpy [of m "unat (r_size inst)"] n m by (simp add: inst_types)
    qed (use n m in auto)
    ultimately show ?thesis by blast
  next
    case False
    then have "inst' = inst\<lparr>r_code1 := of_int (19 + 16 * int m)\<rparr>"
      using c m by (auto simp: xd3_choose_instruction_def inst_types Let_def split: option.splits if_splits)
    moreover have "codes_single xd3_rfc3284_code_table (of_int (19 + 16 * int m)) inst"
      by (rule codes_singleI [where k = "19 + 16 * m" and s = 0])
        (use m c0 rfc_entry_cpy0 [of m] in \<open>auto simp: inst_types\<close>)
    ultimately show ?thesis by blast
  qed
qed

lemma choose_single:
  assumes "valid_inst inst" "xd3_choose_instruction prev inst = (prev', inst')"
  shows "\<exists>c. inst' = inst\<lparr>r_code1 := c\<rparr> \<and> codes_single xd3_rfc3284_code_table c inst"
proof -
  consider "unat (r_type inst) = XD3_RUN" | "unat (r_type inst) = XD3_ADD" | "XD3_CPY \<le> unat (r_type inst)"
    using assms(1) by (fastforce simp: valid_inst_def valid_type_def inst_types)
  then show ?thesis
  proof cases
    case 1
    have "codes_single xd3_rfc3284_code_table 0 inst"
      by (rule codes_singleI [where k = 0 and s = 0]) (use 1 in \<open>auto simp: rfc_entry_def\<close>)
    then show ?thesis using 1 assms(2) by (auto simp: choose_single_run)
  qed (use assms choose_single_add choose_single_cpy in auto)
qed

lemma choose_prev:
  assumes i: "valid_inst inst" and p: "valid_inst p"
    and c: "xd3_choose_instruction (Some p) inst = (prev', inst')"
  shows "prev' = Some p \<or>
    (\<exists>c. prev' = Some (p\<lparr>r_code2 := c\<rparr>) \<and> codes_double xd3_rfc3284_code_table c p inst)"
proof (cases "unat (r_type inst) = XD3_RUN \<or> prev' = Some p")
  case True
  then show ?thesis using c by (auto simp: choose_single_run)
next
  case notrun: False
  show ?thesis
  proof (cases "unat (r_type inst) = XD3_ADD")
    case True
    then have s: "r_size inst = 1" "r_size p = 4" "XD3_CPY \<le> unat (r_type p)"
      and prev': "prev' = Some (p\<lparr>r_code2 := of_int (247 + (int (unat (r_type p)) - int XD3_CPY))\<rparr>)"
      using c notrun by (auto simp: xd3_choose_instruction_def inst_types Let_def split: if_splits)
    define m where "m = unat (r_type p) - 3"
    have m: "unat (r_type p) = 3 + m" "m < 9"
      using p s by (auto simp: valid_inst_def valid_type_def inst_types m_def)
    have "codes_double xd3_rfc3284_code_table (of_int (247 + int m)) p inst"
      by (rule codes_doubleI [where k = "247 + m"])
        (use m s True u8_of_int_nat [of "247 + int m"] in
          \<open>auto simp: rfc_entry_copyadd inst_types\<close>)
    then show ?thesis using prev' m by (auto simp: inst_types)
  next
    case False
    define m where "m = unat (r_type inst) - 3"
    have m: "unat (r_type inst) = 3 + m" "m < 9" "4 \<le> unat (r_size inst)"
      using i False notrun by (auto simp: valid_inst_def valid_type_def inst_types MIN_MATCH_def m_def)
    have ap: "unat (r_type p) = XD3_ADD" "unat (r_size p) \<le> 4"
      and ge: "4 \<le> r_size inst" "1 \<le> r_size p"
      using c notrun m p
      by (auto simp: xd3_choose_instruction_def inst_types Let_def word_le_nat_alt valid_inst_def split: if_splits)
    let ?d = "3 * (r_size p - 1) + (r_size inst - 4)"
    consider (near) "m < 6" "unat (r_size inst) \<le> 6"
        "prev' = Some (p\<lparr>r_code2 := of_int (163 + int m * 12) + ucast ?d\<rparr>)"
      | (same) "6 \<le> m" "r_size inst = 4"
        "prev' = Some (p\<lparr>r_code2 := of_int (235 + (int m - 6) * 4) + ucast (r_size p - 1)\<rparr>)"
      using c notrun m by (auto simp: xd3_choose_instruction_def inst_types Let_def word_le_nat_alt split: if_splits)
    then show ?thesis
    proof cases
      case near
      define q where "q = r_size p - 1"
      have q: "unat q = unat (r_size p) - 1" using ge by (simp add: q_def unat_sub)
      have "unat (3 * q) = 3 * unat q" using ap q by (simp add: unat_word_ariths)
      then have d: "unat ?d = 3 * (unat (r_size p) - 1) + (unat (r_size inst) - 4)"
        using ap near ge q unfolding q_def [symmetric] by (simp add: unat_word_ariths unat_sub)
      have "codes_double xd3_rfc3284_code_table (of_int (163 + int m * 12) + ucast ?d) p inst"
      proof (rule codes_doubleI [where k = "163 + 12 * m + (3 * (unat (r_size p) - 1) + (unat (r_size inst) - 4))"])
        show "unat (of_int (163 + int m * 12) + ucast ?d :: u8) =
            163 + 12 * m + (3 * (unat (r_size p) - 1) + (unat (r_size inst) - 4))"
          using near ap d u8_of_int_nat [of "163 + int m * 12"]
          by (subst unat_u8_plus_ucast) (auto simp: nat_add_distrib nat_mult_distrib)
        show "rfc_entry (163 + 12 * m + (3 * (unat (r_size p) - 1) + (unat (r_size inst) - 4))) =
            double_inst (unat (r_type p)) (unat (r_size p)) (unat (r_type inst)) (unat (r_size inst))"
          using rfc_entry_addcopy [of m "unat (r_size p)" "unat (r_size inst)"] near ap ge m
          by (simp add: word_le_nat_alt inst_types)
      qed (use near ap in auto)
      then show ?thesis using near by blast
    next
      case same
      have s: "unat (r_size inst) = 4" using same by simp
      have d: "unat (r_size p - 1) = unat (r_size p) - 1" using ge by (simp add: unat_sub)
      have "codes_double xd3_rfc3284_code_table (of_int (235 + (int m - 6) * 4) + ucast (r_size p - 1)) p inst"
      proof (rule codes_doubleI [where k = "235 + 4 * (m - 6) + (unat (r_size p) - 1)"])
        show "unat (of_int (235 + (int m - 6) * 4) + ucast (r_size p - 1) :: u8) =
            235 + 4 * (m - 6) + (unat (r_size p) - 1)"
          using same ap d m u8_of_int_nat [of "235 + (int m - 6) * 4"]
          by (subst unat_u8_plus_ucast) (auto simp: nat_add_distrib nat_mult_distrib nat_diff_distrib)
        show "rfc_entry (235 + 4 * (m - 6) + (unat (r_size p) - 1)) =
            double_inst (unat (r_type p)) (unat (r_size p)) (unat (r_type inst)) (unat (r_size inst))"
          using rfc_entry_addcopy [of m "unat (r_size p)" "unat (r_size inst)"] same ap ge m s
          by (simp add: word_le_nat_alt inst_types)
      qed (use same ap s m in auto)
      then show ?thesis using same by blast
    qed
  qed
qed
section \<open>Table strings: round trip and safety\<close>

text \<open>Entries a table may hold: types up to the last copy mode, no size on a missing half.\<close>

fun wf_half :: "nat \<Rightarrow> u8 \<Rightarrow> u8 \<Rightarrow> bool" where
  "wf_half modes t s \<longleftrightarrow> unat t < XD3_CPY + modes \<and> (unat t = XD3_NOOP \<longrightarrow> s = 0)"

fun wf_dinst :: "nat \<Rightarrow> xd3_dinst \<Rightarrow> bool" where
  "wf_dinst modes d \<longleftrightarrow> wf_half modes (type1 d) (size1 d) \<and> wf_half modes (type2 d) (size2 d)"

definition wf_table :: "nat \<Rightarrow> xd3_dinst list \<Rightarrow> bool" where
  "wf_table modes table \<longleftrightarrow> length table = 256 \<and> list_all (wf_dinst modes) table"

text \<open>An entry after the first \<open>s\<close> columns of the string have been read into it.\<close>

fun after_columns :: "nat \<Rightarrow> xd3_dinst \<Rightarrow> xd3_dinst" where
  "after_columns s d =
     \<lparr>type1 = (if s = 0 then 0 else if s \<le> 4 then table_column 0 d else type1 d),
      size1 = (if s \<le> 2 then 0 else size1 d),
      type2 = (if s \<le> 1 then 0 else if s \<le> 5 then table_column 1 d else type2 d),
      size2 = (if s \<le> 3 then 0 else size2 d)\<rparr>"

lemma capped_type:
  fixes t :: u8
  shows "\<not> 3 < unat (if 3 \<le> unat t then 3 else t)"
    and "(if 3 \<le> unat t then 3 else t) + (if 3 \<le> unat t then t - 3 else 0) = t"
    and "3 \<le> unat t \<Longrightarrow> unat (t - 3) = unat t - 3"
  by (auto simp: unat_sub word_le_nat_alt)

lemma apply_byte_column:
  assumes "s < 6" "wf_dinst modes d" "0 < modes"
  shows "apply_byte s modes (table_column s d) (after_columns s d) = Inr (after_columns (Suc s) d)"
proof -
  have s: "s = 0 \<or> s = 1 \<or> s = 2 \<or> s = 3 \<or> s = 4 \<or> s = 5" using assms(1) by linarith
  then show ?thesis
    using assms(2,3) capped_type [of "type1 d"] capped_type [of "type2 d"] 
    by (elim disjE; auto simp: inst_types unat_sub word_le_nat_alt)
qed

lemma apply_column_map:
  assumes "s < 6" "list_all (wf_dinst modes) table" "0 < modes"
  shows "apply_column s modes (map (after_columns s) table) (map (table_column s) table @ rest) =
           Inr (map (after_columns (Suc s)) table, rest)"
  using assms(2)
proof (induction table)
  case (Cons d table)
  then have "apply_byte s modes (table_column s d) (after_columns s d) = Inr (after_columns (Suc s) d)"
    using apply_byte_column assms by simp
  then show ?case using Cons by (simp del: apply_byte.simps after_columns.simps table_column.simps)
qed simp

lemma code_table_columns:
  "length table = 256 \<Longrightarrow>
     xd3_compute_code_table_string table = concat (map (\<lambda>s. map (table_column s) table) [0 ..< 6])"
  unfolding xd3_compute_code_table_string_def
  by (rule arg_cong [where f = concat], rule map_cong [OF refl])
    (rule nth_equalityI; simp)

lemma apply_columns_concat:
  assumes "list_all (wf_dinst modes) table" "0 < modes"
  shows "s + n = 6 \<Longrightarrow>
    apply_columns [s ..< 6] modes (map (after_columns s) table)
       (concat (map (\<lambda>s. map (table_column s) table) [s ..< 6])) =
     Inr (map (after_columns 6) table)"
proof (induction n arbitrary: s)
  case (Suc n)
  then have "[s ..< 6] = s # [Suc s ..< 6]" by (simp add: upt_conv_Cons)
  then show ?case using Suc apply_column_map [OF _ assms] 
    by (simp del: apply_byte.simps after_columns.simps table_column.simps)
qed simp

lemma apply_compute_string:
  assumes "wf_table modes table" "0 < modes"
  shows "xd3_apply_table_string True modes (xd3_compute_code_table_string table) = Inr table"
proof -
  have len: "length table = 256" and wf: "list_all (wf_dinst modes) table"
    using assms by (auto simp: wf_table_def)
  have init: "replicate 256 (single_inst 0 0) = map (after_columns 0) table"
    using len by (intro nth_equalityI) (auto simp: single_inst_def)
  have last: "map (after_columns 6) table = table" by (simp add: map_idI)
  show ?thesis
    unfolding xd3_apply_table_string_def code_table_columns [OF len] init
    using apply_columns_concat [OF wf assms(2), of 0 6] last
    by (simp del: apply_columns.simps after_columns.simps upt_rec_numeral)
qed

text \<open>What the checks made so far say of an entry.\<close>

fun types_ok :: "nat \<Rightarrow> nat \<Rightarrow> xd3_dinst \<Rightarrow> bool" where
  "types_ok modes s d \<longleftrightarrow>
     (1 \<le> s \<longrightarrow> unat (type1 d) < XD3_CPY + (if s \<le> 4 then 1 else modes)) \<and>
     (2 \<le> s \<longrightarrow> unat (type2 d) < XD3_CPY + (if s \<le> 5 then 1 else modes))"

lemma apply_byte_ok:
  assumes "apply_byte s modes c d = Inr d'" "types_ok modes s d" "s < 6" "0 < modes" "modes \<le> 252"
  shows "types_ok modes (Suc s) d'"
proof -
  have add: "unat (t + c) < 3 + modes" if "unat t = 3" "unat c < modes" for t :: u8
  proof -
    have "unat (t + c) = unat t + unat c" using that assms(5) by (intro unat_add_noovf) simp
    then show ?thesis using that by simp
  qed
  have s: "s = 0 \<or> s = 1 \<or> s = 2 \<or> s = 3 \<or> s = 4 \<or> s = 5" using assms(3) by linarith
  then show ?thesis
    using assms(1,2,4) add by (elim disjE; auto simp: inst_types split: if_splits)
qed

lemma apply_column_ok:
  assumes "0 < modes" "modes \<le> 252" "s < 6"
  shows "apply_column s modes ds str = Inr (ds', str') \<Longrightarrow> list_all (types_ok modes s) ds \<Longrightarrow>
    list_all (types_ok modes (Suc s)) ds' \<and> length ds' = length ds"
proof (induction ds arbitrary: str ds')
  case (Cons d ds)
  then show ?case using apply_byte_ok assms
    by (auto simp del: apply_byte.simps types_ok.simps split: sum.splits prod.splits)
qed simp

lemma apply_columns_ok:
  assumes "0 < modes" "modes \<le> 252"
  shows "s + n = 6 \<Longrightarrow> apply_columns [s ..< 6] modes ds str = Inr ds' \<Longrightarrow>
    list_all (types_ok modes s) ds \<Longrightarrow> list_all (types_ok modes 6) ds' \<and> length ds' = length ds"
proof (induction n arbitrary: s ds str)
  case (Suc n)
  have "[s ..< 6] = s # [Suc s ..< 6]" using Suc.prems(1) by (simp add: upt_conv_Cons)
  with Suc.prems(2) obtain ds1 str1 where
    1: "apply_column s modes ds str = Inr (ds1, str1)" and
    2: "apply_columns [Suc s ..< 6] modes ds1 str1 = Inr ds'"
    by (auto split: sum.splits prod.splits)
  have 3: "list_all (types_ok modes (Suc s)) ds1 \<and> length ds1 = length ds"
    by (rule apply_column_ok [OF assms _ 1 Suc.prems(3)]) (use Suc.prems(1) in simp)
  have "list_all (types_ok modes 6) ds' \<and> length ds' = length ds1"
    by (rule Suc.IH [OF _ 2]) (use Suc.prems(1) 3 in \<open>simp_all del: types_ok.simps\<close>)
  then show ?case using 3 by (simp del: types_ok.simps)
qed (simp add: list_all_iff)

lemma apply_string_safe:
  assumes "xd3_apply_table_string alloc modes str = Inr table" "0 < modes" "modes \<le> 252"
  shows "length table = 256 \<and>
    list_all (\<lambda>d. unat (type1 d) < XD3_CPY + modes \<and> unat (type2 d) < XD3_CPY + modes) table"
proof -
  have "apply_columns [0..<6] modes (replicate 256 (single_inst 0 0)) str = Inr table"
    using assms(1) by (simp add: xd3_apply_table_string_def split: if_splits del: apply_columns.simps upt_rec_numeral)
  from apply_columns_ok [OF assms(2,3) _ this] show ?thesis
    by (simp add: list_all_iff)
qed

section \<open>Properties\<close>

lemma wf_rfc_table: "wf_table 9 xd3_rfc3284_code_table"
  by code_simp

lemma alternate_table_length: "length xd3_alternate_code_table = 256"
  by code_simp

text \<open>C23: The table built from the RFC 3284 description is the default code table of that
  standard, entry by entry, and the alternate description also fills exactly 256 entries.\<close>

theorem default_table_is_rfc3284:
  "xd3_rfc3284_code_table = map rfc_entry [0 ..< 256] \<and>
   length xd3_rfc3284_code_table = 256 \<and> length xd3_alternate_code_table = 256"
  by (simp add: rfc_table_entries alternate_table_length)

text \<open>C22: On the instructions the encoder makes, the hand-optimised opcode choice for the default
  table agrees with the choice driven by the table description.\<close>

theorem choose_instruction_generic:
  assumes "valid_inst inst" and "\<And>p. prev = Some p \<Longrightarrow> valid_inst p"
  shows "xd3_choose_instruction prev inst =
    choose_instruction_desc rfc3284_code_table_desc prev inst"
  using choose_eq [OF assms] by simp

definition sample_inst :: "u8 \<Rightarrow> u32 \<Rightarrow> xd3_rinst" where
  "sample_inst t n = \<lparr>r_type = t, r_xtra = 0, r_code1 = 0, r_code2 = 0, r_pos = 0, r_size = n, r_addr = 0\<rparr>"

theorem choose_instruction_generic_witness:
  "xd3_choose_instruction (Some (sample_inst 1 2)) (sample_inst 3 5) =
     choose_instruction_desc rfc3284_code_table_desc (Some (sample_inst 1 2)) (sample_inst 3 5)"
  by (rule choose_instruction_generic)
    (auto simp: valid_inst_def valid_type_def inst_types MIN_MATCH_def sample_inst_def)

text \<open>C21: The opcodes chosen mean what was asked for: the table entry of \<^verbatim>\<open>code1\<close> is the
  instruction alone, with its size or with a size to follow, and when the pair got a double
  opcode the table entry of \<^verbatim>\<open>code2\<close> is exactly the two instructions with their sizes.\<close>

theorem choose_instruction_sound:
  assumes "valid_inst inst" and "valid_inst p"
    and "xd3_choose_instruction (Some p) inst = (prev', inst')"
  shows "(\<exists>c. inst' = inst\<lparr>r_code1 := c\<rparr> \<and> codes_single xd3_rfc3284_code_table c inst) \<and>
    (prev' = Some p \<or>
     (\<exists>c. prev' = Some (p\<lparr>r_code2 := c\<rparr>) \<and> codes_double xd3_rfc3284_code_table c p inst))"
  using choose_single [OF assms(1,3)] choose_prev [OF assms] by blast

theorem choose_instruction_sound_witness:
  "\<exists>c. (sample_inst 3 5)\<lparr>r_code1 := 21\<rparr> = (sample_inst 3 5)\<lparr>r_code1 := c\<rparr> \<and>
     codes_single xd3_rfc3284_code_table c (sample_inst 3 5)"
proof -
  have "xd3_choose_instruction (Some (sample_inst 1 2)) (sample_inst 3 5) =
    (Some ((sample_inst 1 2)\<lparr>r_code2 := 167\<rparr>), (sample_inst 3 5)\<lparr>r_code1 := 21\<rparr>)"
    by (simp add: xd3_choose_instruction_def sample_inst_def inst_types)
  from choose_instruction_sound [OF _ _ this] show ?thesis
    by (simp add: valid_inst_def valid_type_def inst_types MIN_MATCH_def sample_inst_def)
qed

text \<open>C24: A code table written as the 1536-byte string of a VCDIFF header and applied again is
  the same table.\<close>

theorem code_table_string_roundtrip:
  assumes "wf_table modes table" and "0 < modes"
  shows "length (xd3_compute_code_table_string table) = CODE_TABLE_STRING_SIZE \<and>
    xd3_apply_table_string True modes (xd3_compute_code_table_string table) = Inr table"
proof -
  have "length (xd3_compute_code_table_string table) = CODE_TABLE_STRING_SIZE"
    by (simp add: xd3_compute_code_table_string_def CODE_TABLE_STRING_SIZE_def length_concat
        comp_def sum_list_triv del: upt_rec_numeral table_column.simps)
  then show ?thesis using apply_compute_string [OF assms] by simp
qed

theorem code_table_string_roundtrip_witness:
  "xd3_apply_table_string True 9 (xd3_compute_code_table_string xd3_rfc3284_code_table) =
     Inr xd3_rfc3284_code_table"
  using code_table_string_roundtrip [OF wf_rfc_table] by simp

text \<open>C25: Whatever the header bytes, an accepted code table has 256 entries and no copy mode
  beyond those of the address cache.\<close>

theorem applied_table_safe:
  assumes "xd3_apply_table_string alloc modes str = Inr table" and "0 < modes" and "modes \<le> 252"
  shows "length table = 256 \<and>
    (\<forall>d \<in> set table. unat (type1 d) < XD3_CPY + modes \<and> unat (type2 d) < XD3_CPY + modes)"
  using apply_string_safe [OF assms] by (simp add: list_all_iff)

theorem applied_table_safe_witness:
  "xd3_apply_table_string True 9 (xd3_compute_code_table_string xd3_rfc3284_code_table) =
     Inr xd3_rfc3284_code_table \<and>
   list_all (\<lambda>d. unat (type1 d) < 12 \<and> unat (type2 d) < 12) xd3_rfc3284_code_table"
proof -
  have t: "xd3_apply_table_string True 9 (xd3_compute_code_table_string xd3_rfc3284_code_table) =
      Inr xd3_rfc3284_code_table"
    by (rule apply_compute_string [OF wf_rfc_table]) simp
  from applied_table_safe [OF t] t show ?thesis by (simp add: inst_types list_all_iff)
qed

end
