(* ===== verification/Source.thy ===== *)
theory Source
  imports Prelude
begin

text \<open>
  The source file (\<^verbatim>\<open>struct _xd3_source\<close> of \<^verbatim>\<open>xdelta3.h\<close>): the power-of-two
  helpers of \<^verbatim>\<open>xdelta3.c\<close>, the setup of a source, the arithmetic that turns a file
  offset into a block number and an offset in the block, and \<^verbatim>\<open>xd3_getblk\<close>, the call that
  asks the client for a block. A buffer of the client is the list of its bytes; a null
  pointer is \<open>None\<close>.
\<close>

section \<open>Powers of two\<close>

text \<open>The low bits that matter to the loop of \<^verbatim>\<open>xd3_check_pow2\<close>: each shift drops one.\<close>

definition low_bits :: "'a::len word \<Rightarrow> nat set" where
  "low_bits x = {n. n < LENGTH('a) \<and> take_bit (Suc n) x \<noteq> 0}"

lemma low_bits_shift:
  fixes x :: "'a::len word"
  assumes "x \<noteq> 0"
  shows "card (low_bits (push_bit 1 x)) < card (low_bits x)"
proof -
  have fin: "finite (low_bits x)" by (simp add: low_bits_def)
  have tb: "take_bit (Suc n) (push_bit 1 x) = push_bit 1 (take_bit n x)" for n
    by (simp only: take_bit_push_bit) simp
  have sub: "low_bits (push_bit 1 x) \<subseteq> Suc ` (low_bits x - {LENGTH('a) - 1})"
  proof
    fix n assume n: "n \<in> low_bits (push_bit 1 x)"
    then have "push_bit 1 (take_bit n x) \<noteq> 0" and len: "n < LENGTH('a)"
      using tb [of n] by (auto simp: low_bits_def)
    then have nz: "take_bit n x \<noteq> 0" by auto
    then obtain m where m: "n = Suc m" by (cases n) auto
    with nz len have "m \<in> low_bits x - {LENGTH('a) - 1}" by (auto simp: low_bits_def)
    with m show "n \<in> Suc ` (low_bits x - {LENGTH('a) - 1})" by blast
  qed
  have top: "LENGTH('a) - 1 \<in> low_bits x" using assms by (simp add: low_bits_def)
  have "card (low_bits (push_bit 1 x)) \<le> card (Suc ` (low_bits x - {LENGTH('a) - 1}))"
    using fin sub by (intro card_mono) auto
  also have "\<dots> = card (low_bits x) - 1" using fin top by (simp add: card_image)
  also have "\<dots> < card (low_bits x)"
    using fin top by (metis card_gt_0_iff diff_less empty_iff zero_less_one)
  finally show ?thesis .
qed

function check_pow2_loop :: "u64 \<Rightarrow> u64 \<Rightarrow> nat \<Rightarrow> xd3_ret \<times> nat" where
  "check_pow2_loop value x logof =
     (if x = 0 then (XD3_INTERNAL, logof)
      else if x = value then (XD3_OK, logof)
      else check_pow2_loop value (push_bit 1 x) (logof + 1))"
  by pat_completeness auto
termination
  by (relation "measure (\<lambda>(value, x, logof). card (low_bits x))") (use low_bits_shift in auto)

declare check_pow2_loop.simps [simp del]

text \<open>The return code and \<^verbatim>\<open>*logof\<close>.\<close>

definition xd3_check_pow2 :: "u64 \<Rightarrow> xd3_ret \<times> nat" where
  "xd3_check_pow2 value = check_pow2_loop value 1 0"

text \<open>
  The rounding loops, over \<^verbatim>\<open>size_t\<close> and \<^verbatim>\<open>xoff_t\<close>. When the argument is above the
  largest power of two of the type, \<^verbatim>\<open>i\<close> becomes 0 and the loop runs forever: \<open>None\<close>.
\<close>

partial_function (option) roundup_loop :: "'a::len word \<Rightarrow> 'a word \<Rightarrow> 'a word option" where
  "roundup_loop x i = (if x > i then roundup_loop x (push_bit 1 i) else Some i)"

definition xd3_pow2_roundup :: "'a::len word \<Rightarrow> 'a word option" where
  "xd3_pow2_roundup x = roundup_loop x 1"

definition xd3_xoff_roundup :: "u64 \<Rightarrow> u64 option" where
  "xd3_xoff_roundup x = roundup_loop x 1"

definition xd3_round_blksize :: "u32 \<Rightarrow> u32 \<Rightarrow> u32" where
  "xd3_round_blksize sz blksz =
     (let md = sz AND (blksz - 1) in if md \<noteq> 0 then sz + (blksz - md) else sz)"

section \<open>The source object\<close>

record xd3_source =
  blksize :: u32
  max_winsize :: u64
  curblkno :: u64
  onblk :: u32
  curblk :: "bytes option"
  srclen :: u32
  srcbase :: u64
  shiftby :: nat
  maskby :: u32
  cpyoff_blocks :: u64
  cpyoff_blkoff :: u32
  getblkno :: u64
  max_blkno :: u64
  frontier_blkno :: u64
  onlastblk :: u32
  eof_known :: bool

definition SOURCE_ALLOCSIZE :: u64 where
  "SOURCE_ALLOCSIZE = push_bit 14 1"

text \<open>
  \<^verbatim>\<open>shiftby\<close> and \<^verbatim>\<open>maskby\<close> are only meaningful when the log is less than 32: \<open>None\<close>
  otherwise, and when a rounding loop does not end. The type argument \<open>sz\<close> is \<^verbatim>\<open>size_t\<close>.
\<close>

definition set_shift :: "xd3_source \<Rightarrow> nat \<Rightarrow> xd3_source option" where
  "set_shift src log =
     (if log < 32 then Some (src\<lparr>shiftby := log, maskby := push_bit log 1 - 1\<rparr>) else None)"

definition set_blksize :: "'sz::len itself \<Rightarrow> xd3_source \<Rightarrow> xd3_source option" where
  "set_blksize sz src =
     (case xd3_check_pow2 (ucast (blksize src)) of
        (ret, log) \<Rightarrow>
          if ret \<noteq> XD3_OK
          then (case xd3_pow2_roundup (ucast (blksize src) :: 'sz word) of
                  None \<Rightarrow> None
                | Some b \<Rightarrow>
                    (let src' = src\<lparr>blksize := ucast b\<rparr>
                     in set_shift src' (snd (xd3_check_pow2 (ucast (blksize src'))))))
          else set_shift src log)"

definition xd3_set_source :: "'sz::len itself \<Rightarrow> xd3_source \<Rightarrow> xd3_source option" where
  "xd3_set_source sz src =
     (case set_blksize sz (src\<lparr>srclen := 0, srcbase := 0\<rparr>) of
        None \<Rightarrow> None
      | Some src1 \<Rightarrow>
          (case (if fst (xd3_check_pow2 (max_winsize src1)) \<noteq> XD3_OK
                 then xd3_xoff_roundup (max_winsize src1) else Some (max_winsize src1)) of
             None \<Rightarrow> None
           | Some w \<Rightarrow> Some (src1\<lparr>max_winsize := max w SOURCE_ALLOCSIZE\<rparr>)))"

definition xd3_blksize_div :: "u64 \<Rightarrow> xd3_source \<Rightarrow> u64 \<times> u32" where
  "xd3_blksize_div offset source =
     (drop_bit (shiftby source) offset, ucast (offset AND ucast (maskby source)))"

definition xd3_blksize_add :: "u64 \<Rightarrow> u32 \<Rightarrow> xd3_source \<Rightarrow> u32 \<Rightarrow> u64 \<times> u32" where
  "xd3_blksize_add blkno blkoff source add =
     (let blkoff' = blkoff + add; blkdiff = drop_bit (shiftby source) blkoff'
      in if blkdiff \<noteq> 0 then (blkno + ucast blkdiff, blkoff' AND maskby source)
         else (blkno, blkoff'))"

definition xd3_set_source_and_size :: "'sz::len itself \<Rightarrow> xd3_source \<Rightarrow> u64 \<Rightarrow> xd3_source option" where
  "xd3_set_source_and_size sz user_source sourcesize =
     (case xd3_set_source sz user_source of
        None \<Rightarrow> None
      | Some src \<Rightarrow>
          (case xd3_blksize_div sourcesize src of
             (blkno, blkoff) \<Rightarrow>
               Some (src\<lparr>eof_known := True, max_blkno := blkno, onlastblk := blkoff\<rparr>)))"

definition xd3_source_eof :: "xd3_source \<Rightarrow> u64" where
  "xd3_source_eof src = ucast (blksize src) * max_blkno src + ucast (onlastblk src)"

definition xd3_bytes_on_srcblk :: "xd3_source \<Rightarrow> u64 \<Rightarrow> u32" where
  "xd3_bytes_on_srcblk src blkno = (if blkno = max_blkno src then onlastblk src else blksize src)"

section \<open>Asking for a block\<close>

text \<open>
  \<open>getblk\<close> is the client's callback, \<open>None\<close> when it gave none: then the stream returns
  \<^verbatim>\<open>XD3_GETSRCBLK\<close> and the client is to fill in \<^verbatim>\<open>curblk\<close>, \<^verbatim>\<open>curblkno\<close> and
  \<^verbatim>\<open>onblk\<close> before it calls again.
\<close>

type_synonym getblk_func = "xd3_source \<Rightarrow> u64 \<Rightarrow> xd3_ret \<times> xd3_source"

definition note_frontier :: "xd3_source \<Rightarrow> u64 \<Rightarrow> xd3_source" where
  "note_frontier source blkno =
     (if blkno \<ge> frontier_blkno source
      then
        (let source1 = (if blkno > max_blkno source
                        then source\<lparr>max_blkno := blkno, onlastblk := onblk source\<rparr> else source)
         in if onblk source1 = blksize source1
            then source1\<lparr>frontier_blkno := blkno + 1\<rparr>
            else source1\<lparr>eof_known := True, frontier_blkno := blkno\<rparr>)
      else source)"

definition note_last :: "xd3_source \<Rightarrow> u64 \<Rightarrow> xd3_source" where
  "note_last source blkno =
     (if blkno = max_blkno source
      then
        (let source1 = source\<lparr>onlastblk := onblk source\<rparr>
         in if onblk source1 = blksize source1
            then source1\<lparr>frontier_blkno := blkno + 1\<rparr> else source1)
      else source)"

definition xd3_getblk ::
    "getblk_func option \<Rightarrow> xd3_source \<Rightarrow> u64 \<Rightarrow> xd3_ret \<times> string option \<times> xd3_source" where
  "xd3_getblk getblk source blkno =
     (let fetched =
        (if curblk source = None \<or> blkno \<noteq> curblkno source
         then
           (let source1 = source\<lparr>getblkno := blkno\<rparr>
            in case getblk of
                 None \<Rightarrow> (XD3_GETSRCBLK, Some ''getblk source input'', source1)
               | Some f \<Rightarrow> (case f source1 blkno of (ret, source2) \<Rightarrow> (ret, None, source2)))
         else (XD3_OK, None, source))
      in case fetched of
           (ret, msg, source1) \<Rightarrow>
             if ret \<noteq> XD3_OK then (ret, msg, source1)
             else (XD3_OK, None, note_last (note_frontier source1 blkno) blkno))"

section \<open>Powers of two: what the loops compute\<close>

lemma bit_power_u64: "bit (push_bit k (1 :: u64)) n \<longleftrightarrow> n = k \<and> n < 64"
  by (auto simp: bit_exp_iff)

lemma power_u64_inj: "push_bit i (1 :: u64) = push_bit j 1 \<Longrightarrow> j < 64 \<Longrightarrow> i = j"
  by (metis bit_power_u64)

lemma power_u64_nonzero: "k < 64 \<Longrightarrow> push_bit k (1 :: u64) \<noteq> 0"
  using bit_power_u64 [of k k] by auto

lemma check_pow2_loop_power:
  assumes "k \<le> j" "j < 64"
  shows "check_pow2_loop (push_bit j 1) (push_bit k 1) k = (XD3_OK, j)"
  using assms
proof (induction rule: inc_induct)
  case base
  then show ?case using power_u64_nonzero by (subst check_pow2_loop.simps) simp
next
  case (step k)
  have "push_bit k (1 :: u64) \<noteq> push_bit j 1" using power_u64_inj step by fastforce
  moreover have "push_bit 1 (push_bit k (1 :: u64)) = push_bit (Suc k) 1" by simp
  ultimately show ?case
    using step power_u64_nonzero [of k] by (subst check_pow2_loop.simps) (simp add: mult.commute)
qed

lemma check_pow2_loop_other:
  assumes "k \<le> 64" "\<And>j. j < 64 \<Longrightarrow> value \<noteq> push_bit j (1 :: u64)"
  shows "check_pow2_loop value (push_bit k 1) k = (XD3_INTERNAL, 64)"
  using assms(1)
proof (induction rule: inc_induct)
  case base
  have "push_bit 64 (1 :: u64) = 0" by (rule bit_eqI) (simp add: bit_power_u64 del: push_bit_of_1)
  then show ?case by (subst check_pow2_loop.simps) simp
next
  case (step k)
  moreover have "push_bit 1 (push_bit k (1 :: u64)) = push_bit (Suc k) 1" by simp
  ultimately show ?case
    using power_u64_nonzero [of k] assms(2) [of k]
    by (subst check_pow2_loop.simps) (simp add: mult.commute)
qed

lemma check_pow2_power: "j < 64 \<Longrightarrow> xd3_check_pow2 (push_bit j 1) = (XD3_OK, j)"
  using check_pow2_loop_power [of 0 j] by (simp add: xd3_check_pow2_def)

lemma check_pow2_OK:
  "xd3_check_pow2 value = (XD3_OK, j) \<Longrightarrow> j < 64 \<and> value = push_bit j 1"
  using check_pow2_loop_other [of 0 "value"] check_pow2_power
  by (force simp: xd3_check_pow2_def)

text \<open>The rounding loop ends on the least power of two at or above its argument, or never.\<close>

lemma roundup_step:
  fixes x :: "'a::len word"
  assumes IH: "\<And>x i r. loop x i = Some r \<Longrightarrow> x \<le> r \<and> (\<exists>k. r = push_bit k i)"
    and r: "(if i < x then loop x (push_bit 1 i) else Some i) = Some r"
  shows "x \<le> r \<and> (\<exists>k. r = push_bit k i)"
proof (cases "i < x")
  case True
  with r IH obtain k where "x \<le> r" "r = push_bit k (push_bit 1 i)" by (metis (full_types))
  then have "x \<le> r \<and> r = push_bit (Suc k) i" by (simp add: push_bit_push_bit)
  then show ?thesis by blast
next
  case False
  with r have "x \<le> r \<and> r = push_bit 0 i" by simp
  then show ?thesis by blast
qed

lemma unat_push_bit_1: "k < LENGTH('a) \<Longrightarrow> unat (push_bit k 1 :: 'a::len word) = 2 ^ k"
  using unat_push_bit_noovf [where w = "1 :: 'a word" and n = k] by (simp del: push_bit_of_1)

lemma roundup_loop_result:
  fixes x :: "'a::len word"
  assumes "roundup_loop x i = Some r"
  shows "x \<le> r \<and> (\<exists>k. r = push_bit k i)"
proof -
  have "(case (x, i) of (x, i) \<Rightarrow> roundup_loop x i) = Some r" using assms by simp
  from roundup_loop.raw_induct [OF _ this, where
      P = "\<lambda>x i r. x \<le> r \<and> (\<exists>k. r = push_bit k i)"] roundup_step
  show ?thesis unfolding prod.case by blast
qed

lemma roundup_loop_reaches:
  fixes x :: "'a::len word"
  assumes "j \<le> k" "k < LENGTH('a)" "unat x \<le> 2 ^ k" "\<And>i. i < k \<Longrightarrow> 2 ^ i < unat x"
  shows "roundup_loop x (push_bit j 1) = Some (push_bit k 1)"
  using assms(1)
proof (induction rule: inc_induct)
  case base
  have "\<not> push_bit k 1 < x"
    using assms(3) unat_push_bit_1 [OF assms(2)] by (simp add: word_less_nat_alt del: push_bit_of_1)
  then show ?case by (subst roundup_loop.simps) (simp del: push_bit_of_1)
next
  case (step j)
  then have "push_bit j 1 < x"
    using assms(2) assms(4) [of j] unat_push_bit_1 [where k = j and ?'a = 'a]
    by (simp add: word_less_nat_alt del: push_bit_of_1)
  moreover have "push_bit 1 (push_bit j (1 :: 'a word)) = push_bit (Suc j) 1"
    by (simp add: push_bit_push_bit del: push_bit_of_1)
  ultimately show ?case
    using step by (subst roundup_loop.simps) (simp del: push_bit_of_1 push_bit_push_bit)
qed

definition least_pow2 :: "nat \<Rightarrow> nat" where
  "least_pow2 n = (LEAST k. n \<le> 2 ^ k)"

lemma least_pow2: "n \<le> 2 ^ least_pow2 n"
  unfolding least_pow2_def by (rule LeastI [of _ n]) (rule less_imp_le [OF less_exp])

lemma least_pow2_less: "i < least_pow2 n \<Longrightarrow> 2 ^ i < n"
  unfolding least_pow2_def using not_less_Least linorder_not_le by blast

lemma roundup_loop_power:
  fixes x :: "'a::len word"
  assumes "unat x \<le> 2 ^ (LENGTH('a) - 1)"
  shows "roundup_loop x 1 = Some (push_bit (least_pow2 (unat x)) 1)" and "least_pow2 (unat x) < LENGTH('a)"
proof -
  have "least_pow2 (unat x) \<le> LENGTH('a) - 1"
    unfolding least_pow2_def by (rule Least_le) (rule assms)
  then show k: "least_pow2 (unat x) < LENGTH('a)"
    by (metis One_nat_def Suc_pred le_imp_less_Suc len_gt_0)
  show "roundup_loop x 1 = Some (push_bit (least_pow2 (unat x)) 1)"
    using roundup_loop_reaches [of 0 "least_pow2 (unat x)" x, OF _ k least_pow2] least_pow2_less
    by simp
qed

lemma roundup_loop_runs_forever:
  fixes x :: "'a::len word"
  assumes "2 ^ (LENGTH('a) - 1) < unat x"
  shows "roundup_loop x 1 = None"
proof (cases "roundup_loop x 1")
  case (Some r)
  then obtain k where r: "x \<le> r" "r = push_bit k 1" using roundup_loop_result by blast
  have "unat r \<le> 2 ^ (LENGTH('a) - 1)"
  proof (cases "k < LENGTH('a)")
    case True
    then show ?thesis
      unfolding r(2) unat_push_bit_1 [OF True] by (intro power_increasing) auto
  next
    case False
    then have "r = 0" unfolding r(2) by (intro bit_word_eqI) (simp add: bit_push_bit_iff del: push_bit_of_1)
    then show ?thesis by simp
  qed
  then show ?thesis using r(1) assms by (simp add: word_le_nat_alt)
qed

section \<open>Block numbers and offsets\<close>

text \<open>What \<^verbatim>\<open>xd3_set_source\<close> establishes: the block size is \<open>2 ^ shiftby\<close>, the mask goes with it.\<close>

definition wf_source :: "xd3_source \<Rightarrow> bool" where
  "wf_source src \<longleftrightarrow> shiftby src < 32 \<and> blksize src = push_bit (shiftby src) 1 \<and>
     maskby src = push_bit (shiftby src) 1 - 1"

lemma wf_source_sizes:
  assumes "wf_source src"
  shows "unat (blksize src) = 2 ^ shiftby src" and "maskby src = mask (shiftby src)"
    and "shiftby src < 32" and "unat (maskby src) = 2 ^ shiftby src - 1"
proof -
  have s: "shiftby src < 32" using assms by (simp add: wf_source_def)
  then show "unat (blksize src) = 2 ^ shiftby src"
    using assms unat_push_bit_1 [of "shiftby src", where ?'a = 32] by (simp add: wf_source_def)
  show m: "maskby src = mask (shiftby src)"
    using assms by (simp add: wf_source_def mask_eq_exp_minus_1)
  show "shiftby src < 32" by (rule s)
  show "unat (maskby src) = 2 ^ shiftby src - 1"
    using assms s unat_push_bit_1 [of "shiftby src", where ?'a = 32]
    by (simp add: wf_source_def unat_sub word_le_nat_alt del: push_bit_of_1)
qed

lemma div_add_le:
  assumes "x < (b :: nat)"
  shows "(x + a) div b \<le> a"
proof -
  have "x + a < b + a * b" using assms by (cases b) auto
  then have "(x + a) div b < Suc a" by (intro less_mult_imp_div_less) simp
  then show ?thesis by simp
qed

lemma ucast_mask_u64: "n < 32 \<Longrightarrow> (ucast (mask n :: u32) :: u64) = mask n"
  by (rule bit_eqI) (auto simp: bit_simps)

lemma xd3_blksize_div_eq:
  assumes "wf_source src" "xd3_blksize_div offset src = (blkno, blkoff)"
  shows "unat blkno = unat offset div unat (blksize src)"
    and "unat blkoff = unat offset mod unat (blksize src)"
proof -
  note wf = wf_source_sizes [OF assms(1)]
  have "unat offset mod 2 ^ shiftby src < 2 ^ shiftby src" by simp
  also have "(2::nat) ^ shiftby src \<le> 2 ^ 32" using wf(3) by (intro power_increasing) auto
  finally have small: "unat offset mod 2 ^ shiftby src < 2 ^ 32" .
  show "unat blkno = unat offset div unat (blksize src)"
    using assms(2) wf(1) by (auto simp: xd3_blksize_div_def unat_drop_bit)
  have "blkoff = ucast (offset AND mask (shiftby src))"
    using assms(2) wf(2,3) ucast_mask_u64 by (simp add: xd3_blksize_div_def)
  moreover have "unat (ucast (offset AND mask (shiftby src)) :: u32) = unat offset mod 2 ^ shiftby src"
    using small by (simp add: unsigned_ucast_eq unat_and_mask take_bit_nat_eq_self)
  ultimately show "unat blkoff = unat offset mod unat (blksize src)" using wf(1) by simp
qed

lemma xd3_blksize_add_eq:
  assumes "wf_source src" "unat blkoff < unat (blksize src)"
    and "unat blkoff + unat add < 2 ^ 32" "unat blkno + unat add < 2 ^ 64"
    and "xd3_blksize_add blkno blkoff src add = (blkno', blkoff')"
  shows "unat blkno' * unat (blksize src) + unat blkoff' =
      unat blkno * unat (blksize src) + unat blkoff + unat add"
    and "unat blkoff' < unat (blksize src)"
proof -
  note wf = wf_source_sizes [OF assms(1)]
  let ?s = "unat blkoff + unat add" and ?b = "2 ^ shiftby src :: nat"
  have s: "unat (blkoff + add) = ?s" using assms(3) by (simp add: unat_add_u32)
  have d: "unat (drop_bit (shiftby src) (blkoff + add)) = ?s div ?b" by (simp add: unat_drop_bit s)
  have m: "unat ((blkoff + add) AND maskby src) = ?s mod ?b"
    unfolding wf(2) by (simp add: unat_and_mask s)
  have off: "unat blkoff' = ?s mod ?b" and no: "unat blkno' = unat blkno + ?s div ?b"
  proof -
    have "?s div ?b \<le> unat add" using assms(2) wf(1) by (intro div_add_le) simp
    then have u: "unat (blkno + ucast (drop_bit (shiftby src) (blkoff + add))) = unat blkno + ?s div ?b"
      using assms(4) by (subst unat_add_u64) (simp_all add: unsigned_ucast_eq d take_bit_nat_eq_self)
    have z: "?s div ?b = 0 \<Longrightarrow> ?s mod ?b = ?s" using div_mult_mod_eq [of ?s ?b] by simp
    show "unat blkoff' = ?s mod ?b" and "unat blkno' = unat blkno + ?s div ?b"
      using assms(5) s d m u z
      by (auto simp: xd3_blksize_add_def Let_def word_unat_eq_iff [of _ 0] split: if_splits)
  qed
  show "unat blkno' * unat (blksize src) + unat blkoff' =
      unat blkno * unat (blksize src) + unat blkoff + unat add"
    unfolding off no wf(1) by (simp add: algebra_simps)
  show "unat blkoff' < unat (blksize src)" unfolding off wf(1) by simp
qed

lemma block_address:
  assumes "wf_source src" and "xd3_blksize_div cpyoff src = (blocks, blkoff)"
    and "unat blkoff + unat addr < 2 ^ 32" and "unat cpyoff + unat addr < 2 ^ 64"
    and "xd3_blksize_add blocks blkoff src addr = (blkno, off)"
  shows "unat blkno * unat (blksize src) + unat off = unat cpyoff + unat addr \<and>
    unat off < unat (blksize src)"
proof -
  note d = xd3_blksize_div_eq [OF assms(1,2)]
  have pos: "0 < unat (blksize src)" using wf_source_sizes(1) [OF assms(1)] by simp
  have lt: "unat blkoff < unat (blksize src)" using d(2) pos by simp
  have "unat blocks \<le> unat cpyoff" using d(1) by simp
  then have le: "unat blocks + unat addr < 2 ^ 64" using assms(4) by linarith
  note add = xd3_blksize_add_eq [OF assms(1) lt assms(3) le assms(5)]
  have "unat blocks * unat (blksize src) + unat blkoff = unat cpyoff"
    unfolding d by (rule div_mult_mod_eq)
  then show ?thesis using add by linarith
qed

text \<open>
  \<^verbatim>\<open>xd3_set_source\<close>: with a block size up to \<open>2 ^ 31\<close> (and a \<^verbatim>\<open>size_t\<close> that holds it), the
  source is set up with the least power of two at or above it.
\<close>

lemma set_shift_wf:
  "log < 32 \<Longrightarrow> blksize src = push_bit log 1 \<Longrightarrow> \<exists>src'. set_shift src log = Some src' \<and>
     wf_source src' \<and> blksize src' = blksize src \<and> max_winsize src' = max_winsize src"
  by (simp add: set_shift_def wf_source_def)

lemma ucast_power_u64: "k < 32 \<Longrightarrow> (ucast (push_bit k 1 :: u32) :: u64) = push_bit k 1"
  by (rule bit_eqI) (auto simp: bit_exp_iff bit_unsigned_iff)

lemma ucast_power_u32:
  assumes "k < 32" "32 \<le> LENGTH('sz::len)"
  shows "(ucast (push_bit k 1 :: 'sz word) :: u32) = push_bit k 1"
  using assms by (intro bit_eqI) (auto simp: bit_exp_iff bit_unsigned_iff)

lemma unat_ucast_u32_u64: "unat (ucast (a :: u32) :: u64) = unat a"
  using unat_less_u32 [of a] by (simp add: unsigned_ucast_eq take_bit_nat_eq_self)

lemma ucast_u32_power:
  assumes "(ucast (b :: u32) :: u64) = push_bit j 1"
  shows "j < 32 \<and> b = push_bit j 1 \<or> 64 \<le> j"
proof (cases "j < 64")
  case True
  then have "bit (ucast b :: u64) j" unfolding assms by (simp add: bit_power_u64 del: push_bit_of_1)
  then have j: "j < 32" by (auto simp: bit_unsigned_iff dest: bit_imp_le_length)
  then have "(ucast b :: u64) = ucast (push_bit j 1 :: u32)" using assms ucast_power_u64 by simp
  then have "b = push_bit j 1" by (metis unat_ucast_u32_u64 word_unat_eq_iff)
  with j show ?thesis by simp
qed simp

lemma set_blksize_wf:
  assumes "32 \<le> LENGTH('sz::len)" "0 < unat (blksize src)" "unat (blksize src) \<le> 2 ^ 31"
  shows "\<exists>src'. set_blksize TYPE('sz) src = Some src' \<and> wf_source src' \<and>
    unat (blksize src') = 2 ^ least_pow2 (unat (blksize src)) \<and> max_winsize src' = max_winsize src"
proof -
  let ?k = "least_pow2 (unat (blksize src))"
  have k: "?k \<le> 31" unfolding least_pow2_def by (rule Least_le) (rule assms(3))
  obtain ret log where c: "xd3_check_pow2 (ucast (blksize src)) = (ret, log)"
    by (cases "xd3_check_pow2 (ucast (blksize src))")
  show ?thesis
  proof (cases "ret = XD3_OK")
    case True
    with c check_pow2_OK ucast_u32_power have l: "log < 32" "blksize src = push_bit log 1"
      by (metis linorder_not_less)+
    have u: "unat (blksize src) = 2 ^ log"
      using l unat_push_bit_1 [of log, where ?'a = 32] by simp
    have "?k = log"
      unfolding u least_pow2_def by (rule Least_equality) auto
    then show ?thesis
      using set_shift_wf [OF l] c True u by (auto simp: set_blksize_def)
  next
    case False
    have un: "unat (ucast (blksize src) :: 'sz word) = unat (blksize src)"
    proof -
      have "unat (blksize src) < 2 ^ 32" using unat_less_u32 [of "blksize src"] by simp
      also have "(2::nat) ^ 32 \<le> 2 ^ LENGTH('sz)" using assms(1) by (rule power_increasing) simp
      finally show ?thesis by (simp add: unsigned_ucast_eq take_bit_nat_eq_self)
    qed
    have "(2::nat) ^ 31 \<le> 2 ^ (LENGTH('sz) - 1)" using assms(1) by (intro power_increasing) auto
    then have r: "xd3_pow2_roundup (ucast (blksize src) :: 'sz word) = Some (push_bit ?k 1)"
      unfolding xd3_pow2_roundup_def using assms(3) un
        roundup_loop_power(1) [of "ucast (blksize src) :: 'sz word"] by simp
    have b: "(ucast (push_bit ?k 1 :: 'sz word) :: u32) = push_bit ?k 1"
      by (rule ucast_power_u32) (use k assms(1) in auto)
    have p: "xd3_check_pow2 (ucast (push_bit ?k 1 :: u32)) = (XD3_OK, ?k)"
      using ucast_power_u64 [of ?k] check_pow2_power [of ?k] k by simp
    have "\<exists>src'. set_shift (src\<lparr>blksize := push_bit ?k 1\<rparr>) ?k = Some src' \<and> wf_source src' \<and>
        blksize src' = push_bit ?k 1 \<and> max_winsize src' = max_winsize src"
      using set_shift_wf [of ?k "src\<lparr>blksize := push_bit ?k 1\<rparr>"] k by simp
    then show ?thesis
      using False c r b p k unat_push_bit_1 [of ?k, where ?'a = 32]
      by (auto simp: set_blksize_def Let_def simp del: push_bit_of_1)
  qed
qed

lemma set_source_wf:
  assumes "32 \<le> LENGTH('sz::len)" "0 < unat (blksize src)" "unat (blksize src) \<le> 2 ^ 31"
    and "unat (max_winsize src) \<le> 2 ^ 63"
  shows "\<exists>src'. xd3_set_source TYPE('sz) src = Some src' \<and> wf_source src' \<and>
    unat (blksize src') = 2 ^ least_pow2 (unat (blksize src)) \<and>
    max_winsize src \<le> max_winsize src'"
proof -
  let ?src = "src\<lparr>srclen := 0, srcbase := 0\<rparr>"
  obtain s1 where s1: "set_blksize TYPE('sz) ?src = Some s1" "wf_source s1"
    "unat (blksize s1) = 2 ^ least_pow2 (unat (blksize src))" "max_winsize s1 = max_winsize src"
    using set_blksize_wf [OF assms(1), of ?src] assms(2,3) by auto
  obtain r where "xd3_xoff_roundup (max_winsize s1) = Some r" "max_winsize s1 \<le> r"
    using roundup_loop_power(1) [of "max_winsize s1"] roundup_loop_result [of "max_winsize s1" 1]
      assms(4) s1(4)
    by (fastforce simp: xd3_xoff_roundup_def)
  then obtain w where w: "(if fst (xd3_check_pow2 (max_winsize s1)) \<noteq> XD3_OK
      then xd3_xoff_roundup (max_winsize s1) else Some (max_winsize s1)) = Some w" "max_winsize s1 \<le> w"
    by (cases "fst (xd3_check_pow2 (max_winsize s1)) = XD3_OK") auto
  have "max_winsize src \<le> max w SOURCE_ALLOCSIZE" using w(2) s1(4) by (simp add: le_max_iff_disj)
  then show ?thesis using s1 w by (simp add: xd3_set_source_def wf_source_def)
qed

section \<open>What a client's callback promises\<close>

text \<open>Block \<open>n\<close> of a file, and the callback that supplies the blocks of one.\<close>

definition file_block :: "bytes \<Rightarrow> nat \<Rightarrow> nat \<Rightarrow> bytes" where
  "file_block file bs n = take bs (drop (n * bs) file)"

definition holds_block :: "bytes \<Rightarrow> xd3_source \<Rightarrow> u64 \<Rightarrow> bool" where
  "holds_block file src n \<longleftrightarrow>
     curblkno src = n \<and> curblk src = Some (file_block file (unat (blksize src)) (unat n)) \<and>
     unat (onblk src) = length (file_block file (unat (blksize src)) (unat n))"

text \<open>The block in the source, if any, is that of the file, unless its number is the invalid \<open>- 1\<close>.\<close>

definition block_known :: "bytes \<Rightarrow> xd3_source \<Rightarrow> bool" where
  "block_known file src \<longleftrightarrow> curblk src = None \<or> curblkno src = - 1 \<or> holds_block file src (curblkno src)"

definition serve_file :: "bytes \<Rightarrow> getblk_func" where
  "serve_file file src n =
     (let blk = file_block file (unat (blksize src)) (unat n)
      in (XD3_OK, src\<lparr>curblkno := n, curblk := Some blk, onblk := of_nat (length blk)\<rparr>))"

text \<open>The fields the library keeps across a callback.\<close>

definition same_window :: "xd3_source \<Rightarrow> xd3_source \<Rightarrow> bool" where
  "same_window a b \<longleftrightarrow> blksize a = blksize b \<and> shiftby a = shiftby b \<and> maskby a = maskby b \<and>
     cpyoff_blocks a = cpyoff_blocks b \<and> cpyoff_blkoff a = cpyoff_blkoff b"

lemma note_keeps:
  "curblkno (note_last (note_frontier s n) n) = curblkno s \<and>
   curblk (note_last (note_frontier s n) n) = curblk s \<and>
   onblk (note_last (note_frontier s n) n) = onblk s \<and>
   same_window (note_last (note_frontier s n) n) s"
  by (simp add: note_last_def note_frontier_def Let_def same_window_def)

lemma length_file_block: "length (file_block file (unat (b :: u32)) n) < 2 ^ 32"
  using unat_less_u32 [of b] by (simp add: file_block_def)

lemma getblk_served:
  assumes "wf_source src" "block_known file src" "n \<noteq> - 1"
  shows "\<exists>src'. xd3_getblk (Some (serve_file file)) src n = (XD3_OK, None, src') \<and>
    holds_block file src' n \<and> wf_source src' \<and> same_window src' src"
proof -
  let ?blk = "file_block file (unat (blksize src)) (unat n)"
  define s1 where "s1 = (if curblk src = None \<or> n \<noteq> curblkno src
    then src\<lparr>getblkno := n, curblkno := n, curblk := Some ?blk, onblk := of_nat (length ?blk)\<rparr> else src)"
  let ?s2 = "note_last (note_frontier s1 n) n"
  have g: "xd3_getblk (Some (serve_file file)) src n = (XD3_OK, None, ?s2)"
    by (simp add: xd3_getblk_def serve_file_def s1_def Let_def)
  have u: "unat (of_nat (length ?blk) :: u32) = length ?blk"
    using length_file_block [of "file" "blksize src" "unat n"]
    by (simp add: unsigned_of_nat take_bit_nat_eq_self)
  have b: "blksize s1 = blksize src" "same_window s1 src" by (simp_all add: s1_def same_window_def)
  have h1: "curblkno s1 = n \<and> curblk s1 = Some ?blk \<and> unat (onblk s1) = length ?blk"
    using assms(2,3) u by (auto simp: s1_def holds_block_def block_known_def)
  have w: "same_window ?s2 src" using note_keeps [of s1 n] b(2) by (simp add: same_window_def)
  then have "holds_block file ?s2 n"
    using h1 note_keeps [of s1 n] by (simp add: holds_block_def same_window_def)
  moreover have "wf_source ?s2" using w assms(1) by (simp add: same_window_def wf_source_def)
  ultimately show ?thesis using g w by blast
qed

section \<open>Properties\<close>

text \<open>C36: The rounding loop over file offsets ends exactly for the values up to \<open>2 ^ 63\<close>, with the
  least power of two at or above the value; for every larger value it runs forever.\<close>

theorem xoff_roundup_exact:
  "xd3_xoff_roundup x =
     (if unat x \<le> 2 ^ 63 then Some (push_bit (least_pow2 (unat x)) 1) else None)"
  using roundup_loop_power(1) [of x] roundup_loop_runs_forever [of x]
  by (simp add: xd3_xoff_roundup_def)

text \<open>C32: Setting a source with a usable block size succeeds; the block size becomes the least
  power of two at or above the one given, with its log and mask, and the visible window does
  not shrink.\<close>

theorem set_source_establishes:
  assumes "0 < unat (blksize src)" and "unat (blksize src) \<le> 2 ^ 31"
    and "unat (max_winsize src) \<le> 2 ^ 63"
  shows "\<exists>src'. xd3_set_source TYPE(64) src = Some src' \<and> wf_source src' \<and>
    unat (blksize src') = 2 ^ least_pow2 (unat (blksize src)) \<and> max_winsize src \<le> max_winsize src'"
  by (rule set_source_wf) (use assms in simp_all)

definition sample_source :: "u32 \<Rightarrow> xd3_source" where
  "sample_source b =
     \<lparr>blksize = b, max_winsize = 0, curblkno = 0, onblk = 0, curblk = None, srclen = 0, srcbase = 0,
      shiftby = 0, maskby = 0, cpyoff_blocks = 0, cpyoff_blkoff = 0, getblkno = 0, max_blkno = 0,
      frontier_blkno = 0, onlastblk = 0, eof_known = False\<rparr>"

theorem set_source_establishes_witness:
  "\<exists>src'. xd3_set_source TYPE(64) (sample_source 1000) = Some src' \<and> wf_source src'"
  using set_source_establishes [of "sample_source 1000"] by (auto simp: sample_source_def)

text \<open>C33: The pre-computed block of the copy window and the offset added to it name the byte of
  the file that the copy address means: block number times block size plus offset is the
  copy-window offset plus the address, and the offset lies inside the block, as long as the
  32-bit sum of the two offsets does not wrap.\<close>

theorem block_address_exact:
  assumes "wf_source src" and "xd3_blksize_div cpyoff src = (blocks, blkoff)"
    and "unat blkoff + unat addr < 2 ^ 32" and "unat cpyoff + unat addr < 2 ^ 64"
    and "xd3_blksize_add blocks blkoff src addr = (blkno, off)"
  shows "unat blkno * unat (blksize src) + unat off = unat cpyoff + unat addr \<and>
    unat off < unat (blksize src)"
  by (rule block_address [OF assms])

definition source_1024 :: xd3_source where
  "source_1024 = (sample_source 1024)\<lparr>shiftby := 10, maskby := 1023\<rparr>"

lemma wf_source_1024: "wf_source source_1024"
  by (simp add: wf_source_def source_1024_def sample_source_def)

theorem block_address_exact_witness:
  "unat (fst (xd3_blksize_add 1 976 source_1024 100)) * 1024 +
     unat (snd (xd3_blksize_add 1 976 source_1024 100)) = 2100"
proof -
  have d: "xd3_blksize_div 2000 source_1024 = (1, 976)"
    by (simp add: xd3_blksize_div_def source_1024_def sample_source_def)
  from block_address_exact [OF wf_source_1024 d, of 100 "fst (xd3_blksize_add 1 976 source_1024 100)"
      "snd (xd3_blksize_add 1 976 source_1024 100)"]
  show ?thesis by (simp add: source_1024_def sample_source_def)
qed

text \<open>C34: The comment on \<^verbatim>\<open>xd3_blksize_add\<close> leaves the overflow check to the decoder, which checks
  the sum at 64 bits only: whenever the offset in the block and the address together reach
  $2^{32}$, the block and offset named are those of the byte 4 GB before the one meant.\<close>

theorem block_address_wraps:
  assumes "wf_source src" and "xd3_blksize_div cpyoff src = (blocks, blkoff)"
    and "2 ^ 32 \<le> unat blkoff + unat addr" and "unat cpyoff + unat addr < 2 ^ 64"
    and "xd3_blksize_add blocks blkoff src addr = (blkno, off)"
  shows "unat blkno * unat (blksize src) + unat off + 2 ^ 32 = unat cpyoff + unat addr \<and>
    unat off < unat (blksize src)"
proof -
  note d = xd3_blksize_div_eq [OF assms(1,2)]
  have pos: "unat (0 :: u32) < unat (blksize src)" using wf_source_sizes(1) [OF assms(1)] by simp
  have sum: "unat (blkoff + addr) + 2 ^ 32 = unat blkoff + unat addr"
    using unat_less_u32 [of blkoff] unat_less_u32 [of addr] assms(3)
    by (simp add: unat_word_ariths mod_if) linarith
  have "xd3_blksize_add blocks 0 src (blkoff + addr) = (blkno, off)"
    using assms(5) by (simp add: xd3_blksize_add_def)
  moreover have "unat (0 :: u32) + unat (blkoff + addr) < 2 ^ 32" using unat_less_u32 [of "blkoff + addr"] by simp
  moreover have "unat blocks \<le> unat cpyoff" using d(1) by simp
  then have "unat blocks + unat (blkoff + addr) < 2 ^ 64"
    using sum unat_less_u32 [of blkoff] assms(4) by simp
  ultimately have "unat blkno * unat (blksize src) + unat off = unat blocks * unat (blksize src) + unat (blkoff + addr) \<and>
    unat off < unat (blksize src)"
    using xd3_blksize_add_eq [OF assms(1) pos] by simp
  moreover have "unat blocks * unat (blksize src) + unat blkoff = unat cpyoff"
    unfolding d by (rule div_mult_mod_eq)
  ultimately show ?thesis using sum by linarith
qed

theorem block_address_wraps_witness:
  "unat (fst (xd3_blksize_add 5 1023 source_1024 0xfffffc01)) * 1024 +
     unat (snd (xd3_blksize_add 5 1023 source_1024 0xfffffc01)) = 5 * 1024"
proof -
  have d: "xd3_blksize_div 6143 source_1024 = (5, 1023)"
    by (simp add: xd3_blksize_div_def source_1024_def sample_source_def)
  from block_address_wraps [OF wf_source_1024 d, of "0xfffffc01" "fst (xd3_blksize_add 5 1023 source_1024 0xfffffc01)"
      "snd (xd3_blksize_add 5 1023 source_1024 0xfffffc01)"]
  show ?thesis by (simp add: source_1024_def sample_source_def)
qed

text \<open>C35: A source set up with a known size reports exactly that size as its end of file.\<close>

theorem source_size_exact:
  assumes "0 < unat (blksize src)" and "unat (blksize src) \<le> 2 ^ 31"
    and "unat (max_winsize src) \<le> 2 ^ 63"
  shows "\<exists>src'. xd3_set_source_and_size TYPE(64) src n = Some src' \<and> eof_known src' \<and>
    xd3_source_eof src' = n"
proof -
  obtain s1 where s1: "xd3_set_source TYPE(64) src = Some s1" "wf_source s1"
    using set_source_wf [of src, where ?'sz = 64] assms by auto
  obtain blkno blkoff where d: "xd3_blksize_div n s1 = (blkno, blkoff)" by (cases "xd3_blksize_div n s1")
  have "unat blkno * unat (blksize s1) + unat blkoff = unat n"
    unfolding xd3_blksize_div_eq [OF s1(2) d] by (rule div_mult_mod_eq)
  then have "of_nat (unat (ucast (blksize s1) :: u64) * unat blkno + unat (ucast blkoff :: u64)) = n"
    unfolding unat_ucast_u32_u64 by (simp add: mult.commute)
  then have "ucast (blksize s1) * blkno + ucast blkoff = n" by simp
  then show ?thesis
    using s1 d by (simp add: xd3_set_source_and_size_def xd3_source_eof_def)
qed

theorem source_size_exact_witness:
  "\<exists>src'. xd3_set_source_and_size TYPE(64) (sample_source 1000) 123456 = Some src' \<and>
     xd3_source_eof src' = 123456"
  using source_size_exact [of "sample_source 1000" 123456] by (auto simp: sample_source_def)

end
