(* ===== verification/Checksum.thy ===== *)
theory Checksum
  imports Prelude
begin

text \<open>
  The checksums: Adler-32 over the target window (\<^verbatim>\<open>adler32\<close> in \<^verbatim>\<open>xdelta3.c\<close>, the
  block-wise unrolled code of zlib), the run-length scan, and the two rolling checksums of
  the match finder with their hash (\<^verbatim>\<open>xdelta3-hash.h\<close>). \<^verbatim>\<open>unsigned long\<close> has 32 bits on
  some of the ABIs the library is built for and 64 on others: \<open>adler32\<close> is a function over
  any word length, and what is proved of it asks for 32 bits at least.
\<close>

section \<open>Adler-32\<close>

definition A32_BASE :: nat where
  "A32_BASE = 65521"

definition A32_NMAX :: nat where
  "A32_NMAX = 5552"

text \<open>The macros, on the pair \<open>(s1, s2)\<close>.\<close>

fun A32_DO1 :: "bytes \<Rightarrow> nat \<Rightarrow> 'l::len word \<times> 'l word \<Rightarrow> 'l word \<times> 'l word" where
  "A32_DO1 buf i (s1, s2) = (let s1' = s1 + ucast (buf ! i) in (s1', s2 + s1'))"

definition A32_DO2 :: "bytes \<Rightarrow> nat \<Rightarrow> 'l::len word \<times> 'l word \<Rightarrow> 'l word \<times> 'l word" where
  "A32_DO2 buf i s = A32_DO1 buf (i + 1) (A32_DO1 buf i s)"

definition A32_DO4 :: "bytes \<Rightarrow> nat \<Rightarrow> 'l::len word \<times> 'l word \<Rightarrow> 'l word \<times> 'l word" where
  "A32_DO4 buf i s = A32_DO2 buf (i + 2) (A32_DO2 buf i s)"

definition A32_DO8 :: "bytes \<Rightarrow> nat \<Rightarrow> 'l::len word \<times> 'l word \<Rightarrow> 'l word \<times> 'l word" where
  "A32_DO8 buf i s = A32_DO4 buf (i + 4) (A32_DO4 buf i s)"

definition A32_DO16 :: "bytes \<Rightarrow> 'l::len word \<times> 'l word \<Rightarrow> 'l word \<times> 'l word" where
  "A32_DO16 buf s = A32_DO8 buf 8 (A32_DO8 buf 0 s)"

text \<open>\<open>while (k >= 16)\<close>, then \<open>do ... while (--k)\<close> on what is left.\<close>

fun A32_tail :: "bytes \<Rightarrow> nat \<Rightarrow> 'l::len word \<times> 'l word \<Rightarrow> 'l word \<times> 'l word" where
  "A32_tail buf 0 s = s"
| "A32_tail buf (Suc k) s = A32_tail (drop 1 buf) k (A32_DO1 buf 0 s)"

function A32_block :: "bytes \<Rightarrow> nat \<Rightarrow> 'l::len word \<times> 'l word \<Rightarrow> 'l word \<times> 'l word" where
  "A32_block buf k s =
     (if 16 \<le> k then A32_block (drop 16 buf) (k - 16) (A32_DO16 buf s) else A32_tail buf k s)"
  by pat_completeness auto
termination
  by (relation "measure (\<lambda>(buf, k, s). k)") auto

declare A32_block.simps [simp del]

function A32_loop :: "bytes \<Rightarrow> nat \<Rightarrow> 'l::len word \<times> 'l word \<Rightarrow> 'l word \<times> 'l word" where
  "A32_loop buf len s =
     (if 0 < len
      then (let k = (if len < A32_NMAX then len else A32_NMAX);
                s' = A32_block buf k s
            in A32_loop (drop k buf) (len - k)
                 (fst s' mod of_nat A32_BASE, snd s' mod of_nat A32_BASE))
      else s)"
  by pat_completeness auto
termination
  by (relation "measure (\<lambda>(buf, len, s). len)") (auto simp: A32_NMAX_def)

declare A32_loop.simps [simp del]

definition adler32 :: "'l::len word \<Rightarrow> bytes \<Rightarrow> 'l word" where
  "adler32 adler buf =
     (let s1 = adler AND 0xffff; s2 = drop_bit 16 adler AND 0xffff;
          s = A32_loop buf (length buf) (s1, s2)
      in push_bit 16 (snd s) OR fst s)"

section \<open>Run lengths\<close>

text \<open>\<^verbatim>\<open>NEXTRUN\<close>, on the pair \<open>(run_l, run_c)\<close>.\<close>

fun NEXTRUN :: "u8 \<Rightarrow> u32 \<times> u8 \<Rightarrow> u32 \<times> u8" where
  "NEXTRUN c (run_l, run_c) = (if c = run_c then (run_l + 1, run_c) else (1, c))"

definition xd3_comprun :: "bytes \<Rightarrow> nat \<Rightarrow> u32 \<times> u8" where
  "xd3_comprun seg slook = fold NEXTRUN (take slook seg) (0, 0)"

section \<open>Rolling checksums\<close>

definition single_hash :: "u16 list" where
  "single_hash =
    [0xbcd1, 0xbb65, 0x42c2, 0xdffe, 0x9666, 0x431b, 0x8504, 0xeb46,
     0x6379, 0xd460, 0xcf14, 0x53cf, 0xdb51, 0xdb08, 0x12c8, 0xf602,
     0xe766, 0x2394, 0x250d, 0xdcbb, 0xa678, 0x02af, 0xa5c6, 0x7ea6,
     0xb645, 0xcb4d, 0xc44b, 0xe5dc, 0x9fe6, 0x5b5c, 0x35f5, 0x701a,
     0x220f, 0x6c38, 0x1a56, 0x4ca3, 0xffc6, 0xb152, 0x8d61, 0x7a58,
     0x9025, 0x8b3d, 0xbf0f, 0x95a3, 0xe5f4, 0xc127, 0x3bed, 0x320b,
     0xb7f3, 0x6054, 0x333c, 0xd383, 0x8154, 0x5242, 0x4e0d, 0x0a94,
     0x7028, 0x8689, 0x3a22, 0x0980, 0x1847, 0xb0f1, 0x9b5c, 0x4176,
     0xb858, 0xd542, 0x1f6c, 0x2497, 0x6a5a, 0x9fa9, 0x8c5a, 0x7743,
     0xa8a9, 0x9a02, 0x4918, 0x438c, 0xc388, 0x9e2b, 0x4cad, 0x01b6,
     0xab19, 0xf777, 0x365f, 0x1eb2, 0x091e, 0x7bf8, 0x7a8e, 0x5227,
     0xeab1, 0x2074, 0x4523, 0xe781, 0x01a3, 0x163d, 0x3b2e, 0x287d,
     0x5e7f, 0xa063, 0xb134, 0x8fae, 0x5e8e, 0xb7b7, 0x4548, 0x1f5a,
     0xfa56, 0x7a24, 0x900f, 0x42dc, 0xcc69, 0x02a0, 0x0b22, 0xdb31,
     0x71fe, 0x0c7d, 0x1732, 0x1159, 0xcb09, 0xe1d2, 0x1351, 0x52e9,
     0xf536, 0x5a4f, 0xc316, 0x6bf9, 0x8994, 0xb774, 0x5f3e, 0xf6d6,
     0x3a61, 0xf82c, 0xcc22, 0x9d06, 0x299c, 0x09e5, 0x1eec, 0x514f,
     0x8d53, 0xa650, 0x5c6e, 0xc577, 0x7958, 0x71ac, 0x8916, 0x9b4f,
     0x2c09, 0x5211, 0xf6d8, 0xcaaa, 0xf7ef, 0x287f, 0x7a94, 0xab49,
     0xfa2c, 0x7222, 0xe457, 0xd71a, 0x00c3, 0x1a76, 0xe98c, 0xc037,
     0x8208, 0x5c2d, 0xdfda, 0xe5f5, 0x0b45, 0x15ce, 0x8a7e, 0xfcad,
     0xaa2d, 0x4b5c, 0xd42e, 0xb251, 0x907e, 0x9a47, 0xc9a6, 0xd93f,
     0x085e, 0x35ce, 0xa153, 0x7e7b, 0x9f0b, 0x25aa, 0x5d9f, 0xc04d,
     0x8a0e, 0x2875, 0x4a1c, 0x295f, 0x1393, 0xf760, 0x9178, 0x0f5b,
     0xfa7d, 0x83b4, 0x2082, 0x721d, 0x6462, 0x0368, 0x67e2, 0x8624,
     0x194d, 0x22f6, 0x78fb, 0x6791, 0xb238, 0xb332, 0x7276, 0xf272,
     0x47ec, 0x4504, 0xa961, 0x9fc8, 0x3fdc, 0xb413, 0x007a, 0x0806,
     0x7458, 0x95c6, 0xccaa, 0x18d6, 0xe2ae, 0x1b06, 0xf3f6, 0x5050,
     0xc8e8, 0xf4ac, 0xc04c, 0xf41c, 0x992f, 0xae44, 0x5f1b, 0x1113,
     0x1738, 0xd9a8, 0x19ea, 0x2d33, 0x9698, 0x2fe9, 0x323f, 0xcde2,
     0x6d71, 0xe37d, 0xb697, 0x2c4f, 0x4373, 0x9102, 0x075d, 0x8e25,
     0x1672, 0xec28, 0x6acb, 0x86cc, 0x186e, 0x9414, 0xd674, 0xd1a5]"

definition PERMUTE :: "u8 \<Rightarrow> u32" where
  "PERMUTE x = ucast (single_hash ! unat x)"

fun lcksum_loop :: "bytes \<Rightarrow> u32 \<times> u32 \<Rightarrow> u32 \<times> u32" where
  "lcksum_loop [] (low, high) = (low, high)"
| "lcksum_loop (x # seg) (low, high) =
     (let low' = low + PERMUTE x in lcksum_loop seg (low', high + low'))"

definition xd3_lcksum :: "bytes \<Rightarrow> nat \<Rightarrow> u32" where
  "xd3_lcksum seg ln =
     (case lcksum_loop (take ln seg) (0, 0) of
        (low, high) \<Rightarrow> push_bit 16 (high AND 0xffff) OR (low AND 0xffff))"

definition xd3_large_cksum_update :: "u32 \<Rightarrow> bytes \<Rightarrow> nat \<Rightarrow> u32" where
  "xd3_large_cksum_update cksum base look =
     (let old_c = PERMUTE (base ! 0);
          new_c = PERMUTE (base ! look);
          low = ((cksum AND 0xffff) - old_c + new_c) AND 0xffff;
          high = ((drop_bit 16 cksum) - (old_c * of_nat look) + low) AND 0xffff
      in push_bit 16 high OR low)"

definition hash_multiplier :: u32 where
  "hash_multiplier = 1597334677"

text \<open>\<^verbatim>\<open>UNALIGNED_READ32\<close>: four bytes in the (little-endian) order of the machine.\<close>

definition UNALIGNED_READ32 :: "bytes \<Rightarrow> u32" where
  "UNALIGNED_READ32 src =
     ucast (src ! 0) OR push_bit 8 (ucast (src ! 1)) OR push_bit 16 (ucast (src ! 2)) OR
     push_bit 24 (ucast (src ! 3))"

text \<open>The state read and its hash; \<^verbatim>\<open>look\<close> is unused in the code.\<close>

definition xd3_scksum :: "bytes \<Rightarrow> u32 \<times> u32" where
  "xd3_scksum base = (let state = UNALIGNED_READ32 base in (state, state * hash_multiplier))"

definition xd3_small_cksum_update :: "u32 \<Rightarrow> bytes \<Rightarrow> u32 \<times> u32" where
  "xd3_small_cksum_update state base =
     (let state' = UNALIGNED_READ32 (drop 1 base) in (state', state' * hash_multiplier))"

section \<open>Hash tables\<close>

record xd3_hash_cfg =
  h_size :: u32
  h_shift :: nat
  h_mask :: u32

definition xd3_checksum_hash :: "xd3_hash_cfg \<Rightarrow> u32 \<Rightarrow> u32" where
  "xd3_checksum_hash cfg cksum = drop_bit (h_shift cfg) cksum XOR (cksum AND h_mask cfg)"

text \<open>\<open>for (i = 3; i <= 28; i += 1)\<close>, stopping at the first power of two above \<open>slots\<close>.\<close>

function size_log2_loop :: "nat \<Rightarrow> u32 \<Rightarrow> nat" where
  "size_log2_loop i slots =
     (if 28 < i then 28 else if slots < push_bit i 1 then i - 1 else size_log2_loop (i + 1) slots)"
  by pat_completeness auto
termination
  by (relation "measure (\<lambda>(i, slots). 29 - i)") auto

declare size_log2_loop.simps [simp del]

definition xd3_size_log2 :: "u32 \<Rightarrow> nat" where
  "xd3_size_log2 slots = size_log2_loop 3 slots"

definition xd3_size_hashtable :: "u32 \<Rightarrow> xd3_hash_cfg" where
  "xd3_size_hashtable slots =
     (let bits = xd3_size_log2 slots; size = push_bit bits 1
      in \<lparr>h_size = size, h_shift = 32 - bits, h_mask = size - 1\<rparr>)"

section \<open>Adler-32 computes the checksum of RFC 1950\<close>

text \<open>The reference: both sums over the naturals, reduced at every byte.\<close>

fun adler_step :: "u8 \<Rightarrow> nat \<times> nat \<Rightarrow> nat \<times> nat" where
  "adler_step b (s1, s2) =
     (let s1' = (s1 + unat b) mod A32_BASE in (s1', (s2 + s1') mod A32_BASE))"

definition adler_ref :: "nat \<times> nat \<Rightarrow> bytes \<Rightarrow> nat \<times> nat" where
  "adler_ref s buf = fold adler_step buf s"

definition adler_value :: "nat \<times> nat \<Rightarrow> nat" where
  "adler_value s = snd s * 65536 + fst s"

text \<open>The sums without reduction, on words and on naturals.\<close>

fun wstep :: "u8 \<Rightarrow> 'l::len word \<times> 'l word \<Rightarrow> 'l word \<times> 'l word" where
  "wstep b (s1, s2) = (s1 + ucast b, s2 + (s1 + ucast b))"

fun nstep :: "u8 \<Rightarrow> nat \<times> nat \<Rightarrow> nat \<times> nat" where
  "nstep b (s1, s2) = (s1 + unat b, s2 + (s1 + unat b))"

lemma A32_DO1_wstep: "A32_DO1 buf i s = wstep (buf ! i) s"
  by (cases s) (simp add: Let_def)

lemma map_nth_take: "n \<le> length xs \<Longrightarrow> map ((!) xs) [0..<n] = take n xs"
  by (rule nth_equalityI) auto

lemma A32_DO16_fold:
  assumes "16 \<le> length buf"
  shows "A32_DO16 buf s = fold wstep (take 16 buf) s"
proof -
  have "[0..<16] = [0, 1, 2, 3, 4, 5, 6, 7, 8, 9, 10, 11, 12, 13, 14, 15 :: nat]"
    by (simp add: upt_conv_Cons)
  then have "take 16 buf = map ((!) buf) [0, 1, 2, 3, 4, 5, 6, 7, 8, 9, 10, 11, 12, 13, 14, 15]"
    using map_nth_take [OF assms] by simp
  then show ?thesis
    by (simp add: A32_DO16_def A32_DO8_def A32_DO4_def A32_DO2_def A32_DO1_wstep
                  numeral_2_eq_2 numeral_3_eq_3 del: A32_DO1.simps)
qed

lemma A32_tail_fold: "k \<le> length buf \<Longrightarrow> A32_tail buf k s = fold wstep (take k buf) s"
proof (induction k arbitrary: buf s)
  case (Suc k)
  then show ?case by (cases buf) (simp_all add: A32_DO1_wstep del: A32_DO1.simps)
qed simp

lemma A32_block_fold: "k \<le> length buf \<Longrightarrow> A32_block buf k s = fold wstep (take k buf) s"
proof (induction buf k s rule: A32_block.induct)
  case (1 buf k s)
  show ?case
  proof (cases "16 \<le> k")
    case True
    then have "take k buf = take 16 buf @ take (k - 16) (drop 16 buf)"
      by (metis le_add_diff_inverse take_add)
    with True "1.IH" "1.prems" show ?thesis
      by (simp add: A32_block.simps [of buf k] A32_DO16_fold)
  next
    case False
    with "1.prems" show ?thesis by (simp add: A32_block.simps [of buf k] A32_tail_fold)
  qed
qed

lemma fold_nstep_mono: "fst s \<le> fst (fold nstep buf s) \<and> snd s \<le> snd (fold nstep buf s)"
proof (induction buf arbitrary: s)
  case (Cons b buf)
  have "fst s \<le> fst (nstep b s) \<and> snd s \<le> snd (nstep b s)" by (cases s) simp
  with Cons.IH [of "nstep b s"] show ?case by (auto intro: le_trans)
qed simp

text \<open>As long as the final sums fit the word, no sum on the way wraps.\<close>

lemma fold_wstep_nstep:
  fixes s1 s2 :: "'l::len word"
  assumes "8 \<le> LENGTH('l)"
    and "fst (fold nstep buf (unat s1, unat s2)) < 2 ^ LENGTH('l)"
    and "snd (fold nstep buf (unat s1, unat s2)) < 2 ^ LENGTH('l)"
  shows "map_prod unat unat (fold wstep buf (s1, s2)) = fold nstep buf (unat s1, unat s2)"
  using assms(2,3)
proof (induction buf arbitrary: s1 s2)
  case (Cons b buf)
  let ?n1 = "unat s1 + unat b" and ?n2 = "unat s2 + (unat s1 + unat b)"
  have f: "?n1 < 2 ^ LENGTH('l)" "?n2 < 2 ^ LENGTH('l)"
    using fold_nstep_mono [of "(?n1, ?n2)" buf] Cons.prems by auto
  have u1: "unat (s1 + ucast b) = ?n1"
    using f(1) unat_ucast_u8 [OF assms(1)] by (simp add: unat_add_noovf)
  then have u2: "unat (s2 + (s1 + ucast b)) = ?n2"
    using f(2) by (simp add: unat_add_noovf)
  show ?case using Cons.IH [of "s1 + ucast b" "s2 + (s1 + ucast b)"] Cons.prems u1 u2 by simp
qed simp

lemma fold_nstep_bound:
  "fst (fold nstep buf (a, c)) \<le> a + 255 * length buf \<and>
   2 * snd (fold nstep buf (a, c)) \<le>
     2 * c + 2 * (length buf * a) + 255 * (length buf * (length buf + 1))"
proof (induction buf arbitrary: a c)
  case (Cons b buf)
  let ?n = "length buf" and ?s = "fold nstep (b # buf) (a, c)"
  have b: "unat b \<le> 255" using unat_less_u8 [of b] by simp
  then have nb: "?n * unat b \<le> 255 * ?n" by simp
  define p q r where "p = ?n * unat b" and "q = ?n * (?n + 1)" and "r = ?n * a"
  have IH: "fst ?s \<le> a + unat b + 255 * ?n"
    "2 * snd ?s \<le> 2 * (c + (a + unat b)) + 2 * (?n * (a + unat b)) + 255 * q"
    unfolding q_def using Cons.IH [of "a + unat b" "c + (a + unat b)"] by simp_all
  have "?n * (a + unat b) = r + p" "Suc ?n * a = r + a" "Suc ?n * (Suc ?n + 1) = q + 2 * ?n + 2"
    by (simp_all add: algebra_simps p_def q_def r_def)
  note e = this
  have "2 * snd ?s \<le> 2 * c + 2 * a + 2 * unat b + 2 * r + 2 * p + 255 * q"
    using IH(2) unfolding e by simp
  then have "2 * snd ?s \<le> 2 * c + 2 * r + 2 * a + 255 * q + 510 * ?n + 510"
    using b nb [folded p_def] by linarith
  moreover have "fst ?s \<le> a + 255 * Suc ?n" using IH(1) b by simp
  ultimately show ?case by (simp only: length_Cons e) simp
qed simp

text \<open>\<^verbatim>\<open>NMAX\<close>: within one block of that many bytes neither sum reaches \<open>2 ^ 32\<close>.\<close>

lemma A32_block_no_overflow:
  assumes "a < 65536" and "c < 65536" and "length buf \<le> A32_NMAX"
  shows "fst (fold nstep buf (a, c)) < 2 ^ 32" and "snd (fold nstep buf (a, c)) < 2 ^ 32"
proof -
  let ?n = "length buf"
  have n: "?n \<le> 5552" using assms(3) by (simp add: A32_NMAX_def)
  have "?n * a \<le> 5552 * 65535" using n assms(1) by (intro mult_le_mono) auto
  moreover have "?n * (?n + 1) \<le> 5552 * 5553" using n by (intro mult_le_mono) auto
  ultimately show "fst (fold nstep buf (a, c)) < 2 ^ 32" "snd (fold nstep buf (a, c)) < 2 ^ 32"
    using fold_nstep_bound [of buf a c] n assms(1,2) by auto
qed

lemma fold_nstep_mod:
  "map_prod (\<lambda>x. x mod A32_BASE) (\<lambda>x. x mod A32_BASE) (fold nstep buf (a, c)) =
   adler_ref (a mod A32_BASE, c mod A32_BASE) buf"
proof (induction buf arbitrary: a c)
  case (Cons b buf)
  have "adler_step b (a mod A32_BASE, c mod A32_BASE) =
    ((a + unat b) mod A32_BASE, (c + (a + unat b)) mod A32_BASE)"
    by (simp add: Let_def mod_simps)
  with Cons.IH [of "a + unat b" "c + (a + unat b)"] show ?case by (simp add: adler_ref_def)
qed (simp add: adler_ref_def)

lemma adler_ref_append: "adler_ref s (as @ bs) = adler_ref (adler_ref s as) bs"
  by (simp add: adler_ref_def)

lemma unat_mod_A32_BASE:
  fixes w :: "'l::len word"
  assumes "32 \<le> LENGTH('l)"
  shows "unat (w mod of_nat A32_BASE) = unat w mod A32_BASE"
proof -
  have "(65521::nat) < 2 ^ 32" by simp
  also have "(2::nat) ^ 32 \<le> 2 ^ LENGTH('l)" using assms by (rule power_increasing) simp
  finally have "unat (of_nat 65521 :: 'l word) = 65521" by (simp add: take_bit_nat_eq_self)
  then show ?thesis by (simp add: A32_BASE_def unat_mod)
qed

text \<open>
  The outer loop. Its sums start below \<open>2 ^ 16\<close> (they are taken from the 16-bit halves
  of the argument, or reduced by the round before).
\<close>

lemma A32_loop_ref:
  fixes s1 s2 :: "'l::len word"
  assumes len: "32 \<le> LENGTH('l)" and "unat s1 < 65536" and "unat s2 < 65536" and "buf \<noteq> []"
  shows "map_prod unat unat (A32_loop buf (length buf) (s1, s2)) =
    adler_ref (unat s1 mod A32_BASE, unat s2 mod A32_BASE) buf"
  using assms(2-)
proof (induction "length buf" arbitrary: buf s1 s2 rule: less_induct)
  case less
  let ?k = "if length buf < A32_NMAX then length buf else A32_NMAX"
  define t where "t = take ?k buf"
  define s' where "s' = A32_block buf ?k (s1, s2)"
  have k: "?k \<le> length buf" "0 < ?k" using less.prems(3) by (auto simp: A32_NMAX_def)
  have tl: "length t \<le> A32_NMAX" by (simp add: t_def)
  have s': "s' = fold wstep t (s1, s2)" using k by (simp add: s'_def t_def A32_block_fold)
  have p: "(2::nat) ^ 32 \<le> 2 ^ LENGTH('l)" using len by (rule power_increasing) simp
  have "map_prod unat unat s' = fold nstep t (unat s1, unat s2)"
    unfolding s' using A32_block_no_overflow [OF less.prems(1,2) tl] p len
    by (intro fold_wstep_nstep) auto
  then have "map_prod (\<lambda>x. x mod A32_BASE) (\<lambda>x. x mod A32_BASE) (map_prod unat unat s') =
      adler_ref (unat s1 mod A32_BASE, unat s2 mod A32_BASE) t"
    by (simp only: fold_nstep_mod)
  then have r: "(unat (fst s' mod of_nat A32_BASE), unat (snd s' mod of_nat A32_BASE)) =
      adler_ref (unat s1 mod A32_BASE, unat s2 mod A32_BASE) t"
    by (cases s') (simp add: unat_mod_A32_BASE [OF len])
  have lt: "x mod A32_BASE < 65536" for x :: nat
    using mod_less_divisor [of A32_BASE x] by (simp add: A32_BASE_def)
  have unfold: "A32_loop buf (length buf) (s1, s2) = A32_loop (drop ?k buf) (length (drop ?k buf))
      (fst s' mod of_nat A32_BASE, snd s' mod of_nat A32_BASE)"
    using less.prems(3) by (subst A32_loop.simps) (simp add: s'_def Let_def)
  show ?case
  proof (cases "drop ?k buf = []")
    case True
    then have "t = buf" by (simp add: t_def)
    with True unfold r show ?thesis by (simp add: A32_loop.simps)
  next
    case False
    have small: "length (drop ?k buf) < length buf" using k by simp
    have "map_prod unat unat (A32_loop buf (length buf) (s1, s2)) =
      adler_ref (unat (fst s' mod of_nat A32_BASE) mod A32_BASE,
        unat (snd s' mod of_nat A32_BASE) mod A32_BASE) (drop ?k buf)"
      unfolding unfold using less.hyps [OF small _ _ False] lt
      by (simp add: unat_mod_A32_BASE [OF len])
    also have "\<dots> = adler_ref (adler_ref (unat s1 mod A32_BASE, unat s2 mod A32_BASE) t) (drop ?k buf)"
      by (simp add: unat_mod_A32_BASE [OF len] flip: r)
    finally show ?thesis by (simp add: t_def flip: adler_ref_append)
  qed
qed

lemma unat_and_ffff:
  fixes w :: "'l::len word"
  shows "unat (w AND 0xffff) = unat w mod 65536"
proof -
  have m: "(0xffff :: 'l word) = mask 16" by (simp add: mask_eq_exp_minus_1)
  show ?thesis unfolding m unat_and_mask by simp
qed

lemma unat_push16_or:
  fixes hi lo :: "'l::len word"
  assumes len: "32 \<le> LENGTH('l)" and hi: "unat hi < 65536" and lo: "unat lo < 65536"
  shows "unat (push_bit 16 hi OR lo) = unat hi * 65536 + unat lo"
proof -
  have p: "(2::nat) ^ 32 \<le> 2 ^ LENGTH('l)" using len by (rule power_increasing) simp
  have u: "unat (push_bit 16 hi) = unat hi * 65536"
    using unat_push_bit_noovf [of hi 16] hi p by simp
  have "lo AND NOT (mask 16) = 0" using lo by (simp add: and_not_mask_eq_0_iff)
  then have b: "\<not> (bit lo n \<and> 16 \<le> n)" for n
    by (auto simp: bit_eq_iff bit_simps dest: bit_imp_le_length)
  have "push_bit 16 hi AND lo = 0"
    by (rule bit_eqI) (use b in \<open>auto simp: bit_simps\<close>)
  from unat_or_disjoint [OF this] u show ?thesis by simp
qed

lemma adler_ref_less:
  "fst s < A32_BASE \<Longrightarrow> snd s < A32_BASE \<Longrightarrow>
    fst (adler_ref s buf) < A32_BASE \<and> snd (adler_ref s buf) < A32_BASE"
proof (induction buf arbitrary: s)
  case (Cons b buf)
  have "fst (adler_step b s) < A32_BASE \<and> snd (adler_step b s) < A32_BASE"
    by (cases s) (simp add: A32_BASE_def Let_def)
  with Cons.IH [of "adler_step b s"] show ?case by (simp add: adler_ref_def)
qed (simp add: adler_ref_def)

lemma adler32_ref:
  fixes adler :: "'l::len word"
  assumes len: "32 \<le> LENGTH('l)" and "buf \<noteq> []"
  shows "unat (adler32 adler buf) = adler_value (adler_ref
    (unat adler mod 65536 mod A32_BASE, unat adler div 65536 mod 65536 mod A32_BASE) buf)"
proof -
  let ?s1 = "adler AND 0xffff" and ?s2 = "drop_bit 16 adler AND 0xffff"
  have u1: "unat ?s1 = unat adler mod 65536" by (rule unat_and_ffff)
  have u2: "unat ?s2 = unat adler div 65536 mod 65536"
    unfolding unat_and_ffff unat_drop_bit by simp
  let ?r = "adler_ref (unat ?s1 mod A32_BASE, unat ?s2 mod A32_BASE) buf"
  obtain a c where s: "A32_loop buf (length buf) (?s1, ?s2) = (a, c)" by fastforce
  have "map_prod unat unat (A32_loop buf (length buf) (?s1, ?s2)) = ?r"
    by (rule A32_loop_ref [OF len _ _ assms(2)]; unfold u1 u2; simp)
  then have r: "?r = (unat a, unat c)" unfolding s by simp
  have "unat a < A32_BASE \<and> unat c < A32_BASE"
    using adler_ref_less [of "(unat ?s1 mod A32_BASE, unat ?s2 mod A32_BASE)" buf] r
    by (simp add: A32_BASE_def)
  then have "unat (push_bit 16 c OR a) = unat c * 65536 + unat a"
    by (intro unat_push16_or [OF len]) (simp_all add: A32_BASE_def)
  then show ?thesis using r u1 u2 by (simp add: adler32_def s adler_value_def)
qed

lemma adler32_one:
  assumes len: "32 \<le> LENGTH('l::len)"
  shows "unat (adler32 (1 :: 'l word) buf) = adler_value (adler_ref (1, 0) buf)"
proof (cases "buf = []")
  case True
  have "(0xffff :: 'l word) = mask 16" by (simp add: mask_eq_exp_minus_1)
  then have one: "(1 :: 'l word) AND 0xffff = 1" by (simp add: and_one_eq odd_iff_mod_2_eq_one)
  show ?thesis using len one
    by (simp add: True adler32_def A32_loop.simps adler_ref_def adler_value_def)
next
  case False
  from adler32_ref [OF len this, of 1] show ?thesis by (simp add: A32_BASE_def)
qed

section \<open>The run at the end of a window\<close>

lemma NEXTRUN_fold_snoc:
  "fold NEXTRUN (xs @ [x]) s = NEXTRUN x (fold NEXTRUN xs s)"
  by simp

lemma takeWhile_last_run:
  "length (takeWhile ((=) x) (x # xs)) = Suc (length (takeWhile ((=) x) xs))"
  by simp

lemma fold_NEXTRUN:
  assumes "seg \<noteq> []"
  shows "fold NEXTRUN seg (0, 0) =
    (of_nat (length (takeWhile ((=) (last seg)) (rev seg))), last seg)"
  using assms
proof (induction seg rule: rev_induct)
  case (snoc x xs)
  show ?case
  proof (cases "xs = []")
    case True
    then show ?thesis by simp
  next
    case False
    then obtain ys z where xs: "xs = ys @ [z]" by (cases xs rule: rev_cases) auto
    from snoc.IH [OF False] show ?thesis by (simp add: xs)
  qed
qed simp

section \<open>The large checksum rolls\<close>

lemma lcksum_loop_append:
  "lcksum_loop (xs @ ys) s = lcksum_loop ys (lcksum_loop xs s)"
  by (induction xs s rule: lcksum_loop.induct) (simp_all add: Let_def)

lemma lcksum_loop_offset:
  "lcksum_loop xs (a, c) =
     (a + fst (lcksum_loop xs (0, 0)), c + of_nat (length xs) * a + snd (lcksum_loop xs (0, 0)))"
proof (induction xs arbitrary: a c)
  case (Cons x xs)
  show ?case
    using Cons.IH [of "a + PERMUTE x" "c + (a + PERMUTE x)"] Cons.IH [of "PERMUTE x" "PERMUTE x"]
    by (simp add: Let_def algebra_simps)
qed simp

lemma lcksum_loop_roll:
  fixes x y :: u8 and xs :: bytes
  defines "w \<equiv> lcksum_loop (x # xs) (0, 0)" and "w' \<equiv> lcksum_loop (xs @ [y]) (0, 0)"
  shows "fst w' = fst w - PERMUTE x + PERMUTE y"
    and "snd w' = snd w - PERMUTE x * of_nat (length (x # xs)) + fst w'"
proof -
  obtain a c where r: "lcksum_loop xs (0, 0) = (a, c)" by fastforce
  have w: "w = (PERMUTE x + a, PERMUTE x + of_nat (length xs) * PERMUTE x + c)"
    using lcksum_loop_offset [of xs "PERMUTE x" "PERMUTE x"] by (simp add: w_def r Let_def)
  have w': "w' = (a + PERMUTE y, c + (a + PERMUTE y))"
    by (simp add: w'_def lcksum_loop_append r Let_def)
  show "fst w' = fst w - PERMUTE x + PERMUTE y" by (simp add: w w')
  show "snd w' = snd w - PERMUTE x * of_nat (length (x # xs)) + fst w'"
    by (simp add: w w' algebra_simps)
qed

lemma take_bit_16_u32: "(w :: u32) AND 0xffff = take_bit 16 w"
  by (simp add: take_bit_eq_mask mask_eq_exp_minus_1)

text \<open>A checksum holds the low halves of the two sums.\<close>

lemma xd3_lcksum_halves:
  "take_bit 16 (xd3_lcksum seg ln) = take_bit 16 (fst (lcksum_loop (take ln seg) (0, 0)))"
  "drop_bit 16 (xd3_lcksum seg ln) = take_bit 16 (snd (lcksum_loop (take ln seg) (0, 0)))"
  unfolding xd3_lcksum_def take_bit_16_u32
  by (rule bit_eqI; auto simp: bit_simps split: prod.splits)+

lemma uint_take_bit_16:
  fixes a b :: u32
  shows "uint (take_bit 16 a) = uint a mod 65536"
    and "uint (a + b) mod 65536 = (uint a + uint b) mod 65536"
    and "uint (a - b) mod 65536 = (uint a - uint b) mod 65536"
  by (simp_all add: unsigned_take_bit_eq take_bit_eq_mod [where ?'a = int] uint_word_ariths
                    mod_mod_cancel)

lemma take_bit_diff_add:
  fixes a b c :: u32
  shows "take_bit 16 (take_bit 16 a - b + c) = take_bit 16 (a - b + c)"
    and "take_bit 16 (a + take_bit 16 c) = take_bit 16 (a + c)"
proof -
  have "uint (take_bit 16 a - b) mod 65536 = uint (a - b) mod 65536"
    by (simp add: uint_take_bit_16 mod_diff_left_eq)
  then have "(uint (take_bit 16 a - b) + uint c) mod 65536 = (uint (a - b) + uint c) mod 65536"
    by (rule mod_add_cong) simp
  then show "take_bit 16 (take_bit 16 a - b + c) = take_bit 16 (a - b + c)"
    unfolding word_uint_eq_iff uint_take_bit_16 .
  show "take_bit 16 (a + take_bit 16 c) = take_bit 16 (a + c)"
    unfolding word_uint_eq_iff uint_take_bit_16 by (rule mod_add_right_eq)
qed

lemma large_cksum_roll:
  assumes "look < length base" and "0 < look"
  shows "xd3_large_cksum_update (xd3_lcksum base look) base look = xd3_lcksum (drop 1 base) look"
proof -
  obtain x base' where base: "base = x # base'" using assms by (cases base) auto
  define xs where "xs = take (look - 1) base'"
  define y where "y = base ! look"
  have w: "take look base = x # xs" using assms(2) by (cases look) (simp_all add: base xs_def)
  have w': "take look (drop 1 base) = xs @ [y]"
    using assms by (cases look) (simp_all add: base xs_def y_def take_Suc_conv_app_nth)
  have len: "length (x # xs) = look" using assms by (simp add: base xs_def)
  obtain l h where lh: "lcksum_loop (x # xs) (0, 0) = (l, h)" by fastforce
  obtain l' h' where lh': "lcksum_loop (xs @ [y]) (0, 0) = (l', h')" by fastforce
  from lcksum_loop_roll [where x = x and xs = xs and y = y] lh lh' len
  have l': "l' = l - PERMUTE x + PERMUTE y" and h': "h' = h - PERMUTE x * of_nat look + l'"
    by auto
  note halves = xd3_lcksum_halves [of base look, unfolded w lh]
  have new: "xd3_lcksum (drop 1 base) look = push_bit 16 (take_bit 16 h') OR take_bit 16 l'"
    unfolding xd3_lcksum_def w' lh' by (simp add: take_bit_16_u32)
  show ?thesis
    unfolding new xd3_large_cksum_update_def Let_def take_bit_16_u32 y_def [symmetric]
    using halves by (simp add: base l' [symmetric] take_bit_diff_add h')
qed

section \<open>The interface of a rolling checksum\<close>

text \<open>
  The match finder keeps the checksum of the window at its current position and moves it
  one byte at a time. It relies on one law: an update gives the checksum of the next
  window. Then it can start anywhere and is never out of step with the data.
\<close>

locale rolling_checksum =
  fixes look :: nat
    and fresh :: "bytes \<Rightarrow> 's"
    and update :: "'s \<Rightarrow> bytes \<Rightarrow> 's"
  assumes update_fresh: "look < length base \<Longrightarrow> update (fresh base) base = fresh (drop 1 base)"
begin

lemma roll_fresh:
  "n + look \<le> length base \<Longrightarrow>
   fold (\<lambda>i s. update s (drop i base)) [0..<n] (fresh base) = fresh (drop n base)"
proof (induction n)
  case (Suc n)
  then show ?case using update_fresh [of "drop n base"] by simp
qed simp

end

interpretation large: rolling_checksum "Suc look" "\<lambda>base. xd3_lcksum base (Suc look)"
    "\<lambda>c base. xd3_large_cksum_update c base (Suc look)" for look
  by unfold_locales (simp add: large_cksum_roll)

interpretation small: rolling_checksum 4 xd3_scksum "\<lambda>s base. xd3_small_cksum_update (fst s) base"
  by unfold_locales (simp add: xd3_small_cksum_update_def xd3_scksum_def Let_def)

section \<open>Hash values index their table\<close>

lemma size_log2_loop_bounds:
  assumes "2 \<le> i" "i \<le> 29" "2 ^ (i - 1) \<le> max 4 (unat slots)"
  shows "i - 1 \<le> size_log2_loop i slots \<and> size_log2_loop i slots \<le> 28 \<and>
    2 ^ size_log2_loop i slots \<le> max 4 (unat slots)"
  using assms
proof (induction i slots rule: size_log2_loop.induct)
  case (1 i slots)
  show ?case
  proof (cases "28 < i")
    case True
    with "1.prems" have "i = 29" by simp
    with "1.prems" show ?thesis by (simp add: size_log2_loop.simps [of 29])
  next
    case False
    show ?thesis
    proof (cases "slots < push_bit i 1")
      case True
      with False "1.prems" show ?thesis by (simp add: size_log2_loop.simps [of i slots])
    next
      case bigger: False
      have "(2::nat) ^ i < 2 ^ 32" using False by (intro power_strict_increasing) auto
      then have "unat (push_bit i 1 :: u32) = 2 ^ i"
        using unat_push_bit_noovf [of "1 :: u32" i] by simp
      with bigger have "2 ^ i \<le> unat slots" by (simp add: word_less_nat_alt del: push_bit_eq_mult)
      with "1.IH" [OF False bigger] False "1.prems"(1)
      have "i \<le> size_log2_loop (Suc i) slots \<and> size_log2_loop (Suc i) slots \<le> 28 \<and>
        2 ^ size_log2_loop (Suc i) slots \<le> max 4 (unat slots)"
        by (simp add: max.coboundedI2)
      then have "i - 1 \<le> size_log2_loop (Suc i) slots" "size_log2_loop (Suc i) slots \<le> 28"
        "2 ^ size_log2_loop (Suc i) slots \<le> max 4 (unat slots)"
        by auto
      moreover have eq: "size_log2_loop i slots = size_log2_loop (Suc i) slots"
        using False bigger by (simp add: size_log2_loop.simps [of i slots])
      ultimately show ?thesis unfolding eq by blast
    qed
  qed
qed

lemma xd3_size_log2_bounds:
  "2 \<le> xd3_size_log2 slots" "xd3_size_log2 slots \<le> 28" "2 ^ xd3_size_log2 slots \<le> max 4 (unat slots)"
  using size_log2_loop_bounds [of 3 slots] by (auto simp: xd3_size_log2_def)

lemma unat_xor_less:
  fixes a b :: "'a::len word"
  assumes "unat a < 2 ^ n" and "unat b < 2 ^ n"
  shows "unat (a XOR b) < 2 ^ n"
proof -
  have "a AND NOT (mask n) = 0" "b AND NOT (mask n) = 0"
    using assms by (simp_all add: and_not_mask_eq_0_iff)
  then have "(a XOR b) AND NOT (mask n) = 0"
    by (auto simp: bit_eq_iff bit_simps)
  then show ?thesis by (simp add: and_not_mask_eq_0_iff)
qed

lemma checksum_hash_in_table:
  "unat (xd3_checksum_hash (xd3_size_hashtable slots) cksum) < unat (h_size (xd3_size_hashtable slots))"
proof -
  let ?b = "xd3_size_log2 slots"
  note b = xd3_size_log2_bounds [of slots]
  have p: "(2::nat) ^ ?b < 2 ^ 32" using b(2) by (intro power_strict_increasing) auto
  then have s: "unat (push_bit ?b 1 :: u32) = 2 ^ ?b"
    using unat_push_bit_noovf [of "1 :: u32" ?b] by simp
  have "(push_bit ?b 1 - 1 :: u32) = mask ?b"
    by (simp add: mask_eq_exp_minus_1 push_bit_eq_mult)
  then have 1: "unat (cksum AND (push_bit ?b 1 - 1)) < 2 ^ ?b"
    by (simp only: unat_and_mask) simp
  have "unat cksum < 2 ^ ?b * 2 ^ (32 - ?b)"
    using unat_less_u32 [of cksum] b(2) by (simp flip: power_add)
  then have 2: "unat (drop_bit (32 - ?b) cksum) < 2 ^ ?b"
    unfolding unat_drop_bit by (simp add: less_mult_imp_div_less)
  show ?thesis
    using unat_xor_less [OF 2 1] s
    by (simp add: xd3_checksum_hash_def xd3_size_hashtable_def Let_def del: push_bit_eq_mult)
qed

lemma size_hashtable_size:
  "4 \<le> unat (h_size (xd3_size_hashtable slots)) \<and>
   unat (h_size (xd3_size_hashtable slots)) \<le> max 4 (unat slots)"
proof -
  let ?b = "xd3_size_log2 slots"
  note b = xd3_size_log2_bounds [of slots]
  have "(2::nat) ^ ?b < 2 ^ 32" using b(2) by (intro power_strict_increasing) auto
  then have u: "unat (h_size (xd3_size_hashtable slots)) = 2 ^ ?b"
    using unat_push_bit_noovf [of "1 :: u32" ?b]
    by (simp add: xd3_size_hashtable_def Let_def del: push_bit_eq_mult)
  have "(2::nat) ^ 2 \<le> 2 ^ ?b" using b(1) by (intro power_increasing) auto
  then show ?thesis using u b(3) by simp
qed

section \<open>Properties\<close>

text \<open>C20: The block-wise, unrolled Adler-32 with its delayed reductions computes the checksum of
  RFC 1950 (two sums reduced at every byte), for every buffer, whether \<^verbatim>\<open>unsigned long\<close> has 32
  or 64 bits.\<close>

theorem adler32_is_rfc1950:
  "unat (adler32 (1 :: u32) buf) = adler_value (adler_ref (1, 0) buf) \<and>
   unat (adler32 (1 :: u64) buf) = adler_value (adler_ref (1, 0) buf)"
  by (intro conjI adler32_one) simp_all

text \<open>C29: Rolling the large checksum forward \<open>n\<close> times from the start of a buffer gives the
  checksum computed afresh at position \<open>n\<close>.\<close>

theorem large_cksum_rolls:
  assumes "n + Suc look \<le> length base"
  shows "fold (\<lambda>i c. xd3_large_cksum_update c (drop i base) (Suc look)) [0..<n]
           (xd3_lcksum base (Suc look)) =
         xd3_lcksum (drop n base) (Suc look)"
  by (rule large.roll_fresh [OF assms])

theorem large_cksum_rolls_witness:
  "fold (\<lambda>i c. xd3_large_cksum_update c (drop i [1, 2, 3, 4, 5]) 3) [0..<2]
     (xd3_lcksum [1, 2, 3, 4, 5] 3) = xd3_lcksum [3, 4, 5] 3"
  using large_cksum_rolls [of 2 2 "[1, 2, 3, 4, 5]"] by (simp add: numeral_3_eq_3)

text \<open>C30: The hash of any checksum is an index into the table it was sized for, for every number
  of slots asked for.\<close>

theorem hash_in_table:
  "unat (xd3_checksum_hash (xd3_size_hashtable slots) cksum) < unat (h_size (xd3_size_hashtable slots)) \<and>
   4 \<le> unat (h_size (xd3_size_hashtable slots)) \<and>
   unat (h_size (xd3_size_hashtable slots)) \<le> max 4 (unat slots)"
  using checksum_hash_in_table [of slots cksum] size_hashtable_size [of slots] by simp

text \<open>C31: The run scan returns the last byte of the look-ahead and how often it is repeated at
  its end.\<close>

theorem comprun_counts_last_run:
  assumes "take slook seg \<noteq> []"
  shows "xd3_comprun seg slook =
    (of_nat (length (takeWhile ((=) (last (take slook seg))) (rev (take slook seg)))),
     last (take slook seg))"
  using assms by (simp add: xd3_comprun_def fold_NEXTRUN)

theorem comprun_counts_last_run_witness: "xd3_comprun [1, 7, 7, 7, 9] 4 = (3, 7)"
  using comprun_counts_last_run [of 4 "[1, 7, 7, 7, 9]"] by simp

end
