(* ===== verification/Stream.thy ===== *)
theory Stream
  imports Varint AddrCache CodeTable Source Checksum
begin

text \<open>
  The stream object of the decoder (\<^verbatim>\<open>struct _xd3_stream\<close> of \<^verbatim>\<open>xdelta3.h\<close>, the
  fields the decoder uses), its memory, and the basic decoder functions of
  \<^verbatim>\<open>xdelta3.c\<close>. A call that returns a code is a function to \<open>(code, stream) option\<close>:
  \<open>None\<close> is a step the C standard gives no meaning (a read or write outside an array, a use
  of freed memory) or a loop that never ends.

  The input \<^verbatim>\<open>next_in[0..avail_in)\<close> is the list of its bytes, and a section
  \<^verbatim>\<open>[buf, buf_max)\<close> likewise: the client keeps its input until the window is done, as
  \<^verbatim>\<open>xdelta3.h\<close> asks, so a section that points into it is what was in it. The output
  buffers are shared and freed, so they live in an explicit store of blocks.
\<close>

section \<open>Flags, indicator bits and states\<close>

definition XD3_JUST_HDR :: u32 where "XD3_JUST_HDR = push_bit 1 1"
definition XD3_SKIP_WINDOW :: u32 where "XD3_SKIP_WINDOW = push_bit 2 1"
definition XD3_SKIP_EMIT :: u32 where "XD3_SKIP_EMIT = push_bit 3 1"
definition XD3_ADLER32_NOVER :: u32 where "XD3_ADLER32_NOVER = push_bit 11 1"

definition VCD_SECONDARY :: u32 where "VCD_SECONDARY = push_bit 0 1"
definition VCD_CODETABLE :: u32 where "VCD_CODETABLE = push_bit 1 1"
definition VCD_APPHEADER :: u32 where "VCD_APPHEADER = push_bit 2 1"
definition VCD_INVHDR :: u32 where "VCD_INVHDR = NOT 7"

definition VCD_SOURCE :: u32 where "VCD_SOURCE = push_bit 0 1"
definition VCD_TARGET :: u32 where "VCD_TARGET = push_bit 1 1"
definition VCD_ADLER32 :: u32 where "VCD_ADLER32 = push_bit 2 1"
definition VCD_INVWIN :: u32 where "VCD_INVWIN = NOT 7"
definition VCD_SRCORTGT :: u32 where "VCD_SRCORTGT = VCD_SOURCE OR VCD_TARGET"
definition VCD_INVDEL :: u32 where "VCD_INVDEL = NOT 7"

lemmas vcd_bits = VCD_SECONDARY_def VCD_CODETABLE_def VCD_APPHEADER_def VCD_INVHDR_def
  VCD_SOURCE_def VCD_TARGET_def VCD_ADLER32_def VCD_INVWIN_def VCD_SRCORTGT_def VCD_INVDEL_def

definition VCD_DJW_ID :: u32 where "VCD_DJW_ID = 1"
definition VCD_LZMA_ID :: u32 where "VCD_LZMA_ID = 2"
definition VCD_FGK_ID :: u32 where "VCD_FGK_ID = 16"

definition XD3_HARDMAXWINSIZE :: u32 where
  "XD3_HARDMAXWINSIZE = push_bit 24 1"

definition DECODE_ALLOCSIZE :: u32 where
  "DECODE_ALLOCSIZE = push_bit 14 1"

datatype xd3_decode_state =
    DEC_VCHEAD | DEC_HDRIND | DEC_SECONDID | DEC_TABLEN | DEC_NEAR | DEC_SAME | DEC_TABDAT
  | DEC_APPLEN | DEC_APPDAT | DEC_WININD | DEC_CPYLEN | DEC_CPYOFF | DEC_ENCLEN | DEC_TGTLEN
  | DEC_DELIND | DEC_DATALEN | DEC_INSTLEN | DEC_ADDRLEN | DEC_CKSUM | DEC_DATA | DEC_INST
  | DEC_ADDR | DEC_EMIT | DEC_FINISH | DEC_ABORTED

fun dec_num :: "xd3_decode_state \<Rightarrow> nat" where
  "dec_num DEC_VCHEAD = 0" | "dec_num DEC_HDRIND = 1" | "dec_num DEC_SECONDID = 2"
| "dec_num DEC_TABLEN = 3" | "dec_num DEC_NEAR = 4" | "dec_num DEC_SAME = 5"
| "dec_num DEC_TABDAT = 6" | "dec_num DEC_APPLEN = 7" | "dec_num DEC_APPDAT = 8"
| "dec_num DEC_WININD = 9" | "dec_num DEC_CPYLEN = 10" | "dec_num DEC_CPYOFF = 11"
| "dec_num DEC_ENCLEN = 12" | "dec_num DEC_TGTLEN = 13" | "dec_num DEC_DELIND = 14"
| "dec_num DEC_DATALEN = 15" | "dec_num DEC_INSTLEN = 16" | "dec_num DEC_ADDRLEN = 17"
| "dec_num DEC_CKSUM = 18" | "dec_num DEC_DATA = 19" | "dec_num DEC_INST = 20"
| "dec_num DEC_ADDR = 21" | "dec_num DEC_EMIT = 22" | "dec_num DEC_FINISH = 23"
| "dec_num DEC_ABORTED = 24"

lemma dec_num_inj: "dec_num a = dec_num b \<Longrightarrow> a = b"
  by (cases a; cases b) simp_all

text \<open>The enumeration is ordered by its numbers.\<close>

instantiation xd3_decode_state :: linorder
begin

definition less_eq_xd3_decode_state :: "xd3_decode_state \<Rightarrow> xd3_decode_state \<Rightarrow> bool" where
  "less_eq_xd3_decode_state a b \<longleftrightarrow> dec_num a \<le> dec_num b"

definition less_xd3_decode_state :: "xd3_decode_state \<Rightarrow> xd3_decode_state \<Rightarrow> bool" where
  "less_xd3_decode_state a b \<longleftrightarrow> dec_num a < dec_num b"

instance
  by standard (auto simp: less_eq_xd3_decode_state_def less_xd3_decode_state_def dec_num_inj)

end

section \<open>The stream\<close>

text \<open>A section being staged: \<^verbatim>\<open>sec_buf\<close> is \<^verbatim>\<open>[buf, buf_max)\<close> once the section is complete.\<close>

record xd3_desect =
  sec_buf :: bytes
  sec_size :: u32
  sec_pos :: u32
  sec_copied :: "bytes option"
  sec_alloc :: u32

record xd3_hinst =
  h_type :: u8
  h_size :: u32
  h_addr :: u32

text \<open>
  The client's allocator answers a request by its number and size with a block of any
  contents, or with \<^verbatim>\<open>NULL\<close>. \<open>blocks\<close> is the store of the live output buffers.
\<close>

record xd3_memory =
  mem_alloc :: "nat \<Rightarrow> nat \<Rightarrow> bytes option"
  mem_words :: "u32 \<Rightarrow> u32 list option"
  mem_table :: bool
  mem_count :: nat
  blocks :: "nat \<Rightarrow> bytes option"

record xd3_io = xd3_memory +
  next_in :: bytes
  total_in :: u64
  next_out :: "nat option"
  avail_out :: u32
  space_out :: u32
  current_window :: u64
  total_out :: u64
  msg :: "string option"
  src :: "xd3_source option"
  getblk :: "getblk_func option"
  flags :: u32
  acache :: xd3_addr_cache
  enc_state :: nat

record xd3_header = xd3_io +
  dec_state :: xd3_decode_state
  dec_hdr_ind :: u32
  dec_win_ind :: u32
  dec_del_ind :: u32
  dec_magic :: bytes
  dec_magicbytes :: u32
  dec_secondid :: u32
  dec_codetblsz :: u32
  dec_codetbl :: "bytes option"
  dec_codetblbytes :: u32
  dec_appheadsz :: u32
  dec_appheader :: "bytes option"
  dec_appheadbytes :: u32

record xd3_window = xd3_header +
  dec_cksumbytes :: u32
  dec_cksum :: bytes
  dec_adler32 :: u32
  dec_cpylen :: u32
  dec_cpyoff :: u64
  dec_enclen :: u32
  dec_tgtlen :: u32
  dec_64part :: u64
  dec_32part :: u32
  dec_winstart :: u64
  dec_window_count :: u64
  dec_winbytes :: u32
  dec_hdrsize :: u32

text \<open>\<^verbatim>\<open>dec_tgtaddrbase\<close> points below its block: the block and the (negative) offset.\<close>

record xd3_stream = xd3_window +
  dec_tgtaddrbase :: "nat option \<times> int"
  dec_position :: u32
  dec_maxpos :: u32
  dec_current1 :: xd3_hinst
  dec_current2 :: xd3_hinst
  dec_buffer :: "nat option"
  dec_lastwin :: "nat option"
  dec_lastlen :: u32
  dec_laststart :: u64
  dec_lastspace :: u32
  inst_sect :: xd3_desect
  addr_sect :: xd3_desect
  data_sect :: xd3_desect
  code_table :: "xd3_dinst list"

type_synonym result = "(xd3_ret \<times> xd3_stream) option"

section \<open>Sequencing\<close>

definition ok :: "xd3_stream \<Rightarrow> result" where
  "ok s = Some (XD3_OK, s)"

definition fail :: "xd3_ret \<Rightarrow> string \<Rightarrow> xd3_stream \<Rightarrow> result" where
  "fail r m s = Some (r, s\<lparr>msg := Some m\<rparr>)"

text \<open>\<^verbatim>\<open>if ((ret = p)) { return ret; }\<close>, then \<open>f\<close>.\<close>

definition and_then :: "result \<Rightarrow> (xd3_stream \<Rightarrow> result) \<Rightarrow> result" where
  "and_then p f = Option.bind p (\<lambda>(r, s). if r = XD3_OK then f s else Some (r, s))"

lemma and_then_simps [simp]:
  "and_then None f = None"
  "and_then (ok s) f = f s"
  "and_then (Some (r, s)) f = (if r = XD3_OK then f s else Some (r, s))"
  "r \<noteq> XD3_OK \<Longrightarrow> and_then (fail r m s) f = fail r m s"
  by (simp_all add: and_then_def ok_def fail_def)

lemma and_then_Some:
  "and_then p f = Some (r, s') \<longleftrightarrow>
     (r \<noteq> XD3_OK \<and> p = Some (r, s')) \<or> (\<exists>s. p = Some (XD3_OK, s) \<and> f s = Some (r, s'))"
  by (cases p) (auto simp: and_then_def split: if_splits)

lemma and_then_mono [partial_function_mono]:
  assumes "mono_option p" "\<And>s. mono_option (\<lambda>f. g f s)"
  shows "mono_option (\<lambda>f. and_then (p f) (g f))"
  unfolding and_then_def
proof (rule bind_mono [OF assms(1)])
  fix y :: "xd3_ret \<times> xd3_stream"
  show "mono_option (\<lambda>f. (\<lambda>(r, s). if r = XD3_OK then g f s else Some (r, s)) y)"
    by (cases y; cases "fst y = XD3_OK") (simp_all add: assms(2) option.const_mono)
qed

section \<open>Memory\<close>

text \<open>\<^verbatim>\<open>xd3_alloc\<close> of \<open>n\<close> bytes: the block, or \<^verbatim>\<open>NULL\<close> and a message.\<close>

definition xd3_alloc :: "nat \<Rightarrow> xd3_stream \<Rightarrow> bytes option \<times> xd3_stream" where
  "xd3_alloc n s =
     (case mem_alloc s (mem_count s) n of
        None \<Rightarrow> (None, s\<lparr>msg := Some ''out of memory'', mem_count := mem_count s + 1\<rparr>)
      | Some b \<Rightarrow> (Some b, s\<lparr>mem_count := mem_count s + 1\<rparr>))"

text \<open>Freeing an output buffer; freeing it twice is \<open>None\<close>, freeing \<^verbatim>\<open>NULL\<close> does nothing.\<close>

definition free_block :: "nat option \<Rightarrow> xd3_stream \<Rightarrow> xd3_stream option" where
  "free_block p s =
     (case p of
        None \<Rightarrow> Some s
      | Some b \<Rightarrow> (if blocks s b = None then None else Some (s\<lparr>blocks := (blocks s)(b := None)\<rparr>)))"

text \<open>\<^verbatim>\<open>memcpy\<close> of \<open>bs\<close> to offset \<open>i\<close> of a buffer.\<close>

definition blit :: "bytes \<Rightarrow> nat \<Rightarrow> bytes \<Rightarrow> bytes option" where
  "blit buf i bs =
     (if i + length bs \<le> length buf then Some (take i buf @ bs @ drop (i + length bs) buf) else None)"

section \<open>Basic decoder functions\<close>

definition DECODE_INPUT :: "nat \<Rightarrow> xd3_stream \<Rightarrow> xd3_stream" where
  "DECODE_INPUT n s = s\<lparr>total_in := total_in s + of_nat n, next_in := drop n (next_in s)\<rparr>"

text \<open>The out parameter \<^verbatim>\<open>val\<close> is the function that stores it.\<close>

definition xd3_decode_byte :: "(u32 \<Rightarrow> xd3_stream \<Rightarrow> xd3_stream) \<Rightarrow> xd3_stream \<Rightarrow> result" where
  "xd3_decode_byte put s =
     (case next_in s of
        [] \<Rightarrow> fail XD3_INPUT ''further input required'' s
      | b # _ \<Rightarrow> ok (DECODE_INPUT 1 (put (ucast b) s)))"

text \<open>The loop of \<^verbatim>\<open>xd3_decode_bytes\<close>: whether all bytes came, the buffer, the position, the input left.\<close>

function decode_bytes_loop ::
    "bytes \<Rightarrow> u32 \<Rightarrow> u32 \<Rightarrow> bytes \<Rightarrow> (bool \<times> bytes \<times> u32 \<times> bytes) option" where
  "decode_bytes_loop buf pos sz inp =
     (if pos < sz
      then
        (if inp = [] then Some (False, buf, pos, inp)
         else
           (let want = sz - pos; tk = min (unat want) (length inp)
            in case blit buf (unat pos) (take tk inp) of
                 None \<Rightarrow> None
               | Some buf' \<Rightarrow> decode_bytes_loop buf' (pos + of_nat tk) sz (drop tk inp)))
      else Some (True, buf, pos, inp))"
  by pat_completeness auto
termination
proof (relation "measure (\<lambda>(buf, pos, sz, inp). length inp)", goal_cases)
  case (2 buf pos sz inp want tk buf')
  then have "sz - pos \<noteq> 0" by auto
  then have "0 < tk" using 2 by (simp add: unat_gt_0)
  then show ?case using 2 by (cases inp) auto
qed simp

declare decode_bytes_loop.simps [simp del]

definition xd3_decode_bytes ::
    "(xd3_stream \<Rightarrow> bytes) \<Rightarrow> (bytes \<Rightarrow> xd3_stream \<Rightarrow> xd3_stream) \<Rightarrow>
     (xd3_stream \<Rightarrow> u32) \<Rightarrow> (u32 \<Rightarrow> xd3_stream \<Rightarrow> xd3_stream) \<Rightarrow> u32 \<Rightarrow> xd3_stream \<Rightarrow> result" where
  "xd3_decode_bytes buf put_buf pos put_pos sz s =
     (case decode_bytes_loop (buf s) (pos s) sz (next_in s) of
        None \<Rightarrow> None
      | Some (all, b, p, inp) \<Rightarrow>
          (let s' = DECODE_INPUT (length (next_in s) - length inp) (put_pos p (put_buf b s))
           in if all then ok s' else fail XD3_INPUT ''further input required'' s'))"

text \<open>\<^verbatim>\<open>xd3_decode_size\<close> and \<^verbatim>\<open>xd3_decode_offset\<close>: the partial number stays in the stream.\<close>

definition xd3_decode_size :: "(u32 \<Rightarrow> xd3_stream \<Rightarrow> xd3_stream) \<Rightarrow> xd3_stream \<Rightarrow> result" where
  "xd3_decode_size put s =
     (case xd3_decode_uint32_t (dec_32part s) (next_in s) of
        (r, part, left) \<Rightarrow>
          (let s' = DECODE_INPUT (length (next_in s) - length left) (s\<lparr>dec_32part := part\<rparr>)
           in case r of Inl (e, m) \<Rightarrow> fail e m s' | Inr v \<Rightarrow> ok (put v s')))"

definition xd3_decode_offset :: "(u64 \<Rightarrow> xd3_stream \<Rightarrow> xd3_stream) \<Rightarrow> xd3_stream \<Rightarrow> result" where
  "xd3_decode_offset put s =
     (case xd3_decode_uint64_t (dec_64part s) (next_in s) of
        (r, part, left) \<Rightarrow>
          (let s' = DECODE_INPUT (length (next_in s) - length left) (s\<lparr>dec_64part := part\<rparr>)
           in case r of Inl (e, m) \<Rightarrow> fail e m s' | Inr v \<Rightarrow> ok (put v s')))"

section \<open>The client's side\<close>

definition xd3_avail_input :: "bytes \<Rightarrow> xd3_stream \<Rightarrow> xd3_stream" where
  "xd3_avail_input idata s = s\<lparr>next_in := idata\<rparr>"

definition xd3_consume_output :: "xd3_stream \<Rightarrow> xd3_stream" where
  "xd3_consume_output s = s\<lparr>avail_out := 0\<rparr>"

definition xd3_set_flags :: "u32 \<Rightarrow> xd3_stream \<Rightarrow> xd3_stream" where
  "xd3_set_flags fl s = s\<lparr>flags := fl\<rparr>"

definition xd3_errstring :: "xd3_stream \<Rightarrow> string" where
  "xd3_errstring s = (case msg s of None \<Rightarrow> [] | Some m \<Rightarrow> m)"

definition xd3_get_appheader :: "xd3_stream \<Rightarrow> xd3_err + (bytes option \<times> u32)" where
  "xd3_get_appheader s =
     (if dec_state s < DEC_WININD then Inl (XD3_INTERNAL, ''application header not available'')
      else Inr (dec_appheader s, dec_appheadsz s))"

definition ENC_ABORTED :: nat where "ENC_ABORTED = 7"

definition xd3_abort_stream :: "xd3_stream \<Rightarrow> xd3_stream" where
  "xd3_abort_stream s = s\<lparr>dec_state := DEC_ABORTED, enc_state := ENC_ABORTED\<rparr>"

end
