(* ===== verification/Window.thy ===== *)
theory Window
  imports Stream
begin

text \<open>
  Decoding one window (\<^verbatim>\<open>xdelta3-decode.h\<close>): its buffers, its three sections, the
  instructions and what they write. Each function takes the section or the half
  instruction it works on as a selector and an update of the stream, as the C functions
  take a pointer into it.
\<close>

section \<open>Buffers\<close>

definition SRCORTGT :: "u32 \<Rightarrow> u32" where
  "SRCORTGT x =
     (if x AND VCD_SRCORTGT = VCD_SOURCE then VCD_SOURCE
      else if x AND VCD_SRCORTGT = VCD_TARGET then VCD_TARGET else 0)"

definition xd3_decode_init_window :: "xd3_stream \<Rightarrow> result" where
  "xd3_decode_init_window s =
     ok (s\<lparr>dec_cpylen := 0, dec_cpyoff := 0, dec_cksumbytes := 0,
           acache := xd3_init_cache (acache s)\<rparr>)"

text \<open>
  \<^verbatim>\<open>dec_cpyaddrbase\<close>, which only the unimplemented \<^verbatim>\<open>VCD_TARGET\<close> copies would read, is
  left out.
\<close>

definition target_buffer :: "xd3_stream \<Rightarrow> result" where
  "target_buffer s =
     (if dec_win_ind s AND VCD_TARGET \<noteq> 0
      then
        (if dec_cpyoff s < dec_laststart s
         then fail XD3_INVALID_INPUT ''unsupported VCD_TARGET offset'' s
         else if dec_lastwin s = next_out s then ok (s\<lparr>next_out := None, space_out := 0\<rparr>)
         else ok s)
      else ok s)"

definition grow_buffer :: "xd3_stream \<Rightarrow> result" where
  "grow_buffer s =
     (if space_out s < dec_tgtlen s
      then
        (case free_block (dec_buffer s) s of
           None \<Rightarrow> None
         | Some s1 \<Rightarrow>
             (let s2 = s1\<lparr>space_out := xd3_round_blksize (dec_tgtlen s1) DECODE_ALLOCSIZE\<rparr>
              in case xd3_alloc (unat (space_out s2)) s2 of
                   (None, s3) \<Rightarrow> Some (ENOMEM, s3\<lparr>dec_buffer := None\<rparr>)
                 | (Some mem, s3) \<Rightarrow>
                     ok (s3\<lparr>blocks := (blocks s3)(mem_count s3 \<mapsto> mem),
                            dec_buffer := Some (mem_count s3), next_out := Some (mem_count s3)\<rparr>)))
      else ok s)"

definition xd3_decode_setup_buffers :: "xd3_stream \<Rightarrow> result" where
  "xd3_decode_setup_buffers s =
     and_then (target_buffer s) (\<lambda>s.
     and_then (grow_buffer s) (\<lambda>s.
       ok (s\<lparr>dec_tgtaddrbase := (next_out s, - int (unat (dec_cpylen s)))\<rparr>)))"

section \<open>Sections\<close>

text \<open>On \<^verbatim>\<open>*buf_ptr\<close> and \<^verbatim>\<open>*buf_alloc\<close>, which are fields of the section.\<close>

definition xd3_decode_allocate ::
    "u32 \<Rightarrow> (xd3_stream \<Rightarrow> xd3_desect) \<Rightarrow> ((xd3_desect \<Rightarrow> xd3_desect) \<Rightarrow> xd3_stream \<Rightarrow> xd3_stream) \<Rightarrow>
     xd3_stream \<Rightarrow> result" where
  "xd3_decode_allocate sz sel upd s =
     (let s1 = (if sec_copied (sel s) \<noteq> None \<and> sec_alloc (sel s) < sz
                then upd (sec_copied_update (\<lambda>_. None)) s else s)
      in if sec_copied (sel s1) = None
         then
           (let s2 = upd (sec_alloc_update (\<lambda>_. xd3_round_blksize sz DECODE_ALLOCSIZE)) s1
            in case xd3_alloc (unat (sec_alloc (sel s2))) s2 of
                 (None, s3) \<Rightarrow> Some (ENOMEM, s3)
               | (Some mem, s3) \<Rightarrow> ok (upd (sec_copied_update (\<lambda>_. Some mem)) s3))
         else ok s1)"

text \<open>
  While a section is being copied, \<^verbatim>\<open>buf\<close> is \<^verbatim>\<open>copied1\<close>; the model sets \<open>sec_buf\<close> when it
  is complete.
\<close>

definition section_copy ::
    "(xd3_stream \<Rightarrow> xd3_desect) \<Rightarrow> ((xd3_desect \<Rightarrow> xd3_desect) \<Rightarrow> xd3_stream \<Rightarrow> xd3_stream) \<Rightarrow>
     nat \<Rightarrow> xd3_stream \<Rightarrow> result" where
  "section_copy sel upd sect_take s =
     (case sec_copied (sel s) of
        None \<Rightarrow> None
      | Some mem \<Rightarrow>
          (case blit mem (unat (sec_pos (sel s))) (take sect_take (next_in s)) of
             None \<Rightarrow> None
           | Some mem' \<Rightarrow> ok (upd (sec_copied_update (\<lambda>_. Some mem')) s)))"

definition section_advance ::
    "(xd3_stream \<Rightarrow> xd3_desect) \<Rightarrow> ((xd3_desect \<Rightarrow> xd3_desect) \<Rightarrow> xd3_stream \<Rightarrow> xd3_stream) \<Rightarrow>
     nat \<Rightarrow> xd3_stream \<Rightarrow> xd3_stream" where
  "section_advance sel upd sect_take s =
     (let s1 = upd (sec_pos_update (\<lambda>p. p + of_nat sect_take)) s
      in DECODE_INPUT sect_take (s1\<lparr>dec_winbytes := dec_winbytes s1 + of_nat sect_take\<rparr>))"

definition section_finish ::
    "(xd3_stream \<Rightarrow> xd3_desect) \<Rightarrow> ((xd3_desect \<Rightarrow> xd3_desect) \<Rightarrow> xd3_stream \<Rightarrow> xd3_stream) \<Rightarrow>
     xd3_decode_state \<Rightarrow> bytes \<Rightarrow> xd3_stream \<Rightarrow> result" where
  "section_finish sel upd nstate content s =
     ok (upd (\<lambda>x. x\<lparr>sec_buf := content, sec_pos := 0\<rparr>) (s\<lparr>dec_state := nstate\<rparr>))"

text \<open>
  Three ways through: the whole section is in the input (no copy), part of it is copied,
  or it is empty or already complete. A section that is not copied but runs past the
  input is \<open>None\<close>.
\<close>

definition xd3_decode_section ::
    "(xd3_stream \<Rightarrow> xd3_desect) \<Rightarrow> ((xd3_desect \<Rightarrow> xd3_desect) \<Rightarrow> xd3_stream \<Rightarrow> xd3_stream) \<Rightarrow>
     xd3_decode_state \<Rightarrow> bool \<Rightarrow> xd3_stream \<Rightarrow> result" where
  "xd3_decode_section sel upd nstate copy s =
     (if sec_pos (sel s) < sec_size (sel s)
      then
        (if next_in s = [] then Some (XD3_INPUT, s)
         else if \<not> copy \<and> sec_pos (sel s) = 0
         then
           (let n = unat (sec_size (sel s))
            in if n \<le> length (next_in s)
               then section_finish sel upd nstate (take n (next_in s)) (section_advance sel upd n s)
               else None)
         else
           (let sect_need = sec_size (sel s) - sec_pos (sel s);
                sect_take = min (unat sect_need) (length (next_in s))
            in and_then (if sec_pos (sel s) = 0
                         then xd3_decode_allocate (sec_size (sel s)) sel upd s else ok s) (\<lambda>s.
               and_then (section_copy sel upd sect_take s) (\<lambda>s.
                 let s' = section_advance sel upd sect_take s
                 in if sec_pos (sel s') < sec_size (sel s')
                    then fail XD3_INPUT ''further input required'' s'
                    else section_finish sel upd nstate
                           (take (unat (sec_size (sel s'))) (the (sec_copied (sel s')))) s'))))
      else section_finish sel upd nstate
             (if sec_size (sel s) = 0 then []
              else take (unat (sec_size (sel s))) (the (sec_copied (sel s)))) s)"

section \<open>Instructions\<close>

definition xd3_decode_parse_halfinst ::
    "(xd3_stream \<Rightarrow> xd3_hinst) \<Rightarrow> ((xd3_hinst \<Rightarrow> xd3_hinst) \<Rightarrow> xd3_stream \<Rightarrow> xd3_stream) \<Rightarrow>
     xd3_stream \<Rightarrow> result" where
  "xd3_decode_parse_halfinst sel upd s =
     and_then
       (if h_size (sel s) = 0
        then
          (case xd3_read_uint32_t (sec_buf (inst_sect s)) of
             Inl (e, m) \<Rightarrow> fail XD3_INVALID_INPUT m s
           | Inr (v, rest) \<Rightarrow>
               ok (upd (h_size_update (\<lambda>_. v)) (s\<lparr>inst_sect := (inst_sect s)\<lparr>sec_buf := rest\<rparr>\<rparr>)))
        else ok s) (\<lambda>s.
     and_then
       (if unat (h_type (sel s)) \<ge> XD3_CPY
        then
          (case xd3_decode_address (acache s) (dec_position s) (unat (h_type (sel s)) - XD3_CPY)
                  (sec_buf (addr_sect s)) of
             None \<Rightarrow> None
           | Some (Inl (e, m)) \<Rightarrow> fail e m s
           | Some (Inr (a, ac, rest)) \<Rightarrow>
               (let s = upd (h_addr_update (\<lambda>_. a))
                          (s\<lparr>acache := ac, addr_sect := (addr_sect s)\<lparr>sec_buf := rest\<rparr>\<rparr>)
                in if h_addr (sel s) \<ge> dec_position s
                   then fail XD3_INVALID_INPUT ''address too large'' s
                   else if h_addr (sel s) < dec_cpylen s \<and>
                           h_addr (sel s) + h_size (sel s) > dec_cpylen s
                   then fail XD3_INVALID_INPUT ''size too large'' s
                   else ok s))
        else ok s) (\<lambda>s.
     if dec_position s + h_size (sel s) > dec_maxpos s
     then fail XD3_INVALID_INPUT ''size too large'' s
     else ok (s\<lparr>dec_position := dec_position s + h_size (sel s)\<rparr>)))"

text \<open>An opcode with no entry in the table (a table of fewer than 256 entries) is \<open>None\<close>.\<close>

definition xd3_decode_instruction :: "xd3_stream \<Rightarrow> result" where
  "xd3_decode_instruction s =
     (case sec_buf (inst_sect s) of
        [] \<Rightarrow> fail XD3_INVALID_INPUT ''instruction underflow'' s
      | b # rest \<Rightarrow>
          (if unat b < length (code_table s)
           then
             (let inst = code_table s ! unat b;
                  s1 = s\<lparr>inst_sect := (inst_sect s)\<lparr>sec_buf := rest\<rparr>,
                         dec_current1 := (dec_current1 s)\<lparr>h_type := type1 inst, h_size := ucast (size1 inst)\<rparr>,
                         dec_current2 := (dec_current2 s)\<lparr>h_type := type2 inst, h_size := ucast (size2 inst)\<rparr>\<rparr>
              in and_then (if unat (type1 inst) \<noteq> XD3_NOOP
                           then xd3_decode_parse_halfinst dec_current1 dec_current1_update s1 else ok s1) (\<lambda>s.
                 if unat (type2 inst) \<noteq> XD3_NOOP
                 then xd3_decode_parse_halfinst dec_current2 dec_current2_update s else ok s))
           else None))"

section \<open>Output\<close>

text \<open>
  A write of \<open>bs\<close> at \<^verbatim>\<open>next_out + avail_out\<close>. \<open>None\<close>: no buffer, a freed one, or past
  its end.
\<close>

definition write_out :: "bytes \<Rightarrow> xd3_stream \<Rightarrow> result" where
  "write_out bs s =
     (case next_out s of
        None \<Rightarrow> (if bs = [] then ok s else None)
      | Some b \<Rightarrow>
          (case blocks s b of
             None \<Rightarrow> (if bs = [] then ok s else None)
           | Some mem \<Rightarrow>
               (case blit mem (unat (avail_out s)) bs of
                  None \<Rightarrow> None
                | Some mem' \<Rightarrow>
                    ok (s\<lparr>blocks := (blocks s)(b \<mapsto> mem'),
                          avail_out := avail_out s + of_nat (length bs)\<rparr>))))"

text \<open>
  \<^verbatim>\<open>for (i = take; i != 0; i -= 1) { *dst++ = *src++; }\<close>: byte by byte, so that a copy
  whose source runs into its destination repeats what it has just written.
\<close>

fun overlap_copy ::
    "(nat \<Rightarrow> bytes option) \<Rightarrow> nat \<Rightarrow> nat \<Rightarrow> nat \<Rightarrow> nat \<Rightarrow> nat \<Rightarrow> (nat \<Rightarrow> bytes option) option" where
  "overlap_copy heap sb si db di 0 = Some heap"
| "overlap_copy heap sb si db di (Suc n) =
     (case heap sb of
        None \<Rightarrow> None
      | Some smem \<Rightarrow>
          (case heap db of
             None \<Rightarrow> None
           | Some dmem \<Rightarrow>
               (if si < length smem \<and> di < length dmem
                then overlap_copy (heap(db \<mapsto> dmem[di := smem ! si])) sb (Suc si) db (Suc di) n
                else None)))"

definition target_copy :: "u32 \<Rightarrow> u32 \<Rightarrow> xd3_stream \<Rightarrow> result" where
  "target_copy addr tk s =
     (case (dec_tgtaddrbase s, next_out s) of
        ((Some sb, off), Some db) \<Rightarrow>
          (if off + int (unat addr) < 0 then None
           else
             (case overlap_copy (blocks s) sb (nat (off + int (unat addr))) db (unat (avail_out s)) (unat tk) of
                None \<Rightarrow> None
              | Some heap \<Rightarrow> ok (s\<lparr>blocks := heap, avail_out := avail_out s + tk\<rparr>)))
      | _ \<Rightarrow> (if tk = 0 then ok s else None))"

text \<open>
  A copy from the source: the block is fetched; what is on it is copied and, when the copy
  goes on past the block, the instruction is left with the rest. \<^verbatim>\<open>XD3_GETSRCBLK\<close> leaves
  the instruction as it was.
\<close>

definition source_copy ::
    "(xd3_stream \<Rightarrow> xd3_hinst) \<Rightarrow> ((xd3_hinst \<Rightarrow> xd3_hinst) \<Rightarrow> xd3_stream \<Rightarrow> xd3_stream) \<Rightarrow>
     xd3_stream \<Rightarrow> result" where
  "source_copy sel upd s =
     (case src s of
        None \<Rightarrow> None
      | Some source \<Rightarrow>
          (case xd3_blksize_add (cpyoff_blocks source) (cpyoff_blkoff source) source (h_addr (sel s)) of
             (block, blkoff) \<Rightarrow>
               (case xd3_getblk (getblk s) source block of
                  (ret, m, source1) \<Rightarrow>
                    (let s1 = s\<lparr>src := Some source1, msg := (if m = None then msg s else m)\<rparr>;
                         bsz = blksize source; tk = h_size (sel s1)
                     in if ret = XD3_TOOFARBACK
                        then fail XD3_INTERNAL ''non-seekable source in decode'' s1
                        else if ret \<noteq> XD3_OK then Some (ret, s1)
                        else if onblk source1 \<noteq> bsz \<and> blkoff + tk > onblk source1
                        then fail XD3_INVALID_INPUT ''source file too short'' s1
                        else
                          (let whole = (blkoff + tk \<le> bsz);
                               tk' = (if whole then tk else bsz - blkoff);
                               s2 = upd (\<lambda>h. if whole then h\<lparr>h_type := of_nat XD3_NOOP, h_size := 0\<rparr>
                                            else h\<lparr>h_size := h_size h - tk', h_addr := h_addr h + tk'\<rparr>) s1
                           in case curblk source1 of
                                None \<Rightarrow> None
                              | Some blk \<Rightarrow>
                                  (if unat blkoff + unat tk' \<le> length blk
                                   then write_out (take (unat tk') (drop (unat blkoff) blk)) s2
                                   else None))))))"

definition xd3_decode_output_halfinst ::
    "(xd3_stream \<Rightarrow> xd3_hinst) \<Rightarrow> ((xd3_hinst \<Rightarrow> xd3_hinst) \<Rightarrow> xd3_stream \<Rightarrow> xd3_stream) \<Rightarrow>
     xd3_stream \<Rightarrow> result" where
  "xd3_decode_output_halfinst sel upd s =
     (let tk = h_size (sel s); t = unat (h_type (sel s));
          done = upd (h_type_update (\<lambda>_. of_nat XD3_NOOP))
      in if t = XD3_RUN
         then
           (case sec_buf (data_sect s) of
              [] \<Rightarrow> fail XD3_INVALID_INPUT ''data underflow'' s
            | b # rest \<Rightarrow>
                and_then (write_out (replicate (unat tk) b) s) (\<lambda>s.
                  ok (done (s\<lparr>data_sect := (data_sect s)\<lparr>sec_buf := rest\<rparr>\<rparr>))))
         else if t = XD3_ADD
         then
           (if unat tk > length (sec_buf (data_sect s))
            then fail XD3_INVALID_INPUT ''data underflow'' s
            else
              and_then (write_out (take (unat tk) (sec_buf (data_sect s))) s) (\<lambda>s.
                ok (done (s\<lparr>data_sect := (data_sect s)\<lparr>sec_buf := drop (unat tk) (sec_buf (data_sect s))\<rparr>\<rparr>))))
         else if h_addr (sel s) < dec_cpylen s
         then
           (if dec_win_ind s AND VCD_TARGET \<noteq> 0
            then fail XD3_UNIMPLEMENTED ''VCD_TARGET not implemented''
                   (upd (\<lambda>h. h\<lparr>h_size := 0, h_type := of_nat XD3_NOOP\<rparr>) s)
            else source_copy sel upd s)
         else
           target_copy (h_addr (sel s)) tk
             (upd (\<lambda>h. h\<lparr>h_type := of_nat XD3_NOOP, h_size := 0\<rparr>) s))"

section \<open>A whole window\<close>

definition xd3_decode_finish_window :: "xd3_stream \<Rightarrow> result" where
  "xd3_decode_finish_window s =
     Some (XD3_OUTPUT,
       s\<lparr>dec_winbytes := 0, dec_state := DEC_FINISH,
         data_sect := (data_sect s)\<lparr>sec_pos := 0\<rparr>, inst_sect := (inst_sect s)\<lparr>sec_pos := 0\<rparr>,
         addr_sect := (addr_sect s)\<lparr>sec_pos := 0\<rparr>\<rparr>)"

text \<open>No secondary compressor is compiled in (\<^verbatim>\<open>SECONDARY_ANY\<close> is 0).\<close>

definition xd3_decode_secondary_sections :: "xd3_stream \<Rightarrow> result" where
  "xd3_decode_secondary_sections s = ok s"

text \<open>The switch falls through from \<^verbatim>\<open>DEC_DATA\<close> to \<^verbatim>\<open>DEC_INST\<close> to \<^verbatim>\<open>DEC_ADDR\<close>.\<close>

definition three_sections :: "bool \<Rightarrow> xd3_stream \<Rightarrow> result" where
  "three_sections copy s =
     (let addr = xd3_decode_section addr_sect addr_sect_update DEC_EMIT copy;
          inst = (\<lambda>s. and_then (xd3_decode_section inst_sect inst_sect_update DEC_ADDR copy s) addr);
          data = (\<lambda>s. and_then (xd3_decode_section data_sect data_sect_update DEC_INST copy s) inst)
      in if dec_state s = DEC_DATA then data s
         else if dec_state s = DEC_INST then inst s
         else if dec_state s = DEC_ADDR then addr s
         else fail XD3_INVALID_INPUT ''internal error'' s)"

definition xd3_decode_sections :: "xd3_stream \<Rightarrow> result" where
  "xd3_decode_sections s =
     (if flags s AND XD3_JUST_HDR \<noteq> 0 then xd3_decode_finish_window s
      else
        (let need = sec_size (inst_sect s) + sec_size (addr_sect s) + sec_size (data_sect s);
             more = need - dec_winbytes s;
             tk = min (unat more) (length (next_in s));
             copy = (tk \<noteq> unat more)
         in if flags s AND XD3_SKIP_WINDOW \<noteq> 0
            then
              (let s' = DECODE_INPUT tk s; s'' = s'\<lparr>dec_winbytes := dec_winbytes s' + of_nat tk\<rparr>
               in if copy then fail XD3_INPUT ''further input required'' s''
                  else xd3_decode_finish_window s'')
            else
              and_then (three_sections copy s) (\<lambda>s.
              and_then (xd3_decode_secondary_sections s) (\<lambda>s.
                if flags s AND XD3_SKIP_EMIT \<noteq> 0 then xd3_decode_finish_window s
                else xd3_decode_setup_buffers s))))"

text \<open>\<^verbatim>\<open>while (inst->type != XD3_NOOP)\<close>\<close>

partial_function (option) output_loop ::
    "(xd3_stream \<Rightarrow> xd3_hinst) \<Rightarrow> ((xd3_hinst \<Rightarrow> xd3_hinst) \<Rightarrow> xd3_stream \<Rightarrow> xd3_stream) \<Rightarrow>
     xd3_stream \<Rightarrow> result" where
  "output_loop sel upd s =
     (if unat (h_type (sel s)) \<noteq> XD3_NOOP
      then and_then (xd3_decode_output_halfinst sel upd s) (output_loop sel upd)
      else ok s)"

text \<open>The outer loop; both half instructions are idle when an opcode is read.\<close>

definition both_idle :: "xd3_stream \<Rightarrow> bool" where
  "both_idle s \<longleftrightarrow>
     unat (h_type (dec_current1 s)) = XD3_NOOP \<and> unat (h_type (dec_current2 s)) = XD3_NOOP"

partial_function (option) emit_loop :: "xd3_stream \<Rightarrow> result" where
  "emit_loop s =
     (if sec_buf (inst_sect s) \<noteq> [] \<or> \<not> both_idle s
      then
        and_then (if both_idle s then xd3_decode_instruction s else ok s) (\<lambda>s.
        and_then (output_loop dec_current1 dec_current1_update s) (\<lambda>s.
        and_then (output_loop dec_current2 dec_current2_update s) emit_loop))
      else ok s)"

text \<open>The checksum is computed over \<^verbatim>\<open>next_out[0..avail_out)\<close>; \<^verbatim>\<open>unsigned long\<close> is the type argument.\<close>

definition window_bytes :: "xd3_stream \<Rightarrow> bytes option" where
  "window_bytes s =
     (case next_out s of
        None \<Rightarrow> (if avail_out s = 0 then Some [] else None)
      | Some b \<Rightarrow>
          (case blocks s b of
             None \<Rightarrow> (if avail_out s = 0 then Some [] else None)
           | Some mem \<Rightarrow>
               (if unat (avail_out s) \<le> length mem then Some (take (unat (avail_out s)) mem) else None)))"

definition window_adler32 :: "'l::len itself \<Rightarrow> bytes \<Rightarrow> u32" where
  "window_adler32 l bs = ucast (adler32 (1 :: 'l word) bs)"

definition xd3_decode_emit :: "'l::len itself \<Rightarrow> xd3_stream \<Rightarrow> result" where
  "xd3_decode_emit l s =
     and_then (emit_loop s) (\<lambda>s.
       if avail_out s \<noteq> dec_tgtlen s then fail XD3_INVALID_INPUT ''wrong window length'' s
       else if sec_buf (data_sect s) \<noteq> [] then fail XD3_INVALID_INPUT ''extra data section'' s
       else if sec_buf (addr_sect s) \<noteq> [] then fail XD3_INVALID_INPUT ''extra address section'' s
       else if dec_win_ind s AND VCD_ADLER32 \<noteq> 0 \<and> flags s AND XD3_ADLER32_NOVER = 0
       then
         (case window_bytes s of
            None \<Rightarrow> None
          | Some bs \<Rightarrow>
              (if window_adler32 l bs \<noteq> dec_adler32 s
               then fail XD3_INVALID_INPUT ''target window checksum mismatch'' s
               else xd3_decode_finish_window s))
       else xd3_decode_finish_window s)"

end
