(* ===== verification/Decode.thy ===== *)
theory Decode
  imports Window
begin

text \<open>
  The decoder's state machine (\<^verbatim>\<open>xd3_decode_input\<close> of \<^verbatim>\<open>xdelta3-decode.h\<close>). Each case of
  the switch is a function that falls through to the next one; the state is stored
  before a case goes on, so that a call that ran out of input resumes where it stopped.

  Two parameters: the type \<open>'l\<close> of \<^verbatim>\<open>unsigned long\<close> for the checksum, and \<open>dm\<close>, the call
  of \<^verbatim>\<open>xd3_decode_memory\<close> that decodes a custom code table (a VCDIFF of its own, decoded by
  another stream): its code and the bytes it produced.
\<close>

type_synonym decode_mem = "bytes \<Rightarrow> bytes \<Rightarrow> (xd3_ret \<times> bytes) option"

section \<open>Pieces\<close>

text \<open>The three macros: \<^verbatim>\<open>BYTE_CASE\<close>, \<^verbatim>\<open>OFFSET_CASE\<close>, \<^verbatim>\<open>SIZE_CASE\<close>.\<close>

definition goto :: "xd3_decode_state \<Rightarrow> xd3_stream \<Rightarrow> result" where
  "goto nstate s = ok (s\<lparr>dec_state := nstate\<rparr>)"

definition BYTE_CASE ::
    "bool \<Rightarrow> (u32 \<Rightarrow> xd3_stream \<Rightarrow> xd3_stream) \<Rightarrow> xd3_decode_state \<Rightarrow> xd3_stream \<Rightarrow> result" where
  "BYTE_CASE e put nstate s = and_then (if e then xd3_decode_byte put s else ok s) (goto nstate)"

definition OFFSET_CASE ::
    "bool \<Rightarrow> (u64 \<Rightarrow> xd3_stream \<Rightarrow> xd3_stream) \<Rightarrow> xd3_decode_state \<Rightarrow> xd3_stream \<Rightarrow> result" where
  "OFFSET_CASE e put nstate s = and_then (if e then xd3_decode_offset put s else ok s) (goto nstate)"

definition SIZE_CASE ::
    "bool \<Rightarrow> (u32 \<Rightarrow> xd3_stream \<Rightarrow> xd3_stream) \<Rightarrow> xd3_decode_state \<Rightarrow> xd3_stream \<Rightarrow> result" where
  "SIZE_CASE e put nstate s = and_then (if e then xd3_decode_size put s else ok s) (goto nstate)"

definition TOTAL_MODES :: "xd3_stream \<Rightarrow> nat" where
  "TOTAL_MODES s = 2 + unat (s_same (acache s)) + unat (s_near (acache s))"

definition xd3_apply_table_encoding :: "decode_mem \<Rightarrow> bytes \<Rightarrow> xd3_stream \<Rightarrow> result" where
  "xd3_apply_table_encoding dm data s =
     (case dm data (xd3_compute_code_table_string xd3_rfc3284_code_table) of
        None \<Rightarrow> None
      | Some (ret, out) \<Rightarrow>
          (if ret \<noteq> XD3_OK then Some (ret, s)
           else if length out \<noteq> CODE_TABLE_STRING_SIZE
           then fail XD3_INTERNAL ''corrupt code-table encoding'' s
           else
             (case xd3_apply_table_string (mem_table s) (TOTAL_MODES s) out of
                Inl (e, m) \<Rightarrow> fail e m s
              | Inr table \<Rightarrow> ok (s\<lparr>code_table := table\<rparr>))))"

definition stream_alloc_cache :: "xd3_stream \<Rightarrow> result" where
  "stream_alloc_cache s =
     (case xd3_alloc_cache (mem_words s) (acache s) of
        Inl e \<Rightarrow> Some (e, s)
      | Inr ac \<Rightarrow> ok (s\<lparr>acache := ac\<rparr>))"

section \<open>The end of a window\<close>

definition dec_FINISH :: "xd3_stream \<Rightarrow> result" where
  "dec_FINISH s =
     (let s1 = (if dec_win_ind s AND VCD_TARGET \<noteq> 0
                then (if dec_lastwin s = None
                      then s\<lparr>dec_lastwin := next_out s, dec_lastspace := space_out s\<rparr>
                      else s\<lparr>dec_lastwin := next_out s, next_out := dec_lastwin s,
                             dec_lastspace := space_out s, space_out := dec_lastspace s\<rparr>)
                else s)
      in Some (XD3_WINFINISH,
           s1\<lparr>dec_lastlen := dec_tgtlen s1, dec_laststart := dec_winstart s1,
              dec_window_count := dec_window_count s1 + 1, dec_state := DEC_WININD\<rparr>))"

definition source_blocks :: "xd3_stream \<Rightarrow> result" where
  "source_blocks s =
     (if dec_win_ind s AND VCD_SOURCE \<noteq> 0
      then
        (case src s of
           None \<Rightarrow> fail XD3_INVALID_INPUT ''source input required'' s
         | Some source \<Rightarrow>
             (case xd3_blksize_div (dec_cpyoff s) source of
                (no, off) \<Rightarrow> ok (s\<lparr>src := Some (source\<lparr>cpyoff_blocks := no, cpyoff_blkoff := off\<rparr>)\<rparr>)))
      else ok s)"

definition dec_EMIT :: "'l::len itself \<Rightarrow> xd3_stream \<Rightarrow> result" where
  "dec_EMIT l s =
     and_then (source_blocks s) (\<lambda>s.
       case xd3_decode_emit l s of
         None \<Rightarrow> None
       | Some (ret, s') \<Rightarrow>
           Some (ret, if ret = XD3_OUTPUT then s'\<lparr>total_out := total_out s' + ucast (avail_out s')\<rparr> else s'))"

definition dec_DATA :: "'l::len itself \<Rightarrow> xd3_stream \<Rightarrow> result" where
  "dec_DATA l s = and_then (xd3_decode_sections s) (dec_EMIT l)"

section \<open>The window header\<close>

text \<open>The redundant length field: all sizes as the code adds them, in 32 bits.\<close>

definition enclen_check :: "xd3_stream \<Rightarrow> u32" where
  "enclen_check s =
     1 + (xd3_sizeof_uint32_t (dec_tgtlen s) + xd3_sizeof_uint32_t (sec_size (data_sect s)) +
          xd3_sizeof_uint32_t (sec_size (inst_sect s)) + xd3_sizeof_uint32_t (sec_size (addr_sect s))) +
     sec_size (data_sect s) + sec_size (inst_sect s) + sec_size (addr_sect s) +
     (if dec_win_ind s AND VCD_ADLER32 \<noteq> 0 then 4 else 0)"

definition dec_CKSUM :: "xd3_stream \<Rightarrow> result" where
  "dec_CKSUM s =
     and_then
       (if dec_win_ind s AND VCD_ADLER32 \<noteq> 0
        then and_then (xd3_decode_bytes dec_cksum (\<lambda>b s. s\<lparr>dec_cksum := b\<rparr>)
                         dec_cksumbytes (\<lambda>p s. s\<lparr>dec_cksumbytes := p\<rparr>) 4 s) (\<lambda>s.
               ok (s\<lparr>dec_adler32 := fold (\<lambda>i a. push_bit 8 a OR ucast (dec_cksum s ! i)) [0..<4] (dec_adler32 s)\<rparr>))
        else ok s) (\<lambda>s.
     let s = s\<lparr>dec_state := DEC_DATA\<rparr>
     in if dec_enclen s \<noteq> enclen_check s
        then fail XD3_INVALID_INPUT ''incorrect encoding length (redundent)'' s
        else Some (if current_window s = 0 then XD3_GOTHEADER else XD3_WINSTART, s))"

definition dec_ADDRLEN :: "xd3_stream \<Rightarrow> result" where
  "dec_ADDRLEN s =
     and_then (SIZE_CASE True (\<lambda>v s. s\<lparr>addr_sect := (addr_sect s)\<lparr>sec_size := v\<rparr>\<rparr>) DEC_CKSUM s) dec_CKSUM"

definition dec_INSTLEN :: "xd3_stream \<Rightarrow> result" where
  "dec_INSTLEN s =
     and_then (SIZE_CASE True (\<lambda>v s. s\<lparr>inst_sect := (inst_sect s)\<lparr>sec_size := v\<rparr>\<rparr>) DEC_ADDRLEN s) dec_ADDRLEN"

definition dec_DATALEN :: "xd3_stream \<Rightarrow> result" where
  "dec_DATALEN s =
     and_then (SIZE_CASE True (\<lambda>v s. s\<lparr>data_sect := (data_sect s)\<lparr>sec_size := v\<rparr>\<rparr>) DEC_INSTLEN s) dec_INSTLEN"

definition dec_DELIND :: "xd3_stream \<Rightarrow> result" where
  "dec_DELIND s =
     and_then (BYTE_CASE True (\<lambda>v s. s\<lparr>dec_del_ind := v\<rparr>) DEC_DATALEN s) (\<lambda>s.
       if dec_del_ind s AND VCD_INVDEL \<noteq> 0
       then fail XD3_INVALID_INPUT ''unrecognized delta indicator bits set'' s
       else if dec_del_ind s \<noteq> 0
       then fail XD3_INVALID_INPUT ''invalid delta indicator bits set'' s
       else dec_DATALEN s)"

definition dec_TGTLEN :: "xd3_stream \<Rightarrow> result" where
  "dec_TGTLEN s =
     and_then (SIZE_CASE True (\<lambda>v s. s\<lparr>dec_tgtlen := v\<rparr>) DEC_DELIND s) (\<lambda>s.
       if USIZE_T_OVERFLOW (dec_cpylen s) (dec_tgtlen s)
       then fail XD3_INVALID_INPUT ''decoder target window overflows a usize_t'' s
       else if dec_tgtlen s > XD3_HARDMAXWINSIZE
       then fail XD3_INVALID_INPUT ''hard window size exceeded'' s
       else dec_DELIND (s\<lparr>dec_maxpos := dec_cpylen s + dec_tgtlen s\<rparr>))"

definition dec_ENCLEN :: "xd3_stream \<Rightarrow> result" where
  "dec_ENCLEN s =
     and_then (SIZE_CASE True (\<lambda>v s. s\<lparr>dec_enclen := v\<rparr>) DEC_TGTLEN s) dec_TGTLEN"

definition dec_CPYOFF :: "xd3_stream \<Rightarrow> result" where
  "dec_CPYOFF s =
     and_then (OFFSET_CASE (SRCORTGT (dec_win_ind s) \<noteq> 0) (\<lambda>v s. s\<lparr>dec_cpyoff := v\<rparr>) DEC_ENCLEN s) (\<lambda>s.
       if XOFF_T_OVERFLOW (dec_cpyoff s) (ucast (dec_cpylen s))
       then fail XD3_INVALID_INPUT ''decoder copy window overflows a file offset'' s
       else if dec_win_ind s AND VCD_TARGET \<noteq> 0 \<and> dec_cpyoff s + ucast (dec_cpylen s) > dec_winstart s
       then fail XD3_INVALID_INPUT ''VCD_TARGET window out of bounds'' s
       else dec_ENCLEN s)"

definition dec_CPYLEN :: "xd3_stream \<Rightarrow> result" where
  "dec_CPYLEN s =
     and_then (SIZE_CASE (SRCORTGT (dec_win_ind s) \<noteq> 0) (\<lambda>v s. s\<lparr>dec_cpylen := v\<rparr>) DEC_CPYOFF s) (\<lambda>s.
       dec_CPYOFF (s\<lparr>dec_position := dec_cpylen s\<rparr>))"

definition dec_WININD :: "xd3_stream \<Rightarrow> result" where
  "dec_WININD s =
     and_then (xd3_decode_byte (\<lambda>v s. s\<lparr>dec_win_ind := v\<rparr>) s) (\<lambda>s.
       let s1 = s\<lparr>current_window := dec_window_count s\<rparr>
       in if XOFF_T_OVERFLOW (dec_winstart s1) (ucast (dec_tgtlen s1))
          then fail XD3_INVALID_INPUT ''decoder file offset overflow'' s1
          else
            (let s2 = s1\<lparr>dec_winstart := dec_winstart s1 + ucast (dec_tgtlen s1)\<rparr>
             in if dec_win_ind s2 AND VCD_INVWIN \<noteq> 0
                then fail XD3_INVALID_INPUT ''unrecognized window indicator bits set'' s2
                else and_then (xd3_decode_init_window s2) (\<lambda>s.
                     dec_CPYLEN (s\<lparr>dec_state := DEC_CPYLEN\<rparr>))))"

section \<open>The file header\<close>

definition dec_APPDAT :: "xd3_stream \<Rightarrow> result" where
  "dec_APPDAT s =
     and_then
       (if dec_hdr_ind s AND VCD_APPHEADER \<noteq> 0
        then
          and_then
            (if dec_appheader s = None
             then (case xd3_alloc (unat (dec_appheadsz s + 1)) s of
                     (None, s1) \<Rightarrow> Some (ENOMEM, s1)
                   | (Some mem, s1) \<Rightarrow> ok (s1\<lparr>dec_appheader := Some mem\<rparr>))
             else ok s) (\<lambda>s.
          case blit (the (dec_appheader s)) (unat (dec_appheadsz s)) [0] of
            None \<Rightarrow> None
          | Some mem \<Rightarrow>
              xd3_decode_bytes (\<lambda>s. the (dec_appheader s)) (\<lambda>b s. s\<lparr>dec_appheader := Some b\<rparr>)
                dec_appheadbytes (\<lambda>p s. s\<lparr>dec_appheadbytes := p\<rparr>) (dec_appheadsz s)
                (s\<lparr>dec_appheader := Some mem\<rparr>))
        else ok s) (\<lambda>s.
     dec_WININD (s\<lparr>dec_hdrsize := ucast (total_in s), dec_state := DEC_WININD\<rparr>))"

definition dec_APPLEN :: "xd3_stream \<Rightarrow> result" where
  "dec_APPLEN s =
     and_then (SIZE_CASE (dec_hdr_ind s AND VCD_APPHEADER \<noteq> 0) (\<lambda>v s. s\<lparr>dec_appheadsz := v\<rparr>) DEC_APPDAT s)
       dec_APPDAT"

definition dec_TABDAT :: "decode_mem \<Rightarrow> xd3_stream \<Rightarrow> result" where
  "dec_TABDAT dm s =
     and_then
       (if dec_hdr_ind s AND VCD_CODETABLE \<noteq> 0
        then
          and_then
            (if dec_codetbl s = None
             then (case xd3_alloc (unat (dec_codetblsz s)) s of
                     (None, s1) \<Rightarrow> Some (ENOMEM, s1)
                   | (Some mem, s1) \<Rightarrow> ok (s1\<lparr>dec_codetbl := Some mem\<rparr>))
             else ok s) (\<lambda>s.
          and_then
            (xd3_decode_bytes (\<lambda>s. the (dec_codetbl s)) (\<lambda>b s. s\<lparr>dec_codetbl := Some b\<rparr>)
               dec_codetblbytes (\<lambda>p s. s\<lparr>dec_codetblbytes := p\<rparr>) (dec_codetblsz s) s) (\<lambda>s.
          xd3_apply_table_encoding dm
            (take (unat (dec_codetblbytes s)) (the (dec_codetbl s))) s))
        else ok (s\<lparr>acache := (acache s)\<lparr>s_near := ucast (near_modes rfc3284_code_table_desc),
                                          s_same := ucast (same_modes rfc3284_code_table_desc)\<rparr>,
                   code_table := xd3_rfc3284_code_table\<rparr>)) (\<lambda>s.
     and_then (stream_alloc_cache s) (\<lambda>s.
     dec_APPLEN (s\<lparr>dec_state := DEC_APPLEN\<rparr>)))"

definition dec_SAME :: "decode_mem \<Rightarrow> xd3_stream \<Rightarrow> result" where
  "dec_SAME dm s =
     and_then (BYTE_CASE (dec_hdr_ind s AND VCD_CODETABLE \<noteq> 0)
       (\<lambda>v s. s\<lparr>acache := (acache s)\<lparr>s_same := v\<rparr>\<rparr>) DEC_TABDAT s) (dec_TABDAT dm)"

definition dec_NEAR :: "decode_mem \<Rightarrow> xd3_stream \<Rightarrow> result" where
  "dec_NEAR dm s =
     and_then (BYTE_CASE (dec_hdr_ind s AND VCD_CODETABLE \<noteq> 0)
       (\<lambda>v s. s\<lparr>acache := (acache s)\<lparr>s_near := v\<rparr>\<rparr>) DEC_SAME s) (dec_SAME dm)"

definition dec_TABLEN :: "decode_mem \<Rightarrow> xd3_stream \<Rightarrow> result" where
  "dec_TABLEN dm s =
     and_then (SIZE_CASE (dec_hdr_ind s AND VCD_CODETABLE \<noteq> 0) (\<lambda>v s. s\<lparr>dec_codetblsz := v\<rparr>) DEC_NEAR s) (\<lambda>s.
     and_then
       (if dec_hdr_ind s AND VCD_CODETABLE \<noteq> 0
        then (if dec_codetblsz s \<le> 2 then fail ENOMEM ''invalid code table size'' s
              else ok (s\<lparr>dec_codetblsz := dec_codetblsz s - 2\<rparr>))
        else ok s) (dec_NEAR dm))"

definition dec_SECONDID :: "decode_mem \<Rightarrow> xd3_stream \<Rightarrow> result" where
  "dec_SECONDID dm s =
     (if dec_hdr_ind s AND VCD_SECONDARY \<noteq> 0
      then
        and_then (BYTE_CASE True (\<lambda>v s. s\<lparr>dec_secondid := v\<rparr>) DEC_TABLEN s) (\<lambda>s.
          if dec_secondid s = VCD_FGK_ID
          then fail XD3_INTERNAL ''unavailable secondary compressor: FGK Adaptive Huffman'' s
          else if dec_secondid s = VCD_DJW_ID
          then fail XD3_INTERNAL ''unavailable secondary compressor: DJW Static Huffman'' s
          else if dec_secondid s = VCD_LZMA_ID
          then fail XD3_INTERNAL ''unavailable secondary compressor: LZMA'' s
          else fail XD3_INVALID_INPUT ''unknown secondary compressor ID'' s)
      else dec_TABLEN dm s)"

definition dec_HDRIND :: "decode_mem \<Rightarrow> xd3_stream \<Rightarrow> result" where
  "dec_HDRIND dm s =
     and_then (xd3_decode_byte (\<lambda>v s. s\<lparr>dec_hdr_ind := v\<rparr>) s) (\<lambda>s.
       if dec_hdr_ind s AND VCD_INVHDR \<noteq> 0
       then fail XD3_INVALID_INPUT ''unrecognized header indicator bits set'' s
       else dec_SECONDID dm (s\<lparr>dec_state := DEC_SECONDID\<rparr>))"

definition dec_VCHEAD :: "decode_mem \<Rightarrow> xd3_stream \<Rightarrow> result" where
  "dec_VCHEAD dm s =
     and_then (xd3_decode_bytes dec_magic (\<lambda>b s. s\<lparr>dec_magic := b\<rparr>)
                 dec_magicbytes (\<lambda>p s. s\<lparr>dec_magicbytes := p\<rparr>) 4 s) (\<lambda>s.
       if take 3 (dec_magic s) \<noteq> [0xd6, 0xc3, 0xc4]
       then fail XD3_INVALID_INPUT ''not a VCDIFF input'' s
       else if dec_magic s ! 3 \<noteq> 0
       then fail XD3_INVALID_INPUT ''VCDIFF input version > 0 is not supported'' s
       else dec_HDRIND dm (s\<lparr>dec_state := DEC_HDRIND\<rparr>))"

section \<open>The switch\<close>

definition xd3_decode_input :: "'l::len itself \<Rightarrow> decode_mem \<Rightarrow> xd3_stream \<Rightarrow> result" where
  "xd3_decode_input l dm s =
     (if enc_state s \<noteq> 0 then fail XD3_INVALID_INPUT ''encoder/decoder transition'' s
      else case dec_state s of
          DEC_VCHEAD \<Rightarrow> dec_VCHEAD dm s
        | DEC_HDRIND \<Rightarrow> dec_HDRIND dm s
        | DEC_SECONDID \<Rightarrow> dec_SECONDID dm s
        | DEC_TABLEN \<Rightarrow> dec_TABLEN dm s
        | DEC_NEAR \<Rightarrow> dec_NEAR dm s
        | DEC_SAME \<Rightarrow> dec_SAME dm s
        | DEC_TABDAT \<Rightarrow> dec_TABDAT dm s
        | DEC_APPLEN \<Rightarrow> dec_APPLEN s
        | DEC_APPDAT \<Rightarrow> dec_APPDAT s
        | DEC_WININD \<Rightarrow> dec_WININD s
        | DEC_CPYLEN \<Rightarrow> dec_CPYLEN s
        | DEC_CPYOFF \<Rightarrow> dec_CPYOFF s
        | DEC_ENCLEN \<Rightarrow> dec_ENCLEN s
        | DEC_TGTLEN \<Rightarrow> dec_TGTLEN s
        | DEC_DELIND \<Rightarrow> dec_DELIND s
        | DEC_DATALEN \<Rightarrow> dec_DATALEN s
        | DEC_INSTLEN \<Rightarrow> dec_INSTLEN s
        | DEC_ADDRLEN \<Rightarrow> dec_ADDRLEN s
        | DEC_CKSUM \<Rightarrow> dec_CKSUM s
        | DEC_DATA \<Rightarrow> dec_DATA l s
        | DEC_INST \<Rightarrow> dec_DATA l s
        | DEC_ADDR \<Rightarrow> dec_DATA l s
        | DEC_EMIT \<Rightarrow> dec_EMIT l s
        | DEC_FINISH \<Rightarrow> dec_FINISH s
        | DEC_ABORTED \<Rightarrow> fail XD3_INVALID_INPUT ''invalid state'' s)"

end
