(* ===== verification/Config.thy ===== *)
theory Config
  imports Decode
begin

text \<open>
  The life of a stream: \<^verbatim>\<open>xd3_config_stream\<close>, \<^verbatim>\<open>xd3_close_stream\<close> on the decoder's side,
  \<^verbatim>\<open>xd3_free_stream\<close>, with the flags of \<^verbatim>\<open>xdelta3.h\<close> and the string matchers of
  \<^verbatim>\<open>xdelta3-cfgs.h\<close>. The fields that only the encoder uses are the record
  \<open>xd3_settings\<close> beside the stream.
\<close>

section \<open>Flags\<close>

definition XD3_FLUSH :: u32 where "XD3_FLUSH = push_bit 4 1"
definition XD3_SEC_DJW :: u32 where "XD3_SEC_DJW = push_bit 5 1"
definition XD3_SEC_FGK :: u32 where "XD3_SEC_FGK = push_bit 6 1"
definition XD3_SEC_LZMA :: u32 where "XD3_SEC_LZMA = push_bit 24 1"
definition XD3_SEC_TYPE :: u32 where "XD3_SEC_TYPE = XD3_SEC_DJW OR XD3_SEC_FGK OR XD3_SEC_LZMA"
definition XD3_SEC_NODATA :: u32 where "XD3_SEC_NODATA = push_bit 7 1"
definition XD3_SEC_NOINST :: u32 where "XD3_SEC_NOINST = push_bit 8 1"
definition XD3_SEC_NOADDR :: u32 where "XD3_SEC_NOADDR = push_bit 9 1"
definition XD3_SEC_NOALL :: u32 where
  "XD3_SEC_NOALL = XD3_SEC_NODATA OR XD3_SEC_NOINST OR XD3_SEC_NOADDR"
definition XD3_ADLER32 :: u32 where "XD3_ADLER32 = push_bit 10 1"
definition XD3_ALT_CODE_TABLE :: u32 where "XD3_ALT_CODE_TABLE = push_bit 12 1"
definition XD3_NOCOMPRESS :: u32 where "XD3_NOCOMPRESS = push_bit 13 1"
definition XD3_BEGREEDY :: u32 where "XD3_BEGREEDY = push_bit 14 1"
definition XD3_ADLER32_RECODE :: u32 where "XD3_ADLER32_RECODE = push_bit 15 1"
definition XD3_COMPLEVEL_SHIFT :: nat where "XD3_COMPLEVEL_SHIFT = 20"
definition XD3_COMPLEVEL_MASK :: u32 where "XD3_COMPLEVEL_MASK = push_bit XD3_COMPLEVEL_SHIFT 15"

lemmas sec_flags = XD3_SEC_DJW_def XD3_SEC_FGK_def XD3_SEC_LZMA_def XD3_SEC_TYPE_def
  XD3_SEC_NODATA_def XD3_SEC_NOINST_def XD3_SEC_NOADDR_def XD3_SEC_NOALL_def

section \<open>String matchers\<close>

text \<open>The matching function is one instance of the template per matcher: it is named here.\<close>

record xd3_smatcher =
  sm_name :: string
  string_match :: string
  large_look :: u32
  large_step :: u32
  small_look :: u32
  small_chain :: u32
  small_lchain :: u32
  max_lazy :: u32
  long_enough :: u32

definition smatcher_template ::
    "string \<Rightarrow> u32 \<Rightarrow> u32 \<Rightarrow> u32 \<Rightarrow> u32 \<Rightarrow> u32 \<Rightarrow> u32 \<Rightarrow> u32 \<Rightarrow> xd3_smatcher" where
  "smatcher_template name llook lstep slook schain slchain maxlazy longenough =
     \<lparr>sm_name = name, string_match = ''xd3_string_match_'' @ name, large_look = llook,
      large_step = lstep, small_look = slook, small_chain = schain, small_lchain = slchain,
      max_lazy = maxlazy, long_enough = longenough\<rparr>"

definition smatcher_zero :: xd3_smatcher where
  "smatcher_zero = \<lparr>sm_name = [], string_match = [], large_look = 0, large_step = 0, small_look = 0,
     small_chain = 0, small_lchain = 0, max_lazy = 0, long_enough = 0\<rparr>"

definition smatcher_soft_instance :: xd3_smatcher where
  "smatcher_soft_instance = smatcher_template ''soft'' 0 0 0 0 0 0 0"

definition smatcher_fastest :: xd3_smatcher where
  "smatcher_fastest = smatcher_template ''fastest'' 9 26 4 1 1 6 6"

definition smatcher_faster :: xd3_smatcher where
  "smatcher_faster = smatcher_template ''faster'' 9 15 4 1 1 18 18"

definition smatcher_fast :: xd3_smatcher where
  "smatcher_fast = smatcher_template ''fast'' 9 8 4 4 1 18 35"

definition smatcher_slow :: xd3_smatcher where
  "smatcher_slow = smatcher_template ''slow'' 9 2 4 44 13 90 70"

definition smatcher_default :: xd3_smatcher where
  "smatcher_default = smatcher_template ''default'' 9 3 4 8 2 36 70"

lemmas smatchers = smatcher_template_def smatcher_zero_def smatcher_soft_instance_def
  smatcher_fastest_def smatcher_faster_def smatcher_fast_def smatcher_slow_def smatcher_default_def

text \<open>\<^verbatim>\<open>xd3_smatch_cfg\<close> is a C enumeration: any number can be stored in it.\<close>

definition XD3_SMATCH_DEFAULT :: nat where "XD3_SMATCH_DEFAULT = 0"
definition XD3_SMATCH_SLOW :: nat where "XD3_SMATCH_SLOW = 1"
definition XD3_SMATCH_FAST :: nat where "XD3_SMATCH_FAST = 2"
definition XD3_SMATCH_FASTER :: nat where "XD3_SMATCH_FASTER = 3"
definition XD3_SMATCH_FASTEST :: nat where "XD3_SMATCH_FASTEST = 4"
definition XD3_SMATCH_SOFT :: nat where "XD3_SMATCH_SOFT = 5"

lemmas smatch_cfgs = XD3_SMATCH_DEFAULT_def XD3_SMATCH_SLOW_def XD3_SMATCH_FAST_def
  XD3_SMATCH_FASTER_def XD3_SMATCH_FASTEST_def XD3_SMATCH_SOFT_def

section \<open>Configuration\<close>

text \<open>\<^verbatim>\<open>cfg_alloc\<close>, \<^verbatim>\<open>cfg_words\<close> and \<^verbatim>\<open>cfg_table\<close> are the client's \<^verbatim>\<open>alloc\<close>, by what it is asked for.\<close>

record xd3_config =
  cfg_winsize :: u32
  cfg_sprevsz :: u32
  cfg_iopt_size :: u32
  cfg_getblk :: "getblk_func option"
  cfg_alloc :: "nat \<Rightarrow> nat \<Rightarrow> bytes option"
  cfg_words :: "u32 \<Rightarrow> u32 list option"
  cfg_table :: bool
  cfg_flags :: u32
  smatch_cfg :: nat
  smatcher_soft :: xd3_smatcher

text \<open>\<^verbatim>\<open>xd3_init_config\<close> zeroes the rest; a null allocator means \<^verbatim>\<open>malloc\<close>, which is a parameter.\<close>

record xd3_malloc =
  heap_alloc :: "nat \<Rightarrow> nat \<Rightarrow> bytes option"
  heap_words :: "u32 \<Rightarrow> u32 list option"
  heap_table :: bool

definition xd3_init_config :: "xd3_malloc \<Rightarrow> u32 \<Rightarrow> xd3_config" where
  "xd3_init_config h fl =
     \<lparr>cfg_winsize = 0, cfg_sprevsz = 0, cfg_iopt_size = 0, cfg_getblk = None,
      cfg_alloc = heap_alloc h, cfg_words = heap_words h, cfg_table = heap_table h,
      cfg_flags = fl, smatch_cfg = 0, smatcher_soft = smatcher_zero\<rparr>"

record xd3_settings =
  winsize :: u32
  sprevsz :: u32
  sprevmask :: u32
  iopt_size :: u32
  iopt_unlimited :: bool
  smatcher :: xd3_smatcher
  code_table_desc :: "xd3_code_table_desc option"

definition XD3_DEFAULT_WINSIZE :: u32 where "XD3_DEFAULT_WINSIZE = push_bit 23 1"
definition XD3_DEFAULT_SPREVSZ :: u32 where "XD3_DEFAULT_SPREVSZ = push_bit 18 1"

text \<open>\<^verbatim>\<open>memset (stream, 0, sizeof (*stream))\<close>; the store of blocks is the client's heap.\<close>

definition zero_sect :: xd3_desect where
  "zero_sect = \<lparr>sec_buf = [], sec_size = 0, sec_pos = 0, sec_copied = None, sec_alloc = 0\<rparr>"

definition zero_hinst :: xd3_hinst where
  "zero_hinst = \<lparr>h_type = 0, h_size = 0, h_addr = 0\<rparr>"

definition zero_settings :: xd3_settings where
  "zero_settings = \<lparr>winsize = 0, sprevsz = 0, sprevmask = 0, iopt_size = 0, iopt_unlimited = False,
     smatcher = smatcher_zero, code_table_desc = None\<rparr>"

definition zero_stream :: "xd3_config \<Rightarrow> (nat \<Rightarrow> bytes option) \<Rightarrow> nat \<Rightarrow> xd3_stream" where
  "zero_stream config heap n =
     \<lparr>mem_alloc = cfg_alloc config, mem_words = cfg_words config, mem_table = cfg_table config,
      mem_count = n, blocks = heap,
      next_in = [], total_in = 0, next_out = None, avail_out = 0, space_out = 0, current_window = 0,
      total_out = 0, msg = None, src = None, getblk = None, flags = 0,
      acache = \<lparr>s_near = 0, s_same = 0, next_slot = 0, near_array = [], same_array = []\<rparr>,
      enc_state = 0,
      dec_state = DEC_VCHEAD, dec_hdr_ind = 0, dec_win_ind = 0, dec_del_ind = 0,
      dec_magic = replicate 4 0, dec_magicbytes = 0, dec_secondid = 0, dec_codetblsz = 0,
      dec_codetbl = None, dec_codetblbytes = 0, dec_appheadsz = 0, dec_appheader = None,
      dec_appheadbytes = 0,
      dec_cksumbytes = 0, dec_cksum = replicate 4 0, dec_adler32 = 0, dec_cpylen = 0, dec_cpyoff = 0,
      dec_enclen = 0, dec_tgtlen = 0, dec_64part = 0, dec_32part = 0, dec_winstart = 0,
      dec_window_count = 0, dec_winbytes = 0, dec_hdrsize = 0,
      dec_tgtaddrbase = (None, 0), dec_position = 0, dec_maxpos = 0, dec_current1 = zero_hinst,
      dec_current2 = zero_hinst, dec_buffer = None, dec_lastwin = None, dec_lastlen = 0,
      dec_laststart = 0, dec_lastspace = 0, inst_sect = zero_sect, addr_sect = zero_sect,
      data_sect = zero_sect, code_table = []\<rparr>"

text \<open>The secondary compressor: none is compiled in.\<close>

definition config_secondary :: "u32 \<Rightarrow> string option" where
  "config_secondary fl =
     (let ty = fl AND XD3_SEC_TYPE
      in if ty = 0
         then (if fl AND XD3_SEC_NOALL \<noteq> 0 then Some ''XD3_SEC flags require a secondary compressor type''
               else None)
         else if ty = XD3_SEC_FGK then Some ''unavailable secondary compressor: FGK Adaptive Huffman''
         else if ty = XD3_SEC_DJW then Some ''unavailable secondary compressor: DJW Static Huffman''
         else if ty = XD3_SEC_LZMA then Some ''unavailable secondary compressor: LZMA''
         else Some ''too many secondary compressor types set'')"

text \<open>
  The previous-match table. The matcher looked at is the one in the stream, which is still
  all zero here.
\<close>

definition config_sprevsz :: "xd3_settings \<Rightarrow> xd3_settings option" where
  "config_sprevsz e =
     (if small_chain (smatcher e) = 1 \<and> small_lchain (smatcher e) = 1 then Some (e\<lparr>sprevsz := 0\<rparr>)
      else if fst (xd3_check_pow2 (ucast (sprevsz e))) \<noteq> XD3_OK then None
      else Some (e\<lparr>sprevmask := sprevsz e - 1\<rparr>))"

definition level_smatcher :: "u32 \<Rightarrow> xd3_smatcher" where
  "level_smatcher fl =
     (let level = unat (drop_bit XD3_COMPLEVEL_SHIFT (fl AND XD3_COMPLEVEL_MASK))
      in if level = 1 then smatcher_fastest
         else if level = 2 then smatcher_faster
         else if level = 3 \<or> level = 4 \<or> level = 5 then smatcher_fast
         else if level = 6 then smatcher_default
         else smatcher_slow)"

text \<open>The string matcher of a configuration: the one set, and the error, if any.\<close>

definition config_smatcher ::
    "xd3_config \<Rightarrow> xd3_smatcher \<Rightarrow> xd3_smatcher \<times> xd3_err option" where
  "config_smatcher config old =
     (let c = smatch_cfg config
      in if c = XD3_SMATCH_SOFT
         then
           (let m = (smatcher_soft config)\<lparr>string_match := string_match smatcher_soft_instance,
                                            sm_name := sm_name smatcher_soft_instance\<rparr>
            in (m, if large_look m < of_nat MIN_MATCH \<or> large_step m < 1 \<or> small_look m < of_nat MIN_MATCH
                   then Some (XD3_INVALID, ''invalid soft string-match config'') else None))
         else if c = XD3_SMATCH_DEFAULT
         then (if cfg_flags config AND XD3_COMPLEVEL_MASK \<noteq> 0 then level_smatcher (cfg_flags config)
               else smatcher_default, None)
         else if c = XD3_SMATCH_SLOW then (smatcher_slow, None)
         else if c = XD3_SMATCH_FASTEST then (smatcher_fastest, None)
         else if c = XD3_SMATCH_FASTER then (smatcher_faster, None)
         else if c = XD3_SMATCH_FAST then (smatcher_fast, None)
         else (old, Some (XD3_INTERNAL, ''invalid string match config type'')))"

text \<open>
  \<open>rinst\<close> is \<^verbatim>\<open>sizeof (xd3_rinst)\<close>, which the platform's pointers decide. A null \<open>config\<close>
  is the zero one with \<^verbatim>\<open>malloc\<close>. The static checks of integer sizes are compile-time facts.
\<close>

definition xd3_config_stream ::
    "nat \<Rightarrow> xd3_malloc \<Rightarrow> xd3_config option \<Rightarrow> (nat \<Rightarrow> bytes option) \<Rightarrow> nat \<Rightarrow>
     xd3_ret \<times> xd3_settings \<times> xd3_stream" where
  "xd3_config_stream rinst h cfg heap n =
     (let config = (case cfg of None \<Rightarrow> xd3_init_config h 0 | Some c \<Rightarrow> c);
          e = zero_settings\<lparr>
                winsize := (if cfg_winsize config \<noteq> 0 then cfg_winsize config else XD3_DEFAULT_WINSIZE),
                sprevsz := (if cfg_sprevsz config \<noteq> 0 then cfg_sprevsz config else XD3_DEFAULT_SPREVSZ),
                iopt_size := (if cfg_iopt_size config = 0 then of_nat (XD3_ALLOCSIZE div rinst)
                              else cfg_iopt_size config),
                iopt_unlimited := (cfg_iopt_size config = 0)\<rparr>;
          s = (zero_stream config heap n)\<lparr>getblk := cfg_getblk config, flags := cfg_flags config\<rparr>;
          stop = (\<lambda>r m e. (r, e, s\<lparr>msg := Some m\<rparr>))
      in if fst (xd3_check_pow2 (of_nat XD3_ALLOCSIZE)) \<noteq> XD3_OK
         then stop XD3_INTERNAL ''incorrect compilation: wrong integer sizes'' e
         else case config_secondary (flags s) of
           Some m \<Rightarrow> stop XD3_INTERNAL m e
         | None \<Rightarrow>
             (if flags s AND XD3_ALT_CODE_TABLE \<noteq> 0
              then stop XD3_INTERNAL ''alternate code table support was not compiled'' e
              else
                (let e = e\<lparr>code_table_desc := Some rfc3284_code_table_desc\<rparr>
                 in case config_sprevsz e of
                   None \<Rightarrow> stop XD3_INTERNAL ''sprevsz is required to be a power of two'' e
                 | Some e \<Rightarrow>
                     (case config_smatcher config (smatcher e) of
                        (m, Some (r, t)) \<Rightarrow> stop r t (e\<lparr>smatcher := m\<rparr>)
                      | (m, None) \<Rightarrow> (XD3_OK, e\<lparr>smatcher := m\<rparr>, s)))))"

section \<open>The end of a stream\<close>

text \<open>\<^verbatim>\<open>xd3_close_stream\<close> of a stream that never encoded (\<^verbatim>\<open>enc_state\<close> 0 or aborted).\<close>

definition decoder_close :: "xd3_stream \<Rightarrow> xd3_ret \<times> xd3_stream" where
  "decoder_close s =
     (if dec_state s = DEC_VCHEAD \<or> dec_state s = DEC_WININD \<or> dec_state s = DEC_ABORTED
      then (XD3_OK, s)
      else (XD3_INTERNAL, s\<lparr>msg := Some ''EOF in decode''\<rparr>))"

text \<open>
  \<^verbatim>\<open>xd3_free_stream\<close>: the output buffers are blocks of the store, the other memory has no
  identity in the model; the stream is zeroed.
\<close>

definition xd3_free_stream :: "xd3_stream \<Rightarrow> xd3_stream option" where
  "xd3_free_stream s =
     (case free_block (dec_buffer s) s of
        None \<Rightarrow> None
      | Some s1 \<Rightarrow>
          (case free_block (dec_lastwin s1) s1 of
             None \<Rightarrow> None
           | Some s2 \<Rightarrow>
               Some (zero_stream
                 \<lparr>cfg_winsize = 0, cfg_sprevsz = 0, cfg_iopt_size = 0, cfg_getblk = None,
                  cfg_alloc = mem_alloc s2, cfg_words = mem_words s2, cfg_table = mem_table s2,
                  cfg_flags = 0, smatch_cfg = 0, smatcher_soft = smatcher_zero\<rparr> (blocks s2) (mem_count s2))))"

section \<open>The checks the defaults pass\<close>

lemma default_checks:
  "fst (xd3_check_pow2 (of_nat XD3_ALLOCSIZE)) = XD3_OK" "fst (xd3_check_pow2 (ucast XD3_DEFAULT_SPREVSZ)) = XD3_OK"
  "config_secondary 0 = None"
proof -
  have "of_nat XD3_ALLOCSIZE = (push_bit 14 1 :: u64)" "ucast XD3_DEFAULT_SPREVSZ = (push_bit 18 1 :: u64)"
    by (simp_all add: XD3_ALLOCSIZE_def XD3_DEFAULT_SPREVSZ_def push_bit_eq_mult)
  then show "fst (xd3_check_pow2 (of_nat XD3_ALLOCSIZE)) = XD3_OK" "fst (xd3_check_pow2 (ucast XD3_DEFAULT_SPREVSZ)) = XD3_OK"
    by (simp_all only: check_pow2_power) simp_all
  show "config_secondary 0 = None" by code_simp
qed

end
