(* ===== verification/Encoder.thy ===== *)
theory Encoder
  imports Config Output
begin

text \<open>
  The encoder's back end (\<^verbatim>\<open>xdelta3.c\<close>): the instruction buffer that chooses among
  overlapping matches, and the routines that write an instruction to the data,
  instruction and address sections. \<^verbatim>\<open>enc_heads\<close>/\<^verbatim>\<open>enc_tails\<close> are the four chains of
  pages; \<^verbatim>\<open>next_in[0..avail_in)\<close> is the window being encoded, a list of bytes. A slot of
  the instruction buffer is in exactly one of \<^verbatim>\<open>iopt_used\<close>, \<^verbatim>\<open>iopt_free\<close> and \<^verbatim>\<open>iout\<close>, so
  the two circular lists are lists of slot contents.
\<close>

section \<open>State\<close>

definition ENC_INIT :: nat where "ENC_INIT = 0"
definition ENC_INPUT :: nat where "ENC_INPUT = 1"
definition ENC_SEARCH :: nat where "ENC_SEARCH = 2"
definition ENC_INSTR :: nat where "ENC_INSTR = 3"
definition ENC_FLUSH :: nat where "ENC_FLUSH = 4"
definition ENC_POSTOUT :: nat where "ENC_POSTOUT = 5"
definition ENC_POSTWIN :: nat where "ENC_POSTWIN = 6"

lemmas enc_states = ENC_INIT_def ENC_INPUT_def ENC_SEARCH_def ENC_INSTR_def ENC_FLUSH_def
  ENC_POSTOUT_def ENC_POSTWIN_def ENC_ABORTED_def

record xd3_sections =
  e_mem :: enc_mem
  hdr_sec :: "xd3_output list"
  data_sec :: "xd3_output list"
  inst_sec :: "xd3_output list"
  addr_sec :: "xd3_output list"

record xd3_stats =
  n_scpy :: u64
  n_tcpy :: u64
  n_add :: u64
  n_run :: u64
  l_scpy :: u64
  l_tcpy :: u64
  l_add :: u64
  l_run :: u64

record xd3_encoder = xd3_sections +
  e_acache :: xd3_addr_cache
  e_table :: "xd3_dinst list"
  e_next_in :: bytes
  e_flags :: u32
  e_state :: nat
  e_src :: "xd3_source option"
  e_window :: u64
  taroff :: u32
  unencoded_offset :: u32
  srcwin_decided :: bool
  srcwin_decided_early :: bool
  srcwin_cksum_pos :: u64
  match_minaddr :: u64
  match_maxaddr :: u64
  enc_appheader :: "bytes option"
  recode_adler32 :: u32
  iopt_used :: "xd3_rinst list"
  iopt_free :: "xd3_rinst list"
  iout :: "xd3_rinst option"
  e_iopt_size :: u32
  e_iopt_unlimited :: bool
  i_slots_used :: u32
  stats :: xd3_stats

type_synonym enc_result = "xd3_err + xd3_encoder"

abbreviation e_avail_in :: "xd3_encoder \<Rightarrow> u32" where
  "e_avail_in e \<equiv> of_nat (length (e_next_in e))"

definition count_stat :: "((u64 \<Rightarrow> u64) \<Rightarrow> xd3_stats \<Rightarrow> xd3_stats) \<Rightarrow> ((u64 \<Rightarrow> u64) \<Rightarrow> xd3_stats \<Rightarrow> xd3_stats) \<Rightarrow>
    u32 \<Rightarrow> xd3_encoder \<Rightarrow> xd3_encoder" where
  "count_stat n l sz e = e\<lparr>stats := l (\<lambda>x. x + ucast sz) (n (\<lambda>x. x + 1) (stats e))\<rparr>"

section \<open>The source window\<close>

definition xd3_encoder_used_source :: "xd3_encoder \<Rightarrow> bool" where
  "xd3_encoder_used_source e = (case e_src e of None \<Rightarrow> False | Some s \<Rightarrow> srclen s > 0)"

text \<open>Only called with a source set.\<close>

definition xd3_srcwin_setup :: "xd3_encoder \<Rightarrow> enc_result" where
  "xd3_srcwin_setup e =
     (let source = the (e_src e);
          e1 = e\<lparr>srcwin_decided := True\<rparr>;
          span = match_maxaddr e - match_minaddr e
      in if e_state e = ENC_INSTR \<and> match_maxaddr e = 0
         then Inr (e1\<lparr>taroff := srclen source\<rparr>)
         else if span > ucast (- 1 :: u32)
         then Inl (XD3_INTERNAL, ''source window length overflow (not 64bit)'')
         else
           (let len = (if e_state e = ENC_INSTR then ucast span
                       else max (ucast span) (e_avail_in e + drop_bit 2 (e_avail_in e)))
            in Inr (e1\<lparr>e_src := Some (source\<lparr>srcbase := match_minaddr e, srclen := len\<rparr>),
                       taroff := len\<rparr>)))"

section \<open>Writing opcodes\<close>

definition emit_byte_to ::
    "(xd3_encoder \<Rightarrow> xd3_output list) \<Rightarrow> (xd3_output list \<Rightarrow> xd3_encoder \<Rightarrow> xd3_encoder) \<Rightarrow> u8 \<Rightarrow>
     xd3_encoder \<Rightarrow> enc_result" where
  "emit_byte_to sec put b e =
     err_then (xd3_emit_byte (e_mem e) (sec e) b) (\<lambda>(ps, m). Inr (put ps (e\<lparr>e_mem := m\<rparr>)))"

definition emit_bytes_to ::
    "(xd3_encoder \<Rightarrow> xd3_output list) \<Rightarrow> (xd3_output list \<Rightarrow> xd3_encoder \<Rightarrow> xd3_encoder) \<Rightarrow> bytes \<Rightarrow>
     xd3_encoder \<Rightarrow> enc_result" where
  "emit_bytes_to sec put bs e =
     err_then (xd3_emit_bytes (e_mem e) (sec e) bs) (\<lambda>(ps, m). Inr (put ps (e\<lparr>e_mem := m\<rparr>)))"

definition emit_size_to ::
    "(xd3_encoder \<Rightarrow> xd3_output list) \<Rightarrow> (xd3_output list \<Rightarrow> xd3_encoder \<Rightarrow> xd3_encoder) \<Rightarrow> u32 \<Rightarrow>
     xd3_encoder \<Rightarrow> enc_result" where
  "emit_size_to sec put v e =
     err_then (xd3_emit_uint32_t (e_mem e) (sec e) v) (\<lambda>(ps, m). Inr (put ps (e\<lparr>e_mem := m\<rparr>)))"

definition emit_offset_to ::
    "(xd3_encoder \<Rightarrow> xd3_output list) \<Rightarrow> (xd3_output list \<Rightarrow> xd3_encoder \<Rightarrow> xd3_encoder) \<Rightarrow> u64 \<Rightarrow>
     xd3_encoder \<Rightarrow> enc_result" where
  "emit_offset_to sec put v e =
     err_then (xd3_emit_uint64_t (e_mem e) (sec e) v) (\<lambda>(ps, m). Inr (put ps (e\<lparr>e_mem := m\<rparr>)))"

abbreviation INST_TAIL :: "xd3_output list \<Rightarrow> xd3_encoder \<Rightarrow> xd3_encoder" where
  "INST_TAIL ps e \<equiv> e\<lparr>inst_sec := ps\<rparr>"

abbreviation DATA_TAIL :: "xd3_output list \<Rightarrow> xd3_encoder \<Rightarrow> xd3_encoder" where
  "DATA_TAIL ps e \<equiv> e\<lparr>data_sec := ps\<rparr>"

abbreviation HDR_TAIL :: "xd3_output list \<Rightarrow> xd3_encoder \<Rightarrow> xd3_encoder" where
  "HDR_TAIL ps e \<equiv> e\<lparr>hdr_sec := ps\<rparr>"

definition xd3_emit_single :: "xd3_rinst \<Rightarrow> u8 \<Rightarrow> xd3_encoder \<Rightarrow> enc_result" where
  "xd3_emit_single single code e =
     err_then (emit_byte_to inst_sec INST_TAIL code e) (\<lambda>e1.
       if size1 (e_table e ! unat code) = 0 then emit_size_to inst_sec INST_TAIL (r_size single) e1 else Inr e1)"

definition xd3_emit_double :: "xd3_rinst \<Rightarrow> xd3_rinst \<Rightarrow> u8 \<Rightarrow> xd3_encoder \<Rightarrow> enc_result" where
  "xd3_emit_double first second code e = emit_byte_to inst_sec INST_TAIL code e"

section \<open>Finishing an instruction\<close>

text \<open>A slot goes back to the free list; an \<^verbatim>\<open>ADD\<close> is on the stack of its caller and does not.\<close>

definition xd3_iopt_free_nonadd :: "xd3_rinst \<Rightarrow> xd3_encoder \<Rightarrow> xd3_encoder" where
  "xd3_iopt_free_nonadd i e =
     (if unat (r_type i) \<noteq> XD3_ADD then e\<lparr>iopt_free := iopt_free e @ [i]\<rparr> else e)"

text \<open>The address a copy is encoded with: where in the source window or in the target.\<close>

definition copy_address :: "xd3_rinst \<Rightarrow> xd3_encoder \<Rightarrow> xd3_err + (u32 \<times> xd3_encoder)" where
  "copy_address inst e =
     (case e_src e of
        None \<Rightarrow> Inr (ucast (r_addr inst), count_stat n_tcpy_update l_tcpy_update (r_size inst) e)
      | Some _ \<Rightarrow>
          err_then
            (if \<not> srcwin_decided e then xd3_srcwin_setup e
             else Inr (e\<lparr>srcwin_decided_early :=
               (\<not> eof_known (the (e_src e)) \<or> srcwin_cksum_pos e < xd3_source_eof (the (e_src e)))\<rparr>)) (\<lambda>e.
            if r_xtra inst \<noteq> 0
            then Inr (ucast (r_addr inst - srcbase (the (e_src e))),
                      count_stat n_scpy_update l_scpy_update (r_size inst) e)
            else Inr (taroff e + ucast (r_addr inst),
                      count_stat n_tcpy_update l_tcpy_update (r_size inst) e)))"

text \<open>The address or data of an instruction; a copy's type becomes its address mode.\<close>

definition encode_operands :: "xd3_rinst \<Rightarrow> xd3_encoder \<Rightarrow> xd3_err + (xd3_rinst \<times> xd3_encoder)" where
  "encode_operands inst e =
     (let t = unat (r_type inst)
      in if t = XD3_CPY
         then
           err_then (copy_address inst e) (\<lambda>(addr, e).
           err_then (xd3_encode_address (e_mem e) (addr_sec e) (e_acache e) addr
                       (r_pos inst + taroff e) (r_type inst)) (\<lambda>(ps, m, ac, ty).
             Inr (inst\<lparr>r_type := ty\<rparr>, e\<lparr>addr_sec := ps, e_mem := m, e_acache := ac\<rparr>)))
         else if t = XD3_RUN
         then
           err_then (emit_byte_to data_sec DATA_TAIL (r_xtra inst) e) (\<lambda>e.
             Inr (inst, count_stat n_run_update l_run_update (r_size inst) e))
         else if t = XD3_ADD
         then
           err_then (emit_bytes_to data_sec DATA_TAIL
               (take (unat (r_size inst)) (drop (unat (r_pos inst)) (e_next_in e))) e) (\<lambda>e.
             Inr (inst, count_stat n_add_update l_add_update (r_size inst) e))
         else Inr (inst, e))"

text \<open>The opcode of the instruction that waits in \<^verbatim>\<open>iout\<close>, alone or with this one.\<close>

definition encode_opcode :: "xd3_rinst \<Rightarrow> xd3_encoder \<Rightarrow> enc_result" where
  "encode_opcode inst e =
     (case xd3_choose_instruction (iout e) (inst\<lparr>r_code2 := 0\<rparr>) of
        (None, inst') \<Rightarrow> Inr (e\<lparr>iout := Some inst'\<rparr>)
      | (Some p, inst') \<Rightarrow>
          (if r_code2 p \<noteq> 0
           then
             err_then (xd3_emit_double p inst' (r_code2 p) (e\<lparr>iout := Some p\<rparr>)) (\<lambda>e.
               Inr ((xd3_iopt_free_nonadd inst' (xd3_iopt_free_nonadd p e))\<lparr>iout := None\<rparr>))
           else
             err_then (xd3_emit_single p (r_code1 p) (e\<lparr>iout := Some p\<rparr>)) (\<lambda>e.
               Inr ((xd3_iopt_free_nonadd p e)\<lparr>iout := Some inst'\<rparr>))))"

definition xd3_iopt_finish_encoding :: "xd3_rinst \<Rightarrow> xd3_encoder \<Rightarrow> enc_result" where
  "xd3_iopt_finish_encoding inst e =
     err_then (encode_operands inst e) (\<lambda>(inst, e).
       encode_opcode inst (e\<lparr>unencoded_offset := unencoded_offset e + r_size inst\<rparr>))"

text \<open>
  The add for a gap lives on the stack; its fields that are not set are not read, and are 0
  here.
\<close>

definition xd3_iopt_add :: "u32 \<Rightarrow> xd3_encoder \<Rightarrow> enc_result" where
  "xd3_iopt_add pos e =
     (let off = unencoded_offset e
      in if pos > off
         then xd3_iopt_finish_encoding
                \<lparr>r_type = of_nat XD3_ADD, r_xtra = 0, r_code1 = 0, r_code2 = 0,
                 r_pos = off, r_size = pos - off, r_addr = 0\<rparr> e
         else Inr e)"

definition xd3_iopt_add_encoding :: "xd3_rinst \<Rightarrow> xd3_encoder \<Rightarrow> enc_result" where
  "xd3_iopt_add_encoding inst e =
     err_then (xd3_iopt_add (r_pos inst) e) (xd3_iopt_finish_encoding inst)"

definition xd3_iopt_add_finalize :: "xd3_encoder \<Rightarrow> enc_result" where
  "xd3_iopt_add_finalize e =
     err_then (xd3_iopt_add (e_avail_in e) e) (\<lambda>e.
       case iout e of
         None \<Rightarrow> Inr e
       | Some p \<Rightarrow>
           err_then (xd3_emit_single p (r_code1 p) e) (\<lambda>e.
             Inr ((xd3_iopt_free_nonadd p e)\<lparr>iout := None\<rparr>)))"

section \<open>The instruction buffer\<close>

definition MAX_MATCH_SPLIT :: u32 where "MAX_MATCH_SPLIT = 18"

definition inst_end :: "xd3_rinst \<Rightarrow> u32" where
  "inst_end r = r_pos r + r_size r"

text \<open>Shorten one of two overlapping instructions, or both, so that they meet.\<close>

definition split_pair :: "xd3_rinst \<Rightarrow> xd3_rinst \<Rightarrow> xd3_rinst \<times> xd3_rinst" where
  "split_pair r1 r2 =
     (let gap = inst_end r2 - r_pos r1;
          average = gap div 2;
          newsize = min MAX_MATCH_SPLIT (gap - average);
          over = inst_end r1 - r_pos r2;
          r1' = (if newsize > r_size r1 then r1
                 else if newsize > r_size r2 then r1\<lparr>r_size := r_size r1 - over\<rparr>
                 else
                   (let adjust1 = r_size r1 - newsize;
                        adjust1' = (if r_pos r2 > inst_end r1 - adjust1
                                    then adjust1 - (r_pos r2 - (inst_end r1 - adjust1)) else adjust1)
                    in r1\<lparr>r_size := r_size r1 - adjust1'\<rparr>));
          cut = (if newsize > r_size r1 then over
                 else if newsize > r_size r2 then 0
                 else r_pos r1' + r_size r1' - r_pos r2)
      in (r1', r2\<lparr>r_size := r_size r2 - cut, r_pos := r_pos r2 + cut, r_addr := r_addr r2 + ucast cut\<rparr>))"

text \<open>
  The loop of \<^verbatim>\<open>xd3_iopt_flush_instructions\<close> from \<^verbatim>\<open>r1\<close> on: the instructions kept, and the
  free list with the slots of the others.
\<close>

function compact_iopt ::
    "bool \<Rightarrow> xd3_rinst list \<Rightarrow> xd3_rinst list \<Rightarrow> xd3_rinst list \<times> xd3_rinst list" where
  "compact_iopt force [] fr = ([], fr)"
| "compact_iopt force [r1] fr = ([r1], fr)"
| "compact_iopt force (r1 # r2 # rs) fr =
     (if inst_end r1 \<le> r_pos r2
      then (case compact_iopt force (r2 # rs) fr of (ks, fr') \<Rightarrow> (r1 # ks, fr'))
      else if rs \<noteq> [] \<and> r_pos (hd rs) \<le> inst_end r1 + 1
      then compact_iopt force (r1 # rs) (fr @ [r2])
      else if rs = [] \<and> \<not> force then ([r1, r2], fr)
      else
        (let r2off = r_pos r2 - r_pos r1;
             r2moff = inst_end r2 - inst_end r1;
             gap = inst_end r2 - r_pos r1
         in if gap < 2 * of_nat MIN_MATCH \<or> r2moff \<le> 2 \<or> r2off \<le> 2
            then
              (if r_size r1 < r_size r2
               then compact_iopt force (r2 # rs) (fr @ [r1])
               else (case compact_iopt force rs (fr @ [r2]) of (ks, fr') \<Rightarrow> (r1 # ks, fr')))
            else
              (case split_pair r1 r2 of (r1', r2') \<Rightarrow>
                 (case compact_iopt force (r2' # rs) fr of (ks, fr') \<Rightarrow> (r1' # ks, fr')))))"
  by pat_completeness auto
termination
  by (relation "measure (\<lambda>(force, rs, fr). length rs)") auto

text \<open>The instructions are encoded in order: all of them when forced, about half otherwise.\<close>

fun flush_loop :: "bool \<Rightarrow> u32 \<Rightarrow> xd3_rinst list \<Rightarrow> xd3_encoder \<Rightarrow> enc_result" where
  "flush_loop force flushed [] e = Inr (e\<lparr>iopt_used := []\<rparr>)"
| "flush_loop force flushed (renc # rs) e =
     err_then (xd3_iopt_add_encoding renc (e\<lparr>iopt_used := rs\<rparr>)) (\<lambda>e.
       if \<not> force \<and> (flushed + 1 > e_iopt_size e div 2 \<or> length rs < 3) then Inr e
       else flush_loop force (if force then flushed else flushed + 1) rs e)"

definition xd3_iopt_flush_instructions :: "bool \<Rightarrow> xd3_encoder \<Rightarrow> enc_result" where
  "xd3_iopt_flush_instructions force e =
     (case compact_iopt force (iopt_used e) (iopt_free e) of
        (ks, fr) \<Rightarrow> flush_loop force 0 ks (e\<lparr>iopt_used := ks, iopt_free := fr\<rparr>))"

text \<open>New slots hold whatever the allocator left in them; every field is set before it is read.\<close>

definition xd3_alloc_iopt :: "u32 \<Rightarrow> xd3_encoder \<Rightarrow> xd3_ret + xd3_encoder" where
  "xd3_alloc_iopt elts e =
     (if \<not> enc_alloc (e_mem e) ''xd3_iopt_buflist'' 1 \<or> \<not> enc_alloc (e_mem e) ''xd3_rinst'' (unat elts)
      then Inl ENOMEM
      else Inr (e\<lparr>iopt_free := iopt_free e @ replicate (unat elts)
        \<lparr>r_type = 0, r_xtra = 0, r_code1 = 0, r_code2 = 0, r_pos = 0, r_size = 0, r_addr = 0\<rparr>\<rparr>))"

text \<open>
  \<open>rinst\<close> is \<^verbatim>\<open>sizeof (xd3_rinst)\<close>. The slot goes to the back of the used list. The code only asserts,
  in a debug build, that a partial flush has freed one; otherwise it takes the head of the empty
  list for a slot, and what follows is undefined. That is the value \<open>pop_of_empty_list\<close>, which no
  function returns otherwise.
\<close>

definition pop_of_empty_list :: xd3_err where
  "pop_of_empty_list = (XD3_OK, ''undefined: pop of an empty list'')"

definition xd3_iopt_get_slot :: "nat \<Rightarrow> xd3_encoder \<Rightarrow> xd3_err + (xd3_rinst \<times> xd3_encoder)" where
  "xd3_iopt_get_slot rinst e =
     err_then
       (if iopt_free e = []
        then
          (if e_iopt_unlimited e
           then
             (let elts = of_nat (XD3_ALLOCSIZE div rinst)
              in case xd3_alloc_iopt elts e of
                   Inl r \<Rightarrow> Inl (r, ''out of memory'')
                 | Inr e \<Rightarrow> Inr (e\<lparr>e_iopt_size := e_iopt_size e + elts\<rparr>))
           else xd3_iopt_flush_instructions False e)
        else Inr e) (\<lambda>e.
       if iopt_free e = [] then Inl pop_of_empty_list
       else Inr (last (iopt_free e),
                 e\<lparr>iopt_free := butlast (iopt_free e), i_slots_used := i_slots_used e + 1\<rparr>))"

text \<open>From the back of the used list: what starts at or after \<open>pos\<close> is erased.\<close>

fun erase_loop :: "u32 \<Rightarrow> xd3_rinst list \<Rightarrow> xd3_encoder \<Rightarrow> xd3_encoder" where
  "erase_loop pos [] e = e\<lparr>iopt_used := []\<rparr>"
| "erase_loop pos (r # rs) e =
     (if r_pos r < pos then e\<lparr>iopt_used := rev (r # rs)\<rparr>
      else erase_loop pos rs (e\<lparr>iopt_free := iopt_free e @ [r], i_slots_used := i_slots_used e - 1\<rparr>))"

definition xd3_iopt_erase :: "u32 \<Rightarrow> u32 \<Rightarrow> xd3_encoder \<Rightarrow> xd3_encoder" where
  "xd3_iopt_erase pos sz e = erase_loop pos (rev (iopt_used e)) e"

definition xd3_iopt_last_matched :: "xd3_encoder \<Rightarrow> u32" where
  "xd3_iopt_last_matched e = (if iopt_used e = [] then 0 else inst_end (last (iopt_used e)))"

definition xd3_emit_run :: "nat \<Rightarrow> u32 \<Rightarrow> u32 \<Rightarrow> u8 \<Rightarrow> xd3_encoder \<Rightarrow> enc_result" where
  "xd3_emit_run rinst pos sz run_c e =
     err_then (xd3_iopt_get_slot rinst e) (\<lambda>(ri, e).
       Inr (e\<lparr>iopt_used := iopt_used e @
         [ri\<lparr>r_type := of_nat XD3_RUN, r_xtra := run_c, r_pos := pos, r_size := sz\<rparr>]\<rparr>))"

definition xd3_found_match :: "nat \<Rightarrow> u32 \<Rightarrow> u32 \<Rightarrow> u64 \<Rightarrow> bool \<Rightarrow> xd3_encoder \<Rightarrow> enc_result" where
  "xd3_found_match rinst pos sz addr is_source e =
     err_then (xd3_iopt_get_slot rinst e) (\<lambda>(ri, e).
       Inr (e\<lparr>iopt_used := iopt_used e @
         [ri\<lparr>r_type := of_nat XD3_CPY, r_xtra := (if is_source then 1 else 0), r_pos := pos,
             r_size := sz, r_addr := addr\<rparr>]\<rparr>))"

section \<open>The header\<close>

text \<open>The file header, before the first window. The code table is always the default one.\<close>

definition emit_file_header :: "xd3_encoder \<Rightarrow> enc_result" where
  "emit_file_header e =
     (let use_appheader = (enc_appheader e \<noteq> None);
          hdr_ind = (if use_appheader then VCD_APPHEADER else 0)
      in err_then (emit_byte_to hdr_sec HDR_TAIL 0xd6 e) (\<lambda>e.
         err_then (emit_byte_to hdr_sec HDR_TAIL 0xc3 e) (\<lambda>e.
         err_then (emit_byte_to hdr_sec HDR_TAIL 0xc4 e) (\<lambda>e.
         err_then (emit_byte_to hdr_sec HDR_TAIL 0 e) (\<lambda>e.
         err_then (emit_byte_to hdr_sec HDR_TAIL (ucast hdr_ind) e) (\<lambda>e.
           case enc_appheader e of
             None \<Rightarrow> Inr e
           | Some app \<Rightarrow>
               err_then (emit_size_to hdr_sec HDR_TAIL (of_nat (length app)) e)
                 (emit_bytes_to hdr_sec HDR_TAIL app)))))))"

text \<open>\<^verbatim>\<open>unsigned long\<close> is the type argument of the checksum, as in the decoder.\<close>

definition emit_adler32 :: "'l::len itself \<Rightarrow> xd3_encoder \<Rightarrow> enc_result" where
  "emit_adler32 l e =
     (let a32 = (if e_flags e AND XD3_ADLER32 \<noteq> 0 then window_adler32 l (e_next_in e) else recode_adler32 e)
      in emit_bytes_to hdr_sec HDR_TAIL
           [ucast (drop_bit 24 a32), ucast (drop_bit 16 a32), ucast (drop_bit 8 a32), ucast (a32 AND 0xff)] e)"

definition emit_enclen :: "u32 \<Rightarrow> u32 \<Rightarrow> u32 \<Rightarrow> u32 \<Rightarrow> bool \<Rightarrow> u32" where
  "emit_enclen tgt_len data_len inst_len addr_len use_adler32 =
     1 + (xd3_sizeof_uint32_t tgt_len + xd3_sizeof_uint32_t data_len +
          xd3_sizeof_uint32_t inst_len + xd3_sizeof_uint32_t addr_len) +
     data_len + inst_len + addr_len + (if use_adler32 then 4 else 0)"

definition emit_window_header :: "'l::len itself \<Rightarrow> xd3_encoder \<Rightarrow> enc_result" where
  "emit_window_header l e =
     (let use_adler32 = (e_flags e AND (XD3_ADLER32 OR XD3_ADLER32_RECODE) \<noteq> 0);
          vcd_source = xd3_encoder_used_source e;
          win_ind = (if vcd_source then VCD_SOURCE else 0) OR (if use_adler32 then VCD_ADLER32 else 0);
          tgt_len = e_avail_in e;
          data_len = xd3_sizeof_output (data_sec e);
          inst_len = xd3_sizeof_output (inst_sec e);
          addr_len = xd3_sizeof_output (addr_sec e);
          enc_len = emit_enclen tgt_len data_len inst_len addr_len use_adler32
      in err_then (emit_byte_to hdr_sec HDR_TAIL (ucast win_ind) e) (\<lambda>e.
         err_then
           (if vcd_source
            then err_then (emit_size_to hdr_sec HDR_TAIL (srclen (the (e_src e))) e)
                   (emit_offset_to hdr_sec HDR_TAIL (srcbase (the (e_src e))))
            else Inr e) (\<lambda>e.
         err_then (emit_size_to hdr_sec HDR_TAIL enc_len e) (\<lambda>e.
         err_then (emit_size_to hdr_sec HDR_TAIL tgt_len e) (\<lambda>e.
         err_then (emit_byte_to hdr_sec HDR_TAIL 0 e) (\<lambda>e.
         err_then (emit_size_to hdr_sec HDR_TAIL data_len e) (\<lambda>e.
         err_then (emit_size_to hdr_sec HDR_TAIL inst_len e) (\<lambda>e.
         err_then (emit_size_to hdr_sec HDR_TAIL addr_len e) (\<lambda>e.
           if use_adler32 then emit_adler32 l e else Inr e)))))))))"

definition xd3_emit_hdr :: "'l::len itself \<Rightarrow> xd3_encoder \<Rightarrow> enc_result" where
  "xd3_emit_hdr l e =
     err_then (if e_window e = 0 then emit_file_header e else Inr e) (emit_window_header l)"

text \<open>What the client reads: the four chains, spliced in this order.\<close>

definition window_output :: "xd3_encoder \<Rightarrow> bytes" where
  "window_output e =
     chain_bytes (hdr_sec e) @ chain_bytes (data_sec e) @ chain_bytes (inst_sec e) @ chain_bytes (addr_sec e)"

definition enc_INSTR :: "'l::len itself \<Rightarrow> xd3_encoder \<Rightarrow> enc_result" where
  "enc_INSTR l e =
     err_then (err_then (xd3_iopt_flush_instructions True e) xd3_iopt_add_finalize) (\<lambda>e.
       xd3_emit_hdr l (e\<lparr>e_state := ENC_FLUSH\<rparr>))"

end
