(* ===== verification/Vcdiff.thy ===== *)
theory Vcdiff
  imports AddrCache CodeTable
begin

text \<open>
  What a VCDIFF window means (RFC 3284, sections 3 to 5), apart from the decoder's states and
  buffers: the sections are parsed into a list of instructions, and the instructions are executed on
  the string \<open>U\<close> that starts as the source segment and grows by the target window. All
  positions and sizes are natural numbers, so nothing wraps. A size and an address are read
  with \<^verbatim>\<open>xd3_read_uint32_t\<close> and \<^verbatim>\<open>xd3_decode_address\<close>; what these read is said by
  \<open>read_integer_exact\<close>, \<open>emit_read_roundtrip\<close>, \<open>address_roundtrip\<close> and \<open>address_run_roundtrip\<close>.
\<close>

section \<open>Instructions\<close>

datatype vcd_inst =
    Add nat
  | Run nat
  | Copy nat nat

text \<open>The bytes a copy of \<open>n\<close> from address \<open>a\<close> appends, which it may itself have appended.\<close>

fun copied :: "nat \<Rightarrow> nat \<Rightarrow> bytes \<Rightarrow> bytes" where
  "copied 0 a U = []"
| "copied (Suc n) a U = U ! a # copied n (Suc a) (U @ [U ! a])"

lemma length_copied [simp]: "length (copied n a U) = n"
  by (induction n a U rule: copied.induct) simp_all

lemma copied_within: "a + n \<le> length U \<Longrightarrow> copied n a U = take n (drop a U)"
proof (induction n a U rule: copied.induct)
  case (2 n a U)
  then have "copied n (Suc a) (U @ [U ! a]) = take n (drop (Suc a) (U @ [U ! a]))" by simp
  also have "\<dots> = take n (drop (Suc a) U)" using "2.prems" by simp
  finally show ?case
    using "2.prems" by (simp add: Cons_nth_drop_Suc [symmetric] del: Cons_nth_drop_Suc)
qed simp

lemma copied_append: "length S \<le> a \<Longrightarrow> copied n a (S @ U) = copied n (a - length S) U"
proof (induction n arbitrary: a U)
  case (Suc n)
  have "copied n (Suc a) (S @ (U @ [U ! (a - length S)])) =
      copied n (Suc a - length S) (U @ [U ! (a - length S)])"
    using Suc.prems by (intro Suc.IH) simp
  then show ?case using Suc.prems by (simp add: nth_append Suc_diff_le)
qed simp

text \<open>One instruction on the string and the data section.\<close>

fun vcd_exec1 :: "vcd_inst \<Rightarrow> bytes \<times> bytes \<Rightarrow> (bytes \<times> bytes) option" where
  "vcd_exec1 (Add n) (U, data) =
     (if n \<le> length data then Some (U @ take n data, drop n data) else None)"
| "vcd_exec1 (Run n) (U, data) =
     (case data of [] \<Rightarrow> None | b # rest \<Rightarrow> Some (U @ replicate n b, rest))"
| "vcd_exec1 (Copy a n) (U, data) =
     (if a < length U then Some (U @ copied n a U, data) else None)"

fun vcd_exec :: "vcd_inst list \<Rightarrow> bytes \<times> bytes \<Rightarrow> (bytes \<times> bytes) option" where
  "vcd_exec [] x = Some x"
| "vcd_exec (i # is) x = (case vcd_exec1 i x of None \<Rightarrow> None | Some y \<Rightarrow> vcd_exec is y)"

lemma vcd_exec_append:
  "vcd_exec (is @ js) x = (case vcd_exec is x of None \<Rightarrow> None | Some y \<Rightarrow> vcd_exec js y)"
  by (induction "is" x rule: vcd_exec.induct) (auto split: option.splits)

fun inst_size :: "vcd_inst \<Rightarrow> nat" where
  "inst_size (Add n) = n"
| "inst_size (Run n) = n"
| "inst_size (Copy a n) = n"

lemma vcd_exec1_length:
  "vcd_exec1 i (U, d) = Some (U', d') \<Longrightarrow> length U' = length U + inst_size i"
  by (cases i) (auto split: if_splits list.splits)

section \<open>Parsing\<close>

text \<open>What the parser carries: the position, the address cache and the two sections it reads.\<close>

record vcd_parse =
  p_pos :: nat
  p_cache :: xd3_addr_cache
  p_inst :: bytes
  p_addr :: bytes

text \<open>
  A half of an opcode: \<open>t\<close> and \<open>sz\<close> are its type and size in the table. A copy must start
  before the current position and may not run across the end of the source segment (of
  length \<open>seg\<close>); nothing may go past \<open>maxpos\<close>.
\<close>

definition parse_size :: "u8 \<Rightarrow> bytes \<Rightarrow> (nat \<times> bytes) option" where
  "parse_size sz inst =
     (if sz = 0
      then (case xd3_read_uint32_t inst of Inl _ \<Rightarrow> None | Inr (v, rest) \<Rightarrow> Some (unat v, rest))
      else Some (unat sz, inst))"

definition parse_half ::
    "nat \<Rightarrow> nat \<Rightarrow> u8 \<Rightarrow> u8 \<Rightarrow> vcd_parse \<Rightarrow> (vcd_inst list \<times> vcd_parse) option" where
  "parse_half seg maxpos t sz p =
     (if unat t = XD3_NOOP then Some ([], p)
      else
        (case parse_size sz (p_inst p) of
           None \<Rightarrow> None
         | Some (n, inst) \<Rightarrow>
             (if p_pos p + n > maxpos then None
              else if unat t = XD3_ADD
              then Some ([Add n], p\<lparr>p_inst := inst, p_pos := p_pos p + n\<rparr>)
              else if unat t = XD3_RUN
              then Some ([Run n], p\<lparr>p_inst := inst, p_pos := p_pos p + n\<rparr>)
              else
                (case xd3_decode_address (p_cache p) (of_nat (p_pos p)) (unat t - XD3_CPY) (p_addr p) of
                   Some (Inr (a, ac, addr)) \<Rightarrow>
                     (if unat a < p_pos p \<and> (unat a < seg \<longrightarrow> unat a + n \<le> seg)
                      then Some ([Copy (unat a) n],
                        p\<lparr>p_inst := inst, p_addr := addr, p_cache := ac, p_pos := p_pos p + n\<rparr>)
                      else None)
                 | _ \<Rightarrow> None))))"

inductive vcd_parses ::
    "xd3_dinst list \<Rightarrow> nat \<Rightarrow> nat \<Rightarrow> vcd_parse \<Rightarrow> vcd_inst list \<Rightarrow> vcd_parse \<Rightarrow> bool"
  for table seg maxpos where
  parses_end: "p_inst p = [] \<Longrightarrow> vcd_parses table seg maxpos p [] p"
| parses_op: "p_inst p = b # rest \<Longrightarrow>
    parse_half seg maxpos (type1 (table ! unat b)) (size1 (table ! unat b)) (p\<lparr>p_inst := rest\<rparr>) = Some (is1, p1) \<Longrightarrow>
    parse_half seg maxpos (type2 (table ! unat b)) (size2 (table ! unat b)) p1 = Some (is2, p2) \<Longrightarrow>
    vcd_parses table seg maxpos p2 is p' \<Longrightarrow>
    vcd_parses table seg maxpos p (is1 @ is2 @ is) p'"

inductive_cases vcd_parsesE: "vcd_parses table seg maxpos p is p'"

text \<open>
  The sections \<open>data\<close>, \<open>inst\<close> and \<open>addr\<close> encode the target window \<open>T\<close> over the source
  segment \<open>S\<close>: they parse and execute to it, with nothing left over.
\<close>

definition vcd_window ::
    "xd3_dinst list \<Rightarrow> xd3_addr_cache \<Rightarrow> bytes \<Rightarrow> bytes \<Rightarrow> bytes \<Rightarrow> bytes \<Rightarrow> bytes \<Rightarrow> bool" where
  "vcd_window table ac S data inst addr T \<longleftrightarrow>
     (\<exists>is p'. vcd_parses table (length S) (length S + length T)
        \<lparr>p_pos = length S, p_cache = ac, p_inst = inst, p_addr = addr\<rparr> is p' \<and>
        p_addr p' = [] \<and> vcd_exec is (S, data) = Some (S @ T, []))"

section \<open>The meaning is unique\<close>

lemma vcd_parses_unique:
  "vcd_parses table seg maxpos p is p' \<Longrightarrow> vcd_parses table seg maxpos p js q' \<Longrightarrow> is = js \<and> p' = q'"
proof (induction arbitrary: js q' rule: vcd_parses.induct)
  case (parses_end p)
  from parses_end.prems show ?case
    by (cases rule: vcd_parses.cases) (simp_all add: parses_end.hyps)
next
  case (parses_op p b rest is1 p1 is2 p2 "is" p')
  note hyps = parses_op.hyps and IH = parses_op.IH
  from parses_op.prems show ?case
  proof (cases rule: vcd_parses.cases)
    case parses_end
    with hyps(1) show ?thesis by simp
  next
    case (parses_op b' rest' js1 q1 js2 q2 js')
    have "b' = b" "rest' = rest" using parses_op(2) hyps(1) by simp_all
    then have "js1 = is1" "q1 = p1" using parses_op(3) hyps(2) by simp_all
    then have "js2 = is2" "q2 = p2" using parses_op(4) hyps(3) \<open>b' = b\<close> by simp_all
    with IH parses_op(1,5) \<open>js1 = is1\<close> show ?thesis by blast
  qed
qed

lemma vcd_window_unique:
  assumes "vcd_window table ac S data inst addr T" "vcd_window table ac S data inst addr T'"
    and "length T = length T'"
  shows "T = T'"
proof -
  obtain "is" p' js q' where
    1: "vcd_parses table (length S) (length S + length T)
        \<lparr>p_pos = length S, p_cache = ac, p_inst = inst, p_addr = addr\<rparr> is p'"
      "vcd_exec is (S, data) = Some (S @ T, [])" and
    2: "vcd_parses table (length S) (length S + length T)
        \<lparr>p_pos = length S, p_cache = ac, p_inst = inst, p_addr = addr\<rparr> js q'"
      "vcd_exec js (S, data) = Some (S @ T', [])"
    using assms unfolding vcd_window_def by auto
  have "is = js" using vcd_parses_unique [OF 1(1) 2(1)] by blast
  then show ?thesis using 1(2) 2(2) by simp
qed

end
