(* ===== verification/Output_Buffer.thy ===== *)
theory Output_Buffer
  imports Window Vcdiff
begin

text \<open>
  The decoder's output buffer as a growing string. \<open>target s\<close> is what the window holds so
  far, \<open>put bs s\<close> the stream after \<open>bs\<close> has been appended; the writes and copies of
  Window are shown to be \<open>put\<close>s.
\<close>

definition out_mem :: "xd3_stream \<Rightarrow> bytes" where
  "out_mem s = the (blocks s (the (next_out s)))"

definition target :: "xd3_stream \<Rightarrow> bytes" where
  "target s = take (unat (avail_out s)) (out_mem s)"

text \<open>There is a live buffer with room for \<open>n\<close> more bytes.\<close>

definition has_room :: "xd3_stream \<Rightarrow> nat \<Rightarrow> bool" where
  "has_room s n \<longleftrightarrow> (\<exists>b mem. next_out s = Some b \<and> blocks s b = Some mem \<and>
     unat (avail_out s) + n \<le> length mem \<and> unat (avail_out s) + n < 2 ^ 32)"

definition put :: "bytes \<Rightarrow> xd3_stream \<Rightarrow> xd3_stream" where
  "put bs s =
     s\<lparr>blocks := (blocks s)(the (next_out s) \<mapsto>
         take (unat (avail_out s)) (out_mem s) @ bs @ drop (unat (avail_out s) + length bs) (out_mem s)),
       avail_out := avail_out s + of_nat (length bs)\<rparr>"

lemma has_roomE:
  assumes "has_room s n"
  obtains b mem where "next_out s = Some b" "blocks s b = Some mem" "out_mem s = mem"
    "unat (avail_out s) + n \<le> length mem" "unat (avail_out s) + n < 2 ^ 32"
  using assms by (auto simp: has_room_def out_mem_def)

lemma has_room_mono: "has_room s n \<Longrightarrow> m \<le> n \<Longrightarrow> has_room s m"
  by (auto simp: has_room_def)

lemma unat_avail_put:
  assumes "has_room s (length bs)"
  shows "unat (avail_out (put bs s)) = unat (avail_out s) + length bs"
proof -
  have small: "unat (avail_out s) + length bs < 2 ^ 32" using assms by (auto simp: has_room_def)
  then have u: "unat (of_nat (length bs) :: u32) = length bs"
    by (simp add: unsigned_of_nat take_bit_nat_eq_self)
  show ?thesis using small u by (simp add: put_def unat_add_u32)
qed

lemma put_room: "has_room s (length bs + n) \<Longrightarrow> has_room (put bs s) n"
proof -
  assume r: "has_room s (length bs + n)"
  then have av: "unat (avail_out (put bs s)) = unat (avail_out s) + length bs"
    by (intro unat_avail_put) (auto intro: has_room_mono)
  from r obtain b mem where "next_out s = Some b" "blocks s b = Some mem" "out_mem s = mem"
    "unat (avail_out s) + (length bs + n) \<le> length mem" "unat (avail_out s) + (length bs + n) < 2 ^ 32"
    by (rule has_roomE)
  then show ?thesis
    unfolding has_room_def av by (auto simp: put_def)
qed

lemma target_put:
  assumes "has_room s (length bs)"
  shows "target (put bs s) = target s @ bs"
proof -
  from assms obtain b mem where "next_out s = Some b" "out_mem s = mem"
    "unat (avail_out s) + length bs \<le> length mem" by (rule has_roomE)
  then show ?thesis
    unfolding target_def unat_avail_put [OF assms]
    by (cases bs) (simp_all add: put_def out_mem_def min_def)
qed

lemma length_target: "has_room s n \<Longrightarrow> length (target s) = unat (avail_out s)"
  by (auto simp: has_room_def target_def out_mem_def)

lemma put_put:
  assumes "has_room s (length as + length bs)"
  shows "put bs (put as s) = put (as @ bs) s"
proof -
  from assms obtain b mem where m: "next_out s = Some b" "out_mem s = mem"
    "unat (avail_out s) + (length as + length bs) \<le> length mem" by (rule has_roomE)
  have r: "has_room s (length as)" using assms by (rule has_room_mono) simp
  have om: "out_mem (put as s) =
      take (unat (avail_out s)) mem @ as @ drop (unat (avail_out s) + length as) mem"
    using m by (simp add: put_def out_mem_def)
  have av: "unat (avail_out (put as s)) = unat (avail_out s) + length as"
    by (rule unat_avail_put [OF r])
  show ?thesis
    unfolding put_def [of bs] av om
    using m by (cases as) (simp_all add: put_def algebra_simps min_def)
qed

lemma put_nil: "has_room s 0 \<Longrightarrow> put [] s = s"
  by (erule has_roomE) (simp add: put_def fun_upd_idem)

lemma put_simps [simp]:
  "next_out (put bs s) = next_out s" "src (put bs s) = src s" "getblk (put bs s) = getblk s"
  "dec_cpylen (put bs s) = dec_cpylen s" "dec_win_ind (put bs s) = dec_win_ind s"
  "dec_tgtaddrbase (put bs s) = dec_tgtaddrbase s" "data_sect (put bs s) = data_sect s"
  "inst_sect (put bs s) = inst_sect s" "addr_sect (put bs s) = addr_sect s"
  "acache (put bs s) = acache s" "dec_position (put bs s) = dec_position s"
  "dec_maxpos (put bs s) = dec_maxpos s" "code_table (put bs s) = code_table s"
  "dec_current1 (put bs s) = dec_current1 s" "dec_current2 (put bs s) = dec_current2 s"
  "dec_tgtlen (put bs s) = dec_tgtlen s" "flags (put bs s) = flags s"
  "dec_adler32 (put bs s) = dec_adler32 s" "msg (put bs s) = msg s"
  "dec_cpyoff (put bs s) = dec_cpyoff s" "dec_state (put bs s) = dec_state s" "enc_state (put bs s) = enc_state s"
  "dec_32part (put bs s) = dec_32part s" "dec_64part (put bs s) = dec_64part s" "dec_cksum (put bs s) = dec_cksum s"
  "space_out (put bs s) = space_out s" "dec_buffer (put bs s) = dec_buffer s" "mem_alloc (put bs s) = mem_alloc s"
  "mem_count (put bs s) = mem_count s" "dec_winstart (put bs s) = dec_winstart s"
  "dec_window_count (put bs s) = dec_window_count s" "next_in (put bs s) = next_in s"
  "dec_lastwin (put bs s) = dec_lastwin s"
  by (simp_all add: put_def)

lemma put_lengths:
  "has_room s (length bs) \<Longrightarrow> map_option length (blocks (put bs s) b) = map_option length (blocks s b)"
  by (elim has_roomE) (auto simp: put_def)

section \<open>The writes are appends\<close>

lemma write_out_put:
  assumes "has_room s (length bs)"
  shows "write_out bs s = ok (put bs s)"
  using assms by (elim has_roomE) (simp add: write_out_def put_def blit_def)

lemma overlap_copy_put:
  assumes "has_room s n" "next_out s = Some b" "i < unat (avail_out s)"
  shows "overlap_copy (blocks s) b i b (unat (avail_out s)) n = Some (blocks (put (copied n i (target s)) s))"
  using assms
proof (induction n arbitrary: s i)
  case 0
  then show ?case using put_nil [of s] by simp
next
  case (Suc n)
  from Suc.prems obtain mem where m: "blocks s b = Some mem" "out_mem s = mem"
    "unat (avail_out s) + Suc n \<le> length mem" by (auto elim!: has_roomE)
  let ?x = "mem ! i" and ?av = "unat (avail_out s)"
  let ?s1 = "put [?x] s"
  have r1: "has_room s (length [?x] + n)" using Suc.prems(1) by simp
  have t: "target s ! i = ?x" using Suc.prems(3) m by (simp add: target_def)
  have av: "unat (avail_out ?s1) = Suc ?av"
    using unat_avail_put [of s "[?x]"] has_room_mono [OF r1] by simp
  have tg: "target ?s1 = target s @ [?x]"
    using target_put [of s "[?x]"] has_room_mono [OF r1] by simp
  have upd: "(blocks s)(b \<mapsto> mem[?av := ?x]) = blocks ?s1"
    using Suc.prems(2) m by (simp add: put_def upd_conv_take_nth_drop)
  have "overlap_copy (blocks s) b i b ?av (Suc n) = overlap_copy (blocks ?s1) b (Suc i) b (unat (avail_out ?s1)) n"
    using Suc.prems(3) m upd av by simp
  also have "\<dots> = Some (blocks (put (copied n (Suc i) (target ?s1)) ?s1))"
    by (rule Suc.IH) (use put_room [OF r1] Suc.prems av in simp_all)
  also have "put (copied n (Suc i) (target ?s1)) ?s1 = put ([?x] @ copied n (Suc i) (target ?s1)) s"
    by (rule put_put) (use r1 in simp)
  finally show ?case using t tg by simp
qed

lemma target_copy_put:
  assumes "has_room s (unat tk)" "dec_tgtaddrbase s = (next_out s, - int c)"
    and "c \<le> unat addr" "unat addr - c < unat (avail_out s)"
  shows "target_copy addr tk s = ok (put (copied (unat tk) (unat addr - c) (target s)) s)"
proof -
  from assms(1) obtain b where b: "next_out s = Some b" by (rule has_roomE)
  have i: "nat (- int c + int (unat addr)) = unat addr - c" using assms(3) by linarith
  have n: "\<not> - int c + int (unat addr) < 0" using assms(3) by linarith
  have "target_copy addr tk s =
      ok (s\<lparr>blocks := blocks (put (copied (unat tk) (unat addr - c) (target s)) s), avail_out := avail_out s + tk\<rparr>)"
    using overlap_copy_put [OF assms(1) b assms(4)] i n assms(2) b by (simp add: target_copy_def)
  then show ?thesis by (simp add: put_def)
qed

end
