(* ===== verification/Refine.thy ===== *)
theory Refine
  imports Output_Buffer Decode
begin

text \<open>
  The decoder implements the meaning of VCDIFF windows: on sections that encode a target
  window, \<^verbatim>\<open>xd3_decode_emit\<close> produces exactly that window. The proof follows the code: one
  lemma per half instruction parsed, one per half instruction written, then the loop.
\<close>

section \<open>The half instruction a function works on\<close>

text \<open>
  What the functions on half instructions rely on in their pointer argument: it selects a
  part of the stream that nothing else they touch overlaps.
\<close>

locale half_inst =
  fixes sel :: "xd3_stream \<Rightarrow> xd3_hinst"
    and upd :: "(xd3_hinst \<Rightarrow> xd3_hinst) \<Rightarrow> xd3_stream \<Rightarrow> xd3_stream"
  assumes sel_upd [simp]: "sel (upd f s) = f (sel s)"
    and upd_upd [simp]: "upd f (upd g s) = upd (\<lambda>h. f (g h)) s"
    and upd_same: "upd (\<lambda>_. sel s) s = s"
    and upd_cong_sel: "f (sel s) = g (sel s) \<Longrightarrow> upd f s = upd g s"
    and upd_fields [simp]:
      "next_out (upd f s) = next_out s" "avail_out (upd f s) = avail_out s"
      "blocks (upd f s) = blocks s" "src (upd f s) = src s" "getblk (upd f s) = getblk s"
      "dec_cpylen (upd f s) = dec_cpylen s" "dec_cpyoff (upd f s) = dec_cpyoff s"
      "dec_win_ind (upd f s) = dec_win_ind s" "dec_tgtaddrbase (upd f s) = dec_tgtaddrbase s"
      "data_sect (upd f s) = data_sect s" "inst_sect (upd f s) = inst_sect s"
      "addr_sect (upd f s) = addr_sect s" "acache (upd f s) = acache s"
      "dec_position (upd f s) = dec_position s" "dec_maxpos (upd f s) = dec_maxpos s"
    and upd_src [simp]: "(upd f s)\<lparr>src := x\<rparr> = upd f (s\<lparr>src := x\<rparr>)"
    and upd_data [simp]: "(upd f s)\<lparr>data_sect := d\<rparr> = upd f (s\<lparr>data_sect := d\<rparr>)"
    and upd_pos [simp]: "(upd f s)\<lparr>dec_position := q\<rparr> = upd f (s\<lparr>dec_position := q\<rparr>)"
    and upd_inst [simp]: "(upd f s)\<lparr>inst_sect := d\<rparr> = upd f (s\<lparr>inst_sect := d\<rparr>)"
    and upd_addr [simp]: "(upd f s)\<lparr>acache := ac, addr_sect := d\<rparr> = upd f (s\<lparr>acache := ac, addr_sect := d\<rparr>)"
    and upd_put [simp]: "put bs (upd f s) = upd f (put bs s)"
    and sel_fields [simp]:
      "sel (s\<lparr>src := x\<rparr>) = sel s" "sel (s\<lparr>data_sect := d\<rparr>) = sel s" "sel (s\<lparr>inst_sect := d\<rparr>) = sel s"
      "sel (s\<lparr>acache := ac\<rparr>) = sel s" "sel (s\<lparr>addr_sect := d\<rparr>) = sel s"
      "sel (s\<lparr>dec_position := q\<rparr>) = sel s" "sel (put bs s) = sel s"

lemma put_src: "put bs (s\<lparr>src := x\<rparr>) = (put bs s)\<lparr>src := x\<rparr>"
  by (simp add: put_def out_mem_def)

lemma put_data: "put bs (s\<lparr>data_sect := d\<rparr>) = (put bs s)\<lparr>data_sect := d\<rparr>"
  by (simp add: put_def out_mem_def)

interpretation first: half_inst dec_current1 dec_current1_update
  by unfold_locales (simp_all add: put_def out_mem_def comp_def)

interpretation second: half_inst dec_current2 dec_current2_update
  by unfold_locales (simp_all add: put_def out_mem_def comp_def)

section \<open>The source of a window\<close>

text \<open>
  The client serves the blocks of \<open>file\<close>, the copy window lies in the file, and the 32-bit
  offset arithmetic does not wrap.
\<close>

definition feeds :: "bytes \<Rightarrow> xd3_stream \<Rightarrow> bool" where
  "feeds file s \<longleftrightarrow> dec_cpylen s = 0 \<or>
     (dec_win_ind s AND VCD_TARGET = 0 \<and> getblk s = Some (serve_file file) \<and>
      unat (dec_cpyoff s) + unat (dec_cpylen s) \<le> length file \<and>
      unat (dec_cpyoff s) + unat (dec_cpylen s) < 2 ^ 64 \<and>
      (\<exists>source. src s = Some source \<and> wf_source source \<and>
         block_known file source \<and>
         xd3_blksize_div (dec_cpyoff s) source = (cpyoff_blocks source, cpyoff_blkoff source) \<and>
         unat (cpyoff_blkoff source) + unat (dec_cpylen s) < 2 ^ 32))"

text \<open>What writing an instruction may do to the source: fetch blocks, when the window has a source segment.\<close>

definition refetched :: "xd3_stream \<Rightarrow> xd3_source option \<Rightarrow> bool" where
  "refetched s x \<longleftrightarrow> map_option blksize x = map_option blksize (src s) \<and> (dec_cpylen s = 0 \<longrightarrow> x = src s)"

lemma refetched_same: "refetched s (src s)"
  by (simp add: refetched_def)

lemma refetched_cong: "refetched s x \<Longrightarrow> src s' = src s \<Longrightarrow> dec_cpylen s' = dec_cpylen s \<Longrightarrow> refetched s' x"
  by (simp add: refetched_def)

lemma refetched_trans: "refetched s (src t) \<Longrightarrow> refetched t x \<Longrightarrow> dec_cpylen t = dec_cpylen s \<Longrightarrow> refetched s x"
  by (auto simp: refetched_def)

definition segment :: "bytes \<Rightarrow> xd3_stream \<Rightarrow> bytes" where
  "segment file s = take (unat (dec_cpylen s)) (drop (unat (dec_cpyoff s)) file)"

lemma length_segment: "feeds file s \<Longrightarrow> length (segment file s) = unat (dec_cpylen s)"
  by (auto simp: feeds_def segment_def)

text \<open>The bytes of a block from \<open>off\<close> on are the bytes of the file from its address on.\<close>

lemma file_block_drop:
  assumes "off + n \<le> length (file_block file bs k)"
  shows "take n (drop off (file_block file bs k)) = take n (drop (k * bs + off) file)"
proof -
  have "off + n \<le> bs" using assms by (simp add: file_block_def)
  then have "n \<le> bs - off" by arith
  then show ?thesis by (simp add: file_block_def drop_take min_def add.commute)
qed

lemma length_file_block_eq: "length (file_block file bs k) = min bs (length file - k * bs)"
  by (simp add: file_block_def)

context half_inst
begin

lemma source_copy_step:
  assumes feeds: "feeds file s" and a: "unat (h_addr (sel s)) < unat (dec_cpylen s)"
    and n: "unat (h_addr (sel s)) + unat (h_size (sel s)) \<le> unat (dec_cpylen s)"
    and small: "unat (h_size (sel s)) \<le> 2 ^ 24"
    and room: "has_room s (unat (h_size (sel s)))"
    and type: "XD3_CPY \<le> unat (h_type (sel s))"
  shows "\<exists>source k h. k \<le> h_size (sel s) \<and>
    source_copy sel upd s = ok (upd (\<lambda>_. h) (put (take (unat k) (drop (unat (h_addr (sel s))) (segment file s)))
      (s\<lparr>src := source\<rparr>))) \<and>
    feeds file (s\<lparr>src := source\<rparr>) \<and> refetched s source \<and>
    (if unat (h_type h) = XD3_NOOP then k = h_size (sel s)
     else h = (sel s)\<lparr>h_size := h_size (sel s) - k, h_addr := h_addr (sel s) + k\<rparr> \<and> 0 < k \<and> k < h_size (sel s))"
proof -
  let ?h = "sel s" and ?a = "h_addr (sel s)" and ?n = "h_size (sel s)"
  from feeds a obtain source where f: "src s = Some source" "wf_source source"
    "getblk s = Some (serve_file file)"
    "block_known file source"
    "xd3_blksize_div (dec_cpyoff s) source = (cpyoff_blocks source, cpyoff_blkoff source)"
    "unat (cpyoff_blkoff source) + unat (dec_cpylen s) < 2 ^ 32"
    "unat (dec_cpyoff s) + unat (dec_cpylen s) < 2 ^ 64"
    "unat (dec_cpyoff s) + unat (dec_cpylen s) \<le> length file" "dec_win_ind s AND VCD_TARGET = 0"
    by (auto simp: feeds_def)
  obtain blk off where add: "xd3_blksize_add (cpyoff_blocks source) (cpyoff_blkoff source) source ?a = (blk, off)"
    by (cases "xd3_blksize_add (cpyoff_blocks source) (cpyoff_blkoff source) source ?a")
  let ?bs = "unat (blksize source)"
  have pos: "unat blk * ?bs + unat off = unat (dec_cpyoff s) + unat ?a" "unat off < ?bs"
    using block_address [OF f(2,5) _ _ add] f(6,7) a by linarith+
  have "blk \<noteq> - 1"
  proof
    assume "blk = - 1"
    then have "unat blk = 2 ^ 64 - 1" by (simp add: unsigned_minus_1_eq_mask mask_eq_exp_minus_1)
    moreover have "unat blk \<le> unat blk * ?bs" using pos(2) by (cases ?bs) auto
    ultimately show False using pos(1) f(7) a by linarith
  qed
  then obtain src1 where g: "xd3_getblk (Some (serve_file file)) source blk = (XD3_OK, None, src1)"
    "holds_block file src1 blk" "wf_source src1" "same_window src1 source"
    using getblk_served [OF f(2,4)] by blast
  have seg: "take k (drop (unat ?a) (segment file s)) = take k (drop (unat (dec_cpyoff s) + unat ?a) file)"
    if "unat ?a + k \<le> unat (dec_cpylen s)" for k
    using that by (simp add: segment_def drop_take min_def add.commute)
  have bs1: "blksize src1 = blksize source" using g(4) by (simp add: same_window_def)
  have bs31: "?bs \<le> 2 ^ 31"
  proof -
    have "shiftby source \<le> 31" using wf_source_sizes(3) [OF f(2)] by simp
    then have "(2::nat) ^ shiftby source \<le> 2 ^ 31" by (intro power_increasing) auto
    then show ?thesis using wf_source_sizes(1) [OF f(2)] by simp
  qed
  define b where "b = file_block file ?bs (unat blk)"
  have b: "curblk src1 = Some b" "unat (onblk src1) = length b"
    using g(2) bs1 by (simp_all add: holds_block_def b_def)
  have lenb: "length b = min ?bs (length file - unat blk * ?bs)"
    by (simp add: b_def length_file_block_eq)
  have sum: "unat (off + ?n) = unat off + unat ?n"
    using pos(2) bs31 small by (intro unat_add_u32) simp
  have enough: "unat off + unat ?n \<le> length b \<or> length b = ?bs"
    using lenb pos(1) n f(8) by linarith
  have tail: "\<not> (onblk src1 \<noteq> blksize source \<and> off + ?n > onblk src1)"
    using enough b(2) sum by (auto simp: word_less_nat_alt word_unat_eq_iff)
  let ?s1 = "s\<lparr>src := Some src1\<rparr>"
  have fed: "feeds file ?s1"
    using f g by (auto simp: feeds_def same_window_def holds_block_def block_known_def xd3_blksize_div_def)
  have re: "refetched s (Some src1)" using bs1 f(1) a by (auto simp: refetched_def)
  have room1: "has_room ?s1 m" if "m \<le> unat ?n" for m
    using has_room_mono [OF room that] by (simp add: has_room_def)
  show ?thesis
  proof (cases "off + ?n \<le> blksize source")
    case True
    then have le: "unat off + unat ?n \<le> length b"
      using enough sum by (auto simp: word_le_nat_alt)
    let ?bytes = "take (unat ?n) (drop (unat off) b)"
    have bytes: "?bytes = take (unat ?n) (drop (unat ?a) (segment file s))"
      unfolding seg [OF n] b_def using file_block_drop le pos(1) by (simp add: b_def)
    have "source_copy sel upd s = write_out ?bytes (upd (\<lambda>h. h\<lparr>h_type := of_nat XD3_NOOP, h_size := 0\<rparr>) ?s1)"
      using f(1,3) add g(1) tail True b(1) le by (auto simp: source_copy_def Let_def)
    also have "\<dots> = ok (upd (\<lambda>_. (?h\<lparr>h_type := of_nat XD3_NOOP, h_size := 0\<rparr>)) (put ?bytes ?s1))"
      using room1 [of "length ?bytes"] le
      by (subst write_out_put) (auto simp: has_room_def intro!: arg_cong [where f = ok] upd_cong_sel)
    finally show ?thesis unfolding bytes
      using fed re by (intro exI [of _ "Some src1"] exI [of _ ?n]
          exI [of _ "?h\<lparr>h_type := of_nat XD3_NOOP, h_size := 0\<rparr>"]) (simp add: inst_types)
  next
    case False
    let ?k = "blksize source - off"
    have k: "unat ?k = ?bs - unat off" using pos(2) by (intro unat_sub_le) (simp add: word_le_nat_alt)
    have kn: "unat ?k < unat ?n" "0 < unat ?k"
      using False sum pos(2) k by (auto simp: word_le_nat_alt)
    have full: "length b = ?bs" using enough False sum lenb by (auto simp: word_le_nat_alt)
    let ?bytes = "take (unat ?k) (drop (unat off) b)"
    have bytes: "?bytes = take (unat ?k) (drop (unat ?a) (segment file s))"
      using file_block_drop [of "unat off" "unat ?k" "file" ?bs "unat blk"] full k pos n kn seg [of "unat ?k"]
      by (simp add: b_def)
    let ?h' = "?h\<lparr>h_size := ?n - ?k, h_addr := ?a + ?k\<rparr>"
    have "source_copy sel upd s = write_out ?bytes (upd (\<lambda>h. h\<lparr>h_size := h_size h - ?k, h_addr := h_addr h + ?k\<rparr>) ?s1)"
      using f(1,3) add g(1) tail False b(1) full k pos(2) by (auto simp: source_copy_def Let_def)
    also have "\<dots> = ok (upd (\<lambda>_. ?h') (put ?bytes ?s1))"
      using room1 [of "length ?bytes"] kn full k
      by (subst write_out_put) (auto simp: has_room_def intro!: arg_cong [where f = ok] upd_cong_sel)
    finally show ?thesis unfolding bytes
      using fed re kn type by (intro exI [of _ "Some src1"] exI [of _ ?k] exI [of _ ?h'])
        (auto simp: word_le_nat_alt word_less_nat_alt inst_types)
  qed
qed

lemma output_loop_idle: "unat (h_type (sel s)) = XD3_NOOP \<Longrightarrow> output_loop sel upd s = ok s"
  by (subst output_loop.simps) simp

lemma output_loop_step:
  assumes "unat (h_type (sel s)) \<noteq> XD3_NOOP" "xd3_decode_output_halfinst sel upd s = ok s'"
  shows "output_loop sel upd s = output_loop sel upd s'"
  using assms by (subst output_loop.simps) simp

text \<open>A copy from the source segment, over as many blocks as it takes.\<close>

lemma output_source_copy:
  assumes "feeds file s" "XD3_CPY \<le> unat (h_type (sel s))"
    "unat (h_addr (sel s)) < unat (dec_cpylen s)"
    "unat (h_addr (sel s)) + unat (h_size (sel s)) \<le> unat (dec_cpylen s)"
    "unat (h_size (sel s)) \<le> 2 ^ 24" "has_room s (unat (h_size (sel s)))"
  shows "\<exists>source h. unat (h_type h) = XD3_NOOP \<and> feeds file (s\<lparr>src := source\<rparr>) \<and> refetched s source \<and>
    output_loop sel upd s =
      ok (upd (\<lambda>_. h) (put (take (unat (h_size (sel s))) (drop (unat (h_addr (sel s))) (segment file s)))
        (s\<lparr>src := source\<rparr>)))"
  using assms
proof (induction "unat (h_size (sel s))" arbitrary: s rule: less_induct)
  case less
  let ?n = "h_size (sel s)" and ?a = "h_addr (sel s)" and ?S = "segment file s"
  have out: "xd3_decode_output_halfinst sel upd s = source_copy sel upd s"
  proof -
    have "dec_win_ind s AND VCD_TARGET = 0"
      using less.prems(1,3) by (auto simp: feeds_def)
    then show ?thesis
      using less.prems(2,3)
      by (simp add: xd3_decode_output_halfinst_def Let_def inst_types word_less_nat_alt)
  qed
  have busy: "unat (h_type (sel s)) \<noteq> XD3_NOOP" using less.prems(2) by (simp add: inst_types)
  obtain source k h where step: "k \<le> ?n"
    "source_copy sel upd s = ok (upd (\<lambda>_. h) (put (take (unat k) (drop (unat ?a) ?S)) (s\<lparr>src := source\<rparr>)))"
    "feeds file (s\<lparr>src := source\<rparr>)" "refetched s source"
    "if unat (h_type h) = XD3_NOOP then k = ?n
     else h = (sel s)\<lparr>h_size := ?n - k, h_addr := ?a + k\<rparr> \<and> 0 < k \<and> k < ?n"
    using source_copy_step [OF less.prems(1,3,4,5,6,2)] by blast
  let ?b1 = "take (unat k) (drop (unat ?a) ?S)"
  let ?s1 = "upd (\<lambda>_. h) (put ?b1 (s\<lparr>src := source\<rparr>))"
  have loop: "output_loop sel upd s = output_loop sel upd ?s1"
    by (rule output_loop_step [OF busy]) (simp add: out step(2))
  show ?case
  proof (cases "unat (h_type h) = XD3_NOOP")
    case True
    then show ?thesis
      using loop output_loop_idle [of ?s1] step by (intro exI [of _ source] exI [of _ h]) simp
  next
    case False
    then have h: "h = (sel s)\<lparr>h_size := ?n - k, h_addr := ?a + k\<rparr>" and k: "0 < k" "k < ?n"
      using step(5) by simp_all
    have nk: "unat (?n - k) = unat ?n - unat k" using step(1) by (rule unat_sub_le)
    have kn: "unat k < unat ?n" "0 < unat k" using k by (simp_all add: word_less_nat_alt)
    have ak: "unat (?a + k) = unat ?a + unat k"
      using less.prems(4) kn unat_less_u32 [of "dec_cpylen s"] by (intro unat_add_u32) simp
    have lenS: "length ?S = unat (dec_cpylen s)" by (rule length_segment [OF less.prems(1)])
    have len1: "length ?b1 = unat k" using lenS less.prems(4) kn by simp
    have room: "has_room (s\<lparr>src := source\<rparr>) (length ?b1 + (unat ?n - unat k))"
      using less.prems(6) kn len1 by (simp add: has_room_def)
    have eqs: "h_size (sel ?s1) = ?n - k" "h_addr (sel ?s1) = ?a + k" "segment file ?s1 = ?S"
      using h by (simp_all add: segment_def)
    have "\<exists>source' h'. unat (h_type h') = XD3_NOOP \<and> feeds file (?s1\<lparr>src := source'\<rparr>) \<and> refetched ?s1 source' \<and>
        output_loop sel upd ?s1 = ok (upd (\<lambda>_. h') (put
          (take (unat (h_size (sel ?s1))) (drop (unat (h_addr (sel ?s1))) (segment file ?s1)))
          (?s1\<lparr>src := source'\<rparr>)))"
    proof (rule less.hyps)
      show "unat (h_size (sel ?s1)) < unat ?n" using h nk kn by simp
      show "feeds file ?s1" using step(3) by (simp add: feeds_def)
      show "XD3_CPY \<le> unat (h_type (sel ?s1))" using h less.prems(2) by simp
      show "unat (h_addr (sel ?s1)) < unat (dec_cpylen ?s1)" using h ak kn less.prems(4) by simp
      show "unat (h_addr (sel ?s1)) + unat (h_size (sel ?s1)) \<le> unat (dec_cpylen ?s1)"
        using h ak nk kn less.prems(4) by simp
      show "unat (h_size (sel ?s1)) \<le> 2 ^ 24" using h nk less.prems(5) by simp
      show "has_room ?s1 (unat (h_size (sel ?s1)))"
        using put_room [OF room] h nk by (simp add: has_room_def)
    qed
    then have "\<exists>source' h'. unat (h_type h') = XD3_NOOP \<and> feeds file (?s1\<lparr>src := source'\<rparr>) \<and> refetched ?s1 source' \<and>
        output_loop sel upd ?s1 = ok (upd (\<lambda>_. h') (put
          (take (unat ?n - unat k) (drop (unat ?a + unat k) ?S)) (?s1\<lparr>src := source'\<rparr>)))"
      unfolding eqs nk ak .
    then obtain source' h' where r: "unat (h_type h') = XD3_NOOP" "feeds file (?s1\<lparr>src := source'\<rparr>)" "refetched ?s1 source'"
      "output_loop sel upd ?s1 = ok (upd (\<lambda>_. h') (put
          (take (unat ?n - unat k) (drop (unat ?a + unat k) ?S)) (?s1\<lparr>src := source'\<rparr>)))"
      by (elim exE conjE)
    let ?b2 = "take (unat ?n - unat k) (drop (unat ?a + unat k) ?S)"
    have "?b1 @ ?b2 = take (unat ?n) (drop (unat ?a) ?S)"
      using kn take_add [of "unat k" "unat ?n - unat k" "drop (unat ?a) ?S"] by (simp add: add.commute)
    moreover have "put ?b2 (put ?b1 (s\<lparr>src := source'\<rparr>)) = put (?b1 @ ?b2) (s\<lparr>src := source'\<rparr>)"
      by (rule put_put) (use room lenS less.prems(4) in \<open>simp add: has_room_def\<close>)
    ultimately have "output_loop sel upd s =
        ok (upd (\<lambda>_. h') (put (take (unat ?n) (drop (unat ?a) ?S)) (s\<lparr>src := source'\<rparr>)))"
      using loop r(4) by (simp add: put_src)
    moreover have "refetched s source'"
      by (rule refetched_trans [OF _ r(3)]) (use step(4) in \<open>simp_all add: refetched_def\<close>)
    moreover have "feeds file (s\<lparr>src := source'\<rparr>)" using r(2) by (simp add: feeds_def)
    ultimately show ?thesis using r(1) by blast
  qed
qed

lemma room_upd [simp]: "has_room (upd f s) n = has_room s n"
  and target_upd [simp]: "target (upd f s) = target s"
  by (simp_all add: has_room_def target_def out_mem_def)

lemma output_run:
  assumes "unat (h_type (sel s)) = XD3_RUN" "has_room s (unat (h_size (sel s)))"
    "sec_buf (data_sect s) = b # rest"
  shows "\<exists>h'. unat (h_type h') = XD3_NOOP \<and> output_loop sel upd s = ok (upd (\<lambda>_. h')
    (put (replicate (unat (h_size (sel s))) b) (s\<lparr>data_sect := (data_sect s)\<lparr>sec_buf := rest\<rparr>\<rparr>)))"
proof -
  let ?h = "(sel s)\<lparr>h_type := of_nat XD3_NOOP\<rparr>" and ?bs = "replicate (unat (h_size (sel s))) b"
  let ?s' = "upd (\<lambda>_. ?h) (put ?bs (s\<lparr>data_sect := (data_sect s)\<lparr>sec_buf := rest\<rparr>\<rparr>))"
  have "xd3_decode_output_halfinst sel upd s =
      ok (upd (h_type_update (\<lambda>_. of_nat XD3_NOOP)) ((put ?bs s)\<lparr>data_sect := (data_sect s)\<lparr>sec_buf := rest\<rparr>\<rparr>))"
    using assms write_out_put [of s ?bs] by (simp add: xd3_decode_output_halfinst_def Let_def)
  also have "\<dots> = ok ?s'"
    unfolding put_data by (intro arg_cong [where f = ok] upd_cong_sel) simp
  finally have "output_loop sel upd s = output_loop sel upd ?s'"
    using assms(1) by (intro output_loop_step) (simp_all add: inst_types)
  then show ?thesis using output_loop_idle [of ?s'] by (intro exI [of _ ?h]) (simp add: inst_types)
qed

lemma output_add:
  assumes "unat (h_type (sel s)) = XD3_ADD" "has_room s (unat (h_size (sel s)))"
    "unat (h_size (sel s)) \<le> length (sec_buf (data_sect s))"
  shows "\<exists>h'. unat (h_type h') = XD3_NOOP \<and> output_loop sel upd s = ok (upd (\<lambda>_. h')
    (put (take (unat (h_size (sel s))) (sec_buf (data_sect s)))
      (s\<lparr>data_sect := (data_sect s)\<lparr>sec_buf := drop (unat (h_size (sel s))) (sec_buf (data_sect s))\<rparr>\<rparr>)))"
proof -
  let ?h = "(sel s)\<lparr>h_type := of_nat XD3_NOOP\<rparr>" and ?n = "unat (h_size (sel s))"
  let ?bs = "take ?n (sec_buf (data_sect s))" and ?rest = "drop ?n (sec_buf (data_sect s))"
  let ?s' = "upd (\<lambda>_. ?h) (put ?bs (s\<lparr>data_sect := (data_sect s)\<lparr>sec_buf := ?rest\<rparr>\<rparr>))"
  have "has_room s (length ?bs)" using assms(2,3) by simp
  then have "xd3_decode_output_halfinst sel upd s =
      ok (upd (h_type_update (\<lambda>_. of_nat XD3_NOOP)) ((put ?bs s)\<lparr>data_sect := (data_sect s)\<lparr>sec_buf := ?rest\<rparr>\<rparr>))"
    using assms(1,3) write_out_put [of s ?bs]
    by (simp add: xd3_decode_output_halfinst_def Let_def inst_types)
  also have "\<dots> = ok ?s'"
    unfolding put_data by (intro arg_cong [where f = ok] upd_cong_sel) simp
  finally have "output_loop sel upd s = output_loop sel upd ?s'"
    using assms(1) by (intro output_loop_step) (simp_all add: inst_types)
  then show ?thesis using output_loop_idle [of ?s'] by (intro exI [of _ ?h]) (simp add: inst_types)
qed

lemma output_target_copy:
  assumes "XD3_CPY \<le> unat (h_type (sel s))" "has_room s (unat (h_size (sel s)))"
    "dec_tgtaddrbase s = (next_out s, - int (unat (dec_cpylen s)))"
    "unat (dec_cpylen s) \<le> unat (h_addr (sel s))"
    "unat (h_addr (sel s)) - unat (dec_cpylen s) < unat (avail_out s)"
  shows "\<exists>h'. unat (h_type h') = XD3_NOOP \<and> output_loop sel upd s = ok (upd (\<lambda>_. h')
    (put (copied (unat (h_size (sel s))) (unat (h_addr (sel s)) - unat (dec_cpylen s)) (target s)) s))"
proof -
  let ?h = "(sel s)\<lparr>h_type := of_nat XD3_NOOP, h_size := 0\<rparr>"
  let ?bs = "copied (unat (h_size (sel s))) (unat (h_addr (sel s)) - unat (dec_cpylen s)) (target s)"
  let ?u = "upd (\<lambda>h. h\<lparr>h_type := of_nat XD3_NOOP, h_size := 0\<rparr>) s"
  have "xd3_decode_output_halfinst sel upd s = target_copy (h_addr (sel s)) (h_size (sel s)) ?u"
    using assms(1,4) by (simp add: xd3_decode_output_halfinst_def Let_def inst_types word_less_nat_alt)
  also have "\<dots> = ok (put ?bs ?u)"
    using target_copy_put [of ?u "h_size (sel s)" "unat (dec_cpylen s)" "h_addr (sel s)"] assms by simp
  also have "put ?bs ?u = upd (\<lambda>_. ?h) (put ?bs s)"
    unfolding upd_put by (rule upd_cong_sel) simp
  finally have "output_loop sel upd s = output_loop sel upd (upd (\<lambda>_. ?h) (put ?bs s))"
    using assms(1) by (intro output_loop_step) (simp_all add: inst_types)
  then show ?thesis
    using output_loop_idle [of "upd (\<lambda>_. ?h) (put ?bs s)"] by (intro exI [of _ ?h]) (simp add: inst_types)
qed

end

section \<open>A half instruction does what it means\<close>

definition half_means :: "xd3_hinst \<Rightarrow> vcd_inst" where
  "half_means h =
     (if unat (h_type h) = XD3_ADD then Add (unat (h_size h))
      else if unat (h_type h) = XD3_RUN then Run (unat (h_size h))
      else Copy (unat (h_addr h)) (unat (h_size h)))"

text \<open>What \<^verbatim>\<open>xd3_decode_parse_halfinst\<close> leaves to be true of a half instruction.\<close>

definition half_ok :: "xd3_stream \<Rightarrow> xd3_hinst \<Rightarrow> bool" where
  "half_ok s h \<longleftrightarrow> unat (h_type h) \<noteq> XD3_NOOP \<and> unat (h_size h) \<le> 2 ^ 24 \<and>
     (XD3_CPY \<le> unat (h_type h) \<and> unat (h_addr h) < unat (dec_cpylen s) \<longrightarrow>
      unat (h_addr h) + unat (h_size h) \<le> unat (dec_cpylen s))"

context half_inst
begin

lemma output_half:
  assumes feeds: "feeds file s" and h: "half_ok s (sel s)"
    and room: "has_room s (unat (h_size (sel s)))"
    and base: "dec_tgtaddrbase s = (next_out s, - int (unat (dec_cpylen s)))"
    and exec: "vcd_exec1 (half_means (sel s)) (segment file s @ target s, sec_buf (data_sect s)) = Some (U', d')"
  shows "\<exists>bs source h'. unat (h_type h') = XD3_NOOP \<and> length bs = unat (h_size (sel s)) \<and>
    U' = segment file s @ target s @ bs \<and> feeds file (s\<lparr>src := source\<rparr>) \<and> refetched s source \<and>
    output_loop sel upd s = ok (upd (\<lambda>_. h')
      (put bs (s\<lparr>src := source, data_sect := (data_sect s)\<lparr>sec_buf := d'\<rparr>\<rparr>)))"
proof -
  let ?n = "unat (h_size (sel s))" and ?a = "unat (h_addr (sel s))" and ?c = "unat (dec_cpylen s)"
  have lenS: "length (segment file s) = ?c" by (rule length_segment [OF feeds])
  have lenT: "length (target s) = unat (avail_out s)" by (rule length_target [OF room])
  have src_id: "s\<lparr>src := src s\<rparr> = s" by simp
  have d_id: "(data_sect s)\<lparr>sec_buf := sec_buf (data_sect s)\<rparr> = data_sect s" by simp
  have dd_id: "\<And>x. (x\<lparr>data_sect := data_sect x\<rparr>) = (x :: xd3_stream)" by simp
  consider (add) "unat (h_type (sel s)) = XD3_ADD" | (run) "unat (h_type (sel s)) = XD3_RUN"
    | (src) "XD3_CPY \<le> unat (h_type (sel s))" "?a < ?c" | (tgt) "XD3_CPY \<le> unat (h_type (sel s))" "?c \<le> ?a"
    using h by (fastforce simp: half_ok_def inst_types)
  then show ?thesis
  proof cases
    case add
    then have "?n \<le> length (sec_buf (data_sect s))"
      "U' = segment file s @ target s @ take ?n (sec_buf (data_sect s))" "d' = drop ?n (sec_buf (data_sect s))"
      using exec by (auto simp: half_means_def split: if_splits)
    with output_add [OF add room] feeds src_id refetched_same show ?thesis
      by (metis length_take min.absorb2)
  next
    case run
    then obtain b where "sec_buf (data_sect s) = b # d'" "U' = segment file s @ target s @ replicate ?n b"
      using exec by (auto simp: half_means_def inst_types split: list.splits)
    with output_run [OF run room] feeds src_id refetched_same show ?thesis by (metis length_replicate)
  next
    case src
    have within: "?a + ?n \<le> ?c" "?n \<le> 2 ^ 24" using h src by (auto simp: half_ok_def)
    have u: "U' = segment file s @ target s @ take ?n (drop ?a (segment file s))" "d' = sec_buf (data_sect s)"
      using exec src within lenS
      by (auto simp: half_means_def inst_types copied_within split: if_splits)
    obtain source h' where "unat (h_type h') = XD3_NOOP" "feeds file (s\<lparr>src := source\<rparr>)" "refetched s source"
      "output_loop sel upd s = ok (upd (\<lambda>_. h') (put (take ?n (drop ?a (segment file s))) (s\<lparr>src := source\<rparr>)))"
      using output_source_copy [OF feeds src within room] by blast
    moreover have "length (take ?n (drop ?a (segment file s))) = ?n" using within lenS by simp
    ultimately show ?thesis using u by (intro exI) auto
  next
    case tgt
    have "?a < ?c + unat (avail_out s)"
      and u: "U' = segment file s @ target s @ copied ?n (?a - ?c) (target s)" "d' = sec_buf (data_sect s)"
      using exec tgt lenS lenT by (auto simp: half_means_def inst_types copied_append split: if_splits)
    then have "?a - ?c < unat (avail_out s)" using tgt(2) by linarith
    from output_target_copy [OF tgt(1) room base tgt(2) this] obtain h' where "unat (h_type h') = XD3_NOOP"
      "output_loop sel upd s = ok (upd (\<lambda>_. h') (put (copied ?n (?a - ?c) (target s)) s))" by blast
    then show ?thesis using u feeds refetched_same by (intro exI [of _ "copied ?n (?a - ?c) (target s)"] exI [of _ "src s"] exI [of _ h']) auto
  qed
qed

end

section \<open>Parsing a half instruction\<close>

text \<open>The abstract parser's state as it is found in the stream, and put there.\<close>

definition parse_of :: "xd3_stream \<Rightarrow> vcd_parse" where
  "parse_of s = \<lparr>p_pos = unat (dec_position s), p_cache = acache s,
     p_inst = sec_buf (inst_sect s), p_addr = sec_buf (addr_sect s)\<rparr>"

definition advance :: "vcd_parse \<Rightarrow> xd3_stream \<Rightarrow> xd3_stream" where
  "advance p s =
     s\<lparr>inst_sect := (inst_sect s)\<lparr>sec_buf := p_inst p\<rparr>,
       acache := p_cache p, addr_sect := (addr_sect s)\<lparr>sec_buf := p_addr p\<rparr>,
       dec_position := of_nat (p_pos p)\<rparr>"

lemma parse_of_advance: "p_pos p < 2 ^ 32 \<Longrightarrow> parse_of (advance p s) = p"
  by (simp add: parse_of_def advance_def unsigned_of_nat take_bit_nat_eq_self)

text \<open>The bounds of the window, as the header leaves them.\<close>

definition window_bounds :: "xd3_stream \<Rightarrow> bool" where
  "window_bounds s \<longleftrightarrow> unat (dec_cpylen s) \<le> unat (dec_position s) \<and>
     unat (dec_position s) \<le> unat (dec_maxpos s) \<and>
     unat (dec_maxpos s) \<le> unat (dec_cpylen s) + 2 ^ 24"

lemma unat_ucast_u8_u32: "unat (ucast (b :: u8) :: u32) = unat b"
  by (rule unat_ucast_u8) simp

context half_inst
begin

lemma parse_half_sim:
  assumes h: "h_type (sel s) = t" "h_size (sel s) = ucast sz" and busy: "unat t \<noteq> XD3_NOOP"
    and bounds: "window_bounds s"
    and parse: "parse_half (unat (dec_cpylen s)) (unat (dec_maxpos s)) t sz (parse_of s) = Some (is, p')"
  shows "\<exists>h. is = [half_means h] \<and> half_ok s h \<and>
    p_pos p' = unat (dec_position s) + unat (h_size h) \<and> p_pos p' \<le> unat (dec_maxpos s) \<and>
    xd3_decode_parse_halfinst sel upd s = ok (upd (\<lambda>_. h) (advance p' s))"
proof -
  let ?pos = "unat (dec_position s)" and ?seg = "unat (dec_cpylen s)" and ?max = "unat (dec_maxpos s)"
  have pos_id: "of_nat ?pos = dec_position s" by simp
  obtain n inst where ps: "parse_size sz (sec_buf (inst_sect s)) = Some (n, inst)" "?pos + n \<le> ?max"
    using parse busy by (auto simp: parse_half_def parse_of_def split: option.splits if_splits prod.splits)
  have n: "n \<le> 2 ^ 24" "n < 2 ^ 32"
    using ps(2) bounds unat_less_u32 [of "dec_maxpos s"] by (simp_all add: window_bounds_def)
  define hn where "hn = (sel s)\<lparr>h_size := of_nat n\<rparr>"
  define s1 where "s1 = upd (\<lambda>_. hn) (s\<lparr>inst_sect := (inst_sect s)\<lparr>sec_buf := inst\<rparr>\<rparr>)"
  have un: "unat (of_nat n :: u32) = n" using n(2) by (simp add: unsigned_of_nat take_bit_nat_eq_self)
  have size: "(if h_size (sel s) = 0
        then (case xd3_read_uint32_t (sec_buf (inst_sect s)) of
             Inl (e, m) \<Rightarrow> fail XD3_INVALID_INPUT m s
           | Inr (v, rest) \<Rightarrow>
               ok (upd (h_size_update (\<lambda>_. v)) (s\<lparr>inst_sect := (inst_sect s)\<lparr>sec_buf := rest\<rparr>\<rparr>)))
        else ok s) = ok s1"
  proof (cases "sz = 0")
    case True
    then obtain v where "xd3_read_uint32_t (sec_buf (inst_sect s)) = Inr (v, inst)" "n = unat v"
      using ps(1) by (auto simp: parse_size_def split: sum.splits)
    then show ?thesis using True h(2)
      by (auto simp: s1_def hn_def intro!: arg_cong [where f = ok] upd_cong_sel)
  next
    case False
    then have nn: "n = unat sz" "inst = sec_buf (inst_sect s)" using ps(1) by (auto simp: parse_size_def)
    have "h_size (sel s) \<noteq> 0" using False h(2) unat_ucast_u8_u32 [of sz] by (metis unat_eq_zero unsigned_0)
    moreover have "of_nat n = h_size (sel s)" using nn h(2) by simp
    ultimately show ?thesis using upd_same [of s] nn by (simp add: s1_def hn_def)
  qed
  have pn: "unat (dec_position s + of_nat n) = ?pos + n"
    using ps(2) un unat_less_u32 [of "dec_maxpos s"] by (subst unat_add_u32) simp_all
  have upto: "\<not> dec_position s + of_nat n > dec_maxpos s"
    using pn ps(2) by (simp add: word_less_nat_alt)
  show ?thesis
  proof (cases "unat t \<ge> XD3_CPY")
    case False
    then have i: "is = [half_means hn]" "p' = (parse_of s)\<lparr>p_inst := inst, p_pos := ?pos + n\<rparr>"
      using parse busy ps h(1) un
      by (auto simp: parse_half_def parse_of_def hn_def half_means_def inst_types split: if_splits)
    have "xd3_decode_parse_halfinst sel upd s = ok (s1\<lparr>dec_position := dec_position s1 + of_nat n\<rparr>)"
      unfolding xd3_decode_parse_halfinst_def size
      using False upto h(1) by (simp add: s1_def hn_def)
    also have "s1\<lparr>dec_position := dec_position s1 + of_nat n\<rparr> = upd (\<lambda>_. hn) (advance p' s)"
      using i(2) by (simp add: s1_def advance_def parse_of_def)
    finally show ?thesis
      using i busy n False ps(2) un h(1)
      by (intro exI [of _ hn]) (simp add: half_ok_def hn_def)
  next
    case True
    then have nt: "unat t \<noteq> XD3_ADD" "unat t \<noteq> XD3_RUN" by (simp_all add: inst_types)
    obtain a ac addr where d: "xd3_decode_address (acache s) (dec_position s) (unat t - XD3_CPY)
        (sec_buf (addr_sect s)) = Some (Inr (a, ac, addr))"
      "unat a < ?pos" "unat a < ?seg \<longrightarrow> unat a + n \<le> ?seg"
      "is = [Copy (unat a) n]"
      "p' = (parse_of s)\<lparr>p_inst := inst, p_addr := addr, p_cache := ac, p_pos := ?pos + n\<rparr>"
      using parse busy ps nt
      by (auto simp: parse_half_def parse_of_def split: option.splits sum.splits if_splits)
    define ha where "ha = hn\<lparr>h_addr := a\<rparr>"
    have an: "unat (a + of_nat n) = unat a + n"
      using d(2) ps(2) un unat_less_u32 [of "dec_maxpos s"] by (subst unat_add_u32) simp_all
    let ?s2 = "upd (h_addr_update (\<lambda>_. a)) (s1\<lparr>acache := ac, addr_sect := (addr_sect s1)\<lparr>sec_buf := addr\<rparr>\<rparr>)"
    have s2: "?s2 = upd (\<lambda>_. ha) (s\<lparr>inst_sect := (inst_sect s)\<lparr>sec_buf := inst\<rparr>, acache := ac,
        addr_sect := (addr_sect s)\<lparr>sec_buf := addr\<rparr>\<rparr>)"
      by (simp add: s1_def ha_def)
    have c: "\<not> a \<ge> dec_position s" "\<not> (a < dec_cpylen s \<and> a + of_nat n > dec_cpylen s)"
      using d(2,3) an by (auto simp: word_le_nat_alt word_less_nat_alt)
    have "xd3_decode_parse_halfinst sel upd s = ok (?s2\<lparr>dec_position := dec_position s + of_nat n\<rparr>)"
      unfolding xd3_decode_parse_halfinst_def size
      using True upto h(1) c d(1) by (auto simp: s1_def hn_def Let_def)
    also have "?s2\<lparr>dec_position := dec_position s + of_nat n\<rparr> = upd (\<lambda>_. ha) (advance p' s)"
      unfolding s2 using d(5) by (simp add: advance_def parse_of_def)
    finally show ?thesis
      using d busy n True nt ps(2) un h(1)
      by (intro exI [of _ ha]) (simp add: half_ok_def ha_def hn_def half_means_def)
  qed
qed

lemma advance_id [simp]: "advance (parse_of s) s = s"
  by (simp add: advance_def parse_of_def)

text \<open>With a half that may be absent.\<close>

lemma parse_maybe:
  assumes h: "h_type (sel s) = t" "h_size (sel s) = ucast sz" and bounds: "window_bounds s"
    and parse: "parse_half (unat (dec_cpylen s)) (unat (dec_maxpos s)) t sz (parse_of s) = Some (is, p')"
  shows "\<exists>h n. (unat (h_type h) = XD3_NOOP \<and> is = [] \<and> n = 0 \<or>
      half_ok s h \<and> is = [half_means h] \<and> n = unat (h_size h)) \<and>
    p_pos p' = unat (dec_position s) + n \<and> p_pos p' \<le> unat (dec_maxpos s) \<and>
    (if unat t \<noteq> XD3_NOOP then xd3_decode_parse_halfinst sel upd s else ok s) =
      ok (upd (\<lambda>_. h) (advance p' s))"
proof (cases "unat t = XD3_NOOP")
  case True
  then have "is = []" "p' = parse_of s" using parse by (auto simp: parse_half_def)
  moreover have "p_pos (parse_of s) = unat (dec_position s)" by (simp add: parse_of_def)
  ultimately show ?thesis using True h(1) bounds upd_same [of s]
    by (intro exI [of _ "sel s"] exI [of _ 0]) (simp add: window_bounds_def)
next
  case False
  from parse_half_sim [OF h False bounds parse] obtain h where
    "is = [half_means h]" "half_ok s h" "p_pos p' = unat (dec_position s) + unat (h_size h)"
    "p_pos p' \<le> unat (dec_maxpos s)"
    "xd3_decode_parse_halfinst sel upd s = ok (upd (\<lambda>_. h) (advance p' s))" by blast
  then show ?thesis using False by (intro exI [of _ h] exI [of _ "unat (h_size h)"]) simp
qed

lemma output_maybe:
  assumes feeds: "feeds file s"
    and h: "unat (h_type (sel s)) = XD3_NOOP \<and> is = [] \<and> n = 0 \<or>
      half_ok s (sel s) \<and> is = [half_means (sel s)] \<and> n = unat (h_size (sel s))"
    and room: "has_room s n" and base: "dec_tgtaddrbase s = (next_out s, - int (unat (dec_cpylen s)))"
    and exec: "vcd_exec is (segment file s @ target s, sec_buf (data_sect s)) = Some (U', d')"
  shows "\<exists>bs source h'. unat (h_type h') = XD3_NOOP \<and> length bs = n \<and>
    U' = segment file s @ target s @ bs \<and> feeds file (s\<lparr>src := source\<rparr>) \<and> refetched s source \<and>
    output_loop sel upd s = ok (upd (\<lambda>_. h')
      (put bs (s\<lparr>src := source, data_sect := (data_sect s)\<lparr>sec_buf := d'\<rparr>\<rparr>)))"
  using h
proof
  assume *: "unat (h_type (sel s)) = XD3_NOOP \<and> is = [] \<and> n = 0"
  then have "put [] s = s" using room put_nil by simp
  then show ?thesis
    using * exec feeds output_loop_idle upd_same [of s] refetched_same
    by (intro exI [of _ "[]"] exI [of _ "src s"] exI [of _ "sel s"]) auto
next
  assume *: "half_ok s (sel s) \<and> is = [half_means (sel s)] \<and> n = unat (h_size (sel s))"
  then have "vcd_exec1 (half_means (sel s)) (segment file s @ target s, sec_buf (data_sect s)) = Some (U', d')"
    using exec by (auto split: option.splits)
  from output_half [OF feeds _ _ base this] * room show ?thesis by blast
qed

end

end
