(* ===== verification/Emit.thy ===== *)
theory Emit
  imports Refine Config
begin

text \<open>
  The window loop: \<^verbatim>\<open>xd3_decode_emit\<close> on sections that encode a target window.
\<close>

section \<open>One opcode\<close>

text \<open>What the loop keeps from opcode to opcode.\<close>

definition emitting :: "bytes \<Rightarrow> xd3_stream \<Rightarrow> bool" where
  "emitting file s \<longleftrightarrow> feeds file s \<and> window_bounds s \<and> both_idle s \<and>
     dec_tgtaddrbase s = (next_out s, - int (unat (dec_cpylen s))) \<and>
     unat (dec_position s) = unat (dec_cpylen s) + unat (avail_out s) \<and>
     has_room s (unat (dec_maxpos s) - unat (dec_position s)) \<and>
     256 \<le> length (code_table s)"

text \<open>The fields the loop leaves alone.\<close>

definition same_setup :: "xd3_stream \<Rightarrow> xd3_stream \<Rightarrow> bool" where
  "same_setup s s' \<longleftrightarrow> next_out s' = next_out s \<and> dec_cpylen s' = dec_cpylen s \<and>
     dec_cpyoff s' = dec_cpyoff s \<and> dec_maxpos s' = dec_maxpos s \<and> code_table s' = code_table s \<and>
     dec_tgtlen s' = dec_tgtlen s \<and> dec_win_ind s' = dec_win_ind s \<and> flags s' = flags s \<and>
     dec_adler32 s' = dec_adler32 s \<and> dec_state s' = dec_state s \<and> enc_state s' = enc_state s \<and>
     dec_32part s' = dec_32part s \<and> dec_64part s' = dec_64part s \<and> dec_cksum s' = dec_cksum s \<and>
     space_out s' = space_out s \<and> dec_buffer s' = dec_buffer s \<and> mem_alloc s' = mem_alloc s \<and>
     dec_winstart s' = dec_winstart s \<and> dec_window_count s' = dec_window_count s \<and> next_in s' = next_in s \<and>
     dec_lastwin s' = dec_lastwin s \<and> getblk s' = getblk s \<and> sec_pos (data_sect s') = sec_pos (data_sect s) \<and>
     sec_pos (inst_sect s') = sec_pos (inst_sect s) \<and> sec_pos (addr_sect s') = sec_pos (addr_sect s) \<and>
     sec_copied (data_sect s') = sec_copied (data_sect s) \<and> sec_alloc (data_sect s') = sec_alloc (data_sect s) \<and>
     sec_copied (inst_sect s') = sec_copied (inst_sect s) \<and> sec_alloc (inst_sect s') = sec_alloc (inst_sect s) \<and>
     sec_copied (addr_sect s') = sec_copied (addr_sect s) \<and> sec_alloc (addr_sect s') = sec_alloc (addr_sect s) \<and>
     (\<forall>b. map_option length (blocks s' b) = map_option length (blocks s b)) \<and> refetched s (src s')"

lemma same_setup_trans: "same_setup s t \<Longrightarrow> same_setup t u \<Longrightarrow> same_setup s u"
  by (simp add: same_setup_def) (auto intro: refetched_trans)

lemma segment_cong: "dec_cpylen s' = dec_cpylen s \<Longrightarrow> dec_cpyoff s' = dec_cpyoff s \<Longrightarrow> segment file s' = segment file s"
  by (simp add: segment_def)

lemma feeds_cong:
  assumes "feeds file s" "src s' = src s" "getblk s' = getblk s" "dec_cpylen s' = dec_cpylen s"
    "dec_cpyoff s' = dec_cpyoff s" "dec_win_ind s' = dec_win_ind s"
  shows "feeds file s'"
  using assms by (simp add: feeds_def)

lemma target_cong:
  "next_out s' = next_out s \<Longrightarrow> blocks s' = blocks s \<Longrightarrow> avail_out s' = avail_out s \<Longrightarrow> target s' = target s"
  by (simp add: target_def out_mem_def)

lemma room_cong:
  "has_room s n \<Longrightarrow> next_out s' = next_out s \<Longrightarrow> blocks s' = blocks s \<Longrightarrow> avail_out s' = avail_out s \<Longrightarrow>
   has_room s' n"
  by (simp add: has_room_def)

lemma half_ok_cong: "half_ok s h \<Longrightarrow> dec_cpylen s' = dec_cpylen s \<Longrightarrow> half_ok s' h"
  by (simp add: half_ok_def)

text \<open>Reading an opcode: both halves are parsed before anything is written.\<close>

lemma instruction_sim:
  assumes e: "window_bounds s" "256 \<le> length (code_table s)" and b: "sec_buf (inst_sect s) = b # rest"
    and p1: "parse_half (unat (dec_cpylen s)) (unat (dec_maxpos s)) (type1 (code_table s ! unat b))
      (size1 (code_table s ! unat b)) ((parse_of s)\<lparr>p_inst := rest\<rparr>) = Some (is1, q1)"
    and p2: "parse_half (unat (dec_cpylen s)) (unat (dec_maxpos s)) (type2 (code_table s ! unat b))
      (size2 (code_table s ! unat b)) q1 = Some (is2, q2)"
  shows "\<exists>h1 n1 h2 n2.
    (unat (h_type h1) = XD3_NOOP \<and> is1 = [] \<and> n1 = 0 \<or>
     half_ok s h1 \<and> is1 = [half_means h1] \<and> n1 = unat (h_size h1)) \<and>
    (unat (h_type h2) = XD3_NOOP \<and> is2 = [] \<and> n2 = 0 \<or>
     half_ok s h2 \<and> is2 = [half_means h2] \<and> n2 = unat (h_size h2)) \<and>
    p_pos q2 = unat (dec_position s) + n1 + n2 \<and> p_pos q2 \<le> unat (dec_maxpos s) \<and>
    xd3_decode_instruction s = ok (advance q2 (s\<lparr>dec_current1 := h1, dec_current2 := h2\<rparr>))"
proof -
  let ?d = "code_table s ! unat b"
  define s1 where "s1 = s\<lparr>inst_sect := (inst_sect s)\<lparr>sec_buf := rest\<rparr>,
     dec_current1 := (dec_current1 s)\<lparr>h_type := type1 ?d, h_size := ucast (size1 ?d)\<rparr>,
     dec_current2 := (dec_current2 s)\<lparr>h_type := type2 ?d, h_size := ucast (size2 ?d)\<rparr>\<rparr>"
  have parse1: "parse_of s1 = (parse_of s)\<lparr>p_inst := rest\<rparr>" by (simp add: s1_def parse_of_def)
  have b1: "window_bounds s1" using e(1) by (simp add: window_bounds_def s1_def)
  obtain h1 n1 where 1: "unat (h_type h1) = XD3_NOOP \<and> is1 = [] \<and> n1 = 0 \<or>
      half_ok s1 h1 \<and> is1 = [half_means h1] \<and> n1 = unat (h_size h1)"
    "p_pos q1 = unat (dec_position s1) + n1" "p_pos q1 \<le> unat (dec_maxpos s1)"
    "(if unat (type1 ?d) \<noteq> XD3_NOOP
      then xd3_decode_parse_halfinst dec_current1 dec_current1_update s1 else ok s1) =
      ok (dec_current1_update (\<lambda>_. h1) (advance q1 s1))"
    using first.parse_maybe [of s1 "type1 ?d" "size1 ?d" is1 q1] b1 p1 parse1
    by (auto simp: s1_def)
  define s2 where "s2 = dec_current1_update (\<lambda>_. h1) (advance q1 s1)"
  have small: "p_pos q1 < 2 ^ 32" using 1(3) unat_less_u32 [of "dec_maxpos s1"] by simp
  have parse2: "parse_of s2 = q1"
    using parse_of_advance [OF small, of s1] by (simp add: s2_def parse_of_def)
  have pos2: "unat (dec_position s2) = p_pos q1" using parse2 by (auto simp: parse_of_def)
  have b2: "window_bounds s2"
    using b1 1(2,3) pos2 by (simp add: window_bounds_def s2_def advance_def)
  obtain h2 n2 where 2: "unat (h_type h2) = XD3_NOOP \<and> is2 = [] \<and> n2 = 0 \<or>
      half_ok s2 h2 \<and> is2 = [half_means h2] \<and> n2 = unat (h_size h2)"
    "p_pos q2 = unat (dec_position s2) + n2" "p_pos q2 \<le> unat (dec_maxpos s2)"
    "(if unat (type2 ?d) \<noteq> XD3_NOOP
      then xd3_decode_parse_halfinst dec_current2 dec_current2_update s2 else ok s2) =
      ok (dec_current2_update (\<lambda>_. h2) (advance q2 s2))"
    using second.parse_maybe [of s2 "type2 ?d" "size2 ?d" is2 q2] b2 p2 parse2
    by (auto simp: s1_def s2_def advance_def)
  have len: "unat b < length (code_table s)"
    using e(2) unat_less_u8 [of b] by simp
  have "xd3_decode_instruction s = ok (dec_current2_update (\<lambda>_. h2) (advance q2 s2))"
    unfolding xd3_decode_instruction_def b list.case Let_def s1_def [symmetric]
      1(4) [folded s2_def] and_then_simps 2(4)
    using len by simp
  also have "dec_current2_update (\<lambda>_. h2) (advance q2 s2) = advance q2 (s\<lparr>dec_current1 := h1, dec_current2 := h2\<rparr>)"
    by (simp add: s2_def s1_def advance_def)
  finally show ?thesis
    using 1 2 pos2
    by (intro exI [of _ h1] exI [of _ n1] exI [of _ h2] exI [of _ n2])
      (simp add: s1_def s2_def advance_def half_ok_def)
qed

text \<open>Writing the two halves.\<close>

lemma halves_sim:
  assumes e: "emitting file s" and q: "p_pos q = unat (dec_position s) + n1 + n2" "p_pos q \<le> unat (dec_maxpos s)"
    and h1: "unat (h_type h1) = XD3_NOOP \<and> is1 = [] \<and> n1 = 0 \<or>
     half_ok s h1 \<and> is1 = [half_means h1] \<and> n1 = unat (h_size h1)"
    and h2: "unat (h_type h2) = XD3_NOOP \<and> is2 = [] \<and> n2 = 0 \<or>
     half_ok s h2 \<and> is2 = [half_means h2] \<and> n2 = unat (h_size h2)"
    and exec: "vcd_exec (is1 @ is2) (segment file s @ target s, sec_buf (data_sect s)) = Some (U', d')"
  shows "\<exists>s5. and_then (output_loop dec_current1 dec_current1_update
        (advance q (s\<lparr>dec_current1 := h1, dec_current2 := h2\<rparr>)))
      (output_loop dec_current2 dec_current2_update) = ok s5 \<and>
    emitting file s5 \<and> parse_of s5 = q \<and> same_setup s s5 \<and> sec_buf (data_sect s5) = d' \<and>
    segment file s5 @ target s5 = U'"
proof -
  define s3 where "s3 = advance q (s\<lparr>dec_current1 := h1, dec_current2 := h2\<rparr>)"
  have f: "feeds file s" "window_bounds s" "dec_tgtaddrbase s = (next_out s, - int (unat (dec_cpylen s)))"
    "unat (dec_position s) = unat (dec_cpylen s) + unat (avail_out s)"
    "has_room s (unat (dec_maxpos s) - unat (dec_position s))" "256 \<le> length (code_table s)"
    using e unfolding emitting_def by blast+
  have room: "has_room s (n1 + n2)" using f(5) by (rule has_room_mono) (use q in simp)
  have s3: "next_out s3 = next_out s" "blocks s3 = blocks s" "avail_out s3 = avail_out s"
    "src s3 = src s" "getblk s3 = getblk s" "dec_cpylen s3 = dec_cpylen s" "dec_cpyoff s3 = dec_cpyoff s"
    "dec_win_ind s3 = dec_win_ind s" "dec_tgtaddrbase s3 = dec_tgtaddrbase s" "data_sect s3 = data_sect s"
    "dec_current1 s3 = h1" "dec_current2 s3 = h2" "dec_maxpos s3 = dec_maxpos s"
    "code_table s3 = code_table s" "dec_tgtlen s3 = dec_tgtlen s" "flags s3 = flags s"
    "dec_adler32 s3 = dec_adler32 s" "dec_state s3 = dec_state s" "enc_state s3 = enc_state s"
    "dec_32part s3 = dec_32part s" "dec_64part s3 = dec_64part s" "dec_cksum s3 = dec_cksum s"
    "space_out s3 = space_out s" "dec_buffer s3 = dec_buffer s" "mem_alloc s3 = mem_alloc s"
    "dec_winstart s3 = dec_winstart s" "dec_window_count s3 = dec_window_count s" "next_in s3 = next_in s"
    "dec_lastwin s3 = dec_lastwin s" "sec_pos (inst_sect s3) = sec_pos (inst_sect s)"
    "sec_pos (addr_sect s3) = sec_pos (addr_sect s)" "sec_copied (inst_sect s3) = sec_copied (inst_sect s)"
    "sec_alloc (inst_sect s3) = sec_alloc (inst_sect s)" "sec_copied (addr_sect s3) = sec_copied (addr_sect s)"
    "sec_alloc (addr_sect s3) = sec_alloc (addr_sect s)"
    by (simp_all add: s3_def advance_def)
  have f3: "feeds file s3" using f(1) by (rule feeds_cong) (simp_all add: s3)
  have t3: "target s3 = target s" by (rule target_cong) (simp_all add: s3)
  have g3: "segment file s3 = segment file s" by (rule segment_cong) (simp_all add: s3)
  have room3: "has_room s3 (n1 + n2)" using room by (rule room_cong) (simp_all add: s3)
  obtain U1 d1 where x1: "vcd_exec is1 (segment file s3 @ target s3, sec_buf (data_sect s3)) = Some (U1, d1)"
    and x2: "vcd_exec is2 (U1, d1) = Some (U', d')"
    using exec by (auto simp: vcd_exec_append t3 g3 s3 split: option.splits)
  have h1': "unat (h_type (dec_current1 s3)) = XD3_NOOP \<and> is1 = [] \<and> n1 = 0 \<or>
     half_ok s3 (dec_current1 s3) \<and> is1 = [half_means (dec_current1 s3)] \<and> n1 = unat (h_size (dec_current1 s3))"
    using h1 by (auto simp: s3 intro: half_ok_cong)
  obtain bs1 src1 k1 where o1: "unat (h_type k1) = XD3_NOOP" "length bs1 = n1"
    "U1 = segment file s3 @ target s3 @ bs1" "feeds file (s3\<lparr>src := src1\<rparr>)" "refetched s3 src1"
    "output_loop dec_current1 dec_current1_update s3 = ok (dec_current1_update (\<lambda>_. k1)
      (put bs1 (s3\<lparr>src := src1, data_sect := (data_sect s3)\<lparr>sec_buf := d1\<rparr>\<rparr>)))"
    using first.output_maybe [OF f3 h1' has_room_mono [OF room3] _ x1] f(3) s3 by auto
  define m4 where "m4 = s3\<lparr>src := src1, data_sect := (data_sect s3)\<lparr>sec_buf := d1\<rparr>\<rparr>"
  define s4 where "s4 = dec_current1_update (\<lambda>_. k1) (put bs1 m4)"
  have m4: "has_room m4 (length bs1 + n2)" "target m4 = target s"
    using room3 o1(2) t3 by (auto simp: m4_def has_room_def target_def out_mem_def)
  have s4: "next_out s4 = next_out s" "dec_current2 s4 = h2" "dec_cpylen s4 = dec_cpylen s"
    "dec_tgtaddrbase s4 = dec_tgtaddrbase s" "sec_buf (data_sect s4) = d1" "dec_current1 s4 = k1"
    by (simp_all add: s4_def m4_def s3)
  have t4: "target s4 = target s @ bs1"
    using target_put [OF has_room_mono [OF m4(1)]] m4(2) by (simp add: s4_def)
  have g4: "segment file s4 = segment file s" by (simp add: segment_def s4_def m4_def s3)
  have r4: "has_room s4 n2" using put_room [OF m4(1)] by (simp add: s4_def)
  have f4: "feeds file s4" by (rule feeds_cong [OF o1(4)]) (simp_all add: s4_def m4_def)
  have h2': "unat (h_type (dec_current2 s4)) = XD3_NOOP \<and> is2 = [] \<and> n2 = 0 \<or>
     half_ok s4 (dec_current2 s4) \<and> is2 = [half_means (dec_current2 s4)] \<and> n2 = unat (h_size (dec_current2 s4))"
    using h2 by (auto simp: s4 intro: half_ok_cong)
  have b4: "dec_tgtaddrbase s4 = (next_out s4, - int (unat (dec_cpylen s4)))" using f(3) s4 by simp
  have x2': "vcd_exec is2 (segment file s4 @ target s4, sec_buf (data_sect s4)) = Some (U', d')"
    using x2 o1(3) t3 g3 t4 g4 s4 by simp
  obtain bs2 src2 k2 where o2: "unat (h_type k2) = XD3_NOOP" "length bs2 = n2"
    "U' = segment file s4 @ target s4 @ bs2" "feeds file (s4\<lparr>src := src2\<rparr>)" "refetched s4 src2"
    "output_loop dec_current2 dec_current2_update s4 = ok (dec_current2_update (\<lambda>_. k2)
      (put bs2 (s4\<lparr>src := src2, data_sect := (data_sect s4)\<lparr>sec_buf := d'\<rparr>\<rparr>)))"
    using second.output_maybe [OF f4 h2' r4 b4 x2'] by auto
  define m5 where "m5 = s4\<lparr>src := src2, data_sect := (data_sect s4)\<lparr>sec_buf := d'\<rparr>\<rparr>"
  define s5 where "s5 = dec_current2_update (\<lambda>_. k2) (put bs2 m5)"
  have m5: "has_room m5 (length bs2)" "target m5 = target s4" "avail_out m5 = avail_out s4"
    using r4 o2(2) by (auto simp: m5_def has_room_def target_def out_mem_def)
  have t5: "target s5 = target s @ bs1 @ bs2" using target_put [OF m5(1)] m5(2) t4 by (simp add: s5_def)
  have g5: "segment file s5 = segment file s" by (simp add: segment_def s5_def m5_def s4_def m4_def s3)
  have "unat (avail_out (put bs1 m4)) = unat (avail_out s) + n1"
    using unat_avail_put [OF has_room_mono [OF m4(1)]] o1(2) by (simp add: m4_def s3)
  then have av5: "unat (avail_out s5) = unat (avail_out s) + n1 + n2"
    using unat_avail_put [OF m5(1)] o2(2) m5(3) by (simp add: s5_def s4_def)
  have pq: "parse_of s5 = q"
  proof -
    have "p_pos q < 2 ^ 32" using q(2) unat_less_u32 [of "dec_maxpos s"] by simp
    then have "parse_of s3 = q" unfolding s3_def by (rule parse_of_advance)
    then show ?thesis by (simp add: parse_of_def s5_def m5_def s4_def m4_def)
  qed
  have "map_option length (blocks s5 b) = map_option length (blocks s b)" for b
    using put_lengths [OF m5(1)] put_lengths [OF has_room_mono [OF m4(1)]]
    by (simp add: s5_def) (simp add: m5_def s4_def, simp add: m4_def s3)
  moreover have "refetched s (src s5)"
  proof (rule refetched_trans)
    show "refetched s (src s4)" using o1(5) by (simp add: refetched_def s4_def m4_def s3)
    show "refetched s4 (src s5)" using o2(5) by (simp add: s5_def m5_def)
  qed (simp add: s4)
  ultimately have ctx: "same_setup s s5" by (simp add: same_setup_def s5_def m5_def s4_def m4_def s3)
  have pos5: "unat (dec_position s5) = p_pos q" using pq by (auto simp: parse_of_def)
  have "emitting file s5"
    unfolding emitting_def
  proof (intro conjI)
    show "feeds file s5" by (rule feeds_cong [OF o2(4)]) (simp_all add: s5_def m5_def)
    show "window_bounds s5"
      using f(2) ctx pos5 q by (simp add: window_bounds_def same_setup_def)
    show "both_idle s5" using o1(1) o2(1) by (simp add: both_idle_def s5_def m5_def s4)
    show "dec_tgtaddrbase s5 = (next_out s5, - int (unat (dec_cpylen s5)))"
      using f(3) s4 by (simp add: s5_def m5_def)
    show "unat (dec_position s5) = unat (dec_cpylen s5) + unat (avail_out s5)"
      using pos5 q(1) f(4) av5 ctx by (simp add: same_setup_def)
    show "256 \<le> length (code_table s5)" using f(6) ctx by (simp add: same_setup_def)
    have "has_room s (length (bs1 @ bs2) + (unat (dec_maxpos s) - p_pos q))"
      using f(5) by (rule has_room_mono) (use q o1(2) o2(2) in simp)
    then have "has_room m4 (length bs1 + (length bs2 + (unat (dec_maxpos s) - p_pos q)))"
      by (simp add: m4_def s3 has_room_def add.assoc)
    from put_room [OF this] have "has_room s4 (length bs2 + (unat (dec_maxpos s) - p_pos q))"
      by (simp add: s4_def)
    then have "has_room m5 (length bs2 + (unat (dec_maxpos s) - p_pos q))" by (simp add: m5_def has_room_def)
    from put_room [OF this] show "has_room s5 (unat (dec_maxpos s5) - unat (dec_position s5))"
      using pos5 ctx by (simp add: s5_def same_setup_def)
  qed
  moreover have "sec_buf (data_sect s5) = d'" by (simp add: s5_def m5_def)
  moreover have "segment file s5 @ target s5 = U'" using o2(3) g4 g5 t4 t5 by simp
  moreover have "and_then (output_loop dec_current1 dec_current1_update s3)
      (output_loop dec_current2 dec_current2_update) = ok s5"
    using o1(6) o2(6) by (simp add: m4_def [symmetric] s4_def [symmetric] m5_def [symmetric] s5_def [symmetric])
  ultimately show ?thesis using pq ctx unfolding s3_def by blast
qed

section \<open>The loop\<close>

lemma and_then_assoc: "and_then (and_then p f) g = and_then p (\<lambda>s. and_then (f s) g)"
  by (cases p) (auto simp: and_then_def split: prod.splits)

lemma emit_loop_step:
  assumes "sec_buf (inst_sect s) \<noteq> []" "both_idle s" "xd3_decode_instruction s = ok s1"
    and "and_then (output_loop dec_current1 dec_current1_update s1)
      (output_loop dec_current2 dec_current2_update) = ok s2"
  shows "emit_loop s = emit_loop s2"
proof -
  have "emit_loop s = and_then (and_then (output_loop dec_current1 dec_current1_update s1)
      (output_loop dec_current2 dec_current2_update)) emit_loop"
    using assms(1-3) by (subst emit_loop.simps) (simp add: and_then_assoc)
  then show ?thesis using assms(4) by simp
qed

lemma emit_loop_sim:
  assumes "vcd_parses table seg maxpos p is p'"
  shows "p = parse_of s \<Longrightarrow> table = code_table s \<Longrightarrow> seg = unat (dec_cpylen s) \<Longrightarrow>
    maxpos = unat (dec_maxpos s) \<Longrightarrow> emitting file s \<Longrightarrow>
    vcd_exec is (segment file s @ target s, sec_buf (data_sect s)) = Some (U', d') \<Longrightarrow>
    \<exists>s'. emit_loop s = ok s' \<and> emitting file s' \<and> parse_of s' = p' \<and> same_setup s s' \<and>
      sec_buf (data_sect s') = d' \<and> segment file s' @ target s' = U'"
  using assms
proof (induction arbitrary: s rule: vcd_parses.induct)
  case (parses_end p)
  then have "emit_loop s = ok s"
    by (subst emit_loop.simps) (simp add: parse_of_def emitting_def)
  then show ?case using parses_end by (intro exI [of _ s]) (simp add: same_setup_def refetched_same)
next
  case (parses_op p b rest is1 p1 is2 p2 "is" p')
  note prems = parses_op.prems
  have b: "sec_buf (inst_sect s) = b # rest" using parses_op.hyps(1) prems(1) by (simp add: parse_of_def)
  obtain h1 n1 h2 n2 where i:
    "unat (h_type h1) = XD3_NOOP \<and> is1 = [] \<and> n1 = 0 \<or>
     half_ok s h1 \<and> is1 = [half_means h1] \<and> n1 = unat (h_size h1)"
    "unat (h_type h2) = XD3_NOOP \<and> is2 = [] \<and> n2 = 0 \<or>
     half_ok s h2 \<and> is2 = [half_means h2] \<and> n2 = unat (h_size h2)"
    "p_pos p2 = unat (dec_position s) + n1 + n2" "p_pos p2 \<le> unat (dec_maxpos s)"
    "xd3_decode_instruction s = ok (advance p2 (s\<lparr>dec_current1 := h1, dec_current2 := h2\<rparr>))"
    using instruction_sim [OF _ _ b, of is1 p1 is2 p2] parses_op.hyps(2,3) prems(1-5) by (auto simp: emitting_def)
  obtain U1 d1 where x: "vcd_exec (is1 @ is2) (segment file s @ target s, sec_buf (data_sect s)) = Some (U1, d1)"
    "vcd_exec is (U1, d1) = Some (U', d')"
    using prems(6) by (auto simp: vcd_exec_append split: option.splits)
  obtain s5 where s5: "and_then (output_loop dec_current1 dec_current1_update
        (advance p2 (s\<lparr>dec_current1 := h1, dec_current2 := h2\<rparr>)))
      (output_loop dec_current2 dec_current2_update) = ok s5"
    "emitting file s5" "parse_of s5 = p2" "same_setup s s5" "sec_buf (data_sect s5) = d1"
    "segment file s5 @ target s5 = U1"
    using halves_sim [OF prems(5) i(3,4,1,2) x(1)] by blast
  have "sec_buf (inst_sect s) \<noteq> []" "both_idle s" using b prems(5) by (simp_all add: emitting_def)
  then have loop: "emit_loop s = emit_loop s5" by (rule emit_loop_step [OF _ _ i(5) s5(1)])
  have "\<exists>s'. emit_loop s5 = ok s' \<and> emitting file s' \<and> parse_of s' = p' \<and> same_setup s5 s' \<and>
      sec_buf (data_sect s') = d' \<and> segment file s' @ target s' = U'"
    by (rule parses_op.IH) (use s5 x(2) prems(2-4) in \<open>simp_all add: same_setup_def\<close>)
  then show ?case using loop same_setup_trans [OF s5(4)] by auto
qed

text \<open>The start of a window: nothing written, both halves idle, room for the whole target.\<close>

definition window_start :: "bytes \<Rightarrow> xd3_stream \<Rightarrow> bool" where
  "window_start file s \<longleftrightarrow> feeds file s \<and> both_idle s \<and> avail_out s = 0 \<and>
     dec_position s = dec_cpylen s \<and> dec_maxpos s = dec_cpylen s + dec_tgtlen s \<and>
     unat (dec_cpylen s) + unat (dec_tgtlen s) < 2 ^ 32 \<and> dec_tgtlen s \<le> XD3_HARDMAXWINSIZE \<and>
     dec_tgtaddrbase s = (next_out s, - int (unat (dec_cpylen s))) \<and>
     has_room s (unat (dec_tgtlen s)) \<and> 256 \<le> length (code_table s)"

lemma window_start_emitting:
  assumes "window_start file s"
  shows "emitting file s" and "target s = []" and "unat (dec_maxpos s) = unat (dec_cpylen s) + unat (dec_tgtlen s)"
proof -
  have m: "unat (dec_maxpos s) = unat (dec_cpylen s) + unat (dec_tgtlen s)"
    using assms by (simp add: window_start_def unat_add_u32)
  have "unat (dec_tgtlen s) \<le> 2 ^ 24"
    using assms by (simp add: window_start_def XD3_HARDMAXWINSIZE_def word_le_nat_alt)
  then show "emitting file s"
    using assms m by (simp add: window_start_def emitting_def window_bounds_def)
  show "target s = []" using assms by (simp add: window_start_def target_def)
  show "unat (dec_maxpos s) = unat (dec_cpylen s) + unat (dec_tgtlen s)" by (rule m)
qed

lemma window_bytes_cong:
  assumes "next_out s' = next_out s" "blocks s' = blocks s" "avail_out s' = avail_out s"
  shows "window_bytes s' = window_bytes s"
  unfolding window_bytes_def assms by (rule refl)

definition adler_checked :: "xd3_stream \<Rightarrow> bool" where
  "adler_checked s \<longleftrightarrow> dec_win_ind s AND VCD_ADLER32 \<noteq> 0 \<and> flags s AND XD3_ADLER32_NOVER = 0"

lemma parse_half_cache:
  "parse_half seg maxpos t sz p = Some (is, p') \<Longrightarrow>
   s_near (p_cache p') = s_near (p_cache p) \<and> s_same (p_cache p') = s_same (p_cache p)"
  by (auto simp: parse_half_def xd3_decode_address_def xd3_update_cache_def Let_def
      split: if_splits option.splits sum.splits prod.splits list.splits)

lemma parses_cache:
  "vcd_parses table seg maxpos p is p' \<Longrightarrow>
   s_near (p_cache p') = s_near (p_cache p) \<and> s_same (p_cache p') = s_same (p_cache p)"
  by (induction rule: vcd_parses.induct) (auto dest!: parse_half_cache)

text \<open>The loop on the sections of a window: they are used up and the window is in the buffer.\<close>

lemma emit_loop_window:
  assumes s: "window_start file s"
    and w: "vcd_window (code_table s) (acache s) (segment file s) (sec_buf (data_sect s))
      (sec_buf (inst_sect s)) (sec_buf (addr_sect s)) T"
    and len: "length T = unat (dec_tgtlen s)"
  obtains s1 where "emit_loop s = ok s1" "same_setup s s1" "emitting file s1" "sec_buf (data_sect s1) = []"
    "sec_buf (addr_sect s1) = []" "window_bytes s1 = Some T" "avail_out s1 = dec_tgtlen s1"
    "s_near (acache s1) = s_near (acache s)" "s_same (acache s1) = s_same (acache s)"
proof -
  note start = window_start_emitting [OF s]
  have seg: "length (segment file s) = unat (dec_cpylen s)"
    using s by (intro length_segment) (simp add: window_start_def)
  have pos: "unat (dec_position s) = unat (dec_cpylen s)" using s by (simp add: window_start_def)
  obtain "is" p' where p: "vcd_parses (code_table s) (unat (dec_cpylen s)) (unat (dec_maxpos s)) (parse_of s) is p'"
    "p_addr p' = []" "vcd_exec is (segment file s @ target s, sec_buf (data_sect s)) = Some (segment file s @ T, [])"
    using w unfolding vcd_window_def seg len start(2,3) by (auto simp: parse_of_def pos)
  obtain s1 where s1: "emit_loop s = ok s1" "emitting file s1" "parse_of s1 = p'" "same_setup s s1"
    "sec_buf (data_sect s1) = []" "segment file s1 @ target s1 = segment file s @ T"
    using emit_loop_sim [OF p(1) refl refl refl refl start(1) p(3)] by blast
  have g: "segment file s1 = segment file s"
    using s1(4) by (intro segment_cong) (simp_all add: same_setup_def)
  then have t: "target s1 = T" using s1(6) by simp
  have r: "has_room s1 0" using s1(2) by (auto simp: emitting_def intro: has_room_mono)
  then have av: "unat (avail_out s1) = length T" using length_target t by metis
  then have av': "avail_out s1 = dec_tgtlen s1"
    using len s1(4) by (simp add: same_setup_def word_unat_eq_iff)
  have addr: "sec_buf (addr_sect s1) = []" using p(2) s1(3) by (auto simp: parse_of_def)
  have wb: "window_bytes s1 = Some T"
    using r t by (auto simp: has_room_def window_bytes_def target_def out_mem_def)
  have "s_near (acache s1) = s_near (acache s)" "s_same (acache s1) = s_same (acache s)"
    using parses_cache [OF p(1)] s1(3) by (auto simp: parse_of_def)
  with that s1 addr wb av' show thesis by blast
qed

lemma decode_emit_window:
  assumes s: "window_start file s"
    and w: "vcd_window (code_table s) (acache s) (segment file s) (sec_buf (data_sect s))
      (sec_buf (inst_sect s)) (sec_buf (addr_sect s)) T"
    and len: "length T = unat (dec_tgtlen s)"
  shows "\<exists>s'. window_bytes s' = Some T \<and> avail_out s' = dec_tgtlen s \<and>
    (if adler_checked s \<and> window_adler32 l T \<noteq> dec_adler32 s
     then xd3_decode_emit l s = fail XD3_INVALID_INPUT ''target window checksum mismatch'' s'
     else xd3_decode_emit l s = Some (XD3_OUTPUT, s') \<and> dec_state s' = DEC_FINISH)"
proof -
  obtain s1 where s1: "emit_loop s = ok s1" "same_setup s s1" "emitting file s1" "sec_buf (data_sect s1) = []"
    "sec_buf (addr_sect s1) = []" "window_bytes s1 = Some T" "avail_out s1 = dec_tgtlen s1"
    using emit_loop_window [OF assms] by blast
  let ?f = "s1\<lparr>dec_winbytes := 0, dec_state := DEC_FINISH,
         data_sect := (data_sect s1)\<lparr>sec_pos := 0\<rparr>, inst_sect := (inst_sect s1)\<lparr>sec_pos := 0\<rparr>,
         addr_sect := (addr_sect s1)\<lparr>sec_pos := 0\<rparr>\<rparr>"
  have chk: "adler_checked s1 = adler_checked s" "dec_adler32 s1 = dec_adler32 s" "dec_tgtlen s1 = dec_tgtlen s"
    using s1(2) by (simp_all add: same_setup_def adler_checked_def)
  show ?thesis
  proof (cases "adler_checked s \<and> window_adler32 l T \<noteq> dec_adler32 s")
    case True
    then have "dec_win_ind s1 AND VCD_ADLER32 \<noteq> 0" "flags s1 AND XD3_ADLER32_NOVER = 0"
      using chk(1) by (simp_all add: adler_checked_def)
    then have "xd3_decode_emit l s = fail XD3_INVALID_INPUT ''target window checksum mismatch'' s1"
      using s1 True chk by (simp add: xd3_decode_emit_def)
    then show ?thesis using True s1 chk by (intro exI [of _ s1]) simp
  next
    case False
    have "xd3_decode_emit l s = Some (XD3_OUTPUT, ?f)"
    proof (cases "adler_checked s1")
      case True
      then have "dec_win_ind s1 AND VCD_ADLER32 \<noteq> 0" "flags s1 AND XD3_ADLER32_NOVER = 0"
        by (simp_all add: adler_checked_def)
      then show ?thesis
        using s1 False chk True by (simp add: xd3_decode_emit_def xd3_decode_finish_window_def)
    next
      case no: False
      then have "\<not> (dec_win_ind s1 AND VCD_ADLER32 \<noteq> 0 \<and> flags s1 AND XD3_ADLER32_NOVER = 0)"
        by (simp add: adler_checked_def)
      then show ?thesis
        using s1 by (auto simp: xd3_decode_emit_def xd3_decode_finish_window_def)
    qed
    moreover have "window_bytes ?f = window_bytes s1" by (rule window_bytes_cong) simp_all
    then have "window_bytes ?f = Some T" using s1 by simp
    ultimately show ?thesis using False s1 chk by (intro exI [of _ ?f]) auto
  qed
qed

section \<open>Properties\<close>

text \<open>A window of six bytes without a source: \<^verbatim>\<open>ab\<close> is added, then four bytes are copied from address 0.\<close>

definition sample_window :: xd3_stream where
  "sample_window =
     (zero_stream (xd3_init_config \<lparr>heap_alloc = (\<lambda>n k. None), heap_words = (\<lambda>k. None), heap_table = True\<rparr> 0)
        [0 \<mapsto> replicate 8 0] 1)\<lparr>
       code_table := xd3_rfc3284_code_table, next_out := Some 0, dec_buffer := Some 0, space_out := 8,
       dec_tgtlen := 6, dec_maxpos := 6, dec_tgtaddrbase := (Some 0, 0),
       data_sect := zero_sect\<lparr>sec_buf := [97, 98], sec_size := 2\<rparr>,
       inst_sect := zero_sect\<lparr>sec_buf := [3, 20], sec_size := 2\<rparr>,
       addr_sect := zero_sect\<lparr>sec_buf := [0], sec_size := 1\<rparr>\<rparr>"

lemma sample_window_start: "window_start [] sample_window"
  by (simp add: window_start_def sample_window_def zero_stream_def feeds_def both_idle_def zero_hinst_def
      XD3_NOOP_def XD3_HARDMAXWINSIZE_def has_room_def xd3_init_config_def rfc_table_entries out_mem_def)

lemma read_zero: "xd3_read_uint32_t [0] = Inr (0, [])"
  by code_simp

lemma sample_window_means:
  "vcd_window xd3_rfc3284_code_table ac [] [97, 98] [3, 20] [0] [97, 98, 97, 98, 97, 98]"
proof -
  let ?p = "\<lparr>p_pos = 0, p_cache = ac, p_inst = [3, 20], p_addr = [0]\<rparr>"
  let ?q = "\<lparr>p_pos = 6, p_cache = xd3_update_cache (ac) 0, p_inst = [], p_addr = []\<rparr>"
  let ?m = "?p\<lparr>p_pos := 2, p_inst := [20]\<rparr>"
  have "vcd_parses xd3_rfc3284_code_table 0 6 ?m ([Copy 0 4] @ [] @ []) ?q"
    by (rule parses_op [where b = 20 and rest = "[]" and ?p1.0 = ?q and ?p2.0 = ?q])
      (simp_all add: rfc_table_nth rfc_entry_def single_inst_def parse_half_def parse_size_def inst_types
        xd3_decode_address_def read_zero VCD_SELF_def parses_end)
  then have "vcd_parses xd3_rfc3284_code_table 0 6 ?p ([Add 2] @ [] @ [Copy 0 4] @ [] @ []) ?q"
    by (intro parses_op [where b = 3 and rest = "[20]" and ?p1.0 = ?m and ?p2.0 = ?m and
          ?is1.0 = "[Add 2]" and ?is2.0 = "[]" and ?is = "[Copy 0 4] @ [] @ []"])
      (simp_all add: rfc_table_nth rfc_entry_def single_inst_def parse_half_def parse_size_def inst_types)
  moreover have "vcd_exec [Add 2, Copy 0 4] ([], [97, 98]) = Some ([97, 98, 97, 98, 97, 98], [])"
    by (simp add: eval_nat_numeral)
  ultimately show ?thesis
    unfolding vcd_window_def by (intro exI [of _ "[Add 2, Copy 0 4]"] exI [of _ ?q]) (simp add: eval_nat_numeral)
qed

text \<open>C5: Decoding a window does what VCDIFF says. When the sections encode the target window \<open>T\<close>
  over the source segment, \<^verbatim>\<open>xd3_decode_emit\<close> leaves exactly \<open>T\<close> in the output buffer and returns
  \<^verbatim>\<open>XD3_OUTPUT\<close>; the one way it can fail is a checksum in the patch that is not the one of \<open>T\<close>.
  The loop ends, no block of the source is asked for outside the copy window, and no byte is
  written outside the buffer.\<close>

theorem decode_emit_is_vcdiff:
  assumes "window_start file s"
    and "vcd_window (code_table s) (acache s) (segment file s) (sec_buf (data_sect s))
      (sec_buf (inst_sect s)) (sec_buf (addr_sect s)) T"
    and "length T = unat (dec_tgtlen s)"
  shows "\<exists>s'. window_bytes s' = Some T \<and> avail_out s' = dec_tgtlen s \<and>
    (if adler_checked s \<and> window_adler32 l T \<noteq> dec_adler32 s
     then xd3_decode_emit l s = fail XD3_INVALID_INPUT ''target window checksum mismatch'' s'
     else xd3_decode_emit l s = Some (XD3_OUTPUT, s') \<and> dec_state s' = DEC_FINISH)"
  by (rule decode_emit_window [OF assms])

theorem decode_emit_is_vcdiff_witness:
  "\<exists>s'. xd3_decode_emit TYPE(32) sample_window = Some (XD3_OUTPUT, s') \<and> dec_state s' = DEC_FINISH \<and>
     window_bytes s' = Some [97, 98, 97, 98, 97, 98]"
proof -
  have "segment [] sample_window = []" by (simp add: segment_def)
  then have "vcd_window (code_table sample_window) (acache sample_window) (segment [] sample_window)
      (sec_buf (data_sect sample_window)) (sec_buf (inst_sect sample_window))
      (sec_buf (addr_sect sample_window)) [97, 98, 97, 98, 97, 98]"
    using sample_window_means by (simp add: sample_window_def)
  from decode_emit_is_vcdiff [OF sample_window_start this, of "TYPE(32)"] show ?thesis
    by (auto simp: adler_checked_def sample_window_def zero_stream_def)
qed

end
