(* ===== verification/Encode.thy ===== *)
theory Encode
  imports Encoder Emit
begin

text \<open>
  What the encoder writes means the window it was given: the instructions, written one by
  one with the last one waiting in \<^verbatim>\<open>iout\<close>, parse and execute (\<open>Vcdiff\<close>) to the input.
\<close>

section \<open>Parsing what is appended\<close>

text \<open>A parse of a section goes the same way when bytes follow it.\<close>

lemma read_append:
  "xd3_read_uint32_t bs = Inr (v, rest) \<Longrightarrow> xd3_read_uint32_t (bs @ X) = Inr (v, rest @ X)"
  by (auto simp: xd3_read_uint32_t_def UINT32_OFLOW_MASK_eq read_integer_iff)

lemma decode_address_append:
  "xd3_decode_address ac here mode bs = Some (Inr (a, ac', rest)) \<Longrightarrow>
   xd3_decode_address ac here mode (bs @ X) = Some (Inr (a, ac', rest @ X))"
  by (auto simp: xd3_decode_address_def Let_def read_append split: sum.splits if_splits list.splits)

definition followed_by :: "bytes \<Rightarrow> bytes \<Rightarrow> vcd_parse \<Rightarrow> vcd_parse" where
  "followed_by X Y p = p\<lparr>p_inst := p_inst p @ X, p_addr := p_addr p @ Y\<rparr>"

lemma followed_by_fields [simp]:
  "p_inst (followed_by X Y p) = p_inst p @ X" "p_addr (followed_by X Y p) = p_addr p @ Y"
  "p_pos (followed_by X Y p) = p_pos p" "p_cache (followed_by X Y p) = p_cache p"
  by (simp_all add: followed_by_def)

lemma followed_by_upd [simp]:
  "(followed_by X Y p)\<lparr>p_pos := n\<rparr> = followed_by X Y (p\<lparr>p_pos := n\<rparr>)"
  "(followed_by X Y p)\<lparr>p_inst := as @ X\<rparr> = followed_by X Y (p\<lparr>p_inst := as\<rparr>)"
  "(followed_by X Y p)\<lparr>p_addr := as @ Y\<rparr> = followed_by X Y (p\<lparr>p_addr := as\<rparr>)"
  "(followed_by X Y p)\<lparr>p_cache := ac\<rparr> = followed_by X Y (p\<lparr>p_cache := ac\<rparr>)"
  by (simp_all add: followed_by_def)

lemma parse_size_append:
  "parse_size sz inst = Some (n, rest) \<Longrightarrow> parse_size sz (inst @ X) = Some (n, rest @ X)"
  by (auto simp: parse_size_def read_append split: if_splits sum.splits)

lemma parse_half_append:
  assumes "parse_half seg maxpos t sz p = Some (is, q)"
  shows "parse_half seg maxpos t sz (followed_by X Y p) = Some (is, followed_by X Y q)"
proof (cases "unat t = XD3_NOOP")
  case False
  then obtain n inst where s: "parse_size sz (p_inst p) = Some (n, inst)"
    using assms by (auto simp: parse_half_def split: option.splits)
  show ?thesis
    using assms False by (auto simp: parse_half_def s parse_size_append [OF s] decode_address_append
        split: if_splits option.splits sum.splits prod.splits)
qed (use assms in \<open>simp add: parse_half_def\<close>)

lemma parses_append:
  "vcd_parses table seg maxpos p is q \<Longrightarrow> vcd_parses table seg maxpos (followed_by X Y q) js r \<Longrightarrow>
   vcd_parses table seg maxpos (followed_by X Y p) (is @ js) r"
proof (induction rule: vcd_parses.induct)
  case (parses_op p b rest is1 p1 is2 p2 "is" q)
  have "vcd_parses table seg maxpos (followed_by X Y p) (is1 @ is2 @ (is @ js)) r"
  proof (rule vcd_parses.parses_op [where b = b and rest = "rest @ X"])
    show "p_inst (followed_by X Y p) = b # rest @ X" using parses_op.hyps(1) by simp
    show "parse_half seg maxpos (type1 (table ! unat b)) (size1 (table ! unat b))
        ((followed_by X Y p)\<lparr>p_inst := rest @ X\<rparr>) = Some (is1, followed_by X Y p1)"
      using parse_half_append [OF parses_op.hyps(2)] by simp
    show "parse_half seg maxpos (type2 (table ! unat b)) (size2 (table ! unat b)) (followed_by X Y p1) =
        Some (is2, followed_by X Y p2)"
      by (rule parse_half_append [OF parses_op.hyps(3)])
    show "vcd_parses table seg maxpos (followed_by X Y p2) (is @ js) r"
      using parses_op by blast
  qed
  then show ?case by simp
qed simp

lemma parses_end_empty: "vcd_parses table seg maxpos p is q \<Longrightarrow> p_inst q = []"
  by (induction rule: vcd_parses.induct) simp_all

lemma exec1_append:
  "vcd_exec1 i (U, d) = Some (U', d') \<Longrightarrow> vcd_exec1 i (U, d @ Y) = Some (U', d' @ Y)"
  by (cases i) (auto split: if_splits list.splits)

lemma exec_append_data:
  "vcd_exec is (U, d) = Some (U', d') \<Longrightarrow> vcd_exec is (U, d @ Y) = Some (U', d' @ Y)"
proof (induction "is" "(U, d)" arbitrary: U d rule: vcd_exec.induct)
  case (2 i "is" U d)
  then obtain U1 d1 where 1: "vcd_exec1 i (U, d) = Some (U1, d1)" "vcd_exec is (U1, d1) = Some (U', d')"
    by (auto split: option.splits)
  then show ?case using 2(1) [OF 1(1)] exec1_append [OF 1(1)] by simp
qed simp

section \<open>Instructions that are matches\<close>

text \<open>
  What the matcher promises of an instruction for the input \<open>T\<close> and the source \<open>sfile\<close>: the
  bytes it stands for are the bytes at its position.
\<close>

definition true_match :: "bytes \<Rightarrow> bytes \<Rightarrow> xd3_rinst \<Rightarrow> bool" where
  "true_match sfile T r \<longleftrightarrow>
     unat (r_pos r) + unat (r_size r) \<le> length T \<and> MIN_MATCH \<le> unat (r_size r) \<and>
     (if unat (r_type r) = XD3_RUN
      then list_all (\<lambda>b. b = r_xtra r) (take (unat (r_size r)) (drop (unat (r_pos r)) T))
      else unat (r_type r) = XD3_CPY \<and>
        (if r_xtra r \<noteq> 0
         then unat (r_addr r) + unat (r_size r) \<le> length sfile \<and> unat (r_addr r) + unat (r_size r) < 2 ^ 64 \<and>
              take (unat (r_size r)) (drop (unat (r_addr r)) sfile) =
                take (unat (r_size r)) (drop (unat (r_pos r)) T)
         else unat (r_addr r) < unat (r_pos r) \<and>
              take (unat (r_size r)) (drop (unat (r_addr r)) T) =
                take (unat (r_size r)) (drop (unat (r_pos r)) T)))"

text \<open>A source copy lies in the source window, as it is or as \<^verbatim>\<open>xd3_srcwin_setup\<close> will set it.\<close>

definition in_source_window :: "xd3_encoder \<Rightarrow> xd3_rinst \<Rightarrow> bool" where
  "in_source_window e r \<longleftrightarrow>
     unat (r_type r) = XD3_CPY \<and> r_xtra r \<noteq> 0 \<longrightarrow>
       (case e_src e of
          None \<Rightarrow> False
        | Some s \<Rightarrow>
            (if srcwin_decided e
             then unat (srcbase s) \<le> unat (r_addr r) \<and>
                  unat (r_addr r) + unat (r_size r) \<le> unat (srcbase s) + unat (srclen s)
             else unat (match_minaddr e) \<le> unat (r_addr r) \<and>
                  unat (r_addr r) + unat (r_size r) \<le> unat (match_maxaddr e)))"

text \<open>The source segment of the window; before it is decided, any string can be it.\<close>

definition source_segment :: "bytes \<Rightarrow> xd3_encoder \<Rightarrow> bytes \<Rightarrow> bool" where
  "source_segment sfile e S \<longleftrightarrow>
     (case e_src e of
        None \<Rightarrow> S = [] \<and> taroff e = 0
      | Some s \<Rightarrow>
          (srcwin_decided e \<longrightarrow>
             S = take (unat (srclen s)) (drop (unat (srcbase s)) sfile) \<and> length S = unat (srclen s) \<and>
             taroff e = srclen s))"

lemma copied_matches:
  assumes "a < k" "k + n \<le> length W" "take n (drop a W) = take n (drop k W)"
  shows "copied n a (take k W) = take n (drop k W)"
  using assms
proof (induction n arbitrary: a k)
  case (Suc n)
  have a: "drop a W = W ! a # drop (Suc a) W" and k: "drop k W = W ! k # drop (Suc k) W"
    using Suc.prems by (simp_all add: Cons_nth_drop_Suc)
  have "take k W @ [W ! a] = take (Suc k) W"
    using Suc.prems a k by (simp add: take_Suc_conv_app_nth)
  then show ?case
    using Suc.IH [of "Suc a" "Suc k"] Suc.prems a k by (simp add: nth_append)
qed simp

section \<open>The instruction that waits\<close>

text \<open>Data and address are written; the opcode is not. \<open>a\<close> is its part of the address section.\<close>

definition waits ::
    "nat \<Rightarrow> nat \<Rightarrow> xd3_rinst \<Rightarrow> vcd_inst \<Rightarrow> bytes \<Rightarrow> nat \<Rightarrow> xd3_addr_cache \<Rightarrow> xd3_addr_cache \<Rightarrow> bool" where
  "waits seg maxpos r i a pos c c' \<longleftrightarrow>
     pos + unat (r_size r) \<le> maxpos \<and>
     (if unat (r_type r) = XD3_ADD then i = Add (unat (r_size r)) \<and> a = [] \<and> c' = c
      else if unat (r_type r) = XD3_RUN then i = Run (unat (r_size r)) \<and> a = [] \<and> c' = c
      else unat (r_type r) \<ge> XD3_CPY \<and>
        (\<exists>x. i = Copy (unat x) (unat (r_size r)) \<and> unat x < pos \<and>
           (unat x < seg \<longrightarrow> unat x + unat (r_size r) \<le> seg) \<and>
           (\<forall>Y. xd3_decode_address c (of_nat pos) (unat (r_type r) - XD3_CPY) (a @ Y) = Some (Inr (x, c', Y)))))"

lemma waits_parse:
  assumes "waits seg maxpos r i a pos c c'" "parse_size sz X = Some (unat (r_size r), X')"
  shows "parse_half seg maxpos (r_type r) sz \<lparr>p_pos = pos, p_cache = c, p_inst = X, p_addr = a @ Y\<rparr> =
    Some ([i], \<lparr>p_pos = pos + unat (r_size r), p_cache = c', p_inst = X', p_addr = Y\<rparr>)"
  using assms by (auto simp: waits_def parse_half_def inst_types split: if_splits)

text \<open>The bytes of an opcode alone.\<close>

definition single_bytes :: "xd3_dinst list \<Rightarrow> xd3_rinst \<Rightarrow> bytes" where
  "single_bytes table r =
     r_code1 r # (if size1 (table ! unat (r_code1 r)) = 0 then integer_bytes (r_size r) else [])"

lemma parse_size_single:
  assumes "size1 (table ! unat (r_code1 r)) = 0 \<or> unat (size1 (table ! unat (r_code1 r))) = unat (r_size r)"
  shows "parse_size (size1 (table ! unat (r_code1 r)))
     ((if size1 (table ! unat (r_code1 r)) = 0 then integer_bytes (r_size r) else []) @ X) =
     Some (unat (r_size r), X)"
  using assms u32_code.dec_enc [of "r_size r" X] by (auto simp: parse_size_def)

text \<open>Types and sizes of a table entry that codes an instruction.\<close>

lemma valid_inst_type: "valid_inst r \<Longrightarrow> unat (r_type r) < 256 \<and> unat (r_type r) \<noteq> XD3_NOOP"
  by (auto simp: valid_inst_def valid_type_def inst_types)

lemma codes_single_fields:
  assumes "codes_single table c r"
  shows "type1 (table ! unat c) = r_type r" "unat (type2 (table ! unat c)) = XD3_NOOP"
    "size1 (table ! unat c) = 0 \<or> unat (size1 (table ! unat c)) = unat (r_size r)"
  using assms
  by (auto simp: codes_single_def single_inst_def XD3_NOOP_def unsigned_ucast_eq take_bit_nat_eq_self)

lemma codes_double_fields:
  assumes "codes_double table c r s"
  shows "type1 (table ! unat c) = r_type r" "type2 (table ! unat c) = r_type s"
    "unat (size1 (table ! unat c)) = unat (r_size r)" "unat (size2 (table ! unat c)) = unat (r_size s)"
  using assms
  by (auto simp: codes_double_def double_inst_def unsigned_ucast_eq take_bit_nat_eq_self)

lemma parses_single:
  assumes w: "waits seg maxpos r i a pos c c'" and k: "codes_single table (r_code1 r) r"
  shows "vcd_parses table seg maxpos
    \<lparr>p_pos = pos, p_cache = c, p_inst = single_bytes table r, p_addr = a\<rparr> [i]
    \<lparr>p_pos = pos + unat (r_size r), p_cache = c', p_inst = [], p_addr = []\<rparr>"
proof -
  note f = codes_single_fields [OF k]
  let ?q = "\<lparr>p_pos = pos + unat (r_size r), p_cache = c', p_inst = [], p_addr = []\<rparr>"
  have s: "parse_size (size1 (table ! unat (r_code1 r))) (tl (single_bytes table r)) = Some (unat (r_size r), [])"
    using parse_size_single [OF f(3), of "[]"] by (simp add: single_bytes_def)
  have "vcd_parses table seg maxpos
    \<lparr>p_pos = pos, p_cache = c, p_inst = single_bytes table r, p_addr = a\<rparr> ([i] @ [] @ []) ?q"
  proof (rule vcd_parses.parses_op [where b = "r_code1 r" and rest = "tl (single_bytes table r)" and ?p1.0 = ?q and ?p2.0 = ?q])
    show "parse_half seg maxpos (type1 (table ! unat (r_code1 r))) (size1 (table ! unat (r_code1 r)))
       (\<lparr>p_pos = pos, p_cache = c, p_inst = single_bytes table r, p_addr = a\<rparr>
         \<lparr>p_inst := tl (single_bytes table r)\<rparr>) = Some ([i], ?q)"
      using waits_parse [OF w s, of "[]"] by (simp add: f(1))
    show "parse_half seg maxpos (type2 (table ! unat (r_code1 r))) (size2 (table ! unat (r_code1 r))) ?q =
       Some ([], ?q)"
      using f(2) by (simp add: parse_half_def)
  qed (simp_all add: single_bytes_def vcd_parses.parses_end)
  then show ?thesis by simp
qed

lemma parses_double:
  assumes w: "waits seg maxpos r i a pos c c'" and w': "waits seg maxpos s j a' (pos + unat (r_size r)) c' c''"
    and k: "codes_double table d r s" and pos: "0 < unat (r_size r)" "0 < unat (r_size s)"
  shows "vcd_parses table seg maxpos
    \<lparr>p_pos = pos, p_cache = c, p_inst = [d], p_addr = a @ a'\<rparr> [i, j]
    \<lparr>p_pos = pos + unat (r_size r) + unat (r_size s), p_cache = c'', p_inst = [], p_addr = []\<rparr>"
proof -
  note f = codes_double_fields [OF k]
  let ?p = "\<lparr>p_pos = pos + unat (r_size r), p_cache = c', p_inst = [], p_addr = a' @ []\<rparr>"
  let ?q = "\<lparr>p_pos = pos + unat (r_size r) + unat (r_size s), p_cache = c'', p_inst = [], p_addr = []\<rparr>"
  have s: "parse_size (size1 (table ! unat d)) [] = Some (unat (r_size r), [])"
    "parse_size (size2 (table ! unat d)) [] = Some (unat (r_size s), [])"
    using f(3,4) pos by (auto simp: parse_size_def unat_eq_0)
  have "vcd_parses table seg maxpos
    \<lparr>p_pos = pos, p_cache = c, p_inst = [d], p_addr = a @ a'\<rparr> ([i] @ [j] @ []) ?q"
    by (rule vcd_parses.parses_op [where b = d and rest = "[]" and ?p1.0 = ?p and ?p2.0 = ?q])
      (use waits_parse [OF w s(1), of a'] waits_parse [OF w' s(2), of "[]"] in
        \<open>simp_all add: f vcd_parses.parses_end\<close>)
  then show ?thesis by simp
qed

section \<open>Deciding the source window\<close>

text \<open>The encoder's state apart from its source window and its statistics.\<close>

definition same_output :: "xd3_encoder \<Rightarrow> xd3_encoder \<Rightarrow> bool" where
  "same_output e e' \<longleftrightarrow> e_mem e' = e_mem e \<and> hdr_sec e' = hdr_sec e \<and> data_sec e' = data_sec e \<and>
     inst_sec e' = inst_sec e \<and> addr_sec e' = addr_sec e \<and> e_acache e' = e_acache e \<and>
     e_table e' = e_table e \<and> e_next_in e' = e_next_in e \<and> unencoded_offset e' = unencoded_offset e \<and>
     iout e' = iout e"

lemma same_output_count [simp]: "same_output e (count_stat n l sz e') = same_output e e'"
  by (simp add: same_output_def count_stat_def)

lemma count_stat_source [simp]:
  "source_segment sfile (count_stat n l sz e) S = source_segment sfile e S"
  "in_source_window (count_stat n l sz e) r = in_source_window e r"
  "e_src (count_stat n l sz e) = e_src e" "taroff (count_stat n l sz e) = taroff e"
  "srcwin_decided (count_stat n l sz e) = srcwin_decided e"
  by (simp_all add: source_segment_def in_source_window_def count_stat_def cong: option.case_cong)

lemma unat_minus_le_diff: "unat (a :: u64) \<le> unat b \<Longrightarrow> unat (b - a) = unat b - unat a"
  by (rule unat_sub_le) (simp add: word_le_nat_alt)

lemma ucast_span:
  assumes "\<not> (span :: u64) > ucast (- 1 :: u32)"
  shows "unat (ucast span :: u32) = unat span"
proof -
  have "unat span \<le> unat (ucast (- 1 :: u32) :: u64)" using assms by (simp add: word_le_nat_alt not_less)
  also have "(ucast (- 1 :: u32) :: u64) = 0xFFFFFFFF" by code_simp
  finally show ?thesis by (simp add: unsigned_ucast_eq take_bit_nat_eq_self)
qed

lemma srcwin_setup_window:
  assumes s: "xd3_srcwin_setup e = Inr e'" and src: "e_src e = Some s0" and u: "\<not> srcwin_decided e"
  shows "same_output e e'" and "srcwin_decided e'" and "\<exists>s. e_src e' = Some s \<and> taroff e' = srclen s"
    and "in_source_window e r \<Longrightarrow> 0 < unat (r_size r) \<Longrightarrow> in_source_window e' r"
proof -
  let ?span = "match_maxaddr e - match_minaddr e"
  consider (none) "match_maxaddr e = 0" "e' = e\<lparr>srcwin_decided := True, taroff := srclen s0\<rparr>"
    | (some) len where "\<not> ?span > ucast (- 1 :: u32)" "unat len \<ge> unat (ucast ?span :: u32)"
        "e' = e\<lparr>srcwin_decided := True, e_src := Some (s0\<lparr>srcbase := match_minaddr e, srclen := len\<rparr>), taroff := len\<rparr>"
    using s src by (auto simp: xd3_srcwin_setup_def Let_def word_le_nat_alt max_def not_le split: if_splits)
  then have "same_output e e' \<and> srcwin_decided e' \<and> (\<exists>s. e_src e' = Some s \<and> taroff e' = srclen s) \<and>
    (in_source_window e r \<longrightarrow> 0 < unat (r_size r) \<longrightarrow> in_source_window e' r)"
  proof cases
    case none
    then show ?thesis using src u by (auto simp: same_output_def in_source_window_def)
  next
    case some
    have span: "unat (match_maxaddr e) \<le> unat (match_minaddr e) + unat len"
      if "unat (match_minaddr e) \<le> unat (match_maxaddr e)"
      using some(2) ucast_span [OF some(1)] unat_minus_le_diff [OF that] by linarith
    show ?thesis using some(3) src u span by (auto simp: same_output_def in_source_window_def)
  qed
  then show "same_output e e'" "srcwin_decided e'" "\<exists>s. e_src e' = Some s \<and> taroff e' = srclen s"
    "in_source_window e r \<Longrightarrow> 0 < unat (r_size r) \<Longrightarrow> in_source_window e' r" by blast+
qed

text \<open>The address of a copy, as the decoder will see it.\<close>

lemma copy_address_cases:
  assumes "copy_address inst e = Inr (x, e')"
  obtains (none) "e_src e = None" "x = ucast (r_addr inst)"
      "e' = count_stat n_tcpy_update l_tcpy_update (r_size inst) e"
  | (decided) n l flag where "e_src e \<noteq> None" "srcwin_decided e" "e' = count_stat n l (r_size inst) (e\<lparr>srcwin_decided_early := flag\<rparr>)"
      "x = (if r_xtra inst \<noteq> 0 then ucast (r_addr inst - srcbase (the (e_src e'))) else taroff e' + ucast (r_addr inst))"
  | (fresh) n l e1 where "e_src e \<noteq> None" "\<not> srcwin_decided e" "xd3_srcwin_setup e = Inr e1" "e' = count_stat n l (r_size inst) e1"
      "x = (if r_xtra inst \<noteq> 0 then ucast (r_addr inst - srcbase (the (e_src e'))) else taroff e' + ucast (r_addr inst))"
proof (cases "e_src e")
  case None
  then show thesis using assms none by (simp add: copy_address_def)
next
  case (Some s)
  show thesis
  proof (cases "srcwin_decided e")
    case True
    show thesis
      by (rule decided [where n = "if r_xtra inst \<noteq> 0 then n_scpy_update else n_tcpy_update" and
            l = "if r_xtra inst \<noteq> 0 then l_scpy_update else l_tcpy_update"])
        (use assms Some True in \<open>auto simp: copy_address_def split: if_splits\<close>)
  next
    case False
    then obtain e1 where e1: "xd3_srcwin_setup e = Inr e1"
      using assms Some by (auto simp: copy_address_def err_then_Inr)
    show thesis
      by (rule fresh [OF _ False e1, where n = "if r_xtra inst \<noteq> 0 then n_scpy_update else n_tcpy_update" and
            l = "if r_xtra inst \<noteq> 0 then l_scpy_update else l_tcpy_update"])
        (use assms Some False e1 in \<open>auto simp: copy_address_def split: if_splits\<close>)
  qed
qed

lemma early_fields [simp]:
  "same_output e (e'\<lparr>srcwin_decided_early := flag\<rparr>) = same_output e e'"
  "in_source_window (e'\<lparr>srcwin_decided_early := flag\<rparr>) r = in_source_window e' r"
  "source_segment sfile (e'\<lparr>srcwin_decided_early := flag\<rparr>) S = source_segment sfile e' S"
  by (simp_all add: same_output_def in_source_window_def source_segment_def cong: option.case_cong)

lemma same_output_refl [simp]: "same_output e e"
  by (simp add: same_output_def)

lemma copy_address_frame:
  assumes "copy_address inst e = Inr (x, e')"
  shows "same_output e e'" and "0 < unat (r_size r) \<Longrightarrow> in_source_window e r \<Longrightarrow> in_source_window e' r"
  using assms by (cases rule: copy_address_cases; auto intro: srcwin_setup_window)+

lemma unat_ucast_u64: "unat (w :: u64) < 2 ^ 32 \<Longrightarrow> unat (ucast w :: u32) = unat w"
  by (simp add: unsigned_ucast_eq take_bit_nat_eq_self)

lemma srcwin_setup_segment:
  assumes "xd3_srcwin_setup e = Inr e'" "e_src e = Some s0" "\<not> srcwin_decided e" "source_segment sfile e' S"
  shows "\<exists>s. e_src e' = Some s \<and> srcwin_decided e' \<and> taroff e' = srclen s \<and> length S = unat (srclen s) \<and>
    S = take (unat (srclen s)) (drop (unat (srcbase s)) sfile)"
  using srcwin_setup_window [OF assms(1-3)] assms(4) by (auto simp: source_segment_def)

lemma copy_address_segment:
  assumes c: "copy_address inst e = Inr (x, e')" and seg: "source_segment sfile e' S"
  obtains (none) "e_src e' = None" "S = []" "taroff e' = 0" "x = ucast (r_addr inst)"
  | (some) s where "e_src e' = Some s" "srcwin_decided e'" "taroff e' = srclen s" "length S = unat (srclen s)"
      "S = take (unat (srclen s)) (drop (unat (srcbase s)) sfile)"
      "x = (if r_xtra inst \<noteq> 0 then ucast (r_addr inst - srcbase s) else taroff e' + ucast (r_addr inst))"
  using c
proof (cases rule: copy_address_cases)
  case none
  then show thesis using seg that(1) by (simp add: source_segment_def)
next
  case decided
  from decided(1) obtain s where "e_src e = Some s" by blast
  with decided seg have f: "S = take (unat (srclen s)) (drop (unat (srcbase s)) sfile)"
    "length S = unat (srclen s)" "taroff e' = srclen s" "e_src e' = Some s" "srcwin_decided e'"
    unfolding source_segment_def by (auto simp: count_stat_def)
  show thesis
    by (rule that(2) [OF f(4,5,3,2,1)]) (use decided f(4) in simp)
next
  case (fresh n l e1)
  then obtain s0 where "e_src e = Some s0" by blast
  from srcwin_setup_segment [OF fresh(3) this fresh(2)] obtain s where
    "e_src e1 = Some s \<and> srcwin_decided e1 \<and> taroff e1 = srclen s \<and> length S = unat (srclen s) \<and>
      S = take (unat (srclen s)) (drop (unat (srcbase s)) sfile)"
    using seg fresh(4) by auto
  then have f: "e_src e' = Some s" "srcwin_decided e'" "taroff e' = srclen s" "length S = unat (srclen s)"
    "S = take (unat (srclen s)) (drop (unat (srcbase s)) sfile)"
    unfolding fresh(4) count_stat_source by blast+
  show thesis
    by (rule that(2) [OF f]) (use fresh f(1) in simp)
qed

lemma copy_address_value:
  assumes c: "copy_address inst e = Inr (x, e')" and m: "true_match sfile T inst" "unat (r_type inst) = XD3_CPY"
    and w: "in_source_window e inst" and seg: "source_segment sfile e' S" and len: "length S + length T < 2 ^ 32"
  shows "unat x < length S + unat (r_pos inst) \<and> (unat x < length S \<longrightarrow> unat x + unat (r_size inst) \<le> length S) \<and>
    take (unat (r_size inst)) (drop (unat x) (S @ T)) =
      take (unat (r_size inst)) (drop (length S + unat (r_pos inst)) (S @ T)) \<and>
    unat (taroff e') = length S"
proof -
  let ?n = "unat (r_size inst)" and ?a = "unat (r_addr inst)" and ?k = "unat (r_pos inst)"
  have n: "?k + ?n \<le> length T" "0 < ?n" using m by (simp_all add: true_match_def MIN_MATCH_def)
  have w': "in_source_window e' inst" using copy_address_frame(2) [OF c n(2) w] .
  have source: ?thesis
    if "r_xtra inst \<noteq> 0" "e_src e' = Some s" "srcwin_decided e'" "taroff e' = srclen s" "length S = unat (srclen s)"
      "S = take (unat (srclen s)) (drop (unat (srcbase s)) sfile)" "x = ucast (r_addr inst - srcbase s)" for s
  proof -
    have b: "unat (srcbase s) \<le> ?a" "?a + ?n \<le> unat (srcbase s) + unat (srclen s)"
      using w' that m(2) by (simp_all add: in_source_window_def)
    have sub: "unat (r_addr inst - srcbase s) = ?a - unat (srcbase s)" by (rule unat_minus_le_diff [OF b(1)])
    have x: "unat x = ?a - unat (srcbase s)"
      using b that(5) len by (subst that(7), subst unat_ucast_u64) (simp_all add: sub)
    have fit: "unat x + ?n \<le> length S" using x b that(5) by linarith
    have "take ?n (drop (unat x) (take (unat (srclen s)) (drop (unat (srcbase s)) sfile))) = take ?n (drop ?a sfile)"
      using b x fit that(5) by (simp add: drop_take min_def)
    then have "take ?n (drop (unat x) S) = take ?n (drop ?a sfile)" using that(6) by argo
    also have "\<dots> = take ?n (drop ?k T)" using m that(1) by (simp add: true_match_def inst_types)
    finally show ?thesis using fit n that(4,5) by simp
  qed
  have target: ?thesis
    if "r_xtra inst = 0" "x = taroff e' + ucast (r_addr inst)" "unat (taroff e') = length S"
  proof -
    have a: "?a < ?k" "take ?n (drop ?a T) = take ?n (drop ?k T)"
      using m that(1) by (simp_all add: true_match_def inst_types)
    have u: "unat (ucast (r_addr inst) :: u32) = ?a" using a n len by (intro unat_ucast_u64) linarith
    have "unat x = length S + ?a"
      using that a n len by (simp add: that(2) unat_add_u32 u)
    then show ?thesis using a that(3) by simp
  qed
  show ?thesis
    using c seg
  proof (cases rule: copy_address_segment)
    case none
    have "r_xtra inst = 0" using w' none(1) m(2) by (auto simp: in_source_window_def)
    then show ?thesis using target none by simp
  next
    case (some s)
    then show ?thesis using source target by (cases "r_xtra inst = 0") auto
  qed
qed

text \<open>What an operation must leave alone for the source window to stay.\<close>

definition same_source :: "xd3_encoder \<Rightarrow> xd3_encoder \<Rightarrow> bool" where
  "same_source e e' \<longleftrightarrow> e_src e' = e_src e \<and> srcwin_decided e' = srcwin_decided e \<and>
     match_minaddr e' = match_minaddr e \<and> match_maxaddr e' = match_maxaddr e \<and> taroff e' = taroff e"

lemma same_source_cong:
  assumes "same_source e e'"
  shows "in_source_window e' r = in_source_window e r" "source_segment sfile e' S = source_segment sfile e S"
  using assms unfolding same_source_def in_source_window_def source_segment_def by presburger+

section \<open>Operands\<close>

definition wf_encoder :: "xd3_encoder \<Rightarrow> bool" where
  "wf_encoder e \<longleftrightarrow> data_sec e \<noteq> [] \<and> inst_sec e \<noteq> [] \<and> addr_sec e \<noteq> [] \<and>
     e_table e = xd3_rfc3284_code_table \<and> wf_cache (e_acache e) \<and> cache_modes (e_acache e) = 9 \<and>
     length (e_next_in e) < 2 ^ 32"

text \<open>A match, or the add of a gap.\<close>

definition encodable :: "bytes \<Rightarrow> bytes \<Rightarrow> xd3_rinst \<Rightarrow> bool" where
  "encodable sfile T r \<longleftrightarrow> true_match sfile T r \<or>
     unat (r_type r) = XD3_ADD \<and> 0 < unat (r_size r) \<and> unat (r_pos r) + unat (r_size r) \<le> length T"

text \<open>What the operands of an instruction are: its bytes of the data and address sections, and their meaning.\<close>

definition operands_mean ::
    "bytes \<Rightarrow> bytes \<Rightarrow> xd3_rinst \<Rightarrow> vcd_inst \<Rightarrow> bytes \<Rightarrow> bytes \<Rightarrow> xd3_addr_cache \<Rightarrow> xd3_addr_cache \<Rightarrow> bool" where
  "operands_mean S T r i d a c c' \<longleftrightarrow>
     waits (length S) (length S + length T) r i a (length S + unat (r_pos r)) c c' \<and>
     vcd_exec1 i (S @ take (unat (r_pos r)) T, d) = Some (S @ take (unat (r_pos r) + unat (r_size r)) T, []) \<and>
     valid_inst r"

lemma operands_add:
  assumes "unat (r_type r) = XD3_ADD" "0 < unat (r_size r)" "unat (r_pos r) + unat (r_size r) \<le> length T"
  shows "operands_mean S T r (Add (unat (r_size r))) (take (unat (r_size r)) (drop (unat (r_pos r)) T)) [] c c"
  using assms
  by (auto simp: operands_mean_def waits_def valid_inst_def valid_type_def inst_types take_add)

lemma replicate_run:
  assumes "list_all (\<lambda>b. b = x) (take n (drop k T))" "k + n \<le> length T"
  shows "take n (drop k T) = replicate n x"
  using assms by (intro replicate_eqI) (auto simp: list_all_iff)

lemma operands_run:
  assumes "unat (r_type r) = XD3_RUN" "true_match sfile T r"
  shows "operands_mean S T r (Run (unat (r_size r))) [r_xtra r] [] c c"
proof -
  have "take (unat (r_size r)) (drop (unat (r_pos r)) T) = replicate (unat (r_size r)) (r_xtra r)"
    using assms by (intro replicate_run) (simp_all add: true_match_def)
  then show ?thesis
    using assms
    by (auto simp: operands_mean_def waits_def valid_inst_def valid_type_def inst_types true_match_def
        MIN_MATCH_def take_add)
qed

lemma operands_copy:
  assumes "unat x < length S + unat (r_pos r)" "unat x < length S \<longrightarrow> unat x + unat (r_size r) \<le> length S"
    "take (unat (r_size r)) (drop (unat x) (S @ T)) =
      take (unat (r_size r)) (drop (length S + unat (r_pos r)) (S @ T))"
    and r: "unat (r_pos r) + unat (r_size r) \<le> length T" "MIN_MATCH \<le> unat (r_size r)"
    and k: "k < 9" "unat (r_type r) = XD3_CPY + k"
    and dec: "\<And>Y. xd3_decode_address c (of_nat (length S + unat (r_pos r))) k (a @ Y) = Some (Inr (x, c', Y))"
  shows "operands_mean S T r (Copy (unat x) (unat (r_size r))) [] a c c'"
proof -
  have "copied (unat (r_size r)) (unat x) (take (length S + unat (r_pos r)) (S @ T)) =
      take (unat (r_size r)) (drop (length S + unat (r_pos r)) (S @ T))"
    using assms by (intro copied_matches) simp_all
  then have "vcd_exec1 (Copy (unat x) (unat (r_size r))) (S @ take (unat (r_pos r)) T, []) =
      Some (S @ take (unat (r_pos r) + unat (r_size r)) T, [])"
    using assms(1) r by (simp add: take_add min_def)
  then show ?thesis
    using assms by (auto simp: operands_mean_def waits_def valid_inst_def valid_type_def inst_types MIN_MATCH_def)
qed

lemma emit_byte_to_data:
  assumes "emit_byte_to data_sec DATA_TAIL b e = Inr e'" "data_sec e \<noteq> []"
  shows "\<exists>m ps. e' = e\<lparr>e_mem := m, data_sec := ps\<rparr> \<and> ps \<noteq> [] \<and> chain_bytes ps = chain_bytes (data_sec e) @ [b]"
  using assms xd3_emit_byte_appends [of "e_mem e" "data_sec e" b]
  by (fastforce simp: emit_byte_to_def err_then_Inr)

lemma emit_bytes_to_data:
  assumes "emit_bytes_to data_sec DATA_TAIL bs e = Inr e'" "data_sec e \<noteq> []"
  shows "\<exists>m ps. e' = e\<lparr>e_mem := m, data_sec := ps\<rparr> \<and> ps \<noteq> [] \<and> chain_bytes ps = chain_bytes (data_sec e) @ bs"
  using assms xd3_emit_bytes_appends [of "e_mem e" "data_sec e" bs]
  by (fastforce simp: emit_bytes_to_def err_then_Inr)

text \<open>What an operation on the data and address sections leaves alone.\<close>

definition same_insts :: "xd3_encoder \<Rightarrow> xd3_encoder \<Rightarrow> bool" where
  "same_insts e e' \<longleftrightarrow> hdr_sec e' = hdr_sec e \<and> inst_sec e' = inst_sec e \<and> e_table e' = e_table e \<and>
     e_next_in e' = e_next_in e \<and> unencoded_offset e' = unencoded_offset e \<and> iout e' = iout e"

lemma encode_operands_ok:
  assumes enc: "encode_operands inst e = Inr (inst', e')" and wf: "wf_encoder e"
    and inst: "encodable sfile (e_next_in e) inst" "in_source_window e inst"
    and seg: "source_segment sfile e' S" and len: "length S + length (e_next_in e) < 2 ^ 32"
  shows "\<exists>i d a. chain_bytes (data_sec e') = chain_bytes (data_sec e) @ d \<and>
    chain_bytes (addr_sec e') = chain_bytes (addr_sec e) @ a \<and>
    operands_mean S (e_next_in e) inst' i d a (e_acache e) (e_acache e')"
    and "same_insts e e'" and "wf_encoder e'" and "r_size inst' = r_size inst" "r_pos inst' = r_pos inst"
    and "0 < unat (r_size r) \<Longrightarrow> in_source_window e r \<Longrightarrow> in_source_window e' r"
proof -
  let ?T = "e_next_in e"
  have *: "(\<exists>i d a. chain_bytes (data_sec e') = chain_bytes (data_sec e) @ d \<and>
    chain_bytes (addr_sec e') = chain_bytes (addr_sec e) @ a \<and>
    operands_mean S ?T inst' i d a (e_acache e) (e_acache e')) \<and>
    same_insts e e' \<and> wf_encoder e' \<and> r_size inst' = r_size inst \<and> r_pos inst' = r_pos inst \<and>
    (0 < unat (r_size r) \<longrightarrow> in_source_window e r \<longrightarrow> in_source_window e' r)"
  proof (cases "unat (r_type inst) = XD3_CPY")
    case True
    then obtain x e1 ps m ac ty where 1: "copy_address inst e = Inr (x, e1)"
      "xd3_encode_address (e_mem e1) (addr_sec e1) (e_acache e1) x (r_pos inst + taroff e1) (r_type inst) = Inr (ps, m, ac, ty)"
      "inst' = inst\<lparr>r_type := ty\<rparr>" "e' = e1\<lparr>addr_sec := ps, e_mem := m, e_acache := ac\<rparr>"
      using enc by (auto simp: encode_operands_def err_then_Inr)
    have m: "true_match sfile ?T inst" using inst(1) True by (simp add: encodable_def inst_types)
    note fr = copy_address_frame(1) [OF 1(1)]
    have src1: "same_source e1 e'" by (simp add: 1(4) same_source_def)
    have seg1: "source_segment sfile e1 S" using seg same_source_cong(2) [OF src1] by simp
    note v = copy_address_value [OF 1(1) m True inst(2) seg1 len]
    have win: "0 < unat (r_size r) \<longrightarrow> in_source_window e r \<longrightarrow> in_source_window e' r"
      using copy_address_frame(2) [OF 1(1)] same_source_cong(1) [OF src1] by blast
    obtain k bs where code: "address_code (e_acache e) x (r_pos inst + taroff e1) = (k, bs)"
      by (cases "address_code (e_acache e) x (r_pos inst + taroff e1)")
    have wfc: "wf_cache (e_acache e)" "cache_modes (e_acache e) = 9" "addr_sec e \<noteq> []"
      using wf by (simp_all add: wf_encoder_def)
    have e1: "e_acache e1 = e_acache e" "addr_sec e1 = addr_sec e" "data_sec e1 = data_sec e"
      using fr by (simp_all add: same_output_def)
    have out: "ps \<noteq> []" "chain_bytes ps = chain_bytes (addr_sec e) @ bs" "ac = xd3_update_cache (e_acache e) x"
      "ty = r_type inst + of_nat k"
      using encode_address_code [OF wfc(1) code 1(2) [unfolded e1] wfc(3)] by blast+
    have k: "k < 9" using decode_address_code(1) [OF wfc(1) code] wfc(2) by simp
    have ty: "unat ty = XD3_CPY + k"
      using k True by (simp add: out(4) unat_word_ariths inst_types unsigned_of_nat take_bit_nat_eq_self)
    have here: "r_pos inst + taroff e1 = of_nat (length S + unat (r_pos inst))"
      using v by (metis add.commute of_nat_add of_nat_unat ucast_id)
    have "operands_mean S ?T inst' (Copy (unat x) (unat (r_size inst'))) [] bs (e_acache e) ac"
      by (rule operands_copy [where k = k])
        (use v m k ty 1(3) decode_address_code(2) [OF wfc(1) code] here out(3) in
          \<open>simp_all add: true_match_def\<close>)
    moreover have "wf_encoder e'"
      using wf fr out by (simp add: 1(4) wf_encoder_def same_output_def wf_update_cache cache_modes_def)
    moreover have "same_insts e e'" using fr by (simp add: same_output_def same_insts_def 1(4))
    ultimately show ?thesis
      using win out(2) e1(3) 1(3) by (intro conjI) (auto simp: 1(4) intro: exI [of _ "[]"])
  next
    case no_copy: False
    show ?thesis
    proof (cases "unat (r_type inst) = XD3_RUN")
      case True
      then obtain e1 where 1: "emit_byte_to data_sec DATA_TAIL (r_xtra inst) e = Inr e1" "inst' = inst"
        "e' = count_stat n_run_update l_run_update (r_size inst) e1"
        using enc by (auto simp: encode_operands_def err_then_Inr inst_types)
      obtain m ps where ps: "e1 = e\<lparr>e_mem := m, data_sec := ps\<rparr>" "ps \<noteq> []"
        "chain_bytes ps = chain_bytes (data_sec e) @ [r_xtra inst]"
        using emit_byte_to_data [OF 1(1)] wf by (auto simp: wf_encoder_def)
      have "true_match sfile ?T inst" using inst(1) True by (simp add: encodable_def inst_types)
      from operands_run [OF True this, of S "e_acache e"] show ?thesis
        using wf by (auto simp: 1(2,3) ps count_stat_def wf_encoder_def same_insts_def in_source_window_def
            cong: option.case_cong)
    next
      case False
      then have add: "unat (r_type inst) = XD3_ADD" "0 < unat (r_size inst)"
        "unat (r_pos inst) + unat (r_size inst) \<le> length ?T"
        using inst(1) no_copy by (auto simp: encodable_def true_match_def)
      then obtain e1 where 1: "emit_bytes_to data_sec DATA_TAIL
          (take (unat (r_size inst)) (drop (unat (r_pos inst)) ?T)) e = Inr e1" "inst' = inst"
        "e' = count_stat n_add_update l_add_update (r_size inst) e1"
        using enc by (auto simp: encode_operands_def err_then_Inr inst_types)
      obtain m ps where ps: "e1 = e\<lparr>e_mem := m, data_sec := ps\<rparr>" "ps \<noteq> []"
        "chain_bytes ps = chain_bytes (data_sec e) @ take (unat (r_size inst)) (drop (unat (r_pos inst)) ?T)"
        using emit_bytes_to_data [OF 1(1)] wf by (auto simp: wf_encoder_def)
      from operands_add [OF add, of S "e_acache e"] show ?thesis
        using wf by (auto simp: 1(2,3) ps count_stat_def wf_encoder_def same_insts_def in_source_window_def
            cong: option.case_cong)
    qed
  qed
  show "\<exists>i d a. chain_bytes (data_sec e') = chain_bytes (data_sec e) @ d \<and>
    chain_bytes (addr_sec e') = chain_bytes (addr_sec e) @ a \<and>
    operands_mean S ?T inst' i d a (e_acache e) (e_acache e')"
    "same_insts e e'" "wf_encoder e'" "r_size inst' = r_size inst" "r_pos inst' = r_pos inst"
    "0 < unat (r_size r) \<Longrightarrow> in_source_window e r \<Longrightarrow> in_source_window e' r"
    using * by blast+
qed

section \<open>Opcodes\<close>

lemma emit_single_writes:
  assumes "xd3_emit_single r (r_code1 r) e = Inr e'" "inst_sec e \<noteq> []"
  shows "\<exists>m ps. e' = e\<lparr>e_mem := m, inst_sec := ps\<rparr> \<and> ps \<noteq> [] \<and>
    chain_bytes ps = chain_bytes (inst_sec e) @ single_bytes (e_table e) r"
proof -
  obtain m ps where 1: "xd3_emit_byte (e_mem e) (inst_sec e) (r_code1 r) = Inr (ps, m)"
    "(if size1 (e_table e ! unat (r_code1 r)) = 0
      then emit_size_to inst_sec INST_TAIL (r_size r) (e\<lparr>e_mem := m, inst_sec := ps\<rparr>)
      else Inr (e\<lparr>e_mem := m, inst_sec := ps\<rparr>)) = Inr e'"
    using assms(1) by (auto simp: xd3_emit_single_def emit_byte_to_def err_then_Inr)
  note b = xd3_emit_byte_appends [OF 1(1) assms(2)]
  show ?thesis
  proof (cases "size1 (e_table e ! unat (r_code1 r)) = 0")
    case True
    then obtain ps' m' where 2: "xd3_emit_bytes m ps (integer_bytes (r_size r)) = Inr (ps', m')"
      "e' = e\<lparr>e_mem := m', inst_sec := ps'\<rparr>"
      using 1(2) by (auto simp: emit_size_to_def err_then_Inr xd3_emit_uint32_t_def emit_integer_def)
    then show ?thesis
      using b True xd3_emit_bytes_appends [OF 2(1) b(2)] by (auto simp: single_bytes_def)
  qed (use 1(2) b in \<open>auto simp: single_bytes_def\<close>)
qed

lemma emit_double_writes:
  assumes "xd3_emit_double r s c e = Inr e'" "inst_sec e \<noteq> []"
  shows "\<exists>m ps. e' = e\<lparr>e_mem := m, inst_sec := ps\<rparr> \<and> ps \<noteq> [] \<and>
    chain_bytes ps = chain_bytes (inst_sec e) @ [c]"
  using assms xd3_emit_byte_appends [of "e_mem e" "inst_sec e" c]
  by (fastforce simp: xd3_emit_double_def emit_byte_to_def err_then_Inr)

text \<open>
  What is written so far: the sections parse to instructions that make the input up to
  \<^verbatim>\<open>unencoded_offset\<close>, but for the opcode of the one in \<^verbatim>\<open>iout\<close>.
\<close>

definition opcodes_parse ::
    "xd3_addr_cache \<Rightarrow> bytes \<Rightarrow> xd3_encoder \<Rightarrow> bytes \<Rightarrow> vcd_inst list \<Rightarrow> vcd_parse \<Rightarrow> bool" where
  "opcodes_parse c0 S e A is p \<longleftrightarrow>
     vcd_parses (e_table e) (length S) (length S + length (e_next_in e))
       \<lparr>p_pos = length S, p_cache = c0, p_inst = chain_bytes (inst_sec e), p_addr = A\<rparr> is p \<and> p_addr p = []"

definition instructions_make :: "bytes \<Rightarrow> xd3_encoder \<Rightarrow> vcd_inst list \<Rightarrow> bool" where
  "instructions_make S e is \<longleftrightarrow>
     vcd_exec is (S, chain_bytes (data_sec e)) = Some (S @ take (unat (unencoded_offset e)) (e_next_in e), [])"

definition written :: "xd3_addr_cache \<Rightarrow> bytes \<Rightarrow> xd3_encoder \<Rightarrow> bool" where
  "written c0 S e \<longleftrightarrow> wf_encoder e \<and> unat (unencoded_offset e) \<le> length (e_next_in e) \<and>
     (case iout e of
        None \<Rightarrow> \<exists>is p. opcodes_parse c0 S e (chain_bytes (addr_sec e)) is p \<and> p_cache p = e_acache e \<and>
          p_pos p = length S + unat (unencoded_offset e) \<and> instructions_make S e is
      | Some r \<Rightarrow> \<exists>is p i A a. opcodes_parse c0 S e A is p \<and> chain_bytes (addr_sec e) = A @ a \<and>
          waits (length S) (length S + length (e_next_in e)) r i a (p_pos p) (p_cache p) (e_acache e) \<and>
          p_pos p + unat (r_size r) = length S + unat (unencoded_offset e) \<and> r_code2 r = 0 \<and>
          codes_single (e_table e) (r_code1 r) r \<and> valid_inst r \<and> instructions_make S e (is @ [i]))"

lemma opcodes_parse_more:
  assumes o: "opcodes_parse c0 S e A is p"
    and js: "vcd_parses (e_table e) (length S) (length S + length (e_next_in e))
      \<lparr>p_pos = p_pos p, p_cache = p_cache p, p_inst = X, p_addr = a\<rparr> js q" "p_addr q = []"
    and e': "e_table e' = e_table e" "e_next_in e' = e_next_in e" "chain_bytes (inst_sec e') = chain_bytes (inst_sec e) @ X"
  shows "opcodes_parse c0 S e' (A @ a) (is @ js) q"
proof -
  have p: "vcd_parses (e_table e) (length S) (length S + length (e_next_in e))
      \<lparr>p_pos = length S, p_cache = c0, p_inst = chain_bytes (inst_sec e), p_addr = A\<rparr> is p" "p_addr p = []"
    using o by (simp_all add: opcodes_parse_def)
  have "followed_by X a p = \<lparr>p_pos = p_pos p, p_cache = p_cache p, p_inst = X, p_addr = a\<rparr>"
    using p(2) parses_end_empty [OF p(1)] by (simp add: followed_by_def)
  then show ?thesis
    using parses_append [OF p(1), of X a js q] js e' by (simp add: opcodes_parse_def followed_by_def)
qed

lemma opcodes_parse_cong:
  assumes "opcodes_parse c0 S e A is p" "e_table e' = e_table e" "e_next_in e' = e_next_in e"
    "chain_bytes (inst_sec e') = chain_bytes (inst_sec e)"
  shows "opcodes_parse c0 S e' A is p"
  using assms by (simp add: opcodes_parse_def)

text \<open>Writing out the instruction that waits.\<close>

lemma flush_waiting:
  assumes o: "opcodes_parse c0 S e A is p"
    and w: "waits (length S) (length S + length (e_next_in e)) r i a (p_pos p) (p_cache p) c'"
    and k: "codes_single (e_table e) (r_code1 r) r"
    and em: "xd3_emit_single r (r_code1 r) e = Inr e'" "inst_sec e \<noteq> []"
  shows "\<exists>m ps q. e' = e\<lparr>e_mem := m, inst_sec := ps\<rparr> \<and> ps \<noteq> [] \<and> opcodes_parse c0 S e' (A @ a) (is @ [i]) q \<and>
    p_cache q = c' \<and> p_pos q = p_pos p + unat (r_size r)"
proof -
  obtain m ps where ps: "e' = e\<lparr>e_mem := m, inst_sec := ps\<rparr>" "ps \<noteq> []"
    "chain_bytes ps = chain_bytes (inst_sec e) @ single_bytes (e_table e) r"
    using emit_single_writes [OF em] by blast
  have "opcodes_parse c0 S e' (A @ a) (is @ [i])
      \<lparr>p_pos = p_pos p + unat (r_size r), p_cache = c', p_inst = [], p_addr = []\<rparr>"
    by (rule opcodes_parse_more [OF o parses_single [OF w k]]) (use ps in simp_all)
  then show ?thesis using ps(1,2) by fastforce
qed

lemma waits_code [simp]:
  "waits seg maxpos (r\<lparr>r_code1 := x\<rparr>) i a pos c c' = waits seg maxpos r i a pos c c'"
  "waits seg maxpos (r\<lparr>r_code2 := x\<rparr>) i a pos c c' = waits seg maxpos r i a pos c c'"
  by (simp_all add: waits_def)

lemma codes_single_code [simp]:
  "codes_single table c (r\<lparr>r_code1 := x\<rparr>) = codes_single table c r"
  "codes_single table c (r\<lparr>r_code2 := x\<rparr>) = codes_single table c r"
  by (simp_all add: codes_single_def)

lemma codes_double_code [simp]:
  "codes_double table c (r\<lparr>r_code2 := x\<rparr>) s = codes_double table c r s"
  "codes_double table c r (s\<lparr>r_code1 := x\<rparr>) = codes_double table c r s"
  "codes_double table c r (s\<lparr>r_code2 := x\<rparr>) = codes_double table c r s"
  by (simp_all add: codes_double_def)

lemma valid_inst_code [simp]:
  "valid_inst (r\<lparr>r_code1 := x\<rparr>) = valid_inst r" "valid_inst (r\<lparr>r_code2 := x\<rparr>) = valid_inst r"
  by (simp_all add: valid_inst_def)

lemma instructions_make_step:
  assumes "vcd_exec is (S, D) = Some (S @ take k T, [])" "vcd_exec1 i (S @ take k T, d) = Some (U, [])"
  shows "vcd_exec (is @ [i]) (S, D @ d) = Some (U, [])"
  using exec_append_data [OF assms(1), of d] assms(2) by (simp add: vcd_exec_append)

lemma choose_none:
  assumes "valid_inst inst" "xd3_choose_instruction None inst = (prev', inst')"
  shows "prev' = None"
  using assms by (auto simp: xd3_choose_instruction_def Let_def split: if_splits)

text \<open>The invariant does not depend on the free slots.\<close>

definition same_written :: "xd3_encoder \<Rightarrow> xd3_encoder \<Rightarrow> bool" where
  "same_written e e' \<longleftrightarrow> data_sec e' = data_sec e \<and> inst_sec e' = inst_sec e \<and> addr_sec e' = addr_sec e \<and>
     hdr_sec e' = hdr_sec e \<and> e_acache e' = e_acache e \<and> e_table e' = e_table e \<and> e_next_in e' = e_next_in e \<and>
     unencoded_offset e' = unencoded_offset e"

lemma same_written_cong:
  assumes "same_written e e'"
  shows "wf_encoder e' = wf_encoder e" "opcodes_parse c0 S e' A is p = opcodes_parse c0 S e A is p"
    "instructions_make S e' is = instructions_make S e is"
  using assms by (simp_all add: same_written_def wf_encoder_def opcodes_parse_def instructions_make_def)

lemma written_cong:
  assumes "same_written e e'" "iout e' = iout e"
  shows "written c0 S e' = written c0 S e"
  using assms(2) same_written_cong [OF assms(1)] assms(1)
  by (simp add: written_def same_written_def cong: option.case_cong)

lemma same_written_trans: "same_written e f \<Longrightarrow> same_written f g \<Longrightarrow> same_written e g"
  by (simp add: same_written_def)

lemma free_nonadd [simp]:
  "same_written e (xd3_iopt_free_nonadd r e)" "same_source e (xd3_iopt_free_nonadd r e)"
  "iout (xd3_iopt_free_nonadd r e) = iout e" "e_next_in (xd3_iopt_free_nonadd r e) = e_next_in e"
  "unencoded_offset (xd3_iopt_free_nonadd r e) = unencoded_offset e"
  "hdr_sec (xd3_iopt_free_nonadd r e) = hdr_sec e" "iopt_used (xd3_iopt_free_nonadd r e) = iopt_used e"
  by (simp_all add: xd3_iopt_free_nonadd_def same_written_def same_source_def)

lemma iout_upd [simp]: "same_written e (e'\<lparr>iout := x\<rparr>) = same_written e e'"
  "same_source e (e'\<lparr>iout := x\<rparr>) = same_source e e'"
  by (simp_all add: same_written_def same_source_def)

text \<open>What the opcode step keeps.\<close>

definition opcode_frame :: "xd3_encoder \<Rightarrow> xd3_encoder \<Rightarrow> bool" where
  "opcode_frame e e' \<longleftrightarrow> same_source e e' \<and> e_next_in e' = e_next_in e \<and> hdr_sec e' = hdr_sec e \<and>
     unencoded_offset e' = unencoded_offset e"

lemma encode_opcode_cases:
  assumes enc: "encode_opcode inst e = Inr e'" and v: "valid_inst inst"
    and r: "\<forall>r. iout e = Some r \<longrightarrow> valid_inst r \<and> r_code2 r = 0" and tab: "e_table e = xd3_rfc3284_code_table"
  obtains (first) i' where "iout e = None" "i' = (inst\<lparr>r_code2 := 0\<rparr>)\<lparr>r_code1 := r_code1 i'\<rparr>"
      "codes_single (e_table e) (r_code1 i') inst" "e' = e\<lparr>iout := Some i'\<rparr>"
  | (single) r i' e1 where "iout e = Some r" "i' = (inst\<lparr>r_code2 := 0\<rparr>)\<lparr>r_code1 := r_code1 i'\<rparr>"
      "codes_single (e_table e) (r_code1 i') inst" "xd3_emit_single r (r_code1 r) e = Inr e1"
      "e' = (xd3_iopt_free_nonadd r e1)\<lparr>iout := Some i'\<rparr>"
  | (double) r c p' i' e1 where "iout e = Some r" "codes_double (e_table e) c r inst"
      "xd3_emit_double p' i' c (e\<lparr>iout := Some p'\<rparr>) = Inr e1"
      "e' = (xd3_iopt_free_nonadd i' (xd3_iopt_free_nonadd p' e1))\<lparr>iout := None\<rparr>"
proof -
  let ?i = "inst\<lparr>r_code2 := 0\<rparr>"
  obtain prev i' where ch: "xd3_choose_instruction (iout e) ?i = (prev, i')" by fastforce
  have vi: "valid_inst ?i" using v by simp
  obtain c where i': "i' = ?i\<lparr>r_code1 := c\<rparr>" "codes_single (e_table e) c inst"
    using choose_single [OF vi ch] tab by auto
  have eq: "i' = ?i\<lparr>r_code1 := r_code1 i'\<rparr>" "codes_single (e_table e) (r_code1 i') inst" using i' by simp_all
  show thesis
  proof (cases "iout e")
    case None
    then have "prev = None" using choose_none [OF vi] ch by simp
    then show thesis using enc ch None first [OF None eq] by (simp add: encode_opcode_def)
  next
    case (Some r)
    from choose_prev [OF vi, of r prev i'] ch Some r [rule_format, OF Some]
    consider "prev = Some r" | c where "prev = Some (r\<lparr>r_code2 := c\<rparr>)" "codes_double xd3_rfc3284_code_table c r ?i"
      by auto
    then show thesis
    proof cases
      case 1
      have "e\<lparr>iout := Some r\<rparr> = e" using Some by simp
      then show thesis
        using enc ch 1 r [rule_format, OF Some] single [OF Some eq] by (auto simp: encode_opcode_def err_then_Inr)
    next
      case (2 c)
      show thesis
      proof (cases "c = 0")
        case True
        then have "r\<lparr>r_code2 := c\<rparr> = r" using r [rule_format, OF Some] by simp
        moreover have "e\<lparr>iout := Some r\<rparr> = e" using Some by simp
        ultimately show thesis
          using enc ch 2 r [rule_format, OF Some] single [OF Some eq] by (auto simp: encode_opcode_def err_then_Inr)
      next
        case False
        have "codes_double (e_table e) c r inst" using 2(2) tab by simp
        then show thesis
          using enc ch 2(1) False double [OF Some] by (auto simp: encode_opcode_def err_then_Inr)
      qed
    qed
  qed
qed

lemma written_waiting:
  assumes "iout e = Some r" "written c0 S e"
  shows "valid_inst r" "r_code2 r = 0"
  using assms by (auto simp: written_def)

end
