(* ===== verification/Encode_Window.thy ===== *)
theory Encode_Window
  imports Encode
begin

text \<open>
  The encoder's window: every step of the back end keeps the sections in the state
  \<open>written\<close> describes, so that the finished sections encode the whole input.
\<close>

section \<open>One instruction\<close>

text \<open>How \<open>written\<close> is established.\<close>

lemma written_waitingI:
  assumes "same_written e e'" "iout e' = Some r" "wf_encoder e" "unat (unencoded_offset e) \<le> length (e_next_in e)"
    "opcodes_parse c0 S e A is p" "chain_bytes (addr_sec e) = A @ a"
    "waits (length S) (length S + length (e_next_in e)) r i a (p_pos p) (p_cache p) (e_acache e)"
    "p_pos p + unat (r_size r) = length S + unat (unencoded_offset e)" "r_code2 r = 0"
    "codes_single (e_table e) (r_code1 r) r" "valid_inst r" "instructions_make S e (is @ [i])"
  shows "written c0 S e'"
  unfolding written_def assms(2) option.case same_written_cong [OF assms(1)]
  using assms(1,3-) unfolding same_written_def by metis

lemma written_idleI:
  assumes "same_written e e'" "iout e' = None" "wf_encoder e" "unat (unencoded_offset e) \<le> length (e_next_in e)"
    "opcodes_parse c0 S e (chain_bytes (addr_sec e)) is p" "p_cache p = e_acache e"
    "p_pos p = length S + unat (unencoded_offset e)" "instructions_make S e is"
  shows "written c0 S e'"
  unfolding written_def assms(2) option.case same_written_cong [OF assms(1)]
  using assms(1,3-) unfolding same_written_def by metis

lemma writtenE:
  assumes "written c0 S e" "iout e = Some r"
  obtains "is" p i A a where "opcodes_parse c0 S e A is p" "chain_bytes (addr_sec e) = A @ a"
    "waits (length S) (length S + length (e_next_in e)) r i a (p_pos p) (p_cache p) (e_acache e)"
    "p_pos p + unat (r_size r) = length S + unat (unencoded_offset e)" "r_code2 r = 0"
    "codes_single (e_table e) (r_code1 r) r" "valid_inst r" "instructions_make S e (is @ [i])"
  using assms unfolding written_def option.case by auto

lemma encode_opcode_written:
  assumes w: "written c0 S e" and f: "same_insts e e1" and wf: "wf_encoder e1"
    and d: "chain_bytes (data_sec e1) = chain_bytes (data_sec e) @ d"
    and a: "chain_bytes (addr_sec e1) = chain_bytes (addr_sec e) @ a"
    and m: "operands_mean S (e_next_in e) inst i d a (e_acache e) (e_acache e1)"
    and pos: "r_pos inst = unencoded_offset e"
    and fit: "unat (unencoded_offset e) + unat (r_size inst) \<le> length (e_next_in e)"
    and enc: "encode_opcode inst (e1\<lparr>unencoded_offset := unencoded_offset e1 + r_size inst\<rparr>) = Inr e2"
  shows "written c0 S e2 \<and> opcode_frame (e1\<lparr>unencoded_offset := unencoded_offset e + r_size inst\<rparr>) e2"
proof -
  let ?T = "e_next_in e" and ?off = "unat (unencoded_offset e)" and ?n = "unat (r_size inst)"
  define e1' where "e1' = e1\<lparr>unencoded_offset := unencoded_offset e1 + r_size inst\<rparr>"
  have f': "iout e1' = iout e" "e_next_in e1' = ?T" "e_table e1' = e_table e" "inst_sec e1' = inst_sec e"
    "unencoded_offset e1' = unencoded_offset e + r_size inst" "e_acache e1' = e_acache e1"
    "data_sec e1' = data_sec e1" "addr_sec e1' = addr_sec e1" "hdr_sec e1' = hdr_sec e"
    using f by (simp_all add: e1'_def same_insts_def)
  have wf': "wf_encoder e1'" "inst_sec e1' \<noteq> []" "e_table e1' = xd3_rfc3284_code_table" "length ?T < 2 ^ 32"
    using wf f'(2) by (simp_all add: wf_encoder_def e1'_def)
  have off: "unat (unencoded_offset e + r_size inst) = ?off + ?n"
    using fit wf'(4) by (simp add: unat_add_u32)
  have mm: "waits (length S) (length S + length ?T) inst i a (length S + ?off) (e_acache e) (e_acache e1)"
    "vcd_exec1 i (S @ take ?off ?T, d) = Some (S @ take (?off + ?n) ?T, [])" "valid_inst inst"
    using m pos by (simp_all add: operands_mean_def)
  have make: "instructions_make S e1' (js @ [i])" if "instructions_make S e js" for js
    using instructions_make_step [OF that [unfolded instructions_make_def] mm(2)]
    by (simp add: instructions_make_def f' d off)
  have r0: "\<forall>r. iout e1' = Some r \<longrightarrow> valid_inst r \<and> r_code2 r = 0"
    using f'(1) written_waiting [of e _ c0 S] w by simp
  have e1'_frame: "opcode_frame e1' g \<Longrightarrow> opcode_frame (e1\<lparr>unencoded_offset := unencoded_offset e + r_size inst\<rparr>) g" for g
    using f by (simp add: e1'_def same_insts_def)
  show ?thesis
  proof (cases rule: encode_opcode_cases [OF enc [folded e1'_def] mm(3) r0 wf'(3), case_names first single double])
    case (first i')
    obtain "is" p where 1: "opcodes_parse c0 S e (chain_bytes (addr_sec e)) is p" "p_cache p = e_acache e"
      "p_pos p = length S + ?off" "instructions_make S e is"
      using w first(1) f'(1) by (auto simp: written_def)
    have "written c0 S e2"
    proof (rule written_waitingI [where r = i' and i = i and a = a])
      show "same_written e1' e2" by (simp add: first(4) same_written_def)
      show "opcodes_parse c0 S e1' (chain_bytes (addr_sec e)) is p"
        by (rule opcodes_parse_cong [OF 1(1)]) (simp_all add: f')
      show "waits (length S) (length S + length (e_next_in e1')) i' i a (p_pos p) (p_cache p) (e_acache e1')"
        using mm(1) by (subst first(2)) (simp add: f' 1)
      show "codes_single (e_table e1') (r_code1 i') i'" using first(3) by (subst (2) first(2)) simp
      show "valid_inst i'" using mm(3) by (subst first(2)) simp
      show "r_code2 i' = 0" by (subst first(2)) simp
      show "p_pos p + unat (r_size i') = length S + unat (unencoded_offset e1')"
        by (subst first(2)) (simp add: f' 1 off)
    qed (use first(4) wf'(1) make [OF 1(4)] fit off a in \<open>simp_all add: f'\<close>)
    moreover have "opcode_frame e1' e2" by (simp add: opcode_frame_def first(4) same_source_def)
    ultimately show ?thesis using e1'_frame by blast
  next
    case (single r i' g)
    obtain "is" p j A b where 1: "opcodes_parse c0 S e A is p" "chain_bytes (addr_sec e) = A @ b"
      "waits (length S) (length S + length ?T) r j b (p_pos p) (p_cache p) (e_acache e)"
      "p_pos p + unat (r_size r) = length S + ?off" "codes_single (e_table e) (r_code1 r) r"
      "instructions_make S e (is @ [j])"
      using w single(1) f'(1) by (metis writtenE)
    have o: "opcodes_parse c0 S e1' A is p" by (rule opcodes_parse_cong [OF 1(1)]) (simp_all add: f')
    obtain m ps q where g: "g = e1'\<lparr>e_mem := m, inst_sec := ps\<rparr>" "ps \<noteq> []" "opcodes_parse c0 S g (A @ b) (is @ [j]) q"
      "p_cache q = e_acache e" "p_pos q = p_pos p + unat (r_size r)"
      using flush_waiting [OF o _ _ single(4) wf'(2), of j b "e_acache e"] 1 f' by auto
    have "written c0 S e2"
    proof (rule written_waitingI [OF _ _ _ _ g(3), where r = i' and i = i and a = a])
      show "same_written g e2" by (simp add: single(5))
      show "wf_encoder g" using wf'(1) g(2) by (simp add: g(1) wf_encoder_def)
      show "waits (length S) (length S + length (e_next_in g)) i' i a (p_pos q) (p_cache q) (e_acache g)"
        using mm(1) 1(4) by (subst single(2)) (simp add: f' g)
      show "codes_single (e_table g) (r_code1 i') i'" using single(3) by (subst (2) single(2)) (simp add: g(1))
      show "valid_inst i'" using mm(3) by (subst single(2)) simp
      show "r_code2 i' = 0" by (subst single(2)) simp
      show "p_pos q + unat (r_size i') = length S + unat (unencoded_offset g)"
        using 1(4) by (subst single(2)) (simp add: f' off g(1,5))
      show "instructions_make S g ((is @ [j]) @ [i])"
        using make [OF 1(6)] by (simp add: g(1) instructions_make_def)
    qed (use single(5) fit off a 1(2) in \<open>simp_all add: f' g(1)\<close>)
    moreover have "opcode_frame e1' e2"
      by (simp add: opcode_frame_def single(5) g(1) same_source_def xd3_iopt_free_nonadd_def)
    ultimately show ?thesis using e1'_frame by blast
  next
    case (double r c p' i' g)
    obtain "is" p j A b where 1: "opcodes_parse c0 S e A is p" "chain_bytes (addr_sec e) = A @ b"
      "waits (length S) (length S + length ?T) r j b (p_pos p) (p_cache p) (e_acache e)"
      "p_pos p + unat (r_size r) = length S + ?off" "valid_inst r"
      "instructions_make S e (is @ [j])"
      using w double(1) f'(1) by (metis writtenE)
    have o: "opcodes_parse c0 S e1' A is p" by (rule opcodes_parse_cong [OF 1(1)]) (simp_all add: f')
    obtain m ps where g: "g = e1'\<lparr>iout := Some p', e_mem := m, inst_sec := ps\<rparr>" "ps \<noteq> []"
      "chain_bytes ps = chain_bytes (inst_sec e1') @ [c]"
      using emit_double_writes [OF double(3)] wf'(2) by auto
    have n: "0 < unat (r_size r)" "0 < ?n" using 1(5) mm(3) by (simp_all add: valid_inst_def)
    let ?q = "\<lparr>p_pos = p_pos p + unat (r_size r) + ?n, p_cache = e_acache e1, p_inst = [], p_addr = []\<rparr>"
    have w2: "waits (length S) (length S + length ?T) inst i a (p_pos p + unat (r_size r)) (e_acache e) (e_acache e1)"
      using mm(1) 1(4) by simp
    have oq: "opcodes_parse c0 S g (A @ (b @ a)) (is @ [j, i]) ?q"
      by (rule opcodes_parse_more [OF o])
        (use parses_double [OF 1(3) w2 double(2) [unfolded f'(3)] n] g in \<open>simp_all add: f'\<close>)
    have "written c0 S e2"
    proof (rule written_idleI)
      show "same_written g e2" by (simp add: double(4) same_written_def xd3_iopt_free_nonadd_def)
      show "wf_encoder g" using wf'(1) g(2) by (simp add: g(1) wf_encoder_def)
      show "opcodes_parse c0 S g (chain_bytes (addr_sec g)) (is @ [j, i]) ?q"
        using oq 1(2) a by (simp add: g(1) f')
      show "instructions_make S g (is @ [j, i])"
        using make [OF 1(6)] by (simp add: g(1) instructions_make_def)
    qed (use double(4) fit off 1(4) in \<open>simp_all add: f' g(1)\<close>)
    moreover have "opcode_frame e1' e2"
      by (simp add: opcode_frame_def double(4) g(1) same_source_def xd3_iopt_free_nonadd_def)
    ultimately show ?thesis using e1'_frame by blast
  qed
qed

section \<open>A sequence of matches\<close>

text \<open>What every step of the back end keeps.\<close>

definition enc_keeps :: "bytes \<Rightarrow> bytes \<Rightarrow> xd3_encoder \<Rightarrow> xd3_encoder \<Rightarrow> bool" where
  "enc_keeps sfile S e e' \<longleftrightarrow> e_next_in e' = e_next_in e \<and> hdr_sec e' = hdr_sec e \<and>
     (source_segment sfile e' S \<longrightarrow> source_segment sfile e S) \<and>
     (\<forall>r. 0 < unat (r_size r) \<longrightarrow> in_source_window e r \<longrightarrow> in_source_window e' r)"

lemma enc_keeps_refl [simp]: "enc_keeps sfile S e e"
  by (simp add: enc_keeps_def)

lemma enc_keeps_trans: "enc_keeps sfile S e f \<Longrightarrow> enc_keeps sfile S f g \<Longrightarrow> enc_keeps sfile S e g"
  by (simp add: enc_keeps_def)

lemma enc_keeps_source:
  "same_source e e' \<Longrightarrow> e_next_in e' = e_next_in e \<Longrightarrow> hdr_sec e' = hdr_sec e \<Longrightarrow> enc_keeps sfile S e e'"
  using same_source_cong [of e e'] by (simp add: enc_keeps_def)

text \<open>The source segment of a state is one of the states before it.\<close>

lemma copy_address_segment_before:
  assumes c: "copy_address inst e = Inr (x, e')" and seg: "source_segment sfile e' S"
  shows "source_segment sfile e S"
  using c
proof (cases rule: copy_address_cases)
  case (fresh n l e1)
  then show ?thesis by (auto simp: source_segment_def)
qed (use seg in simp_all)

lemma encode_operands_segment_before:
  assumes enc: "encode_operands inst e = Inr (inst', e')" and seg: "source_segment sfile e' S"
  shows "source_segment sfile e S"
proof (cases "unat (r_type inst) = XD3_CPY")
  case True
  then obtain x e1 ps m ac ty where 1: "copy_address inst e = Inr (x, e1)"
    "e' = e1\<lparr>addr_sec := ps, e_mem := m, e_acache := ac\<rparr>"
    using enc by (auto simp: encode_operands_def err_then_Inr)
  have "same_source e1 e'" by (simp add: 1(2) same_source_def)
  then show ?thesis using seg copy_address_segment_before [OF 1(1)] same_source_cong(2) by blast
next
  case False
  have "same_source e e'"
    using enc False by (auto simp: encode_operands_def Let_def err_then_Inr emit_byte_to_def emit_bytes_to_def
        same_source_def count_stat_def split: if_splits)
  then show ?thesis using seg same_source_cong(2) by blast
qed

lemma emit_single_source: "xd3_emit_single r c e = Inr e' \<Longrightarrow> same_source e e'"
  by (auto simp: xd3_emit_single_def emit_byte_to_def emit_size_to_def err_then_Inr same_source_def
      split: if_splits)

lemma free_nonadd_source [simp]: "same_source e (xd3_iopt_free_nonadd p e') = same_source e e'"
  by (simp add: same_source_def xd3_iopt_free_nonadd_def)

lemma encode_opcode_source:
  assumes "encode_opcode inst e = Inr e'"
  shows "same_source e e'"
proof -
  obtain prev i' where ch: "xd3_choose_instruction (iout e) (inst\<lparr>r_code2 := 0\<rparr>) = (prev, i')" by fastforce
  show ?thesis
  proof (cases prev)
    case None
    then show ?thesis using assms ch by (auto simp: encode_opcode_def same_source_def)
  next
    case (Some p)
    show ?thesis
    proof (cases "r_code2 p = 0")
      case True
      then obtain g where "xd3_emit_single p (r_code1 p) (e\<lparr>iout := Some p\<rparr>) = Inr g"
        "e' = (xd3_iopt_free_nonadd p g)\<lparr>iout := Some i'\<rparr>"
        using assms ch Some by (auto simp: encode_opcode_def err_then_Inr)
      then show ?thesis
        using emit_single_source by (fastforce simp: same_source_def xd3_iopt_free_nonadd_def)
    next
      case False
      then show ?thesis
        using assms ch Some
        by (auto simp: encode_opcode_def err_then_Inr xd3_emit_double_def emit_byte_to_def) (simp add: same_source_def)
    qed
  qed
qed

lemma finish_segment_before:
  assumes "xd3_iopt_finish_encoding inst e = Inr e'" "source_segment sfile e' S"
  shows "source_segment sfile e S"
proof -
  obtain inst' e1 where 1: "encode_operands inst e = Inr (inst', e1)"
    "encode_opcode inst' (e1\<lparr>unencoded_offset := unencoded_offset e1 + r_size inst'\<rparr>) = Inr e'"
    using assms(1) by (auto simp: xd3_iopt_finish_encoding_def err_then_Inr)
  have "same_source e1 e'" using encode_opcode_source [OF 1(2)] by (simp add: same_source_def)
  then show ?thesis
    using assms(2) same_source_cong(2) encode_operands_segment_before [OF 1(1)] by blast
qed

text \<open>One instruction at the point the encoding has reached.\<close>

lemma finish_encoding_written:
  assumes fin: "xd3_iopt_finish_encoding inst e = Inr e'" and w: "written c0 S e"
    and inst: "encodable sfile (e_next_in e) inst" "in_source_window e inst" "r_pos inst = unencoded_offset e"
    and seg: "source_segment sfile e' S" and len: "length S + length (e_next_in e) < 2 ^ 32"
  shows "written c0 S e' \<and> enc_keeps sfile S e e' \<and> unencoded_offset e' = unencoded_offset e + r_size inst"
proof -
  obtain inst' e1 where 1: "encode_operands inst e = Inr (inst', e1)"
    "encode_opcode inst' (e1\<lparr>unencoded_offset := unencoded_offset e1 + r_size inst'\<rparr>) = Inr e'"
    using fin by (auto simp: xd3_iopt_finish_encoding_def err_then_Inr)
  have wf: "wf_encoder e" using w by (simp add: written_def)
  have src1: "same_source e1 e'"
    using encode_opcode_source [OF 1(2)] by (simp add: same_source_def)
  have seg1: "source_segment sfile e1 S" using seg src1 same_source_cong(2) by blast
  note ok = encode_operands_ok [OF 1(1) wf inst(1,2) seg1 len]
  obtain i d a where m: "chain_bytes (data_sec e1) = chain_bytes (data_sec e) @ d"
    "chain_bytes (addr_sec e1) = chain_bytes (addr_sec e) @ a"
    "operands_mean S (e_next_in e) inst' i d a (e_acache e) (e_acache e1)"
    using ok(1) by blast
  have fit: "unat (unencoded_offset e) + unat (r_size inst') \<le> length (e_next_in e)"
    using inst(1,3) ok(4) by (auto simp: encodable_def true_match_def)
  have pos: "r_pos inst' = unencoded_offset e" using ok(5) inst(3) by simp
  note r = encode_opcode_written [OF w ok(2,3) m pos fit 1(2)]
  have "enc_keeps sfile S e e1"
    using ok(2,6) encode_operands_segment_before [OF 1(1)] by (auto simp: enc_keeps_def same_insts_def)
  moreover have "enc_keeps sfile S e1 e'"
    using r src1 by (intro enc_keeps_source) (simp_all add: opcode_frame_def)
  ultimately show ?thesis
    using r ok(4) by (auto simp: opcode_frame_def intro: enc_keeps_trans)
qed

text \<open>The gap before it becomes an add.\<close>

lemma iopt_add_written:
  assumes add: "xd3_iopt_add pos e = Inr e'" and w: "written c0 S e"
    and pos: "unat (unencoded_offset e) \<le> unat pos" "unat pos \<le> length (e_next_in e)"
    and seg: "source_segment sfile e' S" and len: "length S + length (e_next_in e) < 2 ^ 32"
  shows "written c0 S e' \<and> enc_keeps sfile S e e' \<and> unencoded_offset e' = pos"
proof (cases "pos > unencoded_offset e")
  case True
  let ?r = "\<lparr>r_type = of_nat XD3_ADD, r_xtra = 0, r_code1 = 0, r_code2 = 0,
    r_pos = unencoded_offset e, r_size = pos - unencoded_offset e, r_addr = 0\<rparr>"
  have sz: "unat (pos - unencoded_offset e) = unat pos - unat (unencoded_offset e)"
    using pos(1) by (simp add: unat_sub_le word_le_nat_alt)
  have fin: "xd3_iopt_finish_encoding ?r e = Inr e'" using add True by (simp add: xd3_iopt_add_def Let_def)
  have "encodable sfile (e_next_in e) ?r"
    using True pos sz by (simp add: encodable_def inst_types word_less_nat_alt)
  moreover have "in_source_window e ?r" by (simp add: in_source_window_def inst_types)
  ultimately show ?thesis using finish_encoding_written [OF fin w _ _ _ seg len] by simp
next
  case False
  then have "pos = unencoded_offset e" using pos(1) by (simp add: word_le_nat_alt [symmetric])
  then show ?thesis using add w False by (simp add: xd3_iopt_add_def)
qed

lemma add_encoding_written:
  assumes add: "xd3_iopt_add_encoding r e = Inr e'" and w: "written c0 S e"
    and r: "true_match sfile (e_next_in e) r" "in_source_window e r" "unat (unencoded_offset e) \<le> unat (r_pos r)"
    and seg: "source_segment sfile e' S" and len: "length S + length (e_next_in e) < 2 ^ 32"
  shows "written c0 S e' \<and> enc_keeps sfile S e e' \<and> unencoded_offset e' = r_pos r + r_size r"
proof -
  obtain e1 where 1: "xd3_iopt_add (r_pos r) e = Inr e1" "xd3_iopt_finish_encoding r e1 = Inr e'"
    using add by (auto simp: xd3_iopt_add_encoding_def err_then_Inr)
  note seg1 = finish_segment_before [OF 1(2) seg]
  have fit: "unat (r_pos r) + unat (r_size r) \<le> length (e_next_in e)" "0 < unat (r_size r)"
    using r(1) by (simp_all add: true_match_def MIN_MATCH_def)
  have a: "written c0 S e1" "enc_keeps sfile S e e1" "unencoded_offset e1 = r_pos r"
    using iopt_add_written [OF 1(1) w r(3) _ seg1 len] fit by simp_all
  have T: "e_next_in e1 = e_next_in e" and win: "in_source_window e1 r"
    using a(2) r(2) fit(2) by (simp_all add: enc_keeps_def)
  have "written c0 S e' \<and> enc_keeps sfile S e1 e' \<and> unencoded_offset e' = unencoded_offset e1 + r_size r"
    by (rule finish_encoding_written [OF 1(2) a(1) _ win _ seg]) (use r(1) a(3) T len in \<open>simp_all add: encodable_def\<close>)
  then show ?thesis using a by (auto intro: enc_keeps_trans)
qed

text \<open>A list of matches, each at or after the end of the one before it.\<close>

fun in_order :: "nat \<Rightarrow> xd3_rinst list \<Rightarrow> bool" where
  "in_order k [] = True"
| "in_order k (r # rs) = (k \<le> unat (r_pos r) \<and> in_order (unat (r_pos r) + unat (r_size r)) rs)"

lemma iopt_used_upd [simp]:
  "source_segment sfile (e\<lparr>iopt_used := x\<rparr>) S = source_segment sfile e S"
  "in_source_window (e\<lparr>iopt_used := x\<rparr>) r = in_source_window e r"
  "enc_keeps sfile S (e\<lparr>iopt_used := x\<rparr>) e' = enc_keeps sfile S e e'"
  "enc_keeps sfile S e (e'\<lparr>iopt_used := x\<rparr>) = enc_keeps sfile S e e'"
  "written c0 S (e\<lparr>iopt_used := x\<rparr>) = written c0 S e"
  by (simp_all add: source_segment_def in_source_window_def enc_keeps_def cong: option.case_cong)
    (rule written_cong, simp_all add: same_written_def)

lemma flush_loop_segment_before:
  assumes "flush_loop force fl rs e = Inr e'" "source_segment sfile e' S"
  shows "source_segment sfile e S"
  using assms
proof (induction force fl rs e rule: flush_loop.induct)
  case (1 force fl e)
  then show ?case by auto
next
  case (2 force fl r rs e)
  obtain e1 where e1: "xd3_iopt_add_encoding r (e\<lparr>iopt_used := rs\<rparr>) = Inr e1"
    "e1 = e' \<or> flush_loop force (if force then fl else fl + 1) rs e1 = Inr e'"
    using 2(2) by (auto simp: err_then_Inr split: if_splits)
  have "source_segment sfile e1 S"
    using e1(2) 2 by (auto simp: err_then_Inr e1(1) split: if_splits)
  moreover obtain f where "xd3_iopt_add (r_pos r) (e\<lparr>iopt_used := rs\<rparr>) = Inr f" "xd3_iopt_finish_encoding r f = Inr e1"
    using e1(1) by (auto simp: xd3_iopt_add_encoding_def err_then_Inr)
  ultimately have "source_segment sfile (e\<lparr>iopt_used := rs\<rparr>) S"
    by (auto simp: xd3_iopt_add_def Let_def split: if_splits dest: finish_segment_before)
  then show ?case by simp
qed


text \<open>Encoding them all.\<close>

definition matches_ok :: "bytes \<Rightarrow> xd3_encoder \<Rightarrow> xd3_rinst list \<Rightarrow> bool" where
  "matches_ok sfile e rs \<longleftrightarrow> in_order (unat (unencoded_offset e)) rs \<and>
     list_all (\<lambda>r. true_match sfile (e_next_in e) r \<and> in_source_window e r) rs"

lemma flush_loop_written:
  assumes "flush_loop True fl rs e = Inr e'" "written c0 S e" "matches_ok sfile e rs"
    and "source_segment sfile e' S" "length S + length (e_next_in e) < 2 ^ 32"
  shows "written c0 S e' \<and> enc_keeps sfile S e e'"
  using assms
proof (induction rs arbitrary: e)
  case (Cons r rs)
  obtain e1 where e1: "xd3_iopt_add_encoding r (e\<lparr>iopt_used := rs\<rparr>) = Inr e1" "flush_loop True fl rs e1 = Inr e'"
    using Cons.prems(1) by (auto simp: err_then_Inr)
  have r: "true_match sfile (e_next_in e) r" "in_source_window e r" "unat (unencoded_offset e) \<le> unat (r_pos r)"
    using Cons.prems(3) by (simp_all add: matches_ok_def)
  have a: "written c0 S e1" "enc_keeps sfile S e e1" "unencoded_offset e1 = r_pos r + r_size r"
    using add_encoding_written [OF e1(1) _ _ _ _ flush_loop_segment_before [OF e1(2) Cons.prems(4)], of c0]
      Cons.prems(2,5) r by auto
  have fit: "unat (r_pos r + r_size r) = unat (r_pos r) + unat (r_size r)"
    using r(1) Cons.prems(5) by (intro unat_add_u32) (simp add: true_match_def)
  have "matches_ok sfile e1 rs"
    using Cons.prems(3) a(2,3) fit
    by (auto simp: matches_ok_def enc_keeps_def true_match_def MIN_MATCH_def list_all_iff)
  then show ?case
    using Cons.IH [OF e1(2) a(1)] a(2) Cons.prems(4,5) by (auto simp: enc_keeps_def)
qed auto

section \<open>The finished window\<close>

lemma finalize_source:
  assumes "(case iout e of
         None \<Rightarrow> Inr e
       | Some p \<Rightarrow> err_then (xd3_emit_single p (r_code1 p) e) (\<lambda>e.
             Inr ((xd3_iopt_free_nonadd p e)\<lparr>iout := None\<rparr>))) = Inr e'"
  shows "same_source e e'"
proof (cases "iout e")
  case None
  then show ?thesis using assms by (simp add: same_source_def)
next
  case (Some p)
  then obtain g where g: "xd3_emit_single p (r_code1 p) e = Inr g" "e' = (xd3_iopt_free_nonadd p g)\<lparr>iout := None\<rparr>"
    using assms by (auto simp: err_then_Inr)
  show ?thesis using emit_single_source [OF g(1)] by (simp add: g(2))
qed

lemma add_finalize_segment_before:
  assumes "xd3_iopt_add_finalize e = Inr e'" "source_segment sfile e' S"
  shows "source_segment sfile e S"
proof -
  obtain e1 where e1: "xd3_iopt_add (e_avail_in e) e = Inr e1" "same_source e1 e'"
    using assms(1) finalize_source by (auto simp: xd3_iopt_add_finalize_def err_then_Inr [of "xd3_iopt_add a b" for a b])
  then show ?thesis
    using assms(2) same_source_cong(2) [OF e1(2)]
    by (auto simp: xd3_iopt_add_def Let_def split: if_splits dest: finish_segment_before)
qed

text \<open>The last gap and the last opcode.\<close>

lemma add_finalize_window:
  assumes fin: "xd3_iopt_add_finalize e = Inr e'" and w: "written c0 S e"
    and seg: "source_segment sfile e' S" and len: "length S + length (e_next_in e) < 2 ^ 32"
  shows "vcd_window xd3_rfc3284_code_table c0 S (chain_bytes (data_sec e')) (chain_bytes (inst_sec e'))
     (chain_bytes (addr_sec e')) (e_next_in e) \<and> enc_keeps sfile S e e' \<and> iout e' = None \<and>
     unat (unencoded_offset e') = length (e_next_in e)"
proof -
  obtain e1 where e1: "xd3_iopt_add (e_avail_in e) e = Inr e1" "(case iout e1 of
         None \<Rightarrow> Inr e1
       | Some p \<Rightarrow> err_then (xd3_emit_single p (r_code1 p) e1) (\<lambda>e.
             Inr ((xd3_iopt_free_nonadd p e)\<lparr>iout := None\<rparr>))) = Inr e'"
    using fin by (auto simp: xd3_iopt_add_finalize_def err_then_Inr)
  have wf: "wf_encoder e" "unat (unencoded_offset e) \<le> length (e_next_in e)" using w by (simp_all add: written_def)
  have T: "unat (e_avail_in e) = length (e_next_in e)"
    using len by (simp add: unsigned_of_nat take_bit_nat_eq_self)
  have src: "same_source e1 e'"
    using finalize_source [OF e1(2)] .
  have seg1: "source_segment sfile e1 S" using seg same_source_cong(2) [OF src] by simp
  have a: "written c0 S e1" "enc_keeps sfile S e e1" "unencoded_offset e1 = e_avail_in e"
    using iopt_add_written [OF e1(1) w _ _ seg1 len] T wf by simp_all
  have T1: "e_next_in e1 = e_next_in e" using a(2) by (simp add: enc_keeps_def)
  obtain "is" p where fin: "opcodes_parse c0 S e' (chain_bytes (addr_sec e')) is p" "instructions_make S e' is"
    "e_next_in e' = e_next_in e1" "hdr_sec e' = hdr_sec e1" "iout e' = None" "unencoded_offset e' = unencoded_offset e1"
    "e_table e' = e_table e1"
  proof (cases "iout e1")
    case None
    then show thesis using e1(2) a(1) that by (auto simp: written_def)
  next
    case (Some r)
    then obtain g where g: "xd3_emit_single r (r_code1 r) e1 = Inr g" "e' = (xd3_iopt_free_nonadd r g)\<lparr>iout := None\<rparr>"
      using e1(2) by (auto simp: err_then_Inr)
    obtain "is" p i A b where 1: "opcodes_parse c0 S e1 A is p" "chain_bytes (addr_sec e1) = A @ b"
      "waits (length S) (length S + length (e_next_in e1)) r i b (p_pos p) (p_cache p) (e_acache e1)"
      "codes_single (e_table e1) (r_code1 r) r" "instructions_make S e1 (is @ [i])"
      using writtenE [OF a(1) Some] by metis
    obtain m ps q where h: "g = e1\<lparr>e_mem := m, inst_sec := ps\<rparr>" "opcodes_parse c0 S g (A @ b) (is @ [i]) q"
      using flush_waiting [OF 1(1,3,4) g(1)] a(1) by (auto simp: written_def wf_encoder_def)
    have sw: "same_written g e'" by (simp add: g(2))
    show thesis
    proof (rule that)
      show "opcodes_parse c0 S e' (chain_bytes (addr_sec e')) (is @ [i]) q"
        using h sw 1(2) same_written_cong(2) [OF sw] by (simp add: same_written_def)
      show "instructions_make S e' (is @ [i])"
        using 1(5) same_written_cong(3) [OF sw] by (simp add: h(1) instructions_make_def)
    qed (use sw h(1) g(2) in \<open>simp_all add: same_written_def\<close>)
  qed
  have "e_table e' = xd3_rfc3284_code_table" using fin(7) a(1) by (simp add: written_def wf_encoder_def)
  then show ?thesis
    using fin a T T1 same_source_cong [OF src]
    by (auto simp: vcd_window_def opcodes_parse_def instructions_make_def enc_keeps_def)
qed

end
