(* ===== verification/Iopt.thy ===== *)
theory Iopt
  imports Encode_Window
begin

text \<open>
  The instruction buffer: compacting it leaves matches that do not overlap and are still
  matches, long enough to be worth encoding.
\<close>

section \<open>Matches that can be shortened\<close>

text \<open>The interface between the buffer and what the matcher promises of an entry.\<close>

locale shortenable =
  fixes ok :: "xd3_rinst \<Rightarrow> bool"
  assumes ok_bounds: "ok r \<Longrightarrow> MIN_MATCH \<le> unat (r_size r) \<and> unat (r_pos r) + unat (r_size r) < 2 ^ 32"
    and ok_shorter: "ok r \<Longrightarrow> MIN_MATCH \<le> unat n \<Longrightarrow> unat n \<le> unat (r_size r) \<Longrightarrow> ok (r\<lparr>r_size := n\<rparr>)"
    and ok_later: "ok r \<Longrightarrow> unat c + MIN_MATCH \<le> unat (r_size r) \<Longrightarrow>
      ok (r\<lparr>r_size := r_size r - c, r_pos := r_pos r + c, r_addr := r_addr r + ucast c\<rparr>)"

abbreviation pos_of :: "xd3_rinst \<Rightarrow> nat" where
  "pos_of r \<equiv> unat (r_pos r)"

abbreviation end_of :: "xd3_rinst \<Rightarrow> nat" where
  "end_of r \<equiv> unat (r_pos r) + unat (r_size r)"

text \<open>The order the matcher finds them in: positions and ends both grow.\<close>

fun staggered :: "xd3_rinst list \<Rightarrow> bool" where
  "staggered [] = True"
| "staggered [r] = True"
| "staggered (r1 # r2 # rs) = (pos_of r1 < pos_of r2 \<and> end_of r1 < end_of r2 \<and> staggered (r2 # rs))"

text \<open>Entries that do not overlap.\<close>

fun apart :: "xd3_rinst list \<Rightarrow> bool" where
  "apart [] = True"
| "apart [r] = True"
| "apart (r1 # r2 # rs) = (end_of r1 \<le> pos_of r2 \<and> apart (r2 # rs))"

lemma apart_Cons: "apart (r # rs) \<longleftrightarrow> (rs = [] \<or> end_of r \<le> pos_of (hd rs)) \<and> apart rs"
  by (cases rs) auto

lemma staggered_Cons:
  "staggered (r # rs) \<longleftrightarrow> (rs = [] \<or> pos_of r < pos_of (hd rs) \<and> end_of r < end_of (hd rs)) \<and> staggered rs"
  by (cases rs) auto

lemma in_order_apart: "in_order k rs \<longleftrightarrow> (rs = [] \<or> k \<le> pos_of (hd rs)) \<and> apart rs"
  by (induction k rs rule: in_order.induct) (auto simp: apart_Cons)

context shortenable
begin

lemma inst_end_nat: "ok r \<Longrightarrow> unat (inst_end r) = end_of r"
  using ok_bounds [of r] by (simp add: inst_end_def unat_add_u32)

text \<open>Where two overlapping matches are made to meet.\<close>

lemma split_pair_meets:
  assumes ok: "ok r1" "ok r2" and over: "pos_of r2 < end_of r1"
    and off: "pos_of r1 + 2 < pos_of r2" "end_of r1 + 2 < end_of r2" and gap: "pos_of r1 + 8 \<le> end_of r2"
    and sp: "split_pair r1 r2 = (r1', r2')"
  shows "\<exists>n c. r1' = r1\<lparr>r_size := n\<rparr> \<and>
    r2' = r2\<lparr>r_size := r_size r2 - c, r_pos := r_pos r2 + c, r_addr := r_addr r2 + ucast c\<rparr> \<and>
    MIN_MATCH \<le> unat n \<and> unat n \<le> unat (r_size r1) \<and> unat c + MIN_MATCH \<le> unat (r_size r2) \<and>
    pos_of r1 + unat n = pos_of r2 + unat c"
proof -
  have b: "end_of r1 < 2 ^ 32" "end_of r2 < 2 ^ 32" using ok ok_bounds by blast+
  have s: "4 \<le> unat (r_size r1)" "4 \<le> unat (r_size r2)" using ok ok_bounds by (auto simp: MIN_MATCH_def)
  define gap' where "gap' = inst_end r2 - r_pos r1"
  define ns where "ns = min MAX_MATCH_SPLIT (gap' - gap' div 2)"
  define over' where "over' = inst_end r1 - r_pos r2"
  note e = inst_end_nat [OF ok(1)] inst_end_nat [OF ok(2)]
  have g: "unat gap' = end_of r2 - pos_of r1"
    using e off b over unfolding gap'_def by (subst unat_sub_le) (auto simp: word_le_nat_alt)
  have h: "unat (gap' - gap' div 2) = unat gap' - unat gap' div 2"
    by (subst unat_sub_le) (auto simp: word_le_nat_alt unat_div)
  have n: "unat ns = min 18 (unat gap' - unat gap' div 2)"
    by (simp add: ns_def MAX_MATCH_SPLIT_def min_def word_le_nat_alt h)
  have o: "unat over' = end_of r1 - pos_of r2"
    using e over unfolding over'_def by (subst unat_sub_le) (auto simp: word_le_nat_alt)
  have half: "4 \<le> unat gap' div 2" "unat ns \<le> unat gap' - unat gap' div 2" "unat ns \<le> 18"
    "4 \<le> unat ns" "unat ns + 4 \<le> unat gap'"
  proof -
    have "8 \<le> unat gap'" using g gap by simp
    then show "4 \<le> unat gap' div 2" "unat ns \<le> unat gap' - unat gap' div 2" "unat ns \<le> 18" "4 \<le> unat ns" "unat ns + 4 \<le> unat gap'"
      using n by auto
  qed
  note sp' = sp [unfolded split_pair_def Let_def, folded gap'_def over'_def, folded ns_def]
  consider (one) "ns > r_size r1" | (two) "\<not> ns > r_size r1" "ns > r_size r2"
    | (both) "\<not> ns > r_size r1" "\<not> ns > r_size r2" by blast
  then show ?thesis
  proof cases
    case one
    then have lt: "unat (r_size r1) < unat ns" by (simp add: word_less_nat_alt)
    have "r1' = r1\<lparr>r_size := r_size r1\<rparr>"
      "r2' = r2\<lparr>r_size := r_size r2 - over', r_pos := r_pos r2 + over', r_addr := r_addr r2 + ucast over'\<rparr>"
      using sp' one by auto
    moreover have "unat over' + MIN_MATCH \<le> unat (r_size r2)" "pos_of r1 + unat (r_size r1) = pos_of r2 + unat over'"
      using lt half g o off over by (auto simp: MIN_MATCH_def)
    ultimately show ?thesis using s by (intro exI [of _ "r_size r1"] exI [of _ over']) (simp add: MIN_MATCH_def)
  next
    case two
    then have lt: "unat ns \<le> unat (r_size r1)" "unat (r_size r2) < unat ns" by (simp_all add: word_less_nat_alt)
    let ?n = "r_size r1 - over'"
    have un: "unat ?n = pos_of r2 - pos_of r1"
      using o over off by (subst unat_sub_le) (auto simp: word_le_nat_alt)
    have "r1' = r1\<lparr>r_size := ?n\<rparr>"
      "r2' = r2\<lparr>r_size := r_size r2 - 0, r_pos := r_pos r2 + 0, r_addr := r_addr r2 + ucast (0 :: u32)\<rparr>"
      using sp' two by auto
    moreover have "MIN_MATCH \<le> unat ?n" "unat ?n \<le> unat (r_size r1)" "pos_of r1 + unat ?n = pos_of r2 + unat (0 :: u32)"
      using lt half g un off over by (auto simp: MIN_MATCH_def)
    ultimately show ?thesis using s by (intro exI [of _ ?n] exI [of _ 0]) (simp add: MIN_MATCH_def)
  next
    case both
    then have lt: "unat ns \<le> unat (r_size r1)" "unat ns \<le> unat (r_size r2)" by (simp_all add: word_less_nat_alt)
    define a where "a = r_size r1 - ns"
    have ua: "unat a = unat (r_size r1) - unat ns"
      unfolding a_def by (subst unat_sub_le) (use lt in \<open>auto simp: word_le_nat_alt\<close>)
    define t where "t = inst_end r1 - a"
    have ut: "unat t = pos_of r1 + unat ns"
      unfolding t_def by (subst unat_sub_le) (use lt ua e(1) in \<open>auto simp: word_le_nat_alt\<close>)
    define a' where "a' = (if r_pos r2 > t then a - (r_pos r2 - t) else a)"
    have ua': "unat a' = unat (r_size r1) - max (unat ns) (pos_of r2 - pos_of r1)"
    proof (cases "r_pos r2 > t")
      case True
      then have tl: "unat t < pos_of r2" by (simp add: word_less_nat_alt)
      have d: "unat (r_pos r2 - t) = pos_of r2 - unat t"
        using tl by (subst unat_sub_le) (auto simp: word_le_nat_alt)
      have "unat (a - (r_pos r2 - t)) = unat a - (pos_of r2 - unat t)"
        using d ua ut over by (subst unat_sub_le) (auto simp: word_le_nat_alt)
      then show ?thesis using True tl ua ut by (simp add: a'_def)
    next
      case False
      then have "pos_of r2 \<le> unat t" by (simp add: word_less_nat_alt)
      then show ?thesis using False ua ut by (simp add: a'_def)
    qed
    let ?n = "r_size r1 - a'"
    have un: "unat ?n = max (unat ns) (pos_of r2 - pos_of r1)"
      using ua' lt over by (subst unat_sub_le) (auto simp: word_le_nat_alt)
    define c where "c = r_pos r1 + ?n - r_pos r2"
    have uc: "unat c = pos_of r1 + unat ?n - pos_of r2"
    proof -
      have "unat (r_pos r1 + ?n) = pos_of r1 + unat ?n"
        using un lt over b(1) by (intro unat_add_u32) simp
      then show ?thesis unfolding c_def using un by (subst unat_sub_le) (auto simp: word_le_nat_alt)
    qed
    have "r1' = r1\<lparr>r_size := ?n\<rparr>"
      "r2' = r2\<lparr>r_size := r_size r2 - c, r_pos := r_pos r2 + c, r_addr := r_addr r2 + ucast c\<rparr>"
      using sp' [folded a_def, folded t_def, folded a'_def] both unfolding c_def by simp_all
    moreover have "MIN_MATCH \<le> unat ?n" "unat ?n \<le> unat (r_size r1)" "unat c + MIN_MATCH \<le> unat (r_size r2)"
      "pos_of r1 + unat ?n = pos_of r2 + unat c"
      using lt half(4,5) g un uc off over s by (auto simp: MIN_MATCH_def max_def)
    ultimately show ?thesis by blast
  qed
qed

text \<open>What compacting the buffer leaves.\<close>

definition compacted :: "bool \<Rightarrow> xd3_rinst list \<Rightarrow> xd3_rinst list \<Rightarrow> bool" where
  "compacted force rs ks \<longleftrightarrow> list_all ok ks \<and> staggered ks \<and> apart (if force then ks else butlast ks) \<and>
     (rs = [] \<longrightarrow> ks = []) \<and> (rs \<noteq> [] \<longrightarrow> ks \<noteq> [] \<and> pos_of (hd rs) \<le> pos_of (hd ks) \<and> (\<not> force \<longrightarrow> last ks = last rs))"

lemma compacted_Cons:
  assumes "compacted force rs ks" "ok r" "rs \<noteq> [] \<longrightarrow> end_of r \<le> pos_of (hd rs)" "rs = [] \<longrightarrow> ks = []"
    and "pos_of r0 \<le> pos_of r" "\<not> force \<longrightarrow> last (r0 # rs') = last (r # rs)"
  shows "compacted force (r0 # rs') (r # ks)"
proof -
  have "0 < unat (r_size r)" using ok_bounds [OF assms(2)] by (simp add: MIN_MATCH_def)
  moreover have "0 < unat (r_size (hd ks))" if "ks \<noteq> []"
    using that assms(1) ok_bounds [of "hd ks"] by (cases ks) (auto simp: compacted_def MIN_MATCH_def)
  moreover have "apart (if force then r # ks else butlast (r # ks))"
    using assms by (cases ks rule: rev_cases) (auto simp: compacted_def apart_Cons hd_append split: if_splits)
  ultimately show ?thesis
    using assms by (cases rs; cases ks) (auto simp: compacted_def staggered_Cons apart_Cons)
qed

lemma compacted_first:
  assumes "compacted force (r2 # rs) ks" "pos_of r1 \<le> pos_of r2" "last (r1 # rs') = last (r2 # rs)"
  shows "compacted force (r1 # rs') ks"
  using assms by (auto simp: compacted_def)

lemma compact_iopt_ok:
  assumes "compact_iopt force rs fr = (ks, fr')" "staggered rs" "list_all ok rs"
  shows "compacted force rs ks"
  using assms
proof (induction force rs fr arbitrary: ks fr' rule: compact_iopt.induct)
  case (3 force r1 r2 rs fr)
  have ok: "ok r1" "ok r2" "list_all ok rs" and st: "pos_of r1 < pos_of r2" "end_of r1 < end_of r2" "staggered (r2 # rs)"
    using 3(7,8) by simp_all
  have b: "end_of r1 < 2 ^ 32" "end_of r2 < 2 ^ 32" using ok ok_bounds by blast+
  note e1 = inst_end_nat [OF ok(1)] and e2 = inst_end_nat [OF ok(2)]
  have st': "staggered (r1 # rs)" "staggered rs" using st by (auto simp: staggered_Cons)
  show ?case
  proof (cases "inst_end r1 \<le> r_pos r2")
    case True
    then obtain ks' where ks: "compact_iopt force (r2 # rs) fr = (ks', fr')" "ks = r1 # ks'"
      using 3(6) by (auto split: prod.splits)
    have "compacted force (r2 # rs) ks'" using 3(1) [OF True ks(1)] ok st by simp
    then show ?thesis
      unfolding ks(2) by (rule compacted_Cons) (use ok True e1 in \<open>simp_all add: word_le_nat_alt\<close>)
  next
    case F1: False
    then have over: "pos_of r2 < end_of r1" using e1 by (simp add: word_le_nat_alt)
    show ?thesis
    proof (cases "rs \<noteq> [] \<and> r_pos (hd rs) \<le> inst_end r1 + 1")
      case True
      have "compacted force (r1 # rs) ks"
        by (rule 3(2) [OF F1 True]) (use 3(6) F1 True ok st' in simp_all)
      then show ?thesis by (rule compacted_first) (use True in simp_all)
    next
      case F2: False
      have far: "end_of r1 + 1 < pos_of (hd rs)" if "rs \<noteq> []"
      proof -
        have "unat (inst_end r1 + 1) = end_of r1 + 1"
          using e1 b st(2) by (subst unat_add_u32) auto
        then show ?thesis using F2 that by (simp add: word_le_nat_alt)
      qed
      show ?thesis
      proof (cases "rs = [] \<and> \<not> force")
        case True
        then have "ks = [r1, r2]" using 3(6) F1 by simp
        then show ?thesis using True ok st by (simp add: compacted_def)
      next
        case F3: False
        let ?drop = "inst_end r2 - r_pos r1 < 2 * of_nat MIN_MATCH \<or> inst_end r2 - inst_end r1 \<le> 2 \<or> r_pos r2 - r_pos r1 \<le> 2"
        show ?thesis
        proof (cases ?drop)
          case drop: True
          show ?thesis
          proof (cases "r_size r1 < r_size r2")
            case True
            have "compacted force (r2 # rs) ks"
              by (rule 3(3) [OF F1 F2 F3 refl refl refl drop True])
                (use 3(6) F1 F2 F3 drop True ok st in \<open>simp_all add: Let_def\<close>)
            then show ?thesis by (rule compacted_first) (use st in simp_all)
          next
            case False
            then obtain ks' where ks: "compact_iopt force rs (fr @ [r2]) = (ks', fr')" "ks = r1 # ks'"
              using 3(6) F1 F2 F3 drop by (auto simp: Let_def split: prod.splits)
            have "compacted force rs ks'"
              by (rule 3(4) [OF F1 F2 F3 refl refl refl drop False ks(1) st'(2) ok(3)])
            then show ?thesis
              unfolding ks(2)
              by (rule compacted_Cons) (use ok far F3 ks(1) in auto)
          qed
        next
          case keep: False
          obtain r1' r2' where sp: "split_pair r1 r2 = (r1', r2')" by fastforce
          obtain ks' where ks: "compact_iopt force (r2' # rs) fr = (ks', fr')" "ks = r1' # ks'"
            using 3(6) F1 F2 F3 keep sp by (auto simp: Let_def split: prod.splits)
          have d: "pos_of r1 + 2 < pos_of r2" "end_of r1 + 2 < end_of r2" "pos_of r1 + 8 \<le> end_of r2"
            using keep st b e1 e2 unat_sub_le [of "r_pos r1" "r_pos r2"] unat_sub_le [of "inst_end r1" "inst_end r2"]
              unat_sub_le [of "r_pos r1" "inst_end r2"]
            by (auto simp: word_le_nat_alt word_less_nat_alt MIN_MATCH_def)
          obtain n c where nc: "r1' = r1\<lparr>r_size := n\<rparr>"
            "r2' = r2\<lparr>r_size := r_size r2 - c, r_pos := r_pos r2 + c, r_addr := r_addr r2 + ucast c\<rparr>"
            "MIN_MATCH \<le> unat n" "unat n \<le> unat (r_size r1)" "unat c + MIN_MATCH \<le> unat (r_size r2)"
            "pos_of r1 + unat n = pos_of r2 + unat c"
            using split_pair_meets [OF ok(1,2) over d sp] by blast
          have p2: "unat (r_pos r2 + c) = pos_of r2 + unat c" using nc(4,6) b by (subst unat_add_u32) auto
          have s2: "unat (r_size r2 - c) = unat (r_size r2) - unat c"
            using nc(5) by (subst unat_sub_le) (auto simp: word_le_nat_alt)
          have ok': "ok r1'" "ok r2'" using ok_shorter [OF ok(1) nc(3,4)] ok_later [OF ok(2) nc(5)] nc(1,2) by simp_all
          have st2: "staggered (r2' # rs)"
            using st far nc(4,5,6) by (auto simp: staggered_Cons nc(2) p2 s2)
          have "compacted force (r2' # rs) ks'"
            by (rule 3(5) [OF F1 F2 F3 refl refl refl keep sp [symmetric] ks(1) st2]) (use ok' ok in simp)
          then show ?thesis
            unfolding ks(2)
            by (rule compacted_Cons) (use ok' nc F3 p2 in \<open>auto simp: MIN_MATCH_def\<close>)
        qed
      qed
    qed
  qed
qed (auto simp: compacted_def)

end

section \<open>The buffer's entries\<close>

text \<open>What the matcher promises: the interface is met by the matches of the window.\<close>

definition match_in :: "bytes \<Rightarrow> xd3_encoder \<Rightarrow> xd3_rinst \<Rightarrow> bool" where
  "match_in sfile e r \<longleftrightarrow>
     length (e_next_in e) < 2 ^ 32 \<and> true_match sfile (e_next_in e) r \<and> in_source_window e r"

lemma take_take_eq: "take n A = take n B \<Longrightarrow> m \<le> n \<Longrightarrow> take m A = take m B"
  by (metis min.absorb1 take_take)

lemma take_drop_eq: "take n A = take n B \<Longrightarrow> take (n - c) (drop c A) = take (n - c) (drop c B)"
  by (metis drop_take)

lemma true_match_shorter:
  assumes "true_match sfile T r" "MIN_MATCH \<le> unat n" "unat n \<le> unat (r_size r)"
  shows "true_match sfile T (r\<lparr>r_size := n\<rparr>)"
proof -
  have "list_all P (take (unat n) xs)" if "list_all P (take (unat (r_size r)) xs)" for P and xs :: bytes
    using that set_take_subset_set_take [OF assms(3), of xs] by (auto simp: list_all_iff)
  then show ?thesis
    using assms take_take_eq [OF _ assms(3)] by (auto simp: true_match_def)
qed

lemma true_match_later:
  assumes m: "true_match sfile T r" and c: "unat c + MIN_MATCH \<le> unat (r_size r)" and T: "length T < 2 ^ 32"
  shows "true_match sfile T (r\<lparr>r_size := r_size r - c, r_pos := r_pos r + c, r_addr := r_addr r + ucast c\<rparr>)"
proof -
  have s: "unat (r_size r - c) = unat (r_size r) - unat c"
    using c by (subst unat_sub_le) (auto simp: word_le_nat_alt)
  have p: "unat (r_pos r + c) = unat (r_pos r) + unat c"
    using m c T by (subst unat_add_u32) (auto simp: true_match_def)
  have a: "unat (r_addr r + ucast c) = unat (r_addr r) + unat c" if "unat (r_addr r) + unat c < 2 ^ 64"
    using that by (subst unat_add_u64) (auto simp: unat_ucast_u32_u64)
  have runs: "list_all P (take (unat (r_size r) - unat c) (drop (unat (r_pos r) + unat c) T))"
    if "list_all P (take (unat (r_size r)) (drop (unat (r_pos r)) T))" for P
    using that set_drop_subset [of "unat c" "take (unat (r_size r)) (drop (unat (r_pos r)) T)"]
    by (auto simp: list_all_iff drop_take ac_simps)
  have eqs: "take (unat (r_size r) - unat c) (drop (unat (r_addr r) + unat c) A) =
      take (unat (r_size r) - unat c) (drop (unat (r_pos r) + unat c) T)"
    if "take (unat (r_size r)) (drop (unat (r_addr r)) A) = take (unat (r_size r)) (drop (unat (r_pos r)) T)" for A
    using take_drop_eq [OF that, of "unat c"] by (simp add: add.commute)
  have fit: "unat (r_pos r) + unat (r_size r) \<le> length T" "MIN_MATCH \<le> unat (r_size r) - unat c"
    using m c by (simp_all add: true_match_def)
  show ?thesis
  proof (cases "unat (r_type r) = XD3_RUN")
    case True
    then show ?thesis using m runs fit c by (simp add: true_match_def s p)
  next
    case copy: False
    show ?thesis
    proof (cases "r_xtra r = 0")
      case True
      have "unat (r_addr r) + unat c < 2 ^ 64" using m copy True fit T c by (simp add: true_match_def)
      then show ?thesis using m copy True eqs fit c by (simp add: true_match_def s p a)
    next
      case False
      then have "unat (r_addr r) + unat c < 2 ^ 64" using m copy c by (simp add: true_match_def)
      then show ?thesis using m copy False eqs fit c by (simp add: true_match_def s p a)
    qed
  qed
qed

lemma in_source_window_later:
  assumes "in_source_window e r" "unat c \<le> unat (r_size r)" "unat (r_addr r) + unat c < 2 ^ 64 \<or> r_xtra r = 0"
  shows "in_source_window e (r\<lparr>r_size := r_size r - c, r_pos := r_pos r + c, r_addr := r_addr r + ucast c\<rparr>)"
proof (cases "r_xtra r = 0")
  case False
  have s: "unat (r_size r - c) = unat (r_size r) - unat c"
    using assms(2) by (subst unat_sub_le) (auto simp: word_le_nat_alt)
  have "unat (r_addr r + ucast c) = unat (r_addr r) + unat c"
    using assms(3) False by (subst unat_add_u64) (auto simp: unat_ucast_u32_u64)
  then show ?thesis using assms by (auto simp: in_source_window_def s split: option.splits)
qed (simp add: in_source_window_def)

interpretation iopt: shortenable "match_in sfile e" for sfile e
proof unfold_locales
  fix r n c
  assume m: "match_in sfile e r"
  then show "MIN_MATCH \<le> unat (r_size r) \<and> unat (r_pos r) + unat (r_size r) < 2 ^ 32"
    by (auto simp: match_in_def true_match_def)
  show "match_in sfile e (r\<lparr>r_size := n\<rparr>)" if "MIN_MATCH \<le> unat n" "unat n \<le> unat (r_size r)"
    using m true_match_shorter [OF _ that] that
    by (auto simp: match_in_def in_source_window_def split: option.splits)
  show "match_in sfile e (r\<lparr>r_size := r_size r - c, r_pos := r_pos r + c, r_addr := r_addr r + ucast c\<rparr>)"
    if "unat c + MIN_MATCH \<le> unat (r_size r)"
  proof -
    have "unat (r_addr r) + unat c < 2 ^ 64 \<or> r_xtra r = 0 \<or> unat (r_type r) \<noteq> XD3_CPY"
      using m that by (auto simp: match_in_def true_match_def inst_types)
    then have "in_source_window e (r\<lparr>r_size := r_size r - c, r_pos := r_pos r + c, r_addr := r_addr r + ucast c\<rparr>)"
    proof (cases "unat (r_type r) = XD3_CPY \<and> r_xtra r \<noteq> 0")
      case True
      then show ?thesis using in_source_window_later [of e r c] m that \<open>_ \<or> _ \<or> _\<close> by (auto simp: match_in_def)
    qed (auto simp: in_source_window_def)
    then show ?thesis using m true_match_later [OF _ that] by (simp add: match_in_def)
  qed
qed

section \<open>The invariant of the back end\<close>

text \<open>
  Whatever the source segment will be, what is written is right so far; the buffer holds
  matches in order, at or after the point reached.
\<close>

definition encoder_inv :: "bytes \<Rightarrow> xd3_addr_cache \<Rightarrow> xd3_encoder \<Rightarrow> bool" where
  "encoder_inv sfile c0 e \<longleftrightarrow>
     (\<forall>S. source_segment sfile e S \<and> length S + length (e_next_in e) < 2 ^ 32 \<longrightarrow> written c0 S e) \<and>
     staggered (iopt_used e) \<and> list_all (match_in sfile e) (iopt_used e) \<and>
     (iopt_used e \<noteq> [] \<longrightarrow> unat (unencoded_offset e) \<le> pos_of (hd (iopt_used e)))"

lemma match_in_keeps:
  "enc_keeps sfile S e e' \<Longrightarrow> match_in sfile e r \<Longrightarrow> match_in sfile e' r"
  by (auto simp: match_in_def enc_keeps_def true_match_def MIN_MATCH_def)

lemma iopt_slots_upd [simp]:
  "match_in sfile (e\<lparr>iopt_used := x, iopt_free := y\<rparr>) r = match_in sfile e r"
  "match_in sfile (e\<lparr>iopt_used := x\<rparr>) r = match_in sfile e r"
  "in_source_window (e\<lparr>iopt_used := x, iopt_free := y\<rparr>) r = in_source_window e r"
  "written c0 S (e\<lparr>iopt_used := x, iopt_free := y\<rparr>) = written c0 S e"
  "source_segment sfile (e\<lparr>iopt_used := x, iopt_free := y\<rparr>) S = source_segment sfile e S"
  "enc_keeps sfile S (e\<lparr>iopt_used := x, iopt_free := y\<rparr>) e' = enc_keeps sfile S e e'"
  by (simp_all add: match_in_def source_segment_def in_source_window_def enc_keeps_def cong: option.case_cong)
    (rule written_cong, simp_all add: same_written_def)

lemma flush_loop_empties: "flush_loop True fl rs e = Inr e' \<Longrightarrow> iopt_used e' = []"
  by (induction rs arbitrary: e) (auto simp: err_then_Inr)

text \<open>Forced, the whole buffer is encoded.\<close>

lemma flush_forced:
  assumes fl: "xd3_iopt_flush_instructions True e = Inr e'" and inv: "encoder_inv sfile c0 e"
    and seg: "source_segment sfile e' S" and len: "length S + length (e_next_in e) < 2 ^ 32"
  shows "written c0 S e' \<and> enc_keeps sfile S e e' \<and> iopt_used e' = []"
proof -
  obtain ks fr where c: "compact_iopt True (iopt_used e) (iopt_free e) = (ks, fr)"
    "flush_loop True 0 ks (e\<lparr>iopt_used := ks, iopt_free := fr\<rparr>) = Inr e'"
    using fl by (auto simp: xd3_iopt_flush_instructions_def split: prod.splits)
  let ?f = "e\<lparr>iopt_used := ks, iopt_free := fr\<rparr>"
  have seg0: "source_segment sfile ?f S" by (rule flush_loop_segment_before [OF c(2) seg])
  then have w: "written c0 S ?f" using inv len by (simp add: encoder_inv_def)
  have k: "iopt.compacted sfile e True (iopt_used e) ks"
    by (rule iopt.compact_iopt_ok [OF c(1)]) (use inv in \<open>simp_all add: encoder_inv_def\<close>)
  have "matches_ok sfile ?f ks"
    using k inv
    by (auto simp: matches_ok_def iopt.compacted_def in_order_apart encoder_inv_def match_in_def
        list_all_iff dest: le_trans)
  then have "written c0 S e' \<and> enc_keeps sfile S ?f e'"
    using flush_loop_written [OF c(2) w _ seg] len by simp
  moreover have "iopt_used e' = []"
    by (rule flush_loop_empties [OF c(2)])
  ultimately show ?thesis by simp
qed

end
