(* ===== verification/Header.thy ===== *)
theory Header
  imports Iopt
begin

text \<open>
  The window header: the bytes \<^verbatim>\<open>xd3_emit_hdr\<close> writes, and what the decoder's states from
  \<^verbatim>\<open>DEC_WININD\<close> to \<^verbatim>\<open>DEC_CKSUM\<close> make of them.
\<close>

section \<open>Writing it\<close>

text \<open>Only the header section and the allocator's state change.\<close>

definition hdr_writes :: "xd3_encoder \<Rightarrow> xd3_encoder \<Rightarrow> bytes \<Rightarrow> bool" where
  "hdr_writes e e' bs \<longleftrightarrow> (\<exists>m ps. e' = e\<lparr>e_mem := m, hdr_sec := ps\<rparr> \<and>
     (hdr_sec e \<noteq> [] \<longrightarrow> ps \<noteq> [] \<and> chain_bytes ps = chain_bytes (hdr_sec e) @ bs))"

lemma hdr_writes_trans: "hdr_writes e f as \<Longrightarrow> hdr_writes f g bs \<Longrightarrow> hdr_writes e g (as @ bs)"
  by (fastforce simp: hdr_writes_def)

lemma hdr_writes_fields:
  assumes "hdr_writes e e' bs"
  shows "hdr_sec e \<noteq> [] \<longrightarrow> hdr_sec e' \<noteq> [] \<and> chain_bytes (hdr_sec e') = chain_bytes (hdr_sec e) @ bs"
    "e_next_in e' = e_next_in e" "e_flags e' = e_flags e" "e_src e' = e_src e"
    "data_sec e' = data_sec e" "inst_sec e' = inst_sec e" "addr_sec e' = addr_sec e"
    "recode_adler32 e' = recode_adler32 e" "enc_appheader e' = enc_appheader e" "same_source e e'"
    "e_window e' = e_window e"
  using assms by (auto simp: hdr_writes_def same_source_def)

lemma hdr_writes_nil: "hdr_writes e e []"
  unfolding hdr_writes_def by (intro exI [of _ "e_mem e"] exI [of _ "hdr_sec e"]) simp

lemma emit_byte_hdr:
  "emit_byte_to hdr_sec HDR_TAIL b e = Inr e' \<Longrightarrow> hdr_writes e e' [b]"
  using xd3_emit_byte_appends [of "e_mem e" "hdr_sec e" b]
  by (fastforce simp: emit_byte_to_def err_then_Inr hdr_writes_def)

lemma emit_bytes_hdr:
  "emit_bytes_to hdr_sec HDR_TAIL bs e = Inr e' \<Longrightarrow> hdr_writes e e' bs"
  using xd3_emit_bytes_appends [of "e_mem e" "hdr_sec e" bs]
  by (fastforce simp: emit_bytes_to_def err_then_Inr hdr_writes_def)

lemma emit_size_hdr:
  "emit_size_to hdr_sec HDR_TAIL v e = Inr e' \<Longrightarrow> hdr_writes e e' (integer_bytes v)"
  using xd3_emit_bytes_appends [of "e_mem e" "hdr_sec e" "integer_bytes v"]
  by (fastforce simp: emit_size_to_def xd3_emit_uint32_t_def emit_integer_def err_then_Inr hdr_writes_def)

lemma emit_offset_hdr:
  "emit_offset_to hdr_sec HDR_TAIL v e = Inr e' \<Longrightarrow> hdr_writes e e' (integer_bytes v)"
  using xd3_emit_bytes_appends [of "e_mem e" "hdr_sec e" "integer_bytes v"]
  by (fastforce simp: emit_offset_to_def xd3_emit_uint64_t_def emit_integer_def err_then_Inr hdr_writes_def)

lemma err_thenE:
  assumes "err_then p f = Inr y"
  obtains x where "p = Inr x" "f x = Inr y"
  using assms by (auto simp: err_then_Inr)

definition file_header_bytes :: "bytes option \<Rightarrow> bytes" where
  "file_header_bytes app =
     [0xd6, 0xc3, 0xc4, 0, if app = None then 0 else ucast VCD_APPHEADER] @
     (case app of None \<Rightarrow> [] | Some a \<Rightarrow> integer_bytes (of_nat (length a) :: u32) @ a)"

lemma emit_file_header_writes:
  assumes "emit_file_header e = Inr e'"
  shows "hdr_writes e e' (file_header_bytes (enc_appheader e))"
proof -
  obtain f where f: "hdr_writes e f ([0xd6] @ [0xc3] @ [0xc4] @ [0] @ [if enc_appheader e = None then 0 else ucast VCD_APPHEADER])"
    "(case enc_appheader f of None \<Rightarrow> Inr f
      | Some app \<Rightarrow> err_then (emit_size_to hdr_sec HDR_TAIL (of_nat (length app)) f)
                (emit_bytes_to hdr_sec HDR_TAIL app)) = Inr e'"
  proof -
    obtain e1 e2 e3 e4 e5 where s: "emit_byte_to hdr_sec HDR_TAIL 0xd6 e = Inr e1"
      "emit_byte_to hdr_sec HDR_TAIL 0xc3 e1 = Inr e2" "emit_byte_to hdr_sec HDR_TAIL 0xc4 e2 = Inr e3"
      "emit_byte_to hdr_sec HDR_TAIL 0 e3 = Inr e4"
      "emit_byte_to hdr_sec HDR_TAIL (ucast (if enc_appheader e \<noteq> None then VCD_APPHEADER else 0)) e4 = Inr e5"
      "(case enc_appheader e5 of None \<Rightarrow> Inr e5
        | Some app \<Rightarrow> err_then (emit_size_to hdr_sec HDR_TAIL (of_nat (length app)) e5)
                (emit_bytes_to hdr_sec HDR_TAIL app)) = Inr e'"
      using assms unfolding emit_file_header_def Let_def by (elim err_thenE) (rule that)
    note h1 = emit_byte_hdr [OF s(1)]
    note h2 = emit_byte_hdr [OF s(2)]
    note h3 = emit_byte_hdr [OF s(3)]
    note h4 = emit_byte_hdr [OF s(4)]
    note h5 = emit_byte_hdr [OF s(5)]
    show thesis
      by (rule that [OF _ s(6)]) (use hdr_writes_trans [OF h1 hdr_writes_trans [OF h2 hdr_writes_trans
            [OF h3 hdr_writes_trans [OF h4 h5]]]] in \<open>cases "enc_appheader e"; simp\<close>)
  qed
  note ff = hdr_writes_fields [OF f(1)]
  have "hdr_writes f e' (case enc_appheader e of None \<Rightarrow> [] | Some a \<Rightarrow> integer_bytes (of_nat (length a) :: u32) @ a)"
  proof (cases "enc_appheader e")
    case None
    then show ?thesis using f(2) ff by (simp add: hdr_writes_nil)
  next
    case (Some a)
    then obtain g where g: "emit_size_to hdr_sec HDR_TAIL (of_nat (length a)) f = Inr g"
      "emit_bytes_to hdr_sec HDR_TAIL a g = Inr e'"
      using f(2) ff by (auto simp: err_then_Inr)
    note h = emit_size_hdr [OF g(1)]
    show ?thesis using hdr_writes_trans [OF h emit_bytes_hdr [OF g(2)]] Some by simp
  qed
  from hdr_writes_trans [OF f(1) this] show ?thesis by (simp add: file_header_bytes_def)
qed

text \<open>The window's header, from the sizes of its sections.\<close>

definition win_bits :: "bool \<Rightarrow> bool \<Rightarrow> u32" where
  "win_bits vcd_source use_adler32 =
     (if vcd_source then VCD_SOURCE else 0) OR (if use_adler32 then VCD_ADLER32 else 0)"

definition big_endian :: "u32 \<Rightarrow> bytes" where
  "big_endian a = [ucast (drop_bit 24 a), ucast (drop_bit 16 a), ucast (drop_bit 8 a), ucast (a AND 0xff)]"

definition header_bytes ::
    "(u32 \<times> u64) option \<Rightarrow> u32 \<Rightarrow> u32 \<Rightarrow> u32 \<Rightarrow> u32 \<Rightarrow> u32 option \<Rightarrow> bytes" where
  "header_bytes win tgt d i a adl =
     [ucast (win_bits (win \<noteq> None) (adl \<noteq> None))] @
     (case win of None \<Rightarrow> [] | Some (len, off) \<Rightarrow> integer_bytes len @ integer_bytes off) @
     integer_bytes (emit_enclen tgt d i a (adl \<noteq> None)) @
     integer_bytes tgt @ [0] @ integer_bytes d @ integer_bytes i @ integer_bytes a @
     (case adl of None \<Rightarrow> [] | Some x \<Rightarrow> big_endian x)"

definition window_source :: "xd3_encoder \<Rightarrow> (u32 \<times> u64) option" where
  "window_source e = (if xd3_encoder_used_source e then Some (srclen (the (e_src e)), srcbase (the (e_src e))) else None)"

definition window_checksum :: "'l::len itself \<Rightarrow> xd3_encoder \<Rightarrow> u32 option" where
  "window_checksum l e =
     (if e_flags e AND (XD3_ADLER32 OR XD3_ADLER32_RECODE) = 0 then None
      else Some (if e_flags e AND XD3_ADLER32 \<noteq> 0 then window_adler32 l (e_next_in e) else recode_adler32 e))"

definition window_header_bytes :: "'l::len itself \<Rightarrow> xd3_encoder \<Rightarrow> bytes" where
  "window_header_bytes l e =
     header_bytes (window_source e) (e_avail_in e) (xd3_sizeof_output (data_sec e)) (xd3_sizeof_output (inst_sec e))
       (xd3_sizeof_output (addr_sec e)) (window_checksum l e)"

lemma emit_window_header_writes:
  assumes em: "emit_window_header l e = Inr e'"
  shows "hdr_writes e e' (window_header_bytes l e)"
proof -
  let ?ad = "e_flags e AND (XD3_ADLER32 OR XD3_ADLER32_RECODE) \<noteq> 0" and ?vs = "xd3_encoder_used_source e"
  let ?s = "\<lambda>sec. xd3_sizeof_output (sec e)"
  obtain e1 e2 e3 e4 e5 e6 e7 e8 where s:
    "emit_byte_to hdr_sec HDR_TAIL (ucast (win_bits ?vs ?ad)) e = Inr e1"
    "(if ?vs then err_then (emit_size_to hdr_sec HDR_TAIL (srclen (the (e_src e1))) e1)
                   (emit_offset_to hdr_sec HDR_TAIL (srcbase (the (e_src e1))))
            else Inr e1) = Inr e2"
    "emit_size_to hdr_sec HDR_TAIL (emit_enclen (e_avail_in e) (?s data_sec) (?s inst_sec) (?s addr_sec) ?ad) e2 = Inr e3"
    "emit_size_to hdr_sec HDR_TAIL (e_avail_in e) e3 = Inr e4"
    "emit_byte_to hdr_sec HDR_TAIL 0 e4 = Inr e5"
    "emit_size_to hdr_sec HDR_TAIL (?s data_sec) e5 = Inr e6"
    "emit_size_to hdr_sec HDR_TAIL (?s inst_sec) e6 = Inr e7"
    "emit_size_to hdr_sec HDR_TAIL (?s addr_sec) e7 = Inr e8"
    "(if ?ad then emit_adler32 l e8 else Inr e8) = Inr e'"
    using em [unfolded emit_window_header_def Let_def, folded win_bits_def] by (elim err_thenE) (rule that)
  note h1 = emit_byte_hdr [OF s(1)] note f1 = hdr_writes_fields [OF h1]
  have h2: "hdr_writes e1 e2 (case window_source e of None \<Rightarrow> [] | Some (len, off) \<Rightarrow> integer_bytes len @ integer_bytes off)"
  proof (cases ?vs)
    case True
    then obtain g where g: "emit_size_to hdr_sec HDR_TAIL (srclen (the (e_src e1))) e1 = Inr g"
      "emit_offset_to hdr_sec HDR_TAIL (srcbase (the (e_src e1))) g = Inr e2"
      using s(2) by (auto simp: err_then_Inr)
    note hg = emit_size_hdr [OF g(1)]
    show ?thesis
      using hdr_writes_trans [OF hg emit_offset_hdr [OF g(2)]] True f1(4)
      by (simp add: window_source_def)
  next
    case False
    then show ?thesis using s(2) by (simp add: window_source_def hdr_writes_nil)
  qed
  note h3 = emit_size_hdr [OF s(3)]
  note h4 = emit_size_hdr [OF s(4)]
  note h5 = emit_byte_hdr [OF s(5)]
  note h6 = emit_size_hdr [OF s(6)]
  note h7 = emit_size_hdr [OF s(7)]
  note h8 = emit_size_hdr [OF s(8)]
  note all8 = hdr_writes_trans [OF h1 hdr_writes_trans [OF h2 hdr_writes_trans [OF h3 hdr_writes_trans
    [OF h4 hdr_writes_trans [OF h5 hdr_writes_trans [OF h6 hdr_writes_trans [OF h7 h8]]]]]]]
  note f8 = hdr_writes_fields [OF all8]
  have h9: "hdr_writes e8 e' (case window_checksum l e of None \<Rightarrow> [] | Some x \<Rightarrow> big_endian x)"
  proof (cases ?ad)
    case True
    then show ?thesis
      using s(9) f8 emit_bytes_hdr
      by (auto simp: emit_adler32_def Let_def window_checksum_def big_endian_def)
  next
    case False
    then show ?thesis using s(9) f8 by (simp add: window_checksum_def hdr_writes_nil)
  qed
  have n: "(window_source e \<noteq> None) = ?vs" "(window_checksum l e \<noteq> None) = ?ad"
    by (simp_all add: window_source_def window_checksum_def)
  show ?thesis
    using hdr_writes_trans [OF all8 h9] unfolding window_header_bytes_def header_bytes_def n by simp
qed

section \<open>Reading it\<close>

lemma win_bits_byte: "ucast (ucast (win_bits vs ad) :: u8) = win_bits vs ad"
  by (cases vs; cases ad; simp add: win_bits_def; code_simp)

lemma win_bits_and:
  "win_bits vs ad AND VCD_TARGET = 0" "win_bits vs ad AND VCD_INVWIN = 0"
  "win_bits vs ad AND VCD_ADLER32 = (if ad then VCD_ADLER32 else 0)"
  "win_bits vs ad AND VCD_SOURCE = (if vs then VCD_SOURCE else 0)"
  "SRCORTGT (win_bits vs ad) = (if vs then VCD_SOURCE else 0)"
  by (cases vs; cases ad; simp add: win_bits_def; code_simp)+

lemma vcd_bits_nonzero: "VCD_ADLER32 \<noteq> 0" "VCD_SOURCE \<noteq> 0"
  by code_simp+

lemma decode_size_ok:
  assumes "next_in s = integer_bytes v @ rest" "dec_32part s = 0"
  shows "\<exists>t. xd3_decode_size pt s = ok (pt v (s\<lparr>dec_32part := 0, total_in := t, next_in := rest\<rparr>))"
  using assms decode_integer_bytes [of v rest]
  by (auto simp: xd3_decode_size_def xd3_decode_uint32_t_def UINT32_OFLOW_MASK_eq DECODE_INPUT_def)

lemma decode_offset_ok:
  assumes "next_in s = integer_bytes v @ rest" "dec_64part s = 0"
  shows "\<exists>t. xd3_decode_offset pt s = ok (pt v (s\<lparr>dec_64part := 0, total_in := t, next_in := rest\<rparr>))"
  using assms decode_integer_bytes [of v rest]
  by (auto simp: xd3_decode_offset_def xd3_decode_uint64_t_def UINT64_OFLOW_MASK_eq DECODE_INPUT_def)


lemma decode_four:
  assumes "next_in s = [a, b, c, d] @ rest" "dec_cksumbytes s = 0" "length (dec_cksum s) = 4"
  shows "\<exists>t. xd3_decode_bytes dec_cksum (\<lambda>b s. s\<lparr>dec_cksum := b\<rparr>) dec_cksumbytes (\<lambda>p s. s\<lparr>dec_cksumbytes := p\<rparr>) 4 s =
    ok (s\<lparr>dec_cksum := [a, b, c, d], dec_cksumbytes := 4, total_in := t, next_in := rest\<rparr>)"
proof -
  have "decode_bytes_loop (dec_cksum s) 0 4 ([a, b, c, d] @ rest) = Some (True, [a, b, c, d], 4, rest)"
    using assms(3) by (subst decode_bytes_loop.simps, subst decode_bytes_loop.simps) (simp add: blit_def)
  then show ?thesis
    using assms by (intro exI [of _ "total_in s + 4"]) (simp add: xd3_decode_bytes_def DECODE_INPUT_def Let_def)
qed

lemma big_endian_value:
  "fold (\<lambda>i a. push_bit 8 a OR ucast (big_endian x ! i)) [0..<4] (y :: u32) = x"
proof -
  have "fold (\<lambda>i a. push_bit 8 a OR ucast (big_endian x ! i)) [0..<4] y =
     push_bit 8 (push_bit 8 (push_bit 8 (push_bit 8 y OR ucast (ucast (drop_bit 24 x) :: u8)) OR
       ucast (ucast (drop_bit 16 x) :: u8)) OR ucast (ucast (drop_bit 8 x) :: u8)) OR ucast (ucast (x AND 0xff) :: u8)"
    by (simp add: big_endian_def upt_conv_Cons)
  also have "\<dots> = x"
  proof (rule bit_word_eqI)
    fix n
    assume n: "n < LENGTH(32)"
    have ff: "(0xff :: u32) = mask 8" by code_simp
    show "bit (push_bit 8 (push_bit 8 (push_bit 8 (push_bit 8 y OR ucast (ucast (drop_bit 24 x) :: u8)) OR
       ucast (ucast (drop_bit 16 x) :: u8)) OR ucast (ucast (drop_bit 8 x) :: u8)) OR ucast (ucast (x AND 0xff) :: u8)) n = bit x n"
    proof -
      consider "n < 8" | "8 \<le> n" "n < 16" | "16 \<le> n" "n < 24" | "24 \<le> n" "n < 32" using n by force
      then show ?thesis unfolding ff by cases (auto simp: bit_simps)
    qed
  qed
  finally show ?thesis .
qed

text \<open>The last step: the checksum, and the check of the redundant length.\<close>

lemma CKSUM_reads:
  assumes inp: "next_in s = (case adl of None \<Rightarrow> [] | Some x \<Rightarrow> big_endian x) @ rest"
    and ad: "(dec_win_ind s AND VCD_ADLER32 \<noteq> 0) = (adl \<noteq> None)" and c: "dec_cksumbytes s = 0" "length (dec_cksum s) = 4"
    and len: "dec_enclen s = emit_enclen (dec_tgtlen s) (sec_size (data_sect s)) (sec_size (inst_sect s))
      (sec_size (addr_sect s)) (adl \<noteq> None)"
  shows "\<exists>t ck cb a. dec_CKSUM s = Some (if current_window s = 0 then XD3_GOTHEADER else XD3_WINSTART,
    s\<lparr>dec_state := DEC_DATA, next_in := rest, total_in := t, dec_cksum := ck, dec_cksumbytes := cb, dec_adler32 := a\<rparr>) \<and>
    (adl \<noteq> None \<longrightarrow> adl = Some a) \<and> length ck = 4"
proof (cases adl)
  case None
  have rest: "rest = next_in s" using inp None by simp
  show ?thesis
    unfolding rest
    by (rule exI [of _ "total_in s"], rule exI [of _ "dec_cksum s"], rule exI [of _ "dec_cksumbytes s"],
        rule exI [of _ "dec_adler32 s"])
      (use ad len None c(2) in \<open>simp add: dec_CKSUM_def Let_def enclen_check_def emit_enclen_def\<close>)
next
  case (Some x)
  obtain t where t: "xd3_decode_bytes dec_cksum (\<lambda>b s. s\<lparr>dec_cksum := b\<rparr>) dec_cksumbytes (\<lambda>p s. s\<lparr>dec_cksumbytes := p\<rparr>) 4 s =
    ok (s\<lparr>dec_cksum := big_endian x, dec_cksumbytes := 4, total_in := t, next_in := rest\<rparr>)"
    using decode_four [OF _ c] inp Some by (fastforce simp: big_endian_def)
  show ?thesis
    by (rule exI [of _ t], rule exI [of _ "big_endian x"], rule exI [of _ 4], rule exI [of _ x])
      (use ad len Some in \<open>simp add: dec_CKSUM_def t big_endian_value big_endian_def [of x, THEN arg_cong [where f = length]] Let_def enclen_check_def emit_enclen_def\<close>)
qed

text \<open>The stream after the header: what the last states leave, apart from the values they store.\<close>

definition after_header :: "bytes \<Rightarrow> u32 option \<Rightarrow> xd3_stream \<Rightarrow> xd3_stream \<Rightarrow> bool" where
  "after_header rest adl s s' \<longleftrightarrow>
     (\<exists>t ck cb a. s' = s\<lparr>dec_state := DEC_DATA, next_in := rest, total_in := t, dec_32part := 0, dec_64part := 0,
        dec_cksum := ck, dec_cksumbytes := cb, dec_adler32 := a\<rparr> \<and> (adl \<noteq> None \<longrightarrow> adl = Some a) \<and> length ck = 4)"

lemma after_header_step [simp]:
  "after_header rest adl (s\<lparr>dec_state := x, next_in := y, total_in := z, dec_32part := 0\<rparr>) s' = after_header rest adl s s'"
  "after_header rest adl (s\<lparr>dec_state := x, next_in := y, total_in := z, dec_64part := 0\<rparr>) s' = after_header rest adl s s'"
  "after_header rest adl (s\<lparr>dec_state := x, next_in := y, total_in := z\<rparr>) s' = after_header rest adl s s'"
  "after_header rest adl (s\<lparr>dec_state := x\<rparr>) s' = after_header rest adl s s'"
  by (simp_all add: after_header_def)

definition header_code :: "xd3_stream \<Rightarrow> xd3_ret" where
  "header_code s = (if current_window s = 0 then XD3_GOTHEADER else XD3_WINSTART)"

lemma SIZE_reads:
  assumes "next_in s = integer_bytes v @ rest" "dec_32part s = 0"
  shows "\<exists>t. SIZE_CASE True pt nstate s =
    ok ((pt v (s\<lparr>dec_32part := 0, total_in := t, next_in := rest\<rparr>))\<lparr>dec_state := nstate\<rparr>)"
  using decode_size_ok [OF assms, of pt] by (auto simp: SIZE_CASE_def goto_def)

lemma OFFSET_reads:
  assumes "next_in s = integer_bytes v @ rest" "dec_64part s = 0"
  shows "\<exists>t. OFFSET_CASE True pt nstate s =
    ok ((pt v (s\<lparr>dec_64part := 0, total_in := t, next_in := rest\<rparr>))\<lparr>dec_state := nstate\<rparr>)"
  using decode_offset_ok [OF assms, of pt] by (auto simp: OFFSET_CASE_def goto_def)

definition checksum_bytes :: "u32 option \<Rightarrow> bytes" where
  "checksum_bytes adl = (case adl of None \<Rightarrow> [] | Some x \<Rightarrow> big_endian x)"

text \<open>What each state needs of the stream.\<close>

definition header_ready :: "u32 option \<Rightarrow> xd3_stream \<Rightarrow> bool" where
  "header_ready adl s \<longleftrightarrow> dec_32part s = 0 \<and> dec_64part s = 0 \<and> dec_cksumbytes s = 0 \<and> length (dec_cksum s) = 4 \<and>
     (dec_win_ind s AND VCD_ADLER32 \<noteq> 0) = (adl \<noteq> None)"

lemma header_ready_part: "header_ready adl s \<Longrightarrow> dec_32part s = 0" "header_ready adl s \<Longrightarrow> dec_64part s = 0"
  by (simp_all add: header_ready_def)

lemma ADDRLEN_reads:
  assumes inp: "next_in s = integer_bytes a @ checksum_bytes adl @ rest" and r: "header_ready adl s"
    and len: "dec_enclen s = emit_enclen (dec_tgtlen s) (sec_size (data_sect s)) (sec_size (inst_sect s)) a (adl \<noteq> None)"
  shows "\<exists>s'. dec_ADDRLEN s = Some (header_code s, s') \<and>
    after_header rest adl (s\<lparr>addr_sect := (addr_sect s)\<lparr>sec_size := a\<rparr>\<rparr>) s'"
proof -
  obtain t where t: "SIZE_CASE True (\<lambda>v s. s\<lparr>addr_sect := (addr_sect s)\<lparr>sec_size := v\<rparr>\<rparr>) DEC_CKSUM s =
    ok (s\<lparr>dec_32part := 0, total_in := t, next_in := checksum_bytes adl @ rest,
          addr_sect := (addr_sect s)\<lparr>sec_size := a\<rparr>, dec_state := DEC_CKSUM\<rparr>)"
    using SIZE_reads [OF inp header_ready_part(1) [OF r],
        of "\<lambda>v s. s\<lparr>addr_sect := (addr_sect s)\<lparr>sec_size := v\<rparr>\<rparr>" DEC_CKSUM] by auto
  let ?s = "s\<lparr>dec_32part := 0, total_in := t, next_in := checksum_bytes adl @ rest,
          addr_sect := (addr_sect s)\<lparr>sec_size := a\<rparr>, dec_state := DEC_CKSUM\<rparr>"
  obtain t' ck cb x where c: "dec_CKSUM ?s = Some (if current_window ?s = 0 then XD3_GOTHEADER else XD3_WINSTART,
    ?s\<lparr>dec_state := DEC_DATA, next_in := rest, total_in := t', dec_cksum := ck, dec_cksumbytes := cb, dec_adler32 := x\<rparr>)"
    "adl \<noteq> None \<longrightarrow> adl = Some x" "length ck = 4"
    using CKSUM_reads [of ?s adl rest] r len by (auto simp: header_ready_def checksum_bytes_def)
  let ?s' = "?s\<lparr>dec_state := DEC_DATA, next_in := rest, total_in := t', dec_cksum := ck, dec_cksumbytes := cb, dec_adler32 := x\<rparr>"
  have "after_header rest adl (s\<lparr>addr_sect := (addr_sect s)\<lparr>sec_size := a\<rparr>\<rparr>) ?s'"
    unfolding after_header_def
    by (rule exI [of _ t'], rule exI [of _ ck], rule exI [of _ cb], rule exI [of _ x])
      (use c(2,3) header_ready_part(2) [OF r] in simp)
  then show ?thesis using c(1) by (auto simp: dec_ADDRLEN_def t header_code_def)
qed

lemma INSTLEN_reads:
  assumes inp: "next_in s = integer_bytes i @ integer_bytes a @ checksum_bytes adl @ rest" and r: "header_ready adl s"
    and len: "dec_enclen s = emit_enclen (dec_tgtlen s) (sec_size (data_sect s)) i a (adl \<noteq> None)"
  shows "\<exists>s'. dec_INSTLEN s = Some (header_code s, s') \<and>
    after_header rest adl (s\<lparr>inst_sect := (inst_sect s)\<lparr>sec_size := i\<rparr>, addr_sect := (addr_sect s)\<lparr>sec_size := a\<rparr>\<rparr>) s'"
proof -
  obtain t where t: "SIZE_CASE True (\<lambda>v s. s\<lparr>inst_sect := (inst_sect s)\<lparr>sec_size := v\<rparr>\<rparr>) DEC_ADDRLEN s =
    ok (s\<lparr>dec_32part := 0, total_in := t, next_in := integer_bytes a @ checksum_bytes adl @ rest,
          inst_sect := (inst_sect s)\<lparr>sec_size := i\<rparr>, dec_state := DEC_ADDRLEN\<rparr>)"
    using SIZE_reads [OF inp header_ready_part(1) [OF r],
        of "\<lambda>v s. s\<lparr>inst_sect := (inst_sect s)\<lparr>sec_size := v\<rparr>\<rparr>" DEC_ADDRLEN] by auto
  let ?s = "s\<lparr>dec_32part := 0, total_in := t, next_in := integer_bytes a @ checksum_bytes adl @ rest,
          inst_sect := (inst_sect s)\<lparr>sec_size := i\<rparr>, dec_state := DEC_ADDRLEN\<rparr>"
  have "\<exists>s'. dec_ADDRLEN ?s = Some (header_code ?s, s') \<and>
    after_header rest adl (?s\<lparr>addr_sect := (addr_sect ?s)\<lparr>sec_size := a\<rparr>\<rparr>) s'"
    by (rule ADDRLEN_reads) (use r len in \<open>simp_all add: header_ready_def\<close>)
  then show ?thesis using r by (auto simp: dec_INSTLEN_def t header_code_def after_header_def header_ready_def)
qed

lemma DATALEN_reads:
  assumes inp: "next_in s = integer_bytes d @ integer_bytes i @ integer_bytes a @ checksum_bytes adl @ rest"
    and r: "header_ready adl s" and len: "dec_enclen s = emit_enclen (dec_tgtlen s) d i a (adl \<noteq> None)"
  shows "\<exists>s'. dec_DATALEN s = Some (header_code s, s') \<and>
    after_header rest adl (s\<lparr>data_sect := (data_sect s)\<lparr>sec_size := d\<rparr>, inst_sect := (inst_sect s)\<lparr>sec_size := i\<rparr>,
      addr_sect := (addr_sect s)\<lparr>sec_size := a\<rparr>\<rparr>) s'"
proof -
  obtain t where t: "SIZE_CASE True (\<lambda>v s. s\<lparr>data_sect := (data_sect s)\<lparr>sec_size := v\<rparr>\<rparr>) DEC_INSTLEN s =
    ok (s\<lparr>dec_32part := 0, total_in := t, next_in := integer_bytes i @ integer_bytes a @ checksum_bytes adl @ rest,
          data_sect := (data_sect s)\<lparr>sec_size := d\<rparr>, dec_state := DEC_INSTLEN\<rparr>)"
    using SIZE_reads [OF inp header_ready_part(1) [OF r],
        of "\<lambda>v s. s\<lparr>data_sect := (data_sect s)\<lparr>sec_size := v\<rparr>\<rparr>" DEC_INSTLEN] by auto
  let ?s = "s\<lparr>dec_32part := 0, total_in := t, next_in := integer_bytes i @ integer_bytes a @ checksum_bytes adl @ rest,
          data_sect := (data_sect s)\<lparr>sec_size := d\<rparr>, dec_state := DEC_INSTLEN\<rparr>"
  have "\<exists>s'. dec_INSTLEN ?s = Some (header_code ?s, s') \<and>
    after_header rest adl (?s\<lparr>inst_sect := (inst_sect ?s)\<lparr>sec_size := i\<rparr>, addr_sect := (addr_sect ?s)\<lparr>sec_size := a\<rparr>\<rparr>) s'"
    by (rule INSTLEN_reads) (use r len in \<open>simp_all add: header_ready_def\<close>)
  then show ?thesis using r by (auto simp: dec_DATALEN_def t header_code_def after_header_def header_ready_def)
qed

definition with_sizes :: "u32 \<Rightarrow> u32 \<Rightarrow> u32 \<Rightarrow> xd3_stream \<Rightarrow> xd3_stream" where
  "with_sizes d i a s = s\<lparr>data_sect := (data_sect s)\<lparr>sec_size := d\<rparr>, inst_sect := (inst_sect s)\<lparr>sec_size := i\<rparr>,
      addr_sect := (addr_sect s)\<lparr>sec_size := a\<rparr>\<rparr>"

abbreviation sizes_bytes :: "u32 \<Rightarrow> u32 \<Rightarrow> u32 \<Rightarrow> u32 option \<Rightarrow> bytes \<Rightarrow> bytes" where
  "sizes_bytes d i a adl rest \<equiv> integer_bytes d @ integer_bytes i @ integer_bytes a @ checksum_bytes adl @ rest"

lemma DELIND_reads:
  assumes inp: "next_in s = 0 # sizes_bytes d i a adl rest"
    and r: "header_ready adl s" and len: "dec_enclen s = emit_enclen (dec_tgtlen s) d i a (adl \<noteq> None)"
  shows "\<exists>s'. dec_DELIND s = Some (header_code s, s') \<and> after_header rest adl (with_sizes d i a (s\<lparr>dec_del_ind := 0\<rparr>)) s'"
proof -
  let ?s = "s\<lparr>dec_del_ind := 0, total_in := total_in s + 1, next_in := sizes_bytes d i a adl rest, dec_state := DEC_DATALEN\<rparr>"
  have b: "BYTE_CASE True (\<lambda>v s. s\<lparr>dec_del_ind := v\<rparr>) DEC_DATALEN s = ok ?s"
    by (simp add: BYTE_CASE_def xd3_decode_byte_def inp DECODE_INPUT_def goto_def)
  have "\<exists>s'. dec_DATALEN ?s = Some (header_code ?s, s') \<and>
    after_header rest adl (?s\<lparr>data_sect := (data_sect ?s)\<lparr>sec_size := d\<rparr>, inst_sect := (inst_sect ?s)\<lparr>sec_size := i\<rparr>,
      addr_sect := (addr_sect ?s)\<lparr>sec_size := a\<rparr>\<rparr>) s'"
    by (rule DATALEN_reads) (use r len in \<open>simp_all add: header_ready_def\<close>)
  then show ?thesis by (auto simp: dec_DELIND_def b header_code_def after_header_def with_sizes_def)
qed

lemma TGTLEN_reads:
  assumes inp: "next_in s = integer_bytes tgt @ 0 # sizes_bytes d i a adl rest" and r: "header_ready adl s"
    and len: "dec_enclen s = emit_enclen tgt d i a (adl \<noteq> None)"
    and small: "\<not> USIZE_T_OVERFLOW (dec_cpylen s) tgt" "tgt \<le> XD3_HARDMAXWINSIZE"
  shows "\<exists>s'. dec_TGTLEN s = Some (header_code s, s') \<and>
    after_header rest adl (with_sizes d i a (s\<lparr>dec_tgtlen := tgt, dec_maxpos := dec_cpylen s + tgt, dec_del_ind := 0\<rparr>)) s'"
proof -
  obtain t where t: "SIZE_CASE True (\<lambda>v s. s\<lparr>dec_tgtlen := v\<rparr>) DEC_DELIND s =
    ok (s\<lparr>dec_32part := 0, total_in := t, next_in := 0 # sizes_bytes d i a adl rest, dec_tgtlen := tgt, dec_state := DEC_DELIND\<rparr>)"
    using SIZE_reads [OF inp header_ready_part(1) [OF r], of "\<lambda>v s. s\<lparr>dec_tgtlen := v\<rparr>" DEC_DELIND] by auto
  let ?s = "s\<lparr>dec_32part := 0, total_in := t, next_in := 0 # sizes_bytes d i a adl rest, dec_tgtlen := tgt,
    dec_state := DEC_DELIND, dec_maxpos := dec_cpylen s + tgt\<rparr>"
  have "\<exists>s'. dec_DELIND ?s = Some (header_code ?s, s') \<and>
    after_header rest adl (with_sizes d i a (?s\<lparr>dec_del_ind := 0\<rparr>)) s'"
    by (rule DELIND_reads) (use r len in \<open>simp_all add: header_ready_def\<close>)
  then show ?thesis
    using small by (auto simp: dec_TGTLEN_def t header_code_def after_header_def with_sizes_def)
qed

lemma ENCLEN_reads:
  assumes inp: "next_in s = integer_bytes (emit_enclen tgt d i a (adl \<noteq> None)) @ integer_bytes tgt @ 0 # sizes_bytes d i a adl rest"
    and r: "header_ready adl s" and small: "\<not> USIZE_T_OVERFLOW (dec_cpylen s) tgt" "tgt \<le> XD3_HARDMAXWINSIZE"
  shows "\<exists>s'. dec_ENCLEN s = Some (header_code s, s') \<and>
    after_header rest adl (with_sizes d i a (s\<lparr>dec_enclen := emit_enclen tgt d i a (adl \<noteq> None), dec_tgtlen := tgt,
      dec_maxpos := dec_cpylen s + tgt, dec_del_ind := 0\<rparr>)) s'"
proof -
  let ?e = "emit_enclen tgt d i a (adl \<noteq> None)" and ?i = "integer_bytes tgt @ 0 # sizes_bytes d i a adl rest"
  obtain t where t: "SIZE_CASE True (\<lambda>v s. s\<lparr>dec_enclen := v\<rparr>) DEC_TGTLEN s =
    ok (s\<lparr>dec_32part := 0, total_in := t, next_in := ?i, dec_enclen := ?e, dec_state := DEC_TGTLEN\<rparr>)"
    using SIZE_reads [OF inp header_ready_part(1) [OF r], of "\<lambda>v s. s\<lparr>dec_enclen := v\<rparr>" DEC_TGTLEN] by auto
  let ?s = "s\<lparr>dec_32part := 0, total_in := t, next_in := ?i, dec_enclen := ?e, dec_state := DEC_TGTLEN\<rparr>"
  have "\<exists>s'. dec_TGTLEN ?s = Some (header_code ?s, s') \<and>
    after_header rest adl (with_sizes d i a (?s\<lparr>dec_tgtlen := tgt, dec_maxpos := dec_cpylen ?s + tgt, dec_del_ind := 0\<rparr>)) s'"
    by (rule TGTLEN_reads) (use r small in \<open>simp_all add: header_ready_def\<close>)
  then show ?thesis by (auto simp: dec_ENCLEN_def t header_code_def after_header_def with_sizes_def)
qed

text \<open>The copy window, when the indicator says there is one.\<close>

abbreviation win_len :: "(u32 \<times> u64) option \<Rightarrow> u32" where
  "win_len win \<equiv> (case win of None \<Rightarrow> 0 | Some (len, off) \<Rightarrow> len)"

abbreviation win_off :: "(u32 \<times> u64) option \<Rightarrow> u64" where
  "win_off win \<equiv> (case win of None \<Rightarrow> 0 | Some (len, off) \<Rightarrow> off)"

abbreviation length_bytes :: "u32 \<Rightarrow> u32 \<Rightarrow> u32 \<Rightarrow> u32 \<Rightarrow> u32 option \<Rightarrow> bytes \<Rightarrow> bytes" where
  "length_bytes tgt d i a adl rest \<equiv>
     integer_bytes (emit_enclen tgt d i a (adl \<noteq> None)) @ integer_bytes tgt @ 0 # sizes_bytes d i a adl rest"

definition with_header :: "(u32 \<times> u64) option \<Rightarrow> u32 \<Rightarrow> u32 \<Rightarrow> u32 \<Rightarrow> u32 \<Rightarrow> u32 option \<Rightarrow> xd3_stream \<Rightarrow> xd3_stream" where
  "with_header win tgt d i a adl s =
     with_sizes d i a (s\<lparr>dec_cpylen := win_len win, dec_position := win_len win, dec_cpyoff := win_off win,
       dec_enclen := emit_enclen tgt d i a (adl \<noteq> None), dec_tgtlen := tgt,
       dec_maxpos := win_len win + tgt, dec_del_ind := 0\<rparr>)"

lemma CPYOFF_reads:
  assumes inp: "next_in s = (case win of None \<Rightarrow> [] | Some (len, off) \<Rightarrow> integer_bytes off) @ length_bytes tgt d i a adl rest"
    and r: "header_ready adl s" and b: "dec_win_ind s = win_bits (win \<noteq> None) (adl \<noteq> None)"
    and c: "dec_cpylen s = win_len win" "dec_position s = win_len win" "win = None \<longrightarrow> dec_cpyoff s = 0"
    and small: "\<not> USIZE_T_OVERFLOW (win_len win) tgt" "tgt \<le> XD3_HARDMAXWINSIZE"
      "\<not> XOFF_T_OVERFLOW (win_off win) (ucast (win_len win))"
  shows "\<exists>s'. dec_CPYOFF s = Some (header_code s, s') \<and> after_header rest adl (with_header win tgt d i a adl s) s'"
proof -
  let ?i = "length_bytes tgt d i a adl rest"
  obtain t where t: "OFFSET_CASE (SRCORTGT (dec_win_ind s) \<noteq> 0) (\<lambda>v s. s\<lparr>dec_cpyoff := v\<rparr>) DEC_ENCLEN s =
    ok (s\<lparr>dec_64part := 0, total_in := t, next_in := ?i, dec_cpyoff := win_off win, dec_state := DEC_ENCLEN\<rparr>)"
  proof (cases win)
    case None
    have f: "dec_64part s = 0" "next_in s = ?i" "dec_cpyoff s = 0"
      using None inp c(3) header_ready_part(2) [OF r] by simp_all
    have "s\<lparr>dec_64part := dec_64part s, total_in := total_in s, next_in := next_in s, dec_cpyoff := dec_cpyoff s,
        dec_state := DEC_ENCLEN\<rparr> = s\<lparr>dec_state := DEC_ENCLEN\<rparr>" by simp
    from this [unfolded f] show thesis
      using that [of "total_in s"] None b by (simp add: OFFSET_CASE_def goto_def win_bits_and)
  next
    case (Some x)
    then show thesis
      using OFFSET_reads [of s "win_off win" ?i "\<lambda>v s. s\<lparr>dec_cpyoff := v\<rparr>" DEC_ENCLEN] inp header_ready_part(2) [OF r] b that
      by (cases x) (auto simp: win_bits_and vcd_bits_nonzero)
  qed
  let ?s = "s\<lparr>dec_64part := 0, total_in := t, next_in := ?i, dec_cpyoff := win_off win, dec_state := DEC_ENCLEN\<rparr>"
  have "\<exists>s'. dec_ENCLEN ?s = Some (header_code ?s, s') \<and>
    after_header rest adl (with_sizes d i a (?s\<lparr>dec_enclen := emit_enclen tgt d i a (adl \<noteq> None), dec_tgtlen := tgt,
      dec_maxpos := dec_cpylen ?s + tgt, dec_del_ind := 0\<rparr>)) s'"
    by (rule ENCLEN_reads) (use r small c in \<open>simp_all add: header_ready_def\<close>)
  moreover have p: "s\<lparr>dec_cpylen := win_len win, dec_position := win_len win\<rparr> = s"
  proof -
    have "s\<lparr>dec_cpylen := dec_cpylen s, dec_position := dec_position s\<rparr> = s" by simp
    then show ?thesis unfolding c(1,2) .
  qed
  moreover have "dec_CPYOFF s = dec_ENCLEN ?s"
    using small(3) c(1) b unfolding dec_CPYOFF_def t and_then_simps by (simp add: win_bits_and)
  moreover have "after_header rest adl (with_sizes d i a (?s\<lparr>dec_enclen := emit_enclen tgt d i a (adl \<noteq> None), dec_tgtlen := tgt,
      dec_maxpos := dec_cpylen ?s + tgt, dec_del_ind := 0\<rparr>)) = after_header rest adl (with_header win tgt d i a adl s)"
    unfolding with_header_def p with_sizes_def after_header_def by (simp add: c(1))
  ultimately show ?thesis by (simp add: header_code_def)
qed

lemma CPYLEN_reads:
  assumes inp: "next_in s = (case win of None \<Rightarrow> [] | Some (len, off) \<Rightarrow> integer_bytes len @ integer_bytes off) @
      length_bytes tgt d i a adl rest"
    and r: "header_ready adl s" and b: "dec_win_ind s = win_bits (win \<noteq> None) (adl \<noteq> None)"
    and c: "dec_cpylen s = 0" "dec_cpyoff s = 0"
    and small: "\<not> USIZE_T_OVERFLOW (win_len win) tgt" "tgt \<le> XD3_HARDMAXWINSIZE"
      "\<not> XOFF_T_OVERFLOW (win_off win) (ucast (win_len win))"
  shows "\<exists>s'. dec_CPYLEN s = Some (header_code s, s') \<and> after_header rest adl (with_header win tgt d i a adl s) s'"
proof -
  let ?i = "(case win of None \<Rightarrow> [] | Some (len, off) \<Rightarrow> integer_bytes off) @ length_bytes tgt d i a adl rest"
  obtain t where t: "SIZE_CASE (SRCORTGT (dec_win_ind s) \<noteq> 0) (\<lambda>v s. s\<lparr>dec_cpylen := v\<rparr>) DEC_CPYOFF s =
    ok (s\<lparr>dec_32part := 0, total_in := t, next_in := ?i, dec_cpylen := win_len win, dec_state := DEC_CPYOFF\<rparr>)"
  proof (cases win)
    case None
    have f: "dec_32part s = 0" "next_in s = ?i" "dec_cpylen s = 0"
      using None inp c header_ready_part(1) [OF r] by simp_all
    have "s\<lparr>dec_32part := dec_32part s, total_in := total_in s, next_in := next_in s, dec_cpylen := dec_cpylen s,
        dec_state := DEC_CPYOFF\<rparr> = s\<lparr>dec_state := DEC_CPYOFF\<rparr>" by simp
    from this [unfolded f] show thesis
      using that [of "total_in s"] None b by (simp add: SIZE_CASE_def goto_def win_bits_and)
  next
    case (Some x)
    then show thesis
      using SIZE_reads [of s "win_len win" ?i "\<lambda>v s. s\<lparr>dec_cpylen := v\<rparr>" DEC_CPYOFF] inp header_ready_part(1) [OF r] b that
      by (cases x) (auto simp: win_bits_and vcd_bits_nonzero)
  qed
  let ?s = "s\<lparr>dec_32part := 0, total_in := t, next_in := ?i, dec_cpylen := win_len win, dec_state := DEC_CPYOFF,
    dec_position := win_len win\<rparr>"
  have "\<exists>s'. dec_CPYOFF ?s = Some (header_code ?s, s') \<and> after_header rest adl (with_header win tgt d i a adl ?s) s'"
    by (rule CPYOFF_reads) (use r small c b in \<open>simp_all add: header_ready_def\<close>)
  then show ?thesis
    by (auto simp: dec_CPYLEN_def t header_code_def after_header_def with_sizes_def with_header_def)
qed

text \<open>The whole header of a window.\<close>

definition init_window :: "u32 \<Rightarrow> xd3_stream \<Rightarrow> xd3_stream" where
  "init_window bits s = s\<lparr>dec_win_ind := bits, current_window := dec_window_count s,
     dec_winstart := dec_winstart s + ucast (dec_tgtlen s), dec_cksumbytes := 0, acache := xd3_init_cache (acache s)\<rparr>"

lemma WININD_reads:
  assumes inp: "next_in s = header_bytes win tgt d i a adl @ rest"
    and r: "dec_32part s = 0" "dec_64part s = 0" "length (dec_cksum s) = 4"
    and start: "\<not> XOFF_T_OVERFLOW (dec_winstart s) (ucast (dec_tgtlen s))"
    and small: "\<not> USIZE_T_OVERFLOW (win_len win) tgt" "tgt \<le> XD3_HARDMAXWINSIZE"
      "\<not> XOFF_T_OVERFLOW (win_off win) (ucast (win_len win))"
  shows "\<exists>s'. dec_WININD s = Some (if dec_window_count s = 0 then XD3_GOTHEADER else XD3_WINSTART, s') \<and>
    after_header rest adl (with_header win tgt d i a adl (init_window (win_bits (win \<noteq> None) (adl \<noteq> None)) s)) s'"
proof -
  let ?b = "win_bits (win \<noteq> None) (adl \<noteq> None)"
  let ?i = "(case win of None \<Rightarrow> [] | Some (len, off) \<Rightarrow> integer_bytes len @ integer_bytes off) @ length_bytes tgt d i a adl rest"
  have i: "next_in s = ucast ?b # ?i"
    using inp by (auto simp: header_bytes_def checksum_bytes_def)
  let ?s = "s\<lparr>dec_win_ind := ?b, total_in := total_in s + 1, next_in := ?i, current_window := dec_window_count s,
     dec_winstart := dec_winstart s + ucast (dec_tgtlen s), dec_cpylen := 0, dec_cpyoff := 0, dec_cksumbytes := 0,
     acache := xd3_init_cache (acache s), dec_state := DEC_CPYLEN\<rparr>"
  have byte: "xd3_decode_byte (\<lambda>v s. s\<lparr>dec_win_ind := v\<rparr>) s =
    ok (s\<lparr>dec_win_ind := ?b, total_in := total_in s + 1, next_in := ?i\<rparr>)"
    by (simp add: xd3_decode_byte_def i win_bits_byte DECODE_INPUT_def)
  have "dec_WININD s = dec_CPYLEN ?s"
    using start by (simp add: dec_WININD_def byte Let_def win_bits_and xd3_decode_init_window_def)
  moreover have "\<exists>s'. dec_CPYLEN ?s = Some (header_code ?s, s') \<and> after_header rest adl (with_header win tgt d i a adl ?s) s'"
    by (rule CPYLEN_reads) (use r small in \<open>simp_all add: header_ready_def win_bits_and vcd_bits_nonzero\<close>)
  ultimately show ?thesis
    by (auto simp: header_code_def after_header_def with_sizes_def with_header_def init_window_def)
qed

end
