(* ===== verification/Roundtrip.thy ===== *)
theory Roundtrip
  imports Header
begin

text \<open>
  From a window to its bytes and back: the encoder's \<^verbatim>\<open>ENC_INSTR\<close> step, and the decoder on
  what it wrote.
\<close>

section \<open>Reading the sections\<close>

text \<open>One of the three sections: a field of the stream apart from the input and the state.\<close>

locale desect =
  fixes sel :: "xd3_stream \<Rightarrow> xd3_desect"
    and upd :: "(xd3_desect \<Rightarrow> xd3_desect) \<Rightarrow> xd3_stream \<Rightarrow> xd3_stream"
  assumes sel_upd [simp]: "sel (upd f s) = f (sel s)"
    and upd_const: "upd f s = upd (\<lambda>_. f (sel s)) s"
    and upd_upd [simp]: "upd (\<lambda>_. x) (upd g s) = upd (\<lambda>_. x) s"
    and upd_io [simp]: "(upd g s)\<lparr>dec_winbytes := w\<rparr> = upd g (s\<lparr>dec_winbytes := w\<rparr>)"
      "(upd g s)\<lparr>total_in := t\<rparr> = upd g (s\<lparr>total_in := t\<rparr>)"
      "(upd g s)\<lparr>next_in := i\<rparr> = upd g (s\<lparr>next_in := i\<rparr>)"
      "(upd g s)\<lparr>dec_state := d\<rparr> = upd g (s\<lparr>dec_state := d\<rparr>)"
    and sel_io [simp]: "sel (s\<lparr>dec_winbytes := w\<rparr>) = sel s" "sel (s\<lparr>total_in := t\<rparr>) = sel s"
      "sel (s\<lparr>next_in := i\<rparr>) = sel s" "sel (s\<lparr>dec_state := d\<rparr>) = sel s"
    and io_upd [simp]: "next_in (upd g s) = next_in s" "total_in (upd g s) = total_in s"
      "dec_winbytes (upd g s) = dec_winbytes s"
begin

text \<open>A section that is in the input is not copied.\<close>

lemma section_reads:
  assumes "sec_pos (sel s) = 0" "next_in s = B @ rest" "length B = unat (sec_size (sel s))"
  shows "\<exists>t w. xd3_decode_section sel upd ns False s =
    ok (upd (\<lambda>_. (sel s)\<lparr>sec_buf := B, sec_pos := 0\<rparr>)
      (s\<lparr>dec_winbytes := w, total_in := t, next_in := rest, dec_state := ns\<rparr>))"
proof (cases "sec_size (sel s) = 0")
  case True
  then have B: "B = []" "rest = next_in s" using assms by simp_all
  show ?thesis
    using True assms(1) unfolding B
    by (intro exI [of _ "total_in s"] exI [of _ "dec_winbytes s"])
      (simp add: xd3_decode_section_def section_finish_def, subst upd_const, simp)
next
  case False
  then have B: "B \<noteq> []" using assms(3) by (auto simp: unat_eq_0)
  have "xd3_decode_section sel upd ns False s =
    section_finish sel upd ns B (section_advance sel upd (length B) s)"
    using False assms B by (simp add: xd3_decode_section_def word_gt_0 Let_def)
  also have "\<dots> = ok (upd (\<lambda>_. (sel s)\<lparr>sec_buf := B, sec_pos := 0\<rparr>)
      (s\<lparr>dec_winbytes := dec_winbytes s + of_nat (length B), total_in := total_in s + of_nat (length B),
         next_in := rest, dec_state := ns\<rparr>))"
    using assms(2) unfolding section_finish_def section_advance_def DECODE_INPUT_def Let_def
    by (subst upd_const) simp
  finally show ?thesis by blast
qed

end

interpretation data: desect data_sect data_sect_update
  by unfold_locales simp_all

interpretation inst: desect inst_sect inst_sect_update
  by unfold_locales simp_all

interpretation addr: desect addr_sect addr_sect_update
  by unfold_locales simp_all

text \<open>What the staging of the sections needs.\<close>

definition sections_idle :: "xd3_stream \<Rightarrow> bool" where
  "sections_idle s \<longleftrightarrow> sec_pos (data_sect s) = 0 \<and> sec_pos (inst_sect s) = 0 \<and> sec_pos (addr_sect s) = 0 \<and>
     dec_winbytes s = 0 \<and> flags s AND XD3_JUST_HDR = 0 \<and> flags s AND XD3_SKIP_WINDOW = 0 \<and>
     flags s AND XD3_SKIP_EMIT = 0"

definition with_sections :: "bytes \<Rightarrow> bytes \<Rightarrow> bytes \<Rightarrow> xd3_stream \<Rightarrow> xd3_stream" where
  "with_sections D I A s = s\<lparr>data_sect := (data_sect s)\<lparr>sec_buf := D, sec_pos := 0\<rparr>,
     inst_sect := (inst_sect s)\<lparr>sec_buf := I, sec_pos := 0\<rparr>, addr_sect := (addr_sect s)\<lparr>sec_buf := A, sec_pos := 0\<rparr>\<rparr>"

lemma three_sections_read:
  assumes "next_in s = D @ I @ A @ rest" "sections_idle s" "dec_state s = DEC_DATA"
    and "length D = unat (sec_size (data_sect s))" "length I = unat (sec_size (inst_sect s))"
      "length A = unat (sec_size (addr_sect s))"
  shows "\<exists>t w. three_sections False s =
    ok ((with_sections D I A s)\<lparr>dec_winbytes := w, total_in := t, next_in := rest, dec_state := DEC_EMIT\<rparr>)"
proof -
  obtain t1 w1 where 1: "xd3_decode_section data_sect data_sect_update DEC_INST False s =
    ok (s\<lparr>dec_winbytes := w1, total_in := t1, next_in := I @ A @ rest, dec_state := DEC_INST,
      data_sect := (data_sect s)\<lparr>sec_buf := D, sec_pos := 0\<rparr>\<rparr>)"
    using data.section_reads [of s D "I @ A @ rest" DEC_INST] assms by (auto simp: sections_idle_def)
  let ?s1 = "s\<lparr>dec_winbytes := w1, total_in := t1, next_in := I @ A @ rest, dec_state := DEC_INST,
      data_sect := (data_sect s)\<lparr>sec_buf := D, sec_pos := 0\<rparr>\<rparr>"
  obtain t2 w2 where 2: "xd3_decode_section inst_sect inst_sect_update DEC_ADDR False ?s1 =
    ok (?s1\<lparr>dec_winbytes := w2, total_in := t2, next_in := A @ rest, dec_state := DEC_ADDR,
      inst_sect := (inst_sect s)\<lparr>sec_buf := I, sec_pos := 0\<rparr>\<rparr>)"
    using inst.section_reads [of ?s1 I "A @ rest" DEC_ADDR] assms by (auto simp: sections_idle_def)
  let ?s2 = "?s1\<lparr>dec_winbytes := w2, total_in := t2, next_in := A @ rest, dec_state := DEC_ADDR,
      inst_sect := (inst_sect s)\<lparr>sec_buf := I, sec_pos := 0\<rparr>\<rparr>"
  obtain t3 w3 where 3: "xd3_decode_section addr_sect addr_sect_update DEC_EMIT False ?s2 =
    ok (?s2\<lparr>dec_winbytes := w3, total_in := t3, next_in := rest, dec_state := DEC_EMIT,
      addr_sect := (addr_sect s)\<lparr>sec_buf := A, sec_pos := 0\<rparr>\<rparr>)"
    using addr.section_reads [of ?s2 A rest DEC_EMIT] assms by (auto simp: sections_idle_def)
  have "three_sections False s = xd3_decode_section addr_sect addr_sect_update DEC_EMIT False ?s2"
    using assms(3) unfolding three_sections_def Let_def 1 2 and_then_simps by simp
  then show ?thesis
    unfolding 3 by (intro exI [of _ t3] exI [of _ w3]) (simp add: with_sections_def)
qed

text \<open>The output buffer is large enough, or will be allocated.\<close>

definition buffer_ready :: "u32 \<Rightarrow> xd3_stream \<Rightarrow> bool" where
  "buffer_ready tgt s \<longleftrightarrow>
     (if space_out s < tgt
      then (dec_buffer s = None \<or> blocks s (the (dec_buffer s)) \<noteq> None) \<and>
           (\<exists>mem. mem_alloc s (mem_count s) (unat (xd3_round_blksize tgt DECODE_ALLOCSIZE)) = Some mem \<and> unat tgt \<le> length mem)
      else \<exists>b mem. next_out s = Some b \<and> blocks s b = Some mem \<and> unat tgt \<le> length mem)"

lemma ok_eq [simp]: "ok s = ok s' \<longleftrightarrow> s = s'"
  by (simp add: ok_def)

text \<open>The output buffer is the one kept from window to window.\<close>

definition buffer_kept :: "xd3_stream \<Rightarrow> bool" where
  "buffer_kept s \<longleftrightarrow> next_out s = None \<and> dec_buffer s = None \<and> space_out s = 0 \<or>
     (\<exists>b mem. next_out s = Some b \<and> dec_buffer s = Some b \<and> blocks s b = Some mem \<and> unat (space_out s) \<le> length mem)"

definition exact_alloc :: "xd3_stream \<Rightarrow> bool" where
  "exact_alloc s \<longleftrightarrow> (\<forall>k n b. mem_alloc s k n = Some b \<longrightarrow> length b = n)"

lemma buffers_set_up:
  assumes b: "buffer_ready (dec_tgtlen s) s" and w: "dec_win_ind s AND VCD_TARGET = 0"
  shows "\<exists>b mem bl so n db. xd3_decode_setup_buffers s =
     ok (s\<lparr>mem_count := n, blocks := bl, next_out := Some b, space_out := so, dec_buffer := db,
           dec_tgtaddrbase := (Some b, - int (unat (dec_cpylen s)))\<rparr>) \<and> bl b = Some mem \<and> unat (dec_tgtlen s) \<le> length mem \<and>
     (buffer_kept s \<and> exact_alloc s \<longrightarrow> db = Some b \<and> unat so \<le> length mem)"
proof (cases "space_out s < dec_tgtlen s")
  case True
  let ?so = "xd3_round_blksize (dec_tgtlen s) DECODE_ALLOCSIZE"
  obtain mem where mem: "mem_alloc s (mem_count s) (unat ?so) = Some mem" "unat (dec_tgtlen s) \<le> length mem"
    using b True by (auto simp: buffer_ready_def)
  obtain bl where fr: "free_block (dec_buffer s) s = Some (s\<lparr>blocks := bl\<rparr>)"
  proof (cases "dec_buffer s")
    case None
    then show thesis using that [of "blocks s"] by (simp add: free_block_def)
  next
    case (Some c)
    then show thesis using b True that [of "(blocks s)(c := None)"] by (auto simp: buffer_ready_def free_block_def split: if_splits)
  qed
  let ?b = "mem_count s + 1"
  have "grow_buffer s = ok (s\<lparr>mem_count := ?b, blocks := bl(?b \<mapsto> mem), next_out := Some ?b, space_out := ?so, dec_buffer := Some ?b\<rparr>)"
    using True mem(1) by (simp add: grow_buffer_def fr xd3_alloc_def Let_def)
  then have "xd3_decode_setup_buffers s = ok (s\<lparr>mem_count := ?b, blocks := bl(?b \<mapsto> mem), next_out := Some ?b, space_out := ?so, dec_buffer := Some ?b,
           dec_tgtaddrbase := (Some ?b, - int (unat (dec_cpylen s)))\<rparr>)"
    using w by (simp add: xd3_decode_setup_buffers_def target_buffer_def)
  moreover have "(bl(?b \<mapsto> mem)) ?b = Some mem" by simp
  moreover have "exact_alloc s \<longrightarrow> unat ?so \<le> length mem" using mem(1) by (auto simp: exact_alloc_def)
  ultimately show ?thesis using mem(2) by blast
next
  case False
  then obtain c mem where c: "next_out s = Some c" "blocks s c = Some mem" "unat (dec_tgtlen s) \<le> length mem"
    using b by (auto simp: buffer_ready_def)
  have "xd3_decode_setup_buffers s = ok (s\<lparr>dec_tgtaddrbase := (Some c, - int (unat (dec_cpylen s)))\<rparr>)"
    using False w c(1) by (simp add: xd3_decode_setup_buffers_def target_buffer_def grow_buffer_def)
  also have "s\<lparr>dec_tgtaddrbase := (Some c, - int (unat (dec_cpylen s)))\<rparr> =
    s\<lparr>mem_count := mem_count s, blocks := blocks s, next_out := next_out s, space_out := space_out s, dec_buffer := dec_buffer s,
           dec_tgtaddrbase := (Some c, - int (unat (dec_cpylen s)))\<rparr>" by simp
  finally have "xd3_decode_setup_buffers s =
    ok (s\<lparr>mem_count := mem_count s, blocks := blocks s, next_out := next_out s, space_out := space_out s, dec_buffer := dec_buffer s,
           dec_tgtaddrbase := (Some c, - int (unat (dec_cpylen s)))\<rparr>)" .
  moreover have "buffer_kept s \<longrightarrow> dec_buffer s = Some c \<and> unat (space_out s) \<le> length mem"
    using c(1,2) by (auto simp: buffer_kept_def)
  ultimately show ?thesis unfolding c(1) using c(2,3) by blast
qed

text \<open>The sections of a window that is in the input as a whole.\<close>

lemma sections_read:
  assumes inp: "next_in s = D @ I @ A @ rest" and idle: "sections_idle s" "dec_state s = DEC_DATA"
    and len: "length D = unat (sec_size (data_sect s))" "length I = unat (sec_size (inst_sect s))"
      "length A = unat (sec_size (addr_sect s))" "length D + length I + length A < 2 ^ 32"
    and b: "buffer_ready (dec_tgtlen s) s" "dec_win_ind s AND VCD_TARGET = 0"
  shows "\<exists>b mem bl so n db t w. xd3_decode_sections s =
     ok ((with_sections D I A s)\<lparr>dec_winbytes := w, total_in := t, next_in := rest, dec_state := DEC_EMIT,
       mem_count := n, blocks := bl, next_out := Some b, space_out := so, dec_buffer := db,
       dec_tgtaddrbase := (Some b, - int (unat (dec_cpylen s)))\<rparr>) \<and> bl b = Some mem \<and> unat (dec_tgtlen s) \<le> length mem \<and>
     (buffer_kept s \<and> exact_alloc s \<longrightarrow> db = Some b \<and> unat so \<le> length mem)"
proof -
  let ?need = "sec_size (inst_sect s) + sec_size (addr_sect s) + sec_size (data_sect s)"
  have "unat ?need = length I + length A + length D"
    using len by (simp add: unat_add_u32)
  then have copy: "min (unat ?need) (length (next_in s)) = unat ?need" by (simp add: inp)
  obtain t w where t: "three_sections False s =
    ok ((with_sections D I A s)\<lparr>dec_winbytes := w, total_in := t, next_in := rest, dec_state := DEC_EMIT\<rparr>)"
    using three_sections_read [OF inp idle len(1-3)] by blast
  let ?s = "(with_sections D I A s)\<lparr>dec_winbytes := w, total_in := t, next_in := rest, dec_state := DEC_EMIT\<rparr>"
  have f: "dec_tgtlen ?s = dec_tgtlen s" "dec_win_ind ?s = dec_win_ind s" "dec_cpylen ?s = dec_cpylen s" "flags ?s = flags s"
    by (simp_all add: with_sections_def)
  have "buffer_ready (dec_tgtlen ?s) ?s"
    using b(1) by (cases "space_out s < dec_tgtlen s") (simp_all add: buffer_ready_def with_sections_def)
  then obtain b mem bl so n db where u: "xd3_decode_setup_buffers ?s =
     ok (?s\<lparr>mem_count := n, blocks := bl, next_out := Some b, space_out := so, dec_buffer := db,
           dec_tgtaddrbase := (Some b, - int (unat (dec_cpylen ?s)))\<rparr>)" "bl b = Some mem" "unat (dec_tgtlen ?s) \<le> length mem"
    "buffer_kept ?s \<and> exact_alloc ?s \<longrightarrow> db = Some b \<and> unat so \<le> length mem"
    using buffers_set_up [of ?s] b(2) f(2) by metis
  have k: "buffer_kept ?s = buffer_kept s" "exact_alloc ?s = exact_alloc s"
    by (simp_all add: buffer_kept_def exact_alloc_def with_sections_def)
  have "xd3_decode_sections s = xd3_decode_setup_buffers ?s"
    using idle(1) copy f(4) unfolding xd3_decode_sections_def sections_idle_def
    by (simp add: Let_def t xd3_decode_secondary_sections_def)
  then show ?thesis using u f k by metis
qed

section \<open>What the encoder wrote\<close>

lemma hdr_writes_window: "hdr_writes e e' bs \<Longrightarrow> window_header_bytes l e' = window_header_bytes l e"
  by (auto simp: hdr_writes_def window_header_bytes_def window_source_def window_checksum_def xd3_encoder_used_source_def
      cong: option.case_cong)

lemma emit_hdr_writes:
  assumes em: "xd3_emit_hdr l e = Inr e'"
  shows "hdr_writes e e' ((if e_window e' = 0 then file_header_bytes (enc_appheader e') else []) @ window_header_bytes l e')"
proof -
  obtain g where g: "(if e_window e = 0 then emit_file_header e else Inr e) = Inr g" "emit_window_header l g = Inr e'"
    using em unfolding xd3_emit_hdr_def by (elim err_thenE)
  have 1: "hdr_writes e g (if e_window e = 0 then file_header_bytes (enc_appheader e) else [])"
    using g(1) emit_file_header_writes hdr_writes_nil by (auto split: if_splits)
  have 2: "hdr_writes g e' (window_header_bytes l g)" by (rule emit_window_header_writes [OF g(2)])
  have "e_window e' = e_window e" "enc_appheader e' = enc_appheader e" "window_header_bytes l e' = window_header_bytes l g"
    using hdr_writes_window [OF 2] hdr_writes_fields(9,11) [OF 1] hdr_writes_fields(9,11) [OF 2] by simp_all
  then show ?thesis using hdr_writes_trans [OF 1 2] by (simp split: if_splits)
qed

lemma enc_INSTR_encodes:
  assumes enc: "enc_INSTR l e = Inr e'" and inv: "encoder_inv sfile c0 e" and h: "hdr_sec e \<noteq> []"
    and seg: "source_segment sfile e' S" and len: "length S + length (e_next_in e) < 2 ^ 32"
  shows "vcd_window xd3_rfc3284_code_table c0 S (chain_bytes (data_sec e')) (chain_bytes (inst_sec e'))
      (chain_bytes (addr_sec e')) (e_next_in e) \<and> e_next_in e' = e_next_in e \<and>
    chain_bytes (hdr_sec e') = chain_bytes (hdr_sec e) @
      (if e_window e' = 0 then file_header_bytes (enc_appheader e') else []) @ window_header_bytes l e'"
proof -
  obtain f g where fg: "xd3_iopt_flush_instructions True e = Inr f" "xd3_iopt_add_finalize f = Inr g"
    "xd3_emit_hdr l (g\<lparr>e_state := ENC_FLUSH\<rparr>) = Inr e'"
    using enc unfolding enc_INSTR_def by (elim err_thenE)
  note hw = emit_hdr_writes [OF fg(3)]
  note hf = hdr_writes_fields [OF hw]
  have "same_source g e'" using hf(10) by (simp add: same_source_def)
  then have sg: "source_segment sfile g S" using seg same_source_cong(2) by blast
  note sf = add_finalize_segment_before [OF fg(2) sg]
  have w: "written c0 S f" "enc_keeps sfile S e f" using flush_forced [OF fg(1) inv sf len] by blast+
  have T: "e_next_in f = e_next_in e" "hdr_sec f = hdr_sec e" using w(2) by (simp_all add: enc_keeps_def)
  have v: "vcd_window xd3_rfc3284_code_table c0 S (chain_bytes (data_sec g)) (chain_bytes (inst_sec g))
      (chain_bytes (addr_sec g)) (e_next_in e)" "enc_keeps sfile S f g"
    using add_finalize_window [OF fg(2) w(1) sg] len T by simp_all
  then show ?thesis using hf h T by (simp add: enc_keeps_def)
qed

section \<open>The decoder on it\<close>

text \<open>The decoder's client serves the source file, in blocks of the source's size.\<close>

definition source_ready :: "bytes \<Rightarrow> (u32 \<times> u64) option \<Rightarrow> xd3_stream \<Rightarrow> bool" where
  "source_ready sfile win s \<longleftrightarrow>
     (case win of
        None \<Rightarrow> True
      | Some (len, off) \<Rightarrow>
          getblk s = Some (serve_file sfile) \<and> unat off + unat len \<le> length sfile \<and> unat off + unat len < 2 ^ 64 \<and>
          (\<exists>source. src s = Some source \<and> wf_source source \<and>
             block_known sfile source \<and>
             unat off mod unat (blksize source) + unat len < 2 ^ 32))"

text \<open>A decoder between windows.\<close>

definition decoder_ready :: "bytes \<Rightarrow> (u32 \<times> u64) option \<Rightarrow> u32 \<Rightarrow> xd3_stream \<Rightarrow> bool" where
  "decoder_ready sfile win tgt s \<longleftrightarrow> dec_state s = DEC_WININD \<and> enc_state s = 0 \<and>
     dec_32part s = 0 \<and> dec_64part s = 0 \<and> length (dec_cksum s) = 4 \<and> both_idle s \<and> avail_out s = 0 \<and>
     sections_idle s \<and> code_table s = xd3_rfc3284_code_table \<and>
     \<not> XOFF_T_OVERFLOW (dec_winstart s) (ucast (dec_tgtlen s)) \<and>
     buffer_ready tgt s \<and> source_ready sfile win s"

definition window_segment :: "bytes \<Rightarrow> (u32 \<times> u64) option \<Rightarrow> bytes" where
  "window_segment sfile win = (case win of None \<Rightarrow> [] | Some (len, off) \<Rightarrow> take (unat len) (drop (unat off) sfile))"

lemma blocks_upd_source:
  "wf_source (x\<lparr>cpyoff_blocks := a, cpyoff_blkoff := b\<rparr>) = wf_source x"
  "block_known file (x\<lparr>cpyoff_blocks := a, cpyoff_blkoff := b\<rparr>) = block_known file x"
  "xd3_blksize_div off (x\<lparr>cpyoff_blocks := a, cpyoff_blkoff := b\<rparr>) = xd3_blksize_div off x"
  by (simp_all add: wf_source_def holds_block_def block_known_def xd3_blksize_div_def)

lemma source_blocks_feeds:
  assumes r: "source_ready sfile win s" and f: "dec_cpylen s = win_len win" "dec_cpyoff s = win_off win"
    and b: "dec_win_ind s = win_bits (win \<noteq> None) ad"
  shows "\<exists>x. source_blocks s = ok (s\<lparr>src := x\<rparr>) \<and> feeds sfile (s\<lparr>src := x\<rparr>)"
proof (cases win)
  case None
  then have "source_blocks s = ok (s\<lparr>src := src s\<rparr>)" by (simp add: source_blocks_def b win_bits_and)
  then show ?thesis using None f by (intro exI [of _ "src s"]) (simp add: feeds_def)
next
  case (Some w)
  obtain len off where w: "w = (len, off)" by fastforce
  obtain source where s: "src s = Some source" "wf_source source"
    "block_known sfile source" "unat off mod unat (blksize source) + unat len < 2 ^ 32"
    using r Some w by (auto simp: source_ready_def)
  obtain no bo where d: "xd3_blksize_div off source = (no, bo)" by fastforce
  let ?x = "Some (source\<lparr>cpyoff_blocks := no, cpyoff_blkoff := bo\<rparr>)"
  have "source_blocks s = ok (s\<lparr>src := ?x\<rparr>)"
    using Some w f s(1) d by (simp add: source_blocks_def b win_bits_and vcd_bits_nonzero)
  moreover have "unat bo = unat off mod unat (blksize source)" by (rule xd3_blksize_div_eq(2) [OF s(2) d])
  then have "feeds sfile (s\<lparr>src := ?x\<rparr>)"
    using r Some w f s d b by (auto simp: feeds_def source_ready_def blocks_upd_source win_bits_and)
  ultimately show ?thesis by blast
qed

lemma data_reads:
  assumes h: "after_header (D @ I @ A @ rest) adl (with_header win tgt d i a adl (init_window (win_bits (win \<noteq> None) (adl \<noteq> None)) s)) s1"
    and r: "decoder_ready sfile win tgt s"
    and len: "length D = unat d" "length I = unat i" "length A = unat a" "length D + length I + length A < 2 ^ 32"
    and tgt: "length T = unat tgt" "tgt \<le> XD3_HARDMAXWINSIZE" "unat (win_len win) + unat tgt < 2 ^ 32"
    and v: "vcd_window xd3_rfc3284_code_table (xd3_init_cache (acache s)) (window_segment sfile win) D I A T"
    and ad: "adl = None \<or> adl = Some (window_adler32 l T)"
  shows "\<exists>s'. xd3_decode_input l dm s1 = Some (XD3_OUTPUT, s') \<and> window_bytes s' = Some T \<and> dec_state s' = DEC_FINISH"
proof -
  obtain t ck cb x where s1: "s1 = (with_header win tgt d i a adl (init_window (win_bits (win \<noteq> None) (adl \<noteq> None)) s))
     \<lparr>dec_state := DEC_DATA, next_in := D @ I @ A @ rest, total_in := t, dec_32part := 0, dec_64part := 0,
      dec_cksum := ck, dec_cksumbytes := cb, dec_adler32 := x\<rparr>" "adl \<noteq> None \<longrightarrow> adl = Some x"
    using h unfolding after_header_def by blast
  have f1: "next_in s1 = D @ I @ A @ rest" "dec_state s1 = DEC_DATA"
    "sec_size (data_sect s1) = d" "sec_size (inst_sect s1) = i" "sec_size (addr_sect s1) = a"
    "dec_win_ind s1 = win_bits (win \<noteq> None) (adl \<noteq> None)" "dec_tgtlen s1 = tgt"
    "dec_cpylen s1 = win_len win" "dec_cpyoff s1 = win_off win" "dec_position s1 = win_len win"
    "dec_maxpos s1 = win_len win + tgt" "avail_out s1 = avail_out s" "enc_state s1 = enc_state s"
    "dec_current1 s1 = dec_current1 s" "dec_current2 s1 = dec_current2 s"
    "code_table s1 = code_table s" "acache s1 = xd3_init_cache (acache s)" "dec_adler32 s1 = x"
    "getblk s1 = getblk s" "src s1 = src s" "space_out s1 = space_out s" "dec_buffer s1 = dec_buffer s"
    "blocks s1 = blocks s" "mem_alloc s1 = mem_alloc s" "mem_count s1 = mem_count s" "next_out s1 = next_out s"
    "flags s1 = flags s" "dec_winbytes s1 = dec_winbytes s" "sec_pos (data_sect s1) = sec_pos (data_sect s)"
    "sec_pos (inst_sect s1) = sec_pos (inst_sect s)" "sec_pos (addr_sect s1) = sec_pos (addr_sect s)"
    by (simp_all add: s1(1) with_header_def with_sizes_def init_window_def)
  have "buffer_ready (dec_tgtlen s1) s1 \<and> source_ready sfile win s1 \<and> sections_idle s1 \<and> avail_out s1 = 0 \<and>
    enc_state s1 = 0 \<and> both_idle s1 \<and> code_table s1 = xd3_rfc3284_code_table"
    using r unfolding decoder_ready_def buffer_ready_def source_ready_def sections_idle_def both_idle_def f1
    by (elim conjE) (intro conjI; assumption)
  then have r1: "buffer_ready (dec_tgtlen s1) s1" "source_ready sfile win s1" "sections_idle s1" "avail_out s1 = 0"
    "enc_state s1 = 0" "both_idle s1" "code_table s1 = xd3_rfc3284_code_table" by blast+
  have L: "length D = unat (sec_size (data_sect s1))" "length I = unat (sec_size (inst_sect s1))"
    "length A = unat (sec_size (addr_sect s1))" using len f1(3-5) by simp_all
  have wb: "dec_win_ind s1 AND VCD_TARGET = 0" unfolding f1(6) by (simp add: win_bits_and)
  obtain b mem bl so n db t w where u: "xd3_decode_sections s1 =
     ok ((with_sections D I A s1)\<lparr>dec_winbytes := w, total_in := t, next_in := rest, dec_state := DEC_EMIT,
       mem_count := n, blocks := bl, next_out := Some b, space_out := so, dec_buffer := db,
       dec_tgtaddrbase := (Some b, - int (unat (dec_cpylen s1)))\<rparr>)" "bl b = Some mem" "unat (dec_tgtlen s1) \<le> length mem"
    using sections_read [OF f1(1) r1(3) f1(2) L len(4) r1(1) wb] by blast
  define s2 where "s2 = (with_sections D I A s1)\<lparr>dec_winbytes := w, total_in := t, next_in := rest, dec_state := DEC_EMIT,
       mem_count := n, blocks := bl, next_out := Some b, space_out := so, dec_buffer := db,
       dec_tgtaddrbase := (Some b, - int (unat (dec_cpylen s1)))\<rparr>"
  have f2: "dec_win_ind s2 = dec_win_ind s1" "dec_tgtlen s2 = tgt" "dec_cpylen s2 = win_len win" "dec_cpyoff s2 = win_off win"
    "dec_position s2 = win_len win" "dec_maxpos s2 = win_len win + tgt" "avail_out s2 = 0" "both_idle s2"
    "code_table s2 = xd3_rfc3284_code_table" "acache s2 = xd3_init_cache (acache s)" "dec_adler32 s2 = x"
    "getblk s2 = getblk s1" "src s2 = src s1" "next_out s2 = Some b" "blocks s2 b = Some mem"
    "dec_tgtaddrbase s2 = (Some b, - int (unat (win_len win)))" "sec_buf (data_sect s2) = D"
    "sec_buf (inst_sect s2) = I" "sec_buf (addr_sect s2) = A"
    using r1(4,6,7) u(2) f1 by (simp_all add: s2_def with_sections_def both_idle_def)
  have "source_ready sfile win s2" using r1(2) unfolding source_ready_def f2(12,13) .
  then obtain y where y: "source_blocks s2 = ok (s2\<lparr>src := y\<rparr>)" "feeds sfile (s2\<lparr>src := y\<rparr>)"
    using source_blocks_feeds [of sfile win s2 "adl \<noteq> None"] f2(1,3,4) f1(6) by auto
  let ?s = "s2\<lparr>src := y\<rparr>"
  have start: "window_start sfile ?s"
    using y(2) f2 u(3) tgt f1(7)
    by (simp add: window_start_def both_idle_def has_room_def rfc_table_entries)
  have seg: "segment sfile ?s = window_segment sfile win"
    by (cases win) (auto simp: segment_def window_segment_def f2(3,4))
  have "vcd_window (code_table ?s) (acache ?s) (segment sfile ?s) (sec_buf (data_sect ?s)) (sec_buf (inst_sect ?s))
      (sec_buf (addr_sect ?s)) T"
    using v unfolding seg by (simp add: f2)
  from decode_emit_window [OF start this, of l] obtain s' where s': "window_bytes s' = Some T"
    "if adler_checked ?s \<and> window_adler32 l T \<noteq> dec_adler32 ?s
     then xd3_decode_emit l ?s = fail XD3_INVALID_INPUT ''target window checksum mismatch'' s'
     else xd3_decode_emit l ?s = Some (XD3_OUTPUT, s') \<and> dec_state s' = DEC_FINISH"
    using tgt(1) f2(2) by auto
  have "\<not> (adler_checked ?s \<and> window_adler32 l T \<noteq> dec_adler32 ?s)"
    using ad s1(2) f2(1,11) f1(6) by (auto simp: adler_checked_def win_bits_and)
  then have em: "xd3_decode_emit l ?s = Some (XD3_OUTPUT, s')" "dec_state s' = DEC_FINISH" using s'(2) by auto
  have "xd3_decode_input l dm s1 = and_then (ok s2) (dec_EMIT l)"
    using r1(5) f1(2) u(1) by (simp add: xd3_decode_input_def dec_DATA_def s2_def)
  also have "\<dots> = Some (XD3_OUTPUT, s'\<lparr>total_out := total_out s' + ucast (avail_out s')\<rparr>)"
    by (simp add: dec_EMIT_def y(1) em(1))
  finally show ?thesis
    using s'(1) em(2) window_bytes_cong [of "s'\<lparr>total_out := total_out s' + ucast (avail_out s')\<rparr>" s'] by auto
qed

section \<open>The source window across the encoding\<close>

text \<open>No window is set until the first copy needs one; then \<^verbatim>\<open>taroff\<close> is its length.\<close>

definition source_inv :: "xd3_encoder \<Rightarrow> bool" where
  "source_inv e \<longleftrightarrow>
     (case e_src e of
        None \<Rightarrow> taroff e = 0
      | Some s \<Rightarrow> (if srcwin_decided e then taroff e = srclen s else srclen s = 0))"

lemma source_inv_cong: "same_source e e' \<Longrightarrow> source_inv e' = source_inv e"
  by (simp add: same_source_def source_inv_def cong: option.case_cong)

lemma source_inv_upd [simp]:
  "source_inv (e\<lparr>iopt_used := x\<rparr>) = source_inv e" "source_inv (e\<lparr>iopt_used := x, iopt_free := y\<rparr>) = source_inv e"
  "source_inv (count_stat n l sz e) = source_inv e" "source_inv (e\<lparr>srcwin_decided_early := b\<rparr>) = source_inv e"
  by (simp_all add: source_inv_def count_stat_def cong: option.case_cong)

lemma copy_address_source_inv:
  assumes c: "copy_address inst e = Inr (x, e')" and i: "source_inv e"
  shows "source_inv e'"
  using c
proof (cases rule: copy_address_cases)
  case (fresh n l e1)
  then obtain s0 where "e_src e = Some s0" by blast
  from srcwin_setup_window(2,3) [OF fresh(3) this fresh(2)] show ?thesis
    by (auto simp: fresh(4) source_inv_def)
qed (use i in simp_all)

lemma finish_source_inv:
  assumes "xd3_iopt_finish_encoding inst e = Inr e'" "source_inv e"
  shows "source_inv e'"
proof -
  obtain inst' e1 where 1: "encode_operands inst e = Inr (inst', e1)"
    "encode_opcode inst' (e1\<lparr>unencoded_offset := unencoded_offset e1 + r_size inst'\<rparr>) = Inr e'"
    using assms(1) by (auto simp: xd3_iopt_finish_encoding_def err_then_Inr)
  have "source_inv e1"
  proof (cases "unat (r_type inst) = XD3_CPY")
    case True
    then obtain x f ps m ac ty where f: "copy_address inst e = Inr (x, f)"
      "e1 = f\<lparr>addr_sec := ps, e_mem := m, e_acache := ac\<rparr>"
      using 1(1) by (auto simp: encode_operands_def err_then_Inr)
    have "same_source f e1" by (simp add: f(2) same_source_def)
    then show ?thesis using copy_address_source_inv [OF f(1) assms(2)] source_inv_cong by blast
  next
    case False
    then have "same_source e e1"
      using 1(1) by (auto simp: encode_operands_def Let_def err_then_Inr emit_byte_to_def emit_bytes_to_def
        same_source_def count_stat_def split: if_splits)
    then show ?thesis using assms(2) source_inv_cong by blast
  qed
  moreover have "same_source e1 e'" using encode_opcode_source [OF 1(2)] by (simp add: same_source_def)
  ultimately show ?thesis using source_inv_cong by blast
qed

lemma add_source_inv: "xd3_iopt_add pos e = Inr e' \<Longrightarrow> source_inv e \<Longrightarrow> source_inv e'"
  by (auto simp: xd3_iopt_add_def Let_def split: if_splits dest: finish_source_inv)

lemma flush_loop_source_inv:
  assumes "flush_loop force fl rs e = Inr e'" "source_inv e"
  shows "source_inv e'"
  using assms
proof (induction force fl rs e rule: flush_loop.induct)
  case (2 force fl r rs e)
  obtain e1 where e1: "xd3_iopt_add_encoding r (e\<lparr>iopt_used := rs\<rparr>) = Inr e1"
    using 2(2) by (auto simp: err_then_Inr)
  then have i: "source_inv e1"
    using 2(3) by (auto simp: xd3_iopt_add_encoding_def err_then_Inr dest!: add_source_inv finish_source_inv)
  then show ?case using 2 e1 by (auto simp: err_then_Inr split: if_splits)
qed auto

lemma enc_INSTR_source_inv:
  assumes "enc_INSTR l e = Inr e'" "source_inv e"
  shows "source_inv e'"
proof -
  obtain f g where fg: "xd3_iopt_flush_instructions True e = Inr f" "xd3_iopt_add_finalize f = Inr g"
    "xd3_emit_hdr l (g\<lparr>e_state := ENC_FLUSH\<rparr>) = Inr e'"
    using assms(1) unfolding enc_INSTR_def by (elim err_thenE)
  have "source_inv f"
    using fg(1) assms(2) by (auto simp: xd3_iopt_flush_instructions_def split: prod.splits dest!: flush_loop_source_inv)
  moreover obtain h where h: "xd3_iopt_add (e_avail_in f) f = Inr h" "same_source h g"
    using fg(2) finalize_source by (auto simp: xd3_iopt_add_finalize_def err_then_Inr [of "xd3_iopt_add a b" for a b])
  ultimately have "source_inv g" using add_source_inv [OF h(1)] source_inv_cong [OF h(2)] by simp
  moreover have "same_source g e'"
    using hdr_writes_fields(10) [OF emit_hdr_writes [OF fg(3)]] by (simp add: same_source_def)
  ultimately show ?thesis using source_inv_cong by blast
qed

lemma window_segment_source:
  assumes "source_inv e" "source_ready sfile (window_source e) s"
  shows "source_segment sfile e (window_segment sfile (window_source e))"
    and "length (window_segment sfile (window_source e)) = unat (win_len (window_source e))"
  using assms
  by (auto simp: source_inv_def source_segment_def window_source_def window_segment_def source_ready_def
      xd3_encoder_used_source_def word_gt_0 split: option.splits if_splits)

section \<open>A window to try\<close>

text \<open>The invariant holds when a window begins.\<close>

lemma window_begins:
  assumes "wf_encoder e" "unencoded_offset e = 0" "iout e = None" "chain_bytes (data_sec e) = []"
    "chain_bytes (inst_sec e) = []" "chain_bytes (addr_sec e) = []"
    "staggered (iopt_used e)" "list_all (match_in sfile e) (iopt_used e)"
  shows "encoder_inv sfile (e_acache e) e"
proof -
  have "opcodes_parse (e_acache e) S e [] [] \<lparr>p_pos = length S, p_cache = e_acache e, p_inst = [], p_addr = []\<rparr>" for S
    using assms(5) by (simp add: opcodes_parse_def vcd_parses.parses_end)
  moreover have "instructions_make S e []" for S using assms by (simp add: instructions_make_def)
  ultimately have "written (e_acache e) S e" for S
    using assms by (auto simp: written_def intro!: exI)
  then show ?thesis using assms by (simp add: encoder_inv_def)
qed

definition sample_cache :: xd3_addr_cache where
  "sample_cache = \<lparr>s_near = 4, s_same = 3, next_slot = 0, near_array = replicate 4 0, same_array = replicate 768 0\<rparr>"

definition sample_page :: "xd3_output list" where
  "sample_page = [\<lparr>o_base = [], o_room = 100\<rparr>]"

text \<open>\<open>ababab\<close>, with the match the encoder finds in it.\<close>

definition sample_encoder :: xd3_encoder where
  "sample_encoder =
     \<lparr>e_mem = \<lparr>enc_free = [], enc_alloc = \<lambda>_ _. True\<rparr>,
      hdr_sec = sample_page, data_sec = sample_page, inst_sec = sample_page, addr_sec = sample_page,
      e_acache = sample_cache, e_table = xd3_rfc3284_code_table, e_next_in = [97, 98, 97, 98, 97, 98],
      e_flags = 0, e_state = ENC_INSTR, e_src = None, e_window = 1, taroff = 0, unencoded_offset = 0,
      srcwin_decided = False, srcwin_decided_early = False, srcwin_cksum_pos = 0, match_minaddr = 0,
      match_maxaddr = 0, enc_appheader = None, recode_adler32 = 0,
      iopt_used = [\<lparr>r_type = 3, r_xtra = 0, r_code1 = 0, r_code2 = 0, r_pos = 2, r_size = 4, r_addr = 0\<rparr>],
      iopt_free = [], iout = None, e_iopt_size = 128, e_iopt_unlimited = False, i_slots_used = 1,
      stats = \<lparr>n_scpy = 0, n_tcpy = 0, n_add = 0, n_run = 0, l_scpy = 0, l_tcpy = 0, l_add = 0, l_run = 0\<rparr>\<rparr>"

definition sample_decoder :: xd3_stream where
  "sample_decoder =
     (zero_stream (xd3_init_config \<lparr>heap_alloc = \<lambda>_ n. Some (replicate n 0), heap_words = \<lambda>_. None, heap_table = False\<rparr> 0)
        (\<lambda>_. None) 0)\<lparr>dec_state := DEC_WININD, dec_window_count := 1, code_table := xd3_rfc3284_code_table,
        acache := sample_cache, next_in := [0, 9, 6, 0, 2, 1, 1, 97, 98, 166, 0]\<rparr>"

lemma sample_cache_init: "xd3_init_cache sample_cache = sample_cache" "wf_cache sample_cache" "cache_modes sample_cache = 9"
  by (simp_all add: sample_cache_def xd3_init_cache_def wf_cache_def cache_modes_def)

lemma sample_encoder_begins: "encoder_inv [] sample_cache sample_encoder"
proof -
  have "wf_encoder sample_encoder"
    using sample_cache_init by (simp add: wf_encoder_def sample_encoder_def sample_page_def)
  then show ?thesis
    using window_begins [of sample_encoder "[]"]
    by (simp add: sample_encoder_def sample_page_def chain_bytes_def match_in_def true_match_def in_source_window_def
        inst_types MIN_MATCH_def)
qed

lemma sample_encodes:
  "\<exists>e'. enc_INSTR TYPE(32) sample_encoder = Inr e' \<and> window_output e' = [0, 9, 6, 0, 2, 1, 1, 97, 98, 166, 0] \<and>
     e_window e' = 1 \<and> window_source e' = None \<and> window_checksum TYPE(32) e' = None"
proof -
  have "(case enc_INSTR TYPE(32) sample_encoder of
      Inl x \<Rightarrow> False
    | Inr e' \<Rightarrow> window_output e' = [0, 9, 6, 0, 2, 1, 1, 97, 98, 166, 0] \<and>
     e_window e' = 1 \<and> window_source e' = None \<and> window_checksum TYPE(32) e' = None)"
    by code_simp
  then show ?thesis by (auto split: sum.splits)
qed

lemma sample_decoder_ready: "decoder_ready [] None 6 sample_decoder"
proof -
  have r: "unat (xd3_round_blksize 6 DECODE_ALLOCSIZE) = 16384" by code_simp
  show ?thesis
    by (simp add: decoder_ready_def sample_decoder_def zero_stream_def xd3_init_config_def both_idle_def zero_hinst_def
        sections_idle_def zero_sect_def buffer_ready_def source_ready_def XOFF_T_OVERFLOW_def inst_types r)
qed

section \<open>There and back\<close>

text \<open>C2: What the encoder's \<^verbatim>\<open>ENC_INSTR\<close> step writes for a window, from a buffer of true matches,
  the decoder turns back into that window: the first call reads the window header, the second
  decodes the sections and returns \<^verbatim>\<open>XD3_OUTPUT\<close> with the encoder's input in its output buffer.\<close>

theorem encode_decode_window:
  assumes enc: "enc_INSTR l e = Inr e'"
    and inv: "encoder_inv sfile c0 e" "source_inv e" "hdr_sec e \<noteq> []" "chain_bytes (hdr_sec e) = []" "e_window e' \<noteq> 0"
    and dec: "decoder_ready sfile (window_source e') (e_avail_in e) s" "next_in s = window_output e' @ rest"
      "xd3_init_cache (acache s) = c0"
    and sizes: "length (e_next_in e) \<le> 2 ^ 24" "unat (win_len (window_source e')) + length (e_next_in e) < 2 ^ 32"
      "length (window_output e') < 2 ^ 32"
    and ck: "window_checksum l e' = None \<or> window_checksum l e' = Some (window_adler32 l (e_next_in e))"
  shows "\<exists>s1 s2. xd3_decode_input l dm s = Some (if dec_window_count s = 0 then XD3_GOTHEADER else XD3_WINSTART, s1) \<and>
    xd3_decode_input l dm s1 = Some (XD3_OUTPUT, s2) \<and> window_bytes s2 = Some (e_next_in e)"
proof -
  let ?T = "e_next_in e" and ?win = "window_source e'" and ?adl = "window_checksum l e'"
  let ?D = "chain_bytes (data_sec e')" and ?I = "chain_bytes (inst_sec e')" and ?A = "chain_bytes (addr_sec e')"
  let ?d = "xd3_sizeof_output (data_sec e')" and ?i = "xd3_sizeof_output (inst_sec e')" and ?a = "xd3_sizeof_output (addr_sec e')"
  have src: "source_inv e'" by (rule enc_INSTR_source_inv [OF enc inv(2)])
  have ready: "source_ready sfile ?win s" using dec(1) by (simp add: decoder_ready_def)
  note seg = window_segment_source [OF src ready]
  have len: "length (window_segment sfile ?win) + length ?T < 2 ^ 32" using seg(2) sizes(2) by simp
  have w: "vcd_window xd3_rfc3284_code_table c0 (window_segment sfile ?win) ?D ?I ?A ?T" "e_next_in e' = ?T"
    "chain_bytes (hdr_sec e') = window_header_bytes l e'"
    using enc_INSTR_encodes [OF enc inv(1,3) seg(1) len] inv(4,5) by auto
  have tgt: "unat (e_avail_in e) = length ?T"
    using sizes(1) by (simp add: unsigned_of_nat take_bit_nat_eq_self)
  have L: "unat ?d = length ?D" "unat ?i = length ?I" "unat ?a = length ?A" "length ?D + length ?I + length ?A < 2 ^ 32"
    using sizes(3) by (simp_all add: xd3_sizeof_output_eq window_output_def unsigned_of_nat take_bit_nat_eq_self)
  have inp: "next_in s = header_bytes ?win (e_avail_in e) ?d ?i ?a ?adl @ (?D @ ?I @ ?A @ rest)"
    using dec(2) w(2,3) by (simp add: window_output_def window_header_bytes_def)
  have hard: "e_avail_in e \<le> XD3_HARDMAXWINSIZE"
    using sizes(1) tgt by (simp add: word_le_nat_alt XD3_HARDMAXWINSIZE_def)
  have ov: "\<not> USIZE_T_OVERFLOW (win_len ?win) (e_avail_in e)" "\<not> XOFF_T_OVERFLOW (win_off ?win) (ucast (win_len ?win))"
    using sizes(2) tgt ready
    by (auto simp: USIZE_T_OVERFLOW_iff XOFF_T_OVERFLOW_iff unat_ucast_u32_u64 source_ready_def split: option.splits)
  from WININD_reads [OF inp _ _ _ _ ov(1) hard ov(2)] dec(1)
  obtain s1 where s1: "dec_WININD s = Some (if dec_window_count s = 0 then XD3_GOTHEADER else XD3_WINSTART, s1)"
    "after_header (?D @ ?I @ ?A @ rest) ?adl (with_header ?win (e_avail_in e) ?d ?i ?a ?adl
       (init_window (win_bits (?win \<noteq> None) (?adl \<noteq> None)) s)) s1"
    unfolding decoder_ready_def by blast
  have "\<exists>s2. xd3_decode_input l dm s1 = Some (XD3_OUTPUT, s2) \<and> window_bytes s2 = Some ?T \<and> dec_state s2 = DEC_FINISH"
    by (rule data_reads [OF s1(2) dec(1)]) (use L tgt hard sizes(2) w(1) dec(3) ck in \<open>simp_all\<close>)
  moreover have "xd3_decode_input l dm s = dec_WININD s" using dec(1) by (simp add: xd3_decode_input_def decoder_ready_def)
  ultimately show ?thesis using s1(1) by auto
qed


theorem encode_decode_window_witness:
  "\<exists>e' s1 s2. enc_INSTR TYPE(32) sample_encoder = Inr e' \<and>
    xd3_decode_input TYPE(32) (\<lambda>_ _. None) sample_decoder = Some (XD3_WINSTART, s1) \<and>
    xd3_decode_input TYPE(32) (\<lambda>_ _. None) s1 = Some (XD3_OUTPUT, s2) \<and>
    window_bytes s2 = Some [97, 98, 97, 98, 97, 98]"
proof -
  obtain e' where e': "enc_INSTR TYPE(32) sample_encoder = Inr e'" "window_output e' = [0, 9, 6, 0, 2, 1, 1, 97, 98, 166, 0]"
     "e_window e' = 1" "window_source e' = None" "window_checksum TYPE(32) e' = None"
    using sample_encodes by blast
  have "source_inv sample_encoder" "hdr_sec sample_encoder \<noteq> []" "chain_bytes (hdr_sec sample_encoder) = []"
    "e_next_in sample_encoder = [97, 98, 97, 98, 97, 98]" "next_in sample_decoder = window_output e' @ []"
    "xd3_init_cache (acache sample_decoder) = sample_cache" "dec_window_count sample_decoder = 1"
    by (simp_all add: sample_encoder_def source_inv_def sample_page_def chain_bytes_def sample_decoder_def e'(2)
        sample_cache_init)
  then show ?thesis
    using encode_decode_window [OF e'(1) sample_encoder_begins, of "sample_decoder" "[]" "\<lambda>_ _. None"]
      e' sample_decoder_ready by auto
qed

text \<open>C6: The sections the \<^verbatim>\<open>ENC_INSTR\<close> step leaves encode the window over its source segment in
  the sense of RFC 3284, and the header section holds the header for them, after the file header in
  the first window.\<close>

theorem enc_INSTR_is_vcdiff:
  assumes "enc_INSTR l e = Inr e'" and "encoder_inv sfile c0 e" and "hdr_sec e \<noteq> []"
    and "source_segment sfile e' S" and "length S + length (e_next_in e) < 2 ^ 32"
  shows "vcd_window xd3_rfc3284_code_table c0 S (chain_bytes (data_sec e')) (chain_bytes (inst_sec e'))
      (chain_bytes (addr_sec e')) (e_next_in e) \<and>
    chain_bytes (hdr_sec e') = chain_bytes (hdr_sec e) @
      (if e_window e' = 0 then file_header_bytes (enc_appheader e') else []) @ window_header_bytes l e'"
  using enc_INSTR_encodes [OF assms] by blast

theorem enc_INSTR_is_vcdiff_witness:
  "\<exists>e'. enc_INSTR TYPE(32) sample_encoder = Inr e' \<and>
     vcd_window xd3_rfc3284_code_table sample_cache [] (chain_bytes (data_sec e')) (chain_bytes (inst_sec e'))
      (chain_bytes (addr_sec e')) [97, 98, 97, 98, 97, 98]"
proof -
  obtain e' where e': "enc_INSTR TYPE(32) sample_encoder = Inr e'" "e_src e' = None" "taroff e' = 0"
  proof -
    have "case enc_INSTR TYPE(32) sample_encoder of Inl _ \<Rightarrow> False | Inr e' \<Rightarrow> e_src e' = None \<and> taroff e' = 0"
      by code_simp
    then show thesis using that by (auto split: sum.splits)
  qed
  have "source_segment [] e' []" using e'(2,3) by (simp add: source_segment_def)
  then have "vcd_window xd3_rfc3284_code_table sample_cache [] (chain_bytes (data_sec e')) (chain_bytes (inst_sec e'))
      (chain_bytes (addr_sec e')) (e_next_in sample_encoder)"
    using enc_INSTR_is_vcdiff [OF e'(1) sample_encoder_begins, of "[]"] by (simp add: sample_encoder_def sample_page_def)
  then show ?thesis using e'(1) by (simp add: sample_encoder_def)
qed

end
