(* ===== verification/Slots.thy ===== *)
theory Slots
  imports Roundtrip
begin

text \<open>
  The slots of the instruction buffer: no error of the encoder is the undefined pop of an empty
  free list, encoding only adds slots to the free list, and a partial flush of four entries or
  more leaves one there.
\<close>

section \<open>Errors\<close>

text \<open>An error that the code returns is not \<^verbatim>\<open>0\<close>; the undefined pop is modelled with that code.\<close>

definition fails_properly :: "xd3_err + 'a \<Rightarrow> bool" where
  "fails_properly r \<longleftrightarrow> (\<forall>err. r = Inl err \<longrightarrow> fst err \<noteq> XD3_OK)"

lemma fails_properly_simps [simp]: "fails_properly (Inr x)" "fails_properly (Inl err) \<longleftrightarrow> fst err \<noteq> XD3_OK"
  by (simp_all add: fails_properly_def)

lemma err_then_fails:
  "fails_properly p \<Longrightarrow> (\<And>x. p = Inr x \<Longrightarrow> fails_properly (f x)) \<Longrightarrow> fails_properly (err_then p f)"
  by (cases p) simp_all

lemma not_pop: "fails_properly r \<Longrightarrow> r \<noteq> Inl pop_of_empty_list"
  by (auto simp: pop_of_empty_list_def)

lemma emit_fails:
  "fails_properly (xd3_emit_byte m ps b)" "fails_properly (xd3_emit_bytes m ps bs)"
proof -
  show "fails_properly (xd3_emit_byte m ps b)"
    by (simp add: xd3_emit_byte_def oom_def split: option.splits)
  show "fails_properly (xd3_emit_bytes m ps bs)"
    by (induction m ps bs rule: xd3_emit_bytes.induct, subst xd3_emit_bytes.simps)
      (simp add: oom_def Let_def split: option.splits)
qed

lemma emit_to_fails:
  "fails_properly (emit_byte_to sec g b e)" "fails_properly (emit_bytes_to sec g bs e)"
  "fails_properly (emit_size_to sec g v e)"
  by (auto simp: emit_byte_to_def emit_bytes_to_def emit_size_to_def xd3_emit_uint32_t_def emit_integer_def
      intro!: err_then_fails emit_fails)

lemma encode_address_fails: "fails_properly (xd3_encode_address m ps ac addr here mode)"
proof -
  have u: "fails_properly (xd3_emit_uint32_t m ps v)" for v
    by (simp add: xd3_emit_uint32_t_def emit_integer_def emit_fails)
  have b: "fails_properly (xd3_emit_byte m ps v)" for v by (rule emit_fails)
  show ?thesis
    using u [of "fst (best_mode ac addr here)"] b [of "ucast (addr mod (s_same ac * 256) mod 256)"]
    by (auto simp: xd3_encode_address_def Let_def split: prod.splits sum.splits)
qed

lemma copy_address_fails: "fails_properly (copy_address inst e)"
  by (auto simp: copy_address_def xd3_srcwin_setup_def Let_def intro!: err_then_fails split: option.splits)

lemma encode_operands_fails: "fails_properly (encode_operands inst e)"
  by (auto simp: encode_operands_def Let_def
      intro!: err_then_fails copy_address_fails encode_address_fails emit_to_fails)

lemma emit_single_fails: "fails_properly (xd3_emit_single r c e)"
  by (auto simp: xd3_emit_single_def intro!: err_then_fails emit_to_fails)

lemma encode_opcode_fails: "fails_properly (encode_opcode inst e)"
  by (auto simp: encode_opcode_def xd3_emit_double_def split: prod.splits option.splits
      intro!: err_then_fails emit_single_fails emit_to_fails)

lemma add_encoding_fails: "fails_properly (xd3_iopt_add_encoding r e)"
  by (auto simp: xd3_iopt_add_encoding_def xd3_iopt_add_def xd3_iopt_finish_encoding_def Let_def
      intro!: err_then_fails encode_operands_fails encode_opcode_fails)

lemma flush_loop_fails: "fails_properly (flush_loop force fl ks e)"
  by (induction force fl ks e rule: flush_loop.induct) (auto intro!: err_then_fails add_encoding_fails)

lemma flush_fails: "fails_properly (xd3_iopt_flush_instructions force e)"
  by (auto simp: xd3_iopt_flush_instructions_def flush_loop_fails split: prod.splits)

section \<open>The free list\<close>

text \<open>The instruction that waits for its opcode has a slot of the buffer, unless it is an add.\<close>

definition slot_waits :: "xd3_encoder \<Rightarrow> bool" where
  "slot_waits e \<longleftrightarrow> (\<exists>p. iout e = Some p \<and> unat (r_type p) \<noteq> XD3_ADD)"

definition frees :: "xd3_encoder \<Rightarrow> xd3_encoder \<Rightarrow> bool" where
  "frees e e' \<longleftrightarrow> (\<exists>xs. iopt_free e' = iopt_free e @ xs) \<and> e_iopt_size e' = e_iopt_size e \<and>
     (slot_waits e \<longrightarrow> iopt_free e' \<noteq> [])"

lemma choose_types:
  assumes "xd3_choose_instruction p i = (q, i')"
  shows "r_type i' = r_type i" "map_option r_type q = map_option r_type p"
  using assms by (auto simp: xd3_choose_instruction_def Let_def split: if_splits option.splits)

lemma encode_opcode_frees:
  assumes "encode_opcode i e = Inr e'"
  shows "frees e e'" "unat (r_type i) \<noteq> XD3_ADD \<Longrightarrow> iopt_free e' \<noteq> [] \<or> slot_waits e'"
    "addr_sec e' = addr_sec e \<and> e_acache e' = e_acache e"
proof -
  obtain q i' where ch: "xd3_choose_instruction (iout e) (i\<lparr>r_code2 := 0\<rparr>) = (q, i')" by fastforce
  note t = choose_types [OF ch]
  have "frees e e' \<and> (unat (r_type i) \<noteq> XD3_ADD \<longrightarrow> iopt_free e' \<noteq> [] \<or> slot_waits e') \<and>
    addr_sec e' = addr_sec e \<and> e_acache e' = e_acache e"
  proof (cases q)
    case None
    then have "iout e = None" using t(2) by simp
    then show ?thesis using assms ch None t(1) by (auto simp: encode_opcode_def frees_def slot_waits_def)
  next
    case (Some p)
    then obtain p0 where p0: "iout e = Some p0" "r_type p0 = r_type p" using t(2) by (cases "iout e") auto
    show ?thesis
    proof (cases "r_code2 p = 0")
      case True
      then obtain f where f: "xd3_emit_single p (r_code1 p) (e\<lparr>iout := Some p\<rparr>) = Inr f"
        "e' = (xd3_iopt_free_nonadd p f)\<lparr>iout := Some i'\<rparr>"
        using assms ch Some by (auto simp: encode_opcode_def err_then_Inr)
      have "iopt_free f = iopt_free e" "e_iopt_size f = e_iopt_size e" "addr_sec f = addr_sec e" "e_acache f = e_acache e"
        using f(1) by (auto simp: xd3_emit_single_def emit_byte_to_def emit_size_to_def err_then_Inr split: if_splits)
      then show ?thesis using p0 t(1) by (auto simp: f(2) xd3_iopt_free_nonadd_def frees_def slot_waits_def)
    next
      case False
      then obtain f where f: "xd3_emit_double p i' (r_code2 p) (e\<lparr>iout := Some p\<rparr>) = Inr f"
        "e' = (xd3_iopt_free_nonadd i' (xd3_iopt_free_nonadd p f))\<lparr>iout := None\<rparr>"
        using assms ch Some by (auto simp: encode_opcode_def err_then_Inr)
      have "iopt_free f = iopt_free e" "e_iopt_size f = e_iopt_size e" "addr_sec f = addr_sec e" "e_acache f = e_acache e"
        using f(1) by (auto simp: xd3_emit_double_def emit_byte_to_def err_then_Inr)
      then show ?thesis using p0 t(1) by (auto simp: f(2) xd3_iopt_free_nonadd_def frees_def slot_waits_def)
    qed
  qed
  then show "frees e e'" "unat (r_type i) \<noteq> XD3_ADD \<Longrightarrow> iopt_free e' \<noteq> [] \<or> slot_waits e'"
    "addr_sec e' = addr_sec e \<and> e_acache e' = e_acache e" by auto
qed

text \<open>The state the encoder begins with, as far as addresses are concerned.\<close>

definition addresses_ready :: "xd3_encoder \<Rightarrow> bool" where
  "addresses_ready e \<longleftrightarrow> addr_sec e \<noteq> [] \<and> wf_cache (e_acache e) \<and> cache_modes (e_acache e) = 9"

lemma copy_address_slots:
  assumes "copy_address inst e = Inr (x, e')"
  shows "iopt_free e' = iopt_free e" "iout e' = iout e" "e_iopt_size e' = e_iopt_size e"
    "addresses_ready e' = addresses_ready e"
proof -
  have "iopt_free e' = iopt_free e \<and> iout e' = iout e \<and> e_iopt_size e' = e_iopt_size e \<and>
      addr_sec e' = addr_sec e \<and> e_acache e' = e_acache e"
    using assms by (cases rule: copy_address_cases)
      (auto simp: count_stat_def xd3_srcwin_setup_def Let_def split: if_splits)
  then show "iopt_free e' = iopt_free e" "iout e' = iout e" "e_iopt_size e' = e_iopt_size e"
    "addresses_ready e' = addresses_ready e" by (simp_all add: addresses_ready_def)
qed

lemma encode_operands_slots:
  assumes "encode_operands i e = Inr (i', e')"
  shows "iopt_free e' = iopt_free e \<and> iout e' = iout e \<and> e_iopt_size e' = e_iopt_size e"
    and "unat (r_type i) \<noteq> XD3_CPY \<Longrightarrow> r_type i' = r_type i \<and> addresses_ready e' = addresses_ready e"
    and "addresses_ready e \<Longrightarrow> unat (r_type i) = XD3_CPY \<Longrightarrow> unat (r_type i') \<noteq> XD3_ADD"
proof -
  show "iopt_free e' = iopt_free e \<and> iout e' = iout e \<and> e_iopt_size e' = e_iopt_size e"
  proof (cases "unat (r_type i) = XD3_CPY")
    case True
    then obtain x f ps m ac ty where f: "copy_address i e = Inr (x, f)"
      "e' = f\<lparr>addr_sec := ps, e_mem := m, e_acache := ac\<rparr>"
      using assms by (auto simp: encode_operands_def err_then_Inr)
    then show ?thesis using copy_address_slots [OF f(1)] by simp
  next
    case False
    then show ?thesis
      using assms by (auto simp: encode_operands_def Let_def err_then_Inr emit_byte_to_def emit_bytes_to_def count_stat_def
          split: if_splits)
  qed
  show "r_type i' = r_type i \<and> addresses_ready e' = addresses_ready e" if "unat (r_type i) \<noteq> XD3_CPY"
    using assms that by (auto simp: encode_operands_def Let_def err_then_Inr emit_byte_to_def emit_bytes_to_def count_stat_def
        addresses_ready_def split: if_splits)
  show "unat (r_type i') \<noteq> XD3_ADD" if r: "addresses_ready e" "unat (r_type i) = XD3_CPY"
  proof -
    obtain x f ps m ac ty here where f: "copy_address i e = Inr (x, f)" "i' = i\<lparr>r_type := ty\<rparr>"
      "xd3_encode_address (e_mem f) (addr_sec f) (e_acache f) x here (r_type i) = Inr (ps, m, ac, ty)"
      using assms r(2) by (auto simp: encode_operands_def err_then_Inr)
    have w: "addr_sec f \<noteq> []" "wf_cache (e_acache f)" "cache_modes (e_acache f) = 9"
      using copy_address_slots(4) [OF f(1)] r(1) by (simp_all add: addresses_ready_def)
    obtain k bs where c: "address_code (e_acache f) x here = (k, bs)" by fastforce
    have k: "k < 9" using decode_address_code(1) [OF w(2) c] w(3) by simp
    have ty: "ty = r_type i + of_nat k" using encode_address_code [OF w(2) c f(3) w(1)] by simp
    have "unat (of_nat k :: u8) = k" using k by (simp add: unsigned_of_nat take_bit_nat_eq_self)
    then have "unat ty = XD3_CPY + k" using k r(2) by (simp add: ty unat_word_ariths inst_types)
    then show ?thesis by (simp add: f(2) inst_types)
  qed
qed

lemma finish_encoding_frees:
  assumes "xd3_iopt_finish_encoding i e = Inr e'"
  shows "frees e e'" "addresses_ready e \<Longrightarrow> unat (r_type i) \<noteq> XD3_ADD \<Longrightarrow> iopt_free e' \<noteq> [] \<or> slot_waits e'"
    "unat (r_type i) \<noteq> XD3_CPY \<Longrightarrow> addresses_ready e' = addresses_ready e"
proof -
  obtain i' f where f: "encode_operands i e = Inr (i', f)"
    "encode_opcode i' (f\<lparr>unencoded_offset := unencoded_offset f + r_size i'\<rparr>) = Inr e'"
    using assms by (auto simp: xd3_iopt_finish_encoding_def err_then_Inr)
  note o = encode_operands_slots [OF f(1)] and c = encode_opcode_frees [OF f(2)]
  show "frees e e'" using c(1) o(1) by (auto simp: frees_def slot_waits_def)
  show "iopt_free e' \<noteq> [] \<or> slot_waits e'" if "addresses_ready e" "unat (r_type i) \<noteq> XD3_ADD"
    using c(2) o(2,3) that by (cases "unat (r_type i) = XD3_CPY") auto
  have "addr_sec e' = addr_sec f \<and> e_acache e' = e_acache f" using c(3) by simp
  then have "addresses_ready e' = addresses_ready f" by (simp add: addresses_ready_def)
  then show "addresses_ready e' = addresses_ready e" if "unat (r_type i) \<noteq> XD3_CPY" using o(2) [OF that] by simp
qed

lemma frees_trans: "frees e f \<Longrightarrow> frees f g \<Longrightarrow> frees e g"
  by (auto simp: frees_def)

lemma add_encoding_frees:
  assumes "xd3_iopt_add_encoding r e = Inr e'"
  shows "frees e e'" "addresses_ready e \<Longrightarrow> unat (r_type r) \<noteq> XD3_ADD \<Longrightarrow> iopt_free e' \<noteq> [] \<or> slot_waits e'"
proof -
  obtain f where f: "xd3_iopt_add (r_pos r) e = Inr f" "xd3_iopt_finish_encoding r f = Inr e'"
    using assms by (auto simp: xd3_iopt_add_encoding_def err_then_Inr)
  have a: "(f = e \<or> frees e f) \<and> addresses_ready f = addresses_ready e"
  proof (cases "r_pos r > unencoded_offset e")
    case True
    then obtain i where i: "xd3_iopt_finish_encoding i e = Inr f" "unat (r_type i) = XD3_ADD"
      using f(1) by (auto simp: xd3_iopt_add_def Let_def inst_types)
    then show ?thesis using finish_encoding_frees(1,3) [OF i(1)] by (simp add: inst_types)
  qed (use f(1) in \<open>simp add: xd3_iopt_add_def Let_def\<close>)
  then show "frees e e'" using finish_encoding_frees(1) [OF f(2)] frees_trans by blast
  show "iopt_free e' \<noteq> [] \<or> slot_waits e'" if "addresses_ready e" "unat (r_type r) \<noteq> XD3_ADD"
    using finish_encoding_frees(2) [OF f(2)] that a by simp
qed

text \<open>Two entries popped free a slot.\<close>

lemma flush_loop_keeps_free:
  "flush_loop force fl ks e = Inr e' \<Longrightarrow> iopt_free e \<noteq> [] \<Longrightarrow> iopt_free e' \<noteq> []"
proof (induction ks arbitrary: fl e)
  case (Cons r ks)
  obtain e1 where e1: "xd3_iopt_add_encoding r (e\<lparr>iopt_used := ks\<rparr>) = Inr e1"
    "(if \<not> force \<and> (fl + 1 > e_iopt_size e1 div 2 \<or> length ks < 3) then Inr e1
      else flush_loop force (if force then fl else fl + 1) ks e1) = Inr e'"
    using Cons.prems(1) unfolding flush_loop.simps by (elim err_thenE) (rule that, simp_all)
  have "iopt_free e1 \<noteq> []" using add_encoding_frees(1) [OF e1(1)] Cons.prems(2) by (auto simp: frees_def)
  then show ?case using Cons.IH e1(2) by (auto split: if_splits)
qed auto

definition flush_frees :: "xd3_encoder \<Rightarrow> bool" where
  "flush_frees e \<longleftrightarrow> 4 \<le> length (iopt_used e) \<and> 2 \<le> unat (e_iopt_size e) \<and> addresses_ready e \<and>
     (\<forall>r \<in> set (iopt_used e). unat (r_type r) \<noteq> XD3_ADD)"

lemma compact_iopt_slots:
  "compact_iopt force rs fr = (ks, fr') \<Longrightarrow> length ks + length fr' = length rs + length fr"
proof (induction "length rs" arbitrary: rs fr ks fr' rule: less_induct)
  case less
  show ?case
  proof (cases rs rule: remdups_adj.cases)
    case (3 r1 r2 rest)
    have IH: "length ks + length fr' = Suc (length rest) + length fr"
      if "compact_iopt force (r # rest) fr = (ks, fr')" for r fr ks fr'
      using less.hyps [OF _ that] 3 by simp
    have IH': "length ks + length fr' = length rest + length fr"
      if "compact_iopt force rest fr = (ks, fr')" for fr ks fr'
      using less.hyps [OF _ that] 3 by simp
    from less.prems show ?thesis
      unfolding 3 compact_iopt.simps(3) Let_def by (auto split: if_splits prod.splits dest!: IH IH')
  qed (use less.prems in simp_all)
qed

lemma compact_iopt_types:
  "compact_iopt force rs fr = (ks, fr') \<Longrightarrow> list_all (\<lambda>r. P (r_type r)) rs \<Longrightarrow> list_all (\<lambda>r. P (r_type r)) ks"
proof (induction "length rs" arbitrary: force rs fr ks fr' rule: less_induct)
  case less
  show ?case
  proof (cases rs rule: remdups_adj.cases)
    case (3 r1 r2 rest)
    have P: "P (r_type r1)" "P (r_type r2)" "list_all (\<lambda>r. P (r_type r)) rest" using less.prems(2) 3 by simp_all
    have IH: "list_all (\<lambda>r. P (r_type r)) ks"
      if "compact_iopt force (r # rest) fr = (ks, fr')" "P (r_type r)" for force r fr ks fr'
      using less.hyps [OF _ that(1)] that(2) P 3 by simp
    have IH': "list_all (\<lambda>r. P (r_type r)) ks" if "compact_iopt force rest fr = (ks, fr')" for force fr ks fr'
      using less.hyps [OF _ that] P 3 by simp
    obtain a b where sp: "split_pair r1 r2 = (a, b)" by fastforce
    then have ab: "r_type a = r_type r1" "r_type b = r_type r2" by (auto simp: split_pair_def Let_def)
    have Pb: "P (r_type b)" using P ab by simp
    from less.prems(1) P show ?thesis
      unfolding 3 compact_iopt.simps(3) Let_def sp prod.case
      using Pb by (auto simp: ab(1) split: if_splits prod.splits intro: IH IH')
  qed (use less.prems in simp_all)
qed

lemma flush_leaves_slot:
  assumes fl: "xd3_iopt_flush_instructions False e = Inr e'" and ff: "flush_frees e"
  shows "iopt_free e' \<noteq> []"
proof -
  obtain ks fr where c: "compact_iopt False (iopt_used e) (iopt_free e) = (ks, fr)"
    "flush_loop False 0 ks (e\<lparr>iopt_used := ks, iopt_free := fr\<rparr>) = Inr e'"
    using fl by (auto simp: xd3_iopt_flush_instructions_def split: prod.splits)
  show ?thesis
  proof (cases "fr = []")
    case False
    then show ?thesis using flush_loop_keeps_free [OF c(2)] by simp
  next
    case True
    then have "4 \<le> length ks" using compact_iopt_slots [OF c(1)] ff by (simp add: flush_frees_def)
    then obtain r1 r2 rs where ks: "ks = r1 # r2 # rs" "2 \<le> length rs"
      by (cases ks; cases "tl ks") auto
    let ?f = "e\<lparr>iopt_used := ks, iopt_free := fr\<rparr>"
    obtain e1 where e1: "xd3_iopt_add_encoding r1 (?f\<lparr>iopt_used := r2 # rs\<rparr>) = Inr e1"
      "(if 0 + 1 > e_iopt_size e1 div 2 \<or> length (r2 # rs) < 3 then Inr e1 else flush_loop False (0 + 1) (r2 # rs) e1) = Inr e'"
      using c(2) unfolding ks(1) flush_loop.simps(2) [of _ _ r1] if_False by (elim err_thenE) (rule that, simp_all)
    have "list_all (\<lambda>r. unat (r_type r) \<noteq> XD3_ADD) ks"
      by (rule compact_iopt_types [OF c(1)]) (use ff in \<open>simp add: flush_frees_def list_all_iff\<close>)
    then have t: "unat (r_type r1) \<noteq> XD3_ADD" by (simp add: ks(1))
    have ar: "addresses_ready (?f\<lparr>iopt_used := r2 # rs\<rparr>)" using ff by (simp add: flush_frees_def addresses_ready_def)
    note a = add_encoding_frees [OF e1(1)]
    have "e_iopt_size e1 = e_iopt_size e" using a(1) by (simp add: frees_def)
    then have "\<not> 0 + 1 > e_iopt_size e1 div 2" using ff by (simp add: flush_frees_def word_less_nat_alt unat_div)
    then have l: "flush_loop False (0 + 1) (r2 # rs) e1 = Inr e'" using e1(2) ks(2) by (simp split: if_splits)
    obtain e2 where e2: "xd3_iopt_add_encoding r2 (e1\<lparr>iopt_used := rs\<rparr>) = Inr e2"
      "(if 0 + 1 + 1 > e_iopt_size e2 div 2 \<or> length rs < 3 then Inr e2 else flush_loop False (0 + 1 + 1) rs e2) = Inr e'"
      using l unfolding flush_loop.simps(2) if_False by (elim err_thenE) (rule that, simp_all)
    have "iopt_free e1 \<noteq> [] \<or> slot_waits e1" by (rule a(2) [OF ar t])
    then have "iopt_free e2 \<noteq> []" using add_encoding_frees(1) [OF e2(1)] by (auto simp: frees_def slot_waits_def)
    then show ?thesis using e2(2) flush_loop_keeps_free by (auto split: if_splits)
  qed
qed

text \<open>A slot for a new entry is there, or comes from an allocation or a partial flush.\<close>

definition rinst_fits :: "nat \<Rightarrow> bool" where
  "rinst_fits rinst \<longleftrightarrow> 0 < rinst \<and> rinst \<le> XD3_ALLOCSIZE"

definition slot_comes :: "nat \<Rightarrow> xd3_encoder \<Rightarrow> bool" where
  "slot_comes rinst e \<longleftrightarrow> (iopt_free e = [] \<longrightarrow>
     (if e_iopt_unlimited e then rinst_fits rinst else flush_frees e))"

lemma get_slot_fails:
  assumes "slot_comes rinst e"
  shows "fails_properly (xd3_iopt_get_slot rinst e)"
proof (cases "iopt_free e = [] \<and> e_iopt_unlimited e")
  case True
  let ?n = "XD3_ALLOCSIZE div rinst"
  have "0 < rinst" "rinst \<le> XD3_ALLOCSIZE" using assms True by (simp_all add: slot_comes_def rinst_fits_def)
  then have "0 < ?n" "?n \<le> XD3_ALLOCSIZE" by (simp_all add: div_greater_zero_iff)
  moreover have "?n < 2 ^ 32"
    by (rule le_less_trans [OF div_le_dividend]) (simp add: XD3_ALLOCSIZE_def)
  ultimately have "unat (of_nat ?n :: u32) \<noteq> 0" by (simp add: unsigned_of_nat take_bit_nat_eq_self)
  then show ?thesis using True by (auto simp: xd3_iopt_get_slot_def xd3_alloc_iopt_def Let_def)
next
  case False
  then show ?thesis
    using assms flush_leaves_slot flush_fails [of False e]
    by (auto simp: xd3_iopt_get_slot_def slot_comes_def intro!: err_then_fails)
qed

lemma new_entry_fails:
  assumes "slot_comes rinst e"
  shows "fails_properly (xd3_found_match rinst pos sz addr b e)" "fails_properly (xd3_emit_run rinst pos sz c e)"
  by (auto simp: xd3_found_match_def xd3_emit_run_def intro!: err_then_fails get_slot_fails [OF assms])

end
