(* ===== verification/Buffer.thy ===== *)
theory Buffer
  imports Slots
begin

text \<open>
  The operations on the instruction buffer keep the encoder's invariant: a partial flush, a
  new match or run, and erasing what a match covers.
\<close>

section \<open>A partial flush\<close>

lemma segment_before_add_encoding:
  assumes "xd3_iopt_add_encoding r e = Inr e'" "source_segment sfile e' S"
  shows "source_segment sfile e S"
proof -
  obtain f where "xd3_iopt_add (r_pos r) e = Inr f" "xd3_iopt_finish_encoding r f = Inr e'"
    using assms(1) by (auto simp: xd3_iopt_add_encoding_def err_then_Inr)
  then show ?thesis
    using assms(2) by (auto simp: xd3_iopt_add_def Let_def split: if_splits dest: finish_segment_before)
qed

text \<open>Encoding an instruction does not touch the buffer's list or the input.\<close>

definition buffer_frame :: "xd3_encoder \<Rightarrow> xd3_encoder \<Rightarrow> bool" where
  "buffer_frame e e' \<longleftrightarrow> iopt_used e' = iopt_used e \<and> e_next_in e' = e_next_in e \<and>
     (\<forall>r. 0 < unat (r_size r) \<longrightarrow> in_source_window e r \<longrightarrow> in_source_window e' r)"

lemma buffer_frame_trans: "buffer_frame e f \<Longrightarrow> buffer_frame f g \<Longrightarrow> buffer_frame e g"
  by (simp add: buffer_frame_def)

lemma buffer_frame_source:
  "same_source e e' \<Longrightarrow> iopt_used e' = iopt_used e \<Longrightarrow> e_next_in e' = e_next_in e \<Longrightarrow> buffer_frame e e'"
  using same_source_cong(1) by (auto simp: buffer_frame_def)

lemma srcwin_setup_used: "xd3_srcwin_setup e = Inr e' \<Longrightarrow> iopt_used e' = iopt_used e"
  by (auto simp: xd3_srcwin_setup_def Let_def split: if_splits)

lemma copy_address_buffer:
  assumes "copy_address inst e = Inr (x, e')"
  shows "buffer_frame e e'" and "unencoded_offset e' = unencoded_offset e"
proof -
  have "iopt_used e' = iopt_used e"
    using assms by (cases rule: copy_address_cases) (auto simp: count_stat_def dest: srcwin_setup_used)
  then show "buffer_frame e e'" "unencoded_offset e' = unencoded_offset e"
    using copy_address_frame [OF assms] by (auto simp: buffer_frame_def same_output_def)
qed

lemma emit_single_buffer:
  "xd3_emit_single r c e = Inr e' \<Longrightarrow> iopt_used e' = iopt_used e \<and> e_next_in e' = e_next_in e \<and>
    unencoded_offset e' = unencoded_offset e"
  by (auto simp: xd3_emit_single_def emit_byte_to_def emit_size_to_def err_then_Inr split: if_splits)

lemma encode_opcode_buffer:
  assumes "encode_opcode inst e = Inr e'"
  shows "buffer_frame e e' \<and> unencoded_offset e' = unencoded_offset e"
proof -
  obtain prev i' where ch: "xd3_choose_instruction (iout e) (inst\<lparr>r_code2 := 0\<rparr>) = (prev, i')" by fastforce
  have "iopt_used e' = iopt_used e \<and> e_next_in e' = e_next_in e \<and> unencoded_offset e' = unencoded_offset e"
  proof (cases prev)
    case None
    then show ?thesis using assms ch by (auto simp: encode_opcode_def)
  next
    case (Some p)
    then show ?thesis
      using assms ch
      by (auto simp: encode_opcode_def err_then_Inr xd3_emit_double_def emit_byte_to_def dest!: emit_single_buffer
          split: if_splits)
  qed
  then show ?thesis using encode_opcode_source [OF assms] by (simp add: buffer_frame_source)
qed

lemma encode_operands_buffer:
  assumes "encode_operands inst e = Inr (inst', e')"
  shows "buffer_frame e e' \<and> unencoded_offset e' = unencoded_offset e \<and> r_size inst' = r_size inst"
proof (cases "unat (r_type inst) = XD3_CPY")
  case True
  then obtain x f ps m ac ty where f: "copy_address inst e = Inr (x, f)" "inst' = inst\<lparr>r_type := ty\<rparr>"
    "e' = f\<lparr>addr_sec := ps, e_mem := m, e_acache := ac\<rparr>"
    using assms by (auto simp: encode_operands_def err_then_Inr)
  have "buffer_frame f e'" by (rule buffer_frame_source) (simp_all add: f(3) same_source_def)
  then show ?thesis using copy_address_buffer [OF f(1)] f(2,3) buffer_frame_trans by auto
next
  case False
  then have "same_source e e' \<and> iopt_used e' = iopt_used e \<and> e_next_in e' = e_next_in e \<and>
    unencoded_offset e' = unencoded_offset e \<and> inst' = inst"
    using assms by (auto simp: encode_operands_def Let_def err_then_Inr emit_byte_to_def emit_bytes_to_def
        count_stat_def same_source_def split: if_splits)
  then show ?thesis by (simp add: buffer_frame_source)
qed

lemma finish_encoding_buffer:
  assumes "xd3_iopt_finish_encoding inst e = Inr e'"
  shows "buffer_frame e e' \<and> unencoded_offset e' = unencoded_offset e + r_size inst"
proof -
  obtain inst' e1 where 1: "encode_operands inst e = Inr (inst', e1)"
    "encode_opcode inst' (e1\<lparr>unencoded_offset := unencoded_offset e1 + r_size inst'\<rparr>) = Inr e'"
    using assms by (auto simp: xd3_iopt_finish_encoding_def err_then_Inr)
  have "buffer_frame e1 (e1\<lparr>unencoded_offset := unencoded_offset e1 + r_size inst'\<rparr>)"
    by (rule buffer_frame_source) (simp_all add: same_source_def)
  then show ?thesis
    using encode_operands_buffer [OF 1(1)] encode_opcode_buffer [OF 1(2)] by (auto intro: buffer_frame_trans)
qed

lemma add_encoding_buffer:
  assumes "xd3_iopt_add_encoding r e = Inr e'" "unencoded_offset e \<le> r_pos r"
  shows "buffer_frame e e' \<and> unencoded_offset e' = r_pos r + r_size r"
proof -
  obtain f where f: "xd3_iopt_add (r_pos r) e = Inr f" "xd3_iopt_finish_encoding r f = Inr e'"
    using assms(1) by (auto simp: xd3_iopt_add_encoding_def err_then_Inr)
  have "buffer_frame e f \<and> unencoded_offset f = r_pos r"
  proof (cases "r_pos r > unencoded_offset e")
    case True
    then show ?thesis using f(1) by (auto simp: xd3_iopt_add_def Let_def dest!: finish_encoding_buffer)
  next
    case False
    then show ?thesis using f(1) assms(2) by (auto simp: xd3_iopt_add_def Let_def buffer_frame_def)
  qed
  then show ?thesis using finish_encoding_buffer [OF f(2)] by (auto intro: buffer_frame_trans)
qed

text \<open>What a partial flush needs: the entries it encodes do not overlap what stays.\<close>

definition flushable :: "xd3_rinst list \<Rightarrow> bool" where
  "flushable ks \<longleftrightarrow> 2 \<le> length ks \<and> (apart ks \<or> apart (butlast ks) \<and> 3 \<le> length ks)"

text \<open>How many of \<open>k\<close> entries go: half of the slots and one more, unless fewer than three are left before.\<close>

definition flush_count :: "nat \<Rightarrow> nat \<Rightarrow> nat" where
  "flush_count half k = max 1 (min (half + 1) (k - 2))"

lemma flush_loop_partial:
  assumes "flush_loop False fl ks e = Inr e'" "flushable ks" "staggered ks" "encoder_inv sfile c0 (e\<lparr>iopt_used := ks\<rparr>)"
    "unat fl \<le> unat (e_iopt_size e) div 2" "n = flush_count (unat (e_iopt_size e) div 2 - unat fl) (length ks)"
  shows "encoder_inv sfile c0 e' \<and> n < length ks \<and> iopt_used e' = drop n ks \<and> unencoded_offset e' = inst_end (ks ! (n - 1)) \<and>
    (\<forall>x. match_in sfile e x \<longrightarrow> match_in sfile e' x)"
  using assms
proof (induction ks arbitrary: fl e n)
  case (Cons r ks)
  obtain e1 where e1: "xd3_iopt_add_encoding r (e\<lparr>iopt_used := ks\<rparr>) = Inr e1"
    "(if fl + 1 > e_iopt_size e1 div 2 \<or> length ks < 3 then Inr e1 else flush_loop False (fl + 1) ks e1) = Inr e'"
    using Cons.prems(1) unfolding flush_loop.simps if_False by (elim err_thenE) (rule that, simp_all)
  have r: "match_in sfile e r" "unat (unencoded_offset e) \<le> pos_of r" "list_all (match_in sfile e) ks"
    "staggered ks"
    using Cons.prems(3,4) by (simp_all add: encoder_inv_def staggered_Cons list_all_iff)
  note bf = add_encoding_buffer [OF e1(1)]
  have b: "iopt_used e1 = ks" "e_next_in e1 = e_next_in e" "unencoded_offset e1 = r_pos r + r_size r"
    "\<And>x. match_in sfile e x \<Longrightarrow> match_in sfile e1 x"
    using bf r(2) by (auto simp: buffer_frame_def word_le_nat_alt match_in_def true_match_def MIN_MATCH_def)
  have fit: "unat (r_pos r + r_size r) = end_of r"
    using iopt.ok_bounds [OF r(1)] by (intro unat_add_u32) simp
  have step: "written c0 S e1" if "source_segment sfile e1 S \<and> length S + length (e_next_in e1) < 2 ^ 32" for S
    using add_encoding_written [OF e1(1) _ _ _ _ conjunct1 [OF that], of c0] that r
      segment_before_add_encoding [OF e1(1) conjunct1 [OF that]] Cons.prems(4) b(2)
    by (auto simp: encoder_inv_def match_in_def)
  have next_pos: "ks \<noteq> [] \<longrightarrow> end_of r \<le> pos_of (hd ks)"
    using Cons.prems(2) by (cases ks rule: rev_cases) (auto simp: flushable_def apart_Cons hd_append split: if_splits)
  have inv1: "encoder_inv sfile c0 e1"
    using step r(3,4) b fit next_pos by (auto simp: encoder_inv_def list_all_iff)
  let ?half = "unat (e_iopt_size e) div 2"
  have sz: "e_iopt_size e1 = e_iopt_size e" using add_encoding_frees(1) [OF e1(1)] by (simp add: frees_def)
  have fl: "unat (fl + 1) = unat fl + 1"
    using Cons.prems(5) unat_less_u32 [of "e_iopt_size e"] by (subst unat_add_u32) auto
  have more: "fl + 1 > e_iopt_size e1 div 2 \<longleftrightarrow> ?half < unat fl + 1"
    by (simp add: sz fl word_less_nat_alt unat_div)
  show ?case
  proof (cases "fl + 1 > e_iopt_size e1 div 2 \<or> length ks < 3")
    case True
    then have n: "n = 1" using Cons.prems(5,6) more by (auto simp: flush_count_def)
    then show ?thesis
      using True e1(2) inv1 b(1,3,4) Cons.prems(2) by (auto simp: flushable_def inst_end_def split: if_splits)
  next
    case False
    have n: "n = Suc (flush_count (?half - unat (fl + 1)) (length ks))"
      using Cons.prems(5,6) False more fl by (auto simp: flush_count_def min_def; linarith)
    have "flushable ks"
      using Cons.prems(2) False by (cases ks rule: rev_cases) (auto simp: flushable_def apart_Cons split: if_splits)
    moreover have "e1\<lparr>iopt_used := ks\<rparr> = e1" using b(1) by simp
    moreover have "unat (fl + 1) \<le> unat (e_iopt_size e1) div 2" using False more fl sz by simp
    ultimately have "encoder_inv sfile c0 e' \<and> n - 1 < length ks \<and> iopt_used e' = drop (n - 1) ks \<and>
        unencoded_offset e' = inst_end (ks ! (n - 1 - 1)) \<and> (\<forall>x. match_in sfile e1 x \<longrightarrow> match_in sfile e' x)"
      using Cons.IH [of "fl + 1" e1 "n - 1"] e1(2) False r(4) inv1 n sz by (auto split: if_splits)
    moreover have "1 \<le> n - 1" using n by (simp add: flush_count_def)
    ultimately show ?thesis using b(4) n by (simp add: nth_Cons')
  qed
qed (simp add: flushable_def)

text \<open>The invariant does not look at the free slots or the counters.\<close>

lemma encoder_inv_cong:
  assumes "same_written e e'" "same_source e e'" "iout e' = iout e" "iopt_used e' = iopt_used e"
  shows "encoder_inv sfile c0 e' = encoder_inv sfile c0 e"
  using assms same_source_cong [OF assms(2)] written_cong [OF assms(1,3)]
  by (simp add: encoder_inv_def match_in_def same_written_def list_all_iff)

lemma encoder_inv_slots [simp]:
  "encoder_inv sfile c0 (e\<lparr>iopt_free := x\<rparr>) = encoder_inv sfile c0 e"
  "encoder_inv sfile c0 (e\<lparr>iopt_free := x, e_iopt_size := n\<rparr>) = encoder_inv sfile c0 e"
  "encoder_inv sfile c0 (e\<lparr>iopt_free := x, i_slots_used := k\<rparr>) = encoder_inv sfile c0 e"
  by (rule encoder_inv_cong; simp add: same_written_def same_source_def)+

lemma match_in_slots [simp]:
  "match_in sfile (e\<lparr>e_iopt_size := n\<rparr>) r = match_in sfile e r"
  "match_in sfile (e\<lparr>iopt_free := x, i_slots_used := k\<rparr>) r = match_in sfile e r"
  "match_in sfile (e\<lparr>iopt_free := x, e_iopt_size := n, i_slots_used := k\<rparr>) r = match_in sfile e r"
  "match_in sfile (e\<lparr>e_iopt_size := n, iopt_free := x, i_slots_used := k\<rparr>) r = match_in sfile e r"
  by (simp_all add: match_in_def in_source_window_def cong: option.case_cong)

definition can_flush :: "xd3_encoder \<Rightarrow> bool" where
  "can_flush e \<longleftrightarrow> flushable (fst (compact_iopt False (iopt_used e) (iopt_free e)))"

lemma flush_parts:
  assumes "xd3_iopt_flush_instructions False e = Inr e'" "encoder_inv sfile c0 e"
    "compact_iopt False (iopt_used e) (iopt_free e) = (ks, fr)"
  shows "flush_loop False 0 ks (e\<lparr>iopt_used := ks, iopt_free := fr\<rparr>) = Inr e'"
    "iopt.compacted sfile e False (iopt_used e) ks" "encoder_inv sfile c0 (e\<lparr>iopt_used := ks, iopt_free := fr\<rparr>)"
proof -
  show "flush_loop False 0 ks (e\<lparr>iopt_used := ks, iopt_free := fr\<rparr>) = Inr e'"
    using assms(1,3) by (simp add: xd3_iopt_flush_instructions_def)
  show k: "iopt.compacted sfile e False (iopt_used e) ks"
    by (rule iopt.compact_iopt_ok [OF assms(3)]) (use assms(2) in \<open>simp_all add: encoder_inv_def\<close>)
  show "encoder_inv sfile c0 (e\<lparr>iopt_used := ks, iopt_free := fr\<rparr>)"
    using k assms(2) by (auto simp: encoder_inv_def iopt.compacted_def list_all_iff dest: le_trans)
qed

lemma flush_partial:
  assumes fl: "xd3_iopt_flush_instructions False e = Inr e'" and inv: "encoder_inv sfile c0 e" and can: "can_flush e"
  obtains ks fr n where "compact_iopt False (iopt_used e) (iopt_free e) = (ks, fr)"
    "n = flush_count (unat (e_iopt_size e) div 2) (length ks)" "n < length ks" "iopt_used e' = drop n ks"
    "unencoded_offset e' = inst_end (ks ! (n - 1))" "encoder_inv sfile c0 e'" "last ks = last (iopt_used e)"
    "\<forall>x. match_in sfile e x \<longrightarrow> match_in sfile e' x"
proof -
  obtain ks fr where c: "compact_iopt False (iopt_used e) (iopt_free e) = (ks, fr)" by fastforce
  let ?f = "e\<lparr>iopt_used := ks, iopt_free := fr\<rparr>"
  note p = flush_parts [OF fl inv c]
  have f: "flushable ks" using can c by (simp add: can_flush_def)
  then have ne: "ks \<noteq> []" by (auto simp: flushable_def)
  then have u: "iopt_used e \<noteq> []" using p(2) by (auto simp: iopt.compacted_def)
  have "?f\<lparr>iopt_used := ks\<rparr> = ?f" by simp
  then have inv': "encoder_inv sfile c0 (?f\<lparr>iopt_used := ks\<rparr>)" using p(3) by (simp only:)
  have st: "staggered ks" "last ks = last (iopt_used e)" using p(2) u by (simp_all add: iopt.compacted_def)
  from flush_loop_partial [OF p(1) f st(1) inv' _ refl] show thesis using c st(2) by (auto intro: that)
qed

section \<open>A slot for a new entry\<close>

lemma get_slot_inv:
  assumes g: "xd3_iopt_get_slot rinst e = Inr (ri, e')" and inv: "encoder_inv sfile c0 e"
    and can: "iopt_free e = [] \<and> \<not> e_iopt_unlimited e \<longrightarrow> can_flush e"
  shows "encoder_inv sfile c0 e' \<and> (iopt_used e = [] \<longrightarrow> iopt_used e' = [] \<and> unencoded_offset e' = unencoded_offset e) \<and>
    (iopt_used e \<noteq> [] \<longrightarrow> iopt_used e' \<noteq> [] \<and> last (iopt_used e') = last (iopt_used e)) \<and>
    (\<forall>x. match_in sfile e x \<longrightarrow> match_in sfile e' x)"
proof -
  obtain f where f: "(if iopt_free e = []
        then
          (if e_iopt_unlimited e
           then
             (let elts = of_nat (XD3_ALLOCSIZE div rinst)
              in case xd3_alloc_iopt elts e of
                   Inl r \<Rightarrow> Inl (r, ''out of memory'')
                 | Inr e \<Rightarrow> Inr (e\<lparr>e_iopt_size := e_iopt_size e + elts\<rparr>))
           else xd3_iopt_flush_instructions False e)
        else Inr e) = Inr f" "(if iopt_free f = [] then Inl pop_of_empty_list
          else Inr (last (iopt_free f), f\<lparr>iopt_free := butlast (iopt_free f), i_slots_used := i_slots_used f + 1\<rparr>)) =
          (Inr (ri, e') :: xd3_err + (xd3_rinst \<times> xd3_encoder))"
    using g unfolding xd3_iopt_get_slot_def by (elim err_thenE) (rule that)
  then have e': "e' = f\<lparr>iopt_free := butlast (iopt_free f), i_slots_used := i_slots_used f + 1\<rparr>" by (simp split: if_splits)
  consider (same) "f = e" | (more) x n where "f = e\<lparr>iopt_free := x, e_iopt_size := n\<rparr>"
    | (flush) "xd3_iopt_flush_instructions False e = Inr f" "can_flush e"
  proof (cases "iopt_free e = []")
    case True
    show thesis
    proof (cases "e_iopt_unlimited e")
      case False
      then show thesis using f(1) can True flush by simp
    next
      case unl: True
      then show thesis using f(1) True more by (auto simp: Let_def xd3_alloc_iopt_def split: if_splits)
    qed
  next
    case False
    with f(1) have "f = e" by (simp split: if_splits)
    then show thesis by (rule same)
  qed
  then show ?thesis
  proof cases
    case flush
    then have "iopt_used e \<noteq> []" by (auto simp: can_flush_def flushable_def)
    moreover obtain ks fr n where k: "n < length ks" "iopt_used f = drop n ks" "encoder_inv sfile c0 f" "last ks = last (iopt_used e)"
      "\<forall>x. match_in sfile e x \<longrightarrow> match_in sfile f x"
      by (rule flush_partial [OF flush(1) inv flush(2)])
    ultimately show ?thesis using e' by (simp add: last_drop)
  next
    case same
    have "encoder_inv sfile c0 e'" unfolding e' same using inv by simp
    then show ?thesis unfolding e' same by simp
  next
    case (more x n)
    have "encoder_inv sfile c0 e' = encoder_inv sfile c0 e"
      unfolding e' more by (rule encoder_inv_cong) (simp_all add: same_written_def same_source_def)
    then show ?thesis
      using inv unfolding e' more by simp
  qed
qed

text \<open>A new entry must come after the last one, begin where nothing is encoded yet, and be true.\<close>

definition next_entry :: "bytes \<Rightarrow> xd3_encoder \<Rightarrow> xd3_rinst \<Rightarrow> bool" where
  "next_entry sfile e r \<longleftrightarrow> match_in sfile e r \<and>
     (if iopt_used e = [] then unat (unencoded_offset e) \<le> pos_of r
      else pos_of (last (iopt_used e)) < pos_of r \<and> end_of (last (iopt_used e)) < end_of r)"

lemma staggered_snoc:
  "staggered (rs @ [r]) \<longleftrightarrow> staggered rs \<and> (rs \<noteq> [] \<longrightarrow> pos_of (last rs) < pos_of r \<and> end_of (last rs) < end_of r)"
  by (induction rs rule: staggered.induct) auto

lemma staggered_append: "staggered (as @ bs) \<Longrightarrow> staggered as"
  by (induction as rule: staggered.induct) auto

lemma staggered_sorted: "staggered rs \<Longrightarrow> sorted_wrt (\<lambda>a b. pos_of a < pos_of b) rs"
  by (induction rs rule: staggered.induct) (auto dest: less_trans)

lemma append_entry:
  assumes "encoder_inv sfile c0 e" "next_entry sfile e r"
  shows "encoder_inv sfile c0 (e\<lparr>iopt_used := iopt_used e @ [r]\<rparr>)"
  using assms
  by (auto simp: encoder_inv_def next_entry_def staggered_snoc hd_append list_all_iff split: if_splits)

text \<open>A new match.\<close>

definition copy_inst :: "u32 \<Rightarrow> u32 \<Rightarrow> u64 \<Rightarrow> bool \<Rightarrow> xd3_rinst" where
  "copy_inst pos sz addr is_source =
     \<lparr>r_type = of_nat XD3_CPY, r_xtra = (if is_source then 1 else 0), r_code1 = 0, r_code2 = 0,
      r_pos = pos, r_size = sz, r_addr = addr\<rparr>"

lemma found_match_inv:
  assumes "encoder_inv sfile c0 e" and "iopt_free e = [] \<and> \<not> e_iopt_unlimited e \<longrightarrow> can_flush e"
    and "match_in sfile e (copy_inst pos sz addr is_source)"
    and "if iopt_used e = [] then unat (unencoded_offset e) \<le> unat pos
      else pos_of (last (iopt_used e)) < unat pos \<and> end_of (last (iopt_used e)) < unat pos + unat sz"
    and "xd3_found_match rinst pos sz addr is_source e = Inr e'"
  shows "encoder_inv sfile c0 e' \<and>
    (\<exists>r. iopt_used e' \<noteq> [] \<and> last (iopt_used e') = r \<and> r_pos r = pos \<and> r_size r = sz)"
proof -
  obtain ri f where f: "xd3_iopt_get_slot rinst e = Inr (ri, f)" "e' = f\<lparr>iopt_used := iopt_used f @
         [ri\<lparr>r_type := of_nat XD3_CPY, r_xtra := (if is_source then 1 else 0), r_pos := pos,
             r_size := sz, r_addr := addr\<rparr>]\<rparr>"
    using assms(5) unfolding xd3_found_match_def by (elim err_thenE) (auto split: prod.splits)
  note g = get_slot_inv [OF f(1) assms(1,2)]
  have "match_in sfile f (copy_inst pos sz addr is_source)" using g assms(3) by blast
  then have m: "match_in sfile f (ri\<lparr>r_type := of_nat XD3_CPY, r_xtra := (if is_source then 1 else 0), r_pos := pos,
             r_size := sz, r_addr := addr\<rparr>)"
    by (cases is_source; cases "e_src f"; cases "srcwin_decided f") (simp_all add: match_in_def true_match_def in_source_window_def copy_inst_def inst_types)
  have "encoder_inv sfile c0 e'"
    unfolding f(2) by (rule append_entry) (use g m assms(4) in \<open>auto simp: next_entry_def\<close>)
  then show ?thesis by (simp add: f(2))
qed

text \<open>Erasing what a longer match covers.\<close>

lemma erase_loop_used:
  "erase_loop pos rs e = e\<lparr>iopt_used := rev (dropWhile (\<lambda>r. \<not> r_pos r < pos) rs),
     iopt_free := iopt_free e @ takeWhile (\<lambda>r. \<not> r_pos r < pos) rs,
     i_slots_used := i_slots_used e - of_nat (length (takeWhile (\<lambda>r. \<not> r_pos r < pos) rs))\<rparr>"
  by (induction pos rs e rule: erase_loop.induct) simp_all

lemma erase_inv:
  assumes "encoder_inv sfile c0 e" "xd3_iopt_erase pos sz e = e'"
  shows "encoder_inv sfile c0 e' \<and> iopt_used e' = filter (\<lambda>r. r_pos r < pos) (iopt_used e) \<and>
    length (iopt_used e') + length (iopt_free e') = length (iopt_used e) + length (iopt_free e)"
proof -
  let ?rs = "iopt_used e" and ?P = "\<lambda>r. \<not> r_pos r < pos"
  have e': "e' = e\<lparr>iopt_used := rev (dropWhile ?P (rev ?rs)), iopt_free := iopt_free e @ takeWhile ?P (rev ?rs),
     i_slots_used := i_slots_used e - of_nat (length (takeWhile ?P (rev ?rs)))\<rparr>"
    using assms(2) by (simp add: xd3_iopt_erase_def erase_loop_used)
  have st: "staggered ?rs" using assms(1) by (simp add: encoder_inv_def)
  have fl: "rev (dropWhile ?P (rev rs)) = filter (\<lambda>r. r_pos r < pos) rs" if "staggered rs" for rs
    using that
  proof (induction rs rule: rev_induct)
    case (snoc r rs)
    have "\<forall>x \<in> set rs. pos_of x < pos_of r"
      using staggered_sorted [OF snoc.prems] by (simp add: sorted_wrt_append)
    then have "r_pos r < pos \<Longrightarrow> filter (\<lambda>r. r_pos r < pos) rs = rs"
      by (auto simp: filter_id_conv word_less_nat_alt)
    then show ?case using snoc by (auto simp: staggered_snoc)
  qed simp
  obtain k where k: "rev (dropWhile ?P (rev ?rs)) = take k ?rs"
    by (metis append_eq_conv_conj rev_append rev_rev_ident takeWhile_dropWhile_id)
  have tk: "staggered (take k rs) \<and> (take k rs \<noteq> [] \<longrightarrow> hd (take k rs) = hd rs)" if "staggered rs" for rs k
    using staggered_append [of "take k rs" "drop k rs"] that by (cases rs) auto
  have "encoder_inv sfile c0 (e\<lparr>iopt_used := take k ?rs\<rparr>)"
    using assms(1) tk [OF st, of k] by (auto simp: encoder_inv_def list_all_iff dest: in_set_takeD)
  moreover have "encoder_inv sfile c0 e' = encoder_inv sfile c0 (e\<lparr>iopt_used := take k ?rs\<rparr>)"
    by (rule encoder_inv_cong) (simp_all add: e' k same_written_def same_source_def)
  moreover have "length (takeWhile ?P (rev ?rs)) + length (dropWhile ?P (rev ?rs)) = length ?rs"
    by (metis length_append length_rev takeWhile_dropWhile_id)
  moreover have "length (dropWhile ?P (rev ?rs)) = length (filter (\<lambda>r. r_pos r < pos) ?rs)"
    using arg_cong [OF fl [OF st], of length] by (simp only: length_rev)
  ultimately show ?thesis using fl [OF st] by (simp add: e')
qed

section \<open>Properties\<close>

text \<open>C12: A match the matcher finds after the last one becomes the last entry of the buffer and the invariant of
  the encoder is kept, or an error is returned: when there is a free slot, when slots can be allocated, or when
  a partial flush of four entries or more, of which what is left does not overlap, makes one free. The undefined
  pop of an empty list is not reached.\<close>

theorem found_match_keeps_invariant:
  assumes "encoder_inv sfile c0 e" and "iopt_free e = [] \<and> \<not> e_iopt_unlimited e \<longrightarrow> can_flush e"
    and "slot_comes rinst e" and "match_in sfile e (copy_inst pos sz addr is_source)"
    and "if iopt_used e = [] then unat (unencoded_offset e) \<le> unat pos
      else pos_of (last (iopt_used e)) < unat pos \<and> end_of (last (iopt_used e)) < unat pos + unat sz"
  shows "case xd3_found_match rinst pos sz addr is_source e of
      Inl err \<Rightarrow> err \<noteq> pop_of_empty_list
    | Inr e' \<Rightarrow> encoder_inv sfile c0 e' \<and>
        (\<exists>us r. iopt_used e' = us @ [r] \<and> unat (r_type r) = XD3_CPY \<and> (r_xtra r \<noteq> 0 \<longleftrightarrow> is_source) \<and>
           r_pos r = pos \<and> r_size r = sz \<and> r_addr r = addr)"
proof (cases "xd3_found_match rinst pos sz addr is_source e")
  case (Inl err)
  then show ?thesis using not_pop [OF new_entry_fails(1) [OF assms(3), of pos sz addr is_source]] by simp
next
  case (Inr e')
  moreover have "encoder_inv sfile c0 e'" using found_match_inv [OF assms(1,2,4,5) Inr] by blast
  moreover obtain ri f where "e' = f\<lparr>iopt_used := iopt_used f @
         [ri\<lparr>r_type := of_nat XD3_CPY, r_xtra := (if is_source then 1 else 0), r_pos := pos, r_size := sz, r_addr := addr\<rparr>]\<rparr>"
    using Inr unfolding xd3_found_match_def by (elim err_thenE) (auto split: prod.splits)
  ultimately show ?thesis by (simp add: inst_types)
qed

text \<open>The window of \<^verbatim>\<open>Roundtrip\<close> before its match is found.\<close>

definition before_match :: xd3_encoder where
  "before_match = sample_encoder\<lparr>iopt_used := [], iopt_free := [copy_inst 0 0 0 False]\<rparr>"

lemma before_match_inv: "encoder_inv [] sample_cache before_match"
proof -
  have "encoder_inv [] sample_cache (sample_encoder\<lparr>iopt_used := []\<rparr>)"
    using sample_encoder_begins by (simp add: encoder_inv_def)
  moreover have "encoder_inv [] sample_cache before_match = encoder_inv [] sample_cache (sample_encoder\<lparr>iopt_used := []\<rparr>)"
    by (rule encoder_inv_cong) (simp_all add: before_match_def same_written_def same_source_def)
  ultimately show ?thesis by simp
qed

theorem found_match_keeps_invariant_witness:
  "\<exists>e'. xd3_found_match 32 2 4 0 False before_match = Inr e' \<and> encoder_inv [] sample_cache e' \<and>
     iopt_used e' = [copy_inst 2 4 0 False]"
proof -
  have "match_in [] before_match (copy_inst 2 4 0 False)"
    by (simp add: match_in_def before_match_def sample_encoder_def copy_inst_def true_match_def in_source_window_def
        inst_types MIN_MATCH_def)
  moreover have "xd3_found_match 32 2 4 0 False before_match =
    Inr (before_match\<lparr>iopt_free := [], i_slots_used := i_slots_used before_match + 1, iopt_used := [copy_inst 2 4 0 False]\<rparr>)"
    by (simp add: xd3_found_match_def xd3_iopt_get_slot_def before_match_def copy_inst_def)
  ultimately show ?thesis
    using found_match_keeps_invariant [OF before_match_inv, of 32 2 4 0 False]
    by (auto simp: before_match_def sample_encoder_def slot_comes_def copy_inst_def)
qed

text \<open>C13: Erasing removes from the buffer exactly the entries that start at or after the given
  position, returns their slots to the free list, and keeps the invariant.\<close>

theorem erase_keeps_invariant:
  assumes "encoder_inv sfile c0 e" "xd3_iopt_erase pos sz e = e'"
  shows "encoder_inv sfile c0 e' \<and> iopt_used e' = filter (\<lambda>r. r_pos r < pos) (iopt_used e) \<and>
    length (iopt_used e') + length (iopt_free e') = length (iopt_used e) + length (iopt_free e)"
  by (rule erase_inv [OF assms])

theorem erase_keeps_invariant_witness:
  "encoder_inv [] sample_cache (xd3_iopt_erase 1 5 sample_encoder) \<and> iopt_used (xd3_iopt_erase 1 5 sample_encoder) = []"
  using erase_keeps_invariant [OF sample_encoder_begins refl, of 1 5] by (simp add: sample_encoder_def)

text \<open>C11: When the buffer is compacted, no slot is lost, every entry left is still a true match of
  at least the minimum size, and entries do not overlap; unless the flush is forced, the last two
  are left as they were.\<close>

theorem compacted_matches:
  assumes "compact_iopt force rs fr = (ks, fr')" and "staggered rs" and "list_all (match_in sfile e) rs"
  shows "list_all (match_in sfile e) ks \<and> staggered ks \<and> apart (if force then ks else butlast ks) \<and>
    (\<not> force \<and> rs \<noteq> [] \<longrightarrow> last ks = last rs) \<and> length ks + length fr' = length rs + length fr"
  using iopt.compact_iopt_ok [OF assms] compact_iopt_slots [OF assms(1)] by (simp add: iopt.compacted_def)

text \<open>Two runs in a window of zeros, which overlap by ten bytes.\<close>

definition run_inst :: "u32 \<Rightarrow> u32 \<Rightarrow> xd3_rinst" where
  "run_inst pos sz = \<lparr>r_type = of_nat XD3_RUN, r_xtra = 0, r_code1 = 0, r_code2 = 0, r_pos = pos, r_size = sz, r_addr = 0\<rparr>"

definition zeros_encoder :: xd3_encoder where
  "zeros_encoder = sample_encoder\<lparr>e_next_in := replicate 30 0, iopt_used := [run_inst 0 20, run_inst 10 20]\<rparr>"

lemma zeros_match: "list_all (match_in [] zeros_encoder) [run_inst 0 20, run_inst 10 20]"
  by (simp add: match_in_def zeros_encoder_def run_inst_def true_match_def in_source_window_def inst_types
      MIN_MATCH_def list_all_iff)

theorem compacted_matches_witness:
  "\<exists>ks fr'. compact_iopt True [run_inst 0 20, run_inst 10 20] [] = (ks, fr') \<and> apart ks \<and> length ks + length fr' = 2"
proof -
  obtain ks fr' where c: "compact_iopt True [run_inst 0 20, run_inst 10 20] [] = (ks, fr')" by fastforce
  have "staggered [run_inst 0 20, run_inst 10 20]" by (simp add: run_inst_def)
  from compacted_matches [OF c this zeros_match] c show ?thesis by auto
qed





text \<open>C15: When the compaction leaves two entries that overlap, a partial flush encodes the first as it is,
  for the loop pops it before it looks how many remain: the second then begins before the point that has been
  encoded, and the invariant of the encoder is lost.\<close>

theorem partial_flush_of_two_overlaps:
  assumes "compact_iopt False (iopt_used e) (iopt_free e) = ([r1, r2], fr)" and "r_pos r2 < inst_end r1"
    and "encoder_inv sfile c0 e" and "xd3_iopt_flush_instructions False e = Inr e'"
  shows "iopt_used e' = [r2] \<and> unencoded_offset e' = inst_end r1 \<and> \<not> encoder_inv sfile c0 e'"
proof -
  let ?f = "e\<lparr>iopt_used := [r1, r2], iopt_free := fr\<rparr>"
  note p = flush_parts [OF assms(4,3,1)]
  obtain e1 where e1: "xd3_iopt_add_encoding r1 (?f\<lparr>iopt_used := [r2]\<rparr>) = Inr e1"
    "(if 0 + 1 > e_iopt_size e1 div 2 \<or> length [r2] < 3 then Inr e1 else flush_loop False (0 + 1) [r2] e1) = Inr e'"
    using p(1) unfolding flush_loop.simps(2) [of _ _ r1] if_False by (elim err_thenE) (rule that, simp_all)
  have "unencoded_offset ?f \<le> r_pos r1" using p(3) by (simp add: encoder_inv_def word_le_nat_alt)
  then have "iopt_used e1 = [r2] \<and> unencoded_offset e1 = inst_end r1"
    using add_encoding_buffer [OF e1(1)] by (simp add: buffer_frame_def inst_end_def)
  moreover have "e1 = e'" using e1(2) by simp
  ultimately show ?thesis using assms(2) by (auto simp: encoder_inv_def word_less_nat_alt)
qed

text \<open>Four slots, all used, by runs of a window of zeros: the compaction drops two that the first covers but for a
  byte, and the first overlaps the last.\<close>

definition full_encoder :: xd3_encoder where
  "full_encoder = sample_encoder\<lparr>e_next_in := replicate 40 0, iopt_used := [run_inst 0 20, run_inst 5 20, run_inst 10 20, run_inst 12 28],
     iopt_free := [], e_iopt_size := 4\<rparr>"

theorem partial_flush_of_two_overlaps_witness:
  "\<exists>e'. xd3_iopt_flush_instructions False full_encoder = Inr e' \<and> iopt_used e' = [run_inst 12 28] \<and>
    unencoded_offset e' = 20 \<and> \<not> encoder_inv [] sample_cache e'"
proof -
  have "case xd3_iopt_flush_instructions False full_encoder of Inl _ \<Rightarrow> False | Inr _ \<Rightarrow> True" by code_simp
  then obtain e' where e': "xd3_iopt_flush_instructions False full_encoder = Inr e'" by (auto split: sum.splits)
  have c: "compact_iopt False (iopt_used full_encoder) (iopt_free full_encoder) =
      ([run_inst 0 20, run_inst 12 28], [run_inst 5 20, run_inst 10 20])" by code_simp
  have "wf_encoder full_encoder"
    using sample_cache_init by (simp add: wf_encoder_def full_encoder_def sample_encoder_def sample_page_def)
  moreover have "staggered (iopt_used full_encoder)" by (simp add: full_encoder_def run_inst_def)
  moreover have "list_all (match_in [] full_encoder) (iopt_used full_encoder)"
    by (simp add: match_in_def full_encoder_def sample_encoder_def run_inst_def true_match_def in_source_window_def inst_types
        MIN_MATCH_def list_all_iff)
  ultimately have inv: "encoder_inv [] sample_cache full_encoder"
    using window_begins [of full_encoder "[]"] by (simp add: full_encoder_def sample_encoder_def sample_page_def chain_bytes_def)
  have "r_pos (run_inst 12 28) < inst_end (run_inst 0 20)" by (simp add: run_inst_def inst_end_def)
  from partial_flush_of_two_overlaps [OF c this inv e'] e' show ?thesis by (simp add: run_inst_def inst_end_def)
qed

end
