(* ===== verification/Match.thy ===== *)
theory Match
  imports Buffer "HOL-Library.Sublist"
begin

text \<open>
  Finding matches (\<^verbatim>\<open>xdelta3.c\<close>): the bounds of a source match, its extension backward and
  forward over the source blocks, which stops to ask for a block and is entered again, and the
  search along the chain of earlier positions of the window. The fields of the stream that
  only the matcher uses are in a record around the encoder's.
\<close>

section \<open>State\<close>

datatype xd3_match_state = MATCH_TARGET | MATCH_BACKWARD | MATCH_FORWARD | MATCH_SEARCHING

text \<open>
  The tables are \<open>None\<close> until they are allocated, \<^verbatim>\<open>small_prev\<close> is only allocated when the
  matcher follows chains. \<open>fresh_prev\<close> is what the allocator leaves in it, as nothing clears it.
\<close>

record xd3_matcher = xd3_settings +
  m_enc :: xd3_encoder
  large_table :: "u32 list option"
  large_hash :: xd3_hash_cfg
  small_table :: "u32 list option"
  small_prev :: "u32 list option"
  small_reset :: bool
  small_hash :: xd3_hash_cfg
  fresh_prev :: "nat \<Rightarrow> u32 list"
  total_in :: u64
  input_position :: u32
  min_match :: u32
  match_state :: xd3_match_state
  match_srcpos :: u64
  match_last_srcpos :: u64
  match_back :: u32
  match_maxback :: u32
  match_fwd :: u32
  match_maxfwd :: u32
  maxsrcaddr :: u64

abbreviation m_src :: "xd3_matcher \<Rightarrow> xd3_source" where
  "m_src m \<equiv> the (e_src (m_enc m))"

abbreviation m_next_in :: "xd3_matcher \<Rightarrow> bytes" where
  "m_next_in m \<equiv> e_next_in (m_enc m)"

text \<open>How a call ends: with its work done, with a return code it can be entered again after, or with an error.\<close>

datatype match_outcome = Extended xd3_matcher | Waiting xd3_ret xd3_matcher | Failed xd3_err

section \<open>The bounds of a source match\<close>

text \<open>0 when the position can be tried, 1 when not. A source is set.\<close>

definition match_good :: "u64 \<Rightarrow> xd3_matcher \<Rightarrow> nat \<times> xd3_matcher" where
  "match_good srcpos m =
     (0, m\<lparr>match_state := MATCH_BACKWARD, match_srcpos := srcpos, match_last_srcpos := srcpos\<rparr>)"

definition match_bad :: "xd3_matcher \<Rightarrow> nat \<times> xd3_matcher" where
  "match_bad m = (1, m\<lparr>match_state := MATCH_SEARCHING\<rparr>)"

definition match_limits :: "xd3_matcher \<Rightarrow> xd3_matcher" where
  "match_limits m =
     (let greedy_or_not = (if e_flags (m_enc m) AND XD3_BEGREEDY \<noteq> 0 then xd3_iopt_last_matched (m_enc m)
                           else unencoded_offset (m_enc m))
      in m\<lparr>match_maxback := input_position m - greedy_or_not,
           match_maxfwd := e_avail_in (m_enc m) - input_position m\<rparr>)"

definition xd3_source_match_setup :: "u64 \<Rightarrow> xd3_matcher \<Rightarrow> nat \<times> xd3_matcher" where
  "xd3_source_match_setup srcpos m =
     (let m = m\<lparr>match_maxback := 0, match_maxfwd := 0, match_back := 0, match_fwd := 0\<rparr>;
          source = m_src m;
          frontier_pos = frontier_blkno source * ucast (blksize source)
      in if srcpos \<noteq> 0 \<and> srcpos = match_last_srcpos m then match_bad m
         else if srcpos < frontier_pos \<and> frontier_pos - srcpos > max_winsize source then match_bad m
         else
           (let m = match_limits m
            in if \<not> srcwin_decided (m_enc m)
               then
                 (let m1 = (if srcpos < ucast (match_maxback m) then m\<lparr>match_maxback := ucast srcpos\<rparr> else m);
                      srcavail = xd3_source_eof source - srcpos;
                      m2 = (if eof_known source \<and> srcavail < ucast (match_maxfwd m1)
                            then m1\<lparr>match_maxfwd := ucast srcavail\<rparr> else m1)
                  in match_good srcpos m2)
               else if srcpos < srcbase source \<or> srcpos > srcbase source + ucast (srclen source) then match_bad m
               else
                 (let avail_back = ucast (srcpos - srcbase source);
                      m1 = (if avail_back < match_maxback m then m\<lparr>match_maxback := avail_back\<rparr> else m);
                      avail_fwd = ucast (srcbase source + ucast (srclen source) - srcpos);
                      m2 = (if avail_fwd < match_maxfwd m1 then m1\<lparr>match_maxfwd := avail_fwd\<rparr> else m1)
                  in match_good srcpos m2)))"

section \<open>Comparing forward\<close>

text \<open>
  With unaligned reads, eight \<^verbatim>\<open>int\<close>s at a time; the last one read is looked at again byte by
  byte. The result of the eight comparisons is the index after the last one made and whether
  all were equal. \<open>n\<close> is a nonnegative \<^verbatim>\<open>int\<close>.
\<close>

definition int_at :: "bytes \<Rightarrow> nat \<Rightarrow> bytes" where
  "int_at s i = take 4 (drop (4 * i) s)"

fun compare_ints :: "bytes \<Rightarrow> bytes \<Rightarrow> nat \<Rightarrow> nat \<Rightarrow> nat \<times> bool" where
  "compare_ints s1 s2 0 i = (i, True)"
| "compare_ints s1 s2 (Suc k) i =
     (if int_at s1 i = int_at s2 i then compare_ints s1 s2 k (i + 1) else (i + 1, False))"

lemma compare_ints_all: "compare_ints s1 s2 k i = (j, True) \<Longrightarrow> j = i + k"
  by (induction s1 s2 k i rule: compare_ints.induct) (auto split: if_splits)

function int_loop :: "bytes \<Rightarrow> bytes \<Rightarrow> nat \<Rightarrow> nat \<Rightarrow> nat" where
  "int_loop s1 s2 nint i =
     (if i + 8 \<le> nint
      then (case compare_ints s1 s2 8 i of (i', all_equal) \<Rightarrow> if all_equal then int_loop s1 s2 nint i' else i')
      else i)"
  by pat_completeness auto
termination
  by (relation "measure (\<lambda>(s1, s2, nint, i). nint - i)") (auto dest!: compare_ints_all sym [of "(_, True)"])

declare int_loop.simps [simp del]

function byte_loop :: "bytes \<Rightarrow> bytes \<Rightarrow> nat \<Rightarrow> nat \<Rightarrow> nat" where
  "byte_loop s1 s2 n i = (if i < n \<and> s1 ! i = s2 ! i then byte_loop s1 s2 n (i + 1) else i)"
  by pat_completeness auto
termination
  by (relation "measure (\<lambda>(s1, s2, n, i). n - i)") auto

declare byte_loop.simps [simp del]

definition xd3_forward_match :: "bool \<Rightarrow> bytes \<Rightarrow> bytes \<Rightarrow> nat \<Rightarrow> nat" where
  "xd3_forward_match unaligned_ok s1 s2 n =
     (let nint = n div 4;
          i = (if unaligned_ok \<and> nint div 8 \<noteq> 0 then (int_loop s1 s2 nint 0 - 1) * 4 else 0)
      in byte_loop s1 s2 n i)"

section \<open>Extending a source match\<close>

definition matcher_getblk :: "getblk_func option \<Rightarrow> u64 \<Rightarrow> xd3_matcher \<Rightarrow> xd3_ret \<times> xd3_matcher" where
  "matcher_getblk gb blkno m =
     (case xd3_getblk gb (m_src m) blkno of
        (ret, why, s) \<Rightarrow> (ret, m\<lparr>m_enc := (m_enc m)\<lparr>e_src := Some s\<rparr>\<rparr>))"

text \<open>How many of the \<open>n\<close> bytes before \<open>t\<close> and \<open>s\<close> are equal, going back.\<close>

fun back_run :: "bytes \<Rightarrow> bytes \<Rightarrow> nat \<Rightarrow> nat \<Rightarrow> nat \<Rightarrow> nat" where
  "back_run cur inp t s 0 = 0"
| "back_run cur inp t s (Suc n) =
     (if cur ! (t - 1) \<noteq> inp ! (s - 1) then 0 else Suc (back_run cur inp (t - 1) (s - 1) n))"

text \<open>
  One round per source block: \<open>None\<close> when the fuel is used up. \<^verbatim>\<open>streamoff\<close> is always the
  input position less what is matched.
\<close>

fun back_loop :: "getblk_func option \<Rightarrow> nat \<Rightarrow> u64 \<Rightarrow> u32 \<Rightarrow> xd3_matcher \<Rightarrow> match_outcome option" where
  "back_loop gb 0 tryblk tryoff m = None"
| "back_loop gb (Suc k) tryblk tryoff m =
     (if \<not> match_back m < match_maxback m then Some (Extended m)
      else
        (let (blk, off) = (if tryoff = 0 then (tryblk - 1, blksize (m_src m)) else (tryblk, tryoff));
             (ret, m1) = matcher_getblk gb blk m
         in if ret = XD3_TOOFARBACK then Some (Extended m1)
            else if ret \<noteq> XD3_OK then Some (Waiting ret m1)
            else
              (let tryrem = min off (match_maxback m1 - match_back m1);
                   n = back_run (the (curblk (m_src m1))) (m_next_in m1) (unat off)
                         (unat (input_position m1 - match_back m1)) (unat tryrem);
                   m2 = m1\<lparr>match_back := match_back m1 + of_nat n\<rparr>
               in if n \<noteq> unat tryrem then Some (Extended m2) else back_loop gb k blk (off - of_nat n) m2)))"

fun forward_loop :: "bool \<Rightarrow> getblk_func option \<Rightarrow> nat \<Rightarrow> u64 \<Rightarrow> u32 \<Rightarrow> xd3_matcher \<Rightarrow> match_outcome option" where
  "forward_loop u gb 0 tryblk tryoff m = None"
| "forward_loop u gb (Suc k) tryblk tryoff m =
     (if \<not> match_fwd m < match_maxfwd m then Some (Extended m)
      else
        (let (blk, off) = (if tryoff = blksize (m_src m) then (tryblk + 1, 0) else (tryblk, tryoff));
             (ret, m1) = matcher_getblk gb blk m
         in if ret = XD3_TOOFARBACK then Some (Extended m1)
            else if ret \<noteq> XD3_OK then Some (Waiting ret m1)
            else
              (let tryrem = min (match_maxfwd m1 - match_fwd m1) (onblk (m_src m1) - off)
               in if tryrem = 0 then Some (Extended m1)
                  else
                    (let n = xd3_forward_match u (drop (unat off) (the (curblk (m_src m1))))
                               (drop (unat (input_position m1 + match_fwd m1)) (m_next_in m1)) (unat tryrem);
                         m2 = m1\<lparr>match_fwd := match_fwd m1 + of_nat n\<rparr>
                     in if tryrem \<noteq> of_nat n then Some (Extended m2)
                        else forward_loop u gb k blk (off + of_nat n) m2))))"

declare back_loop.simps(2) [simp del] forward_loop.simps(2) [simp del]

text \<open>The match goes into the instruction buffer when it is long enough.\<close>

definition note_range :: "u64 \<Rightarrow> u64 \<Rightarrow> xd3_matcher \<Rightarrow> xd3_matcher" where
  "note_range position after m =
     (let e = m_enc m;
          e1 = (if match_maxaddr e = 0 \<or> position < match_minaddr e then e\<lparr>match_minaddr := position\<rparr> else e);
          e2 = (if after > match_maxaddr e1 then e1\<lparr>match_maxaddr := after\<rparr> else e1)
      in m\<lparr>m_enc := e2, maxsrcaddr := (if after > maxsrcaddr m then after else maxsrcaddr m)\<rparr>)"

definition take_match :: "nat \<Rightarrow> xd3_matcher \<Rightarrow> match_outcome" where
  "take_match rinst m =
     (if match_fwd m < min_match m then Extended (m\<lparr>match_fwd := 0\<rparr>)
      else
        (let total = match_fwd m + match_back m;
             target_position = input_position m - match_back m;
             match_length = match_back m + match_fwd m;
             match_position = match_srcpos m - ucast (match_back m);
             match_end = match_srcpos m + ucast (match_fwd m);
             m1 = (if match_back m > 0
                   then m\<lparr>m_enc := xd3_iopt_erase target_position total (m_enc m)\<rparr> else m);
             m2 = note_range match_position match_end (m1\<lparr>match_back := 0\<rparr>)
         in case xd3_found_match rinst target_position match_length match_position True (m_enc m2) of
              Inl err \<Rightarrow> Failed err
            | Inr e \<Rightarrow>
                (let m3 = m2\<lparr>m_enc := e\<rparr>
                 in if target_position + match_length = e_avail_in (m_enc m3)
                    then Extended (m3\<lparr>match_state := MATCH_TARGET, match_srcpos := match_end\<rparr>)
                    else Extended m3)))"

definition extend_back :: "getblk_func option \<Rightarrow> xd3_matcher \<Rightarrow> match_outcome option" where
  "extend_back gb m =
     (if match_state m = MATCH_BACKWARD
      then
        (case xd3_blksize_div (match_srcpos m - ucast (match_back m)) (m_src m) of
           (tryblk, tryoff) \<Rightarrow>
             (case back_loop gb (Suc (unat (match_maxback m))) tryblk tryoff m of
                Some (Extended m) \<Rightarrow> Some (Extended (m\<lparr>match_state := MATCH_FORWARD\<rparr>))
              | r \<Rightarrow> r))
      else Some (Extended m))"

definition extend_forward :: "bool \<Rightarrow> getblk_func option \<Rightarrow> xd3_matcher \<Rightarrow> match_outcome option" where
  "extend_forward u gb m =
     (case xd3_blksize_div (match_srcpos m + ucast (match_fwd m)) (m_src m) of
        (tryblk, tryoff) \<Rightarrow>
          (case forward_loop u gb (Suc (unat (match_maxfwd m))) tryblk tryoff m of
             Some (Extended m) \<Rightarrow> Some (Extended (m\<lparr>match_state := MATCH_SEARCHING\<rparr>))
           | r \<Rightarrow> r))"

definition xd3_source_extend_match ::
    "bool \<Rightarrow> nat \<Rightarrow> getblk_func option \<Rightarrow> xd3_matcher \<Rightarrow> match_outcome option" where
  "xd3_source_extend_match u rinst gb m =
     (case extend_back gb m of
        Some (Extended m1) \<Rightarrow>
          (case extend_forward u gb m1 of
             Some (Extended m2) \<Rightarrow> Some (take_match rinst m2)
           | r \<Rightarrow> r)
      | r \<Rightarrow> r)"

section \<open>The search in the window\<close>

definition HASH_CKOFFSET :: u32 where "HASH_CKOFFSET = 1"

definition xd3_scksum_insert :: "u32 \<Rightarrow> u32 \<Rightarrow> u32 \<Rightarrow> xd3_matcher \<Rightarrow> xd3_matcher" where
  "xd3_scksum_insert inx scksum pos m =
     (let m1 = (case small_prev m of
                  None \<Rightarrow> m
                | Some sp \<Rightarrow>
                    m\<lparr>small_prev := Some (sp[unat (pos AND sprevmask m) := the (small_table m) ! unat inx])\<rparr>)
      in m1\<lparr>small_table := Some ((the (small_table m1))[unat inx := pos + HASH_CKOFFSET])\<rparr>)"

text \<open>The comparison ends with the input, which the earlier position reaches later.\<close>

fun equal_run :: "bytes \<Rightarrow> bytes \<Rightarrow> nat" where
  "equal_run (x # xs) (y # ys) = (if x = y then Suc (equal_run xs ys) else 0)"
| "equal_run _ _ = 0"

definition prev_there :: "xd3_matcher \<Rightarrow> u32 \<Rightarrow> bool" where
  "prev_there m base \<longleftrightarrow> (case small_prev m of None \<Rightarrow> False | Some sp \<Rightarrow> unat (base AND sprevmask m) < length sp)"

lemma less_before: "(x :: u32) \<noteq> 1 \<Longrightarrow> unat (x - 2) < unat (x - 1)"
  using measure_unat [of "x - 1"] by simp

text \<open>From \<^verbatim>\<open>again\<close> on; the last argument is the best match so far, its length and offset. \<open>None\<close> is a chain
  followed without the array of previous positions, or outside it.\<close>

function smatch_chain :: "xd3_matcher \<Rightarrow> u32 \<Rightarrow> u32 \<Rightarrow> u32 \<times> u32 \<Rightarrow> (u32 \<times> u32) option" where
  "smatch_chain m base chain best =
     (let n = equal_run (drop (unat (input_position m)) (m_next_in m)) (drop (unat base) (m_next_in m));
          cmp_len = of_nat n;
          best' = (if cmp_len > fst best then (cmp_len, base) else best)
      in if cmp_len > fst best \<and>
            (unat (input_position m) + n = length (m_next_in m) \<or> cmp_len \<ge> long_enough (smatcher m)) then Some best'
         else if chain - 1 = 0 then Some best'
         else if \<not> prev_there m base then None
         else
           (let prev = the (small_prev m) ! unat (base AND sprevmask m)
            in if prev = 0 then Some best'
               else if prev - HASH_CKOFFSET > base then Some best'
               else if (input_position m - (prev - HASH_CKOFFSET)) AND NOT (sprevmask m) \<noteq> 0 then Some best'
               else smatch_chain m (prev - HASH_CKOFFSET) (chain - 1) best'))"
  by pat_completeness auto
termination
  by (relation "measure (\<lambda>(m, base, chain, best). unat (chain - 1))") (simp_all add: less_before)

declare smatch_chain.simps [simp del]

text \<open>Returns the length and the offset of the match; 0 for one that is short and far back.\<close>

definition xd3_smatch :: "u32 \<Rightarrow> u32 \<Rightarrow> u32 \<Rightarrow> xd3_matcher \<Rightarrow> (u32 \<times> u32) option" where
  "xd3_smatch base scksum match_offset m =
     (let chain = (if min_match m = of_nat MIN_MATCH then small_chain (smatcher m) else small_lchain (smatcher m));
          worth = (\<lambda>(len, off). if len = 4 \<and> input_position m - off \<ge> push_bit 14 1 then (0, off)
                                else if len = 5 \<and> input_position m - off \<ge> push_bit 21 1 then (0, off)
                                else (len, off))
      in map_option worth (smatch_chain m (base - HASH_CKOFFSET) chain (0, match_offset)))"

text \<open>What the code relies on: no chain is to be followed, or the array of previous positions is there.\<close>

definition chains_ok :: "xd3_matcher \<Rightarrow> bool" where
  "chains_ok m \<longleftrightarrow> small_chain (smatcher m) = 1 \<and> small_lchain (smatcher m) = 1 \<or>
     (\<exists>sp. small_prev m = Some sp \<and> unat (sprevmask m) < length sp)"

lemma prev_thereI: "small_prev m = Some sp \<Longrightarrow> unat (sprevmask m) < length sp \<Longrightarrow> prev_there m base"
  using word_and_le1 [of base "sprevmask m"] word_and_le2 [of base "sprevmask m"]
  by (auto simp: prev_there_def word_le_nat_alt)

section \<open>What the comparisons find\<close>

lemma equal_run_prefix: "equal_run xs ys = length (longest_common_prefix xs ys)"
  by (induction xs ys rule: equal_run.induct) simp_all

lemma common_prefix_unique:
  assumes "r \<le> n" "n \<le> length s1" "n \<le> length s2" "\<forall>k<r. s1 ! k = s2 ! k" "r < n \<longrightarrow> s1 ! r \<noteq> s2 ! r"
  shows "length (longest_common_prefix (take n s1) (take n s2)) = r"
  using assms
proof (induction n arbitrary: r s1 s2)
  case (Suc n)
  obtain x xs y ys where s: "s1 = x # xs" "s2 = y # ys"
    using Suc.prems(2,3) by (cases s1; cases s2) auto
  show ?case
  proof (cases r)
    case 0
    then show ?thesis using Suc.prems(5) s by simp
  next
    case (Suc r')
    have "length (longest_common_prefix (take n xs) (take n ys)) = r'"
      by (rule Suc.IH) (use Suc.prems s \<open>r = Suc r'\<close> in auto)
    then show ?thesis using Suc.prems(4) s Suc by auto
  qed
qed simp

lemma byte_loop_result:
  "i \<le> n \<Longrightarrow> i \<le> byte_loop s1 s2 n i \<and> byte_loop s1 s2 n i \<le> n \<and>
     (\<forall>k. i \<le> k \<and> k < byte_loop s1 s2 n i \<longrightarrow> s1 ! k = s2 ! k) \<and>
     (byte_loop s1 s2 n i < n \<longrightarrow> s1 ! byte_loop s1 s2 n i \<noteq> s2 ! byte_loop s1 s2 n i)"
proof (induction s1 s2 n i rule: byte_loop.induct)
  case (1 s1 s2 n i)
  show ?case
  proof (cases "i < n \<and> s1 ! i = s2 ! i")
    case True
    then have b: "byte_loop s1 s2 n i = byte_loop s1 s2 n (i + 1)" by (subst byte_loop.simps) simp
    have IH: "i + 1 \<le> byte_loop s1 s2 n (i + 1) \<and> byte_loop s1 s2 n (i + 1) \<le> n \<and>
     (\<forall>k. i + 1 \<le> k \<and> k < byte_loop s1 s2 n (i + 1) \<longrightarrow> s1 ! k = s2 ! k) \<and>
     (byte_loop s1 s2 n (i + 1) < n \<longrightarrow> s1 ! byte_loop s1 s2 n (i + 1) \<noteq> s2 ! byte_loop s1 s2 n (i + 1))"
      using "1.IH" [OF True] True by simp
    moreover have "s1 ! k = s2 ! k" if "i \<le> k" "k < byte_loop s1 s2 n (i + 1)" for k
      using IH that True by (cases "k = i") auto
    ultimately show ?thesis unfolding b by auto
  next
    case False
    then have "byte_loop s1 s2 n i = i" by (subst byte_loop.simps) (simp only: False if_False)
    then show ?thesis using False "1.prems" by auto
  qed
qed

lemma compare_ints_equal:
  assumes "compare_ints s1 s2 k i = (j, all_equal)" "i \<le> x" "x < (if all_equal then j else j - 1)"
  shows "int_at s1 x = int_at s2 x"
  using assms
proof (induction s1 s2 k i rule: compare_ints.induct)
  case (2 s1 s2 k i)
  then show ?case by (cases "x = i") (auto split: if_splits)
qed (auto split: if_splits)

lemma compare_ints_index: "compare_ints s1 s2 k i = (j, all_equal) \<Longrightarrow> i \<le> j \<and> j \<le> i + k \<and> (0 < k \<longrightarrow> i < j)"
  by (induction s1 s2 k i rule: compare_ints.induct) (auto split: if_splits)

lemma int_loop_result:
  assumes "int_loop s1 s2 nint i = r" "i \<le> nint"
  shows "r \<le> nint" "i + 8 \<le> nint \<Longrightarrow> i < r" "i \<le> r" "i \<le> x \<Longrightarrow> x < r - 1 \<Longrightarrow> int_at s1 x = int_at s2 x"
proof -
  have "r \<le> nint \<and> (i + 8 \<le> nint \<longrightarrow> i < r) \<and> i \<le> r \<and> (i \<le> x \<and> x < r - 1 \<longrightarrow> int_at s1 x = int_at s2 x)"
    using assms
  proof (induction s1 s2 nint i arbitrary: r rule: int_loop.induct)
    case (1 s1 s2 nint i)
    show ?case
    proof (cases "i + 8 \<le> nint")
      case True
      obtain j all_equal where c: "compare_ints s1 s2 8 i = (j, all_equal)" by fastforce
      note j = compare_ints_index [OF c]
      show ?thesis
      proof (cases all_equal)
        case False
        then have "r = j" using "1.prems" True c by (subst (asm) int_loop.simps) simp
        then show ?thesis using j True compare_ints_equal [OF c, of x] False by auto
      next
        case eq: True
        then have r: "int_loop s1 s2 nint j = r" using "1.prems" True c by (subst (asm) int_loop.simps) simp
        have "r \<le> nint \<and> (j + 8 \<le> nint \<longrightarrow> j < r) \<and> j \<le> r \<and> (j \<le> x \<and> x < r - 1 \<longrightarrow> int_at s1 x = int_at s2 x)"
          using "1.IH" [OF True c [symmetric] eq r] j True by auto
        then show ?thesis using j compare_ints_equal [OF c, of x] eq by (cases "j \<le> x") auto
      qed
    next
      case False
      then have "r = i" using "1.prems" by (subst (asm) int_loop.simps) simp
      then show ?thesis using "1.prems" False by auto
    qed
  qed
  then show "r \<le> nint" "i + 8 \<le> nint \<Longrightarrow> i < r" "i \<le> r" "i \<le> x \<Longrightarrow> x < r - 1 \<Longrightarrow> int_at s1 x = int_at s2 x"
    by blast+
qed

lemma int_at_bytes:
  assumes "int_at s1 i = int_at s2 i" "4 * i + 4 \<le> length s1" "4 * i + 4 \<le> length s2" "4 * i \<le> k" "k < 4 * i + 4"
  shows "s1 ! k = s2 ! k"
proof -
  have "int_at s i ! (k - 4 * i) = s ! k" if "4 * i + 4 \<le> length s" for s
    using that assms(4,5) by (simp add: int_at_def)
  then show ?thesis using assms by metis
qed

text \<open>Whatever the step, the result is the length of the longest common prefix.\<close>

lemma forward_match_prefix:
  assumes "n \<le> length s1" "n \<le> length s2"
  shows "xd3_forward_match u s1 s2 n = length (longest_common_prefix (take n s1) (take n s2))"
proof -
  define i where "i = (if u \<and> n div 4 div 8 \<noteq> 0 then (int_loop s1 s2 (n div 4) 0 - 1) * 4 else 0)"
  have i: "i \<le> n \<and> (\<forall>k<i. s1 ! k = s2 ! k)"
  proof (cases "u \<and> n div 4 div 8 \<noteq> 0")
    case True
    let ?r = "int_loop s1 s2 (n div 4) 0"
    note r = int_loop_result [of s1 s2 "n div 4" 0, OF refl, simplified]
    have "s1 ! k = s2 ! k" if "k < i" for k
      by (rule int_at_bytes [where i = "k div 4"]) (use that True r assms in \<open>auto simp: i_def\<close>)
    then show ?thesis using True r by (auto simp: i_def)
  qed (auto simp: i_def)
  have "xd3_forward_match u s1 s2 n = byte_loop s1 s2 n i"
    by (simp only: xd3_forward_match_def i_def Let_def)
  moreover have "length (longest_common_prefix (take n s1) (take n s2)) = byte_loop s1 s2 n i"
    by (rule common_prefix_unique)
      (use i byte_loop_result [of i n s1 s2] assms in \<open>auto simp: not_le [symmetric]\<close>)
  ultimately show ?thesis by simp
qed

lemma forward_match_result:
  assumes "n \<le> length s1" "n \<le> length s2" "xd3_forward_match u s1 s2 n = r"
  shows "r \<le> n" "k < r \<Longrightarrow> s1 ! k = s2 ! k"
proof -
  let ?p = "longest_common_prefix (take n s1) (take n s2)"
  have p: "length ?p = r" using forward_match_prefix [OF assms(1,2)] assms(3) by simp
  then obtain a b where ab: "take n s1 = ?p @ a" "take n s2 = ?p @ b"
    by (metis longest_common_prefix_prefix1 longest_common_prefix_prefix2 prefixE)
  show r: "r \<le> n" using arg_cong [OF ab(1), of length] p assms(1) by simp
  show "s1 ! k = s2 ! k" if "k < r"
  proof -
    have "take n s1 ! k = ?p ! k" by (subst ab(1)) (use that p in \<open>simp add: nth_append\<close>)
    moreover have "take n s2 ! k = ?p ! k" by (subst ab(2)) (use that p in \<open>simp add: nth_append\<close>)
    ultimately show ?thesis using that r by simp
  qed
qed

lemma back_run_result:
  assumes "n \<le> t" "n \<le> s"
  shows "back_run cur inp t s n \<le> n" "k < back_run cur inp t s n \<Longrightarrow> cur ! (t - 1 - k) = inp ! (s - 1 - k)"
proof -
  show "back_run cur inp t s n \<le> n" using assms by (induction n arbitrary: t s) auto
  show "cur ! (t - 1 - k) = inp ! (s - 1 - k)" if "k < back_run cur inp t s n"
    using that assms
  proof (induction n arbitrary: t s k)
    case (Suc n)
    then show ?case using Suc.IH [of "k - 1" "t - 1" "s - 1"] by (cases k) (auto split: if_splits)
  qed simp
qed

section \<open>The client's answers\<close>

text \<open>
  What the client's callback promises: a block it returns is that of the source file, and it
  leaves the window of the source alone. Without a callback the call waits, and the client puts
  the block into the source before it calls again.
\<close>

definition same_bounds :: "xd3_source \<Rightarrow> xd3_source \<Rightarrow> bool" where
  "same_bounds a b \<longleftrightarrow> same_window a b \<and> srcbase a = srcbase b \<and> srclen a = srclen b"

text \<open>
  What the source knows of its end: the last block it knows of lies in the file, and so does the
  frontier, the first block not read yet.
\<close>

definition frontier_ok :: "bytes \<Rightarrow> xd3_source \<Rightarrow> bool" where
  "frontier_ok sfile s \<longleftrightarrow> unat (max_blkno s) * unat (blksize s) + unat (onlastblk s) \<le> length sfile \<and>
     unat (frontier_blkno s) * unat (blksize s) \<le> length sfile \<and>
     unat (frontier_blkno s) \<le> unat (max_blkno s) + 1"

definition same_frontier :: "xd3_source \<Rightarrow> xd3_source \<Rightarrow> bool" where
  "same_frontier a b \<longleftrightarrow> max_blkno a = max_blkno b \<and> onlastblk a = onlastblk b \<and>
     frontier_blkno a = frontier_blkno b \<and> eof_known a = eof_known b \<and> max_winsize a = max_winsize b"

definition client_answers :: "bytes \<Rightarrow> getblk_func option \<Rightarrow> bool" where
  "client_answers sfile gb \<longleftrightarrow>
     (\<forall>f s n r s'. gb = Some f \<longrightarrow> n \<noteq> - 1 \<longrightarrow> block_known sfile s \<longrightarrow> f s n = (r, s') \<longrightarrow>
        same_bounds s' s \<and> same_frontier s' s \<and> block_known sfile s' \<and> (r = XD3_OK \<longrightarrow> holds_block sfile s' n))"

lemma serve_file_answers: "client_answers sfile (Some (serve_file sfile))"
  using length_file_block
  by (auto simp: client_answers_def serve_file_def same_bounds_def same_frontier_def same_window_def holds_block_def block_known_def
      unsigned_of_nat take_bit_nat_eq_self Let_def)

lemma no_callback_answers: "client_answers sfile None"
  by (simp add: client_answers_def)

lemma note_bounds:
  "same_bounds (note_last (note_frontier s n) n) s"
  "holds_block sfile (note_last (note_frontier s n) n) k = holds_block sfile s k"
  "block_known sfile (note_last (note_frontier s n) n) = block_known sfile s"
  by (simp_all add: same_bounds_def same_window_def note_last_def note_frontier_def Let_def holds_block_def
      block_known_def)

lemma note_frontier_ok:
  assumes "frontier_ok sfile s" "holds_block sfile s n" "unat n * unat (blksize s) \<le> length sfile" "length sfile < 2 ^ 63"
    "0 < unat (blksize s)"
  shows "frontier_ok sfile (note_last (note_frontier s n) n)"
proof -
  have o: "unat (onblk s) = min (unat (blksize s)) (length sfile - unat n * unat (blksize s))"
    using assms(2) by (simp add: holds_block_def file_block_def min_def)
  have "unat n \<le> unat n * unat (blksize s)" using assms(5) by simp
  then have "unat n \<le> length sfile" using assms(3) by (rule order.trans)
  then have n1: "unat (n + 1) = unat n + 1" using assms(4) by (subst unat_add_u64) auto
  have full: "unat (n + 1) * unat (blksize s) \<le> length sfile" if "onblk s = blksize s"
    using o that assms(3) by (simp add: n1 min_def split: if_splits)
  have fits: "unat n * unat (blksize s) + unat (onblk s) \<le> length sfile" using o assms(3) by simp
  show ?thesis
    using assms(1,3) full fits n1
    by (auto simp: frontier_ok_def note_frontier_def note_last_def Let_def word_le_nat_alt word_less_nat_alt)
qed

lemma frontier_ok_cong:
  "same_frontier a b \<Longrightarrow> blksize a = blksize b \<Longrightarrow> frontier_ok sfile a = frontier_ok sfile b"
  by (simp add: same_frontier_def frontier_ok_def)

lemma getblk_answered:
  assumes "client_answers sfile gb" "block_known sfile s" "frontier_ok sfile s" "0 < unat (blksize s)"
    and n: "unat n * unat (blksize s) \<le> length sfile" "length sfile < 2 ^ 63" and g: "xd3_getblk gb s n = (r, w, s')"
  shows "same_bounds s' s \<and> block_known sfile s' \<and> frontier_ok sfile s' \<and> (eof_known s \<longrightarrow> eof_known s') \<and>
    (r = XD3_OK \<longrightarrow> holds_block sfile s' n \<and> (\<exists>x. s' = note_last (note_frontier x n) n \<and> same_frontier x s \<and> same_bounds x s)) \<and>
    (r \<noteq> XD3_OK \<longrightarrow> same_frontier s' s)"
proof -
  have "unat n \<le> unat n * unat (blksize s)" using assms(4) by simp
  then have n1: "n \<noteq> - 1" using n by (auto simp: unsigned_minus_1_eq_mask mask_eq_exp_minus_1)
  have last: ?thesis if h: "holds_block sfile x n" "same_bounds x s" "same_frontier x s" "block_known sfile x"
    and s': "s' = note_last (note_frontier x n) n" "r = XD3_OK" for x
  proof -
    have b: "blksize x = blksize s" using h(2) by (simp add: same_bounds_def same_window_def)
    have "frontier_ok sfile x" using assms(3) frontier_ok_cong [OF h(3) b] by simp
    then have "frontier_ok sfile s'"
      unfolding s'(1) by (rule note_frontier_ok [OF _ h(1)]) (use assms(4) n b in simp_all)
    moreover have "same_bounds s' s"
      using note_bounds(1) [of x n] h(2) s'(1) by (simp add: same_bounds_def same_window_def)
    moreover have "eof_known s \<longrightarrow> eof_known s'"
      using h(3) by (simp add: s'(1) same_frontier_def note_frontier_def note_last_def Let_def)
    ultimately show ?thesis using h s' note_bounds(2,3) by blast
  qed
  show ?thesis
  proof (cases "curblk s = None \<or> n \<noteq> curblkno s")
    case False
    then have "s' = note_last (note_frontier s n) n \<and> r = XD3_OK" "holds_block sfile s n"
      using assms(2) g n1 by (auto simp: xd3_getblk_def block_known_def)
    then show ?thesis
      by (intro last [of s]) (use assms(2) in \<open>simp_all add: same_bounds_def same_window_def same_frontier_def\<close>)
  next
    case asked: True
    let ?s = "s\<lparr>getblkno := n\<rparr>"
    have s: "block_known sfile ?s" "same_bounds ?s s" "same_frontier ?s s"
      using assms(2) by (simp_all add: block_known_def holds_block_def same_bounds_def same_window_def same_frontier_def)
    show ?thesis
    proof (cases gb)
      case None
      then have "s' = ?s" "r \<noteq> XD3_OK" using asked g by (auto simp: xd3_getblk_def)
      then show ?thesis using s assms(3) frontier_ok_cong [OF s(3)] by (simp add: same_frontier_def)
    next
      case (Some f)
      obtain r1 x where f: "f ?s n = (r1, x)" by fastforce
      then have a: "same_bounds x ?s \<and> same_frontier x ?s \<and> block_known sfile x \<and> (r1 = XD3_OK \<longrightarrow> holds_block sfile x n)"
        using assms(1) n1 s(1) Some unfolding client_answers_def by blast
      then have x: "same_bounds x s" "same_frontier x s"
        by (simp_all add: same_bounds_def same_window_def same_frontier_def)
      show ?thesis
      proof (cases "r1 = XD3_OK")
        case True
        then have "s' = note_last (note_frontier x n) n" "r = XD3_OK"
          using asked g f Some by (auto simp: xd3_getblk_def)
        then show ?thesis using last [of x] x a True by blast
      next
        case False
        then have "s' = x" "r = r1" using asked g f Some by (auto simp: xd3_getblk_def)
        then show ?thesis
          using x a False assms(3) frontier_ok_cong [OF x(2)]
          by (simp add: same_bounds_def same_window_def same_frontier_def)
      qed
    qed
  qed
qed

section \<open>What is known of a match being extended\<close>

abbreviation ipos :: "xd3_matcher \<Rightarrow> nat" where "ipos m \<equiv> unat (input_position m)"
abbreviation spos :: "xd3_matcher \<Rightarrow> nat" where "spos m \<equiv> unat (match_srcpos m)"
abbreviation bwd :: "xd3_matcher \<Rightarrow> nat" where "bwd m \<equiv> unat (match_back m)"
abbreviation fwd :: "xd3_matcher \<Rightarrow> nat" where "fwd m \<equiv> unat (match_fwd m)"

definition source_held :: "bytes \<Rightarrow> xd3_source \<Rightarrow> xd3_matcher \<Rightarrow> bool" where
  "source_held sfile s0 m \<longleftrightarrow>
     (\<exists>s. e_src (m_enc m) = Some s \<and> wf_source s \<and> block_known sfile s \<and> frontier_ok sfile s \<and> same_bounds s s0 \<and>
       (eof_known s0 \<longrightarrow> eof_known s))"

definition in_bounds :: "bytes \<Rightarrow> xd3_matcher \<Rightarrow> bool" where
  "in_bounds sfile m \<longleftrightarrow> length (m_next_in m) < 2 ^ 31 \<and> length sfile < 2 ^ 63 \<and> spos m \<le> length sfile \<and>
     unat (match_maxback m) \<le> ipos m \<and> unat (match_maxback m) \<le> spos m \<and>
     ipos m + unat (match_maxfwd m) \<le> length (m_next_in m) \<and> match_back m \<le> match_maxback m \<and>
     match_fwd m \<le> match_maxfwd m \<and> spos m + fwd m \<le> length sfile"

definition matched :: "bytes \<Rightarrow> xd3_matcher \<Rightarrow> bool" where
  "matched sfile m \<longleftrightarrow> (\<forall>i<bwd m. sfile ! (spos m - 1 - i) = m_next_in m ! (ipos m - 1 - i)) \<and>
     (\<forall>i<fwd m. sfile ! (spos m + i) = m_next_in m ! (ipos m + i))"

text \<open>Only the source object and what is matched so far change while a match is extended.\<close>

definition extends :: "xd3_matcher \<Rightarrow> xd3_matcher \<Rightarrow> bool" where
  "extends m m' \<longleftrightarrow> m' = m\<lparr>match_back := match_back m', match_fwd := match_fwd m', match_state := match_state m',
     m_enc := (m_enc m)\<lparr>e_src := e_src (m_enc m')\<rparr>\<rparr>"

lemma extends_refl [simp]: "extends m m"
  by (simp add: extends_def)

lemma extends_trans: "extends m m1 \<Longrightarrow> extends m1 m2 \<Longrightarrow> extends m m2"
  unfolding extends_def by (cases m; cases m1; cases m2; cases "m_enc m"; cases "m_enc m1"; cases "m_enc m2") simp

lemma extends_fields:
  assumes "extends m m'"
  shows "input_position m' = input_position m" "match_srcpos m' = match_srcpos m" "m_next_in m' = m_next_in m"
    "match_maxback m' = match_maxback m" "match_maxfwd m' = match_maxfwd m" "min_match m' = min_match m"
    "iopt_used (m_enc m') = iopt_used (m_enc m)" "iopt_free (m_enc m') = iopt_free (m_enc m)"
    "unencoded_offset (m_enc m') = unencoded_offset (m_enc m)"
    "srcwin_decided (m_enc m') = srcwin_decided (m_enc m)" "e_iopt_unlimited (m_enc m') = e_iopt_unlimited (m_enc m)"
  using assms unfolding extends_def
  by (cases m; cases m'; cases "m_enc m"; cases "m_enc m'"; simp)+

text \<open>The byte of a block at hand is the byte of the file.\<close>

lemma block_byte:
  assumes "holds_block sfile s n" "k < unat (onblk s)"
  shows "the (curblk s) ! k = sfile ! (unat n * unat (blksize s) + k)"
    and "unat n * unat (blksize s) + k < length sfile"
  using assms by (auto simp: holds_block_def file_block_def)

lemma block_size:
  assumes "holds_block sfile s n"
  shows "unat (onblk s) = min (unat (blksize s)) (length sfile - unat n * unat (blksize s))"
    and "unat (onblk s) = length (the (curblk s))"
  using assms by (auto simp: holds_block_def file_block_def min_def)

lemma held_blksize: "source_held sfile s0 m \<Longrightarrow> 0 < unat (blksize (m_src m))"
  using wf_source_sizes(1) by (auto simp: source_held_def)

lemma matcher_getblk_answered:
  assumes "client_answers sfile gb" "source_held sfile s0 m" "unat n * unat (blksize (m_src m)) \<le> length sfile"
    "length sfile < 2 ^ 63" "matcher_getblk gb n m = (r, m1)"
  shows "source_held sfile s0 m1" "extends m m1" "match_back m1 = match_back m" "match_fwd m1 = match_fwd m"
    "match_state m1 = match_state m" "blksize (m_src m1) = blksize (m_src m)"
    "r = XD3_OK \<Longrightarrow> holds_block sfile (m_src m1) n"
    "r = XD3_OK \<Longrightarrow> \<exists>x. m_src m1 = note_last (note_frontier x n) n \<and> same_frontier x (m_src m) \<and> same_bounds x (m_src m)"
    "r \<noteq> XD3_OK \<Longrightarrow> same_frontier (m_src m1) (m_src m)"
    "m1 = m\<lparr>m_enc := (m_enc m)\<lparr>e_src := e_src (m_enc m1)\<rparr>\<rparr>"
proof -
  obtain s where s: "e_src (m_enc m) = Some s" "wf_source s" "block_known sfile s" "frontier_ok sfile s" "same_bounds s s0"
    "eof_known s0 \<longrightarrow> eof_known s"
    using assms(2) by (auto simp: source_held_def)
  obtain w s' where g: "xd3_getblk gb s n = (r, w, s')" "m1 = m\<lparr>m_enc := (m_enc m)\<lparr>e_src := Some s'\<rparr>\<rparr>"
    using assms(5) s(1) by (auto simp: matcher_getblk_def split: prod.splits)
  have bs: "0 < unat (blksize s)" using held_blksize [OF assms(2)] s(1) by simp
  note a = getblk_answered [OF assms(1) s(3,4) bs _ assms(4) g(1)]
  have n: "unat n * unat (blksize s) \<le> length sfile" using assms(3) s(1) by simp
  then have "wf_source s'" using s(2) a by (simp add: same_bounds_def same_window_def wf_source_def)
  then show "source_held sfile s0 m1"
    using a [OF n] s(5,6) g(2) by (auto simp: source_held_def same_bounds_def same_window_def)
  show "extends m m1" "match_back m1 = match_back m" "match_fwd m1 = match_fwd m" "match_state m1 = match_state m"
    "m1 = m\<lparr>m_enc := (m_enc m)\<lparr>e_src := e_src (m_enc m1)\<rparr>\<rparr>"
    by (simp_all add: extends_def g(2))
  show "blksize (m_src m1) = blksize (m_src m)" "r = XD3_OK \<Longrightarrow> holds_block sfile (m_src m1) n"
    "r = XD3_OK \<Longrightarrow> \<exists>x. m_src m1 = note_last (note_frontier x n) n \<and> same_frontier x (m_src m) \<and> same_bounds x (m_src m)"
    "r \<noteq> XD3_OK \<Longrightarrow> same_frontier (m_src m1) (m_src m)"
    using a [OF n] g(2) s(1) by (simp_all add: same_bounds_def same_window_def)
qed

section \<open>Extending backward\<close>

text \<open>The states a call passes through, from the one it was entered with.\<close>

definition reached :: "bytes \<Rightarrow> xd3_source \<Rightarrow> xd3_matcher \<Rightarrow> xd3_matcher \<Rightarrow> bool" where
  "reached sfile s0 m m' \<longleftrightarrow> extends m m' \<and> source_held sfile s0 m' \<and> in_bounds sfile m' \<and> matched sfile m'"

lemma reached_trans: "reached sfile s0 m m1 \<Longrightarrow> reached sfile s0 m1 m2 \<Longrightarrow> reached sfile s0 m m2"
  by (auto simp: reached_def intro: extends_trans)

lemma reached_getblk:
  assumes "client_answers sfile gb" "reached sfile s0 m0 m" "unat n * unat (blksize (m_src m)) \<le> length sfile"
    "matcher_getblk gb n m = (r, m1)"
  shows "reached sfile s0 m0 m1"
proof -
  have m: "source_held sfile s0 m" "in_bounds sfile m" "matched sfile m" "extends m0 m"
    using assms(2) by (simp_all add: reached_def)
  then have "length sfile < 2 ^ 63" by (simp add: in_bounds_def)
  note g = matcher_getblk_answered [OF assms(1) _ assms(3) this assms(4), of s0]
  have "in_bounds sfile m1" "matched sfile m1"
    using m g [OF m(1)] extends_fields [OF g(2) [OF m(1)]] unfolding in_bounds_def matched_def by metis+
  then show ?thesis using g [OF m(1)] m(4) extends_trans by (auto simp: reached_def)
qed

lemma reached_back:
  assumes m: "reached sfile s0 m0 m" and n: "bwd m + n \<le> unat (match_maxback m)"
    and eq: "\<And>k. k < n \<Longrightarrow> sfile ! (spos m - 1 - (bwd m + k)) = m_next_in m ! (ipos m - 1 - (bwd m + k))"
  shows "reached sfile s0 m0 (m\<lparr>match_back := match_back m + of_nat n\<rparr>)"
    and "unat (match_back m + of_nat n) = bwd m + n"
proof -
  let ?m = "m\<lparr>match_back := match_back m + of_nat n\<rparr>"
  have small: "bwd m + n < 2 ^ 32" using n unat_less_u32 [of "match_maxback m"] by simp
  then have un: "unat (of_nat n :: u32) = n" by (simp add: unsigned_of_nat take_bit_nat_eq_self)
  then show b: "unat (match_back m + of_nat n) = bwd m + n" using small by (subst unat_add_u32) auto
  have "in_bounds sfile ?m" using m n b by (simp add: reached_def in_bounds_def word_le_nat_alt)
  moreover have "sfile ! (spos m - 1 - i) = m_next_in m ! (ipos m - 1 - i)" if "i < bwd m + n" for i
    using eq [of "i - bwd m"] that m by (cases "i < bwd m") (auto simp: reached_def matched_def)
  then have "matched sfile ?m" using m b by (simp add: reached_def matched_def)
  moreover have "extends m0 ?m"
    using m unfolding reached_def extends_def by (cases m0; cases m; cases "m_enc m0"; cases "m_enc m") simp
  ultimately show "reached sfile s0 m0 ?m" using m by (simp add: reached_def source_held_def)
qed

definition outcome_reached :: "bytes \<Rightarrow> xd3_source \<Rightarrow> xd3_matcher \<Rightarrow> match_outcome option \<Rightarrow> bool" where
  "outcome_reached sfile s0 m r \<longleftrightarrow>
     (\<exists>m'. (r = Some (Extended m') \<or> (\<exists>q. q \<noteq> XD3_OK \<and> r = Some (Waiting q m'))) \<and>
       match_state m' = match_state m \<and> reached sfile s0 m m')"

lemma outcome_trans:
  "reached sfile s0 m m1 \<Longrightarrow> match_state m1 = match_state m \<Longrightarrow> outcome_reached sfile s0 m1 r \<Longrightarrow> outcome_reached sfile s0 m r"
  unfolding outcome_reached_def using reached_trans by metis

lemma reached_refl: "reached sfile s0 m m' \<Longrightarrow> reached sfile s0 m' m'"
  by (simp add: reached_def)

text \<open>Where the loop over the blocks looks.\<close>

definition block_at :: "nat \<Rightarrow> u64 \<Rightarrow> u32 \<Rightarrow> xd3_matcher \<Rightarrow> bool" where
  "block_at q blk off m \<longleftrightarrow>
     unat blk * unat (blksize (m_src m)) + unat off = q \<and> unat off \<le> unat (blksize (m_src m))"

lemma block_at_in_file:
  "block_at q blk off m \<Longrightarrow> q \<le> length sfile \<Longrightarrow> unat blk * unat (blksize (m_src m)) \<le> length sfile"
  by (simp add: block_at_def)

lemma block_before:
  assumes "block_at q blk off m" "0 < q"
  shows "block_at q (if off = 0 then blk - 1 else blk) (if off = 0 then blksize (m_src m) else off) m"
    and "0 < unat (if off = 0 then blksize (m_src m) else off)"
proof -
  have z: "0 < unat blk \<and> 0 < unat (blksize (m_src m))" if "off = 0" using assms that by (auto simp: block_at_def)
  have "unat (blk - 1) = unat blk - 1" if "off = 0"
    using z [OF that] by (subst unat_sub_le) (auto simp: word_le_nat_alt)
  then have "unat (blk - 1) * unat (blksize (m_src m)) + unat (blksize (m_src m)) = unat blk * unat (blksize (m_src m))"
    if "off = 0" using z [OF that] that by (cases "unat blk") auto
  then show "block_at q (if off = 0 then blk - 1 else blk) (if off = 0 then blksize (m_src m) else off) m"
    using assms by (auto simp: block_at_def)
  show "0 < unat (if off = 0 then blksize (m_src m) else off)" using z by (auto simp: word_neq_0_conv unat_gt_0)
qed

lemma back_loop_reached:
  assumes "client_answers sfile gb" "reached sfile s0 m m"
    and "block_at (spos m - bwd m) tryblk tryoff m" "unat (match_maxback m) - bwd m < k"
  shows "outcome_reached sfile s0 m (back_loop gb k tryblk tryoff m)"
  using assms(2-4)
proof (induction k arbitrary: tryblk tryoff m)
  case (Suc k)
  let ?r = "back_loop gb (Suc k) tryblk tryoff m"
  have ib: "in_bounds sfile m" "source_held sfile s0 m" using Suc.prems(1) by (simp_all add: reached_def)
  show ?case
  proof (cases "match_back m < match_maxback m")
    case False
    then show ?thesis using Suc.prems(1) by (auto simp: outcome_reached_def back_loop.simps(2))
  next
    case more: True
    then have bm: "bwd m < unat (match_maxback m)" by (simp add: word_less_nat_alt)
    define blk where "blk = (if tryoff = 0 then tryblk - 1 else tryblk)"
    define off where "off = (if tryoff = 0 then blksize (m_src m) else tryoff)"
    have sp: "0 < spos m - bwd m" "spos m < 2 ^ 63" using bm ib(1) by (auto simp: in_bounds_def)
    note at = block_before [OF Suc.prems(2) sp(1), folded blk_def off_def]
    obtain ret m1 where g: "matcher_getblk gb blk m = (ret, m1)" by fastforce
    have sl: "length sfile < 2 ^ 63" "spos m - bwd m \<le> length sfile" using ib(1) by (auto simp: in_bounds_def)
    have n1: "unat blk * unat (blksize (m_src m)) \<le> length sfile" by (rule block_at_in_file [OF at(1) sl(2)])
    note a = matcher_getblk_answered [OF assms(1) ib(2) n1 sl(1) g]
    have r1: "reached sfile s0 m m1" by (rule reached_getblk [OF assms(1) Suc.prems(1) n1 g])
    note f = extends_fields [OF a(2)]
    have pair: "(if tryoff = 0 then (tryblk - 1, blksize (m_src m)) else (tryblk, tryoff)) = (blk, off)"
      by (simp add: blk_def off_def)
    have un: "?r = (if ret = XD3_TOOFARBACK then Some (Extended m1)
            else if ret \<noteq> XD3_OK then Some (Waiting ret m1)
            else
              (let tryrem = min off (match_maxback m1 - match_back m1);
                   n = back_run (the (curblk (m_src m1))) (m_next_in m1) (unat off)
                         (unat (input_position m1 - match_back m1)) (unat tryrem);
                   m2 = m1\<lparr>match_back := match_back m1 + of_nat n\<rparr>
               in if n \<noteq> unat tryrem then Some (Extended m2) else back_loop gb k blk (off - of_nat n) m2))"
      by (subst back_loop.simps) (simp only: more pair g Let_def prod.case not_True_eq_False if_False)
    consider "ret = XD3_TOOFARBACK" | "ret \<noteq> XD3_OK" "ret \<noteq> XD3_TOOFARBACK" | (ok) "ret = XD3_OK" by blast
    then show ?thesis
    proof cases
      case ok
      define tryrem where "tryrem = min off (match_maxback m1 - match_back m1)"
      define n where "n = back_run (the (curblk (m_src m1))) (m_next_in m1) (unat off)
                         (unat (input_position m1 - match_back m1)) (unat tryrem)"
      let ?m2 = "m1\<lparr>match_back := match_back m1 + of_nat n\<rparr>"
      have ib1: "in_bounds sfile m1" using r1 by (simp add: reached_def)
      have b1: "bwd m1 = bwd m" "spos m1 = spos m" using a(3) f(2) by simp_all
      have left: "unat (match_maxback m1 - match_back m1) = unat (match_maxback m) - bwd m"
        using bm a(3) f(4) by (subst unat_sub_le) (auto simp: word_le_nat_alt)
      have so: "unat (input_position m1 - match_back m1) = ipos m1 - bwd m1"
        using ib1 by (subst unat_sub_le) (auto simp: in_bounds_def word_le_nat_alt)
      have rem: "unat tryrem = min (unat off) (unat (match_maxback m) - bwd m)"
        using left by (simp add: tryrem_def min_def word_le_nat_alt)
      have fits: "unat tryrem \<le> ipos m1 - bwd m1" using ib1 rem f(4) b1 by (auto simp: in_bounds_def)
      have n: "n \<le> unat tryrem"
        "k < n \<Longrightarrow> the (curblk (m_src m1)) ! (unat off - 1 - k) = m_next_in m1 ! (ipos m1 - bwd m1 - 1 - k)" for k
        unfolding n_def so using back_run_result [of "unat tryrem" "unat off" "ipos m1 - bwd m1"] rem fits by simp_all
      have h: "holds_block sfile (m_src m1) blk" using a(7) ok by simp
      have pos: "unat blk * unat (blksize (m_src m1)) + unat off = spos m1 - bwd m1"
        using at(1) a(6) b1 by (simp add: block_at_def)
      have on: "unat off \<le> unat (onblk (m_src m1))"
        using block_size(1) [OF h] pos at(1) a(6) ib1 by (auto simp: block_at_def in_bounds_def)
      have eq: "sfile ! (spos m1 - 1 - (bwd m1 + k)) = m_next_in m1 ! (ipos m1 - 1 - (bwd m1 + k))" if "k < n" for k
      proof -
        have k: "k < unat off" using that n(1) rem by simp
        then have "the (curblk (m_src m1)) ! (unat off - 1 - k) =
            sfile ! (unat blk * unat (blksize (m_src m1)) + (unat off - 1 - k))"
          by (intro block_byte(1) [OF h]) (use on in simp)
        moreover have "unat blk * unat (blksize (m_src m1)) + (unat off - 1 - k) = spos m1 - 1 - (bwd m1 + k)"
          using pos k by linarith
        ultimately show ?thesis using n(2) [OF that] by (simp add: diff_diff_left add.commute)
      qed
      have bn: "bwd m1 + n \<le> unat (match_maxback m1)" 
      proof -
        have "n \<le> unat (match_maxback m) - bwd m" using n(1) rem by simp
        then show ?thesis unfolding f(4) b1 using bm by linarith
      qed
      note r2 = reached_back [OF r1 bn eq]
      have st: "match_state ?m2 = match_state m" using a(5) by simp
      have ur: "?r = (if n \<noteq> unat tryrem then Some (Extended ?m2) else back_loop gb k blk (off - of_nat n) ?m2)"
        unfolding un using ok by (simp add: Let_def tryrem_def [symmetric] n_def [symmetric])
      show ?thesis
      proof (cases "n = unat tryrem")
        case False
        then show ?thesis using ur r2(1) st by (auto simp: outcome_reached_def)
      next
        case all: True
        have no: "unat (off - of_nat n) = unat off - n"
        proof -
          have "of_nat n = tryrem" using all by simp
          moreover have "tryrem \<le> off" by (simp add: tryrem_def)
          ultimately show ?thesis using all by (simp add: unat_sub_le)
        qed
        have "outcome_reached sfile s0 ?m2 (back_loop gb k blk (off - of_nat n) ?m2)"
        proof (rule Suc.IH)
          show "reached sfile s0 ?m2 ?m2" by (rule reached_refl [OF r2(1)])
          show "block_at (spos ?m2 - bwd ?m2) blk (off - of_nat n) ?m2"
            using pos at(1) a(6) n(1) rem r2(2) no by (auto simp: block_at_def)
          have "0 < n" using all rem at(2) bm by simp
          then show "unat (match_maxback ?m2) - bwd ?m2 < k" using Suc.prems(3) r2(2) b1 f(4) bm by simp
        qed
        then show ?thesis using ur all r2(1) st outcome_trans by auto
      qed
    qed (use un r1 a(5) in \<open>auto simp: outcome_reached_def\<close>)
  qed
qed simp

section \<open>Extending forward\<close>

lemma reached_forward:
  assumes m: "reached sfile s0 m0 m" and n: "fwd m + n \<le> unat (match_maxfwd m)" "spos m + fwd m + n \<le> length sfile"
    and eq: "\<And>k. k < n \<Longrightarrow> sfile ! (spos m + (fwd m + k)) = m_next_in m ! (ipos m + (fwd m + k))"
  shows "reached sfile s0 m0 (m\<lparr>match_fwd := match_fwd m + of_nat n\<rparr>)"
    and "unat (match_fwd m + of_nat n) = fwd m + n"
proof -
  let ?m = "m\<lparr>match_fwd := match_fwd m + of_nat n\<rparr>"
  have small: "fwd m + n < 2 ^ 32" using n unat_less_u32 [of "match_maxfwd m"] by simp
  then have un: "unat (of_nat n :: u32) = n" by (simp add: unsigned_of_nat take_bit_nat_eq_self)
  then show b: "unat (match_fwd m + of_nat n) = fwd m + n" using small by (subst unat_add_u32) auto
  have "in_bounds sfile ?m" using m n b by (simp add: reached_def in_bounds_def word_le_nat_alt)
  moreover have "sfile ! (spos m + i) = m_next_in m ! (ipos m + i)" if "i < fwd m + n" for i
    using eq [of "i - fwd m"] that m by (cases "i < fwd m") (auto simp: reached_def matched_def)
  then have "matched sfile ?m" using m b by (simp add: reached_def matched_def)
  moreover have "extends m0 ?m"
    using m unfolding reached_def extends_def by (cases m0; cases m; cases "m_enc m0"; cases "m_enc m") simp
  ultimately show "reached sfile s0 m0 ?m" using m by (simp add: reached_def source_held_def)
qed

lemma block_after:
  assumes "block_at q blk off m" "source_held sfile s0 m" "q < 2 ^ 63"
  shows "block_at q (if off = blksize (m_src m) then blk + 1 else blk) (if off = blksize (m_src m) then 0 else off) m"
    and "unat (if off = blksize (m_src m) then 0 else off) < unat (blksize (m_src m))"
proof -
  have bs: "0 < unat (blksize (m_src m))" by (rule held_blksize [OF assms(2)])
  have "unat blk \<le> unat blk * unat (blksize (m_src m))" using bs by simp
  also have "\<dots> \<le> q" using assms(1) by (simp add: block_at_def)
  finally have "unat (blk + 1) = unat blk + 1" using assms(3) by (subst unat_add_u64) auto
  then show "block_at q (if off = blksize (m_src m) then blk + 1 else blk) (if off = blksize (m_src m) then 0 else off) m"
    using assms(1) by (auto simp: block_at_def)
  show "unat (if off = blksize (m_src m) then 0 else off) < unat (blksize (m_src m))"
    using bs assms(1) by (auto simp: block_at_def le_less word_unat_eq_iff)
qed

lemma forward_loop_reached:
  assumes "client_answers sfile gb" "reached sfile s0 m m"
    and "block_at (spos m + fwd m) tryblk tryoff m" "unat (match_maxfwd m) - fwd m < k"
  shows "outcome_reached sfile s0 m (forward_loop u gb k tryblk tryoff m)"
  using assms(2-4)
proof (induction k arbitrary: tryblk tryoff m)
  case (Suc k)
  let ?r = "forward_loop u gb (Suc k) tryblk tryoff m"
  have ib: "in_bounds sfile m" "source_held sfile s0 m" using Suc.prems(1) by (simp_all add: reached_def)
  show ?case
  proof (cases "match_fwd m < match_maxfwd m")
    case False
    then show ?thesis using Suc.prems(1) by (auto simp: outcome_reached_def forward_loop.simps(2))
  next
    case more: True
    then have bm: "fwd m < unat (match_maxfwd m)" by (simp add: word_less_nat_alt)
    define blk where "blk = (if tryoff = blksize (m_src m) then tryblk + 1 else tryblk)"
    define off where "off = (if tryoff = blksize (m_src m) then 0 else tryoff)"
    have q: "spos m + fwd m < 2 ^ 63" using ib(1) by (auto simp: in_bounds_def)
    note at = block_after [OF Suc.prems(2) ib(2) q, folded blk_def off_def]
    obtain ret m1 where g: "matcher_getblk gb blk m = (ret, m1)" by fastforce
    have sl: "length sfile < 2 ^ 63" "spos m + fwd m \<le> length sfile" using ib(1) by (auto simp: in_bounds_def)
    have n1: "unat blk * unat (blksize (m_src m)) \<le> length sfile" by (rule block_at_in_file [OF at(1) sl(2)])
    note a = matcher_getblk_answered [OF assms(1) ib(2) n1 sl(1) g]
    have r1: "reached sfile s0 m m1" by (rule reached_getblk [OF assms(1) Suc.prems(1) n1 g])
    note f = extends_fields [OF a(2)]
    have pair: "(if tryoff = blksize (m_src m) then (tryblk + 1, 0) else (tryblk, tryoff)) = (blk, off)"
      by (simp add: blk_def off_def)
    define tryrem where "tryrem = min (match_maxfwd m1 - match_fwd m1) (onblk (m_src m1) - off)"
    define n where "n = xd3_forward_match u (drop (unat off) (the (curblk (m_src m1))))
                               (drop (unat (input_position m1 + match_fwd m1)) (m_next_in m1)) (unat tryrem)"
    let ?m2 = "m1\<lparr>match_fwd := match_fwd m1 + of_nat n\<rparr>"
    have un: "?r = (if ret = XD3_TOOFARBACK then Some (Extended m1)
            else if ret \<noteq> XD3_OK then Some (Waiting ret m1)
            else if tryrem = 0 then Some (Extended m1)
            else if tryrem \<noteq> of_nat n then Some (Extended ?m2) else forward_loop u gb k blk (off + of_nat n) ?m2)"
      by (subst forward_loop.simps)
        (simp only: more pair g Let_def prod.case not_True_eq_False if_False tryrem_def [symmetric] n_def [symmetric])
    consider (stop) "ret \<noteq> XD3_OK \<or> tryrem = 0" | (ok) "ret = XD3_OK" "tryrem \<noteq> 0" by blast
    then show ?thesis
    proof cases
      case ok
      have ib1: "in_bounds sfile m1" using r1 by (simp add: reached_def)
      have b1: "fwd m1 = fwd m" "spos m1 = spos m" using a(4) f(2) by simp_all
      have h: "holds_block sfile (m_src m1) blk" using a(7) ok by simp
      have pos: "unat blk * unat (blksize (m_src m1)) + unat off = spos m1 + fwd m1"
        using at(1) a(6) b1 by (simp add: block_at_def)
      have on: "unat off \<le> unat (onblk (m_src m1))"
        using block_size(1) [OF h] pos at(2) a(6) ib1 by (auto simp: in_bounds_def)
      have left: "unat (match_maxfwd m1 - match_fwd m1) = unat (match_maxfwd m1) - fwd m1"
        using ib1 by (subst unat_sub_le) (auto simp: in_bounds_def)
      have "unat (onblk (m_src m1) - off) = unat (onblk (m_src m1)) - unat off"
        using on by (subst unat_sub_le) (auto simp: word_le_nat_alt)
      then have rem: "unat tryrem \<le> unat (match_maxfwd m1) - fwd m1" "unat tryrem \<le> unat (onblk (m_src m1)) - unat off"
        using left by (simp_all add: tryrem_def min_def word_le_nat_alt)
      have ip: "unat (input_position m1 + match_fwd m1) = ipos m1 + fwd m1"
        using ib1 by (subst unat_add_u32) (auto simp: in_bounds_def word_le_nat_alt)
      have fits: "unat tryrem \<le> length (drop (unat off) (the (curblk (m_src m1))))"
        "unat tryrem \<le> length (drop (unat (input_position m1 + match_fwd m1)) (m_next_in m1))"
        using rem block_size(2) [OF h] ib1 ip by (auto simp: in_bounds_def)
      have n: "n \<le> unat tryrem" "k < n \<Longrightarrow> drop (unat off) (the (curblk (m_src m1))) ! k =
          drop (unat (input_position m1 + match_fwd m1)) (m_next_in m1) ! k" for k
        using forward_match_result [OF fits n_def [symmetric]] by blast+
      have eq: "sfile ! (spos m1 + (fwd m1 + k)) = m_next_in m1 ! (ipos m1 + (fwd m1 + k))" if "k < n" for k
      proof -
        have k: "unat off + k < unat (onblk (m_src m1))" using that n(1) rem(2) on by linarith
        have "drop (unat off) (the (curblk (m_src m1))) ! k =
            sfile ! (unat blk * unat (blksize (m_src m1)) + (unat off + k))"
          using block_byte(1) [OF h k] block_size(2) [OF h] on by simp
        moreover have "drop (unat (input_position m1 + match_fwd m1)) (m_next_in m1) ! k =
            m_next_in m1 ! (ipos m1 + (fwd m1 + k))"
          unfolding ip using that n(1) fits(2) ip by (subst nth_drop) (auto simp: add.assoc)
        moreover have "spos m1 + (fwd m1 + k) = unat blk * unat (blksize (m_src m1)) + (unat off + k)"
          using pos by linarith
        ultimately show ?thesis using n(2) [OF that] by (simp only:)
      qed
      have bn: "fwd m1 + n \<le> unat (match_maxfwd m1)"
        using n(1) rem(1) ib1 by (auto simp: in_bounds_def word_le_nat_alt)
      have sn: "spos m1 + fwd m1 + n \<le> length sfile"
      proof -
        have "unat blk * unat (blksize (m_src m1)) + unat (onblk (m_src m1)) \<le> length sfile"
          using block_size(1) [OF h] pos ib1 by (auto simp: in_bounds_def)
        then show ?thesis using n(1) rem(2) pos on by linarith
      qed
      note r2 = reached_forward [OF r1 bn sn eq]
      have st: "match_state ?m2 = match_state m" using a(5) by simp
      have un': "unat (of_nat n :: u32) = n"
        using n(1) unat_less_u32 [of tryrem] by (simp add: unsigned_of_nat take_bit_nat_eq_self)
      show ?thesis
      proof (cases "tryrem = of_nat n")
        case False
        then show ?thesis using un ok r2(1) st by (auto simp: outcome_reached_def)
      next
        case all: True
        have ob: "unat off + n \<le> unat (blksize (m_src m1))"
          using n(1) rem(2) on block_size(1) [OF h] by linarith
        have no: "unat (off + of_nat n) = unat off + n"
          using ob un' unat_less_u32 [of "blksize (m_src m1)"] by (subst unat_add_u32) auto
        have "outcome_reached sfile s0 ?m2 (forward_loop u gb k blk (off + of_nat n) ?m2)"
        proof (rule Suc.IH)
          show "reached sfile s0 ?m2 ?m2" by (rule reached_refl [OF r2(1)])
          show "block_at (spos ?m2 + fwd ?m2) blk (off + of_nat n) ?m2"
            using pos ob r2(2) no by (simp add: block_at_def)
          have "0 < n" using all ok(2) by (cases n) auto
          then show "unat (match_maxfwd ?m2) - fwd ?m2 < k" using Suc.prems(3) r2(2) b1 f(5) bm by simp
        qed
        then show ?thesis using un ok all r2(1) st outcome_trans by auto
      qed
    qed (use un r1 a(5) in \<open>auto simp: outcome_reached_def\<close>)
  qed
qed simp

section \<open>Taking the match\<close>

text \<open>
  What the search relies on at an input position: what is in the buffer starts before it, and a
  match of the minimum length ends after what is in the buffer.
\<close>

definition search_inv :: "bytes \<Rightarrow> xd3_addr_cache \<Rightarrow> xd3_matcher \<Rightarrow> bool" where
  "search_inv sfile c0 m \<longleftrightarrow> encoder_inv sfile c0 (m_enc m) \<and> MIN_MATCH \<le> unat (min_match m) \<and>
     unat (unencoded_offset (m_enc m)) \<le> ipos m \<and> ipos m \<le> length (m_next_in m) \<and>
     (iopt_used (m_enc m) \<noteq> [] \<longrightarrow> pos_of (last (iopt_used (m_enc m))) < ipos m \<and>
        end_of (last (iopt_used (m_enc m))) < ipos m + unat (min_match m))"

text \<open>The slots suffice: they can grow, or a flush of the full buffer leaves what it must and a free slot.\<close>

definition slots_suffice :: "xd3_encoder \<Rightarrow> bool" where
  "slots_suffice e \<longleftrightarrow> (iopt_free e = [] \<and> \<not> e_iopt_unlimited e \<longrightarrow> can_flush e \<and> flush_frees e)"

lemma slots_suffice_comes: "slots_suffice e \<Longrightarrow> rinst_fits rinst \<Longrightarrow> slot_comes rinst e"
  by (simp add: slots_suffice_def slot_comes_def)

text \<open>The match stays in what is not encoded yet, and in the source window once it is decided.\<close>

definition within :: "xd3_matcher \<Rightarrow> bool" where
  "within m \<longleftrightarrow> unat (unencoded_offset (m_enc m)) + unat (match_maxback m) \<le> ipos m \<and>
     (srcwin_decided (m_enc m) \<longrightarrow>
        unat (srcbase (m_src m)) + unat (match_maxback m) \<le> spos m \<and>
        spos m + unat (match_maxfwd m) \<le> unat (srcbase (m_src m)) + unat (srclen (m_src m)))"

lemma staggered_ends: "staggered rs \<Longrightarrow> r \<in> set rs \<Longrightarrow> end_of r \<le> end_of (last rs)"
  by (induction rs rule: rev_induct) (fastforce simp: staggered_snoc)+

lemma staggered_starts: "staggered rs \<Longrightarrow> r \<in> set rs \<Longrightarrow> pos_of r \<le> pos_of (last rs)"
  by (induction rs rule: rev_induct) (fastforce simp: staggered_snoc)+

lemma erase_fields:
  assumes "xd3_iopt_erase pos sz e = e'"
  shows "e_next_in e' = e_next_in e" "e_src e' = e_src e" "unencoded_offset e' = unencoded_offset e"
    "srcwin_decided e' = srcwin_decided e" "e_iopt_unlimited e' = e_iopt_unlimited e" "e_iopt_size e' = e_iopt_size e"
    "addresses_ready e' = addresses_ready e"
  using assms by (auto simp: xd3_iopt_erase_def erase_loop_used addresses_ready_def)

lemma erase_slots:
  assumes "xd3_iopt_erase pos sz e = e'" "encoder_inv sfile c0 e" "slots_suffice e"
  shows "slots_suffice e'"
proof (cases "iopt_free e' = []")
  case True
  note i = erase_inv [OF assms(2,1)]
  have "length (iopt_used e') = length (iopt_used e) + length (iopt_free e)"
    using conjunct2 [OF conjunct2 [OF i]] True by simp
  then have l: "length (filter (\<lambda>r. r_pos r < pos) (iopt_used e)) = length (iopt_used e) + length (iopt_free e)"
    using conjunct1 [OF conjunct2 [OF i]] by (simp only:)
  then have "length (iopt_free e) = 0"
    using length_filter_le [of "\<lambda>r. r_pos r < pos" "iopt_used e"] by linarith
  then have f: "iopt_free e = []" "length (filter (\<lambda>r. r_pos r < pos) (iopt_used e)) = length (iopt_used e)"
    using l by simp_all
  then have "iopt_used e' = iopt_used e" using i by (metis filter_id_conv length_filter_less linorder_neq_iff)
  then show ?thesis
    using assms(3) f(1) True erase_fields(5-7) [OF assms(1)] by (simp add: slots_suffice_def can_flush_def flush_frees_def)
qed (simp add: slots_suffice_def)

text \<open>Widening the range of source addresses keeps what is in it.\<close>

lemma widen_match_in:
  assumes "match_in sfile e r"
    and e': "e' = e\<lparr>match_minaddr := lo, match_maxaddr := hi\<rparr>"
    and lo: "match_maxaddr e = 0 \<or> lo \<le> match_minaddr e" and hi: "match_maxaddr e \<le> hi"
  shows "match_in sfile e' r"
proof -
  have "0 < unat (r_size r)" using assms(1) by (simp add: match_in_def true_match_def MIN_MATCH_def)
  then have "in_source_window e' r"
    using assms(1) lo hi by (auto simp: match_in_def in_source_window_def e' word_le_nat_alt split: option.splits if_splits)
  then show ?thesis using assms(1) by (simp add: match_in_def e')
qed

lemma widen_inv:
  assumes "encoder_inv sfile c0 e" "e' = e\<lparr>match_minaddr := lo, match_maxaddr := hi\<rparr>"
    and "match_maxaddr e = 0 \<or> lo \<le> match_minaddr e" "match_maxaddr e \<le> hi"
  shows "encoder_inv sfile c0 e'"
proof -
  have "source_segment sfile e' S = source_segment sfile e S" for S
    by (simp add: source_segment_def assms(2) cong: option.case_cong)
  moreover have "written c0 S e' = written c0 S e" for S
    by (rule written_cong) (simp_all add: same_written_def assms(2))
  ultimately show ?thesis
    using assms(1) widen_match_in [OF _ assms(2-4)] by (auto simp: encoder_inv_def list_all_iff assms(2))
qed

text \<open>The range after a match is noted.\<close>

lemma note_range_widens:
  assumes "note_range position after m = m'"
  shows "\<exists>lo hi. m' = m\<lparr>m_enc := (m_enc m)\<lparr>match_minaddr := lo, match_maxaddr := hi\<rparr>, maxsrcaddr := maxsrcaddr m'\<rparr> \<and>
    (match_maxaddr (m_enc m) = 0 \<or> lo \<le> match_minaddr (m_enc m)) \<and> match_maxaddr (m_enc m) \<le> hi \<and>
    lo \<le> position \<and> after \<le> hi"
proof (intro exI conjI)
  let ?e = "m_enc m"
  let ?lo = "if match_maxaddr ?e = 0 \<or> position < match_minaddr ?e then position else match_minaddr ?e"
  let ?hi = "if after > match_maxaddr ?e then after else match_maxaddr ?e"
  show "m' = m\<lparr>m_enc := ?e\<lparr>match_minaddr := ?lo, match_maxaddr := ?hi\<rparr>, maxsrcaddr := maxsrcaddr m'\<rparr>"
    using assms by (auto simp: note_range_def Let_def)
qed auto

text \<open>Making room in the buffer does not touch the input.\<close>

lemma add_encoding_input: "xd3_iopt_add_encoding r e = Inr e' \<Longrightarrow> e_next_in e' = e_next_in e"
  by (auto simp: xd3_iopt_add_encoding_def xd3_iopt_add_def Let_def err_then_Inr buffer_frame_def
      split: if_splits dest!: finish_encoding_buffer)

lemma flush_loop_input: "flush_loop force fl rs e = Inr e' \<Longrightarrow> e_next_in e' = e_next_in e"
proof (induction rs arbitrary: fl e)
  case (Cons r rs)
  from Cons.prems obtain e1 where "xd3_iopt_add_encoding r (e\<lparr>iopt_used := rs\<rparr>) = Inr e1"
    "e1 = e' \<or> (\<exists>fl'. flush_loop force fl' rs e1 = Inr e')"
    unfolding flush_loop.simps by (elim err_thenE) (auto split: if_splits)
  then show ?case using Cons.IH add_encoding_input by fastforce
qed auto

lemma get_slot_input: "xd3_iopt_get_slot rinst e = Inr (ri, e') \<Longrightarrow> e_next_in e' = e_next_in e"
  by (auto simp: xd3_iopt_get_slot_def xd3_iopt_flush_instructions_def xd3_alloc_iopt_def Let_def err_then_Inr
      split: if_splits prod.splits dest!: flush_loop_input)

lemma found_match_input: "xd3_found_match rinst pos sz addr b e = Inr e' \<Longrightarrow> e_next_in e' = e_next_in e"
  by (auto simp: xd3_found_match_def err_then_Inr dest: get_slot_input)

lemma matched_take:
  assumes "in_bounds sfile m" "matched sfile m"
  shows "take (bwd m + fwd m) (drop (spos m - bwd m) sfile) = take (bwd m + fwd m) (drop (ipos m - bwd m) (m_next_in m))"
proof (rule nth_equalityI)
  have b: "bwd m \<le> spos m" "bwd m \<le> ipos m" "ipos m + fwd m \<le> length (m_next_in m)" "spos m + fwd m \<le> length sfile"
    using assms(1) by (auto simp: in_bounds_def word_le_nat_alt)
  show l: "length (take (bwd m + fwd m) (drop (spos m - bwd m) sfile)) =
      length (take (bwd m + fwd m) (drop (ipos m - bwd m) (m_next_in m)))"
    using b by simp
  fix i assume "i < length (take (bwd m + fwd m) (drop (spos m - bwd m) sfile))"
  then have i: "i < bwd m + fwd m" by simp
  have "sfile ! (spos m - bwd m + i) = m_next_in m ! (ipos m - bwd m + i)"
  proof (cases "i < bwd m")
    case True
    then have "spos m - 1 - (bwd m - 1 - i) = spos m - bwd m + i" "ipos m - 1 - (bwd m - 1 - i) = ipos m - bwd m + i"
      using b by linarith+
    moreover have "bwd m - 1 - i < bwd m" using True by linarith
    ultimately show ?thesis using assms(2) unfolding matched_def by metis
  next
    case False
    then have "spos m + (i - bwd m) = spos m - bwd m + i" "ipos m + (i - bwd m) = ipos m - bwd m + i"
      using b by linarith+
    moreover have "i - bwd m < fwd m" using False i by linarith
    ultimately show ?thesis using assms(2) unfolding matched_def by metis
  qed
  then show "take (bwd m + fwd m) (drop (spos m - bwd m) sfile) ! i =
      take (bwd m + fwd m) (drop (ipos m - bwd m) (m_next_in m)) ! i"
    using i b by (simp add: nth_drop)
qed

text \<open>After a match the buffer ends with it; without one nothing changes.\<close>

definition match_taken :: "bytes \<Rightarrow> xd3_addr_cache \<Rightarrow> xd3_matcher \<Rightarrow> xd3_matcher \<Rightarrow> bool" where
  "match_taken sfile c0 m m' \<longleftrightarrow> encoder_inv sfile c0 (m_enc m') \<and> input_position m' = input_position m \<and>
     min_match m' = min_match m \<and> m_next_in m' = m_next_in m \<and>
     (if match_fwd m' = 0 then search_inv sfile c0 m' \<and> iopt_used (m_enc m') = iopt_used (m_enc m)
      else min_match m \<le> match_fwd m' \<and> iopt_used (m_enc m') \<noteq> [] \<and> pos_of (last (iopt_used (m_enc m'))) \<le> ipos m \<and>
        end_of (last (iopt_used (m_enc m'))) = ipos m + fwd m' \<and> ipos m + fwd m' \<le> length (m_next_in m))"

lemma take_match_inv:
  assumes inv: "search_inv sfile c0 m" and ib: "in_bounds sfile m" and mt: "matched sfile m"
    and sh: "source_held sfile s0 m" and wi: "within m" and sl: "slots_suffice (m_enc m)"
    and t: "take_match rinst m = Extended m'"
  shows "match_taken sfile c0 m m'"
proof (cases "match_fwd m < min_match m")
  case True
  then have "m' = m\<lparr>match_fwd := 0\<rparr>" using t by (simp add: take_match_def)
  then show ?thesis using inv by (simp add: match_taken_def search_inv_def)
next
  case False
  let ?tp = "input_position m - match_back m" and ?len = "match_back m + match_fwd m"
  let ?mp = "match_srcpos m - ucast (match_back m)" and ?me = "match_srcpos m + ucast (match_fwd m)"
  define m1 where "m1 = (if match_back m > 0 then m\<lparr>m_enc := xd3_iopt_erase ?tp (match_fwd m + match_back m) (m_enc m)\<rparr> else m)"
  define m2 where "m2 = note_range ?mp ?me (m1\<lparr>match_back := 0\<rparr>)"
  have b: "bwd m \<le> unat (match_maxback m)" "bwd m \<le> spos m" "bwd m \<le> ipos m" "ipos m + fwd m \<le> length (m_next_in m)"
    "spos m + fwd m \<le> length sfile" "length (m_next_in m) < 2 ^ 31" "length sfile < 2 ^ 63" "fwd m \<le> unat (match_maxfwd m)"
    using ib by (auto simp: in_bounds_def word_le_nat_alt)
  have u: "unat ?tp = ipos m - bwd m" "unat ?len = bwd m + fwd m" "unat ?mp = spos m - bwd m" "unat ?me = spos m + fwd m"
    using b by (subst unat_sub_le unat_add_u32 unat_add_u64; auto simp: word_le_nat_alt unat_ucast_u32_u64)+
  have st: "staggered (iopt_used (m_enc m))" using inv by (simp add: search_inv_def encoder_inv_def)
  have m1: "encoder_inv sfile c0 (m_enc m1) \<and> slots_suffice (m_enc m1) \<and> e_next_in (m_enc m1) = m_next_in m \<and>
      e_src (m_enc m1) = e_src (m_enc m) \<and> unencoded_offset (m_enc m1) = unencoded_offset (m_enc m) \<and>
      srcwin_decided (m_enc m1) = srcwin_decided (m_enc m)"
    using inv sl erase_fields [OF refl] erase_slots [OF refl _ sl] erase_inv [OF _ refl]
    by (auto simp: m1_def search_inv_def)
  have before: "pos_of (last (iopt_used (m_enc m1))) < ipos m - bwd m \<and>
      end_of (last (iopt_used (m_enc m1))) < ipos m + unat (min_match m)" if "iopt_used (m_enc m1) \<noteq> []"
  proof (cases "match_back m > 0")
    case False
    then have "bwd m = 0" by (metis unat_0 word_gt_0)
    then show ?thesis using inv that False by (simp add: search_inv_def m1_def)
  next
    case True
    then have us: "iopt_used (m_enc m1) = filter (\<lambda>r. r_pos r < ?tp) (iopt_used (m_enc m))"
      using erase_inv [OF conjunct1 [OF inv [unfolded search_inv_def]] refl] by (simp add: m1_def)
    have "last (iopt_used (m_enc m1)) \<in> set (iopt_used (m_enc m1))" using that by simp
    then have l: "last (iopt_used (m_enc m1)) \<in> set (iopt_used (m_enc m))" "r_pos (last (iopt_used (m_enc m1))) < ?tp"
      unfolding us by auto
    then have "iopt_used (m_enc m) \<noteq> []" by auto
    then show ?thesis
      using staggered_ends [OF st l(1)] l(2) u(1) inv by (auto simp: search_inv_def word_less_nat_alt)
  qed
  obtain lo hi where m2: "m2 = m1\<lparr>match_back := 0, m_enc := (m_enc m1)\<lparr>match_minaddr := lo, match_maxaddr := hi\<rparr>, maxsrcaddr := maxsrcaddr m2\<rparr>"
    "match_maxaddr (m_enc m1) = 0 \<or> lo \<le> match_minaddr (m_enc m1)" "match_maxaddr (m_enc m1) \<le> hi" "lo \<le> ?mp" "?me \<le> hi"
    using note_range_widens [OF m2_def [symmetric]] by auto
  let ?e2 = "(m_enc m1)\<lparr>match_minaddr := lo, match_maxaddr := hi\<rparr>"
  have e2: "m_enc m2 = ?e2" by (subst m2(1)) simp
  have inv2: "encoder_inv sfile c0 ?e2" by (rule widen_inv [OF conjunct1 [OF m1] refl m2(2,3)])
  have mm: "MIN_MATCH \<le> fwd m" using False inv by (auto simp: search_inv_def word_less_nat_alt)
  obtain s where s: "e_src (m_enc m) = Some s" using sh by (auto simp: source_held_def)
  have "match_in sfile ?e2 (copy_inst ?tp ?len ?mp True)"
  proof -
    have "true_match sfile (m_next_in m) (copy_inst ?tp ?len ?mp True)"
      using matched_take [OF ib mt] b u mm by (simp add: true_match_def copy_inst_def inst_types)
    moreover have "in_source_window ?e2 (copy_inst ?tp ?len ?mp True)"
      using wi m1 s u b m2(4,5) by (auto simp: in_source_window_def copy_inst_def within_def word_le_nat_alt)
    ultimately show ?thesis using m1 b(6) by (simp add: match_in_def)
  qed
  moreover obtain e' where f: "xd3_found_match rinst ?tp ?len ?mp True ?e2 = Inr e'"
    "m' = m2\<lparr>m_enc := e'\<rparr> \<or> m' = m2\<lparr>m_enc := e', match_state := MATCH_TARGET, match_srcpos := ?me\<rparr>"
    using t False unfolding take_match_def Let_def m1_def [symmetric] m2_def [symmetric] e2
    by (auto split: sum.splits if_splits)
  moreover have "if iopt_used ?e2 = [] then unat (unencoded_offset ?e2) \<le> unat ?tp
      else pos_of (last (iopt_used ?e2)) < unat ?tp \<and> end_of (last (iopt_used ?e2)) < unat ?tp + unat ?len"
    using before m1 wi u b(1,3) False by (auto simp: within_def word_less_nat_alt)
  moreover have "iopt_free ?e2 = [] \<and> \<not> e_iopt_unlimited ?e2 \<longrightarrow> can_flush ?e2"
    using m1 by (simp add: slots_suffice_def can_flush_def)
  ultimately have e': "encoder_inv sfile c0 e' \<and>
      (\<exists>r. iopt_used e' \<noteq> [] \<and> last (iopt_used e') = r \<and> r_pos r = ?tp \<and> r_size r = ?len)"
    using found_match_inv [OF inv2] by blast
  have ni: "e_next_in e' = m_next_in m" using found_match_input [OF f(1)] m1 by simp
  have fields: "match_fwd m2 = match_fwd m" "input_position m2 = input_position m" "min_match m2 = min_match m"
    by (subst m2(1), simp add: m1_def)+
  have "0 < fwd m" using mm by (simp add: MIN_MATCH_def)
  then show ?thesis
    using e' f(2) fields ni u b False mm
    by (auto simp: match_taken_def)
qed

lemma take_match_fails:
  assumes inv: "encoder_inv sfile c0 (m_enc m)" and sl: "slots_suffice (m_enc m)" and ri: "rinst_fits rinst"
    and t: "take_match rinst m = Failed err"
  shows "err \<noteq> pop_of_empty_list"
proof -
  let ?tp = "input_position m - match_back m" and ?len = "match_back m + match_fwd m"
  let ?mp = "match_srcpos m - ucast (match_back m)" and ?me = "match_srcpos m + ucast (match_fwd m)"
  define m1 where "m1 = (if match_back m > 0 then m\<lparr>m_enc := xd3_iopt_erase ?tp (match_fwd m + match_back m) (m_enc m)\<rparr> else m)"
  define m2 where "m2 = note_range ?mp ?me (m1\<lparr>match_back := 0\<rparr>)"
  have "slots_suffice (m_enc m1)" using erase_slots [OF refl inv sl] sl by (simp add: m1_def)
  moreover obtain lo hi where "m_enc m2 = (m_enc m1)\<lparr>match_minaddr := lo, match_maxaddr := hi\<rparr>"
  proof -
    obtain lo hi where "m2 = m1\<lparr>match_back := 0, m_enc := (m_enc m1)\<lparr>match_minaddr := lo, match_maxaddr := hi\<rparr>, maxsrcaddr := maxsrcaddr m2\<rparr>"
      using note_range_widens [OF m2_def [symmetric]] by auto
    from arg_cong [OF this, of m_enc] show thesis by (intro that) simp
  qed
  ultimately have "slots_suffice (m_enc m2)"
    by (simp add: slots_suffice_def can_flush_def flush_frees_def addresses_ready_def)
  from not_pop [OF new_entry_fails(1) [OF slots_suffice_comes [OF this ri]]]
  show ?thesis using t unfolding take_match_def Let_def m1_def [symmetric] m2_def [symmetric]
    by (auto split: sum.splits if_splits)
qed

section \<open>A whole call\<close>

text \<open>What holds whenever a match is being extended, at the first call and when it is entered again.\<close>

definition extending :: "bytes \<Rightarrow> xd3_addr_cache \<Rightarrow> xd3_matcher \<Rightarrow> bool" where
  "extending sfile c0 m \<longleftrightarrow> search_inv sfile c0 m \<and> source_held sfile (m_src m) m \<and> in_bounds sfile m \<and> matched sfile m \<and>
     within m \<and> slots_suffice (m_enc m) \<and> match_state m \<in> {MATCH_BACKWARD, MATCH_FORWARD}"

lemma encoder_inv_src:
  assumes "e_src e = Some s" "same_bounds s' s"
  shows "encoder_inv sfile c0 (e\<lparr>e_src := Some s'\<rparr>) = encoder_inv sfile c0 e"
proof -
  let ?e = "e\<lparr>e_src := Some s'\<rparr>"
  have "source_segment sfile ?e S = source_segment sfile e S" "in_source_window ?e r = in_source_window e r" for S r
    using assms by (simp_all add: source_segment_def in_source_window_def same_bounds_def)
  moreover have "written c0 S ?e = written c0 S e" for S
    by (rule written_cong) (simp_all add: same_written_def)
  ultimately show ?thesis by (simp add: encoder_inv_def match_in_def list_all_iff)
qed

lemma same_bounds_refl [simp]: "same_bounds a a"
  by (simp add: same_bounds_def same_window_def)

lemma same_bounds_sym: "same_bounds a b \<Longrightarrow> same_bounds b a"
  by (simp add: same_bounds_def same_window_def)

lemma same_bounds_trans: "same_bounds a b \<Longrightarrow> same_bounds b c \<Longrightarrow> same_bounds a c"
  by (simp add: same_bounds_def same_window_def)

lemma reached_keeps:
  assumes "search_inv sfile c0 m" "source_held sfile s0 m" "within m" "slots_suffice (m_enc m)" "reached sfile s0 m m'"
  shows "search_inv sfile c0 m' \<and> within m' \<and> slots_suffice (m_enc m') \<and> source_held sfile (m_src m') m' \<and>
    in_bounds sfile m' \<and> matched sfile m' \<and> iopt_used (m_enc m') = iopt_used (m_enc m)"
proof -
  have ex: "extends m m'" using assms(5) by (simp add: reached_def)
  note f = extends_fields [OF ex]
  obtain s s' where s: "e_src (m_enc m) = Some s" "same_bounds s s0" "e_src (m_enc m') = Some s'" "same_bounds s' s0"
    using assms(2,5) by (auto simp: source_held_def reached_def)
  have b: "same_bounds s' s" using same_bounds_trans [OF s(4) same_bounds_sym [OF s(2)]] .
  have e': "m_enc m' = (m_enc m)\<lparr>e_src := Some s'\<rparr>"
    using ex s(3) unfolding extends_def by (cases m; cases m'; cases "m_enc m"; cases "m_enc m'") simp
  have "encoder_inv sfile c0 (m_enc m')"
    using encoder_inv_src [OF s(1) b] assms(1) by (simp add: e' search_inv_def)
  moreover have "srcbase s' = srcbase s" "srclen s' = srclen s" using b by (simp_all add: same_bounds_def)
  moreover have "source_held sfile (m_src m') m'"
    using assms(5) s(3) by (auto simp: reached_def source_held_def)
  moreover have "slots_suffice (m_enc m')"
    using assms(4) by (simp add: slots_suffice_def can_flush_def flush_frees_def addresses_ready_def e')
  ultimately show ?thesis
    using assms f s by (simp add: search_inv_def within_def reached_def)
qed

lemma source_held_self: "source_held sfile s0 m \<Longrightarrow> source_held sfile (m_src m) m"
  by (auto simp: source_held_def)

lemma extending_block:
  assumes "source_held sfile s0 m" "xd3_blksize_div offset (m_src m) = (blk, off)"
  shows "block_at (unat offset) blk off m"
proof -
  have "wf_source (m_src m)" using assms(1) by (auto simp: source_held_def)
  note d = xd3_blksize_div_eq [OF this assms(2)]
  have "unat off < unat (blksize (m_src m))"
    unfolding d(2) using held_blksize [OF assms(1)] by simp
  then show ?thesis unfolding block_at_def d by simp
qed

lemma set_state_reached:
  "reached sfile s0 m m' \<Longrightarrow> reached sfile s0 m (m'\<lparr>match_state := st\<rparr>)"
  unfolding reached_def source_held_def in_bounds_def matched_def extends_def
  by (cases m; cases m'; cases "m_enc m"; cases "m_enc m'") simp

lemma extend_back_reached:
  assumes "client_answers sfile gb" "reached sfile s0 m m" "match_state m \<in> {MATCH_BACKWARD, MATCH_FORWARD}"
  shows "\<exists>m'. reached sfile s0 m m' \<and>
    (extend_back gb m = Some (Extended m') \<and> match_state m' = MATCH_FORWARD \<or>
     (\<exists>q. q \<noteq> XD3_OK \<and> extend_back gb m = Some (Waiting q m')) \<and> match_state m' = MATCH_BACKWARD)"
proof (cases "match_state m = MATCH_BACKWARD")
  case False
  then show ?thesis using assms by (auto simp: extend_back_def)
next
  case True
  obtain blk off where d: "xd3_blksize_div (match_srcpos m - ucast (match_back m)) (m_src m) = (blk, off)" by fastforce
  have h: "source_held sfile s0 m" "in_bounds sfile m" using assms(2) by (simp_all add: reached_def)
  then have "unat (match_srcpos m - ucast (match_back m)) = spos m - bwd m"
    by (subst unat_sub_le) (auto simp: in_bounds_def word_le_nat_alt unat_ucast_u32_u64)
  then have "block_at (spos m - bwd m) blk off m" using extending_block [OF h(1) d] by simp
  then have "outcome_reached sfile s0 m (back_loop gb (Suc (unat (match_maxback m))) blk off m)"
    by (rule back_loop_reached [OF assms(1,2)]) simp
  then obtain m' where m': "reached sfile s0 m m'" "match_state m' = MATCH_BACKWARD"
    "back_loop gb (Suc (unat (match_maxback m))) blk off m = Some (Extended m') \<or>
     (\<exists>q. q \<noteq> XD3_OK \<and> back_loop gb (Suc (unat (match_maxback m))) blk off m = Some (Waiting q m'))"
    unfolding outcome_reached_def True by (elim exE conjE) (rule that)
  from m'(3) show ?thesis
  proof
    assume "back_loop gb (Suc (unat (match_maxback m))) blk off m = Some (Extended m')"
    then show ?thesis
      using True d set_state_reached [OF m'(1)]
      by (intro exI [of _ "m'\<lparr>match_state := MATCH_FORWARD\<rparr>"]) (simp add: extend_back_def)
  next
    assume "\<exists>q. q \<noteq> XD3_OK \<and> back_loop gb (Suc (unat (match_maxback m))) blk off m = Some (Waiting q m')"
    then show ?thesis using True d m'(1,2) by (intro exI [of _ m']) (auto simp: extend_back_def)
  qed
qed

lemma extend_forward_reached:
  assumes "client_answers sfile gb" "reached sfile s0 m m" "match_state m = MATCH_FORWARD"
  shows "\<exists>m'. reached sfile s0 m m' \<and>
    (extend_forward u gb m = Some (Extended m') \<and> match_state m' = MATCH_SEARCHING \<or>
     (\<exists>q. q \<noteq> XD3_OK \<and> extend_forward u gb m = Some (Waiting q m')) \<and> match_state m' = MATCH_FORWARD)"
proof -
  obtain blk off where d: "xd3_blksize_div (match_srcpos m + ucast (match_fwd m)) (m_src m) = (blk, off)" by fastforce
  have h: "source_held sfile s0 m" "in_bounds sfile m" using assms(2) by (simp_all add: reached_def)
  then have "unat (match_srcpos m + ucast (match_fwd m)) = spos m + fwd m"
    by (subst unat_add_u64) (auto simp: in_bounds_def unat_ucast_u32_u64)
  then have "block_at (spos m + fwd m) blk off m" using extending_block [OF h(1) d] by simp
  then have "outcome_reached sfile s0 m (forward_loop u gb (Suc (unat (match_maxfwd m))) blk off m)"
    by (rule forward_loop_reached [OF assms(1,2)]) simp
  then obtain m' where m': "reached sfile s0 m m'" "match_state m' = MATCH_FORWARD"
    "forward_loop u gb (Suc (unat (match_maxfwd m))) blk off m = Some (Extended m') \<or>
     (\<exists>q. q \<noteq> XD3_OK \<and> forward_loop u gb (Suc (unat (match_maxfwd m))) blk off m = Some (Waiting q m'))"
    unfolding outcome_reached_def assms(3) by (elim exE conjE) (rule that)
  from m'(3) show ?thesis
  proof
    assume "forward_loop u gb (Suc (unat (match_maxfwd m))) blk off m = Some (Extended m')"
    then show ?thesis
      using d set_state_reached [OF m'(1)]
      by (intro exI [of _ "m'\<lparr>match_state := MATCH_SEARCHING\<rparr>"]) (simp add: extend_forward_def)
  next
    assume "\<exists>q. q \<noteq> XD3_OK \<and> forward_loop u gb (Suc (unat (match_maxfwd m))) blk off m = Some (Waiting q m')"
    then show ?thesis using d m'(1,2) by (intro exI [of _ m']) (auto simp: extend_forward_def)
  qed
qed

lemma match_taken_cong:
  assumes "match_taken sfile c0 m m'" "extends m0 m"
  shows "match_taken sfile c0 m0 m'"
  using assms(1) unfolding match_taken_def extends_fields [OF assms(2)] .

lemma extend_match_result:
  assumes cl: "client_answers sfile gb" and m: "extending sfile c0 m" and ri: "rinst_fits rinst"
  shows "\<exists>r. xd3_source_extend_match u rinst gb m = Some r \<and>
    (case r of Extended m' \<Rightarrow> match_taken sfile c0 m m' \<and>
         (\<exists>m2. reached sfile (m_src m) m m2 \<and> match_state m2 = MATCH_SEARCHING \<and> take_match rinst m2 = Extended m')
     | Waiting q m' \<Rightarrow> q \<noteq> XD3_OK \<and> extending sfile c0 m' \<and> reached sfile (m_src m) m m'
     | Failed err \<Rightarrow> err \<noteq> pop_of_empty_list)"
proof -
  let ?s0 = "m_src m"
  have a: "search_inv sfile c0 m" "source_held sfile ?s0 m" "within m" "slots_suffice (m_enc m)" "reached sfile ?s0 m m"
    using m by (simp_all add: extending_def reached_def)
  have keep: "extending sfile c0 x \<and> reached sfile ?s0 m x" if "reached sfile ?s0 m x" "match_state x \<in> {MATCH_BACKWARD, MATCH_FORWARD}" for x
    using reached_keeps [OF a(1-4) that(1)] that by (auto simp: extending_def)
  obtain m1 where m1: "reached sfile ?s0 m m1"
    "extend_back gb m = Some (Extended m1) \<and> match_state m1 = MATCH_FORWARD \<or>
     (\<exists>q. q \<noteq> XD3_OK \<and> extend_back gb m = Some (Waiting q m1)) \<and> match_state m1 = MATCH_BACKWARD"
    using extend_back_reached [OF cl a(5)] m by (auto simp: extending_def)
  from m1(2) show ?thesis
  proof
    assume "(\<exists>q. q \<noteq> XD3_OK \<and> extend_back gb m = Some (Waiting q m1)) \<and> match_state m1 = MATCH_BACKWARD"
    then show ?thesis using keep [OF m1(1)] by (auto simp: xd3_source_extend_match_def)
  next
    assume b: "extend_back gb m = Some (Extended m1) \<and> match_state m1 = MATCH_FORWARD"
    obtain m2 where m2: "reached sfile ?s0 m1 m2"
      "extend_forward u gb m1 = Some (Extended m2) \<and> match_state m2 = MATCH_SEARCHING \<or>
       (\<exists>q. q \<noteq> XD3_OK \<and> extend_forward u gb m1 = Some (Waiting q m2)) \<and> match_state m2 = MATCH_FORWARD"
      using extend_forward_reached [OF cl reached_refl [OF m1(1)]] b by blast
    have r2: "reached sfile ?s0 m m2" by (rule reached_trans [OF m1(1) m2(1)])
    from m2(2) show ?thesis
    proof
      assume "(\<exists>q. q \<noteq> XD3_OK \<and> extend_forward u gb m1 = Some (Waiting q m2)) \<and> match_state m2 = MATCH_FORWARD"
      then show ?thesis using keep [OF r2] b by (auto simp: xd3_source_extend_match_def)
    next
      assume f: "extend_forward u gb m1 = Some (Extended m2) \<and> match_state m2 = MATCH_SEARCHING"
      note k = reached_keeps [OF a(1-4) r2]
      have "match_taken sfile c0 m m'" if "take_match rinst m2 = Extended m'" for m'
        by (rule match_taken_cong [OF take_match_inv [OF _ _ _ _ _ _ that]]) (use k r2 in \<open>auto simp: reached_def\<close>)
      moreover have "encoder_inv sfile c0 (m_enc m2)" "slots_suffice (m_enc m2)" using k by (simp_all add: search_inv_def)
      from take_match_fails [OF this ri] have "err \<noteq> pop_of_empty_list" if "take_match rinst m2 = Failed err" for err
        using that .
      moreover have "take_match rinst m2 \<noteq> Waiting q x" for q x
        by (simp add: take_match_def Let_def split: sum.splits)
      ultimately show ?thesis
        using b f r2 by (cases "take_match rinst m2") (auto simp: xd3_source_extend_match_def)
    qed
  qed
qed

section \<open>Setting the bounds\<close>

text \<open>
  What the caller has before it tries a source position: the position is in the file, the window
  is not larger than the lengths the code can hold, and the greedy algorithm has nothing
  unencoded before the last match.
\<close>

definition can_try :: "bytes \<Rightarrow> u64 \<Rightarrow> xd3_matcher \<Rightarrow> bool" where
  "can_try sfile srcpos m \<longleftrightarrow> unat srcpos \<le> length sfile \<and> length sfile < 2 ^ 63 \<and>
     length (m_next_in m) < 2 ^ 31 \<and> source_held sfile (m_src m) m \<and> slots_suffice (m_enc m) \<and>
     (srcwin_decided (m_enc m) \<longrightarrow> unat (srcbase (m_src m)) + unat (srclen (m_src m)) < 2 ^ 64) \<and>
     (e_flags (m_enc m) AND XD3_BEGREEDY \<noteq> 0 \<longrightarrow>
        unencoded_offset (m_enc m) \<le> xd3_iopt_last_matched (m_enc m) \<and>
        xd3_iopt_last_matched (m_enc m) \<le> input_position m)"

lemma match_limits_fields:
  assumes "search_inv sfile c0 m" "can_try sfile srcpos m"
  shows "unat (unencoded_offset (m_enc m)) + unat (match_maxback (match_limits m)) \<le> ipos m"
    "ipos m + unat (match_maxfwd (match_limits m)) \<le> length (m_next_in m)"
    "match_limits m = m\<lparr>match_maxback := match_maxback (match_limits m), match_maxfwd := match_maxfwd (match_limits m)\<rparr>"
proof -
  let ?l = "if e_flags (m_enc m) AND XD3_BEGREEDY \<noteq> 0 then xd3_iopt_last_matched (m_enc m) else unencoded_offset (m_enc m)"
  have l: "?l \<le> input_position m" "unencoded_offset (m_enc m) \<le> ?l"
    using assms by (auto simp: search_inv_def can_try_def word_le_nat_alt)
  have "unat (input_position m - ?l) = ipos m - unat ?l" by (rule unat_sub_le [OF l(1)])
  then show "unat (unencoded_offset (m_enc m)) + unat (match_maxback (match_limits m)) \<le> ipos m"
    using l by (simp add: match_limits_def Let_def word_le_nat_alt)
  have n: "length (m_next_in m) < 2 ^ 31" "ipos m \<le> length (m_next_in m)"
    using assms by (simp_all add: search_inv_def can_try_def)
  then have a: "unat (e_avail_in (m_enc m)) = length (m_next_in m)"
    by (simp add: unsigned_of_nat take_bit_nat_eq_self)
  then have "unat (e_avail_in (m_enc m) - input_position m) = length (m_next_in m) - ipos m"
    using n by (subst unat_sub_le) (auto simp: word_le_nat_alt)
  then show "ipos m + unat (match_maxfwd (match_limits m)) \<le> length (m_next_in m)"
    using n by (simp add: match_limits_def Let_def)
  show "match_limits m = m\<lparr>match_maxback := match_maxback (match_limits m), match_maxfwd := match_maxfwd (match_limits m)\<rparr>"
    by (simp add: match_limits_def Let_def)
qed

lemma unat_ucast_small: "unat (w :: u64) < 2 ^ 32 \<Longrightarrow> unat (ucast w :: u32) = unat w"
  by (simp add: unsigned_ucast_eq take_bit_nat_eq_self)

text \<open>What a successful setup leaves, whichever way the bounds were cut.\<close>

lemma match_setup_cases:
  assumes st: "xd3_source_match_setup srcpos m = (0, m')"
    and inv: "search_inv sfile c0 m" and ct: "can_try sfile srcpos m"
  shows "\<exists>mb mf. m' = m\<lparr>match_back := 0, match_fwd := 0, match_maxback := mb, match_maxfwd := mf,
      match_state := MATCH_BACKWARD, match_srcpos := srcpos, match_last_srcpos := srcpos\<rparr> \<and>
    unat (unencoded_offset (m_enc m)) + unat mb \<le> ipos m \<and> ipos m + unat mf \<le> length (m_next_in m) \<and>
    unat mb \<le> unat srcpos \<and>
    (srcwin_decided (m_enc m) \<longrightarrow>
       unat (srcbase (m_src m)) + unat mb \<le> unat srcpos \<and>
       unat srcpos + unat mf \<le> unat (srcbase (m_src m)) + unat (srclen (m_src m)))"
proof -
  let ?m0 = "m\<lparr>match_maxback := 0, match_maxfwd := 0, match_back := 0, match_fwd := 0\<rparr>"
  have inv0: "search_inv sfile c0 ?m0" using inv by (simp add: search_inv_def)
  have ct0: "can_try sfile srcpos ?m0" using ct by (simp add: can_try_def source_held_def)
  note l = match_limits_fields [OF inv0 ct0]
  define mb mf where "mb = match_maxback (match_limits ?m0)" and "mf = match_maxfwd (match_limits ?m0)"
  let ?ml = "?m0\<lparr>match_maxback := mb, match_maxfwd := mf\<rparr>"
  have ml: "match_limits ?m0 = ?ml" using l(3) by (simp only: mb_def mf_def)
  have b: "unat (unencoded_offset (m_enc m)) + unat mb \<le> ipos m" "ipos m + unat mf \<le> length (m_next_in m)"
    using l(1,2) by (simp_all add: mb_def mf_def)
  show ?thesis
  proof (cases "srcwin_decided (m_enc m)")
    case False
    define mb1 where "mb1 = (if srcpos < ucast mb then ucast srcpos else mb)"
    define avail where "avail = xd3_source_eof (m_src m) - srcpos"
    define mf1 where "mf1 = (if eof_known (m_src m) \<and> avail < ucast mf then ucast avail else mf)"
    have m': "m' = m\<lparr>match_back := 0, match_fwd := 0, match_maxback := mb1, match_maxfwd := mf1,
      match_state := MATCH_BACKWARD, match_srcpos := srcpos, match_last_srcpos := srcpos\<rparr>"
      using st False unfolding xd3_source_match_setup_def Let_def ml mb1_def mf1_def avail_def
      by (cases "srcpos < ucast mb"; cases "eof_known (m_src m) \<and> xd3_source_eof (m_src m) - srcpos < ucast mf")
        (auto simp: match_bad_def match_good_def split: if_splits)
    have c: "unat mb1 \<le> unat mb" "unat mb1 \<le> unat srcpos" "unat mf1 \<le> unat mf"
      using unat_less_u32 [of mb] unat_less_u32 [of mf]
      by (auto simp: mb1_def mf1_def word_less_nat_alt unat_ucast_u32_u64 unat_ucast_small)
    show ?thesis
    proof (rule exI [of _ mb1], rule exI [of _ mf1], intro conjI)
      show "unat (unencoded_offset (m_enc m)) + unat mb1 \<le> ipos m" using b(1) c(1) by linarith
      show "ipos m + unat mf1 \<le> length (m_next_in m)" using b(2) c(3) by linarith
    qed (use m' c(2) False in simp_all)
  next
    case True
    let ?s = "m_src m"
    define before where "before = (ucast (srcpos - srcbase ?s) :: u32)"
    define after where "after = (ucast (srcbase ?s + ucast (srclen ?s) - srcpos) :: u32)"
    define mb1 where "mb1 = (if before < mb then before else mb)"
    define mf1 where "mf1 = (if after < mf then after else mf)"
    have m': "srcbase ?s \<le> srcpos" "srcpos \<le> srcbase ?s + ucast (srclen ?s)"
      "m' = m\<lparr>match_back := 0, match_fwd := 0, match_maxback := mb1, match_maxfwd := mf1,
      match_state := MATCH_BACKWARD, match_srcpos := srcpos, match_last_srcpos := srcpos\<rparr>"
      using st True unfolding xd3_source_match_setup_def Let_def ml mb1_def mf1_def before_def after_def
      by (auto simp: match_bad_def match_good_def split: if_splits)
    have su: "unat (srcbase ?s + ucast (srclen ?s)) = unat (srcbase ?s) + unat (srclen ?s)"
      using ct True by (subst unat_add_u64) (auto simp: can_try_def unat_ucast_u32_u64)
    have d: "unat (srcpos - srcbase ?s) = unat srcpos - unat (srcbase ?s)"
      "unat (srcbase ?s + ucast (srclen ?s) - srcpos) = unat (srcbase ?s) + unat (srclen ?s) - unat srcpos"
      using unat_sub_le [OF m'(1)] unat_sub_le [OF m'(2)] su by simp_all
    have o: "unat (srcbase ?s) \<le> unat srcpos" "unat srcpos \<le> unat (srcbase ?s) + unat (srclen ?s)"
      using m'(1,2) su by (simp_all add: word_le_nat_alt)
    have w: "unat before = unat srcpos - unat (srcbase ?s)"
      "unat after = unat (srcbase ?s) + unat (srclen ?s) - unat srcpos"
      unfolding before_def after_def using d o unat_less_u32 [of "srclen ?s"] by (subst unat_ucast_small; simp)+
    have c: "unat mb1 \<le> unat mb" "unat mb1 \<le> unat before" "unat mf1 \<le> unat mf" "unat mf1 \<le> unat after"
      by (auto simp: mb1_def mf1_def word_less_nat_alt)
    show ?thesis
    proof (rule exI [of _ mb1], rule exI [of _ mf1], intro conjI impI)
      show "unat (unencoded_offset (m_enc m)) + unat mb1 \<le> ipos m" using b(1) c(1) by linarith
      show "ipos m + unat mf1 \<le> length (m_next_in m)" using b(2) c(3) by linarith
      show "unat mb1 \<le> unat srcpos" using c(2) w(1) by linarith
      show "unat (srcbase ?s) + unat mb1 \<le> unat srcpos" using c(2) w(1) o(1) by linarith
      show "unat srcpos + unat mf1 \<le> unat (srcbase ?s) + unat (srclen ?s)" using c(4) w(2) o(2) by linarith
    qed (rule m'(3))
  qed
qed

lemma match_setup_extending:
  assumes "xd3_source_match_setup srcpos m = (0, m')" "search_inv sfile c0 m" "can_try sfile srcpos m"
  shows "extending sfile c0 m'" "m_enc m' = m_enc m" "input_position m' = input_position m" "min_match m' = min_match m"
proof -
  from match_setup_cases [OF assms] obtain mb mf where
    m': "m' = m\<lparr>match_back := 0, match_fwd := 0, match_maxback := mb, match_maxfwd := mf,
      match_state := MATCH_BACKWARD, match_srcpos := srcpos, match_last_srcpos := srcpos\<rparr>"
    and b: "unat (unencoded_offset (m_enc m)) + unat mb \<le> ipos m" "ipos m + unat mf \<le> length (m_next_in m)"
      "unat mb \<le> unat srcpos" "srcwin_decided (m_enc m) \<longrightarrow>
       unat (srcbase (m_src m)) + unat mb \<le> unat srcpos \<and>
       unat srcpos + unat mf \<le> unat (srcbase (m_src m)) + unat (srclen (m_src m))"
    by (elim exE conjE) (rule that)
  show "extending sfile c0 m'"
    using assms(2,3) b
    by (auto simp: extending_def m' search_inv_def source_held_def in_bounds_def matched_def within_def can_try_def)
  show "m_enc m' = m_enc m" "input_position m' = input_position m" "min_match m' = min_match m"
    by (simp_all add: m')
qed

section \<open>The best match of a chain\<close>

lemma equal_run_take: "take (equal_run xs ys) xs = take (equal_run xs ys) ys"
  by (induction xs ys rule: equal_run.induct) simp_all

lemma equal_run_length: "equal_run xs ys \<le> length xs \<and> equal_run xs ys \<le> length ys"
  by (induction xs ys rule: equal_run.induct) simp_all

text \<open>A pair of length and offset names a match of the window that could not be longer.\<close>

definition earlier_match :: "xd3_matcher \<Rightarrow> u32 \<times> u32 \<Rightarrow> bool" where
  "earlier_match m best \<longleftrightarrow> fst best = 0 \<or>
     snd best < input_position m \<and>
     unat (fst best) = equal_run (drop (ipos m) (m_next_in m)) (drop (unat (snd best)) (m_next_in m))"

lemma smatch_chain_earlier:
  assumes "base < input_position m" "earlier_match m best" and "length (m_next_in m) < 2 ^ 32"
    and "chain = 1 \<or> (\<forall>b. prev_there m b)"
  shows "\<exists>r. smatch_chain m base chain best = Some r \<and> earlier_match m r \<and>
    equal_run (drop (ipos m) (m_next_in m)) (drop (unat base) (m_next_in m)) \<le> unat (fst r) \<and>
    unat (fst best) \<le> unat (fst r)"
  using assms
proof (induction m base chain best rule: smatch_chain.induct)
  case (1 m base chain best)
  define n where "n = equal_run (drop (ipos m) (m_next_in m)) (drop (unat base) (m_next_in m))"
  define best' where "best' = (if of_nat n > fst best then (of_nat n, base) else best)"
  define prev where "prev = the (small_prev m) ! unat (base AND sprevmask m)"
  let ?r = "smatch_chain m base chain best"
  have "n \<le> length (m_next_in m)"
    using conjunct1 [OF equal_run_length, of "drop (ipos m) (m_next_in m)" "drop (unat base) (m_next_in m)"]
    unfolding n_def length_drop by linarith
  then have n: "unat (of_nat n :: u32) = n"
    using "1.prems"(3) by (simp add: unsigned_of_nat take_bit_nat_eq_self)
  have b: "earlier_match m best'" "n \<le> unat (fst best')" "unat (fst best) \<le> unat (fst best')"
    using "1.prems"(1,2) n by (auto simp: best'_def earlier_match_def n_def [symmetric] word_less_nat_alt)
  define go where "go \<longleftrightarrow> \<not> (of_nat n > fst best \<and> (ipos m + n = length (m_next_in m) \<or> of_nat n \<ge> long_enough (smatcher m))) \<and>
    chain - 1 \<noteq> 0 \<and> prev \<noteq> 0 \<and> \<not> prev - HASH_CKOFFSET > base \<and>
    \<not> (input_position m - (prev - HASH_CKOFFSET)) AND NOT (sprevmask m) \<noteq> 0"
  have th: "prev_there m base" if "chain - 1 \<noteq> 0" using "1.prems"(4) that by auto
  have r: "?r = (if go then smatch_chain m (prev - HASH_CKOFFSET) (chain - 1) best' else Some best')"
    using th by (subst smatch_chain.simps) (auto simp: Let_def go_def n_def best'_def prev_def)
  show ?case
  proof (cases go)
    case False
    then show ?thesis using r b by (simp add: n_def)
  next
    case True
    then have p: "prev - HASH_CKOFFSET < input_position m" "\<forall>b. prev_there m b" "prev_there m base"
      using "1.prems"(1,4) by (auto simp: go_def)
    have "\<exists>x. smatch_chain m (prev - HASH_CKOFFSET) (chain - 1) best' = Some x \<and> earlier_match m x \<and>
      unat (fst best') \<le> unat (fst x)"
      using "1.IH" [OF n_def refl best'_def] True b(1) "1.prems"(3) p by (auto simp: go_def prev_def)
    then show ?thesis using r True b by (auto simp: n_def intro: order_trans)
  qed
qed

lemma smatch_chain_found:
  assumes "chains_ok m" "base - HASH_CKOFFSET < input_position m" "length (m_next_in m) < 2 ^ 32"
  shows "\<exists>r. smatch_chain m (base - HASH_CKOFFSET)
    (if min_match m = of_nat MIN_MATCH then small_chain (smatcher m) else small_lchain (smatcher m)) (0, off0) = Some r \<and>
    earlier_match m r"
proof -
  let ?c = "if min_match m = of_nat MIN_MATCH then small_chain (smatcher m) else small_lchain (smatcher m)"
  have "?c = 1 \<or> (\<forall>b. prev_there m b)" using assms(1) prev_thereI by (auto simp: chains_ok_def)
  moreover have "earlier_match m (0, off0)" by (simp add: earlier_match_def)
  ultimately show ?thesis using smatch_chain_earlier [OF assms(2) _ assms(3), of "(0, off0)" ?c] by blast
qed

lemma smatch_total:
  assumes "chains_ok m" "base - HASH_CKOFFSET < input_position m" "length (m_next_in m) < 2 ^ 32"
  shows "xd3_smatch base scksum off0 m \<noteq> None"
  using smatch_chain_found [OF assms, of off0] unfolding xd3_smatch_def Let_def option.map_disc_iff by force

text \<open>What the search returns, when it returns a length, is a match the encoder may use.\<close>

lemma smatch_match_in:
  assumes "chains_ok m" "base - HASH_CKOFFSET < input_position m" "length (m_next_in m) < 2 ^ 32"
    and "xd3_smatch base scksum off0 m = Some (len, off)" "MIN_MATCH \<le> unat len"
  shows "match_in sfile (m_enc m) (copy_inst (input_position m) len (ucast off) False)"
    and "ipos m + unat len \<le> length (m_next_in m)"
proof -
  let ?A = "drop (ipos m) (m_next_in m)" and ?B = "drop (unat off) (m_next_in m)"
  from smatch_chain_found [OF assms(1-3), of off0]
  have "earlier_match m (len, off)"
    using assms(4,5) by (auto simp: xd3_smatch_def Let_def MIN_MATCH_def split: prod.splits if_splits)
  then have e: "off < input_position m" "unat len = equal_run ?A ?B"
    using assms(5) by (auto simp: earlier_match_def MIN_MATCH_def)
  then have t: "take (unat len) ?B = take (unat len) ?A" using equal_run_take [of ?A ?B] by simp
  have l: "unat len \<le> length (m_next_in m) - ipos m" using equal_run_length [of ?A ?B] e(2) by simp
  moreover have "0 < unat len" using assms(5) by (simp add: MIN_MATCH_def)
  ultimately show f: "ipos m + unat len \<le> length (m_next_in m)" by linarith
  show "match_in sfile (m_enc m) (copy_inst (input_position m) len (ucast off) False)"
    using f t assms(3,5) e(1)
    by (simp add: match_in_def true_match_def copy_inst_def in_source_window_def inst_types word_less_nat_alt
        unat_ucast_u32_u64)
qed

section \<open>Properties\<close>

text \<open>C7: After a source position passes the setup, the extension of the match always ends: with
  the invariant of the encoder kept and, if the match is long enough, with a true match
  as the last entry of the buffer, which ends after everything before it; with an error of the code; or waiting for a block, in a state in which the same call
  may be made again. The buffer must be able to give a slot: a full one that cannot grow must hold four entries or
  more, and what a partial flush leaves of them must not overlap.\<close>

theorem extend_match_keeps_invariant:
  assumes "xd3_source_match_setup srcpos m0 = (0, m)" and "search_inv sfile c0 m0" and "can_try sfile srcpos m0"
    and "client_answers sfile gb" and "rinst_fits rinst"
  shows "extending sfile c0 m \<and>
    (\<forall>x. extending sfile c0 x \<longrightarrow>
      (\<exists>r. xd3_source_extend_match u rinst gb x = Some r \<and>
        (case r of Extended m' \<Rightarrow> match_taken sfile c0 x m'
         | Waiting q m' \<Rightarrow> q \<noteq> XD3_OK \<and> extending sfile c0 m' \<and> extends x m'
         | Failed err \<Rightarrow> err \<noteq> pop_of_empty_list)))"
proof (intro conjI allI impI)
  show "extending sfile c0 m" by (rule match_setup_extending(1) [OF assms(1-3)])
  fix x assume "extending sfile c0 x"
  from extend_match_result [OF assms(4) this assms(5), of u] show "\<exists>r. xd3_source_extend_match u rinst gb x = Some r \<and>
        (case r of Extended m' \<Rightarrow> match_taken sfile c0 x m'
         | Waiting q m' \<Rightarrow> q \<noteq> XD3_OK \<and> extending sfile c0 m' \<and> extends x m'
         | Failed err \<Rightarrow> err \<noteq> pop_of_empty_list)"
    by (auto simp: reached_def split: match_outcome.splits)
qed

text \<open>A window of six bytes which the source has at 1, found at its third byte, in blocks of four.\<close>

definition sample_file :: bytes where
  "sample_file = [1, 97, 98, 97, 98, 97, 98, 1]"

definition sample_matcher :: xd3_matcher where
  "sample_matcher =
     \<lparr>winsize = 0, sprevsz = 0, sprevmask = 0, iopt_size = 0, iopt_unlimited = False, smatcher = smatcher_default,
      code_table_desc = None,
      m_enc = before_match\<lparr>e_src := Some ((sample_source 4)\<lparr>shiftby := 2, maskby := 3\<rparr>)\<rparr>,
      large_table = None, large_hash = xd3_size_hashtable 1, small_table = None, small_prev = None, small_reset = False,
      small_hash = xd3_size_hashtable 1, fresh_prev = (\<lambda>n. replicate n 0), total_in = 0, input_position = 2, min_match = 4,
      match_state = MATCH_SEARCHING, match_srcpos = 0, match_last_srcpos = 0, match_back = 0, match_maxback = 0,
      match_fwd = 0, match_maxfwd = 0, maxsrcaddr = 0\<rparr>"

definition sample_extending :: xd3_matcher where
  "sample_extending = sample_matcher\<lparr>match_state := MATCH_BACKWARD, match_srcpos := 3, match_last_srcpos := 3,
     match_maxback := 2, match_maxfwd := 4\<rparr>"

lemma sample_setup: "xd3_source_match_setup 3 sample_matcher = (0, sample_extending)"
  by (simp add: xd3_source_match_setup_def sample_matcher_def sample_extending_def before_match_def sample_encoder_def
      match_limits_def match_good_def sample_source_def)

lemma sample_search_inv: "search_inv sample_file sample_cache sample_matcher"
proof -
  have "wf_encoder (m_enc sample_matcher)"
    using sample_cache_init
    by (simp add: wf_encoder_def sample_matcher_def before_match_def sample_encoder_def sample_page_def)
  then have "encoder_inv sample_file sample_cache (m_enc sample_matcher)"
    using window_begins [of "m_enc sample_matcher" sample_file]
    by (simp add: sample_matcher_def before_match_def sample_encoder_def sample_page_def chain_bytes_def)
  then show ?thesis
    by (simp add: search_inv_def sample_matcher_def before_match_def sample_encoder_def MIN_MATCH_def)
qed

lemma sample_can_try: "can_try sample_file 3 sample_matcher"
  by (simp add: can_try_def sample_file_def sample_matcher_def before_match_def sample_encoder_def source_held_def
      slots_suffice_def wf_source_def frontier_ok_def sample_source_def block_known_def copy_inst_def)

theorem extend_match_keeps_invariant_witness:
  "\<exists>m'. xd3_source_extend_match True 32 (Some (serve_file sample_file)) sample_extending = Some (Extended m') \<and>
     encoder_inv sample_file sample_cache (m_enc m') \<and> iopt_used (m_enc m') = [copy_inst 0 6 1 True]"
proof -
  let ?r = "xd3_source_extend_match True 32 (Some (serve_file sample_file)) sample_extending"
  have "case ?r of Some (Extended m') \<Rightarrow> iopt_used (m_enc m') = [copy_inst 0 6 1 True] | _ \<Rightarrow> False" by code_simp
  then obtain m' where m': "?r = Some (Extended m')" "iopt_used (m_enc m') = [copy_inst 0 6 1 True]"
    by (auto split: option.splits match_outcome.splits)
  have "rinst_fits 32" by (simp add: rinst_fits_def XD3_ALLOCSIZE_def)
  note x = extend_match_keeps_invariant [OF sample_setup sample_search_inv sample_can_try serve_file_answers this, where u = True]
  then have "match_taken sample_file sample_cache sample_extending m'" using m'(1) by fastforce
  then show ?thesis using m' by (auto simp: match_taken_def)
qed

end
