(* ===== verification/Search.thy ===== *)
theory Search
  imports Match
begin

text \<open>
  The search for matches over a window (\<^verbatim>\<open>xdelta3.c\<close>): the checksum tables, the source checksums
  computed ahead of the input, the matcher that the template pass makes for each configuration
  (its constants are those of \<^verbatim>\<open>smatcher\<close>), and the \<^verbatim>\<open>ENC_SEARCH\<close> step of the encoder.
  Whatever is found is a true match, so the invariant of the encoder holds when the window is
  searched through.
\<close>

section \<open>The tables\<close>

definition DO_SMALL :: "xd3_matcher \<Rightarrow> bool" where
  "DO_SMALL m \<longleftrightarrow> e_flags (m_enc m) AND XD3_NOCOMPRESS = 0"

definition DO_LARGE :: "xd3_matcher \<Rightarrow> bool" where
  "DO_LARGE m \<longleftrightarrow> e_src (m_enc m) \<noteq> None"

definition xd3_string_match_init :: "xd3_matcher \<Rightarrow> xd3_ret \<times> xd3_matcher" where
  "xd3_string_match_init m =
     (let allocs = enc_alloc (e_mem (m_enc m));
          large_size = unat (xd3_hash_cfg.h_size (large_hash m)); small_size = unat (xd3_hash_cfg.h_size (small_hash m))
      in if DO_LARGE m \<and> large_table m = None \<and> \<not> allocs ''usize_t'' large_size then (ENOMEM, m)
         else
           (let m1 = (if DO_LARGE m \<and> large_table m = None
                      then m\<lparr>large_table := Some (replicate large_size 0)\<rparr> else m)
            in if \<not> DO_SMALL m then (XD3_OK, m1)
               else if small_table m1 \<noteq> None
               then (XD3_OK, if small_reset m1
                             then m1\<lparr>small_reset := False, small_table := Some (replicate small_size 0)\<rparr> else m1)
               else if \<not> allocs ''usize_t'' small_size then (ENOMEM, m1)
               else
                 (let m2 = m1\<lparr>small_table := Some (replicate small_size 0)\<rparr>
                  in if small_lchain (smatcher m) > 1 \<or> small_chain (smatcher m) > 1
                     then
                       (if \<not> allocs ''xd3_slist'' (unat (sprevsz m)) then (ENOMEM, m2)
                        else (XD3_OK, m2\<lparr>small_prev := Some (fresh_prev m (unat (sprevsz m)))\<rparr>))
                     else (XD3_OK, m2))))"

text \<open>The table of source checksums keeps the low 32 bits of a position.\<close>

definition xd3_source_cksum_offset :: "xd3_matcher \<Rightarrow> u32 \<Rightarrow> u64" where
  "xd3_source_cksum_offset m low =
     (let scp = srcwin_cksum_pos (m_enc m); s0 = drop_bit 32 scp; sr = (ucast scp :: u32)
      in if s0 = 0 then ucast low
         else if low > sr then push_bit 32 (s0 - 1) OR ucast low
         else push_bit 32 s0 OR ucast low)"

section \<open>Source checksums\<close>

definition set_cksum_pos :: "u64 \<Rightarrow> xd3_matcher \<Rightarrow> xd3_matcher" where
  "set_cksum_pos pos m = m\<lparr>m_enc := (m_enc m)\<lparr>srcwin_cksum_pos := pos\<rparr>\<rparr>"

text \<open>A block, from its back: \<open>None\<close> when the fuel is used up, as with a step of 0.\<close>

fun insert_block ::
    "nat \<Rightarrow> xd3_hash_cfg \<Rightarrow> u32 \<Rightarrow> u32 \<Rightarrow> bytes \<Rightarrow> u64 \<Rightarrow> int \<Rightarrow> int \<Rightarrow> u32 list \<Rightarrow> u32 list option" where
  "insert_block 0 cfg look step blk blkbaseoffset oldpos blkpos table = None"
| "insert_block (Suc k) cfg look step blk blkbaseoffset oldpos blkpos table =
     (let cksum = xd3_lcksum (drop (nat blkpos) blk) (unat look);
          hval = xd3_checksum_hash cfg cksum;
          table' = table[unat hval := ucast (blkbaseoffset + word_of_int (blkpos + 1))];
          blkpos' = blkpos - int (unat step)
      in if blkpos' \<ge> oldpos then insert_block k cfg look step blk blkbaseoffset oldpos blkpos' table'
         else Some table')"

text \<open>One block per round.\<close>

fun cksum_loop :: "getblk_func option \<Rightarrow> nat \<Rightarrow> u64 \<Rightarrow> xd3_matcher \<Rightarrow> match_outcome option" where
  "cksum_loop gb 0 logical m = None"
| "cksum_loop gb (Suc k) logical m =
     (let pos = srcwin_cksum_pos (m_enc m)
      in if \<not> (pos < logical \<and> (\<not> eof_known (m_src m) \<or> pos < xd3_source_eof (m_src m))) then Some (Extended m)
         else
           (let (blkno, blkrem) = xd3_blksize_div pos (m_src m);
                (ret, m1) = matcher_getblk gb blkno m
            in if ret = XD3_TOOFARBACK then Some (Waiting XD3_INTERNAL m1)
               else if ret \<noteq> XD3_OK then Some (Waiting ret m1)
               else
                 (let source = m_src m1; cfg = smatcher m1;
                      blkpos = int (unat (xd3_bytes_on_srcblk source blkno));
                      after = (blkno + 1) * ucast (blksize source)
                  in if blkpos < int (unat (large_look cfg)) then cksum_loop gb k logical (set_cksum_pos after m1)
                     else
                       (case insert_block (Suc (nat blkpos)) (large_hash m1) (large_look cfg) (large_step cfg)
                               (the (curblk source)) (ucast (blksize source) * blkno) (int (unat blkrem))
                               (blkpos - int (unat (large_look cfg))) (the (large_table m1)) of
                          None \<Rightarrow> None
                        | Some table \<Rightarrow>
                            cksum_loop gb k logical (set_cksum_pos after (m1\<lparr>large_table := Some table\<rparr>))))))"

declare cksum_loop.simps(2) [simp del]

text \<open>The second result is \<^verbatim>\<open>*next_move_point\<close>.\<close>

definition xd3_srcwin_move_point ::
    "getblk_func option \<Rightarrow> u32 \<Rightarrow> xd3_matcher \<Rightarrow> (match_outcome \<times> u32) option" where
  "xd3_srcwin_move_point gb next_move_point m =
     (let source = m_src m; pos = srcwin_cksum_pos (m_enc m); here = total_in m + ucast (input_position m)
      in if eof_known source \<and> pos = xd3_source_eof source then Some (Extended m, - 1)
         else
           (let logical = min (here * 2) (here + drop_bit 1 (max_winsize source))
            in if pos > logical then Some (Extended m, input_position m + ucast (pos - logical))
               else
                 (let m1 = (if maxsrcaddr m > pos then set_cksum_pos (maxsrcaddr m) m else m);
                      pos1 = srcwin_cksum_pos (m_enc m1);
                      logical1 = (if logical < pos1 then pos1 else logical);
                      logical2 = logical1 + ucast (blksize source)
                  in case cksum_loop gb (Suc (unat (logical2 - pos1))) logical2 m1 of
                       Some (Extended m2) \<Rightarrow>
                         (let source = m_src m2; pos2 = srcwin_cksum_pos (m_enc m2)
                          in if eof_known source \<and> pos2 \<ge> xd3_source_eof source
                             then Some (Extended (set_cksum_pos (xd3_source_eof source) m2), - 1)
                             else Some (Extended m2, input_position m2 + 1 + ucast (pos2 - logical2)))
                     | Some r \<Rightarrow> Some (r, next_move_point)
                     | None \<Rightarrow> None)))"

section \<open>The matcher\<close>

definition MIN_RUN :: u32 where "MIN_RUN = 8"

record search_locals =
  scksum :: u32
  scksum_state :: u32
  lcksum :: u32
  run :: "u32 \<times> u8"
  next_move :: u32
  match_offset :: u32

text \<open>Where control goes next: out of the function, to a label, or on.\<close>

datatype search_step =
    Finished "match_outcome option"
  | Restart xd3_matcher search_locals
  | Update xd3_matcher search_locals
  | Onward xd3_matcher search_locals

definition HANDLELAZY :: "u32 \<Rightarrow> xd3_matcher \<Rightarrow> search_locals \<Rightarrow> search_step" where
  "HANDLELAZY mlen m l =
     (if max_lazy (smatcher m) > 0 \<and> mlen < max_lazy (smatcher m) \<and>
         input_position m + mlen \<le> e_avail_in (m_enc m) - 2
      then Update (m\<lparr>min_match := mlen\<rparr>) l
      else Restart (m\<lparr>input_position := input_position m + mlen\<rparr>) l)"

definition search_inp :: "xd3_matcher \<Rightarrow> bytes" where
  "search_inp m = drop (unat (input_position m)) (m_next_in m)"

text \<open>The run, expanded to its end: its new length.\<close>

definition run_extent :: "xd3_matcher \<Rightarrow> u32 \<times> u8 \<Rightarrow> u32" where
  "run_extent m r = fst r + of_nat (length (takeWhile (\<lambda>b. b = snd r) (drop (unat (fst r)) (search_inp m))))"

definition search_run :: "nat \<Rightarrow> xd3_matcher \<Rightarrow> search_locals \<Rightarrow> search_step" where
  "search_run rinst m l =
     (if fst (run l) = small_look (smatcher m)
      then
        (let run_l = run_extent m (run l);
             l1 = l\<lparr>run := (run_l, snd (run l))\<rparr>
         in if run_l \<ge> min_match m \<and> run_l \<ge> MIN_RUN
            then
              (case xd3_emit_run rinst (input_position m) run_l (snd (run l)) (m_enc m) of
                 Inl err \<Rightarrow> Finished (Some (Failed err))
               | Inr e \<Rightarrow> HANDLELAZY run_l (m\<lparr>m_enc := e\<rparr>) l1)
            else Onward m l1)
      else Onward m l)"

definition search_large :: "bool \<Rightarrow> nat \<Rightarrow> getblk_func option \<Rightarrow> xd3_matcher \<Rightarrow> search_locals \<Rightarrow> search_step" where
  "search_large u rinst gb m l =
     (if DO_LARGE m \<and> input_position m + large_look (smatcher m) \<le> e_avail_in (m_enc m)
      then
        (case (if input_position m \<ge> next_move l then xd3_srcwin_move_point gb (next_move l) m
               else Some (Extended m, next_move l)) of
           None \<Rightarrow> Finished None
         | Some (Extended m, point) \<Rightarrow>
             (let l = l\<lparr>next_move := point\<rparr>;
                  v = the (large_table m) ! unat (xd3_checksum_hash (large_hash m) (lcksum l))
              in if v = 0 then Onward m l
                 else
                   (case xd3_source_match_setup (xd3_source_cksum_offset m (v - HASH_CKOFFSET)) m of
                      (ret, m) \<Rightarrow>
                        if ret \<noteq> 0 then Onward m l
                        else
                          (case xd3_source_extend_match u rinst gb m of
                             Some (Extended m) \<Rightarrow>
                               if match_fwd m > 0 then HANDLELAZY (match_fwd m) m l else Onward m l
                           | r \<Rightarrow> Finished r)))
         | Some (r, point) \<Rightarrow> Finished (Some r))
      else Onward m l)"

definition search_small :: "nat \<Rightarrow> xd3_matcher \<Rightarrow> search_locals \<Rightarrow> search_step" where
  "search_small rinst m l =
     (if DO_SMALL m
      then
        (let sinx = xd3_checksum_hash (small_hash m) (scksum l);
             v = the (small_table m) ! unat sinx;
             found = (if v \<noteq> 0 then xd3_smatch v (scksum l) (match_offset l) m else Some (0, match_offset l))
         in (case found of
               None \<Rightarrow> Finished None
             | Some (len, off) \<Rightarrow>
                 (let l = l\<lparr>match_offset := off\<rparr>;
                      m = xd3_scksum_insert sinx (scksum l) (input_position m) m
                  in if len \<ge> min_match m
                     then
                       (case xd3_found_match rinst (input_position m) len (ucast off) False (m_enc m) of
                          Inl err \<Rightarrow> Finished (Some (Failed err))
                        | Inr e \<Rightarrow> HANDLELAZY len (m\<lparr>m_enc := e\<rparr>) l)
                     else Onward m l)))
      else Onward m l)"

definition min_less :: "xd3_matcher \<Rightarrow> xd3_matcher" where
  "min_less m = (if min_match m > of_nat MIN_MATCH then m\<lparr>min_match := min_match m - 1\<rparr> else m)"

text \<open>One round of the loop, up to \<^verbatim>\<open>updateone\<close>.\<close>

definition search_round :: "bool \<Rightarrow> nat \<Rightarrow> getblk_func option \<Rightarrow> xd3_matcher \<Rightarrow> search_locals \<Rightarrow> search_step" where
  "search_round u rinst gb m l =
     (case search_run rinst m l of
        Onward m l \<Rightarrow>
          (case search_large u rinst gb m l of
             Onward m l \<Rightarrow>
               (case search_small rinst m l of
                  Onward m l \<Rightarrow>
                    Update (min_less m) l
                | r \<Rightarrow> r)
           | r \<Rightarrow> r)
      | r \<Rightarrow> r)"

text \<open>\<^verbatim>\<open>updateone\<close> and the increment of the loop.\<close>

definition search_update :: "xd3_matcher \<Rightarrow> search_locals \<Rightarrow> search_step" where
  "search_update m l =
     (let look = small_look (smatcher m)
      in if input_position m + look = e_avail_in (m_enc m) then Finished (Some (Extended m))
         else
           (let inp = search_inp m;
                l1 = l\<lparr>run := NEXTRUN (inp ! unat look) (run l)\<rparr>;
                (st, ck) = (if DO_SMALL m then xd3_small_cksum_update (scksum_state l1) inp
                            else (scksum_state l1, scksum l1));
                lc = (if DO_LARGE m \<and> input_position m + large_look (smatcher m) < e_avail_in (m_enc m)
                      then xd3_large_cksum_update (lcksum l1) inp (unat (large_look (smatcher m))) else lcksum l1)
            in Onward (m\<lparr>input_position := input_position m + 1\<rparr>)
                 (l1\<lparr>scksum_state := st, scksum := ck, lcksum := lc\<rparr>)))"

text \<open>From \<^verbatim>\<open>restartloop\<close> to the loop.\<close>

definition search_restart :: "getblk_func option \<Rightarrow> xd3_matcher \<Rightarrow> search_locals \<Rightarrow> search_step" where
  "search_restart gb m l =
     (let look = small_look (smatcher m); far = large_look (smatcher m); last_end = xd3_iopt_last_matched (m_enc m)
      in if input_position m + look > e_avail_in (m_enc m) then Finished (Some (Extended m))
         else
           (let m = m\<lparr>min_match := (if last_end > input_position m
                                    then max (of_nat MIN_MATCH) (1 + last_end - input_position m)
                                    else of_nat MIN_MATCH)\<rparr>;
                inp = search_inp m;
                (st, ck) = (if DO_SMALL m then xd3_scksum inp else (scksum_state l, scksum l));
                l = l\<lparr>scksum_state := st, scksum := ck, run := xd3_comprun inp (unat look)\<rparr>
            in if DO_LARGE m \<and> input_position m + far \<le> e_avail_in (m_enc m)
               then
                 (case xd3_srcwin_move_point gb (next_move l) m of
                    None \<Rightarrow> Finished None
                  | Some (Extended m, point) \<Rightarrow>
                      Onward m (l\<lparr>next_move := point, lcksum := xd3_lcksum inp (unat far)\<rparr>)
                  | Some (r, point) \<Rightarrow> Finished (Some r))
               else Onward m l))"

text \<open>\<open>None\<close> when the fuel is used up; every round moves the input position.\<close>

fun search_loop ::
    "bool \<Rightarrow> nat \<Rightarrow> getblk_func option \<Rightarrow> nat \<Rightarrow> xd3_matcher \<Rightarrow> search_locals \<Rightarrow> match_outcome option" where
  "search_loop u rinst gb 0 m l = None"
| "search_loop u rinst gb (Suc k) m l =
     (case (case search_round u rinst gb m l of
              Restart m l \<Rightarrow> search_restart gb m l
            | Update m l \<Rightarrow> search_update m l
            | r \<Rightarrow> r) of
        Onward m l \<Rightarrow> search_loop u rinst gb k m l
      | Finished r \<Rightarrow> r
      | _ \<Rightarrow> None)"

declare search_loop.simps(2) [simp del]

definition xd3_string_match :: "bool \<Rightarrow> nat \<Rightarrow> getblk_func option \<Rightarrow> xd3_matcher \<Rightarrow> match_outcome option" where
  "xd3_string_match u rinst gb m =
     (if input_position m + small_look (smatcher m) > e_avail_in (m_enc m) then Some (Extended m)
      else
        (case xd3_string_match_init m of
           (ret, m) \<Rightarrow>
             if ret \<noteq> XD3_OK then Some (Failed (ret, snd oom))
             else
               (case search_restart gb m \<lparr>scksum = 0, scksum_state = 0, lcksum = 0, run = (0, 0), next_move = 0,
                       match_offset = 0\<rparr> of
                  Onward m l \<Rightarrow> search_loop u rinst gb (Suc (length (m_next_in m))) m l
                | Finished r \<Rightarrow> r
                | _ \<Rightarrow> None)))"

section \<open>The step of the encoder\<close>

text \<open>The first three cases of the switch on \<^verbatim>\<open>match_state\<close>, with their fall through.\<close>

definition search_target :: "xd3_matcher \<Rightarrow> xd3_matcher" where
  "search_target m =
     (if match_state m = MATCH_TARGET
      then
        (if m_next_in m \<noteq> []
         then (snd (xd3_source_match_setup (match_srcpos m) m))\<lparr>match_state := MATCH_FORWARD\<rparr>
         else m\<lparr>match_state := MATCH_SEARCHING, match_fwd := 0\<rparr>)
      else m)"

definition search_reenter :: "bool \<Rightarrow> nat \<Rightarrow> getblk_func option \<Rightarrow> xd3_matcher \<Rightarrow> match_outcome option" where
  "search_reenter u rinst gb m =
     (if e_src (m_enc m) = None \<or> match_state m = MATCH_SEARCHING then Some (Extended m)
      else if m_next_in m = [] then Some (Extended (search_target m))
      else
        (case xd3_source_extend_match u rinst gb (search_target m) of
           Some (Extended m) \<Rightarrow> Some (Extended (m\<lparr>input_position := input_position m + match_fwd m\<rparr>))
         | r \<Rightarrow> r))"

definition enc_SEARCH :: "bool \<Rightarrow> nat \<Rightarrow> getblk_func option \<Rightarrow> xd3_matcher \<Rightarrow> match_outcome option" where
  "enc_SEARCH u rinst gb m =
     (case search_reenter u rinst gb m of
        Some (Extended m) \<Rightarrow>
          (case (if m_next_in m \<noteq> [] then xd3_string_match u rinst gb m else Some (Extended m)) of
             Some (Extended m) \<Rightarrow> Some (Extended (m\<lparr>m_enc := (m_enc m)\<lparr>e_state := ENC_INSTR\<rparr>\<rparr>))
           | r \<Rightarrow> r)
      | r \<Rightarrow> r)"

section \<open>What a new entry of the buffer leaves alone\<close>

text \<open>Slots that can grow are never flushed while the window is searched.\<close>

definition slots_frame :: "xd3_encoder \<Rightarrow> xd3_encoder \<Rightarrow> bool" where
  "slots_frame e e' \<longleftrightarrow> e' = e\<lparr>iopt_used := iopt_used e', iopt_free := iopt_free e', i_slots_used := i_slots_used e',
     e_iopt_size := e_iopt_size e'\<rparr>"

lemma slots_frame_fields:
  assumes "slots_frame e e'"
  shows "e_next_in e' = e_next_in e" "e_src e' = e_src e" "e_flags e' = e_flags e" "e_iopt_unlimited e' = e_iopt_unlimited e"
    "srcwin_decided e' = srcwin_decided e" "unencoded_offset e' = unencoded_offset e" "srcwin_cksum_pos e' = srcwin_cksum_pos e"
    "e_mem e' = e_mem e" "match_minaddr e' = match_minaddr e" "match_maxaddr e' = match_maxaddr e"
    "hdr_sec e' = hdr_sec e"
  using assms unfolding slots_frame_def by (cases e; cases e'; simp)+

lemma get_slot_frame:
  assumes "xd3_iopt_get_slot rinst e = Inr (ri, e')" "e_iopt_unlimited e"
  shows "slots_frame e e'"
  using assms
  by (auto simp: xd3_iopt_get_slot_def xd3_alloc_iopt_def Let_def err_then_Inr slots_frame_def split: if_splits)

lemma found_match_frame:
  assumes "xd3_found_match rinst pos sz addr b e = Inr e'" "e_iopt_unlimited e"
  shows "slots_frame e e'"
proof -
  obtain ri f us where "xd3_iopt_get_slot rinst e = Inr (ri, f)" "e' = f\<lparr>iopt_used := us\<rparr>"
    using assms(1) by (auto simp: xd3_found_match_def err_then_Inr)
  then show ?thesis
    using get_slot_frame [OF _ assms(2)] unfolding slots_frame_def by (cases e; cases f; cases e') auto
qed

lemma emit_run_frame:
  assumes "xd3_emit_run rinst pos sz c e = Inr e'" "e_iopt_unlimited e"
  shows "slots_frame e e'"
proof -
  obtain ri f us where "xd3_iopt_get_slot rinst e = Inr (ri, f)" "e' = f\<lparr>iopt_used := us\<rparr>"
    using assms(1) by (auto simp: xd3_emit_run_def err_then_Inr)
  then show ?thesis
    using get_slot_frame [OF _ assms(2)] unfolding slots_frame_def by (cases e; cases f; cases e') auto
qed

text \<open>A run, as a match in \<open>Buffer\<close>.\<close>

lemma emit_run_inv:
  assumes "encoder_inv sfile c0 e" and "iopt_free e = [] \<and> \<not> e_iopt_unlimited e \<longrightarrow> can_flush e"
    and "\<And>ri. match_in sfile e (ri\<lparr>r_type := of_nat XD3_RUN, r_xtra := c, r_pos := pos, r_size := sz\<rparr>)"
    and "if iopt_used e = [] then unat (unencoded_offset e) \<le> unat pos
      else pos_of (last (iopt_used e)) < unat pos \<and> end_of (last (iopt_used e)) < unat pos + unat sz"
    and "xd3_emit_run rinst pos sz c e = Inr e'"
  shows "encoder_inv sfile c0 e' \<and>
    (\<exists>r. iopt_used e' \<noteq> [] \<and> last (iopt_used e') = r \<and> r_pos r = pos \<and> r_size r = sz)"
proof -
  obtain ri f where f: "xd3_iopt_get_slot rinst e = Inr (ri, f)" "e' = f\<lparr>iopt_used := iopt_used f @
         [ri\<lparr>r_type := of_nat XD3_RUN, r_xtra := c, r_pos := pos, r_size := sz\<rparr>]\<rparr>"
    using assms(5) unfolding xd3_emit_run_def by (elim err_thenE) (auto split: prod.splits)
  note g = get_slot_inv [OF f(1) assms(1,2)]
  have m: "match_in sfile f (ri\<lparr>r_type := of_nat XD3_RUN, r_xtra := c, r_pos := pos, r_size := sz\<rparr>)"
    using g assms(3) by blast
  have "encoder_inv sfile c0 e'"
    unfolding f(2) by (rule append_entry) (use g m assms(4) in \<open>auto simp: next_entry_def\<close>)
  then show ?thesis by (simp add: f(2))
qed

section \<open>What the search keeps\<close>

text \<open>The source checksums: their positions are in the file, and the next one is not past its end by more than a block.\<close>

definition cksum_ok :: "bytes \<Rightarrow> xd3_matcher \<Rightarrow> bool" where
  "cksum_ok sfile m \<longleftrightarrow>
     unat (srcwin_cksum_pos (m_enc m)) \<le> length sfile + unat (blksize (m_src m)) \<and>
     (\<not> eof_known (m_src m) \<longrightarrow> unat (srcwin_cksum_pos (m_enc m)) \<le> length sfile) \<and>
     unat (maxsrcaddr m) \<le> length sfile \<and>
     (\<forall>t. large_table m = Some t \<longrightarrow>
        length t = unat (xd3_hash_cfg.h_size (large_hash m)) \<and> (\<forall>v\<in>set t. unat v \<le> length sfile))"

text \<open>The array of previous positions is as large as its mask says, and there as soon as the table is, when
  chains are to be followed.\<close>

definition prev_ok :: "xd3_matcher \<Rightarrow> bool" where
  "prev_ok m \<longleftrightarrow> 0 < unat (small_chain (smatcher m)) \<and> 0 < unat (small_lchain (smatcher m)) \<and>
     (small_lchain (smatcher m) > 1 \<or> small_chain (smatcher m) > 1 \<longrightarrow> sprevmask m < sprevsz m) \<and>
     (\<forall>n. length (fresh_prev m n) = n) \<and> (small_table m \<noteq> None \<longrightarrow> chains_ok m)"

lemma prev_ok_simps [simp]:
  "prev_ok (m\<lparr>m_enc := e\<rparr>) = prev_ok m" "prev_ok (m\<lparr>input_position := p\<rparr>) = prev_ok m"
  "prev_ok (m\<lparr>min_match := p\<rparr>) = prev_ok m" "prev_ok (m\<lparr>large_table := t\<rparr>) = prev_ok m"
  "prev_ok (m\<lparr>match_state := st\<rparr>) = prev_ok m" "prev_ok (m\<lparr>match_fwd := p\<rparr>) = prev_ok m"
  "prev_ok (m\<lparr>match_back := p\<rparr>) = prev_ok m" "prev_ok (m\<lparr>match_maxback := p\<rparr>) = prev_ok m"
  "prev_ok (m\<lparr>match_maxfwd := p\<rparr>) = prev_ok m" "prev_ok (m\<lparr>match_srcpos := q\<rparr>) = prev_ok m"
  "prev_ok (m\<lparr>match_last_srcpos := q\<rparr>) = prev_ok m" "prev_ok (m\<lparr>maxsrcaddr := q\<rparr>) = prev_ok m"
  "prev_ok (m\<lparr>small_reset := b\<rparr>) = prev_ok m"
  by (simp_all add: prev_ok_def chains_ok_def)

text \<open>What does not change: the window \<open>T\<close>, the header section \<open>H\<close>, the configuration.\<close>

definition search_fixed :: "bytes \<Rightarrow> bytes \<Rightarrow> xd3_output list \<Rightarrow> xd3_matcher \<Rightarrow> bool" where
  "search_fixed sfile T H m \<longleftrightarrow> m_next_in m = T \<and> hdr_sec (m_enc m) = H \<and> length T < 2 ^ 31 \<and> length sfile < 2 ^ 31 \<and>
     e_iopt_unlimited (m_enc m) \<and> e_flags (m_enc m) AND XD3_BEGREEDY = 0 \<and> \<not> srcwin_decided (m_enc m) \<and>
     0 < unat (large_look (smatcher m)) \<and> 0 < unat (large_step (smatcher m)) \<and> unat (large_look (smatcher m)) < 2 ^ 31 \<and>
     unat (small_look (smatcher m)) < 2 ^ 31 \<and> 0 < unat (small_look (smatcher m)) \<and>
     (\<exists>n. large_hash m = xd3_size_hashtable n) \<and> (\<exists>n. small_hash m = xd3_size_hashtable n) \<and> prev_ok m \<and>
     (e_src (m_enc m) \<noteq> None \<longrightarrow> source_held sfile (m_src m) m \<and> cksum_ok sfile m)"

definition small_ok :: "nat \<Rightarrow> xd3_matcher \<Rightarrow> bool" where
  "small_ok n m \<longleftrightarrow> (DO_SMALL m \<longrightarrow> (\<forall>t. small_table m = Some t \<longrightarrow>
     length t = unat (xd3_hash_cfg.h_size (small_hash m)) \<and> (\<forall>v\<in>set t. unat v \<le> n)))"

definition small_ready :: "xd3_matcher \<Rightarrow> bool" where
  "small_ready m \<longleftrightarrow> (DO_SMALL m \<longrightarrow> small_table m \<noteq> None) \<and>
     (DO_LARGE m \<longrightarrow> large_table m \<noteq> None)"

definition state_ok :: "bytes \<Rightarrow> xd3_matcher \<Rightarrow> bool" where
  "state_ok sfile m \<longleftrightarrow> (e_src (m_enc m) \<noteq> None \<longrightarrow>
     match_state m = MATCH_SEARCHING \<or> match_state m = MATCH_TARGET \<and> spos m \<le> length sfile)"

definition search_at :: "bytes \<Rightarrow> xd3_addr_cache \<Rightarrow> xd3_matcher \<Rightarrow> bool" where
  "search_at sfile c0 m \<longleftrightarrow> encoder_inv sfile c0 (m_enc m) \<and> unat (unencoded_offset (m_enc m)) \<le> ipos m \<and>
     ipos m \<le> length (m_next_in m) \<and> (iopt_used (m_enc m) \<noteq> [] \<longrightarrow> pos_of (last (iopt_used (m_enc m))) < ipos m)"

lemma search_inv_at:
  "search_inv sfile c0 m \<longleftrightarrow> search_at sfile c0 m \<and> MIN_MATCH \<le> unat (min_match m) \<and>
     (iopt_used (m_enc m) \<noteq> [] \<longrightarrow> end_of (last (iopt_used (m_enc m))) < ipos m + unat (min_match m))"
  by (auto simp: search_inv_def search_at_def)

text \<open>The bytes the run scan has seen last are those of the run, as far as they are looked at.\<close>

definition run_ok :: "xd3_matcher \<Rightarrow> search_locals \<Rightarrow> bool" where
  "run_ok m l \<longleftrightarrow> ipos m + unat (small_look (smatcher m)) \<le> length (m_next_in m) \<and>
     (\<forall>k. k < unat (fst (run l)) \<and> k < unat (small_look (smatcher m)) \<longrightarrow>
        m_next_in m ! (ipos m + unat (small_look (smatcher m)) - 1 - k) = snd (run l))"

definition loop_inv :: "bytes \<Rightarrow> xd3_addr_cache \<Rightarrow> bytes \<Rightarrow> xd3_output list \<Rightarrow> xd3_matcher \<Rightarrow> search_locals \<Rightarrow> bool" where
  "loop_inv sfile c0 T H m l \<longleftrightarrow> search_inv sfile c0 m \<and> search_fixed sfile T H m \<and> small_ok (ipos m) m \<and> small_ready m \<and>
     state_ok sfile m \<and> run_ok m l"

text \<open>At \<^verbatim>\<open>updateone\<close>, before the position moves.\<close>

definition update_inv :: "bytes \<Rightarrow> xd3_addr_cache \<Rightarrow> bytes \<Rightarrow> xd3_output list \<Rightarrow> xd3_matcher \<Rightarrow> search_locals \<Rightarrow> bool" where
  "update_inv sfile c0 T H m l \<longleftrightarrow> encoder_inv sfile c0 (m_enc m) \<and> unat (unencoded_offset (m_enc m)) \<le> ipos m \<and>
     (iopt_used (m_enc m) \<noteq> [] \<longrightarrow> pos_of (last (iopt_used (m_enc m))) \<le> ipos m \<and>
        end_of (last (iopt_used (m_enc m))) \<le> ipos m + unat (min_match m)) \<and>
     MIN_MATCH \<le> unat (min_match m) \<and> search_fixed sfile T H m \<and> small_ok (ipos m + 1) m \<and> small_ready m \<and>
     state_ok sfile m \<and> run_ok m l"

text \<open>What the step can be entered with: with \<^verbatim>\<open>small_reset\<close> set, the table is cleared before it is used.\<close>

definition may_enter :: "bytes \<Rightarrow> xd3_addr_cache \<Rightarrow> bytes \<Rightarrow> xd3_output list \<Rightarrow> xd3_matcher \<Rightarrow> bool" where
  "may_enter sfile c0 T H m \<longleftrightarrow> search_inv sfile c0 m \<and> search_fixed sfile T H m \<and> (small_reset m \<or> small_ok (ipos m) m) \<and>
     (e_src (m_enc m) \<noteq> None \<longrightarrow> state_ok sfile m \<or> extending sfile c0 m)"

definition outcome_ok :: "bytes \<Rightarrow> xd3_addr_cache \<Rightarrow> bytes \<Rightarrow> xd3_output list \<Rightarrow> match_outcome option \<Rightarrow> bool" where
  "outcome_ok sfile c0 T H r \<longleftrightarrow>
     (case r of
        None \<Rightarrow> False
      | Some (Extended m) \<Rightarrow> encoder_inv sfile c0 (m_enc m) \<and> search_fixed sfile T H m
      | Some (Waiting q m) \<Rightarrow> q \<noteq> XD3_OK \<and> may_enter sfile c0 T H m
      | Some (Failed err) \<Rightarrow> err \<noteq> pop_of_empty_list)"

definition step_ok :: "bytes \<Rightarrow> xd3_addr_cache \<Rightarrow> bytes \<Rightarrow> xd3_output list \<Rightarrow> nat \<Rightarrow> search_step \<Rightarrow> bool" where
  "step_ok sfile c0 T H p s \<longleftrightarrow>
     (case s of
        Finished r \<Rightarrow> outcome_ok sfile c0 T H r
      | Restart m l \<Rightarrow> search_at sfile c0 m \<and> search_fixed sfile T H m \<and> small_ok (ipos m) m \<and> small_ready m \<and>
          state_ok sfile m \<and> p < ipos m
      | Update m l \<Rightarrow> update_inv sfile c0 T H m l \<and> ipos m = p
      | Onward m l \<Rightarrow> loop_inv sfile c0 T H m l \<and> ipos m = p)"

lemma fixed_avail: "search_fixed sfile T H m \<Longrightarrow> unat (e_avail_in (m_enc m)) = length T"
  by (simp add: search_fixed_def unsigned_of_nat take_bit_nat_eq_self)

text \<open>A new entry at the position, of a length that ends after the last one.\<close>

definition new_entry :: "bytes \<Rightarrow> xd3_addr_cache \<Rightarrow> nat \<Rightarrow> xd3_matcher \<Rightarrow> bool" where
  "new_entry sfile c0 n m \<longleftrightarrow> encoder_inv sfile c0 (m_enc m) \<and> MIN_MATCH \<le> n \<and> ipos m + n \<le> length (m_next_in m) \<and>
     iopt_used (m_enc m) \<noteq> [] \<and> pos_of (last (iopt_used (m_enc m))) \<le> ipos m \<and>
     end_of (last (iopt_used (m_enc m))) = ipos m + n \<and> unat (unencoded_offset (m_enc m)) \<le> ipos m"

lemma handle_lazy_ok:
  assumes n: "new_entry sfile c0 (unat mlen) m" and f: "search_fixed sfile T H m" and s: "small_ok (ipos m + 1) m"
    "small_ready m" "state_ok sfile m" "run_ok m l" and p: "ipos m = p"
  shows "step_ok sfile c0 T H p (HANDLELAZY mlen m l)"
proof (cases "max_lazy (smatcher m) > 0 \<and> mlen < max_lazy (smatcher m) \<and> input_position m + mlen \<le> e_avail_in (m_enc m) - 2")
  case True
  then have "HANDLELAZY mlen m l = Update (m\<lparr>min_match := mlen\<rparr>) l" by (simp add: HANDLELAZY_def)
  moreover have "search_fixed sfile T H (m\<lparr>min_match := mlen\<rparr>)"
    using f by (simp add: search_fixed_def source_held_def cksum_ok_def)
  ultimately show ?thesis
    using n s p by (simp add: step_ok_def update_inv_def new_entry_def small_ok_def small_ready_def DO_SMALL_def DO_LARGE_def
        state_ok_def run_ok_def)
next
  case False
  let ?m = "m\<lparr>input_position := input_position m + mlen\<rparr>"
  have "HANDLELAZY mlen m l = Restart ?m l" using False by (auto simp: HANDLELAZY_def)
  moreover have i: "unat (input_position m + mlen) = ipos m + unat mlen"
    using n f by (subst unat_add_u32) (auto simp: new_entry_def search_fixed_def)
  moreover have "search_fixed sfile T H ?m"
    using f by (simp add: search_fixed_def source_held_def cksum_ok_def)
  moreover have "0 < unat mlen" using n by (simp add: new_entry_def MIN_MATCH_def)
  moreover from this have "small_ok (ipos m + unat mlen) ?m"
    using s(1) by (fastforce simp: small_ok_def DO_SMALL_def)
  ultimately show ?thesis
    using n s p by (simp add: step_ok_def search_at_def new_entry_def small_ready_def DO_SMALL_def DO_LARGE_def state_ok_def)
qed

lemma new_entryI:
  assumes "encoder_inv sfile c0 (m_enc m)" "iopt_used (m_enc m) \<noteq> []" "pos_of (last (iopt_used (m_enc m))) \<le> ipos m"
    "end_of (last (iopt_used (m_enc m))) = ipos m + n" "MIN_MATCH \<le> n" "ipos m + n \<le> length (m_next_in m)"
  shows "new_entry sfile c0 n m"
proof -
  have "unat (unencoded_offset (m_enc m)) \<le> pos_of (hd (iopt_used (m_enc m)))" "staggered (iopt_used (m_enc m))"
    using assms(1,2) by (simp_all add: encoder_inv_def)
  moreover have "hd (iopt_used (m_enc m)) \<in> set (iopt_used (m_enc m))" using assms(2) by simp
  ultimately have "unat (unencoded_offset (m_enc m)) \<le> pos_of (last (iopt_used (m_enc m)))"
    using staggered_starts order_trans by blast
  then show ?thesis using assms by (simp add: new_entry_def)
qed

text \<open>Only the buffer's fields of the encoder change.\<close>

lemma slots_keep:
  assumes "slots_frame (m_enc m) e"
  shows "search_fixed sfile T H m \<Longrightarrow> search_fixed sfile T H (m\<lparr>m_enc := e\<rparr>)"
    "small_ok n (m\<lparr>m_enc := e\<rparr>) = small_ok n m" "small_ready (m\<lparr>m_enc := e\<rparr>) = small_ready m"
    "state_ok sfile (m\<lparr>m_enc := e\<rparr>) = state_ok sfile m" "run_ok (m\<lparr>m_enc := e\<rparr>) l = run_ok m l"
  using slots_frame_fields [OF assms]
  by (simp_all add: search_fixed_def source_held_def cksum_ok_def small_ok_def small_ready_def DO_SMALL_def DO_LARGE_def state_ok_def
      run_ok_def)

lemma run_bytes:
  assumes r: "run_ok m l" "fst (run l) = small_look (smatcher m)" and k: "k < unat (small_look (smatcher m))"
  shows "m_next_in m ! (ipos m + k) = snd (run l)"
proof -
  let ?s = "unat (small_look (smatcher m))"
  have "?s - 1 - k < unat (fst (run l)) \<and> ?s - 1 - k < ?s" using r(2) k by simp
  then have "m_next_in m ! (ipos m + ?s - 1 - (?s - 1 - k)) = snd (run l)"
    using conjunct2 [OF r(1) [unfolded run_ok_def]] by blast
  moreover have "ipos m + ?s - 1 - (?s - 1 - k) = ipos m + k" using k by linarith
  ultimately show ?thesis by (simp only:)
qed

lemma run_extent_bytes:
  assumes ro: "run_ok m l" "fst (run l) = small_look (smatcher m)" and len: "length (m_next_in m) < 2 ^ 31"
  shows "unat (fst (run l)) \<le> unat (run_extent m (run l))"
    and "ipos m + unat (run_extent m (run l)) \<le> length (m_next_in m)"
    and "k < unat (run_extent m (run l)) \<Longrightarrow> m_next_in m ! (ipos m + k) = snd (run l)"
proof -
  let ?n = "fst (run l)" and ?c = "snd (run l)"
  define rest where "rest = drop (unat ?n) (search_inp m)"
  let ?w = "takeWhile (\<lambda>b. b = ?c) rest"
  have fit: "ipos m + unat ?n \<le> length (m_next_in m)" using ro by (simp add: run_ok_def)
  have tw: "length ?w \<le> length (m_next_in m) - ipos m - unat ?n"
    using length_takeWhile_le [of "\<lambda>b. b = ?c" rest] by (simp add: rest_def search_inp_def)
  then have un: "unat (of_nat (length ?w) :: u32) = length ?w"
    using len by (simp add: unsigned_of_nat take_bit_nat_eq_self)
  have n': "unat (run_extent m (run l)) = unat ?n + length ?w"
    using tw len fit un unfolding run_extent_def rest_def [symmetric] by (subst unat_add_u32) auto
  show "unat ?n \<le> unat (run_extent m (run l))" using n' by simp
  show "ipos m + unat (run_extent m (run l)) \<le> length (m_next_in m)" using n' tw fit by linarith
  show "m_next_in m ! (ipos m + k) = ?c" if k: "k < unat (run_extent m (run l))"
  proof (cases "k < unat ?n")
    case True
    then show ?thesis using run_bytes [OF ro] ro(2) by simp
  next
    case False
    let ?j = "k - unat ?n"
    have j: "?j < length ?w" using k False n' by linarith
    then have "?w ! ?j \<in> set ?w" by (rule nth_mem)
    then have "?w ! ?j = ?c" by (auto dest: set_takeWhileD)
    then have "rest ! ?j = ?c" using takeWhile_nth [OF j] by simp
    moreover have "rest ! ?j = m_next_in m ! (ipos m + unat ?n + ?j)"
      using fit by (simp add: rest_def search_inp_def ac_simps)
    moreover have "ipos m + unat ?n + ?j = ipos m + k" using False by linarith
    ultimately show ?thesis by simp
  qed
qed

lemma run_match_in:
  assumes "run_ok m l" "fst (run l) = small_look (smatcher m)" "length (m_next_in m) < 2 ^ 31"
    "MIN_MATCH \<le> unat (run_extent m (run l))"
  shows "match_in sfile (m_enc m) (ri\<lparr>r_type := of_nat XD3_RUN, r_xtra := snd (run l), r_pos := input_position m,
    r_size := run_extent m (run l)\<rparr>)"
proof -
  note b = run_extent_bytes [OF assms(1-3)]
  have "list_all (\<lambda>b. b = snd (run l)) (take (unat (run_extent m (run l))) (drop (ipos m) (m_next_in m)))"
    unfolding list_all_length
  proof (intro allI impI)
    fix k assume "k < length (take (unat (run_extent m (run l))) (drop (ipos m) (m_next_in m)))"
    then have "k < unat (run_extent m (run l))" by simp
    then show "take (unat (run_extent m (run l))) (drop (ipos m) (m_next_in m)) ! k = snd (run l)"
      using b(2,3) by simp
  qed
  then show ?thesis
    using b(2) assms(3,4) by (simp add: match_in_def true_match_def in_source_window_def inst_types)
qed

lemma small_ok_later: "small_ok n m \<Longrightarrow> n \<le> n' \<Longrightarrow> small_ok n' m"
  by (fastforce simp: small_ok_def)

text \<open>An entry just made at the position: control goes on by \<^verbatim>\<open>HANDLELAZY\<close>.\<close>

lemma entry_made_ok:
  assumes inv: "search_fixed sfile T H m" "small_ok (ipos m + 1) m" "small_ready m" "state_ok sfile m" "run_ok m l"
    and fr: "slots_frame (m_enc m) e" and n: "MIN_MATCH \<le> unat n" "ipos m + unat n \<le> length T"
    and e: "encoder_inv sfile c0 e" "iopt_used e \<noteq> []" "r_pos (last (iopt_used e)) = input_position m"
      "r_size (last (iopt_used e)) = n"
  shows "step_ok sfile c0 T H (ipos m) (HANDLELAZY n (m\<lparr>m_enc := e\<rparr>) l)"
proof (rule handle_lazy_ok)
  note k = slots_keep [OF fr]
  show "search_fixed sfile T H (m\<lparr>m_enc := e\<rparr>)" by (rule k(1) [OF inv(1)])
  have "m_next_in m = T" using inv(1) by (simp add: search_fixed_def)
  then show "new_entry sfile c0 (unat n) (m\<lparr>m_enc := e\<rparr>)"
    using e n slots_frame_fields(1) [OF fr] by (intro new_entryI) simp_all
  show "small_ok (ipos (m\<lparr>m_enc := e\<rparr>) + 1) (m\<lparr>m_enc := e\<rparr>)" using inv(2) k(2) by simp
qed (use inv slots_keep [OF fr] in simp_all)

lemma before_new:
  assumes "search_inv sfile c0 m" "unat (min_match m) \<le> n"
  shows "if iopt_used (m_enc m) = [] then unat (unencoded_offset (m_enc m)) \<le> ipos m
      else pos_of (last (iopt_used (m_enc m))) < ipos m \<and> end_of (last (iopt_used (m_enc m))) < ipos m + n"
  using assms by (auto simp: search_inv_def)

lemma fixed_slot: "search_fixed sfile T H m \<Longrightarrow> rinst_fits rinst \<Longrightarrow> slot_comes rinst (m_enc m)"
  by (simp add: search_fixed_def slot_comes_def)

lemma search_run_ok:
  assumes inv: "loop_inv sfile c0 T H m l" and ri: "rinst_fits rinst"
  shows "step_ok sfile c0 T H (ipos m) (search_run rinst m l)"
proof -
  have fx: "search_fixed sfile T H m" and si: "search_inv sfile c0 m" and ro: "run_ok m l"
    and sm: "small_ok (ipos m) m" "small_ready m" "state_ok sfile m"
    using inv by (simp_all add: loop_inv_def)
  show ?thesis
  proof (cases "fst (run l) = small_look (smatcher m)")
    case False
    then have "search_run rinst m l = Onward m l" by (simp add: search_run_def)
    then show ?thesis using inv by (simp add: step_ok_def)
  next
    case True
    define n where "n = run_extent m (run l)"
    let ?l = "l\<lparr>run := (n, snd (run l))\<rparr>"
    have len: "length (m_next_in m) < 2 ^ 31" "m_next_in m = T" using fx by (simp_all add: search_fixed_def)
    note b = run_extent_bytes [OF ro True len(1), folded n_def]
    have ro': "run_ok m ?l"
      using ro b(1) True unfolding run_ok_def by simp
    have sr: "search_run rinst m l = (if n \<ge> min_match m \<and> n \<ge> MIN_RUN
              then
                (case xd3_emit_run rinst (input_position m) n (snd (run l)) (m_enc m) of
                   Inl err \<Rightarrow> Finished (Some (Failed err))
                 | Inr e \<Rightarrow> HANDLELAZY n (m\<lparr>m_enc := e\<rparr>) ?l)
              else Onward m ?l)"
      unfolding search_run_def if_P [OF True] n_def Let_def by (rule refl)
    show ?thesis
    proof (cases "n \<ge> min_match m \<and> n \<ge> MIN_RUN")
      case False
      then have "search_run rinst m l = Onward m ?l" by (simp only: sr if_False)
      then show ?thesis using ro' fx si sm by (simp add: step_ok_def loop_inv_def)
    next
      case long: True
      show ?thesis
      proof (cases "xd3_emit_run rinst (input_position m) n (snd (run l)) (m_enc m)")
        case (Inl err)
        then have "search_run rinst m l = Finished (Some (Failed err))" unfolding sr if_P [OF long] by simp
        moreover have "err \<noteq> pop_of_empty_list"
          using not_pop [OF new_entry_fails(2) [OF fixed_slot [OF fx ri]]] Inl by force
        ultimately show ?thesis by (simp add: step_ok_def outcome_ok_def)
      next
        case (Inr e)
        have mm: "unat (min_match m) \<le> unat n" using long by (simp add: word_le_nat_alt)
        then have m4: "MIN_MATCH \<le> unat n" using si by (simp add: search_inv_def)
        have "iopt_free (m_enc m) = [] \<and> \<not> e_iopt_unlimited (m_enc m) \<longrightarrow> can_flush (m_enc m)"
          using fx by (simp add: search_fixed_def)
        from emit_run_inv [OF conjunct1 [OF si [unfolded search_inv_def]] this run_match_in [OF ro True len(1) m4 [unfolded n_def], folded n_def] before_new [OF si mm] Inr]
        have e: "encoder_inv sfile c0 e \<and> (\<exists>r. iopt_used e \<noteq> [] \<and> last (iopt_used e) = r \<and> r_pos r = input_position m \<and> r_size r = n)" .
        have fr: "slots_frame (m_enc m) e" by (rule emit_run_frame [OF Inr]) (use fx in \<open>simp add: search_fixed_def\<close>)
        have "step_ok sfile c0 T H (ipos m) (HANDLELAZY n (m\<lparr>m_enc := e\<rparr>) ?l)"
          by (rule entry_made_ok [OF fx _ sm(2,3) ro' fr m4]) (use e b(2) len(2) small_ok_later [OF sm(1)] in auto)
        moreover have "search_run rinst m l = HANDLELAZY n (m\<lparr>m_enc := e\<rparr>) ?l"
          unfolding sr if_P [OF long] Inr by simp
        ultimately show ?thesis by simp
      qed
    qed
  qed
qed

section \<open>A match in the window\<close>

lemma insert_keeps:
  assumes "xd3_scksum_insert inx ck pos m = m1"
  shows "m1 = m\<lparr>small_prev := small_prev m1, small_table := Some ((the (small_table m))[unat inx := pos + HASH_CKOFFSET])\<rparr>"
  using assms by (auto simp: xd3_scksum_insert_def Let_def split: option.splits)

lemma insert_prev:
  assumes "xd3_scksum_insert inx ck pos m = m1" "prev_ok m" "small_table m \<noteq> None"
  shows "prev_ok m1"
  using assms by (auto simp: xd3_scksum_insert_def Let_def prev_ok_def chains_ok_def split: option.splits)

lemma insert_ok:
  assumes i: "xd3_scksum_insert inx ck (input_position m) m = m1" and inv: "loop_inv sfile c0 T H m l" and sm: "DO_SMALL m"
  shows "search_inv sfile c0 m1" "search_fixed sfile T H m1" "small_ok (ipos m + 1) m1" "small_ready m1" "state_ok sfile m1"
    "run_ok m1 l'= run_ok m l'" "m_enc m1 = m_enc m" "input_position m1 = input_position m" "min_match m1 = min_match m"
proof -
  note m1 = insert_keeps [OF i]
  obtain t where t: "small_table m = Some t" "length t = unat (xd3_hash_cfg.h_size (small_hash m))" "\<forall>v\<in>set t. unat v \<le> ipos m"
    using inv sm by (auto simp: loop_inv_def small_ok_def small_ready_def)
  show f: "m_enc m1 = m_enc m" "input_position m1 = input_position m" "min_match m1 = min_match m"
    by (subst m1, simp)+
  show "search_inv sfile c0 m1" using inv f by (simp add: loop_inv_def search_inv_def)
  have "prev_ok m1" using insert_prev [OF i] inv t(1) by (simp add: loop_inv_def search_fixed_def)
  then have pr: "prev_ok (m\<lparr>small_prev := small_prev m1, small_table := Some ((the (small_table m))[unat inx := input_position m + HASH_CKOFFSET])\<rparr>)"
    by (simp only: m1 [symmetric])
  show "search_fixed sfile T H m1" "state_ok sfile m1" "run_ok m1 l'= run_ok m l'"
    using inv pr by (subst m1; simp add: loop_inv_def search_fixed_def source_held_def cksum_ok_def state_ok_def run_ok_def)+
  have ip: "unat (input_position m + HASH_CKOFFSET) = ipos m + 1"
    using inv by (subst unat_add_u32) (auto simp: loop_inv_def search_fixed_def search_inv_def HASH_CKOFFSET_def)
  have "\<forall>v\<in>set (t[unat inx := input_position m + HASH_CKOFFSET]). unat v \<le> ipos m + 1"
    using t(3) ip set_update_subset_insert [of t "unat inx" "input_position m + HASH_CKOFFSET"] by fastforce
  then show "small_ok (ipos m + 1) m1"
    using t by (subst m1) (simp add: small_ok_def)
  show "small_ready m1" using inv by (subst m1) (simp add: loop_inv_def small_ready_def DO_SMALL_def DO_LARGE_def)
qed

lemma min_match_keeps:
  "search_fixed sfile T H (m\<lparr>min_match := k\<rparr>) = search_fixed sfile T H m"
  "small_ok n (m\<lparr>min_match := k\<rparr>) = small_ok n m" "small_ready (m\<lparr>min_match := k\<rparr>) = small_ready m"
  "state_ok sfile (m\<lparr>min_match := k\<rparr>) = state_ok sfile m" "run_ok (m\<lparr>min_match := k\<rparr>) l = run_ok m l"
  by (simp_all add: search_fixed_def source_held_def cksum_ok_def small_ok_def small_ready_def DO_SMALL_def DO_LARGE_def
      state_ok_def run_ok_def)

lemma min_less_ok:
  assumes si: "search_inv sfile c0 m" and rest: "search_fixed sfile T H m" "small_ok (ipos m + 1) m" "small_ready m"
    "state_ok sfile m" "run_ok m l"
  shows "step_ok sfile c0 T H (ipos m) (Update (min_less m) l)"
proof -
  define k where "k = min_match (min_less m)"
  have f: "min_less m = m\<lparr>min_match := k\<rparr>" by (simp add: min_less_def k_def)
  have "unat k = (if MIN_MATCH < unat (min_match m) then unat (min_match m) - 1 else unat (min_match m))"
    by (auto simp: k_def min_less_def word_less_nat_alt MIN_MATCH_def unat_sub_le word_le_nat_alt)
  then have k: "MIN_MATCH \<le> unat k" "unat (min_match m) \<le> unat k + 1"
    using si by (auto simp: search_inv_def)
  show ?thesis
    unfolding step_ok_def f search_step.case update_inv_def min_match_keeps
    using k si rest by (auto simp: search_inv_def)
qed

lemma search_small_ok:
  assumes inv: "loop_inv sfile c0 T H m l" and ri: "rinst_fits rinst"
  shows "step_ok sfile c0 T H (ipos m) (case search_small rinst m l of Onward m l \<Rightarrow> Update (min_less m) l | r \<Rightarrow> r)"
proof -
  have fx: "search_fixed sfile T H m" and si: "search_inv sfile c0 m" and ro: "run_ok m l"
    and sm: "small_ok (ipos m) m" "small_ready m" "state_ok sfile m"
    using inv by (simp_all add: loop_inv_def)
  show ?thesis
  proof (cases "DO_SMALL m")
    case False
    then have "search_small rinst m l = Onward m l" by (simp add: search_small_def)
    then show ?thesis using min_less_ok [OF si fx small_ok_later [OF sm(1)] sm(2,3) ro] by simp
  next
    case True
    define sinx where "sinx = xd3_checksum_hash (small_hash m) (scksum l)"
    define v where "v = the (small_table m) ! unat sinx"
    have len: "length (m_next_in m) < 2 ^ 32" "m_next_in m = T" using fx by (simp_all add: search_fixed_def)
    obtain t k where t: "small_table m = Some t" "length t = unat (xd3_hash_cfg.h_size (small_hash m))"
      "\<forall>v\<in>set t. unat v \<le> ipos m" "small_hash m = xd3_size_hashtable k" "chains_ok m"
      using sm True fx by (auto simp: small_ok_def small_ready_def search_fixed_def prev_ok_def)
    have vb: "v - HASH_CKOFFSET < input_position m" if "v \<noteq> 0"
    proof -
      have "unat sinx < length t" using checksum_hash_in_table [of k "scksum l"] t by (simp add: sinx_def)
      then have "v \<in> set t" using t(1) by (simp add: v_def)
      then have "unat v \<le> ipos m" using t(3) by blast
      moreover have "0 < unat v" using that by (simp add: unat_gt_0)
      ultimately have "unat (v - HASH_CKOFFSET) < ipos m"
        using that by (simp add: HASH_CKOFFSET_def unat_minus_one)
      then show ?thesis by (simp add: word_less_nat_alt)
    qed
    obtain n off where no: "(if v \<noteq> 0 then xd3_smatch v (scksum l) (match_offset l) m else Some (0, match_offset l)) = Some (n, off)"
      using smatch_total [OF t(5) vb len(1)] by fastforce
    let ?l = "l\<lparr>match_offset := off\<rparr>"
    define m1 where "m1 = xd3_scksum_insert sinx (scksum l) (input_position m) m"
    note i = insert_ok [OF m1_def [symmetric] inv True]
    have ro1: "run_ok m1 ?l" using ro i(6) [of ?l] by (simp add: run_ok_def)
    have sk: "scksum ?l = scksum l" by simp
    have ss: "search_small rinst m l = (if n \<ge> min_match m1
            then
              (case xd3_found_match rinst (input_position m1) n (ucast off) False (m_enc m1) of
                 Inl err \<Rightarrow> Finished (Some (Failed err))
               | Inr e \<Rightarrow> HANDLELAZY n (m1\<lparr>m_enc := e\<rparr>) ?l)
            else Onward m1 ?l)"
      unfolding search_small_def if_P [OF True] Let_def sinx_def [symmetric] v_def [symmetric] no option.case prod.case
        sk m1_def [symmetric] by (rule refl)
    show ?thesis
    proof (cases "n \<ge> min_match m1")
      case False
      then have "search_small rinst m l = Onward m1 ?l" by (simp only: ss if_False)
      then show ?thesis using min_less_ok [OF i(1,2) _ i(4,5) ro1] i(3,8) by simp
    next
      case long: True
      then have mm: "unat (min_match m) \<le> unat n" using i(9) by (simp add: word_le_nat_alt)
      then have m4: "MIN_MATCH \<le> unat n" using si by (simp add: search_inv_def)
      then have v0: "v \<noteq> 0" using no by (auto simp: MIN_MATCH_def)
      have smt: "xd3_smatch v (scksum l) (match_offset l) m = Some (n, off)" using no v0 by simp
      note mi = smatch_match_in [OF t(5) vb [OF v0] len(1) smt m4]
      show ?thesis
      proof (cases "xd3_found_match rinst (input_position m1) n (ucast off) False (m_enc m1)")
        case (Inl err)
        then have "search_small rinst m l = Finished (Some (Failed err))" unfolding ss if_P [OF long] by simp
        moreover have "err \<noteq> pop_of_empty_list"
          using not_pop [OF new_entry_fails(1) [OF fixed_slot [OF i(2) ri]]] Inl by force
        ultimately show ?thesis by (simp add: step_ok_def outcome_ok_def)
      next
        case (Inr e)
        have "iopt_free (m_enc m) = [] \<and> \<not> e_iopt_unlimited (m_enc m) \<longrightarrow> can_flush (m_enc m)"
          using fx by (simp add: search_fixed_def)
        from found_match_inv [OF conjunct1 [OF si [unfolded search_inv_def]] this mi(1) before_new [OF si mm] Inr [unfolded i(7,8)]]
        have e: "encoder_inv sfile c0 e \<and> (\<exists>r. iopt_used e \<noteq> [] \<and> last (iopt_used e) = r \<and> r_pos r = input_position m \<and> r_size r = n)" .
        have fr: "slots_frame (m_enc m1) e"
          by (rule found_match_frame [OF Inr]) (use i(2) in \<open>simp add: search_fixed_def\<close>)
        have "step_ok sfile c0 T H (ipos m1) (HANDLELAZY n (m1\<lparr>m_enc := e\<rparr>) ?l)"
          by (rule entry_made_ok [OF i(2) _ i(4,5) ro1 fr m4]) (use e mi(2) len(2) i(3,8) in auto)
        moreover have "search_small rinst m l = HANDLELAZY n (m1\<lparr>m_enc := e\<rparr>) ?l"
          unfolding ss if_P [OF long] Inr by simp
        moreover have "HANDLELAZY n x y \<noteq> Onward a b" for x y a b by (simp add: HANDLELAZY_def)
        ultimately show ?thesis using i(8) by (auto split: search_step.splits)
      qed
    qed
  qed
qed

section \<open>The source checksums\<close>

lemma insert_block_ok:
  assumes "0 < unat step" "0 \<le> blkpos" "0 \<le> oldpos" "nat blkpos < k"
  shows "\<exists>t'. insert_block k cfg look step blk base oldpos blkpos t = Some t' \<and> length t' = length t \<and>
    (\<forall>v\<in>set t'. v \<in> set t \<or> (\<exists>p. 0 \<le> p \<and> p \<le> blkpos \<and> v = ucast (base + word_of_int (p + 1))))"
  using assms(2,4)
proof (induction k arbitrary: blkpos t)
  case (Suc k)
  define h where "h = unat (xd3_checksum_hash cfg (xd3_lcksum (drop (nat blkpos) blk) (unat look)))"
  define x where "x = (ucast (base + word_of_int (blkpos + 1)) :: u32)"
  let ?b = "blkpos - int (unat step)"
  have e: "insert_block (Suc k) cfg look step blk base oldpos blkpos t =
      (if ?b \<ge> oldpos then insert_block k cfg look step blk base oldpos ?b (t[h := x]) else Some (t[h := x]))"
    by (simp add: h_def x_def Let_def)
  have s: "v \<in> set t \<or> v = x" if "v \<in> set (t[h := x])" for v
    using that set_update_subset_insert [of t h x] by blast
  show ?case
  proof (cases "?b \<ge> oldpos")
    case False
    then show ?thesis using e s Suc.prems(1) x_def by fastforce
  next
    case True
    have b0: "0 \<le> ?b" using True assms(3) by (rule order.trans [rotated])
    moreover have "?b < blkpos" using assms(1) by linarith
    ultimately have "nat ?b < nat blkpos" by (subst nat_mono_iff) auto
    then have "nat ?b < k" using Suc.prems(2) by linarith
    from Suc.IH [OF b0 this, of "t[h := x]"] obtain t' where t': "insert_block k cfg look step blk base oldpos ?b (t[h := x]) = Some t'" "length t' = length t"
      "\<forall>v\<in>set t'. v \<in> set (t[h := x]) \<or> (\<exists>p. 0 \<le> p \<and> p \<le> ?b \<and> v = ucast (base + word_of_int (p + 1)))"
      by (elim exE conjE) (rule that, assumption, simp only: length_list_update, assumption)
    have "v \<in> set t \<or> (\<exists>p. 0 \<le> p \<and> p \<le> blkpos \<and> v = ucast (base + word_of_int (p + 1)))" if v: "v \<in> set t'" for v
    proof -
      consider "v \<in> set t" | "v = x" | p where "0 \<le> p" "p \<le> ?b" "v = ucast (base + word_of_int (p + 1))"
        using t'(3) v s by blast
      then show ?thesis
      proof cases
        case 2
        then show ?thesis using Suc.prems(1) by (auto simp: x_def)
      next
        case (3 p)
        then have "p \<le> blkpos" by linarith
        then show ?thesis using 3 by blast
      qed simp
    qed
    then show ?thesis using e True t'(1,2) by auto
  qed
qed simp

lemma source_eof_exact:
  assumes "frontier_ok sfile s" "length sfile < 2 ^ 31"
  shows "unat (xd3_source_eof s) \<le> length sfile"
proof -
  have l: "unat (max_blkno s) * unat (blksize s) + unat (onlastblk s) \<le> length sfile"
    using assms(1) by (simp add: frontier_ok_def)
  have "unat (ucast (blksize s) * max_blkno s) = unat (max_blkno s) * unat (blksize s)"
    using l assms(2) by (simp add: unat_mult_lem [THEN iffD1] unat_ucast_u32_u64 mult.commute)
  then have "unat (xd3_source_eof s) = unat (max_blkno s) * unat (blksize s) + unat (onlastblk s)"
    unfolding xd3_source_eof_def using l assms(2) by (subst unat_add_u64) (auto simp: unat_ucast_u32_u64)
  then show ?thesis using l by simp
qed

lemma block_known_of_end:
  assumes s: "s = note_last (note_frontier x n) n" and x: "frontier_ok sfile x" and h: "holds_block sfile s n"
    and n: "unat n * unat (blksize s) \<le> length sfile" "length sfile < 2 ^ 31" "0 < unat (blksize s)"
  shows "unat n * unat (blksize s) + unat (xd3_bytes_on_srcblk s n) \<le> length sfile"
    and "\<not> eof_known s \<Longrightarrow> (unat n + 1) * unat (blksize s) \<le> length sfile"
proof -
  have b: "blksize s = blksize x" "onblk s = onblk x" by (simp_all add: s note_last_def note_frontier_def Let_def)
  have ob: "unat (onblk s) = min (unat (blksize s)) (length sfile - unat n * unat (blksize s))"
    by (rule block_size(1) [OF h])
  have hx: "holds_block sfile x n" using h note_bounds(2) s by simp
  have fs: "frontier_ok sfile s" unfolding s by (rule note_frontier_ok [OF x hx]) (use n b in simp_all)
  have fx: "unat (frontier_blkno x) \<le> unat (max_blkno x) + 1" "unat (frontier_blkno x) * unat (blksize x) \<le> length sfile"
    using x by (simp_all add: frontier_ok_def)
  have mx: "unat n \<le> unat (max_blkno s)"
    using fx(1) by (auto simp: s note_last_def note_frontier_def Let_def word_le_nat_alt word_less_nat_alt)
  have upto: "(unat n + 1) * unat (blksize s) \<le> length sfile" if "unat n + 1 \<le> k" "k * unat (blksize s) \<le> length sfile" for k
    using mult_le_mono1 [OF that(1), of "unat (blksize s)"] that(2) by linarith
  show "unat n * unat (blksize s) + unat (xd3_bytes_on_srcblk s n) \<le> length sfile"
  proof (cases "n = max_blkno s")
    case True
    then show ?thesis using fs by (simp add: xd3_bytes_on_srcblk_def frontier_ok_def)
  next
    case False
    then have "unat n + 1 \<le> unat (max_blkno s)" using mx by (metis Suc_eq_plus1 Suc_leI le_neq_implies_less word_unat_eq_iff)
    then have "(unat n + 1) * unat (blksize s) \<le> length sfile"
      by (rule upto) (use fs in \<open>simp add: frontier_ok_def\<close>)
    then show ?thesis using False by (simp add: xd3_bytes_on_srcblk_def add.commute)
  qed
  show "(unat n + 1) * unat (blksize s) \<le> length sfile" if e: "\<not> eof_known s"
  proof (cases "n \<ge> frontier_blkno x")
    case True
    then have "onblk s = blksize s" using e by (auto simp: s note_last_def note_frontier_def Let_def split: if_splits)
    then show ?thesis using ob n(1) by (simp add: min_def split: if_splits)
  next
    case False
    then have "unat n + 1 \<le> unat (frontier_blkno x)" by (simp add: word_le_nat_alt)
    then show ?thesis by (rule upto) (use fx(2) b(1) in simp)
  qed
qed

text \<open>What changes when the source checksums are computed.\<close>

definition moved :: "bytes \<Rightarrow> xd3_matcher \<Rightarrow> xd3_matcher \<Rightarrow> bool" where
  "moved sfile m m' \<longleftrightarrow> m' = m\<lparr>large_table := large_table m',
     m_enc := (m_enc m)\<lparr>e_src := e_src (m_enc m'), srcwin_cksum_pos := srcwin_cksum_pos (m_enc m')\<rparr>\<rparr> \<and>
   source_held sfile (m_src m) m' \<and> cksum_ok sfile m' \<and> large_table m' \<noteq> None"

lemma moved_trans:
  assumes "moved sfile m m1" "moved sfile m1 m2"
  shows "moved sfile m m2"
proof -
  have "m2 = m\<lparr>large_table := large_table m2,
     m_enc := (m_enc m)\<lparr>e_src := e_src (m_enc m2), srcwin_cksum_pos := srcwin_cksum_pos (m_enc m2)\<rparr>\<rparr>"
    using assms unfolding moved_def
    by (cases m; cases m1; cases m2; cases "m_enc m"; cases "m_enc m1"; cases "m_enc m2") simp
  moreover have "source_held sfile (m_src m) m2"
    using assms by (auto simp: moved_def source_held_def intro: same_bounds_trans)
  ultimately show ?thesis using assms(2) by (simp add: moved_def)
qed

lemma moved_prev:
  assumes "moved sfile m m'"
  shows "prev_ok m' = prev_ok m"
proof -
  have "m' = m\<lparr>large_table := large_table m',
     m_enc := (m_enc m)\<lparr>e_src := e_src (m_enc m'), srcwin_cksum_pos := srcwin_cksum_pos (m_enc m')\<rparr>\<rparr>"
    using assms by (simp add: moved_def)
  from arg_cong [OF this, of prev_ok] show ?thesis by simp
qed

lemma moved_fields:
  assumes "moved sfile m m'"
  shows "smatcher m' = smatcher m" "large_hash m' = large_hash m" "input_position m' = input_position m"
    "min_match m' = min_match m" "m_next_in m' = m_next_in m" "match_state m' = match_state m" "match_srcpos m' = match_srcpos m"
    "small_table m' = small_table m" "small_reset m' = small_reset m" "small_hash m' = small_hash m"
    "hdr_sec (m_enc m') = hdr_sec (m_enc m)" "e_flags (m_enc m') = e_flags (m_enc m)"
    "e_iopt_unlimited (m_enc m') = e_iopt_unlimited (m_enc m)" "srcwin_decided (m_enc m') = srcwin_decided (m_enc m)"
    "unencoded_offset (m_enc m') = unencoded_offset (m_enc m)" "iopt_used (m_enc m') = iopt_used (m_enc m)"
    "iopt_free (m_enc m') = iopt_free (m_enc m)" "maxsrcaddr m' = maxsrcaddr m" "total_in m' = total_in m"
proof -
  have "m' = m\<lparr>large_table := large_table m',
     m_enc := (m_enc m)\<lparr>e_src := e_src (m_enc m'), srcwin_cksum_pos := srcwin_cksum_pos (m_enc m')\<rparr>\<rparr>"
    using assms by (simp add: moved_def)
  then show "smatcher m' = smatcher m" "large_hash m' = large_hash m" "input_position m' = input_position m"
    "min_match m' = min_match m" "m_next_in m' = m_next_in m" "match_state m' = match_state m" "match_srcpos m' = match_srcpos m"
    "small_table m' = small_table m" "small_reset m' = small_reset m" "small_hash m' = small_hash m"
    "hdr_sec (m_enc m') = hdr_sec (m_enc m)" "e_flags (m_enc m') = e_flags (m_enc m)"
    "e_iopt_unlimited (m_enc m') = e_iopt_unlimited (m_enc m)" "srcwin_decided (m_enc m') = srcwin_decided (m_enc m)"
    "unencoded_offset (m_enc m') = unencoded_offset (m_enc m)" "iopt_used (m_enc m') = iopt_used (m_enc m)"
    "iopt_free (m_enc m') = iopt_free (m_enc m)" "maxsrcaddr m' = maxsrcaddr m" "total_in m' = total_in m"
    by (cases m; cases m'; cases "m_enc m"; cases "m_enc m'"; simp)+
qed

lemma set_cksum_pos_moved:
  assumes "moved sfile m m'" "unat pos \<le> length sfile + unat (blksize (m_src m'))"
    "\<not> eof_known (m_src m') \<Longrightarrow> unat pos \<le> length sfile"
  shows "moved sfile m (set_cksum_pos pos m')"
proof -
  have "set_cksum_pos pos m' = m\<lparr>large_table := large_table (set_cksum_pos pos m'),
     m_enc := (m_enc m)\<lparr>e_src := e_src (m_enc (set_cksum_pos pos m')), srcwin_cksum_pos := pos\<rparr>\<rparr>"
    using assms(1) unfolding moved_def set_cksum_pos_def
    by (cases m; cases m'; cases "m_enc m"; cases "m_enc m'") simp
  moreover have "source_held sfile (m_src m) (set_cksum_pos pos m')" "cksum_ok sfile (set_cksum_pos pos m')"
    "large_table (set_cksum_pos pos m') \<noteq> None"
    using assms by (simp_all add: moved_def set_cksum_pos_def source_held_def cksum_ok_def)
  ultimately show ?thesis by (simp add: moved_def set_cksum_pos_def)
qed

lemma getblk_moved:
  assumes "client_answers sfile gb" "moved sfile m0 m" "unat n * unat (blksize (m_src m)) \<le> length sfile"
    "length sfile < 2 ^ 31" "matcher_getblk gb n m = (r, m1)"
  shows "moved sfile m0 m1"
proof -
  have l: "length sfile < 2 ^ 63" using assms(4) by simp
  have h: "source_held sfile (m_src m0) m" using assms(2) by (simp add: moved_def)
  note g = matcher_getblk_answered [OF assms(1) h assms(3) l assms(5)]
  have s: "source_held sfile (m_src m) m1"
    using matcher_getblk_answered(1) [OF assms(1) source_held_self [OF h] assms(3) l assms(5)] .
  have eq: "m1 = m\<lparr>m_enc := (m_enc m)\<lparr>e_src := e_src (m_enc m1)\<rparr>\<rparr>" by (rule g(10))
  have f: "srcwin_cksum_pos (m_enc m1) = srcwin_cksum_pos (m_enc m)" "large_table m1 = large_table m"
    "large_hash m1 = large_hash m" "maxsrcaddr m1 = maxsrcaddr m"
    by (subst eq, simp)+
  have "cksum_ok sfile m1"
    using assms(2) g(6) s by (auto simp: moved_def cksum_ok_def f source_held_def)
  then have "moved sfile m m1"
    using eq f s assms(2) by (simp add: moved_def)
  then show ?thesis by (rule moved_trans [OF assms(2)])
qed

definition moved_outcome :: "bytes \<Rightarrow> xd3_matcher \<Rightarrow> match_outcome option \<Rightarrow> bool" where
  "moved_outcome sfile m r \<longleftrightarrow>
     (\<exists>m'. (r = Some (Extended m') \<or> (\<exists>q. q \<noteq> XD3_OK \<and> r = Some (Waiting q m'))) \<and> moved sfile m m')"

text \<open>The configuration of the matcher that the loops rely on.\<close>

definition look_ok :: "xd3_matcher \<Rightarrow> bool" where
  "look_ok m \<longleftrightarrow> 0 < unat (large_look (smatcher m)) \<and> 0 < unat (large_step (smatcher m)) \<and>
     (\<exists>n. large_hash m = xd3_size_hashtable n)"

lemma inserted_table_ok:
  assumes t: "large_table m = Some t" "cksum_ok sfile m" and look: "0 < unat look" "unat look \<le> n" and step: "0 < unat step"
    and n: "unat blk * unat bs + n \<le> length sfile" "length sfile < 2 ^ 31" "0 \<le> oldpos"
  shows "\<exists>t'. insert_block (Suc n) cfg look step bytes (ucast (bs :: u32) * blk) oldpos (int n - int (unat look)) t = Some t' \<and>
    cksum_ok sfile (m\<lparr>large_table := Some t'\<rparr>)"
proof -
  have p0: "0 \<le> int n - int (unat look)" "nat (int n - int (unat look)) < Suc n" using look by linarith+
  from insert_block_ok [OF step p0(1) n(3) p0(2), of cfg look bytes "ucast bs * blk" t]
  obtain t' where t': "insert_block (Suc n) cfg look step bytes (ucast bs * blk) oldpos (int n - int (unat look)) t = Some t'"
    "length t' = length t" "\<forall>v\<in>set t'. v \<in> set t \<or>
      (\<exists>p. 0 \<le> p \<and> p \<le> int n - int (unat look) \<and> v = ucast (ucast bs * blk + word_of_int (p + 1)))"
    by (elim exE conjE) (rule that)
  have base: "unat (ucast bs * blk) = unat blk * unat bs"
    using n by (simp add: unat_mult_lem [THEN iffD1] unat_ucast_u32_u64 mult.commute)
  have small: "unat (ucast (ucast bs * blk + word_of_int (p + 1)) :: u32) \<le> length sfile"
    if p: "0 \<le> p" "p \<le> int n - int (unat look)" for p
  proof -
    have w: "(word_of_int (p + 1) :: u64) = of_nat (nat p + 1)" using p(1) by (simp add: of_nat_nat)
    have le: "nat p + 1 \<le> n" using p look by linarith
    have "unat (of_nat (nat p + 1) :: u64) = nat p + 1"
      using le n by (simp add: unsigned_of_nat take_bit_nat_eq_self del: of_nat_add of_nat_Suc)
    then have "unat (ucast bs * blk + of_nat (nat p + 1)) = unat blk * unat bs + (nat p + 1)"
      using base le n by (subst unat_add_u64) auto
    then show ?thesis unfolding w using le n by (subst unat_ucast_small) auto
  qed
  have "\<forall>v\<in>set t'. unat v \<le> length sfile"
    using t'(3) small t by (auto simp: cksum_ok_def)
  then have "cksum_ok sfile (m\<lparr>large_table := Some t'\<rparr>)" using t t'(2) by (simp add: cksum_ok_def)
  then show ?thesis using t'(1) by blast
qed

lemma cksum_loop_moved:
  assumes cl: "client_answers sfile gb" and sl: "length sfile < 2 ^ 31" and lk: "look_ok m0"
    and m: "moved sfile m0 m" "unat logical - unat (srcwin_cksum_pos (m_enc m)) < k"
  shows "moved_outcome sfile m0 (cksum_loop gb k logical m)"
  using m
proof (induction k arbitrary: m)
  case (Suc k)
  let ?pos = "srcwin_cksum_pos (m_enc m)"
  let ?r = "cksum_loop gb (Suc k) logical m"
  show ?case
  proof (cases "?pos < logical \<and> (\<not> eof_known (m_src m) \<or> ?pos < xd3_source_eof (m_src m))")
    case False
    then have "?r = Some (Extended m)" by (subst cksum_loop.simps(2)) (simp only: Let_def if_True simp_thms)
    then show ?thesis using Suc.prems(1) by (auto simp: moved_outcome_def)
  next
    case go: True
    obtain blkno rem where d: "xd3_blksize_div ?pos (m_src m) = (blkno, rem)" by fastforce
    obtain ret m1 where g: "matcher_getblk gb blkno m = (ret, m1)" by fastforce
    have h: "source_held sfile (m_src m0) m" and ck: "cksum_ok sfile m" using Suc.prems(1) by (simp_all add: moved_def)
    then have fo: "frontier_ok sfile (m_src m)" "wf_source (m_src m)" by (auto simp: source_held_def)
    note bs = held_blksize [OF h]
    have pos: "unat blkno * unat (blksize (m_src m)) + unat rem = unat ?pos" "unat rem < unat (blksize (m_src m))"
      using xd3_blksize_div_eq [OF fo(2) d] bs by simp_all
    have "unat ?pos \<le> length sfile"
      using go ck source_eof_exact [OF fo(1) sl] by (auto simp: cksum_ok_def word_less_nat_alt)
    then have n: "unat blkno * unat (blksize (m_src m)) \<le> length sfile" using pos(1) by linarith
    have l63: "length sfile < 2 ^ 63" using sl by simp
    note a = matcher_getblk_answered [OF cl h n l63 g]
    have mv: "moved sfile m0 m1" by (rule getblk_moved [OF cl Suc.prems(1) n sl g])
    note mf = moved_fields [OF mv]
    define blkpos where "blkpos = int (unat (xd3_bytes_on_srcblk (m_src m1) blkno))"
    define after where "after = (blkno + 1) * ucast (blksize (m_src m1))"
    have r: "?r = (if ret = XD3_TOOFARBACK then Some (Waiting XD3_INTERNAL m1)
               else if ret \<noteq> XD3_OK then Some (Waiting ret m1)
               else if blkpos < int (unat (large_look (smatcher m1))) then cksum_loop gb k logical (set_cksum_pos after m1)
               else (case insert_block (Suc (nat blkpos)) (large_hash m1) (large_look (smatcher m1)) (large_step (smatcher m1))
                               (the (curblk (m_src m1))) (ucast (blksize (m_src m1)) * blkno) (int (unat rem))
                               (blkpos - int (unat (large_look (smatcher m1)))) (the (large_table m1)) of
                          None \<Rightarrow> None
                        | Some table \<Rightarrow>
                            cksum_loop gb k logical (set_cksum_pos after (m1\<lparr>large_table := Some table\<rparr>))))"
      by (subst cksum_loop.simps(2)) (simp only: go Let_def d g prod.case simp_thms if_False if_True not_True_eq_False
          blkpos_def [symmetric] after_def [symmetric])
    show ?thesis
    proof (cases "ret = XD3_OK")
      case False
      then show ?thesis using r mv by (auto simp: moved_outcome_def)
    next
      case ok: True
      obtain x where x: "m_src m1 = note_last (note_frontier x blkno) blkno" "same_frontier x (m_src m)" "same_bounds x (m_src m)"
        using a(8) [OF ok] by blast
      have fx: "frontier_ok sfile x"
        using fo(1) frontier_ok_cong [OF x(2)] x(3) by (simp add: same_bounds_def same_window_def)
      have n1: "unat blkno * unat (blksize (m_src m1)) \<le> length sfile" "0 < unat (blksize (m_src m1))" using n bs a(6) by simp_all
      note e = block_known_of_end [OF x(1) fx a(7) [OF ok] n1(1) sl n1(2)]
      have "unat blkno \<le> unat blkno * unat (blksize (m_src m1))" using n1(2) by simp
      then have "unat blkno \<le> length sfile" using n1(1) by (rule order.trans)
      then have "unat (blkno + 1) = unat blkno + 1" using sl by (subst unat_add_u64) auto
      moreover have "(unat blkno + 1) * unat (blksize (m_src m1)) < 2 ^ 64"
        using n1(1) sl unat_less_u32 [of "blksize (m_src m1)"] by (simp add: add_mult_distrib)
      ultimately have af: "unat after = (unat blkno + 1) * unat (blksize (m_src m1))"
        unfolding after_def by (simp add: unat_mult_lem [THEN iffD1] unat_ucast_u32_u64)
      have prog: "unat ?pos < unat after" using af pos a(6) by (simp add: add_mult_distrib)
      have ms: "moved sfile m0 (set_cksum_pos after m')" if "moved sfile m0 m'" "m_src m' = m_src m1" for m'
        by (rule set_cksum_pos_moved [OF that(1)]) (use that(2) af n1(1) e(2) in \<open>auto simp: add_mult_distrib\<close>)
      have step: "moved_outcome sfile m0 (cksum_loop gb k logical (set_cksum_pos after m'))"
        if "moved sfile m0 m'" "m_src m' = m_src m1" for m'
        using ms [OF that] Suc.prems(2) prog go
        by (intro Suc.IH) (auto simp: set_cksum_pos_def word_less_nat_alt)
      show ?thesis
      proof (cases "blkpos < int (unat (large_look (smatcher m1)))")
        case True
        then have "?r = cksum_loop gb k logical (set_cksum_pos after m1)" using r ok by simp
        then show ?thesis using step [OF mv refl] by simp
      next
        case False
        obtain t where t: "large_table m1 = Some t" using mv by (auto simp: moved_def)
        have ck1: "cksum_ok sfile m1" using mv by (simp add: moved_def)
        have lm: "0 < unat (large_look (smatcher m1))" "0 < unat (large_step (smatcher m1))"
          using lk mf(1) by (simp_all add: look_ok_def)
        have lb: "unat (large_look (smatcher m1)) \<le> unat (xd3_bytes_on_srcblk (m_src m1) blkno)"
          using False unfolding blkpos_def by linarith
        from inserted_table_ok [OF t ck1 lm(1) lb lm(2) e(1) sl, of "int (unat rem)" "large_hash m1" "the (curblk (m_src m1))"]
        obtain t' where t': "insert_block (Suc (nat blkpos)) (large_hash m1) (large_look (smatcher m1)) (large_step (smatcher m1))
              (the (curblk (m_src m1))) (ucast (blksize (m_src m1)) * blkno) (int (unat rem))
              (blkpos - int (unat (large_look (smatcher m1)))) t = Some t'" "cksum_ok sfile (m1\<lparr>large_table := Some t'\<rparr>)"
          by (auto simp: blkpos_def)
        have "moved sfile m0 (m1\<lparr>large_table := Some t'\<rparr>)"
          using mv t'(2) unfolding moved_def
          by (cases m0; cases m1; cases "m_enc m0"; cases "m_enc m1") (simp add: source_held_def)
        moreover have "?r = cksum_loop gb k logical (set_cksum_pos after (m1\<lparr>large_table := Some t'\<rparr>))"
          using r ok False t t'(1) by simp
        ultimately show ?thesis using step by simp
      qed
    qed
  qed
qed simp

end
