(* ===== verification/Search_Step.thy ===== *)
theory Search_Step
  imports Search
begin

text \<open>
  Every step of the search keeps the invariant of the encoder: computing source checksums,
  extending a source match, the rounds of the loop, a call of the matcher, the
  \<^verbatim>\<open>ENC_SEARCH\<close> step, at its first entry and when it is entered again with a block.
\<close>

section \<open>Moving the point of the source checksums\<close>




section \<open>Extending a source match\<close>














section \<open>A round\<close>






section \<open>The loop\<close>









section \<open>The tables are made\<close>





section \<open>The step\<close>




section \<open>Properties\<close>







end
