(* ===== verification/Resume.thy ===== *)
theory Resume
  imports Header
begin

text \<open>
  The decoder can be stopped anywhere in a header by the end of its input: when it is called
  again with the rest, it ends as if it had been given everything at once. The message aside,
  which may then be that of the interruption, the two runs are equal, errors included.
\<close>

section \<open>Functions that can be interrupted\<close>

text \<open>Results up to the message.\<close>

definition hush :: "xd3_stream \<Rightarrow> xd3_stream" where "hush s = s\<lparr>msg := None\<rparr>"

definition quiet :: "result \<Rightarrow> result" where "quiet = map_option (map_prod id hush)"

lemma quiet_simps [simp]:
  "quiet None = None" "quiet (Some (r, s)) = Some (r, hush s)" "quiet (ok s) = ok (hush s)"
  "quiet (fail r m s) = Some (r, hush s)"
  by (simp_all add: quiet_def ok_def fail_def hush_def)

lemma hush_simps [simp]:
  "hush (hush s) = hush s" "hush (s\<lparr>msg := m\<rparr>) = hush s" "hush (s\<lparr>next_in := i, msg := m\<rparr>) = hush (s\<lparr>next_in := i\<rparr>)"
  "next_in (hush s) = next_in s" "dec_state (hush s) = dec_state s" "enc_state (hush s) = enc_state s"
  by (simp_all add: hush_def)

lemma quiet_Some: "quiet p = Some (r, hush u) \<longleftrightarrow> (\<exists>m. p = Some (r, u\<lparr>msg := m\<rparr>))"
proof
  assume "quiet p = Some (r, hush u)"
  then obtain v where v: "p = Some (r, v)" "v\<lparr>msg := None\<rparr> = u\<lparr>msg := None\<rparr>"
    by (auto simp: quiet_def hush_def)
  have "v = (v\<lparr>msg := None\<rparr>)\<lparr>msg := msg v\<rparr>" by simp
  also have "\<dots> = u\<lparr>msg := msg v\<rparr>" unfolding v(2) by simp
  finally show "\<exists>m. p = Some (r, u\<lparr>msg := m\<rparr>)" using v(1) by blast
qed auto

definition ignores_msg :: "(xd3_stream \<Rightarrow> result) \<Rightarrow> bool" where
  "ignores_msg F \<longleftrightarrow> (\<forall>s m. quiet (F (s\<lparr>msg := m\<rparr>)) = quiet (F s))"

text \<open>
  \<open>stops\<close>: what happens to the result \<open>(r, u)\<close> of a run on all the input when only the part before
  \<open>y\<close> is there. Either the run ends the same way, before it gets to \<open>y\<close>, or it asks for input
  in a state with \<open>P\<close> from which \<open>again\<close>, given \<open>y\<close>, ends the same way.
\<close>

definition stops ::
    "(xd3_stream \<Rightarrow> bool) \<Rightarrow> (xd3_stream \<Rightarrow> result) \<Rightarrow> bytes \<Rightarrow> result \<Rightarrow> xd3_ret \<Rightarrow> xd3_stream \<Rightarrow> bool" where
  "stops P again y p r u \<longleftrightarrow>
     (\<exists>i. i @ y = next_in u \<and> quiet p = Some (r, hush (u\<lparr>next_in := i\<rparr>))) \<or>
     (\<exists>t. p = Some (XD3_INPUT, t) \<and> P t \<and> quiet (again (t\<lparr>next_in := y\<rparr>)) = Some (r, hush u))"

definition same_state :: "xd3_stream \<Rightarrow> xd3_stream \<Rightarrow> bool" where
  "same_state s t \<longleftrightarrow> dec_state t = dec_state s \<and> enc_state t = enc_state s \<and>
     dec_hdr_ind t = dec_hdr_ind s \<and> dec_win_ind t = dec_win_ind s \<and>
     dec_codetblsz t = dec_codetblsz s \<and> dec_appheadsz t = dec_appheadsz s"

definition reader :: "(xd3_stream \<Rightarrow> result) \<Rightarrow> bool" where
  "reader f \<longleftrightarrow> ignores_msg f \<and> (\<forall>s r u. f s = Some (r, u) \<longrightarrow> enc_state u = enc_state s) \<and>
     (\<forall>s y r u. f (s\<lparr>next_in := next_in s @ y\<rparr>) = Some (r, u) \<longrightarrow> stops (same_state s) f y (f s) r u)"

lemma readerI:
  assumes "\<And>s m. quiet (f (s\<lparr>msg := m\<rparr>)) = quiet (f s)"
    and "\<And>s r u. f s = Some (r, u) \<Longrightarrow> enc_state u = enc_state s"
    and "\<And>s y r u. f (s\<lparr>next_in := next_in s @ y\<rparr>) = Some (r, u) \<Longrightarrow> stops (same_state s) f y (f s) r u"
  shows "reader f"
  using assms by (simp add: reader_def ignores_msg_def)

lemma stops_now:
  "i @ y = next_in u \<Longrightarrow> quiet p = Some (r, hush (u\<lparr>next_in := i\<rparr>)) \<Longrightarrow> stops P again y p r u"
  by (auto simp: stops_def)

lemma stops_later:
  "p = Some (XD3_INPUT, t) \<Longrightarrow> P t \<Longrightarrow> quiet (again (t\<lparr>next_in := y\<rparr>)) = Some (r, hush u) \<Longrightarrow> stops P again y p r u"
  by (auto simp: stops_def)

text \<open>The ways to read. The field is stored by a function that leaves the input and the message alone.\<close>

definition setter :: "('a \<Rightarrow> xd3_stream \<Rightarrow> xd3_stream) \<Rightarrow> bool" where
  "setter pt \<longleftrightarrow> (\<forall>v s i m. pt v (s\<lparr>next_in := i, msg := m\<rparr>) = (pt v s)\<lparr>next_in := i, msg := m\<rparr>) \<and>
     (\<forall>v s. next_in (pt v s) = next_in s \<and> msg (pt v s) = msg s \<and> total_in (pt v s) = total_in s \<and>
       enc_state (pt v s) = enc_state s)"

lemma setter_simps:
  assumes "setter pt"
  shows "pt v (s\<lparr>next_in := i, msg := m\<rparr>) = (pt v s)\<lparr>next_in := i, msg := m\<rparr>"
    and "pt v (s\<lparr>next_in := i\<rparr>) = (pt v s)\<lparr>next_in := i\<rparr>"
    and "pt v (s\<lparr>msg := m\<rparr>) = (pt v s)\<lparr>msg := m\<rparr>"
    and "next_in (pt v s) = next_in s" "msg (pt v s) = msg s" "total_in (pt v s) = total_in s"
    and "enc_state (pt v s) = enc_state s"
proof -
  have all: "pt v (s\<lparr>next_in := i, msg := m\<rparr>) = (pt v s)\<lparr>next_in := i, msg := m\<rparr>" for s i m
    using assms by (simp add: setter_def)
  show "next_in (pt v s) = next_in s" "msg (pt v s) = msg s" "total_in (pt v s) = total_in s"
    "enc_state (pt v s) = enc_state s"
    using assms by (simp_all add: setter_def)
  then show "pt v (s\<lparr>next_in := i, msg := m\<rparr>) = (pt v s)\<lparr>next_in := i, msg := m\<rparr>"
    "pt v (s\<lparr>next_in := i\<rparr>) = (pt v s)\<lparr>next_in := i\<rparr>" "pt v (s\<lparr>msg := m\<rparr>) = (pt v s)\<lparr>msg := m\<rparr>"
    using all all [of "msg s" i s] all [of m "next_in s" s] by simp_all
qed

lemma hush_fields [simp]:
  "hush (s\<lparr>msg := m, total_in := t, next_in := i\<rparr>) = hush (s\<lparr>total_in := t, next_in := i\<rparr>)"
  by (simp add: hush_def)

lemma reader_byte:
  assumes pt: "setter pt"
  shows "reader (xd3_decode_byte pt)"
proof (rule readerI)
  show "quiet (xd3_decode_byte pt (s\<lparr>msg := m\<rparr>)) = quiet (xd3_decode_byte pt s)" for s m
    by (simp add: xd3_decode_byte_def DECODE_INPUT_def setter_simps [OF pt] split: list.splits)
  show "xd3_decode_byte pt s = Some (r, u) \<Longrightarrow> enc_state u = enc_state s" for s r u
    by (auto simp: xd3_decode_byte_def DECODE_INPUT_def setter_simps [OF pt] fail_def ok_def split: list.splits)
next
  fix s :: xd3_stream and y r u
  assume a: "xd3_decode_byte pt (s\<lparr>next_in := next_in s @ y\<rparr>) = Some (r, u)"
  show "stops (same_state s) (xd3_decode_byte pt) y (xd3_decode_byte pt s) r u"
  proof (cases "next_in s")
    case Nil
    let ?m = "Some ''further input required''"
    show ?thesis
    proof (rule stops_later [where t = "s\<lparr>msg := ?m\<rparr>"])
      show "quiet (xd3_decode_byte pt (s\<lparr>msg := ?m, next_in := y\<rparr>)) = Some (r, hush u)"
        using a Nil by (cases y) (auto simp: xd3_decode_byte_def fail_def ok_def DECODE_INPUT_def setter_simps [OF pt] hush_def)
    qed (use Nil in \<open>simp_all add: xd3_decode_byte_def fail_def same_state_def\<close>)
  next
    case (Cons b i)
    show ?thesis
      by (rule stops_now [where i = i])
        (use a Cons in \<open>auto simp: xd3_decode_byte_def ok_def DECODE_INPUT_def setter_simps [OF pt]\<close>)
  qed
qed

text \<open>The two integer readers share their shape: the width and the field with the partial number differ.\<close>

locale integer_reader =
  fixes dec :: "'a::len word \<Rightarrow> bytes \<Rightarrow> (xd3_err + 'a word) \<times> 'a word \<times> bytes"
    and part :: "xd3_stream \<Rightarrow> 'a word" and set_part :: "'a word \<Rightarrow> xd3_stream \<Rightarrow> xd3_stream"
    and rd :: "('a word \<Rightarrow> xd3_stream \<Rightarrow> xd3_stream) \<Rightarrow> xd3_stream \<Rightarrow> result"
  assumes rd: "rd pt s = (case dec (part s) (next_in s) of (r, p, left) \<Rightarrow>
      (let s' = DECODE_INPUT (length (next_in s) - length left) (set_part p s)
       in case r of Inl (e, m) \<Rightarrow> fail e m s' | Inr v \<Rightarrow> ok (pt v s')))"
    and dec_append: "dec p (xs @ ys) = (case dec p xs of
        (Inl (e, m), p', left) \<Rightarrow> (if e = XD3_INPUT then dec p' ys else (Inl (e, m), p', left @ ys))
      | (Inr v, p', left) \<Rightarrow> (Inr v, p', left @ ys))"
    and dec_INPUT: "dec p xs = (Inl (XD3_INPUT, text), p', left) \<Longrightarrow> left = []"
    and dec_suffix: "dec p xs = (q, p', left) \<Longrightarrow> \<exists>used. xs = used @ left"
    and part_simps [simp]: "part (set_part p s) = p" "part (s\<lparr>next_in := i\<rparr>) = part s" "part (s\<lparr>msg := m\<rparr>) = part s"
      "part (s\<lparr>total_in := x\<rparr>) = part s" "set_part p (set_part p' s) = set_part p s"
      "set_part p (s\<lparr>next_in := i\<rparr>) = (set_part p s)\<lparr>next_in := i\<rparr>"
      "set_part p (s\<lparr>msg := m\<rparr>) = (set_part p s)\<lparr>msg := m\<rparr>"
      "set_part p (s\<lparr>total_in := x\<rparr>) = (set_part p s)\<lparr>total_in := x\<rparr>"
      "total_in (set_part p s) = total_in s" "next_in (set_part p s) = next_in s"
      "dec_state (set_part p s) = dec_state s" "enc_state (set_part p s) = enc_state s"
      "dec_hdr_ind (set_part p s) = dec_hdr_ind s" "dec_win_ind (set_part p s) = dec_win_ind s"
      "dec_codetblsz (set_part p s) = dec_codetblsz s" "dec_appheadsz (set_part p s) = dec_appheadsz s"
begin

definition after :: "'a word \<Rightarrow> bytes \<Rightarrow> xd3_stream \<Rightarrow> xd3_stream" where
  "after p left s = (set_part p s)\<lparr>total_in := total_in s + of_nat (length (next_in s) - length left), next_in := left\<rparr>"

lemma rd_eq:
  assumes "dec (part s) (next_in s) = (q, p, left)"
  shows "rd pt s = (case q of Inl (e, m) \<Rightarrow> fail e m (after p left s) | Inr v \<Rightarrow> ok (pt v (after p left s)))"
proof -
  obtain used where "next_in s = used @ left" using dec_suffix [OF assms] by blast
  then have "DECODE_INPUT (length (next_in s) - length left) (set_part p s) = after p left s"
    by (simp add: DECODE_INPUT_def after_def)
  then show ?thesis using assms by (cases q) (auto simp: rd Let_def)
qed

lemma after_msg: "after p left (s\<lparr>msg := m\<rparr>) = (after p left s)\<lparr>msg := m\<rparr>"
  by (simp add: after_def)

lemma reads:
  assumes pt: "setter pt"
  shows "reader (rd pt)"
proof (rule readerI)
  show "quiet (rd pt (s\<lparr>msg := m\<rparr>)) = quiet (rd pt s)" for s m
  proof -
    obtain q p left where d: "dec (part s) (next_in s) = (q, p, left)" by (metis prod_cases3)
    then show ?thesis
      using rd_eq [OF d, of pt] rd_eq [of "s\<lparr>msg := m\<rparr>" q p left pt]
      by (cases q) (auto simp: setter_simps [OF pt] after_msg)
  qed
  show "rd pt s = Some (r, u) \<Longrightarrow> enc_state u = enc_state s" for s r u
    by (auto simp: rd DECODE_INPUT_def setter_simps [OF pt] fail_def ok_def Let_def split: prod.splits sum.splits)
next
  fix s :: xd3_stream and y r u
  assume a: "rd pt (s\<lparr>next_in := next_in s @ y\<rparr>) = Some (r, u)"
  obtain q p left where d: "dec (part s) (next_in s) = (q, p, left)" by (metis prod_cases3)
  let ?s = "s\<lparr>next_in := next_in s @ y\<rparr>"
  show "stops (same_state s) (rd pt) y (rd pt s) r u"
  proof (cases "\<exists>m. q = Inl (XD3_INPUT, m)")
    case True
    then obtain m where m: "q = Inl (XD3_INPUT, m)" by blast
    have left: "left = []" using dec_INPUT d m by blast
    let ?t = "(after p [] s)\<lparr>msg := Some m\<rparr>"
    obtain q2 p2 left2 where d2: "dec p y = (q2, p2, left2)" by (metis prod_cases3)
    have full: "dec (part s) (next_in s @ y) = (q2, p2, left2)" using d d2 m by (simp add: dec_append)
    obtain used where "y = used @ left2" using dec_suffix [OF d2] by blast
    then have "after p2 left2 (?t\<lparr>next_in := y\<rparr>) = (after p2 left2 ?s)\<lparr>msg := Some m\<rparr>"
      by (simp add: after_def add.assoc)
    then have "quiet (rd pt (?t\<lparr>next_in := y\<rparr>)) = quiet (rd pt ?s)"
      using rd_eq [of ?s q2 p2 left2 pt] rd_eq [of "?t\<lparr>next_in := y\<rparr>" q2 p2 left2 pt] full d2
      by (cases q2) (auto simp: setter_simps [OF pt] after_def)
    then show ?thesis
      using a rd_eq [OF d, of pt] m left
      by (intro stops_later [where t = ?t]) (simp_all add: fail_def same_state_def after_def)
  next
    case False
    then have full: "dec (part s) (next_in s @ y) = (q, p, left @ y)"
      using d by (cases q) (auto simp: dec_append)
    have e: "after p (left @ y) ?s = (after p left s)\<lparr>next_in := left @ y\<rparr>" by (simp add: after_def)
    have a': "Some (r, u) = (case q of Inl (e, m) \<Rightarrow> fail e m ((after p left s)\<lparr>next_in := left @ y\<rparr>)
        | Inr v \<Rightarrow> ok (pt v ((after p left s)\<lparr>next_in := left @ y\<rparr>)))"
      using rd_eq [of ?s q p "left @ y" pt] full a unfolding e by simp
    have i: "next_in (after p left s) = left" "(after p left s)\<lparr>next_in := left\<rparr> = after p left s"
      by (simp_all add: after_def)
    show ?thesis
      by (rule stops_now [where i = left])
        (use a' i rd_eq [OF d, of pt] in \<open>cases q; auto simp: setter_simps [OF pt] fail_def ok_def hush_def\<close>)+
  qed
qed

end

interpretation sizes: integer_reader "decode_integer UINT32_OFLOW_MASK" dec_32part "\<lambda>p s. s\<lparr>dec_32part := p\<rparr>" xd3_decode_size
  by unfold_locales (simp_all add: xd3_decode_size_def xd3_decode_uint32_t_def decode_integer_append
      decode_integer_INPUT decode_integer_suffix)

interpretation offsets: integer_reader "decode_integer UINT64_OFLOW_MASK" dec_64part "\<lambda>p s. s\<lparr>dec_64part := p\<rparr>" xd3_decode_offset
  by unfold_locales (simp_all add: xd3_decode_offset_def xd3_decode_uint64_t_def decode_integer_append
      decode_integer_INPUT decode_integer_suffix)

text \<open>A fixed number of bytes: what came is kept in the buffer.\<close>

lemma blit_append:
  "blit buf p (xs @ ys) = Option.bind (blit buf p xs) (\<lambda>b. blit b (p + length xs) ys)"
  by (auto simp: blit_def ac_simps)

lemma within_want:
  assumes "pos < sz" "n < unat (sz - pos)"
  shows "unat (pos + of_nat n :: u32) = unat pos + n" "pos + of_nat n < sz" "unat (sz - (pos + of_nat n)) = unat (sz - pos) - n"
proof -
  have d: "unat (sz - pos) = unat sz - unat pos" using assms(1) by (intro unat_sub_le) simp
  have n: "unat (of_nat n :: u32) = n"
    using assms(2) unat_less_u32 [of "sz - pos"] by (simp add: unsigned_of_nat take_bit_nat_eq_self)
  show 1: "unat (pos + of_nat n) = unat pos + n"
    using d n assms(2) unat_less_u32 [of sz] by (subst unat_add_u32) simp_all
  show 2: "pos + of_nat n < sz" using 1 d assms(2) by (simp add: word_less_nat_alt)
  have "unat (sz - (pos + of_nat n)) = unat sz - unat (pos + of_nat n)" using 2 by (intro unat_sub_le) simp
  then show "unat (sz - (pos + of_nat n)) = unat (sz - pos) - n" using 1 d by simp
qed

lemma bytes_loop_eq:
  "decode_bytes_loop buf pos sz inp =
     (if pos < sz
      then if inp = [] then Some (False, buf, pos, [])
        else case blit buf (unat pos) (take (unat (sz - pos)) inp) of
          None \<Rightarrow> None
        | Some b \<Rightarrow> if unat (sz - pos) \<le> length inp then Some (True, b, sz, drop (unat (sz - pos)) inp)
            else Some (False, b, pos + of_nat (length inp), [])
      else Some (True, buf, pos, inp))"
proof (cases "pos < sz \<and> inp \<noteq> []")
  case True
  let ?w = "unat (sz - pos)"
  show ?thesis
  proof (cases "?w \<le> length inp")
    case True': True
    then show ?thesis
      using True by (subst decode_bytes_loop.simps, subst decode_bytes_loop.simps)
        (simp add: Let_def min_def split: option.splits)
  next
    case False
    then show ?thesis
      using True within_want(2) [of pos sz "length inp"]
      by (subst decode_bytes_loop.simps, subst decode_bytes_loop.simps) (simp add: Let_def min_def split: option.splits)
  qed
qed (auto simp: decode_bytes_loop.simps)

lemma bytes_loop_append:
  "decode_bytes_loop buf pos sz (x @ y) =
     (case decode_bytes_loop buf pos sz x of
        None \<Rightarrow> None
      | Some (True, b, p, left) \<Rightarrow> Some (True, b, p, left @ y)
      | Some (False, b, p, left) \<Rightarrow> decode_bytes_loop b p sz y)"
proof -
  let ?w = "unat (sz - pos)"
  consider "\<not> pos < sz" | "pos < sz" "x = []" | "pos < sz" "x \<noteq> []" "?w \<le> length x" | "pos < sz" "x \<noteq> []" "length x < ?w"
    by linarith
  then show ?thesis
  proof cases
    case 4
    note w = within_want [OF 4(1,3)]
    have "take ?w (x @ y) = x @ take (?w - length x) y" "drop ?w (x @ y) = drop (?w - length x) y" using 4 by simp_all
    then show ?thesis
      using 4 w by (subst (1 2 3) bytes_loop_eq)
        (auto simp: blit_append blit_def ac_simps split: option.splits)
  qed (auto simp: bytes_loop_eq split: option.splits)
qed

lemma bytes_loop_left: "decode_bytes_loop buf pos sz x = Some (a, b, p, left) \<Longrightarrow> \<exists>used. x = used @ left"
  by (auto simp: bytes_loop_eq split: if_splits option.splits) (metis append_take_drop_id)

lemma bytes_loop_False: "decode_bytes_loop buf pos sz x = Some (False, b, p, left) \<Longrightarrow> left = []"
  by (auto simp: bytes_loop_eq split: if_splits option.splits)

locale bytes_reader =
  fixes buf :: "xd3_stream \<Rightarrow> bytes" and pos :: "xd3_stream \<Rightarrow> u32"
    and store :: "bytes \<Rightarrow> u32 \<Rightarrow> xd3_stream \<Rightarrow> xd3_stream" and rd :: "u32 \<Rightarrow> xd3_stream \<Rightarrow> result"
  assumes rd: "rd sz s = (case decode_bytes_loop (buf s) (pos s) sz (next_in s) of
        None \<Rightarrow> None
      | Some (all, b, p, inp) \<Rightarrow>
          (let s' = DECODE_INPUT (length (next_in s) - length inp) (store b p s)
           in if all then ok s' else fail XD3_INPUT ''further input required'' s'))"
    and store_simps [simp]: "buf (store b p s) = b" "pos (store b p s) = p" "store b p (store b' p' s) = store b p s"
      "buf (s\<lparr>next_in := i\<rparr>) = buf s" "buf (s\<lparr>msg := m\<rparr>) = buf s" "buf (s\<lparr>total_in := x\<rparr>) = buf s"
      "pos (s\<lparr>next_in := i\<rparr>) = pos s" "pos (s\<lparr>msg := m\<rparr>) = pos s" "pos (s\<lparr>total_in := x\<rparr>) = pos s"
      "store b p (s\<lparr>next_in := i\<rparr>) = (store b p s)\<lparr>next_in := i\<rparr>"
      "store b p (s\<lparr>msg := m\<rparr>) = (store b p s)\<lparr>msg := m\<rparr>"
      "store b p (s\<lparr>total_in := x\<rparr>) = (store b p s)\<lparr>total_in := x\<rparr>"
      "total_in (store b p s) = total_in s" "next_in (store b p s) = next_in s"
      "dec_state (store b p s) = dec_state s" "enc_state (store b p s) = enc_state s"
      "dec_hdr_ind (store b p s) = dec_hdr_ind s" "dec_win_ind (store b p s) = dec_win_ind s"
      "dec_codetblsz (store b p s) = dec_codetblsz s" "dec_appheadsz (store b p s) = dec_appheadsz s"
begin

definition kept :: "bytes \<Rightarrow> u32 \<Rightarrow> bytes \<Rightarrow> xd3_stream \<Rightarrow> xd3_stream" where
  "kept b p left s = (store b p s)\<lparr>total_in := total_in s + of_nat (length (next_in s) - length left), next_in := left\<rparr>"

lemma rd_eq:
  assumes "decode_bytes_loop (buf s) (pos s) sz (next_in s) = Some (all, b, p, left)"
  shows "rd sz s = (if all then ok (kept b p left s) else fail XD3_INPUT ''further input required'' (kept b p left s))"
proof -
  obtain used where "next_in s = used @ left" using bytes_loop_left [OF assms] by blast
  then have "DECODE_INPUT (length (next_in s) - length left) (store b p s) = kept b p left s"
    by (simp add: DECODE_INPUT_def kept_def)
  then show ?thesis using assms by (simp add: rd Let_def)
qed

lemma reads: "reader (rd sz)"
proof (rule readerI)
  show "quiet (rd sz (s\<lparr>msg := m\<rparr>)) = quiet (rd sz s)" for s m
  proof (cases "decode_bytes_loop (buf s) (pos s) sz (next_in s)")
    case None
    then show ?thesis by (simp add: rd)
  next
    case (Some x)
    obtain a b p left where "x = (a, b, p, left)" by (metis prod_cases4)
    then show ?thesis
      using Some rd_eq [of s sz a b p left] rd_eq [of "s\<lparr>msg := m\<rparr>" sz a b p left] by (simp add: kept_def)
  qed
  show "rd sz s = Some (r, u) \<Longrightarrow> enc_state u = enc_state s" for s r u
    by (auto simp: rd DECODE_INPUT_def fail_def ok_def Let_def split: option.splits prod.splits if_splits)
next
  fix s :: xd3_stream and y r u
  let ?s = "s\<lparr>next_in := next_in s @ y\<rparr>"
  assume a: "rd sz ?s = Some (r, u)"
  obtain all b p left where d: "decode_bytes_loop (buf s) (pos s) sz (next_in s) = Some (all, b, p, left)"
    using a by (auto simp: rd bytes_loop_append split: option.splits)
  show "stops (same_state s) (rd sz) y (rd sz s) r u"
  proof (cases all)
    case True
    then have full: "decode_bytes_loop (buf s) (pos s) sz (next_in s @ y) = Some (True, b, p, left @ y)"
      using d by (simp add: bytes_loop_append)
    have "kept b p (left @ y) ?s = (kept b p left s)\<lparr>next_in := left @ y\<rparr>" by (simp add: kept_def)
    then have "r = XD3_OK" "u = (kept b p left s)\<lparr>next_in := left @ y\<rparr>"
      using rd_eq [of ?s sz True b p "left @ y"] full a by (simp_all add: ok_def)
    moreover have "(kept b p left s)\<lparr>next_in := left\<rparr> = kept b p left s" by (simp add: kept_def)
    ultimately show ?thesis
      using rd_eq [OF d] True by (intro stops_now [where i = left]) (simp_all add: ok_def)
  next
    case False
    then have left: "left = []" using bytes_loop_False d by simp
    let ?t = "(kept b p [] s)\<lparr>msg := Some ''further input required''\<rparr>"
    have l2: "decode_bytes_loop b p sz y = decode_bytes_loop (buf s) (pos s) sz (next_in s @ y)"
      using d False by (simp add: bytes_loop_append)
    obtain a2 b2 p2 left2 where d2: "decode_bytes_loop b p sz y = Some (a2, b2, p2, left2)"
      using a unfolding rd by (auto simp: l2 [symmetric] split: option.splits)
    obtain used where "y = used @ left2" using bytes_loop_left [OF d2] by blast
    then have "kept b2 p2 left2 (?t\<lparr>next_in := y\<rparr>) = (kept b2 p2 left2 ?s)\<lparr>msg := Some ''further input required''\<rparr>"
      by (simp add: kept_def add.assoc)
    then have "quiet (rd sz (?t\<lparr>next_in := y\<rparr>)) = quiet (rd sz ?s)"
      using rd_eq [of ?s sz a2 b2 p2 left2] rd_eq [of "?t\<lparr>next_in := y\<rparr>" sz a2 b2 p2 left2] d2 l2
      by (simp add: kept_def)
    then show ?thesis
      using a rd_eq [OF d] False left
      by (intro stops_later [where t = ?t]) (simp_all add: fail_def same_state_def kept_def)
  qed
qed

end

interpretation cksum: bytes_reader dec_cksum dec_cksumbytes
    "\<lambda>b p s. s\<lparr>dec_cksum := b, dec_cksumbytes := p\<rparr>"
    "xd3_decode_bytes dec_cksum (\<lambda>b s. s\<lparr>dec_cksum := b\<rparr>) dec_cksumbytes (\<lambda>p s. s\<lparr>dec_cksumbytes := p\<rparr>)"
  by unfold_locales (simp_all add: xd3_decode_bytes_def)

interpretation magic: bytes_reader dec_magic dec_magicbytes
    "\<lambda>b p s. s\<lparr>dec_magic := b, dec_magicbytes := p\<rparr>"
    "xd3_decode_bytes dec_magic (\<lambda>b s. s\<lparr>dec_magic := b\<rparr>) dec_magicbytes (\<lambda>p s. s\<lparr>dec_magicbytes := p\<rparr>)"
  by unfold_locales (simp_all add: xd3_decode_bytes_def)

interpretation codetbl: bytes_reader "\<lambda>s. the (dec_codetbl s)" dec_codetblbytes
    "\<lambda>b p s. s\<lparr>dec_codetbl := Some b, dec_codetblbytes := p\<rparr>"
    "xd3_decode_bytes (\<lambda>s. the (dec_codetbl s)) (\<lambda>b s. s\<lparr>dec_codetbl := Some b\<rparr>) dec_codetblbytes (\<lambda>p s. s\<lparr>dec_codetblbytes := p\<rparr>)"
  by unfold_locales (simp_all add: xd3_decode_bytes_def)

interpretation apphead: bytes_reader "\<lambda>s. the (dec_appheader s)" dec_appheadbytes
    "\<lambda>b p s. s\<lparr>dec_appheader := Some b, dec_appheadbytes := p\<rparr>"
    "xd3_decode_bytes (\<lambda>s. the (dec_appheader s)) (\<lambda>b s. s\<lparr>dec_appheader := Some b\<rparr>) dec_appheadbytes (\<lambda>p s. s\<lparr>dec_appheadbytes := p\<rparr>)"
  by unfold_locales (simp_all add: xd3_decode_bytes_def)

end
