(* ===== verification/Ask.thy ===== *)
theory Ask
  imports Roundtrip
begin

text \<open>
  A client without a \<^verbatim>\<open>getblk\<close> callback, such as \<^verbatim>\<open>delta.c\<close>: the decoder returns
  \<^verbatim>\<open>XD3_GETSRCBLK\<close> in the middle of a window, the client fills in the block and calls again.
  The instruction loop then does what it does with a callback, however often it is left and
  entered again.
\<close>

section \<open>The client's answer\<close>

text \<open>The stream of a client without the callback; the last message may be the request for a block.\<close>

definition as_client :: "string option \<Rightarrow> xd3_stream \<Rightarrow> xd3_stream" where
  "as_client m s = s\<lparr>getblk := None, msg := m\<rparr>"

text \<open>The block asked for is put into the source.\<close>

definition give_block :: "bytes \<Rightarrow> xd3_stream \<Rightarrow> xd3_stream" where
  "give_block file s =
     s\<lparr>src := map_option (\<lambda>source. snd (serve_file file source (getblkno source))) (src s)\<rparr>"

lemma as_client_fields [simp]:
  "as_client m (as_client m' s) = as_client m s"
  "sec_buf (inst_sect (as_client m s)) = sec_buf (inst_sect s)" "both_idle (as_client m s) = both_idle s"
  "dec_current1 (as_client m s) = dec_current1 s" "dec_current2 (as_client m s) = dec_current2 s"
  "inst_sect (as_client m s) = inst_sect s" "data_sect (as_client m s) = data_sect s"
  "addr_sect (as_client m s) = addr_sect s" "src (as_client m s) = src s" "dec_cpylen (as_client m s) = dec_cpylen s"
  "dec_win_ind (as_client m s) = dec_win_ind s" "next_out (as_client m s) = next_out s"
  "avail_out (as_client m s) = avail_out s" "blocks (as_client m s) = blocks s"
  "dec_tgtaddrbase (as_client m s) = dec_tgtaddrbase s" "acache (as_client m s) = acache s"
  "dec_position (as_client m s) = dec_position s" "dec_maxpos (as_client m s) = dec_maxpos s"
  "code_table (as_client m s) = code_table s" "getblk (as_client m s) = None" "msg (as_client m s) = m"
  by (simp_all add: as_client_def both_idle_def)

lemma as_client_inst: "(as_client m s)\<lparr>inst_sect := x\<rparr> = as_client m (s\<lparr>inst_sect := x\<rparr>)"
  and as_client_addr: "(as_client m s)\<lparr>acache := ac, addr_sect := x\<rparr> = as_client m (s\<lparr>acache := ac, addr_sect := x\<rparr>)"
  and as_client_pos: "(as_client m s)\<lparr>dec_position := q\<rparr> = as_client m (s\<lparr>dec_position := q\<rparr>)"
  by (simp_all add: as_client_def)

lemma getblk_asked:
  assumes "xd3_getblk (Some (serve_file file)) source blk = (XD3_OK, None, source1)"
  shows "xd3_getblk None source blk = (XD3_OK, None, source1) \<or>
    (\<exists>m source2. xd3_getblk None source blk = (XD3_GETSRCBLK, m, source\<lparr>getblkno := blk\<rparr>) \<and>
      source2 = snd (serve_file file (source\<lparr>getblkno := blk\<rparr>) blk) \<and>
      xd3_getblk None source2 blk = (XD3_OK, None, source1))"
  using assms by (auto simp: xd3_getblk_def serve_file_def Let_def split: if_splits)

section \<open>Half instructions\<close>

lemma read_integer_error: "read_integer oflow val inp = Inl (e, m) \<Longrightarrow> e = XD3_INVALID_INPUT"
  by (induction oflow val inp rule: read_integer.induct) (auto split: if_splits)

lemma decode_address_error: "xd3_decode_address ac here md inp = Some (Inl (e, m)) \<Longrightarrow> e = XD3_INVALID_INPUT"
  by (auto simp: xd3_decode_address_def xd3_read_uint32_t_def Let_def dest: read_integer_error
      split: if_splits sum.splits prod.splits list.splits)

text \<open>What the other steps do does not depend on the callback or the message.\<close>

locale half_inst_client = half_inst +
  fixes other :: "xd3_stream \<Rightarrow> xd3_hinst"
  assumes other_upd [simp]: "other (upd f s) = other s"
    and other_fields [simp]: "other (s\<lparr>src := x\<rparr>) = other s" "other (s\<lparr>data_sect := d\<rparr>) = other s"
      "other (s\<lparr>blocks := bl, avail_out := n\<rparr>) = other s" "other (as_client m s) = other s"
    and upd_client [simp]: "as_client m (upd f s) = upd f (as_client m s)"
    and sel_client [simp]: "sel (as_client m s) = sel s"
    and upd_state [simp]: "dec_state (upd f s) = dec_state s" "enc_state (upd f s) = enc_state s"

text \<open>What the instructions keep, so that the call can be entered again.\<close>

definition same_call :: "xd3_stream \<Rightarrow> xd3_stream \<Rightarrow> bool" where
  "same_call s t \<longleftrightarrow> getblk t = getblk s \<and> dec_state t = dec_state s \<and> enc_state t = enc_state s \<and>
     dec_win_ind t = dec_win_ind s \<and> dec_cpyoff t = dec_cpyoff s \<and> dec_cpylen t = dec_cpylen s \<and> rel_option same_window (src s) (src t)"

text \<open>The block the client was asked for holds an address of the source segment.\<close>

definition asked :: "xd3_stream \<Rightarrow> bool" where
  "asked a \<longleftrightarrow> (\<exists>x addr off. src a = Some x \<and> addr < dec_cpylen a \<and>
     xd3_blksize_add (cpyoff_blocks x) (cpyoff_blkoff x) x addr = (curblkno x, off))"

lemma same_window_refl [simp]: "same_window a a" by (simp add: same_window_def)

lemma same_call_refl [simp]: "same_call s s"
  by (simp add: same_call_def option.rel_refl)

lemma same_call_trans: "same_call s t \<Longrightarrow> same_call t u \<Longrightarrow> same_call s u"
  by (auto simp: same_call_def same_window_def elim!: option.rel_cases)

lemma and_then_ok: "and_then p f = ok t \<longleftrightarrow> (\<exists>s. p = ok s \<and> f s = ok t)"
  by (cases p) (auto simp: and_then_def ok_def split: prod.splits)

lemma fail_ok: "fail r m s = ok t \<longleftrightarrow> r = XD3_OK \<and> t = s\<lparr>msg := Some m\<rparr>"
  by (auto simp: fail_def ok_def)

lemma getblk_same_window: "xd3_getblk (Some (serve_file sfile)) source n = (r, m, source1) \<Longrightarrow> same_window source source1"
  using note_keeps by (auto simp: xd3_getblk_def serve_file_def Let_def same_window_def split: if_splits)

lemma write_out_client:
  "write_out bs s = ok t \<Longrightarrow> write_out bs (as_client m s) = ok (as_client m t)"
  by (auto simp: write_out_def ok_def as_client_def split: option.splits if_splits)

lemma write_out_same_call: "write_out bs s = ok t \<Longrightarrow> same_call s t"
  by (auto simp: write_out_def ok_def same_call_def option.rel_refl split: option.splits if_splits)

lemma target_copy_same_call: "target_copy a tk s = ok t \<Longrightarrow> same_call s t"
  by (auto simp: target_copy_def ok_def same_call_def option.rel_refl split: option.splits if_splits prod.splits)

lemma target_copy_client:
  "target_copy a tk s = ok t \<Longrightarrow> target_copy a tk (as_client m s) = ok (as_client m t)"
  by (auto simp: target_copy_def ok_def as_client_def split: option.splits if_splits prod.splits)

context half_inst_client
begin

text \<open>A copy from the source: it goes on as before, or asks for the block it needs; with it, it goes on.\<close>

lemma source_copy_client:
  assumes c: "source_copy sel upd s = ok t" and g: "getblk s = Some (serve_file file)"
  shows "source_copy sel upd (as_client m s) = ok (as_client m t) \<or>
    (\<exists>b source m'. source_copy sel upd (as_client m s) = Some (XD3_GETSRCBLK, b) \<and>
      give_block file b = as_client m' (s\<lparr>src := Some source\<rparr>) \<and>
      rel_option same_window (src s) (Some source) \<and>
      (\<exists>off. xd3_blksize_add (cpyoff_blocks source) (cpyoff_blkoff source) source (h_addr (sel s)) = (curblkno source, off)) \<and>
      source_copy sel upd (as_client m' (s\<lparr>src := Some source\<rparr>)) = ok (as_client m' t))"
proof -
  obtain source where s: "src s = Some source"
    using c by (auto simp: source_copy_def ok_def split: option.splits)
  obtain blk off where a: "xd3_blksize_add (cpyoff_blocks source) (cpyoff_blkoff source) source (h_addr (sel s)) = (blk, off)"
    by fastforce
  obtain source1 where g1: "xd3_getblk (Some (serve_file file)) source blk = (XD3_OK, None, source1)"
    by (cases "xd3_getblk (Some (serve_file file)) source blk") (auto simp: xd3_getblk_def serve_file_def Let_def split: if_splits)
  let ?n = "h_size (sel s)" and ?bs = "blksize source"
  let ?k = "if off + ?n \<le> ?bs then ?n else ?bs - off"
  let ?f = "\<lambda>h. if off + ?n \<le> ?bs then h\<lparr>h_type := of_nat XD3_NOOP, h_size := 0\<rparr>
      else h\<lparr>h_size := h_size h - ?k, h_addr := h_addr h + ?k\<rparr>"
  let ?s1 = "s\<lparr>src := Some source1, msg := msg s\<rparr>"
  obtain b where b: "\<not> (onblk source1 \<noteq> ?bs \<and> off + ?n > onblk source1)" "curblk source1 = Some b"
    "unat off + unat ?k \<le> length b" "write_out (take (unat ?k) (drop (unat off) b)) (upd ?f ?s1) = ok t"
    using c unfolding source_copy_def s option.case a g g1 prod.case Let_def
    by (simp add: fail_def ok_def cong: if_cong split: if_split_asm option.splits)
  have run: "source_copy sel upd u =
      write_out (take (unat ?k) (drop (unat off) b)) (upd ?f (u\<lparr>src := Some source1, msg := msg u\<rparr>))"
    if "src u = Some x" "xd3_getblk (getblk u) x blk = (XD3_OK, None, source1)" "sel u = sel s"
      "blksize x = ?bs" "cpyoff_blocks x = cpyoff_blocks source" "cpyoff_blkoff x = cpyoff_blkoff source"
      "shiftby x = shiftby source" "maskby x = maskby source" for u x
  proof -
    have a': "xd3_blksize_add (cpyoff_blocks x) (cpyoff_blkoff x) x (h_addr (sel s)) = (blk, off)"
      using a by (simp only: xd3_blksize_add_def that)
    show ?thesis
      using b(1-3) unfolding source_copy_def that(1) option.case that(3) a' that(2) prod.case Let_def
      by (cases "onblk source1 = ?bs") (use b(1) in \<open>simp_all add: that cong: if_cong split del: if_split\<close>)
  qed
  have with_block: "source_copy sel upd (as_client m' (s\<lparr>src := Some x\<rparr>)) = ok (as_client m' t)"
    if "xd3_getblk None x blk = (XD3_OK, None, source1)" "same_window x source" for x m'
  proof -
    have "as_client m' (upd ?f ?s1) = upd ?f ((as_client m' (s\<lparr>src := Some x\<rparr>))\<lparr>src := Some source1, msg := m'\<rparr>)"
      unfolding upd_client by (rule arg_cong [where f = "upd ?f"]) (simp add: as_client_def)
    then show ?thesis
      using run [of "as_client m' (s\<lparr>src := Some x\<rparr>)" x] that write_out_client [OF b(4), of m']
      by (simp add: same_window_def)
  qed
  have s': "as_client m (s\<lparr>src := Some source\<rparr>) = as_client m s" using s by (cases s) (simp add: as_client_def)
  from getblk_asked [OF g1] show ?thesis
  proof (elim disjE exE conjE)
    assume "xd3_getblk None source blk = (XD3_OK, None, source1)"
    then show ?thesis using with_block [of source m] s' by (simp add: same_window_def)
  next
    fix m' x
    assume x: "xd3_getblk None source blk = (XD3_GETSRCBLK, m', source\<lparr>getblkno := blk\<rparr>)"
      "x = snd (serve_file file (source\<lparr>getblkno := blk\<rparr>) blk)"
      "xd3_getblk None x blk = (XD3_OK, None, source1)"
    let ?b = "(as_client m s)\<lparr>src := Some (source\<lparr>getblkno := blk\<rparr>), msg := (if m' = None then m else m')\<rparr>"
    have ask: "source_copy sel upd (as_client m s) = Some (XD3_GETSRCBLK, ?b)"
      by (simp add: source_copy_def s a x(1) Let_def cong: if_cong)
    moreover have same: "same_window x source" by (simp add: x(2) serve_file_def Let_def same_window_def)
    moreover have "give_block file ?b = as_client (if m' = None then m else m') (s\<lparr>src := Some x\<rparr>)"
      by (simp add: give_block_def as_client_def x(2))
    moreover have "rel_option same_window (src s) (Some x)" using same s by (simp add: same_window_def)
    moreover have "\<exists>off. xd3_blksize_add (cpyoff_blocks x) (cpyoff_blkoff x) x (h_addr (sel s)) = (curblkno x, off)"
      using a by (auto simp: x(2) serve_file_def Let_def xd3_blksize_add_def split: if_splits)
    ultimately show ?thesis using ask with_block [OF x(3) same] by metis
  qed
qed

lemma write_out_other: "write_out bs s = ok t \<Longrightarrow> other t = other s"
  by (auto simp: write_out_def ok_def split: option.splits if_splits)

lemma target_copy_other: "target_copy a tk s = ok t \<Longrightarrow> other t = other s"
  by (auto simp: target_copy_def ok_def split: option.splits if_splits prod.splits)

lemma source_copy_same_call:
  assumes c: "source_copy sel upd s = ok t" and g: "getblk s = Some (serve_file sfile)"
  shows "same_call s t \<and> other t = other s"
proof -
  obtain source where s: "src s = Some source"
    using c by (auto simp: source_copy_def ok_def split: option.splits)
  obtain blk off where a: "xd3_blksize_add (cpyoff_blocks source) (cpyoff_blkoff source) source (h_addr (sel s)) = (blk, off)"
    by fastforce
  obtain source1 where g1: "xd3_getblk (Some (serve_file sfile)) source blk = (XD3_OK, None, source1)"
    by (cases "xd3_getblk (Some (serve_file sfile)) source blk") (auto simp: xd3_getblk_def serve_file_def Let_def split: if_splits)
  obtain f bs where w: "write_out bs (upd f (s\<lparr>src := Some source1\<rparr>)) = ok t"
    using c unfolding source_copy_def s option.case a g g1 prod.case Let_def
    by (simp add: fail_def ok_def cong: if_cong split: if_split_asm option.splits)
  from write_out_same_call [OF w] getblk_same_window [OF g1] s show ?thesis
    using write_out_other [OF w] by (auto simp: same_call_def same_window_def elim!: option.rel_cases)
qed

lemma halfinst_same_call:
  assumes c: "xd3_decode_output_halfinst sel upd s = ok t" and g: "getblk s = Some (serve_file sfile)"
  shows "same_call s t \<and> other t = other s"
proof -
  have u: "same_call s (upd f (t\<lparr>data_sect := d\<rparr>)) = same_call s t" "same_call (upd f s) t = same_call s t" for f d s t
    by (simp_all add: same_call_def)
  show ?thesis
    using c g unfolding xd3_decode_output_halfinst_def Let_def
    by (auto simp: and_then_ok fail_ok u split: if_splits list.splits
        dest: write_out_same_call target_copy_same_call write_out_other target_copy_other source_copy_same_call)
qed

text \<open>Every half instruction.\<close>

lemma halfinst_client:
  assumes c: "xd3_decode_output_halfinst sel upd s = ok t" and g: "getblk s = Some (serve_file file)"
    and busy: "unat (h_type (sel s)) \<noteq> XD3_NOOP"
  shows "xd3_decode_output_halfinst sel upd (as_client m s) = ok (as_client m t) \<or>
    (\<exists>b source m'. xd3_decode_output_halfinst sel upd (as_client m s) = Some (XD3_GETSRCBLK, b) \<and>
      give_block file b = as_client m' (s\<lparr>src := Some source\<rparr>) \<and>
      rel_option same_window (src s) (Some source) \<and> asked (give_block file b) \<and>
      xd3_decode_output_halfinst sel upd (as_client m' (s\<lparr>src := Some source\<rparr>)) = ok (as_client m' t))"
proof -
  let ?t = "unat (h_type (sel s))" and ?idle = "upd (h_type_update (\<lambda>_. of_nat XD3_NOOP))"
  consider (run) "?t = XD3_RUN" | (add) "?t = XD3_ADD"
    | (source) "?t \<noteq> XD3_RUN" "?t \<noteq> XD3_ADD" "h_addr (sel s) < dec_cpylen s"
    | (target) "?t \<noteq> XD3_RUN" "?t \<noteq> XD3_ADD" "\<not> h_addr (sel s) < dec_cpylen s" by blast
  then show ?thesis
  proof cases
    case run
    then obtain b rest s1 where s1: "sec_buf (data_sect s) = b # rest"
      "write_out (replicate (unat (h_size (sel s))) b) s = ok s1"
      "t = ?idle (s1\<lparr>data_sect := (data_sect s1)\<lparr>sec_buf := rest\<rparr>\<rparr>)"
      using c by (auto simp: xd3_decode_output_halfinst_def Let_def and_then_Some ok_def fail_def split: list.splits)
    have "as_client m t = ?idle ((as_client m s1)\<lparr>data_sect := (data_sect s1)\<lparr>sec_buf := rest\<rparr>\<rparr>)"
      unfolding s1(3) upd_client by (rule arg_cong [where f = ?idle]) (simp add: as_client_def)
    then show ?thesis
      using run s1 write_out_client [OF s1(2), of m] by (simp add: xd3_decode_output_halfinst_def Let_def)
  next
    case add
    then obtain s1 where s1: "unat (h_size (sel s)) \<le> length (sec_buf (data_sect s))"
      "write_out (take (unat (h_size (sel s))) (sec_buf (data_sect s))) s = ok s1"
      "t = ?idle (s1\<lparr>data_sect := (data_sect s1)\<lparr>sec_buf := drop (unat (h_size (sel s))) (sec_buf (data_sect s1))\<rparr>\<rparr>)"
      using c by (auto simp: xd3_decode_output_halfinst_def Let_def and_then_Some ok_def fail_def inst_types split: if_splits)
    have "as_client m t = ?idle ((as_client m s1)\<lparr>data_sect := (data_sect s1)\<lparr>sec_buf := drop (unat (h_size (sel s))) (sec_buf (data_sect s1))\<rparr>\<rparr>)"
      unfolding s1(3) upd_client by (rule arg_cong [where f = ?idle]) (simp add: as_client_def)
    then show ?thesis
      using add s1 write_out_client [OF s1(2), of m] by (simp add: xd3_decode_output_halfinst_def Let_def inst_types)
  next
    case source
    then have eq: "xd3_decode_output_halfinst sel upd u = source_copy sel upd u"
      if "sel u = sel s" "dec_cpylen u = dec_cpylen s" "dec_win_ind u = dec_win_ind s" for u
      using that c by (auto simp: xd3_decode_output_halfinst_def Let_def fail_def ok_def split: if_splits)
    have "source_copy sel upd s = ok t" using c eq by simp
    from source_copy_client [OF this g, of m] show ?thesis
    proof (elim disjE exE conjE)
      fix b x m' off
      assume b: "source_copy sel upd (as_client m s) = Some (XD3_GETSRCBLK, b)"
        "give_block file b = as_client m' (s\<lparr>src := Some x\<rparr>)" "rel_option same_window (src s) (Some x)"
        "xd3_blksize_add (cpyoff_blocks x) (cpyoff_blkoff x) x (h_addr (sel s)) = (curblkno x, off)"
        "source_copy sel upd (as_client m' (s\<lparr>src := Some x\<rparr>)) = ok (as_client m' t)"
      have "asked (give_block file b)"
        unfolding b(2) asked_def using source(3) b(4)
        by (intro exI [of _ x] exI [of _ "h_addr (sel s)"] exI [of _ off]) (simp add: as_client_def)
      then show ?thesis using b eq by auto
    qed (use eq in simp)
  next
    case target
    then show ?thesis
      using c target_copy_client [of "h_addr (sel s)" "h_size (sel s)"
          "upd (\<lambda>h. h\<lparr>h_type := of_nat XD3_NOOP, h_size := 0\<rparr>) s" t m]
      by (simp add: xd3_decode_output_halfinst_def Let_def)
  qed
qed

end

interpretation first: half_inst_client dec_current1 dec_current1_update dec_current2
  by unfold_locales (simp_all add: as_client_def)

interpretation second: half_inst_client dec_current2 dec_current2_update dec_current1
  by unfold_locales (simp_all add: as_client_def)

context half_inst_client
begin

lemma parse_halfinst_client:
  assumes c: "xd3_decode_parse_halfinst sel upd s = ok t"
  shows "xd3_decode_parse_halfinst sel upd (as_client m s) = ok (as_client m t) \<and> same_call s t"
proof -
  let ?f1 = "\<lambda>s. if h_size (sel s) = 0
        then (case xd3_read_uint32_t (sec_buf (inst_sect s)) of
             Inl (e, m) \<Rightarrow> fail XD3_INVALID_INPUT m s
           | Inr (v, rest) \<Rightarrow> ok (upd (h_size_update (\<lambda>_. v)) (s\<lparr>inst_sect := (inst_sect s)\<lparr>sec_buf := rest\<rparr>\<rparr>)))
        else ok s"
  let ?f2 = "\<lambda>s. if unat (h_type (sel s)) \<ge> XD3_CPY
        then (case xd3_decode_address (acache s) (dec_position s) (unat (h_type (sel s)) - XD3_CPY) (sec_buf (addr_sect s)) of
             None \<Rightarrow> None
           | Some (Inl (e, m)) \<Rightarrow> fail e m s
           | Some (Inr (a, ac, rest)) \<Rightarrow>
               (let s = upd (h_addr_update (\<lambda>_. a)) (s\<lparr>acache := ac, addr_sect := (addr_sect s)\<lparr>sec_buf := rest\<rparr>\<rparr>)
                in if h_addr (sel s) \<ge> dec_position s then fail XD3_INVALID_INPUT ''address too large'' s
                   else if h_addr (sel s) < dec_cpylen s \<and> h_addr (sel s) + h_size (sel s) > dec_cpylen s
                   then fail XD3_INVALID_INPUT ''size too large'' s
                   else ok s))
        else ok s"
  let ?f3 = "\<lambda>s. if dec_position s + h_size (sel s) > dec_maxpos s then fail XD3_INVALID_INPUT ''size too large'' s
     else ok (s\<lparr>dec_position := dec_position s + h_size (sel s)\<rparr>)"
  note push = as_client_inst as_client_addr as_client_pos upd_client [symmetric]
  have f1: "?f1 (as_client m u) = ok (as_client m v) \<and> same_call u v" if "?f1 u = ok v" for u v
    using that by (auto simp: ok_def fail_def push same_call_def option.rel_refl simp del: upd_client split: if_splits sum.splits prod.splits)
  have f2: "?f2 (as_client m u) = ok (as_client m v) \<and> same_call u v" if "?f2 u = ok v" for u v
    using that
    by (auto simp: ok_def fail_def push Let_def same_call_def option.rel_refl simp del: upd_client dest: decode_address_error split: if_splits option.splits sum.splits prod.splits)
  have f3: "?f3 (as_client m u) = ok (as_client m v) \<and> same_call u v" if "?f3 u = ok v" for u v
    using that by (auto simp: ok_def fail_def push same_call_def option.rel_refl simp del: upd_client split: if_splits)
  from c obtain s1 s2 where "?f1 s = ok s1" "?f2 s1 = ok s2" "?f3 s2 = ok t"
    unfolding xd3_decode_parse_halfinst_def by (auto simp: and_then_Some ok_def simp del: not_less)
  note 1 = f1 [OF this(1)] and 2 = f2 [OF this(2)] and 3 = f3 [OF this(3)]
  have "same_call s t" by (rule same_call_trans [OF conjunct2 [OF 1] same_call_trans [OF conjunct2 [OF 2] conjunct2 [OF 3]]])
  then show ?thesis
    unfolding xd3_decode_parse_halfinst_def conjunct1 [OF 1] and_then_simps conjunct1 [OF 2] conjunct1 [OF 3] by simp
qed

end

lemma instruction_client:
  assumes c: "xd3_decode_instruction s = ok t"
  shows "xd3_decode_instruction (as_client m s) = ok (as_client m t) \<and> same_call s t"
proof -
  from c obtain b rest where b: "sec_buf (inst_sect s) = b # rest" "unat b < length (code_table s)"
    by (auto simp: xd3_decode_instruction_def ok_def fail_def split: list.splits if_splits)
  define i where "i = code_table s ! unat b"
  define s1 where "s1 = s\<lparr>inst_sect := (inst_sect s)\<lparr>sec_buf := rest\<rparr>,
     dec_current1 := (dec_current1 s)\<lparr>h_type := type1 i, h_size := ucast (size1 i)\<rparr>,
     dec_current2 := (dec_current2 s)\<lparr>h_type := type2 i, h_size := ucast (size2 i)\<rparr>\<rparr>"
  let ?p1 = "\<lambda>s. if unat (type1 i) \<noteq> XD3_NOOP then xd3_decode_parse_halfinst dec_current1 dec_current1_update s else ok s"
  let ?p2 = "\<lambda>s. if unat (type2 i) \<noteq> XD3_NOOP then xd3_decode_parse_halfinst dec_current2 dec_current2_update s else ok s"
  have d: "xd3_decode_instruction s = and_then (?p1 s1) ?p2"
    using b by (simp add: xd3_decode_instruction_def Let_def i_def s1_def)
  have dc: "xd3_decode_instruction (as_client m s) = and_then (?p1 (as_client m s1)) ?p2"
  proof -
    have "(as_client m s)\<lparr>inst_sect := (inst_sect s)\<lparr>sec_buf := rest\<rparr>,
     dec_current1 := (dec_current1 s)\<lparr>h_type := type1 i, h_size := ucast (size1 i)\<rparr>,
     dec_current2 := (dec_current2 s)\<lparr>h_type := type2 i, h_size := ucast (size2 i)\<rparr>\<rparr> = as_client m s1"
      by (simp add: as_client_def s1_def)
    then show ?thesis using b by (simp add: xd3_decode_instruction_def Let_def i_def)
  qed
  obtain s2 where s2: "?p1 s1 = ok s2" "?p2 s2 = ok t" using c unfolding d by (auto simp: and_then_Some ok_def)
  have 1: "?p1 (as_client m s1) = ok (as_client m s2)" "same_call s1 s2"
    using s2(1) first.parse_halfinst_client by (auto split: if_splits)
  have 2: "?p2 (as_client m s2) = ok (as_client m t)" "same_call s2 t"
    using s2(2) second.parse_halfinst_client by (auto split: if_splits)
  have "same_call s s1" by (simp add: s1_def same_call_def option.rel_refl)
  then have "same_call s t" using 1(2) 2(2) same_call_trans by blast
  then show ?thesis using 1(1) 2(1) unfolding dc by simp
qed

section \<open>Asking until it is done\<close>

text \<open>
  \<open>asks sfile f P v t\<close>: the value \<open>v\<close> of a step is success with \<open>t\<close>, or a request for a block, after which
  \<open>f\<close> is entered again, in a state with \<open>P\<close>, and in the end succeeds with \<open>t\<close>.
\<close>

inductive asks :: "bytes \<Rightarrow> (xd3_stream \<Rightarrow> result) \<Rightarrow> (xd3_stream \<Rightarrow> bool) \<Rightarrow> result \<Rightarrow> xd3_stream \<Rightarrow> bool"
  for sfile f P where
  asks_done: "asks sfile f P (ok t) t"
| asks_block: "P (give_block sfile b) \<Longrightarrow> asks sfile f P (f (give_block sfile b)) t \<Longrightarrow>
    asks sfile f P (Some (XD3_GETSRCBLK, b)) t"

lemma asks_bind:
  assumes "asks sfile f P v s" and "\<And>s. P s \<Longrightarrow> g s = and_then (f s) h" and "asks sfile g Q (h s) t"
    and "\<And>s. P s \<Longrightarrow> Q s"
  shows "asks sfile g Q (and_then v h) t"
  using assms(1,3)
proof (induction rule: asks.induct)
  case (asks_block b s)
  then show ?case using assms(2,4) by (auto intro!: asks.asks_block)
qed simp

lemma asks_mono: "asks sfile f P v t \<Longrightarrow> (\<And>a. P a \<Longrightarrow> Q a) \<Longrightarrow> asks sfile f Q v t"
  by (induction rule: asks.induct) (auto intro: asks.intros)

text \<open>The loop of one half instruction. It is entered again in the middle of that instruction.\<close>

definition entered :: "xd3_stream \<Rightarrow> xd3_stream \<Rightarrow> bool" where
  "entered s a \<longleftrightarrow> same_call (as_client None s) a"

lemma entered_trans: "same_call s s1 \<Longrightarrow> entered s1 a \<Longrightarrow> entered s a"
  by (auto simp: entered_def same_call_def as_client_def same_window_def elim!: option.rel_cases)

definition asking ::
    "(xd3_stream \<Rightarrow> xd3_hinst) \<Rightarrow> (xd3_stream \<Rightarrow> xd3_hinst) \<Rightarrow> xd3_stream \<Rightarrow> xd3_stream \<Rightarrow> bool" where
  "asking sel other s a \<longleftrightarrow> unat (h_type (sel a)) \<noteq> XD3_NOOP \<and> other a = other s \<and> entered s a \<and> asked a"

lemma asking_trans: "same_call s s1 \<Longrightarrow> other s1 = other s \<Longrightarrow> asking sel other s1 a \<Longrightarrow> asking sel other s a"
  using entered_trans by (auto simp: asking_def)

context half_inst_client
begin

lemma output_loop_asks:
  assumes "output_loop sel upd s = ok t" "getblk s = Some (serve_file sfile)"
  shows "same_call s t \<and> other t = other s \<and> unat (h_type (sel t)) = XD3_NOOP \<and>
    (\<exists>m'. asks sfile (output_loop sel upd) (asking sel other s) (output_loop sel upd (as_client m s)) (as_client m' t))"
proof -
  have "sl = sel \<longrightarrow> ud = upd \<longrightarrow> getblk s = Some (serve_file sfile) \<longrightarrow> fst y = XD3_OK \<longrightarrow>
      same_call s (snd y) \<and> other (snd y) = other s \<and> unat (h_type (sel (snd y))) = XD3_NOOP \<and>
      (\<forall>m. \<exists>m'. asks sfile (output_loop sel upd) (asking sel other s) (output_loop sel upd (as_client m s)) (as_client m' (snd y)))"
    if "output_loop sl ud s = Some y" for sl ud s y
    using that
  proof (induction sl ud s y rule: output_loop.raw_induct [rotated, consumes 1])
    case (1 loop sl ud s y)
    show ?case
    proof (intro impI)
      assume eq: "sl = sel" "ud = upd" and g: "getblk s = Some (serve_file sfile)" and r: "fst y = XD3_OK"
      show "same_call s (snd y) \<and> other (snd y) = other s \<and> unat (h_type (sel (snd y))) = XD3_NOOP \<and>
        (\<forall>m. \<exists>m'. asks sfile (output_loop sel upd) (asking sel other s) (output_loop sel upd (as_client m s)) (as_client m' (snd y)))"
      proof (cases "unat (h_type (sel s)) = XD3_NOOP")
        case True
        then have "y = (XD3_OK, s)" "\<And>m. output_loop sel upd (as_client m s) = ok (as_client m s)"
          using 1(2) eq output_loop_idle by (simp_all add: ok_def)
        then show ?thesis using True asks_done by (metis snd_conv same_call_refl)
      next
        case False
        then obtain s1 where s1: "xd3_decode_output_halfinst sel upd s = ok s1" "loop sel upd s1 = Some y"
          using 1(2) eq r by (cases y) (auto simp: and_then_Some ok_def)
        have call: "same_call s s1 \<and> other s1 = other s" by (rule halfinst_same_call [OF s1(1) g])
        then have "getblk s1 = Some (serve_file sfile)" using g by (simp add: same_call_def)
        with 1(1) [OF s1(2)] r have IH: "same_call s1 (snd y)" "other (snd y) = other s1" "unat (h_type (sel (snd y))) = XD3_NOOP"
          "\<And>m. \<exists>m'. asks sfile (output_loop sel upd) (asking sel other s1) (output_loop sel upd (as_client m s1)) (as_client m' (snd y))"
          by blast+
        have lift: "\<exists>m'. asks sfile (output_loop sel upd) (asking sel other s) (output_loop sel upd (as_client m s1)) (as_client m' (snd y))" for m
          using IH(4) [of m] asks_mono asking_trans call by blast
        have loop: "output_loop sel upd (as_client m u) = output_loop sel upd (as_client m s1)"
          if "xd3_decode_output_halfinst sel upd (as_client m u) = ok (as_client m s1)" "sel u = sel s" for m u
          using that False by (intro output_loop_step) simp_all
        have "\<exists>m'. asks sfile (output_loop sel upd) (asking sel other s) (output_loop sel upd (as_client m s)) (as_client m' (snd y))" for m
          using halfinst_client [OF s1(1) g False, of m]
        proof (elim disjE exE conjE)
          assume "xd3_decode_output_halfinst sel upd (as_client m s) = ok (as_client m s1)"
          then show ?thesis using loop [of m s] lift by simp
        next
          fix b x m'
          assume b: "xd3_decode_output_halfinst sel upd (as_client m s) = Some (XD3_GETSRCBLK, b)"
            "give_block sfile b = as_client m' (s\<lparr>src := Some x\<rparr>)" "rel_option same_window (src s) (Some x)"
            "asked (give_block sfile b)" "xd3_decode_output_halfinst sel upd (as_client m' (s\<lparr>src := Some x\<rparr>)) = ok (as_client m' s1)"
          have "output_loop sel upd (as_client m s) = Some (XD3_GETSRCBLK, b)"
            using False b(1) by (subst output_loop.simps) simp
          moreover have "asking sel other s (give_block sfile b)"
            using False b(3,4) by (simp add: b(2) asking_def entered_def same_call_def) (simp add: as_client_def)
          moreover have "output_loop sel upd (give_block sfile b) = output_loop sel upd (as_client m' s1)"
            unfolding b(2) by (rule loop [OF b(5)]) simp
          ultimately show ?thesis using lift [of m'] by (auto intro!: asks_block)
        qed
        then show ?thesis using IH call same_call_trans [of s s1] by metis
      qed
    qed
  qed
  from this [OF assms(1) [unfolded ok_def]] show ?thesis using assms(2) by simp
qed

end

section \<open>The window loop\<close>

text \<open>A window is entered again in the middle of an instruction.\<close>

definition busy_call :: "xd3_stream \<Rightarrow> xd3_stream \<Rightarrow> bool" where
  "busy_call s a \<longleftrightarrow> \<not> both_idle a \<and> entered s a \<and> asked a"

definition write_halves :: "xd3_stream \<Rightarrow> result" where
  "write_halves s = and_then (output_loop dec_current1 dec_current1_update s) (\<lambda>s.
     and_then (output_loop dec_current2 dec_current2_update s) emit_loop)"

lemma emit_loop_busy: "\<not> both_idle s \<Longrightarrow> emit_loop s = write_halves s"
  by (subst emit_loop.simps) (simp add: write_halves_def)

lemma write_halves_asks:
  assumes 1: "output_loop dec_current1 dec_current1_update s = ok s1"
    and 2: "output_loop dec_current2 dec_current2_update s1 = ok s2"
    and g: "getblk s = Some (serve_file sfile)"
    and e: "\<And>m. asks sfile emit_loop (busy_call s2) (emit_loop (as_client m s2)) (as_client (k m) t)"
  shows "\<exists>m'. asks sfile emit_loop (busy_call s) (write_halves (as_client m s)) (as_client m' t)"
proof -
  obtain m1 where a1: "same_call s s1" "unat (h_type (dec_current1 s1)) = XD3_NOOP"
    "asks sfile (output_loop dec_current1 dec_current1_update) (asking dec_current1 dec_current2 s)
       (output_loop dec_current1 dec_current1_update (as_client m s)) (as_client m1 s1)"
    using first.output_loop_asks [OF 1 g] by blast
  have g1: "getblk s1 = Some (serve_file sfile)" using a1(1) g by (simp add: same_call_def)
  obtain m2 where a2: "same_call s1 s2" "dec_current1 s2 = dec_current1 s1"
    "asks sfile (output_loop dec_current2 dec_current2_update) (asking dec_current2 dec_current1 s1)
       (output_loop dec_current2 dec_current2_update (as_client m1 s1)) (as_client m2 s2)"
    using second.output_loop_asks [OF 2 g1] by blast
  have e2: "asks sfile emit_loop (busy_call s1) (emit_loop (as_client m2 s2)) (as_client (k m2) t)"
    by (rule asks_mono [OF e]) (use a2(1) entered_trans in \<open>auto simp: busy_call_def\<close>)
  have again: "emit_loop a = and_then (output_loop dec_current2 dec_current2_update a) emit_loop"
    if "asking dec_current2 dec_current1 s1 a" for a
  proof -
    have "\<not> both_idle a" "dec_current1 a = dec_current1 s1" using that by (simp_all add: asking_def both_idle_def)
    then show ?thesis
      using first.output_loop_idle [of a] a1(2) by (simp add: emit_loop_busy write_halves_def)
  qed
  have b2: "asks sfile emit_loop (busy_call s1)
      (and_then (output_loop dec_current2 dec_current2_update (as_client m1 s1)) emit_loop) (as_client (k m2) t)"
    by (rule asks_bind [OF a2(3) again e2]) (auto simp: asking_def busy_call_def both_idle_def)
  have "asks sfile emit_loop (busy_call s) (write_halves (as_client m s)) (as_client (k m2) t)"
    unfolding write_halves_def
  proof (rule asks_bind [OF a1(3)])
    fix a assume a: "asking dec_current1 dec_current2 s a"
    then show "busy_call s a" by (auto simp: asking_def busy_call_def both_idle_def)
    then show "emit_loop a = and_then (output_loop dec_current1 dec_current1_update a)
        (\<lambda>s. and_then (output_loop dec_current2 dec_current2_update s) emit_loop)"
      by (simp add: busy_call_def emit_loop_busy write_halves_def)
  next
    show "asks sfile emit_loop (busy_call s)
       (and_then (output_loop dec_current2 dec_current2_update (as_client m1 s1)) emit_loop) (as_client (k m2) t)"
      by (rule asks_mono [OF b2]) (use a1(1) entered_trans in \<open>auto simp: busy_call_def\<close>)
  qed
  then show ?thesis by blast
qed

lemma emit_loop_asks:
  assumes "emit_loop s = ok t" "getblk s = Some (serve_file sfile)"
  shows "\<exists>m'. asks sfile emit_loop (busy_call s) (emit_loop (as_client m s)) (as_client m' t)"
proof -
  have "getblk s = Some (serve_file sfile) \<longrightarrow> fst y = XD3_OK \<longrightarrow>
      (\<forall>m. \<exists>m'. asks sfile emit_loop (busy_call s) (emit_loop (as_client m s)) (as_client m' (snd y)))"
    if "emit_loop s = Some y" for s y
    using that
  proof (induction s y rule: emit_loop.raw_induct [rotated, consumes 1])
    case (1 loop s y)
    show ?case
    proof (intro impI allI)
      fix m
      assume g: "getblk s = Some (serve_file sfile)" and r: "fst y = XD3_OK"
      show "\<exists>m'. asks sfile emit_loop (busy_call s) (emit_loop (as_client m s)) (as_client m' (snd y))"
      proof (cases "sec_buf (inst_sect s) \<noteq> [] \<or> \<not> both_idle s")
        case False
        then have "y = (XD3_OK, s)" "emit_loop (as_client m s) = ok (as_client m s)"
          using 1(2) by (simp add: ok_def, subst emit_loop.simps, simp)
        then show ?thesis using asks_done by (metis snd_conv)
      next
        case True
        with 1(2) r obtain s1 s2 s3 where s: "(if both_idle s then xd3_decode_instruction s else ok s) = ok s1"
          "output_loop dec_current1 dec_current1_update s1 = ok s2"
          "output_loop dec_current2 dec_current2_update s2 = ok s3" "loop s3 = Some y"
          by (cases y) (auto simp: and_then_Some ok_def)
        have c: "(if both_idle s then xd3_decode_instruction (as_client m s) else ok (as_client m s)) = ok (as_client m s1)"
          "same_call s s1"
          using s(1) instruction_client [of s s1 m] by (auto split: if_splits)
        have g1: "getblk s1 = Some (serve_file sfile)" using c(2) g by (simp add: same_call_def)
        note c2 = first.output_loop_asks [OF s(2) g1]
        then have g2: "getblk s2 = Some (serve_file sfile)" using g1 by (simp add: same_call_def)
        note c3 = second.output_loop_asks [OF s(3) g2]
        then have g3: "getblk s3 = Some (serve_file sfile)" using g2 by (simp add: same_call_def)
        obtain k where k: "\<And>m. asks sfile emit_loop (busy_call s3) (emit_loop (as_client m s3)) (as_client (k m) (snd y))"
          using 1(1) [OF s(4)] g3 r by metis
        obtain m' where "asks sfile emit_loop (busy_call s1) (write_halves (as_client m s1)) (as_client m' (snd y))"
          using write_halves_asks [OF s(2,3) g1 k] by blast
        then have "asks sfile emit_loop (busy_call s) (write_halves (as_client m s1)) (as_client m' (snd y))"
          by (rule asks_mono) (use c(2) entered_trans in \<open>auto simp: busy_call_def\<close>)
        moreover have "emit_loop (as_client m s) = write_halves (as_client m s1)"
        proof -
          have "emit_loop (as_client m s) = and_then (if both_idle s then xd3_decode_instruction (as_client m s)
              else ok (as_client m s)) write_halves"
            using True by (subst emit_loop.simps) (simp add: write_halves_def [abs_def])
          then show ?thesis using c(1) by simp
        qed
        ultimately show ?thesis by auto
      qed
    qed
  qed
  from this [OF assms(1) [unfolded ok_def]] show ?thesis using assms(2) by simp
qed

section \<open>The call\<close>

text \<open>The client calls, and answers every request for a block (each in a state with \<open>P\<close>), until the decoder
  returns something else.\<close>

inductive answered ::
    "bytes \<Rightarrow> (xd3_stream \<Rightarrow> result) \<Rightarrow> (xd3_stream \<Rightarrow> bool) \<Rightarrow> result \<Rightarrow> xd3_ret \<Rightarrow> xd3_stream \<Rightarrow> bool"
  for sfile dec P where
  answered_end: "r \<noteq> XD3_GETSRCBLK \<Longrightarrow> answered sfile dec P (Some (r, t)) r t"
| answered_block: "P (give_block sfile b) \<Longrightarrow> answered sfile dec P (dec (give_block sfile b)) r t \<Longrightarrow>
    answered sfile dec P (Some (XD3_GETSRCBLK, b)) r t"

text \<open>What follows the loop.\<close>

definition check_window :: "'l::len itself \<Rightarrow> xd3_stream \<Rightarrow> result" where
  "check_window l s =
     (if avail_out s \<noteq> dec_tgtlen s then fail XD3_INVALID_INPUT ''wrong window length'' s
       else if sec_buf (data_sect s) \<noteq> [] then fail XD3_INVALID_INPUT ''extra data section'' s
       else if sec_buf (addr_sect s) \<noteq> [] then fail XD3_INVALID_INPUT ''extra address section'' s
       else if dec_win_ind s AND VCD_ADLER32 \<noteq> 0 \<and> flags s AND XD3_ADLER32_NOVER = 0
       then
         (case window_bytes s of
            None \<Rightarrow> None
          | Some bs \<Rightarrow>
              (if window_adler32 l bs \<noteq> dec_adler32 s
               then fail XD3_INVALID_INPUT ''target window checksum mismatch'' s
               else xd3_decode_finish_window s))
       else xd3_decode_finish_window s)"

lemma decode_emit_check: "xd3_decode_emit l s = and_then (emit_loop s) (check_window l)"
  by (simp add: xd3_decode_emit_def check_window_def [abs_def])

lemma check_window_client:
  "check_window l s = Some (XD3_OUTPUT, t) \<Longrightarrow> check_window l (as_client m s) = Some (XD3_OUTPUT, as_client m t)"
proof -
  assume c: "check_window l s = Some (XD3_OUTPUT, t)"
  have w: "window_bytes (as_client m s) = window_bytes s" by (rule window_bytes_cong) (simp_all add: as_client_def)
  have f: "dec_tgtlen (as_client m s) = dec_tgtlen s" "flags (as_client m s) = flags s" "dec_adler32 (as_client m s) = dec_adler32 s"
    by (simp_all add: as_client_def)
  have "xd3_decode_finish_window (as_client m u) = Some (XD3_OUTPUT, as_client m (snd (the (xd3_decode_finish_window u))))" for u
    by (simp add: xd3_decode_finish_window_def as_client_def)
  moreover have "xd3_decode_finish_window s = Some (XD3_OUTPUT, t)"
    using c by (auto simp: check_window_def fail_def split: if_splits option.splits)
  ultimately show ?thesis
    using c unfolding check_window_def w f as_client_fields
    by (auto simp: fail_def split: if_splits option.splits)
qed

text \<open>Where the copy window starts is found again each time.\<close>

lemma source_blocks_cases:
  assumes "source_blocks s = ok s'"
  obtains "dec_win_ind s AND VCD_SOURCE = 0" "s' = s"
  | x no off where "dec_win_ind s AND VCD_SOURCE \<noteq> 0" "src s = Some x" "xd3_blksize_div (dec_cpyoff s) x = (no, off)"
    "s' = s\<lparr>src := Some (x\<lparr>cpyoff_blocks := no, cpyoff_blkoff := off\<rparr>)\<rparr>"
  using assms by (auto simp: source_blocks_def fail_ok split: if_splits option.splits prod.splits)

lemma source_blocks_again:
  assumes "source_blocks s = ok s'"
  shows "source_blocks s' = ok s'" and "getblk s' = getblk s" "dec_state s' = dec_state s" "enc_state s' = enc_state s"
    and "source_blocks (as_client m s) = ok (as_client m s')"
proof -
  have "source_blocks s' = ok s' \<and> getblk s' = getblk s \<and> dec_state s' = dec_state s \<and> enc_state s' = enc_state s \<and>
    source_blocks (as_client m s) = ok (as_client m s')"
    using assms
  proof (cases rule: source_blocks_cases)
    case 1
    then show ?thesis by (simp add: source_blocks_def)
  next
    case (2 x no off)
    have "xd3_blksize_div (dec_cpyoff s) (x\<lparr>cpyoff_blocks := no, cpyoff_blkoff := off\<rparr>) = (no, off)"
      using 2(3) by (simp add: xd3_blksize_div_def)
    then show ?thesis using 2 by (simp add: source_blocks_def as_client_def)
  qed
  then show "source_blocks s' = ok s'" "getblk s' = getblk s" "dec_state s' = dec_state s" "enc_state s' = enc_state s"
    "source_blocks (as_client m s) = ok (as_client m s')" by blast+
qed

lemma source_blocks_entered:
  assumes "source_blocks s = ok s" "entered s a"
  shows "source_blocks a = ok a"
proof (cases "dec_win_ind s AND VCD_SOURCE = 0")
  case True
  then show ?thesis using assms(2) by (simp add: source_blocks_def entered_def same_call_def as_client_def)
next
  case False
  then obtain x where x: "src s = Some x" using assms(1) by (auto simp: source_blocks_def fail_ok split: option.splits)
  then obtain y where y: "src a = Some y" "same_window x y"
    using assms(2) by (auto simp: entered_def same_call_def as_client_def elim: option.rel_cases)
  obtain no off where d: "xd3_blksize_div (dec_cpyoff s) x = (no, off)" by fastforce
  have "s\<lparr>src := Some (x\<lparr>cpyoff_blocks := no, cpyoff_blkoff := off\<rparr>)\<rparr> = s"
    using assms(1) False x d by (simp add: source_blocks_def)
  then have "src (s\<lparr>src := Some (x\<lparr>cpyoff_blocks := no, cpyoff_blkoff := off\<rparr>)\<rparr>) = src s" by metis
  then have "x\<lparr>cpyoff_blocks := no, cpyoff_blkoff := off\<rparr> = x" using x by simp
  then have "no = cpyoff_blocks x \<and> off = cpyoff_blkoff x" by (metis xd3_source.select_convs(10,11) xd3_source.surjective xd3_source.update_convs(10,11))
  then have "xd3_blksize_div (dec_cpyoff a) y = (cpyoff_blocks y, cpyoff_blkoff y)"
    using d y(2) assms(2) by (simp add: xd3_blksize_div_def same_window_def entered_def same_call_def as_client_def)
  moreover have "a\<lparr>src := Some y\<rparr> = a" using y(1) by (cases a) simp
  ultimately show ?thesis using y(1) assms(2) False
    by (simp add: source_blocks_def entered_def same_call_def as_client_def)
qed

definition count_output :: "xd3_ret \<times> xd3_stream \<Rightarrow> xd3_ret \<times> xd3_stream" where
  "count_output x = (fst x,
     if fst x = XD3_OUTPUT then (snd x)\<lparr>total_out := total_out (snd x) + ucast (avail_out (snd x))\<rparr> else snd x)"

lemma dec_EMIT_output:
  "dec_EMIT l s = and_then (source_blocks s) (\<lambda>s. map_option count_output (and_then (emit_loop s) (check_window l)))"
proof -
  have "(case p of None \<Rightarrow> None | Some (ret, s') \<Rightarrow> Some (ret, if ret = XD3_OUTPUT
      then s'\<lparr>total_out := total_out s' + ucast (avail_out s')\<rparr> else s')) = map_option count_output p" for p
    by (auto simp: count_output_def split: option.splits prod.splits)
  then show ?thesis by (simp add: dec_EMIT_def decode_emit_check)
qed

lemma answered_emit:
  assumes "asks sfile emit_loop (busy_call s) v z" and "source_blocks s = ok s" "dec_state s = DEC_EMIT" "enc_state s = 0"
    and "check_window l z = Some (XD3_OUTPUT, t)"
  shows "answered sfile (xd3_decode_input l dm) (busy_call s)
    (map_option count_output (and_then v (check_window l))) XD3_OUTPUT (snd (count_output (XD3_OUTPUT, t)))"
  using assms(1,5)
proof (induction rule: asks.induct)
  case (asks_done z)
  then show ?case by (simp add: count_output_def answered_end)
next
  case (asks_block b z)
  let ?a = "give_block sfile b"
  have e: "entered s ?a" using asks_block.hyps by (simp add: busy_call_def)
  then have "xd3_decode_input l dm ?a = dec_EMIT l ?a"
    using assms(3,4) by (simp add: xd3_decode_input_def entered_def same_call_def as_client_def)
  then show ?case
    using asks_block source_blocks_entered [OF assms(2) e]
      answered_block [of "busy_call s" sfile b "xd3_decode_input l dm" XD3_OUTPUT "snd (count_output (XD3_OUTPUT, t))"]
    by (simp add: dec_EMIT_output) (simp add: count_output_def)
qed

lemma emit_answered:
  assumes "source_blocks s = ok s1" "emit_loop s1 = ok u" "check_window l u = Some (XD3_OUTPUT, t)"
    and g: "getblk s = Some (serve_file sfile)" and st: "dec_state s = DEC_EMIT" "enc_state s = 0"
  shows "\<exists>m'. answered sfile (xd3_decode_input l dm) (busy_call s1) (xd3_decode_input l dm (as_client m s)) XD3_OUTPUT
    (as_client m' (snd (count_output (XD3_OUTPUT, t))))"
proof -
  note b = source_blocks_again [OF assms(1)]
  obtain m' where a: "asks sfile emit_loop (busy_call s1) (emit_loop (as_client m s1)) (as_client m' u)"
    using emit_loop_asks [OF assms(2)] g b(2) by metis
  have d: "xd3_decode_input l dm (as_client m s) = map_option count_output
      (and_then (emit_loop (as_client m s1)) (check_window l))"
    using st b(5) [of m] by (simp add: xd3_decode_input_def dec_EMIT_output as_client_def)
  have c: "as_client m' (snd (count_output (XD3_OUTPUT, t))) = snd (count_output (XD3_OUTPUT, as_client m' t))"
    by (simp add: count_output_def as_client_def)
  show ?thesis
    using answered_emit [OF a b(1) _ _ check_window_client [OF assms(3)], of dm] b(3,4) st
    unfolding d c [symmetric] by auto
qed

end
