(* ===== verification/Pieces.thy ===== *)
theory Pieces
  imports Resume Ask
begin

text \<open>
  A header that comes in pieces. Every state of the decoder from \<^verbatim>\<open>DEC_VCHEAD\<close> to
  \<^verbatim>\<open>DEC_CKSUM\<close> reads with the interruptible readers of \<open>Resume\<close>, so it can be stopped and
  called again; a client that hands over its input piece by piece gets what it would get
  from one call with all of it.
\<close>

section \<open>States that can be stopped\<close>

text \<open>As \<open>stops\<close>, for the whole decoder \<open>again\<close>: it may be called again in any state of the header.\<close>

definition halts :: "(xd3_stream \<Rightarrow> result) \<Rightarrow> bytes \<Rightarrow> result \<Rightarrow> xd3_ret \<Rightarrow> xd3_stream \<Rightarrow> bool" where
  "halts again y p r u \<longleftrightarrow>
     (\<exists>i. i @ y = next_in u \<and> quiet p = Some (r, hush (u\<lparr>next_in := i\<rparr>))) \<or>
     (\<exists>t. p = Some (XD3_INPUT, t) \<and> dec_state t \<le> DEC_CKSUM \<and> enc_state t = 0 \<and>
       (\<forall>m. quiet (again (t\<lparr>next_in := y, msg := m\<rparr>)) = Some (r, hush u)))"

definition passes :: "(xd3_stream \<Rightarrow> result) \<Rightarrow> (xd3_stream \<Rightarrow> result) \<Rightarrow> bool" where
  "passes again g \<longleftrightarrow>
     (\<forall>s m. enc_state s = 0 \<longrightarrow> quiet (g (s\<lparr>msg := m\<rparr>)) = quiet (g s)) \<and>
     (\<forall>s y r u. enc_state s = 0 \<longrightarrow> g (s\<lparr>next_in := next_in s @ y\<rparr>) = Some (r, u) \<longrightarrow> halts again y (g s) r u)"

definition resumes :: "(xd3_stream \<Rightarrow> result) \<Rightarrow> (xd3_stream \<Rightarrow> bool) \<Rightarrow> bool" where
  "resumes again C \<longleftrightarrow>
     (\<forall>s m. C s \<longrightarrow> enc_state s = 0 \<longrightarrow> quiet (again (s\<lparr>msg := m\<rparr>)) = quiet (again s)) \<and>
     (\<forall>s y r u. C s \<longrightarrow> enc_state s = 0 \<longrightarrow> again (s\<lparr>next_in := next_in s @ y\<rparr>) = Some (r, u) \<longrightarrow>
        halts again y (again s) r u)"

lemma readerD:
  "reader f \<Longrightarrow> quiet (f (s\<lparr>msg := m\<rparr>)) = quiet (f s)"
  "reader f \<Longrightarrow> f s = Some (r, u) \<Longrightarrow> enc_state u = enc_state s"
  "reader f \<Longrightarrow> f (s\<lparr>next_in := next_in s @ y\<rparr>) = Some (r, u) \<Longrightarrow> stops (same_state s) f y (f s) r u"
  by (simp_all add: reader_def ignores_msg_def)

lemma passes_msg: "passes again g \<Longrightarrow> enc_state s = 0 \<Longrightarrow> quiet (g (s\<lparr>msg := m\<rparr>)) = quiet (g s)"
  by (simp add: passes_def)

lemma passesD:
  "passes again g \<Longrightarrow> enc_state s = 0 \<Longrightarrow> g (s\<lparr>next_in := next_in s @ y\<rparr>) = Some (r, u) \<Longrightarrow> halts again y (g s) r u"
  by (simp add: passes_def)

lemma same_state_fields:
  "same_state s (s\<lparr>next_in := i\<rparr>)" "same_state s (s\<lparr>msg := m\<rparr>)" "same_state s (s\<lparr>next_in := i, msg := m\<rparr>)"
  by (simp_all add: same_state_def)

lemma halts_now:
  "i @ y = next_in u \<Longrightarrow> quiet p = Some (r, hush (u\<lparr>next_in := i\<rparr>)) \<Longrightarrow> halts again y p r u"
  by (auto simp: halts_def)

lemma halts_quiet:
  assumes "halts again y p r u" "quiet q = quiet p"
  shows "halts again y q r u"
  using assms(1) unfolding halts_def
proof (elim disjE exE conjE)
  fix i assume "i @ y = next_in u" "quiet p = Some (r, hush (u\<lparr>next_in := i\<rparr>))"
  then show "(\<exists>i. i @ y = next_in u \<and> quiet q = Some (r, hush (u\<lparr>next_in := i\<rparr>))) \<or>
     (\<exists>t. q = Some (XD3_INPUT, t) \<and> dec_state t \<le> DEC_CKSUM \<and> enc_state t = 0 \<and>
       (\<forall>m. quiet (again (t\<lparr>next_in := y, msg := m\<rparr>)) = Some (r, hush u)))"
    using assms(2) by auto
next
  fix t assume t: "p = Some (XD3_INPUT, t)" "dec_state t \<le> DEC_CKSUM" "enc_state t = 0"
    "\<forall>m. quiet (again (t\<lparr>next_in := y, msg := m\<rparr>)) = Some (r, hush u)"
  then have "quiet q = Some (XD3_INPUT, hush t)" using assms(2) by simp
  then obtain m where "q = Some (XD3_INPUT, t\<lparr>msg := m\<rparr>)" by (auto simp: quiet_Some)
  then show "(\<exists>i. i @ y = next_in u \<and> quiet q = Some (r, hush (u\<lparr>next_in := i\<rparr>))) \<or>
     (\<exists>t. q = Some (XD3_INPUT, t) \<and> dec_state t \<le> DEC_CKSUM \<and> enc_state t = 0 \<and>
       (\<forall>m. quiet (again (t\<lparr>next_in := y, msg := m\<rparr>)) = Some (r, hush u)))"
    using t by auto
qed

lemma halts_hush: "halts again y p r (u\<lparr>msg := m\<rparr>) = halts again y p r u"
  by (simp add: halts_def hush_def)

text \<open>One step: a reader, then what needs no more input than the reader left.\<close>

lemma quiet_and_then:
  assumes "quiet p = quiet q" "\<And>s m. q = Some (XD3_OK, s) \<Longrightarrow> quiet (g (s\<lparr>msg := m\<rparr>)) = quiet (g s)"
  shows "quiet (and_then p g) = quiet (and_then q g)"
proof (cases q)
  case None
  then show ?thesis using assms(1) by (cases p) (auto simp: quiet_def)
next
  case (Some z)
  obtain r s where z: "z = (r, s)" by (cases z)
  then obtain m where p: "p = Some (r, s\<lparr>msg := m\<rparr>)"
    using assms(1) Some quiet_Some [of p r s] by auto
  show ?thesis using p Some z assms(2) [of s m] by auto
qed

lemma resumes_step:
  assumes f: "reader f" and g: "passes again g"
    and C: "\<And>s t. same_state s t \<Longrightarrow> C s \<Longrightarrow> C t"
    and state: "\<And>s. C s \<Longrightarrow> dec_state s \<le> DEC_CKSUM"
    and step: "\<And>s. C s \<Longrightarrow> enc_state s = 0 \<Longrightarrow> again s = and_then (f s) g"
  shows "resumes again C"
proof -
  have enc: "f s = Some (r, u) \<Longrightarrow> enc_state u = enc_state s" for s r u using f by (auto simp: reader_def)
  have fm: "quiet (f (s\<lparr>msg := m\<rparr>)) = quiet (f s)" for s m using f by (simp add: reader_def ignores_msg_def)
  have gm: "enc_state s = 0 \<Longrightarrow> quiet (g (s\<lparr>msg := m\<rparr>)) = quiet (g s)" for s m using g by (simp add: passes_def)
  have msg: "quiet (again (s\<lparr>msg := m\<rparr>)) = quiet (again s)" if "C s" "enc_state s = 0" for s m
  proof -
    have "C (s\<lparr>msg := m\<rparr>)" using C same_state_fields(2) that(1) by blast
    then show ?thesis
      using that step [of s] step [of "s\<lparr>msg := m\<rparr>"] enc [of s] gm
      by (auto intro!: quiet_and_then simp: fm)
  qed
  have "halts again y (again s) r u"
    if c: "C s" "enc_state s = 0" and a: "again (s\<lparr>next_in := next_in s @ y\<rparr>) = Some (r, u)" for s y r u
  proof -
    let ?s = "s\<lparr>next_in := next_in s @ y\<rparr>"
    have cs: "C ?s" using C same_state_fields(1) c(1) by blast
    have run: "and_then (f ?s) g = Some (r, u)" using a step [OF cs] c(2) by simp
    obtain r1 v where v: "f ?s = Some (r1, v)" using run by (cases "f ?s") auto
    have st: "stops (same_state s) f y (f s) r1 v" using f v by (auto simp: reader_def)
    then show ?thesis unfolding stops_def
    proof (elim disjE exE conjE)
      fix i assume i: "i @ y = next_in v" "quiet (f s) = Some (r1, hush (v\<lparr>next_in := i\<rparr>))"
      then obtain m where fs: "f s = Some (r1, v\<lparr>next_in := i, msg := m\<rparr>)" by (auto simp: quiet_Some)
      show ?thesis
      proof (cases "r1 = XD3_OK")
        case True
        let ?v = "v\<lparr>next_in := i\<rparr>"
        have e: "enc_state ?v = 0" using enc [OF v] c(2) by simp
        have "g (?v\<lparr>next_in := next_in ?v @ y\<rparr>) = Some (r, u)" using run v True i(1) by simp
        then have "halts again y (g ?v) r u" using g e unfolding passes_def by blast
        then have "halts again y (g (?v\<lparr>msg := m\<rparr>)) r u" using gm [OF e] by (rule halts_quiet)
        then show ?thesis using step [OF c] fs True by simp
      next
        case False
        then show ?thesis
          using run v step [OF c] fs i by (intro halts_now [where i = i]) auto
      qed
    next
      fix t assume t: "f s = Some (XD3_INPUT, t)" "same_state s t"
        "quiet (f (t\<lparr>next_in := y\<rparr>)) = Some (r1, hush v)"
      have ct: "C (t\<lparr>next_in := y, msg := m\<rparr>)" for m using C [OF t(2) c(1)] C same_state_fields(3) by blast
      have et: "enc_state t = 0" using t(2) c(2) by (simp add: same_state_def)
      have "quiet (again (t\<lparr>next_in := y, msg := m\<rparr>)) = Some (r, hush u)" for m
      proof -
        have "quiet (f (t\<lparr>next_in := y, msg := m\<rparr>)) = Some (r1, hush v)" using t(3) fm [where s = "t\<lparr>next_in := y\<rparr>" and m = m] by simp
        then obtain m' where f': "f (t\<lparr>next_in := y, msg := m\<rparr>) = Some (r1, v\<lparr>msg := m'\<rparr>)" by (auto simp: quiet_Some)
        have "quiet (and_then (Some (r1, v\<lparr>msg := m'\<rparr>)) g) = Some (r, hush u)"
          using run v gm [of v m'] enc [OF v] c(2) by auto
        then show ?thesis using step [OF ct] et f' by simp
      qed
      then show ?thesis
        using t(1) step [OF c] state [OF C [OF t(2) c(1)]] et unfolding halts_def by auto
    qed
  qed
  then show ?thesis using msg by (simp add: resumes_def)
qed

lemma resumes_cases:
  assumes "resumes again C" "resumes again D" "\<And>s. E s \<Longrightarrow> C s \<or> D s"
  shows "resumes again E"
  using assms unfolding resumes_def by blast

section \<open>What follows a reader\<close>

definition quiet_upd :: "(xd3_stream \<Rightarrow> xd3_stream) \<Rightarrow> bool" where
  "quiet_upd h \<longleftrightarrow> (\<forall>s i. h (s\<lparr>next_in := i\<rparr>) = (h s)\<lparr>next_in := i\<rparr>) \<and>
     (\<forall>s m. h (s\<lparr>msg := m\<rparr>) = (h s)\<lparr>msg := m\<rparr>) \<and>
     (\<forall>s. next_in (h s) = next_in s \<and> enc_state (h s) = enc_state s)"

definition quiet_test :: "(xd3_stream \<Rightarrow> 'a) \<Rightarrow> bool" where
  "quiet_test c \<longleftrightarrow> (\<forall>s i. c (s\<lparr>next_in := i\<rparr>) = c s) \<and> (\<forall>s m. c (s\<lparr>msg := m\<rparr>) = c s)"

lemma passes_end:
  assumes "quiet_test c"
  shows "passes again (\<lambda>s. Some (c s, s))" "passes again (fail r m)"
proof -
  have c: "c (s\<lparr>next_in := i\<rparr>) = c s" "c (s\<lparr>msg := m\<rparr>) = c s" for s i m using assms by (simp_all add: quiet_test_def)
  show "passes again (\<lambda>s. Some (c s, s))" using c by (fastforce simp: passes_def intro!: halts_now)
  show "passes again (fail r m)" by (fastforce simp: passes_def fail_def intro!: halts_now)
qed

lemma passes_fail: "passes again (fail r m)"
  by (rule passes_end(2) [where c = "\<lambda>_. XD3_OK"]) (simp add: quiet_test_def)

lemma passes_fail_goto: "passes again (\<lambda>s. fail r m (s\<lparr>dec_state := D\<rparr>))"
  by (fastforce simp: passes_def fail_def hush_def intro!: halts_now)

lemma passes_if:
  assumes "quiet_test c" "passes again g" "passes again h"
  shows "passes again (\<lambda>s. if c s then g s else h s)"
  using assms unfolding passes_def quiet_test_def by (auto split: if_splits)

lemma passes_upd:
  assumes h: "quiet_upd h" and g: "passes again g"
  shows "passes again (\<lambda>s. g (h s))"
  unfolding passes_def
proof (intro conjI allI impI)
  have e: "enc_state (h s) = enc_state s" "next_in (h s) = next_in s"
    "h (s\<lparr>next_in := i\<rparr>) = (h s)\<lparr>next_in := i\<rparr>" "h (s\<lparr>msg := m\<rparr>) = (h s)\<lparr>msg := m\<rparr>" for s i m
    using h by (simp_all add: quiet_upd_def)
  show "quiet (g (h (s\<lparr>msg := m\<rparr>))) = quiet (g (h s))" if "enc_state s = 0" for s m
    using g that e by (simp add: passes_def)
  show "halts again y (g (h s)) r u"
    if "enc_state s = 0" "g (h (s\<lparr>next_in := next_in s @ y\<rparr>)) = Some (r, u)" for s y r u
  proof -
    have "g ((h s)\<lparr>next_in := next_in (h s) @ y\<rparr>) = Some (r, u)" using that(2) e by simp
    then show ?thesis using g that(1) e unfolding passes_def by metis
  qed
qed

lemma passes_goto:
  assumes "resumes again (\<lambda>s. dec_state s = D)"
    and "\<And>s. dec_state s = D \<Longrightarrow> enc_state s = 0 \<Longrightarrow> again s = F s"
  shows "passes again (\<lambda>s. F (s\<lparr>dec_state := D\<rparr>))"
  unfolding passes_def
proof (intro conjI allI impI)
  fix s :: xd3_stream and m assume e: "enc_state s = 0"
  let ?s = "s\<lparr>dec_state := D\<rparr>"
  have m: "quiet (again (?s\<lparr>msg := m\<rparr>)) = quiet (again ?s)"
    using assms(1) e unfolding resumes_def by simp
  have eq: "s\<lparr>msg := m, dec_state := D\<rparr> = ?s\<lparr>msg := m\<rparr>" by simp
  show "quiet (F (s\<lparr>msg := m, dec_state := D\<rparr>)) = quiet (F ?s)"
    unfolding eq using m e assms(2) [of ?s] assms(2) [of "?s\<lparr>msg := m\<rparr>"] by simp
next
  fix s :: xd3_stream and y r u
  assume e: "enc_state s = 0" and a: "F (s\<lparr>next_in := next_in s @ y, dec_state := D\<rparr>) = Some (r, u)"
  let ?s = "s\<lparr>dec_state := D\<rparr>"
  have eq: "s\<lparr>next_in := next_in s @ y, dec_state := D\<rparr> = ?s\<lparr>next_in := next_in ?s @ y\<rparr>" by simp
  have "again (?s\<lparr>next_in := next_in ?s @ y\<rparr>) = Some (r, u)"
    using a [unfolded eq] e assms(2) [of "?s\<lparr>next_in := next_in ?s @ y\<rparr>"] by simp
  then have "halts again y (again ?s) r u" using assms(1) e unfolding resumes_def by fastforce
  then show "halts again y (F ?s) r u" using e assms(2) [of ?s] by simp
qed


text \<open>Steps that do not look at the input, such as an allocation.\<close>

definition no_input :: "(xd3_stream \<Rightarrow> result) \<Rightarrow> bool" where
  "no_input p \<longleftrightarrow> (\<forall>s i. p (s\<lparr>next_in := i\<rparr>) = map_option (apsnd (next_in_update (\<lambda>_. i))) (p s)) \<and>
     (\<forall>s m. quiet (p (s\<lparr>msg := m\<rparr>)) = quiet (p s)) \<and>
     (\<forall>s r u. p s = Some (r, u) \<longrightarrow> next_in u = next_in s \<and> enc_state u = enc_state s)"

lemma passes_no_input:
  assumes p: "no_input p" and g: "passes again g"
  shows "passes again (\<lambda>s. and_then (p s) g)"
  unfolding passes_def
proof (intro conjI allI impI)
  have keep: "p s = Some (r, u) \<Longrightarrow> next_in u = next_in s \<and> enc_state u = enc_state s" for s r u
    using p unfolding no_input_def by blast
  have moved: "p (s\<lparr>next_in := i\<rparr>) = map_option (apsnd (next_in_update (\<lambda>_. i))) (p s)" for s i
    using p unfolding no_input_def by blast
  show "quiet (and_then (p (s\<lparr>msg := m\<rparr>)) g) = quiet (and_then (p s) g)" if e: "enc_state s = 0" for s m
  proof (rule quiet_and_then)
    show "quiet (p (s\<lparr>msg := m\<rparr>)) = quiet (p s)" using p unfolding no_input_def by blast
    show "quiet (g (t\<lparr>msg := n\<rparr>)) = quiet (g t)" if "p s = Some (XD3_OK, t)" for t n
      using keep [OF that] e by (intro passes_msg [OF g]) simp
  qed
  show "halts again y (and_then (p s) g) r u"
    if e: "enc_state s = 0" and a: "and_then (p (s\<lparr>next_in := next_in s @ y\<rparr>)) g = Some (r, u)" for s y r u
  proof -
    obtain r1 v where v: "p s = Some (r1, v)"
      using a moved [of "next_in s @ y" s] by (cases "p s") auto
    then have pv: "p (s\<lparr>next_in := next_in s @ y\<rparr>) = Some (r1, v\<lparr>next_in := next_in v @ y\<rparr>)"
      using moved [of "next_in s @ y" s] keep [OF v] by simp
    show ?thesis
    proof (cases "r1 = XD3_OK")
      case True
      then have "halts again y (g v) r u" using a pv keep [OF v] e by (intro passesD [OF g]) simp_all
      then show ?thesis using v True by simp
    next
      case False
      then show ?thesis using a pv v by (intro halts_now [where i = "next_in v"]) auto
    qed
  qed
qed

lemma reader_ok: "reader ok"
  by (rule readerI) (auto simp: ok_def intro!: stops_now)

lemma reader_at:
  assumes "\<And>v. reader (f v)" "\<And>s t. same_state s t \<Longrightarrow> k t = k s"
  shows "reader (\<lambda>s. f (k s) s)"
proof (rule readerI)
  have k: "k (s\<lparr>next_in := i\<rparr>) = k s" "k (s\<lparr>msg := m\<rparr>) = k s" for s i m
    by (rule assms(2), rule same_state_fields)+
  show "quiet (f (k (s\<lparr>msg := m\<rparr>)) (s\<lparr>msg := m\<rparr>)) = quiet (f (k s) s)" for s m
    unfolding k by (rule readerD(1) [OF assms(1)])
  show "f (k s) s = Some (r, u) \<Longrightarrow> enc_state u = enc_state s" for s r u
    by (rule readerD(2) [OF assms(1)])
  show "stops (same_state s) (\<lambda>s. f (k s) s) y (f (k s) s) r u"
    if "f (k (s\<lparr>next_in := next_in s @ y\<rparr>)) (s\<lparr>next_in := next_in s @ y\<rparr>) = Some (r, u)" for s y r u
  proof -
    have "stops (same_state s) (f (k s)) y (f (k s) s) r u"
      by (rule readerD(3) [OF assms(1)]) (use that in \<open>simp add: k\<close>)
    moreover have "f (k (t\<lparr>next_in := y\<rparr>)) (t\<lparr>next_in := y\<rparr>) = f (k s) (t\<lparr>next_in := y\<rparr>)"
      if "same_state s t" for t
      using k assms(2) [OF that] by simp
    ultimately show ?thesis unfolding stops_def by auto
  qed
qed

text \<open>A preparation that, once the reader was interrupted, has nothing more to do.\<close>

lemma reader_prepared:
  assumes p: "no_input p" and f: "reader f"
    and same: "\<And>s t. p s = Some (XD3_OK, t) \<Longrightarrow> same_state s t"
    and again: "\<And>s s' t y. p s = Some (XD3_OK, s') \<Longrightarrow> f s' = Some (XD3_INPUT, t) \<Longrightarrow> p (t\<lparr>next_in := y\<rparr>) = ok (t\<lparr>next_in := y\<rparr>)"
  shows "reader (\<lambda>s. and_then (p s) f)"
proof (rule readerI)
  have keep: "p s = Some (r, u) \<Longrightarrow> next_in u = next_in s \<and> enc_state u = enc_state s" for s r u
    using p unfolding no_input_def by blast
  have moved: "p (s\<lparr>next_in := i\<rparr>) = map_option (apsnd (next_in_update (\<lambda>_. i))) (p s)" for s i
    using p unfolding no_input_def by blast
  note enc = readerD(2) [OF f]
  show "quiet (and_then (p (s\<lparr>msg := m\<rparr>)) f) = quiet (and_then (p s) f)" for s m
  proof (rule quiet_and_then)
    show "quiet (p (s\<lparr>msg := m\<rparr>)) = quiet (p s)" using p unfolding no_input_def by blast
    show "quiet (f (t\<lparr>msg := n\<rparr>)) = quiet (f t)" for t n
      using f unfolding reader_def ignores_msg_def by blast
  qed
  show "and_then (p s) f = Some (r, u) \<Longrightarrow> enc_state u = enc_state s" for s r u
    using keep enc by (fastforce simp: and_then_Some)
  show "stops (same_state s) (\<lambda>s. and_then (p s) f) y (and_then (p s) f) r u"
    if a: "and_then (p (s\<lparr>next_in := next_in s @ y\<rparr>)) f = Some (r, u)" for s y r u
  proof -
    obtain r1 v where v: "p s = Some (r1, v)"
      using a moved [of "next_in s @ y" s] by (cases "p s") auto
    then have pv: "p (s\<lparr>next_in := next_in s @ y\<rparr>) = Some (r1, v\<lparr>next_in := next_in v @ y\<rparr>)"
      using moved [of "next_in s @ y" s] keep [OF v] by simp
    show ?thesis
    proof (cases "r1 = XD3_OK")
      case True
      then have "stops (same_state v) f y (f v) r u" using a pv by (intro readerD(3) [OF f]) simp
      then show ?thesis
        unfolding stops_def
      proof (elim disjE exE conjE)
        fix i assume "i @ y = next_in u" "quiet (f v) = Some (r, hush (u\<lparr>next_in := i\<rparr>))"
        then show "(\<exists>i. i @ y = next_in u \<and> quiet (and_then (p s) f) = Some (r, hush (u\<lparr>next_in := i\<rparr>))) \<or>
          (\<exists>t. and_then (p s) f = Some (XD3_INPUT, t) \<and> same_state s t \<and>
             quiet (and_then (p (t\<lparr>next_in := y\<rparr>)) f) = Some (r, hush u))"
          using v True by auto
      next
        fix t assume t: "f v = Some (XD3_INPUT, t)" "same_state v t" "quiet (f (t\<lparr>next_in := y\<rparr>)) = Some (r, hush u)"
        have "p (t\<lparr>next_in := y\<rparr>) = ok (t\<lparr>next_in := y\<rparr>)" using again v True t(1) by blast
        moreover have "same_state s t" using same v True t(2) by (auto simp: same_state_def)
        ultimately show "(\<exists>i. i @ y = next_in u \<and> quiet (and_then (p s) f) = Some (r, hush (u\<lparr>next_in := i\<rparr>))) \<or>
          (\<exists>t. and_then (p s) f = Some (XD3_INPUT, t) \<and> same_state s t \<and>
             quiet (and_then (p (t\<lparr>next_in := y\<rparr>)) f) = Some (r, hush u))"
          using v True t by auto
      qed
    next
      case False
      then show ?thesis using a pv v by (intro stops_now [where i = "next_in v"]) auto
    qed
  qed
qed


section \<open>The states of the header\<close>

lemma setters:
  "setter (\<lambda>v s. s\<lparr>dec_hdr_ind := v\<rparr>)" "setter (\<lambda>v s. s\<lparr>dec_win_ind := v\<rparr>)" "setter (\<lambda>v s. s\<lparr>dec_del_ind := v\<rparr>)"
  "setter (\<lambda>v s. s\<lparr>dec_secondid := v\<rparr>)" "setter (\<lambda>v s. s\<lparr>dec_codetblsz := v\<rparr>)" "setter (\<lambda>v s. s\<lparr>dec_appheadsz := v\<rparr>)"
  "setter (\<lambda>v s. s\<lparr>dec_cpylen := v\<rparr>)" "setter (\<lambda>v s. s\<lparr>dec_cpyoff := v\<rparr>)" "setter (\<lambda>v s. s\<lparr>dec_enclen := v\<rparr>)"
  "setter (\<lambda>v s. s\<lparr>dec_tgtlen := v\<rparr>)" "setter (\<lambda>v s. s\<lparr>data_sect := (data_sect s)\<lparr>sec_size := v\<rparr>\<rparr>)"
  "setter (\<lambda>v s. s\<lparr>inst_sect := (inst_sect s)\<lparr>sec_size := v\<rparr>\<rparr>)" "setter (\<lambda>v s. s\<lparr>addr_sect := (addr_sect s)\<lparr>sec_size := v\<rparr>\<rparr>)"
  "setter (\<lambda>v s. s\<lparr>acache := (acache s)\<lparr>s_near := v\<rparr>\<rparr>)" "setter (\<lambda>v s. s\<lparr>acache := (acache s)\<lparr>s_same := v\<rparr>\<rparr>)"
  by (simp_all add: setter_def)

text \<open>A state that reads one item when \<open>e\<close> holds, then goes to the next state with \<open>k\<close>.\<close>

lemma resumes_item:
  assumes f: "reader f" and g: "passes again (\<lambda>s. k (s\<lparr>dec_state := N\<rparr>))" and D: "D \<le> DEC_CKSUM"
    and e: "\<And>s t. same_state s t \<Longrightarrow> e t = e s"
    and step: "\<And>s. dec_state s = D \<Longrightarrow> enc_state s = 0 \<Longrightarrow>
      again s = and_then (and_then (if e s then f s else ok s) (goto N)) k"
  shows "resumes again (\<lambda>s. dec_state s = D)"
proof (rule resumes_cases)
  have s: "same_state s t \<Longrightarrow> dec_state s = D \<Longrightarrow> dec_state t = D" for s t by (simp add: same_state_def)
  have eq: "and_then p (\<lambda>s. k (s\<lparr>dec_state := N\<rparr>)) = and_then (and_then p (goto N)) k" for p
    by (simp add: and_then_assoc goto_def)
  show "resumes again (\<lambda>s. dec_state s = D \<and> e s)"
    by (rule resumes_step [OF f g]) (use D s e in \<open>auto simp: step eq\<close>)
  show "resumes again (\<lambda>s. dec_state s = D \<and> \<not> e s)"
    by (rule resumes_step [OF reader_ok g]) (use D s e in \<open>auto simp: step eq\<close>)
  show "dec_state s = D \<Longrightarrow> dec_state s = D \<and> e s \<or> dec_state s = D \<and> \<not> e s" for s by blast
qed

lemma state_order [simp]:
  "DEC_VCHEAD \<le> DEC_CKSUM" "DEC_HDRIND \<le> DEC_CKSUM" "DEC_SECONDID \<le> DEC_CKSUM" "DEC_TABLEN \<le> DEC_CKSUM"
  "DEC_NEAR \<le> DEC_CKSUM" "DEC_SAME \<le> DEC_CKSUM" "DEC_TABDAT \<le> DEC_CKSUM" "DEC_APPLEN \<le> DEC_CKSUM"
  "DEC_APPDAT \<le> DEC_CKSUM" "DEC_WININD \<le> DEC_CKSUM" "DEC_CPYLEN \<le> DEC_CKSUM" "DEC_CPYOFF \<le> DEC_CKSUM"
  "DEC_ENCLEN \<le> DEC_CKSUM" "DEC_TGTLEN \<le> DEC_CKSUM" "DEC_DELIND \<le> DEC_CKSUM" "DEC_DATALEN \<le> DEC_CKSUM"
  "DEC_INSTLEN \<le> DEC_CKSUM" "DEC_ADDRLEN \<le> DEC_CKSUM"
  by (simp_all add: less_eq_xd3_decode_state_def)

lemma CKSUM_resumes: "resumes (xd3_decode_input l dm) (\<lambda>s. dec_state s = DEC_CKSUM)"
proof (rule resumes_cases)
  let ?D = "xd3_decode_input l dm"
  let ?finish = "\<lambda>s. if dec_enclen s \<noteq> enclen_check s
     then fail XD3_INVALID_INPUT ''incorrect encoding length (redundent)'' s
     else Some (if current_window s = 0 then XD3_GOTHEADER else XD3_WINSTART, s)"
  let ?rest = "\<lambda>s. ?finish (s\<lparr>dec_state := DEC_DATA\<rparr>)"
  let ?sum = "\<lambda>s. s\<lparr>dec_adler32 := fold (\<lambda>i a. push_bit 8 a OR ucast (dec_cksum s ! i)) [0..<4] (dec_adler32 s)\<rparr>"
  have "passes ?D ?finish"
    by (intro passes_if passes_fail passes_end) (auto simp: quiet_test_def enclen_check_def)
  then have rest: "passes ?D ?rest"
    by (rule passes_upd [rotated]) (simp add: quiet_upd_def)
  then have sum: "passes ?D (\<lambda>s. ?rest (?sum s))"
    by (rule passes_upd [rotated]) (simp add: quiet_upd_def)
  show "resumes ?D (\<lambda>s. dec_state s = DEC_CKSUM \<and> dec_win_ind s AND VCD_ADLER32 \<noteq> 0)"
    by (rule resumes_step [OF cksum.reads sum]) (auto simp: same_state_def xd3_decode_input_def dec_CKSUM_def and_then_assoc Let_def)
  show "resumes ?D (\<lambda>s. dec_state s = DEC_CKSUM \<and> \<not> dec_win_ind s AND VCD_ADLER32 \<noteq> 0)"
    by (rule resumes_step [OF reader_ok rest]) (auto simp: same_state_def xd3_decode_input_def dec_CKSUM_def Let_def)
qed blast

lemma ADDRLEN_resumes: "resumes (xd3_decode_input l dm) (\<lambda>s. dec_state s = DEC_ADDRLEN)"
  by (rule resumes_item [where e = "\<lambda>_. True", OF sizes.reads [OF setters(13)] passes_goto [OF CKSUM_resumes]])
    (simp_all add: xd3_decode_input_def dec_ADDRLEN_def SIZE_CASE_def)

lemma INSTLEN_resumes: "resumes (xd3_decode_input l dm) (\<lambda>s. dec_state s = DEC_INSTLEN)"
  by (rule resumes_item [where e = "\<lambda>_. True", OF sizes.reads [OF setters(12)] passes_goto [OF ADDRLEN_resumes]])
    (simp_all add: xd3_decode_input_def dec_INSTLEN_def SIZE_CASE_def)

lemma DATALEN_resumes: "resumes (xd3_decode_input l dm) (\<lambda>s. dec_state s = DEC_DATALEN)"
  by (rule resumes_item [where e = "\<lambda>_. True", OF sizes.reads [OF setters(11)] passes_goto [OF INSTLEN_resumes]])
    (simp_all add: xd3_decode_input_def dec_DATALEN_def SIZE_CASE_def)

lemma DELIND_resumes: "resumes (xd3_decode_input l dm) (\<lambda>s. dec_state s = DEC_DELIND)"
proof -
  have "passes (xd3_decode_input l dm) (\<lambda>s. dec_DATALEN (s\<lparr>dec_state := DEC_DATALEN\<rparr>))"
    by (rule passes_goto [OF DATALEN_resumes]) (simp add: xd3_decode_input_def)
  then have g: "passes (xd3_decode_input l dm) (\<lambda>s. if dec_del_ind s AND VCD_INVDEL \<noteq> 0
       then fail XD3_INVALID_INPUT ''unrecognized delta indicator bits set'' (s\<lparr>dec_state := DEC_DATALEN\<rparr>)
       else if dec_del_ind s \<noteq> 0
       then fail XD3_INVALID_INPUT ''invalid delta indicator bits set'' (s\<lparr>dec_state := DEC_DATALEN\<rparr>)
       else dec_DATALEN (s\<lparr>dec_state := DEC_DATALEN\<rparr>))"
    by (intro passes_if passes_fail_goto) (simp_all add: quiet_test_def)
  show ?thesis
    by (rule resumes_item [where e = "\<lambda>_. True" and N = DEC_DATALEN, OF reader_byte [OF setters(3)]])
      (use g in \<open>simp_all add: xd3_decode_input_def dec_DELIND_def BYTE_CASE_def cong: if_cong\<close>)
qed


lemma TGTLEN_resumes: "resumes (xd3_decode_input l dm) (\<lambda>s. dec_state s = DEC_TGTLEN)"
proof -
  have "passes (xd3_decode_input l dm) (\<lambda>s. dec_DELIND (s\<lparr>dec_state := DEC_DELIND\<rparr>))"
    by (rule passes_goto [OF DELIND_resumes]) (simp add: xd3_decode_input_def)
  then have "passes (xd3_decode_input l dm)
      (\<lambda>s. dec_DELIND ((s\<lparr>dec_maxpos := dec_cpylen s + dec_tgtlen s\<rparr>)\<lparr>dec_state := DEC_DELIND\<rparr>))"
    by (rule passes_upd [rotated]) (simp add: quiet_upd_def)
  then have g: "passes (xd3_decode_input l dm) (\<lambda>s.
       if USIZE_T_OVERFLOW (dec_cpylen s) (dec_tgtlen s)
       then fail XD3_INVALID_INPUT ''decoder target window overflows a usize_t'' (s\<lparr>dec_state := DEC_DELIND\<rparr>)
       else if dec_tgtlen s > XD3_HARDMAXWINSIZE
       then fail XD3_INVALID_INPUT ''hard window size exceeded'' (s\<lparr>dec_state := DEC_DELIND\<rparr>)
       else dec_DELIND (s\<lparr>dec_maxpos := dec_cpylen s + dec_tgtlen s, dec_state := DEC_DELIND\<rparr>))"
    by (intro passes_if passes_fail_goto) (simp_all add: quiet_test_def)
  have eq: "s\<lparr>dec_state := D, dec_maxpos := v\<rparr> = s\<lparr>dec_maxpos := v, dec_state := D\<rparr>" for s :: xd3_stream and D v by simp
  show ?thesis
    by (rule resumes_item [where e = "\<lambda>_. True" and N = DEC_DELIND, OF sizes.reads [OF setters(10)]])
      (use g in \<open>simp_all add: xd3_decode_input_def dec_TGTLEN_def SIZE_CASE_def eq cong: if_cong\<close>)
qed

lemma ENCLEN_resumes: "resumes (xd3_decode_input l dm) (\<lambda>s. dec_state s = DEC_ENCLEN)"
  by (rule resumes_item [where e = "\<lambda>_. True", OF sizes.reads [OF setters(9)] passes_goto [OF TGTLEN_resumes]])
    (simp_all add: xd3_decode_input_def dec_ENCLEN_def SIZE_CASE_def)

lemma CPYOFF_resumes: "resumes (xd3_decode_input l dm) (\<lambda>s. dec_state s = DEC_CPYOFF)"
proof -
  have "passes (xd3_decode_input l dm) (\<lambda>s. dec_ENCLEN (s\<lparr>dec_state := DEC_ENCLEN\<rparr>))"
    by (rule passes_goto [OF ENCLEN_resumes]) (simp add: xd3_decode_input_def)
  then have g: "passes (xd3_decode_input l dm) (\<lambda>s.
       if XOFF_T_OVERFLOW (dec_cpyoff s) (ucast (dec_cpylen s))
       then fail XD3_INVALID_INPUT ''decoder copy window overflows a file offset'' (s\<lparr>dec_state := DEC_ENCLEN\<rparr>)
       else if dec_win_ind s AND VCD_TARGET \<noteq> 0 \<and> dec_cpyoff s + ucast (dec_cpylen s) > dec_winstart s
       then fail XD3_INVALID_INPUT ''VCD_TARGET window out of bounds'' (s\<lparr>dec_state := DEC_ENCLEN\<rparr>)
       else dec_ENCLEN (s\<lparr>dec_state := DEC_ENCLEN\<rparr>))"
    by (intro passes_if passes_fail_goto) (simp_all add: quiet_test_def)
  show ?thesis
    by (rule resumes_item [where e = "\<lambda>s. SRCORTGT (dec_win_ind s) \<noteq> 0" and N = DEC_ENCLEN, OF offsets.reads [OF setters(8)]])
      (use g in \<open>simp_all add: same_state_def xd3_decode_input_def dec_CPYOFF_def OFFSET_CASE_def cong: if_cong\<close>)
qed

lemma CPYLEN_resumes: "resumes (xd3_decode_input l dm) (\<lambda>s. dec_state s = DEC_CPYLEN)"
proof -
  have "passes (xd3_decode_input l dm) (\<lambda>s. dec_CPYOFF (s\<lparr>dec_state := DEC_CPYOFF\<rparr>))"
    by (rule passes_goto [OF CPYOFF_resumes]) (simp add: xd3_decode_input_def)
  then have g: "passes (xd3_decode_input l dm)
      (\<lambda>s. dec_CPYOFF ((s\<lparr>dec_position := dec_cpylen s\<rparr>)\<lparr>dec_state := DEC_CPYOFF\<rparr>))"
    by (rule passes_upd [rotated]) (simp add: quiet_upd_def)
  have eq: "s\<lparr>dec_state := D, dec_position := v\<rparr> = s\<lparr>dec_position := v, dec_state := D\<rparr>" for s :: xd3_stream and D v by simp
  show ?thesis
    by (rule resumes_item [where e = "\<lambda>s. SRCORTGT (dec_win_ind s) \<noteq> 0" and N = DEC_CPYOFF, OF sizes.reads [OF setters(7)]])
      (use g in \<open>simp_all add: same_state_def xd3_decode_input_def dec_CPYLEN_def SIZE_CASE_def eq\<close>)
qed

text \<open>A state that stores the next state only after what it read was looked at.\<close>

lemma resumes_read:
  assumes "reader f" "passes again g" "D \<le> DEC_CKSUM"
    and "\<And>s. dec_state s = D \<Longrightarrow> enc_state s = 0 \<Longrightarrow> again s = and_then (f s) g"
  shows "resumes again (\<lambda>s. dec_state s = D)"
  by (rule resumes_step [OF assms(1,2)]) (use assms(3,4) in \<open>auto simp: same_state_def\<close>)

lemma WININD_resumes: "resumes (xd3_decode_input l dm) (\<lambda>s. dec_state s = DEC_WININD)"
proof -
  let ?D = "xd3_decode_input l dm"
  let ?init = "\<lambda>s. s\<lparr>dec_cpylen := 0, dec_cpyoff := 0, dec_cksumbytes := 0, acache := xd3_init_cache (acache s)\<rparr>"
  have "passes ?D (\<lambda>s. dec_CPYLEN (s\<lparr>dec_state := DEC_CPYLEN\<rparr>))"
    by (rule passes_goto [OF CPYLEN_resumes]) (simp add: xd3_decode_input_def)
  then have "passes ?D (\<lambda>s. dec_CPYLEN ((?init s)\<lparr>dec_state := DEC_CPYLEN\<rparr>))"
    by (rule passes_upd [where h = ?init, rotated]) (simp add: quiet_upd_def)
  then have "passes ?D (\<lambda>s. if dec_win_ind s AND VCD_INVWIN \<noteq> 0
      then fail XD3_INVALID_INPUT ''unrecognized window indicator bits set'' s
      else dec_CPYLEN ((?init s)\<lparr>dec_state := DEC_CPYLEN\<rparr>))"
    by (intro passes_if passes_fail) (simp add: quiet_test_def)
  then have "passes ?D (\<lambda>s. (\<lambda>s2. if dec_win_ind s2 AND VCD_INVWIN \<noteq> 0
      then fail XD3_INVALID_INPUT ''unrecognized window indicator bits set'' s2
      else dec_CPYLEN ((?init s2)\<lparr>dec_state := DEC_CPYLEN\<rparr>)) (s\<lparr>dec_winstart := dec_winstart s + ucast (dec_tgtlen s)\<rparr>))"
    by (rule passes_upd [rotated]) (simp add: quiet_upd_def)
  then have "passes ?D (\<lambda>s. if XOFF_T_OVERFLOW (dec_winstart s) (ucast (dec_tgtlen s))
      then fail XD3_INVALID_INPUT ''decoder file offset overflow'' s
      else (\<lambda>s2. if dec_win_ind s2 AND VCD_INVWIN \<noteq> 0
      then fail XD3_INVALID_INPUT ''unrecognized window indicator bits set'' s2
      else dec_CPYLEN ((?init s2)\<lparr>dec_state := DEC_CPYLEN\<rparr>)) (s\<lparr>dec_winstart := dec_winstart s + ucast (dec_tgtlen s)\<rparr>))"
    by (rule passes_if [OF _ passes_fail, rotated]) (simp add: quiet_test_def)
  then have g: "passes ?D (\<lambda>s. (\<lambda>s1. if XOFF_T_OVERFLOW (dec_winstart s1) (ucast (dec_tgtlen s1))
      then fail XD3_INVALID_INPUT ''decoder file offset overflow'' s1
      else (\<lambda>s2. if dec_win_ind s2 AND VCD_INVWIN \<noteq> 0
      then fail XD3_INVALID_INPUT ''unrecognized window indicator bits set'' s2
      else dec_CPYLEN ((?init s2)\<lparr>dec_state := DEC_CPYLEN\<rparr>)) (s1\<lparr>dec_winstart := dec_winstart s1 + ucast (dec_tgtlen s1)\<rparr>))
      (s\<lparr>current_window := dec_window_count s\<rparr>))"
    by (rule passes_upd [rotated]) (simp add: quiet_upd_def)
  show ?thesis
    by (rule resumes_read [OF reader_byte [OF setters(2)] g])
      (simp_all add: xd3_decode_input_def dec_WININD_def xd3_decode_init_window_def Let_def cong: if_cong)
qed


text \<open>The application header: its block and the closing zero are there before it is read.\<close>

definition appheader_block :: "xd3_stream \<Rightarrow> result" where
  "appheader_block s =
     and_then
       (if dec_appheader s = None
        then (case xd3_alloc (unat (dec_appheadsz s + 1)) s of
                (None, s1) \<Rightarrow> Some (ENOMEM, s1)
              | (Some mem, s1) \<Rightarrow> ok (s1\<lparr>dec_appheader := Some mem\<rparr>))
        else ok s) (\<lambda>s.
     case blit (the (dec_appheader s)) (unat (dec_appheadsz s)) [0] of
       None \<Rightarrow> None
     | Some mem \<Rightarrow> ok (s\<lparr>dec_appheader := Some mem\<rparr>))"

lemma dec_APPDAT_block:
  "dec_APPDAT s =
     and_then
       (if dec_hdr_ind s AND VCD_APPHEADER \<noteq> 0
        then and_then (appheader_block s) (\<lambda>s.
          xd3_decode_bytes (\<lambda>s. the (dec_appheader s)) (\<lambda>b s. s\<lparr>dec_appheader := Some b\<rparr>)
            dec_appheadbytes (\<lambda>p s. s\<lparr>dec_appheadbytes := p\<rparr>) (dec_appheadsz s) s)
        else ok s) (\<lambda>s.
     dec_WININD (s\<lparr>dec_hdrsize := ucast (total_in s), dec_state := DEC_WININD\<rparr>))"
  unfolding dec_APPDAT_def appheader_block_def
  by (cases "dec_appheader s") (simp_all add: and_then_assoc xd3_alloc_def split: option.splits)

lemma appheader_block_no_input: "no_input appheader_block"
  by (auto simp: no_input_def appheader_block_def xd3_alloc_def ok_def hush_def quiet_def and_then_def split: option.splits)

lemma bytes_loop_beyond:
  assumes "decode_bytes_loop buf pos sz x = Some (a, b, p, left)"
  shows "length b = length buf \<and> (\<forall>i \<ge> unat sz. i < length buf \<longrightarrow> b ! i = buf ! i)"
  using assms
proof (subst (asm) bytes_loop_eq, cases "pos < sz \<and> x \<noteq> []")
  case True
  then have p: "unat pos + unat (sz - pos) = unat sz" by (subst unat_sub_le) (auto simp: word_less_nat_alt word_le_nat_alt)
  assume "(if pos < sz then if x = [] then Some (False, buf, pos, []) else
        case blit buf (unat pos) (take (unat (sz - pos)) x) of None \<Rightarrow> None
        | Some b \<Rightarrow> if unat (sz - pos) \<le> length x then Some (True, b, sz, drop (unat (sz - pos)) x)
            else Some (False, b, pos + of_nat (length x), []) else Some (True, buf, pos, x)) = Some (a, b, p, left)"
  then have b: "blit buf (unat pos) (take (unat (sz - pos)) x) = Some b"
    using True by (auto split: option.splits if_splits)
  show ?thesis using b p by (auto simp: blit_def nth_append min_def split: if_splits)
qed (auto split: if_splits)

lemma appheader_block_again:
  assumes "appheader_block s = Some (XD3_OK, s')"
    and "xd3_decode_bytes (\<lambda>s. the (dec_appheader s)) (\<lambda>b s. s\<lparr>dec_appheader := Some b\<rparr>)
            dec_appheadbytes (\<lambda>p s. s\<lparr>dec_appheadbytes := p\<rparr>) (dec_appheadsz s') s' = Some (XD3_INPUT, t)"
  shows "appheader_block (t\<lparr>next_in := y\<rparr>) = ok (t\<lparr>next_in := y\<rparr>)"
proof -
  obtain mem mem0 where m: "dec_appheader s' = Some mem" "blit mem0 (unat (dec_appheadsz s')) [0] = Some mem"
    using assms(1) unfolding appheader_block_def
    by (auto simp: and_then_Some ok_def xd3_alloc_def split: option.splits if_splits)
  then have z: "unat (dec_appheadsz s') < length mem" "mem ! unat (dec_appheadsz s') = 0"
    by (auto simp: blit_def nth_append split: if_splits)
  obtain b p left where d: "decode_bytes_loop mem (dec_appheadbytes s') (dec_appheadsz s') (next_in s') = Some (False, b, p, left)"
    and t: "dec_appheader t = Some b" "dec_appheadsz t = dec_appheadsz s'"
    using assms(2) m(1) unfolding xd3_decode_bytes_def
    by (auto simp: ok_def fail_def Let_def DECODE_INPUT_def split: option.splits if_splits)
  have "unat (dec_appheadsz s') < length b" "b ! unat (dec_appheadsz s') = 0"
    using bytes_loop_beyond [OF d] z by auto
  then have "blit b (unat (dec_appheadsz s')) [0] = Some b"
    by (auto simp: blit_def intro!: nth_equalityI simp: nth_append nth_Cons')
  then show ?thesis using t by (simp add: appheader_block_def ok_def)
qed


lemma alloc_same: "xd3_alloc n s = (q, t) \<Longrightarrow> same_state s t"
  by (auto simp: xd3_alloc_def same_state_def split: option.splits)

lemma appheader_reader: "reader (\<lambda>s. and_then (appheader_block s) (\<lambda>s.
    xd3_decode_bytes (\<lambda>s. the (dec_appheader s)) (\<lambda>b s. s\<lparr>dec_appheader := Some b\<rparr>)
      dec_appheadbytes (\<lambda>p s. s\<lparr>dec_appheadbytes := p\<rparr>) (dec_appheadsz s) s))"
proof (rule reader_prepared [OF appheader_block_no_input])
  show "reader (\<lambda>s. xd3_decode_bytes (\<lambda>s. the (dec_appheader s)) (\<lambda>b s. s\<lparr>dec_appheader := Some b\<rparr>)
      dec_appheadbytes (\<lambda>p s. s\<lparr>dec_appheadbytes := p\<rparr>) (dec_appheadsz s) s)"
    by (rule reader_at [where k = dec_appheadsz, OF apphead.reads]) (simp add: same_state_def)
  show "appheader_block s = Some (XD3_OK, t) \<Longrightarrow> same_state s t" for s t
    by (auto simp: appheader_block_def same_state_def ok_def xd3_alloc_def and_then_Some split: if_splits option.splits)
qed (rule appheader_block_again)

lemma APPDAT_resumes: "resumes (xd3_decode_input l dm) (\<lambda>s. dec_state s = DEC_APPDAT)"
proof (rule resumes_cases)
  let ?D = "xd3_decode_input l dm"
  have "passes ?D (\<lambda>s. dec_WININD (s\<lparr>dec_state := DEC_WININD\<rparr>))"
    by (rule passes_goto [OF WININD_resumes]) (simp add: xd3_decode_input_def)
  then have g: "passes ?D (\<lambda>s. dec_WININD ((s\<lparr>dec_hdrsize := ucast (total_in s)\<rparr>)\<lparr>dec_state := DEC_WININD\<rparr>))"
    by (rule passes_upd [rotated]) (simp add: quiet_upd_def)
  have eq: "s\<lparr>dec_hdrsize := v, dec_state := D\<rparr> = s\<lparr>dec_hdrsize := v\<rparr>\<lparr>dec_state := D\<rparr>" for s :: xd3_stream and D v by simp
  show "resumes ?D (\<lambda>s. dec_state s = DEC_APPDAT \<and> dec_hdr_ind s AND VCD_APPHEADER \<noteq> 0)"
    by (rule resumes_step [OF appheader_reader g])
      (auto simp: same_state_def xd3_decode_input_def dec_APPDAT_block)
  show "resumes ?D (\<lambda>s. dec_state s = DEC_APPDAT \<and> \<not> dec_hdr_ind s AND VCD_APPHEADER \<noteq> 0)"
    by (rule resumes_step [OF reader_ok g])
      (auto simp: same_state_def xd3_decode_input_def dec_APPDAT_block)
qed blast

lemma APPLEN_resumes: "resumes (xd3_decode_input l dm) (\<lambda>s. dec_state s = DEC_APPLEN)"
  by (rule resumes_item [where e = "\<lambda>s. dec_hdr_ind s AND VCD_APPHEADER \<noteq> 0",
        OF sizes.reads [OF setters(6)] passes_goto [OF APPDAT_resumes]])
    (simp_all add: same_state_def xd3_decode_input_def dec_APPLEN_def SIZE_CASE_def)

text \<open>The code table.\<close>

definition codetbl_block :: "xd3_stream \<Rightarrow> result" where
  "codetbl_block s =
     (if dec_codetbl s = None
      then (case xd3_alloc (unat (dec_codetblsz s)) s of
              (None, s1) \<Rightarrow> Some (ENOMEM, s1)
            | (Some mem, s1) \<Rightarrow> ok (s1\<lparr>dec_codetbl := Some mem\<rparr>))
      else ok s)"

lemma codetbl_reader: "reader (\<lambda>s. and_then (codetbl_block s) (\<lambda>s.
    xd3_decode_bytes (\<lambda>s. the (dec_codetbl s)) (\<lambda>b s. s\<lparr>dec_codetbl := Some b\<rparr>)
      dec_codetblbytes (\<lambda>p s. s\<lparr>dec_codetblbytes := p\<rparr>) (dec_codetblsz s) s))"
proof (rule reader_prepared)
  show "no_input codetbl_block"
    by (auto simp: no_input_def codetbl_block_def xd3_alloc_def ok_def hush_def quiet_def split: option.splits)
  show "reader (\<lambda>s. xd3_decode_bytes (\<lambda>s. the (dec_codetbl s)) (\<lambda>b s. s\<lparr>dec_codetbl := Some b\<rparr>)
      dec_codetblbytes (\<lambda>p s. s\<lparr>dec_codetblbytes := p\<rparr>) (dec_codetblsz s) s)"
    by (rule reader_at [where k = dec_codetblsz, OF codetbl.reads]) (simp add: same_state_def)
  show "codetbl_block s = Some (XD3_OK, t) \<Longrightarrow> same_state s t" for s t
    by (auto simp: codetbl_block_def same_state_def ok_def xd3_alloc_def split: if_splits option.splits)
  show "codetbl_block (t\<lparr>next_in := y\<rparr>) = ok (t\<lparr>next_in := y\<rparr>)"
    if "xd3_decode_bytes (\<lambda>s. the (dec_codetbl s)) (\<lambda>b s. s\<lparr>dec_codetbl := Some b\<rparr>)
      dec_codetblbytes (\<lambda>p s. s\<lparr>dec_codetblbytes := p\<rparr>) (dec_codetblsz s') s' = Some (XD3_INPUT, t)" for s' t y
    using that unfolding xd3_decode_bytes_def
    by (auto simp: codetbl_block_def ok_def fail_def Let_def DECODE_INPUT_def split: option.splits if_splits)
qed

lemma apply_no_input:
  "no_input (\<lambda>s. xd3_apply_table_encoding dm (take (unat (dec_codetblbytes s)) (the (dec_codetbl s))) s)"
  by (auto simp: no_input_def xd3_apply_table_encoding_def TOTAL_MODES_def ok_def fail_def hush_def quiet_def
      split: option.splits sum.splits)

lemma cache_no_input: "no_input stream_alloc_cache"
  by (auto simp: no_input_def stream_alloc_cache_def ok_def hush_def quiet_def split: sum.splits)

lemma TABDAT_resumes: "resumes (xd3_decode_input l dm) (\<lambda>s. dec_state s = DEC_TABDAT)"
proof (rule resumes_cases)
  let ?D = "xd3_decode_input l dm"
  let ?apply = "\<lambda>s. xd3_apply_table_encoding dm (take (unat (dec_codetblbytes s)) (the (dec_codetbl s))) s"
  let ?rest = "\<lambda>s. and_then (stream_alloc_cache s) (\<lambda>s. dec_APPLEN (s\<lparr>dec_state := DEC_APPLEN\<rparr>))"
  have "passes ?D (\<lambda>s. dec_APPLEN (s\<lparr>dec_state := DEC_APPLEN\<rparr>))"
    by (rule passes_goto [OF APPLEN_resumes]) (simp add: xd3_decode_input_def)
  then have rest: "passes ?D ?rest" by (rule passes_no_input [OF cache_no_input])
  have 1: "passes ?D (\<lambda>s. and_then (?apply s) ?rest)" by (rule passes_no_input [OF apply_no_input rest])
  have 2: "passes ?D (\<lambda>s. ?rest (s\<lparr>acache := (acache s)\<lparr>s_near := ucast (near_modes rfc3284_code_table_desc),
                                          s_same := ucast (same_modes rfc3284_code_table_desc)\<rparr>,
                   code_table := xd3_rfc3284_code_table\<rparr>))"
    by (rule passes_upd [OF _ rest]) (simp add: quiet_upd_def)
  show "resumes ?D (\<lambda>s. dec_state s = DEC_TABDAT \<and> dec_hdr_ind s AND VCD_CODETABLE \<noteq> 0)"
    by (rule resumes_step [OF codetbl_reader 1])
      (auto simp: same_state_def xd3_decode_input_def dec_TABDAT_def and_then_assoc codetbl_block_def)
  show "resumes ?D (\<lambda>s. dec_state s = DEC_TABDAT \<and> \<not> dec_hdr_ind s AND VCD_CODETABLE \<noteq> 0)"
    by (rule resumes_step [OF reader_ok 2])
      (auto simp: same_state_def xd3_decode_input_def dec_TABDAT_def)
qed blast

lemma SAME_resumes: "resumes (xd3_decode_input l dm) (\<lambda>s. dec_state s = DEC_SAME)"
  by (rule resumes_item [where e = "\<lambda>s. dec_hdr_ind s AND VCD_CODETABLE \<noteq> 0",
        OF reader_byte [OF setters(15)] passes_goto [OF TABDAT_resumes]])
    (simp_all add: same_state_def xd3_decode_input_def dec_SAME_def BYTE_CASE_def)

lemma NEAR_resumes: "resumes (xd3_decode_input l dm) (\<lambda>s. dec_state s = DEC_NEAR)"
  by (rule resumes_item [where e = "\<lambda>s. dec_hdr_ind s AND VCD_CODETABLE \<noteq> 0",
        OF reader_byte [OF setters(14)] passes_goto [OF SAME_resumes]])
    (simp_all add: same_state_def xd3_decode_input_def dec_NEAR_def BYTE_CASE_def)


text \<open>\<^verbatim>\<open>DEC_SECONDID\<close> falls into \<^verbatim>\<open>DEC_TABLEN\<close> without storing the state.\<close>

lemma TABLEN_entered:
  assumes C: "\<And>s t. same_state s t \<Longrightarrow> C s \<Longrightarrow> C t" "\<And>s. C s \<Longrightarrow> dec_state s \<le> DEC_CKSUM"
    and dec: "\<And>s. C s \<Longrightarrow> enc_state s = 0 \<Longrightarrow> xd3_decode_input l dm s = dec_TABLEN dm s"
  shows "resumes (xd3_decode_input l dm) C"
proof (rule resumes_cases)
  let ?D = "xd3_decode_input l dm"
  have near: "passes ?D (\<lambda>s. dec_NEAR dm (s\<lparr>dec_state := DEC_NEAR\<rparr>))"
    by (rule passes_goto [OF NEAR_resumes]) (simp add: xd3_decode_input_def)
  then have "passes ?D (\<lambda>s. dec_NEAR dm ((s\<lparr>dec_codetblsz := dec_codetblsz s - 2\<rparr>)\<lparr>dec_state := DEC_NEAR\<rparr>))"
    by (rule passes_upd [rotated]) (simp add: quiet_upd_def)
  then have g: "passes ?D (\<lambda>s. if dec_codetblsz s \<le> 2
      then fail ENOMEM ''invalid code table size'' (s\<lparr>dec_state := DEC_NEAR\<rparr>)
      else dec_NEAR dm ((s\<lparr>dec_codetblsz := dec_codetblsz s - 2\<rparr>)\<lparr>dec_state := DEC_NEAR\<rparr>))"
    by (rule passes_if [OF _ passes_fail_goto, rotated]) (simp add: quiet_test_def)
  have eq: "s\<lparr>dec_codetblsz := v, dec_state := D\<rparr> = s\<lparr>dec_state := D, dec_codetblsz := v\<rparr>" for s :: xd3_stream and D v by simp
  have step: "and_then p (\<lambda>s. and_then (if dec_hdr_ind s AND VCD_CODETABLE \<noteq> 0 then q s else ok s) f) =
    and_then p (\<lambda>s. if dec_hdr_ind s AND VCD_CODETABLE \<noteq> 0 then and_then (q s) f else f s)" for p q f
    by (cases p) auto
  have hdr: "xd3_decode_size (\<lambda>v s. s\<lparr>dec_codetblsz := v\<rparr>) s = Some (XD3_OK, t) \<Longrightarrow> dec_hdr_ind t = dec_hdr_ind s" for s t
    by (auto simp: xd3_decode_size_def fail_def ok_def Let_def DECODE_INPUT_def split: prod.splits sum.splits)
  have keep: "and_then (xd3_decode_size (\<lambda>v s. s\<lparr>dec_codetblsz := v\<rparr>) s) f =
    and_then (xd3_decode_size (\<lambda>v s. s\<lparr>dec_codetblsz := v\<rparr>) s) g"
    if "\<And>t. dec_hdr_ind t = dec_hdr_ind s \<Longrightarrow> f t = g t" for s f g
    using that hdr [of s] by (cases "xd3_decode_size (\<lambda>v s. s\<lparr>dec_codetblsz := v\<rparr>) s") auto
  have C': "same_state s t \<Longrightarrow> C s \<and> c (dec_hdr_ind s) \<Longrightarrow> C t \<and> c (dec_hdr_ind t)" for s t and c :: "u32 \<Rightarrow> bool"
    using C(1) [of s t] by (simp add: same_state_def)
  show "resumes ?D (\<lambda>s. C s \<and> dec_hdr_ind s AND VCD_CODETABLE \<noteq> 0)"
    by (rule resumes_step [OF sizes.reads [OF setters(5)] g C' [where c = "\<lambda>h. h AND VCD_CODETABLE \<noteq> 0"]])
      (auto simp: C(2) dec dec_TABLEN_def SIZE_CASE_def and_then_assoc goto_def eq intro!: keep)
  show "resumes ?D (\<lambda>s. C s \<and> \<not> dec_hdr_ind s AND VCD_CODETABLE \<noteq> 0)"
    by (rule resumes_step [OF reader_ok near C' [where c = "\<lambda>h. \<not> h AND VCD_CODETABLE \<noteq> 0"]])
      (auto simp: C(2) dec dec_TABLEN_def SIZE_CASE_def goto_def)
qed blast

lemma TABLEN_resumes: "resumes (xd3_decode_input l dm) (\<lambda>s. dec_state s = DEC_TABLEN)"
  by (rule TABLEN_entered) (simp_all add: same_state_def xd3_decode_input_def)

lemma SECONDID_resumes: "resumes (xd3_decode_input l dm) (\<lambda>s. dec_state s = DEC_SECONDID)"
proof (rule resumes_cases)
  let ?D = "xd3_decode_input l dm"
  let ?s = "\<lambda>s. s\<lparr>dec_state := DEC_TABLEN\<rparr>"
  have g: "passes ?D (\<lambda>s. if dec_secondid s = VCD_FGK_ID
          then fail XD3_INTERNAL ''unavailable secondary compressor: FGK Adaptive Huffman'' (?s s)
          else if dec_secondid s = VCD_DJW_ID
          then fail XD3_INTERNAL ''unavailable secondary compressor: DJW Static Huffman'' (?s s)
          else if dec_secondid s = VCD_LZMA_ID
          then fail XD3_INTERNAL ''unavailable secondary compressor: LZMA'' (?s s)
          else fail XD3_INVALID_INPUT ''unknown secondary compressor ID'' (?s s))"
    by (intro passes_if passes_fail_goto) (simp_all add: quiet_test_def)
  show "resumes ?D (\<lambda>s. dec_state s = DEC_SECONDID \<and> dec_hdr_ind s AND VCD_SECONDARY \<noteq> 0)"
    by (rule resumes_step [OF reader_byte [OF setters(4)] g])
      (auto simp: same_state_def xd3_decode_input_def dec_SECONDID_def BYTE_CASE_def and_then_assoc goto_def cong: if_cong)
  show "resumes ?D (\<lambda>s. dec_state s = DEC_SECONDID \<and> \<not> dec_hdr_ind s AND VCD_SECONDARY \<noteq> 0)"
    by (rule TABLEN_entered) (auto simp: same_state_def xd3_decode_input_def dec_SECONDID_def)
qed blast


lemma HDRIND_resumes: "resumes (xd3_decode_input l dm) (\<lambda>s. dec_state s = DEC_HDRIND)"
proof -
  have "passes (xd3_decode_input l dm) (\<lambda>s. dec_SECONDID dm (s\<lparr>dec_state := DEC_SECONDID\<rparr>))"
    by (rule passes_goto [OF SECONDID_resumes]) (simp add: xd3_decode_input_def)
  then have "passes (xd3_decode_input l dm) (\<lambda>s. if dec_hdr_ind s AND VCD_INVHDR \<noteq> 0
       then fail XD3_INVALID_INPUT ''unrecognized header indicator bits set'' s
       else dec_SECONDID dm (s\<lparr>dec_state := DEC_SECONDID\<rparr>))"
    by (rule passes_if [OF _ passes_fail, rotated]) (simp add: quiet_test_def)
  then show ?thesis
    by (rule resumes_read [OF reader_byte [OF setters(1)]]) (simp_all add: xd3_decode_input_def dec_HDRIND_def)
qed

lemma VCHEAD_resumes: "resumes (xd3_decode_input l dm) (\<lambda>s. dec_state s = DEC_VCHEAD)"
proof -
  have "passes (xd3_decode_input l dm) (\<lambda>s. dec_HDRIND dm (s\<lparr>dec_state := DEC_HDRIND\<rparr>))"
    by (rule passes_goto [OF HDRIND_resumes]) (simp add: xd3_decode_input_def)
  then have "passes (xd3_decode_input l dm) (\<lambda>s. if dec_magic s ! 3 \<noteq> 0
       then fail XD3_INVALID_INPUT ''VCDIFF input version > 0 is not supported'' s
       else dec_HDRIND dm (s\<lparr>dec_state := DEC_HDRIND\<rparr>))"
    by (rule passes_if [OF _ passes_fail, rotated]) (simp add: quiet_test_def)
  then have "passes (xd3_decode_input l dm) (\<lambda>s. if take 3 (dec_magic s) \<noteq> [0xd6, 0xc3, 0xc4]
       then fail XD3_INVALID_INPUT ''not a VCDIFF input'' s
       else if dec_magic s ! 3 \<noteq> 0
       then fail XD3_INVALID_INPUT ''VCDIFF input version > 0 is not supported'' s
       else dec_HDRIND dm (s\<lparr>dec_state := DEC_HDRIND\<rparr>))"
    by (rule passes_if [OF _ passes_fail, rotated]) (simp add: quiet_test_def)
  then show ?thesis
    by (rule resumes_read [OF magic.reads]) (simp_all add: xd3_decode_input_def dec_VCHEAD_def)
qed

lemmas state_resumes = VCHEAD_resumes HDRIND_resumes SECONDID_resumes TABLEN_resumes NEAR_resumes
  SAME_resumes TABDAT_resumes APPLEN_resumes APPDAT_resumes WININD_resumes CPYLEN_resumes CPYOFF_resumes
  ENCLEN_resumes TGTLEN_resumes DELIND_resumes DATALEN_resumes INSTLEN_resumes ADDRLEN_resumes CKSUM_resumes

lemma header_resumes: "resumes (xd3_decode_input l dm) (\<lambda>s. dec_state s \<le> DEC_CKSUM)"
  unfolding resumes_def
proof (intro conjI allI impI)
  fix s :: xd3_stream assume "dec_state s \<le> DEC_CKSUM"
  then obtain D where D: "dec_state s = D" "resumes (xd3_decode_input l dm) (\<lambda>s. dec_state s = D)"
    using state_resumes [of l dm] by (cases "dec_state s") (auto simp: less_eq_xd3_decode_state_def)
  assume e: "enc_state s = 0"
  show "quiet (xd3_decode_input l dm (s\<lparr>msg := m\<rparr>)) = quiet (xd3_decode_input l dm s)" for m
    using D e unfolding resumes_def by blast
  show "halts (xd3_decode_input l dm) y (xd3_decode_input l dm s) r u"
    if "xd3_decode_input l dm (s\<lparr>next_in := next_in s @ y\<rparr>) = Some (r, u)" for y r u
    using D e that unfolding resumes_def by blast
qed

section \<open>A client that has its input in pieces\<close>

text \<open>It calls again with the next piece as long as the decoder asks for input and there is one.\<close>

fun decode_pieces :: "'l::len itself \<Rightarrow> decode_mem \<Rightarrow> bytes list \<Rightarrow> xd3_stream \<Rightarrow> result" where
  "decode_pieces l dm [] s = xd3_decode_input l dm s"
| "decode_pieces l dm (c # cs) s =
     (case xd3_decode_input l dm s of
        Some (XD3_INPUT, t) \<Rightarrow> decode_pieces l dm cs (xd3_avail_input c t)
      | q \<Rightarrow> q)"

lemma pieces_resume:
  assumes "r \<noteq> XD3_INPUT" "dec_state s \<le> DEC_CKSUM" "enc_state s = 0"
    and "xd3_decode_input l dm (s\<lparr>next_in := next_in s @ concat cs\<rparr>) = Some (r, u)"
  shows "\<exists>k i. i @ concat (drop k cs) = next_in u \<and> quiet (decode_pieces l dm cs s) = Some (r, hush (u\<lparr>next_in := i\<rparr>))"
  using assms(2-)
proof (induction cs arbitrary: s u)
  case Nil
  then show ?case by (auto intro!: exI [of _ "next_in u"])
next
  case (Cons c cs)
  have "halts (xd3_decode_input l dm) (concat (c # cs)) (xd3_decode_input l dm s) r u"
    using header_resumes [of l dm] Cons.prems unfolding resumes_def by blast
  then show ?case unfolding halts_def
  proof (elim disjE exE conjE)
    fix i assume i: "i @ concat (c # cs) = next_in u"
      "quiet (xd3_decode_input l dm s) = Some (r, hush (u\<lparr>next_in := i\<rparr>))"
    then obtain m where d: "xd3_decode_input l dm s = Some (r, u\<lparr>next_in := i, msg := m\<rparr>)" by (auto simp: quiet_Some)
    then have "decode_pieces l dm (c # cs) s = xd3_decode_input l dm s"
      using assms(1) by (cases r) simp_all
    then show ?thesis using i by (intro exI [of _ 0] exI [of _ i]) simp
  next
    fix t assume t: "xd3_decode_input l dm s = Some (XD3_INPUT, t)" "dec_state t \<le> DEC_CKSUM" "enc_state t = 0"
      "\<forall>m. quiet (xd3_decode_input l dm (t\<lparr>next_in := concat (c # cs), msg := m\<rparr>)) = Some (r, hush u)"
    let ?t = "xd3_avail_input c t"
    have "quiet (xd3_decode_input l dm (?t\<lparr>next_in := next_in ?t @ concat cs\<rparr>)) = Some (r, hush u)"
      using t(4) [rule_format, of "msg t"] by (simp add: xd3_avail_input_def)
    then obtain m where "xd3_decode_input l dm (?t\<lparr>next_in := next_in ?t @ concat cs\<rparr>) = Some (r, u\<lparr>msg := m\<rparr>)"
      by (auto simp: quiet_Some)
    then obtain k i where "i @ concat (drop k cs) = next_in u"
      "quiet (decode_pieces l dm cs ?t) = Some (r, hush (u\<lparr>msg := m, next_in := i\<rparr>))"
      using Cons.IH [of ?t "u\<lparr>msg := m\<rparr>"] t(2,3) by (auto simp: xd3_avail_input_def)
    then show ?thesis using t(1) by (intro exI [of _ "Suc k"] exI [of _ i]) (auto simp: hush_def)
  qed
qed


text \<open>C10: A header can come in pieces of any size. If decoding the input at once, from any state of the file or
  window header, ends with anything but a request for more input (that it has the header, or any error), the client that
  hands it over piece by piece gets the same answer and the same stream, up to the message; the input the decoder did
  not use is what is left of the piece it was given last, and the pieces not yet handed over.\<close>

theorem header_in_pieces:
  assumes "dec_state s \<le> DEC_CKSUM" "enc_state s = 0"
    and "xd3_decode_input l dm (s\<lparr>next_in := next_in s @ concat cs\<rparr>) = Some (r, u)" "r \<noteq> XD3_INPUT"
  shows "\<exists>k left m. left @ concat (drop k cs) = next_in u \<and>
    decode_pieces l dm cs s = Some (r, u\<lparr>next_in := left, msg := m\<rparr>)"
  using pieces_resume [OF assms(4,1-3)] by (auto simp: quiet_Some)

lemma sample_header:
  "\<exists>u. xd3_decode_input TYPE(32) (\<lambda>_ _. None) sample_decoder = Some (XD3_WINSTART, u) \<and> next_in u = [97, 98, 166, 0]"
proof -
  have "(case xd3_decode_input TYPE(32) (\<lambda>_ _. None) sample_decoder of
      None \<Rightarrow> False
    | Some (r, u) \<Rightarrow> r = XD3_WINSTART \<and> next_in u = [97, 98, 166, 0])"
    by code_simp
  then show ?thesis by (auto split: option.splits)
qed

theorem header_in_pieces_witness:
  "\<exists>k left m u. left @ concat (drop k [[9, 6], [0, 2], [1, 1, 97, 98], [166, 0]]) = [97, 98, 166, 0] \<and>
    decode_pieces TYPE(32) (\<lambda>_ _. None) [[9, 6], [0, 2], [1, 1, 97, 98], [166, 0]] (sample_decoder\<lparr>next_in := [0]\<rparr>)
      = Some (XD3_WINSTART, u\<lparr>next_in := left, msg := m\<rparr>)"
proof -
  let ?cs = "[[9, 6], [0, 2], [1, 1, 97, 98], [166, 0]] :: bytes list" and ?s = "sample_decoder\<lparr>next_in := [0]\<rparr>"
  have s: "?s\<lparr>next_in := next_in ?s @ concat ?cs\<rparr> = sample_decoder" by (simp add: sample_decoder_def)
  obtain u where u: "xd3_decode_input TYPE(32) (\<lambda>_ _. None) sample_decoder = Some (XD3_WINSTART, u)" "next_in u = [97, 98, 166, 0]"
    using sample_header by blast
  have "dec_state ?s \<le> DEC_CKSUM" "enc_state ?s = 0" by (simp_all add: sample_decoder_def zero_stream_def)
  then show ?thesis
    using header_in_pieces [of ?s "TYPE(32)" "\<lambda>_ _. None" ?cs XD3_WINSTART u] s u by auto
qed

end
