(* ===== verification/Dedelta.thy ===== *)
theory Dedelta
  imports Pieces Config
begin

text \<open>
  \<^verbatim>\<open>dedelta\<close> of \<^verbatim>\<open>delta.c\<close>: the client of the decoder that OpenDelta runs on the device. It
  reads the delta in chunks, hands them to the decoder, writes what comes out and answers the
  requests for blocks of the source file.

  The operating system is the record \<open>dedelta_world\<close>: whether the files open, what each call
  of \<^verbatim>\<open>malloc\<close>, \<^verbatim>\<open>read\<close>, \<^verbatim>\<open>lseek\<close> and \<^verbatim>\<open>write\<close> answers (\<open>None\<close> where it fails). The type \<open>'l\<close> is
  that of \<^verbatim>\<open>long\<close>, \<^verbatim>\<open>size_t\<close> and \<^verbatim>\<open>off_t\<close>, which have one width on Android. A block of the source
  is what \<^verbatim>\<open>read\<close> put into \<^verbatim>\<open>bsource\<close>; the bytes after it, left over from an earlier block,
  are not there in the model, so a use of them would be \<open>None\<close>.
\<close>

section \<open>The world\<close>

record dedelta_world =
  opens_source :: bool
  opens_delta :: bool
  opens_out :: "bytes option"
  bsource_alloc :: "bytes option"
  bdelta_alloc :: "bytes option"
  stream_heap :: xd3_malloc
  rinst_size :: nat
  source_garbage :: xd3_source
  delta_read :: "nat \<Rightarrow> bytes option"
  source_seek :: "nat \<Rightarrow> bool"
  source_read :: "nat \<Rightarrow> nat \<Rightarrow> bytes option"
  out_write :: "nat \<Rightarrow> bytes \<Rightarrow> nat option"

text \<open>
  \<open>opens_out\<close> is what the output file holds after \<^verbatim>\<open>open\<close>: nothing, unless \<^verbatim>\<open>unlink\<close> failed, since
  \<^verbatim>\<open>O_TRUNC\<close> is not asked for. \<open>source_garbage\<close> is the source structure on the stack before its first
  five fields are set.
\<close>

definition CHUNK :: u32 where "CHUNK = 256 * 1024"

datatype dedelta_error = Malloc_failed | Error_1 | Write_error | Seek_error | Error_3

section \<open>The loop\<close>

text \<open>One \<^verbatim>\<open>read\<close> of the delta. A failed one is \<^verbatim>\<open>SIZE_MAX\<close> as a \<^verbatim>\<open>size_t\<close>, so the stream is
  told that far more input is there than the buffer holds.\<close>

definition next_input :: "dedelta_world \<Rightarrow> nat \<Rightarrow> xd3_stream \<Rightarrow> (bool \<times> xd3_stream) option" where
  "next_input w i s =
     (case delta_read w i of
        None \<Rightarrow> None
      | Some r \<Rightarrow> Some (r = [], xd3_avail_input r (if r = [] then xd3_set_flags XD3_FLUSH s else s)))"

text \<open>The source block the stream asked for; the stream's source is the structure on the stack.\<close>

definition set_block :: "'l::len itself \<Rightarrow> dedelta_world \<Rightarrow> xd3_stream \<Rightarrow> (dedelta_error + xd3_stream) option" where
  "set_block l w s =
     (case src s of
        None \<Rightarrow> None
      | Some source \<Rightarrow>
          (let pos = (ucast (ucast (blksize source) * getblkno source) :: 'l word)
           in if sint pos < 0 \<or> \<not> source_seek w (unat pos) then Some (Inl Seek_error)
              else
                (let source1 =
                   (case source_read w (unat pos) (unat (blksize source)) of
                      None \<Rightarrow> source\<lparr>onblk := - 1\<rparr>
                    | Some r \<Rightarrow> source\<lparr>curblk := Some r, onblk := of_nat (length r)\<rparr>)
                 in Some (Inr (s\<lparr>src := Some (source1\<lparr>curblkno := getblkno source\<rparr>)\<rparr>)))))"

text \<open>\<^verbatim>\<open>next_out[0..avail_out)\<close>.\<close>

definition out_bytes :: "xd3_stream \<Rightarrow> bytes option" where
  "out_bytes s =
     (case next_out s of
        None \<Rightarrow> None
      | Some b \<Rightarrow>
          (case blocks s b of
             None \<Rightarrow> None
           | Some mem \<Rightarrow> if unat (avail_out s) \<le> length mem then Some (take (unat (avail_out s)) mem) else None))"

text \<open>From the label \<^verbatim>\<open>process\<close> on: \<open>i\<close> reads and \<open>k\<close> writes were made, \<open>out\<close> is written.\<close>

partial_function (option) process ::
    "'l::len itself \<Rightarrow> decode_mem \<Rightarrow> dedelta_world \<Rightarrow> bool \<Rightarrow> nat \<Rightarrow> nat \<Rightarrow> bytes \<Rightarrow> xd3_stream \<Rightarrow>
     ((dedelta_error + xd3_stream) \<times> bytes) option" where
  "process l dm w eof i k out s =
     Option.bind (xd3_decode_input l dm s) (\<lambda>(ret, s).
       if ret = XD3_INPUT
       then (if eof then Some (Inr s, out)
             else Option.bind (next_input w i s) (\<lambda>(eof, s). process l dm w eof (i + 1) k out s))
       else if ret = XD3_OUTPUT
       then (if avail_out s > 0
             then Option.bind (out_bytes s) (\<lambda>bs.
               if out_write w k bs = Some (length bs)
               then process l dm w eof i (k + 1) (out @ bs) (xd3_consume_output s)
               else Some (Inl Write_error, out @ take (case out_write w k bs of None \<Rightarrow> 0 | Some n \<Rightarrow> n) bs))
             else process l dm w eof i k out (xd3_consume_output s))
       else if ret = XD3_GETSRCBLK
       then Option.bind (set_block l w s) (\<lambda>r.
              case r of Inl e \<Rightarrow> Some (Inl e, out) | Inr s \<Rightarrow> process l dm w eof i k out s)
       else if ret = XD3_GOTHEADER \<or> ret = XD3_WINSTART \<or> ret = XD3_WINFINISH
       then process l dm w eof i k out s
       else Some (Inl Error_3, out))"

section \<open>The function\<close>

text \<open>What it returns, the error it reports, and the output file (\<open>None\<close> when there is none).\<close>

record dedelta_result =
  returns :: int
  reports :: "dedelta_error option"
  out_file :: "bytes option"

definition written_over :: "bytes \<Rightarrow> bytes \<Rightarrow> bytes" where
  "written_over old out = out @ drop (length out) old"

definition delta_config :: "xd3_malloc \<Rightarrow> xd3_config" where
  "delta_config h = (xd3_init_config h 0)\<lparr>cfg_winsize := 32768\<rparr>"

definition dedelta :: "'l::len itself \<Rightarrow> decode_mem \<Rightarrow> dedelta_world \<Rightarrow> dedelta_result option" where
  "dedelta l dm w =
     (case opens_out w of
        None \<Rightarrow> Some \<lparr>returns = 0, reports = None, out_file = None\<rparr>
      | Some old \<Rightarrow>
          (let xerror = (\<lambda>e out. Some \<lparr>returns = 0, reports = Some e, out_file = Some (written_over old out)\<rparr>)
           in if \<not> opens_source w \<or> \<not> opens_delta w then Some \<lparr>returns = 0, reports = None, out_file = None\<rparr>
              else case bsource_alloc w of
                None \<Rightarrow> xerror Malloc_failed []
              | Some bsource \<Rightarrow>
              (case bdelta_alloc w of
                None \<Rightarrow> xerror Malloc_failed []
              | Some _ \<Rightarrow>
              (case xd3_config_stream (rinst_size w) (stream_heap w) (Some (delta_config (stream_heap w))) (\<lambda>_. None) 0 of
                (ret, _, s) \<Rightarrow>
                  if ret \<noteq> XD3_OK then xerror Error_1 []
                  else Option.bind
                    (xd3_set_source l ((source_garbage w)\<lparr>blksize := CHUNK, curblkno := - 1, curblk := Some bsource\<rparr>))
                    (\<lambda>source. Option.bind (next_input w 0 (s\<lparr>src := Some source\<rparr>)) (\<lambda>(eof, s).
                    Option.bind (process l dm w eof 1 0 [] s) (\<lambda>(r, out).
                    case r of
                      Inl e \<Rightarrow> xerror e out
                    | Inr s \<Rightarrow>
                        map_option (\<lambda>_. \<lparr>returns = 1, reports = None, out_file = Some (written_over old out)\<rparr>)
                          (xd3_free_stream (snd (decoder_close s))))))))))"


section \<open>Errors\<close>

lemma delta_config_ok:
  "\<exists>e. xd3_config_stream r h (Some (delta_config h)) bl n =
     (XD3_OK, e, (zero_stream (delta_config h) bl n)\<lparr>getblk := None, flags := 0\<rparr>)"
proof -
  have f: "cfg_winsize (delta_config h) = 32768" "cfg_sprevsz (delta_config h) = 0" "cfg_iopt_size (delta_config h) = 0"
    "cfg_getblk (delta_config h) = None" "cfg_flags (delta_config h) = 0"
    by (simp_all add: delta_config_def xd3_init_config_def)
  have m: "config_smatcher (delta_config h) old = (smatcher_default, None)" for old
    by (simp add: config_smatcher_def delta_config_def xd3_init_config_def XD3_SMATCH_DEFAULT_def XD3_SMATCH_SOFT_def)
  show ?thesis
    unfolding xd3_config_stream_def
    by (simp add: Let_def default_checks f m config_sprevsz_def zero_settings_def smatcher_zero_def)
qed


text \<open>The stream \<^verbatim>\<open>dedelta\<close> starts with, and what it does when nothing fails before the loop.\<close>

definition first_stream :: "dedelta_world \<Rightarrow> xd3_source \<Rightarrow> xd3_stream" where
  "first_stream w source =
     (zero_stream (delta_config (stream_heap w)) (\<lambda>_. None) 0)\<lparr>getblk := None, flags := 0, src := Some source\<rparr>"

definition dedelta_source :: "dedelta_world \<Rightarrow> bytes \<Rightarrow> xd3_source" where
  "dedelta_source w mem = (source_garbage w)\<lparr>blksize := CHUNK, curblkno := - 1, curblk := Some mem\<rparr>"

definition dedelta_end :: "bytes \<Rightarrow> (dedelta_error + xd3_stream) \<times> bytes \<Rightarrow> dedelta_result option" where
  "dedelta_end old r =
     (case fst r of
        Inl e \<Rightarrow> Some \<lparr>returns = 0, reports = Some e, out_file = Some (written_over old (snd r))\<rparr>
      | Inr s \<Rightarrow> map_option (\<lambda>_. \<lparr>returns = 1, reports = None, out_file = Some (written_over old (snd r))\<rparr>)
          (xd3_free_stream (snd (decoder_close s))))"

lemma dedelta_runs:
  assumes "opens_source w" "opens_delta w" "opens_out w = Some old" "bsource_alloc w = Some mem" "bdelta_alloc w \<noteq> None"
  shows "dedelta l dm w =
    Option.bind (xd3_set_source l (dedelta_source w mem)) (\<lambda>source.
      Option.bind (next_input w 0 (first_stream w source)) (\<lambda>(eof, s).
        Option.bind (process l dm w eof 1 0 [] s) (dedelta_end old)))"
proof -
  obtain e where c: "xd3_config_stream (rinst_size w) (stream_heap w) (Some (delta_config (stream_heap w))) (\<lambda>_. None) 0 =
     (XD3_OK, e, (zero_stream (delta_config (stream_heap w)) (\<lambda>_. None) 0)\<lparr>getblk := None, flags := 0\<rparr>)"
    using delta_config_ok by blast
  obtain d where d: "bdelta_alloc w = Some d" using assms(5) by blast
  show ?thesis
    unfolding dedelta_def assms(3,4) d c
    using assms(1,2) by (simp add: first_stream_def dedelta_source_def dedelta_end_def [abs_def] Let_def split_def)
qed

lemma process_cases:
  assumes "xd3_decode_input l dm s = Some (ret, t)"
  shows "ret = XD3_INPUT \<Longrightarrow> eof \<Longrightarrow> process l dm w eof i k out s = Some (Inr t, out)"
    and "ret = XD3_INPUT \<Longrightarrow> \<not> eof \<Longrightarrow> process l dm w eof i k out s =
      Option.bind (next_input w i t) (\<lambda>(eof, s). process l dm w eof (i + 1) k out s)"
    and "ret \<in> {XD3_GOTHEADER, XD3_WINSTART, XD3_WINFINISH} \<Longrightarrow> process l dm w eof i k out s = process l dm w eof i k out t"
    and "ret = XD3_GETSRCBLK \<Longrightarrow> set_block l w t = Some (Inr u) \<Longrightarrow> process l dm w eof i k out s = process l dm w eof i k out u"
    and "ret = XD3_OUTPUT \<Longrightarrow> avail_out t = 0 \<Longrightarrow> process l dm w eof i k out s = process l dm w eof i k out (xd3_consume_output t)"
    and "ret = XD3_OUTPUT \<Longrightarrow> avail_out t > 0 \<Longrightarrow> out_bytes t = Some bs \<Longrightarrow> out_write w k bs = Some (length bs) \<Longrightarrow>
      process l dm w eof i k out s = process l dm w eof i (k + 1) (out @ bs) (xd3_consume_output t)"
    and "ret \<in> {XD3_INVALID_INPUT, XD3_INTERNAL, ENOMEM} \<Longrightarrow> process l dm w eof i k out s = Some (Inl Error_3, out)"
  by (subst process.simps; auto simp: assms)+

lemma chunk_blksize:
  assumes "blksize x = CHUNK"
  shows "set_blksize l x = Some (x\<lparr>shiftby := 18, maskby := push_bit 18 1 - 1\<rparr>)"
proof -
  have "ucast (blksize x) = (push_bit 18 1 :: u64)"
    using assms by (simp add: CHUNK_def push_bit_eq_mult)
  then have "xd3_check_pow2 (ucast (blksize x)) = (XD3_OK, 18)" using check_pow2_power [of 18] by simp
  then show ?thesis by (simp add: set_blksize_def set_shift_def)
qed

lemma set_source_garbage:
  assumes "blksize x = CHUNK"
  shows "xd3_set_source l x = None \<longleftrightarrow> unat (max_winsize x) > 2 ^ 63"
proof -
  have b: "set_blksize l (x\<lparr>srclen := 0, srcbase := 0\<rparr>) =
    Some (x\<lparr>srclen := 0, srcbase := 0, shiftby := 18, maskby := push_bit 18 1 - 1\<rparr>)"
    using chunk_blksize [of "x\<lparr>srclen := 0, srcbase := 0\<rparr>" l] assms by simp
  have "xd3_xoff_roundup (max_winsize x) = None \<longleftrightarrow> unat (max_winsize x) > 2 ^ 63"
    using roundup_loop_power(1) [of "max_winsize x"] roundup_loop_runs_forever [of "max_winsize x"]
    by (cases "unat (max_winsize x) > 2 ^ 63") (auto simp: xd3_xoff_roundup_def)
  moreover have "fst (xd3_check_pow2 (max_winsize x)) \<noteq> XD3_OK" if "unat (max_winsize x) > 2 ^ 63"
  proof
    assume "fst (xd3_check_pow2 (max_winsize x)) = XD3_OK"
    then obtain j where "j < 64" "max_winsize x = push_bit j 1"
      using check_pow2_OK [of "max_winsize x"] by (cases "xd3_check_pow2 (max_winsize x)") auto
    then have "unat (max_winsize x) = 2 ^ j" using unat_push_bit_1 [of j, where 'a = 64] by simp
    also have "\<dots> \<le> 2 ^ 63" using \<open>j < 64\<close> by (intro power_increasing) auto
    finally show False using that by simp
  qed
  ultimately show ?thesis
    unfolding xd3_set_source_def b by (auto split: option.splits if_splits)
qed

text \<open>C40: The source structure of \<^verbatim>\<open>dedelta\<close> is not initialised, and \<^verbatim>\<open>xd3_set_source\<close> rounds the window size
  it finds there up to a power of two: when the stack holds a number above \<open>2 ^ 63\<close>, no power of two is
  large enough and \<^verbatim>\<open>dedelta\<close> never returns, whatever the files hold.\<close>

theorem dedelta_hangs_on_garbage:
  assumes "opens_source w" "opens_delta w" "opens_out w \<noteq> None" "bsource_alloc w \<noteq> None" "bdelta_alloc w \<noteq> None"
    and "unat (max_winsize (source_garbage w)) > 2 ^ 63"
  shows "dedelta l dm w = None"
proof -
  obtain old mem where w: "opens_out w = Some old" "bsource_alloc w = Some mem" using assms(3,4) by blast
  have "xd3_set_source l (dedelta_source w mem) = None"
    using assms(6) set_source_garbage [of "dedelta_source w mem" l] by (simp add: dedelta_source_def)
  then show ?thesis using dedelta_runs [OF assms(1,2) w assms(5), of l dm] by simp
qed


definition sample_world :: "u64 \<Rightarrow> (nat \<Rightarrow> bytes option) \<Rightarrow> dedelta_world" where
  "sample_world garbage reads =
     \<lparr>opens_source = True, opens_delta = True, opens_out = Some [], bsource_alloc = Some [], bdelta_alloc = Some [],
      stream_heap = \<lparr>heap_alloc = \<lambda>_ n. Some (replicate n 0), heap_words = \<lambda>n. Some (replicate (unat n) 0), heap_table = True\<rparr>,
      rinst_size = 24, source_garbage = (sample_source 0)\<lparr>max_winsize := garbage\<rparr>, delta_read = reads,
      source_seek = \<lambda>_. True, source_read = \<lambda>_ _. Some [], out_write = \<lambda>_ bs. Some (length bs)\<rparr>"

theorem dedelta_hangs_on_garbage_witness:
  "dedelta TYPE(32) (\<lambda>_ _. None) (sample_world 0xdeadbeefdeadbeef (\<lambda>_. Some [])) = None"
  by (rule dedelta_hangs_on_garbage) (simp_all add: sample_world_def)

text \<open>C38: A delta without a single byte is accepted: \<^verbatim>\<open>dedelta\<close> returns 1, and the output file holds nothing
  (or what it held before, if it could not be removed), because the decoder, waiting for
  the first byte, only asks for more, and \<^verbatim>\<open>xd3_close_stream\<close> takes a stream that has not begun for a finished one.\<close>

theorem dedelta_accepts_empty_delta:
  assumes "opens_source w" "opens_delta w" "opens_out w = Some old" "bsource_alloc w \<noteq> None" "bdelta_alloc w \<noteq> None"
    and "unat (max_winsize (source_garbage w)) \<le> 2 ^ 63" and "delta_read w 0 = Some []"
  shows "dedelta l dm w = Some \<lparr>returns = 1, reports = None, out_file = Some old\<rparr>"
proof -
  obtain mem where mem: "bsource_alloc w = Some mem" using assms(4) by blast
  obtain source where s: "xd3_set_source l (dedelta_source w mem) = Some source"
    using assms(6) set_source_garbage [of "dedelta_source w mem" l]
    by (cases "xd3_set_source l (dedelta_source w mem)") (simp_all add: dedelta_source_def)
  let ?s = "xd3_avail_input [] (xd3_set_flags XD3_FLUSH (first_stream w source))"
  have n: "next_input w 0 (first_stream w source) = Some (True, ?s)" using assms(7) by (simp add: next_input_def)
  have "xd3_decode_input l dm ?s = Some (XD3_INPUT, ?s\<lparr>msg := Some ''further input required''\<rparr>)"
    by (simp add: xd3_decode_input_def first_stream_def zero_stream_def xd3_avail_input_def xd3_set_flags_def
        dec_VCHEAD_def xd3_decode_bytes_def decode_bytes_loop.simps [of _ 0] DECODE_INPUT_def fail_def Let_def)
  from process_cases(1) [OF this refl]
  have "process l dm w True 1 0 [] ?s = Some (Inr (?s\<lparr>msg := Some ''further input required''\<rparr>), [])" by simp
  then show ?thesis
    using dedelta_runs [OF assms(1-3) mem assms(5), of l dm] s n
    by (simp add: dedelta_end_def decoder_close_def xd3_free_stream_def free_block_def first_stream_def zero_stream_def
        xd3_avail_input_def xd3_set_flags_def written_over_def)
qed

theorem dedelta_accepts_empty_delta_witness:
  "dedelta TYPE(32) (\<lambda>_ _. None) (sample_world 0 (\<lambda>_. Some [])) = Some \<lparr>returns = 1, reports = None, out_file = Some []\<rparr>"
  by (rule dedelta_accepts_empty_delta) (simp_all add: sample_world_def)

end
