(* ===== verification/Sections.thy ===== *)
theory Sections
  imports Pieces
begin

text \<open>
  The sections of a window, when they come in pieces: \<^verbatim>\<open>xd3_decode_section\<close> copies what is
  there into a buffer of its own and goes on with the next piece, and after the last piece the
  sections are what they are when they come at once. The predicate \<open>reading\<close> says how far it is.
\<close>

section \<open>What reading the sections changes\<close>

text \<open>The stream without the fields that reading the sections works on.\<close>

definition strip :: "xd3_stream \<Rightarrow> xd3_stream" where
  "strip s = s\<lparr>mem_count := 0, next_in := [], total_in := 0, msg := None, dec_state := DEC_EMIT, dec_winbytes := 0,
     inst_sect := zero_sect, addr_sect := zero_sect, data_sect := zero_sect\<rparr>"

lemma strip_upd [simp]:
  "strip (s\<lparr>mem_count := a\<rparr>) = strip s" "strip (s\<lparr>next_in := b\<rparr>) = strip s" "strip (s\<lparr>total_in := c\<rparr>) = strip s"
  "strip (s\<lparr>msg := d\<rparr>) = strip s" "strip (s\<lparr>dec_state := e\<rparr>) = strip s" "strip (s\<lparr>dec_winbytes := f\<rparr>) = strip s"
  "strip (inst_sect_update g s) = strip s" "strip (addr_sect_update g s) = strip s" "strip (data_sect_update g s) = strip s"
  by (simp_all add: strip_def)

lemma strip_fields:
  "mem_alloc (strip s) = mem_alloc s" "flags (strip s) = flags s" "enc_state (strip s) = enc_state s"
  "dec_win_ind (strip s) = dec_win_ind s" "dec_tgtlen (strip s) = dec_tgtlen s" "dec_cpylen (strip s) = dec_cpylen s"
  by (simp_all add: strip_def)

lemma strip_alloc: "strip s = strip t \<Longrightarrow> mem_alloc s = mem_alloc t"
  by (metis strip_fields(1))

text \<open>The private buffer of a section has the size noted for it.\<close>

definition copy_kept :: "xd3_desect \<Rightarrow> bool" where
  "copy_kept x \<longleftrightarrow> (\<forall>mem. sec_copied x = Some mem \<longrightarrow> unat (sec_alloc x) \<le> length mem)"

definition roomy :: "xd3_stream \<Rightarrow> bool" where
  "roomy s \<longleftrightarrow> exact_alloc s \<and> (\<forall>k n. mem_alloc s k n \<noteq> None)"

lemma roomy_strip: "strip t = strip s \<Longrightarrow> roomy t = roomy s"
  using strip_alloc [of t s] by (simp add: roomy_def exact_alloc_def)

lemma round_covers:
  assumes "unat t \<le> 2 ^ 31"
  shows "unat t \<le> unat (xd3_round_blksize t DECODE_ALLOCSIZE)"
proof -
  let ?m = "t AND (DECODE_ALLOCSIZE - 1)"
  have a: "DECODE_ALLOCSIZE - 1 = mask 14" by (simp add: DECODE_ALLOCSIZE_def mask_eq_exp_minus_1 push_bit_eq_mult)
  have m: "unat ?m = unat t mod 2 ^ 14" unfolding a by (rule unat_and_mask)
  have d: "unat (DECODE_ALLOCSIZE - ?m) = 2 ^ 14 - unat t mod 2 ^ 14"
    using m by (subst unat_sub_le) (simp_all add: word_le_nat_alt DECODE_ALLOCSIZE_def push_bit_eq_mult less_imp_le)
  have sum: "unat (t + (DECODE_ALLOCSIZE - ?m)) = unat t + (2 ^ 14 - unat t mod 2 ^ 14)"
    using d assms by (subst unat_add_u32) simp_all
  have "unat t \<le> unat (t + (DECODE_ALLOCSIZE - ?m))" unfolding sum by (rule le_add1)
  then show ?thesis by (simp add: xd3_round_blksize_def Let_def)
qed

section \<open>One section\<close>

text \<open>A section of the stream and the other two.\<close>

locale one_of_three = desect +
  fixes other1 other2 :: "xd3_stream \<Rightarrow> xd3_desect"
  assumes sel_more [simp]: "sel (s\<lparr>mem_count := m\<rparr>) = sel s" "sel (s\<lparr>msg := x\<rparr>) = sel s"
    and strip_sect [simp]: "strip (upd g s) = strip s"
    and upd_more [simp]: "mem_alloc (upd g s) = mem_alloc s" "mem_count (upd g s) = mem_count s" "dec_state (upd g s) = dec_state s"
    and other_upd [simp]: "other1 (upd g s) = other1 s" "other2 (upd g s) = other2 s"
    and other_io [simp]: "other1 (s\<lparr>mem_count := m\<rparr>) = other1 s" "other1 (s\<lparr>msg := x\<rparr>) = other1 s"
      "other1 (s\<lparr>next_in := i\<rparr>) = other1 s" "other1 (s\<lparr>total_in := t\<rparr>) = other1 s"
      "other1 (s\<lparr>dec_winbytes := w\<rparr>) = other1 s" "other1 (s\<lparr>dec_state := d\<rparr>) = other1 s"
      "other2 (s\<lparr>mem_count := m\<rparr>) = other2 s" "other2 (s\<lparr>msg := x\<rparr>) = other2 s"
      "other2 (s\<lparr>next_in := i\<rparr>) = other2 s" "other2 (s\<lparr>total_in := t\<rparr>) = other2 s"
      "other2 (s\<lparr>dec_winbytes := w\<rparr>) = other2 s" "other2 (s\<lparr>dec_state := d\<rparr>) = other2 s"
begin

text \<open>The first \<open>k\<close> bytes of the section \<open>B\<close> are read.\<close>

definition staged :: "bytes \<Rightarrow> nat \<Rightarrow> xd3_stream \<Rightarrow> bool" where
  "staged B k s \<longleftrightarrow> length B = unat (sec_size (sel s)) \<and> length B \<le> 2 ^ 31 \<and> unat (sec_pos (sel s)) = k \<and> (k = 0 \<or> k < length B) \<and>
     copy_kept (sel s) \<and>
     (k = 0 \<or> (\<exists>mem. sec_copied (sel s) = Some mem \<and> take k mem = take k B \<and> length B \<le> length mem))"

definition complete :: "bytes \<Rightarrow> xd3_stream \<Rightarrow> bool" where
  "complete B s \<longleftrightarrow> sec_buf (sel s) = B \<and> length B = unat (sec_size (sel s)) \<and> sec_pos (sel s) = 0 \<and> copy_kept (sel s)"

definition frame :: "xd3_stream \<Rightarrow> xd3_stream \<Rightarrow> bool" where
  "frame s t \<longleftrightarrow> strip t = strip s \<and> other1 t = other1 s \<and> other2 t = other2 s"

lemma allocate_room:
  assumes r: "roomy s" and c: "copy_kept (sel s)" and sz: "unat sz \<le> 2 ^ 31"
  shows "\<exists>t mem al. xd3_decode_allocate sz sel upd s = ok t \<and> sel t = (sel s)\<lparr>sec_copied := Some mem, sec_alloc := al\<rparr> \<and>
    unat sz \<le> length mem \<and> unat al \<le> length mem \<and> frame s t \<and> next_in t = next_in s \<and>
    dec_winbytes t = dec_winbytes s \<and> dec_state t = dec_state s"
proof (cases "sec_copied (sel s) \<noteq> None \<and> \<not> sec_alloc (sel s) < sz")
  case True
  then obtain mem where mem: "sec_copied (sel s) = Some mem" "sz \<le> sec_alloc (sel s)" by auto
  have "xd3_decode_allocate sz sel upd s = ok s" using True by (auto simp: xd3_decode_allocate_def Let_def)
  moreover have "sel s = (sel s)\<lparr>sec_copied := Some mem, sec_alloc := sec_alloc (sel s)\<rparr>"
    using mem(1) by (metis xd3_desect.surjective xd3_desect.update_convs(4,5))
  moreover have "unat sz \<le> length mem" "unat (sec_alloc (sel s)) \<le> length mem"
    using c mem by (auto simp: copy_kept_def word_le_nat_alt)
  ultimately show ?thesis by (intro exI [of _ s] exI [of _ mem] exI [of _ "sec_alloc (sel s)"]) (simp add: frame_def)
next
  case False
  let ?al = "xd3_round_blksize sz DECODE_ALLOCSIZE"
  let ?s1 = "if sec_copied (sel s) \<noteq> None \<and> sec_alloc (sel s) < sz then upd (sec_copied_update (\<lambda>_. None)) s else s"
  let ?s2 = "upd (sec_alloc_update (\<lambda>_. ?al)) ?s1"
  have n: "sec_copied (sel ?s1) = None" using False by auto
  obtain mem where mem: "mem_alloc s (mem_count s) (unat ?al) = Some mem" "length mem = unat ?al"
  proof -
    have "\<forall>k n. mem_alloc s k n \<noteq> None" "exact_alloc s" using r by (simp_all add: roomy_def)
    then show thesis using that by (auto simp: exact_alloc_def) (metis)
  qed
  let ?t = "upd (sec_copied_update (\<lambda>_. Some mem)) (?s2\<lparr>mem_count := mem_count ?s2 + 1\<rparr>)"
  have "xd3_decode_allocate sz sel upd s = ok ?t"
    using n mem(1) by (simp add: xd3_decode_allocate_def Let_def xd3_alloc_def)
  moreover have "sel ?t = (sel s)\<lparr>sec_copied := Some mem, sec_alloc := ?al\<rparr>" by simp
  moreover have "unat sz \<le> length mem" using mem(2) round_covers [OF sz] by simp
  ultimately show ?thesis
    using mem(2) by (intro exI [of _ ?t] exI [of _ mem] exI [of _ ?al]) (simp add: frame_def)
qed

text \<open>One call, with input \<open>x\<close> that agrees with the section: all of the rest is there, or not.\<close>

lemma copy_step:
  assumes s: "staged B k s" "roomy s" "k < length B" "next_in s \<noteq> []" "copy \<or> k \<noteq> 0"
    and x: "take (length B - k) (next_in s) = take (length (next_in s)) (drop k B)"
  defines "tk \<equiv> min (length B - k) (length (next_in s))"
  shows "\<exists>t mem. xd3_decode_section sel upd ns copy s =
      (if k + tk < length B then fail XD3_INPUT ''further input required'' t
       else section_finish sel upd ns (take (length B) mem) t) \<and>
    sec_copied (sel t) = Some mem \<and> take (k + tk) mem = take (k + tk) B \<and> length B \<le> length mem \<and>
    sec_size (sel t) = sec_size (sel s) \<and> unat (sec_pos (sel t)) = k + tk \<and> copy_kept (sel t) \<and> frame s t \<and>
    next_in t = drop tk (next_in s) \<and> dec_winbytes t = dec_winbytes s + of_nat tk \<and> dec_state t = dec_state s"
proof -
  have B: "length B = unat (sec_size (sel s))" "length B \<le> 2 ^ 31" "unat (sec_pos (sel s)) = k" "copy_kept (sel s)"
    "k = 0 \<or> (\<exists>mem. sec_copied (sel s) = Some mem \<and> take k mem = take k B \<and> length B \<le> length mem)"
    using s(1) unfolding staged_def by blast+
  have lt: "sec_pos (sel s) < sec_size (sel s)" using B s(3) by (simp add: word_less_nat_alt)
  have need: "unat (sec_size (sel s) - sec_pos (sel s)) = length B - k"
    using B(1,3) lt by (subst unat_sub_le) simp_all
  obtain u mem where u: "(if sec_pos (sel s) = 0 then xd3_decode_allocate (sec_size (sel s)) sel upd s else ok s) = ok u"
    "sec_copied (sel u) = Some mem" "take k mem = take k B" "length B \<le> length mem" "sec_size (sel u) = sec_size (sel s)"
    "sec_pos (sel u) = sec_pos (sel s)" "copy_kept (sel u)" "frame s u" "next_in u = next_in s"
    "dec_winbytes u = dec_winbytes s" "dec_state u = dec_state s"
  proof (cases "k = 0")
    case True
    obtain t mem al where t: "xd3_decode_allocate (sec_size (sel s)) sel upd s = ok t"
      "sel t = (sel s)\<lparr>sec_copied := Some mem, sec_alloc := al\<rparr>" "unat (sec_size (sel s)) \<le> length mem" "unat al \<le> length mem"
      "frame s t" "next_in t = next_in s" "dec_winbytes t = dec_winbytes s" "dec_state t = dec_state s"
      using allocate_room [OF s(2) B(4), of "sec_size (sel s)"] B(1,2) by auto
    have p: "sec_pos (sel s) = 0" using True B(3) by (simp add: unat_eq_0)
    show thesis
      by (rule that [of t mem]) (use t p True B(1) in \<open>simp_all add: copy_kept_def\<close>)
  next
    case False
    then have p: "sec_pos (sel s) \<noteq> 0" using B(3) by auto
    obtain mem where mem: "sec_copied (sel s) = Some mem" "take k mem = take k B" "length B \<le> length mem" using B(5) False by auto
    show thesis
      by (rule that [of s mem]) (use mem p B(4) in \<open>simp_all add: frame_def\<close>)
  qed
  let ?in = "take tk (next_in s)"
  define M where "M = take k mem @ ?in @ drop (k + tk) mem"
  have tk: "length ?in = tk" "k + tk \<le> length B" using s(3) by (simp_all add: tk_def)
  have "?in = take tk (drop k B)"
  proof -
    have "take tk (take (length B - k) (next_in s)) = take tk (take (length (next_in s)) (drop k B))" using x by simp
    then show ?thesis by (simp add: tk_def min.commute)
  qed
  then have tB: "take (k + tk) M = take (k + tk) B"
    using u(3,4) tk s(3) by (simp add: take_add M_def)
  have bl: "blit mem k ?in = Some M" using u(4) tk by (simp add: blit_def M_def)
  have lm: "length M = length mem" using u(4) tk by (simp add: M_def)
  let ?v = "upd (sec_copied_update (\<lambda>_. Some M)) u"
  have cp: "section_copy sel upd tk u = ok ?v"
    using u(2,6,9) B(3) bl by (simp add: section_copy_def)
  let ?t = "section_advance sel upd tk ?v"
  have sel_t: "sel ?t = (sel u)\<lparr>sec_copied := Some M, sec_pos := sec_pos (sel s) + of_nat tk\<rparr>"
    by (simp add: section_advance_def DECODE_INPUT_def Let_def u(6))
  have k: "unat (of_nat tk :: u32) = tk" using tk(2) B(2) by (simp add: unsigned_of_nat take_bit_nat_eq_self)
  have pos: "unat (sec_pos (sel ?t)) = k + tk"
    unfolding sel_t using B(1-3) tk k by (simp add: unat_add_u32)
  have less: "sec_pos (sel ?t) < sec_size (sel ?t) \<longleftrightarrow> k + tk < length B"
    using pos B(1) u(5) by (simp add: word_less_nat_alt sel_t)
  have c: "(\<not> copy \<and> sec_pos (sel s) = 0) = False" using s(5) B(3) by (auto simp: unat_eq_0)
  have mn: "min (unat (sec_size (sel s) - sec_pos (sel s))) (length (next_in s)) = tk" using need by (simp add: tk_def)
  have d: "xd3_decode_section sel upd ns copy s =
      (if k + tk < length B then fail XD3_INPUT ''further input required'' ?t
       else section_finish sel upd ns (take (length B) M) ?t)"
    unfolding xd3_decode_section_def c if_False if_P [OF lt] if_not_P [OF s(4)]
    using u(1) cp mn less B(1) u(5) by (simp add: Let_def sel_t)
  have "next_in ?t = drop tk (next_in s)" "dec_winbytes ?t = dec_winbytes s + of_nat tk" "dec_state ?t = dec_state s" "frame s ?t"
    using u(8-11) by (simp_all add: section_advance_def DECODE_INPUT_def Let_def frame_def)
  moreover have "sec_copied (sel ?t) = Some M" "sec_size (sel ?t) = sec_size (sel s)" "copy_kept (sel ?t)" "length B \<le> length M"
    using u(2,4,5,7) lm by (simp_all add: sel_t copy_kept_def)
  ultimately show ?thesis using d tB pos by blast
qed

lemma finish_frame:
  assumes "frame s t" "length B = unat (sec_size (sel t))" "copy_kept (sel t)"
  shows "\<exists>u. section_finish sel upd ns B t = ok u \<and> complete B u \<and> frame s u \<and> next_in u = next_in t \<and>
    dec_winbytes u = dec_winbytes t \<and> dec_state u = ns"
  using assms by (simp add: section_finish_def complete_def frame_def copy_kept_def)

definition section_done :: "bytes \<Rightarrow> nat \<Rightarrow> xd3_decode_state \<Rightarrow> xd3_stream \<Rightarrow> xd3_stream \<Rightarrow> bool" where
  "section_done B k ns s t \<longleftrightarrow> complete B t \<and> frame s t \<and> next_in t = drop (length B - k) (next_in s) \<and>
     dec_winbytes t = dec_winbytes s + of_nat (length B - k) \<and> dec_state t = ns"

definition section_waits :: "bytes \<Rightarrow> nat \<Rightarrow> xd3_stream \<Rightarrow> xd3_stream \<Rightarrow> bool" where
  "section_waits B k s t \<longleftrightarrow> staged B (k + length (next_in s)) t \<and> frame s t \<and> next_in t = [] \<and>
     dec_winbytes t = dec_winbytes s + of_nat (length (next_in s)) \<and> dec_state t = dec_state s"

lemma section_completes:
  assumes s: "staged B k s" "roomy s" and x: "next_in s = drop k B @ rest"
  shows "\<exists>t. xd3_decode_section sel upd ns copy s = ok t \<and> section_done B k ns s t"
proof -
  have B: "length B = unat (sec_size (sel s))" "unat (sec_pos (sel s)) = k" "copy_kept (sel s)" "k = 0 \<or> k < length B"
    using s(1) unfolding staged_def by blast+
  consider "B = []" | "k < length B" "copy \<or> k \<noteq> 0" | "k = 0" "\<not> copy" "B \<noteq> []" using B(4) by (cases "k = 0") auto
  then show ?thesis
  proof cases
    case 1
    then have z: "sec_size (sel s) = 0" "k = 0" using B(1,4) by (simp_all add: unat_eq_0)
    have "xd3_decode_section sel upd ns copy s = section_finish sel upd ns B s"
      using z 1 by (simp add: xd3_decode_section_def)
    then show ?thesis
      using finish_frame [of s s B ns] 1 B(1,3) z by (auto simp: section_done_def frame_def)
  next
    case 2
    obtain t mem where t: "xd3_decode_section sel upd ns copy s = section_finish sel upd ns (take (length B) mem) t"
      "sec_copied (sel t) = Some mem" "take (length B) mem = B" "length B \<le> length mem" "sec_size (sel t) = sec_size (sel s)"
      "copy_kept (sel t)" "frame s t" "next_in t = drop (length B - k) (next_in s)"
      "dec_winbytes t = dec_winbytes s + of_nat (length B - k)" "dec_state t = dec_state s"
    proof -
      have "next_in s \<noteq> []" "take (length B - k) (next_in s) = take (length (next_in s)) (drop k B)"
        "min (length B - k) (length (next_in s)) = length B - k"
        using 2 x by simp_all
      from copy_step [OF s 2(1) this(1) 2(2) this(2), of ns, unfolded this(3)] show thesis
        using that 2(1) by auto
    qed
    then show ?thesis
      using finish_frame [OF t(7), of B ns] B(1) by (auto simp: section_done_def)
  next
    case 3
    have lt: "sec_pos (sel s) < sec_size (sel s)" "sec_pos (sel s) = 0"
      using B(2) 3 by (simp_all add: word_less_nat_alt unat_eq_0 flip: B(1))
    let ?t = "section_advance sel upd (length B) s"
    have "xd3_decode_section sel upd ns copy s = section_finish sel upd ns B ?t"
      using lt 3 x B(1) by (simp add: xd3_decode_section_def Let_def)
    moreover have "frame s ?t" "length B = unat (sec_size (sel ?t))" "copy_kept (sel ?t)"
      "next_in ?t = drop (length B) (next_in s)" "dec_winbytes ?t = dec_winbytes s + of_nat (length B)"
      using B(1,3) by (simp_all add: section_advance_def DECODE_INPUT_def Let_def frame_def copy_kept_def)
    ultimately show ?thesis using finish_frame [of s ?t B ns] 3(1) by (auto simp: section_done_def)
  qed
qed

lemma section_continues:
  assumes s: "staged B k s" "roomy s" and x: "k + length (next_in s) < length B" "next_in s = take (length (next_in s)) (drop k B)"
  shows "\<exists>t. xd3_decode_section sel upd ns True s = Some (XD3_INPUT, t) \<and> section_waits B k s t"
proof (cases "next_in s = []")
  case True
  have "sec_pos (sel s) < sec_size (sel s)" using s(1) x(1) by (auto simp: staged_def word_less_nat_alt)
  then have "xd3_decode_section sel upd ns True s = Some (XD3_INPUT, s)" using True by (simp add: xd3_decode_section_def)
  then show ?thesis using s(1) True by (simp add: section_waits_def frame_def)
next
  case False
  obtain t mem where t: "xd3_decode_section sel upd ns True s = fail XD3_INPUT ''further input required'' t"
      "sec_copied (sel t) = Some mem" "take (k + length (next_in s)) mem = take (k + length (next_in s)) B" "length B \<le> length mem"
      "sec_size (sel t) = sec_size (sel s)" "unat (sec_pos (sel t)) = k + length (next_in s)"
      "copy_kept (sel t)" "frame s t" "next_in t = []"
      "dec_winbytes t = dec_winbytes s + of_nat (length (next_in s))" "dec_state t = dec_state s"
  proof -
    have "take (length B - k) (next_in s) = take (length (next_in s)) (drop k B)"
      "min (length B - k) (length (next_in s)) = length (next_in s)" "k < length B"
      using x by simp_all
    from copy_step [OF s this(3) False disjI1 [OF TrueI] this(1), of ns, unfolded this(2)] show thesis
      using that x(1) by auto
  qed
  let ?t = "t\<lparr>msg := Some ''further input required''\<rparr>"
  have "section_waits B k s ?t"
    using t s(1) x(1) by (simp add: section_waits_def staged_def frame_def)
  then show ?thesis using t(1) by (auto simp: fail_def)
qed

end

interpretation data3: one_of_three data_sect data_sect_update inst_sect addr_sect
  by unfold_locales simp_all

interpretation inst3: one_of_three inst_sect inst_sect_update data_sect addr_sect
  by unfold_locales simp_all

interpretation addr3: one_of_three addr_sect addr_sect_update data_sect inst_sect
  by unfold_locales simp_all

section \<open>The three sections\<close>

text \<open>\<open>k\<close> bytes of the three are read.\<close>

definition reading_addr :: "bytes \<Rightarrow> bytes \<Rightarrow> bytes \<Rightarrow> nat \<Rightarrow> xd3_stream \<Rightarrow> bool" where
  "reading_addr D I A j s \<longleftrightarrow> dec_state s = DEC_ADDR \<and> data3.complete D s \<and> inst3.complete I s \<and> addr3.staged A j s \<and>
     unat (dec_winbytes s) = length D + length I + j"

definition reading_inst :: "bytes \<Rightarrow> bytes \<Rightarrow> bytes \<Rightarrow> nat \<Rightarrow> xd3_stream \<Rightarrow> bool" where
  "reading_inst D I A j s \<longleftrightarrow> dec_state s = DEC_INST \<and> data3.complete D s \<and> inst3.staged I j s \<and> addr3.staged A 0 s \<and>
     unat (dec_winbytes s) = length D + j"

definition reading_data :: "bytes \<Rightarrow> bytes \<Rightarrow> bytes \<Rightarrow> nat \<Rightarrow> xd3_stream \<Rightarrow> bool" where
  "reading_data D I A j s \<longleftrightarrow> dec_state s = DEC_DATA \<and> data3.staged D j s \<and> inst3.staged I 0 s \<and> addr3.staged A 0 s \<and>
     unat (dec_winbytes s) = j"

definition reading :: "bytes \<Rightarrow> bytes \<Rightarrow> bytes \<Rightarrow> nat \<Rightarrow> xd3_stream \<Rightarrow> bool" where
  "reading D I A k s \<longleftrightarrow> length D + length I + length A < 2 ^ 31 \<and>
     (reading_data D I A k s \<or> (\<exists>j. k = length D + j \<and> reading_inst D I A j s) \<or>
      (\<exists>j. k = length D + length I + j \<and> reading_addr D I A j s))"

definition sections_done :: "bytes \<Rightarrow> bytes \<Rightarrow> bytes \<Rightarrow> bytes \<Rightarrow> xd3_stream \<Rightarrow> xd3_stream \<Rightarrow> bool" where
  "sections_done D I A rest s t \<longleftrightarrow> data3.complete D t \<and> inst3.complete I t \<and> addr3.complete A t \<and>
     strip t = strip s \<and> next_in t = rest \<and> dec_state t = DEC_EMIT"

definition sections_wait :: "bytes \<Rightarrow> bytes \<Rightarrow> bytes \<Rightarrow> nat \<Rightarrow> xd3_stream \<Rightarrow> xd3_stream \<Rightarrow> bool" where
  "sections_wait D I A k s t \<longleftrightarrow> reading D I A k t \<and> strip t = strip s \<and> next_in t = []"

lemma winbytes_add: "unat (w :: u32) + n < 2 ^ 32 \<Longrightarrow> unat (w + of_nat n) = unat w + n"
  by (subst unat_add_u32) (simp_all add: unsigned_of_nat take_bit_nat_eq_self)

lemma reading_wb: "reading D I A k s \<Longrightarrow> unat (dec_winbytes s) = k \<and> length D + length I + length A < 2 ^ 31"
  by (auto simp: reading_def reading_data_def reading_inst_def reading_addr_def)

abbreviation read_addr :: "bool \<Rightarrow> xd3_stream \<Rightarrow> result" where
  "read_addr copy \<equiv> xd3_decode_section addr_sect addr_sect_update DEC_EMIT copy"

abbreviation read_inst :: "bool \<Rightarrow> xd3_stream \<Rightarrow> result" where
  "read_inst copy s \<equiv> and_then (xd3_decode_section inst_sect inst_sect_update DEC_ADDR copy s) (read_addr copy)"

abbreviation read_data :: "bool \<Rightarrow> xd3_stream \<Rightarrow> result" where
  "read_data copy s \<equiv> and_then (xd3_decode_section data_sect data_sect_update DEC_INST copy s) (read_inst copy)"

lemma three_sections_from:
  "dec_state s = DEC_DATA \<Longrightarrow> three_sections copy s = read_data copy s"
  "dec_state s = DEC_INST \<Longrightarrow> three_sections copy s = read_inst copy s"
  "dec_state s = DEC_ADDR \<Longrightarrow> three_sections copy s = read_addr copy s"
  by (simp_all add: three_sections_def)

lemma frame_keeps:
  "addr3.frame s t \<Longrightarrow> data3.complete D t = data3.complete D s"
  "addr3.frame s t \<Longrightarrow> inst3.complete D t = inst3.complete D s"
  "inst3.frame s t \<Longrightarrow> data3.complete D t = data3.complete D s"
  "inst3.frame s t \<Longrightarrow> addr3.staged D k t = addr3.staged D k s"
  "data3.frame s t \<Longrightarrow> inst3.staged D k t = inst3.staged D k s"
  "data3.frame s t \<Longrightarrow> addr3.staged D k t = addr3.staged D k s"
  by (simp_all add: addr3.frame_def inst3.frame_def data3.frame_def data3.complete_def inst3.complete_def
      addr3.staged_def inst3.staged_def)

lemma frame_strip:
  "addr3.frame s t \<Longrightarrow> strip t = strip s" "inst3.frame s t \<Longrightarrow> strip t = strip s" "data3.frame s t \<Longrightarrow> strip t = strip s"
  by (simp_all add: addr3.frame_def inst3.frame_def data3.frame_def)

lemma addr_completes:
  assumes "reading_addr D I A j s" "roomy s" "next_in s = drop j A @ rest"
  shows "\<exists>t. read_addr copy s = ok t \<and> sections_done D I A rest s t"
proof -
  obtain t where t: "read_addr copy s = ok t" "addr3.section_done A j DEC_EMIT s t"
    using addr3.section_completes [of A j s rest DEC_EMIT copy] assms by (auto simp: reading_addr_def)
  note f = t(2) [unfolded addr3.section_done_def]
  have fr: "addr3.frame s t" using f by blast
  have "next_in t = rest" using f assms(1,3) by (auto simp: reading_addr_def addr3.staged_def)
  moreover have "data3.complete D t" "inst3.complete I t"
    using assms(1) frame_keeps(1,2) [OF fr] by (simp_all add: reading_addr_def)
  ultimately have "sections_done D I A rest s t" using f frame_strip(1) [OF fr] by (simp add: sections_done_def)
  then show ?thesis using t(1) by blast
qed

lemma inst_to_addr:
  assumes s: "reading_inst D I A j s" "roomy s" "next_in s = drop j I @ rest" and l: "length D + length I < 2 ^ 32"
  shows "\<exists>t. xd3_decode_section inst_sect inst_sect_update DEC_ADDR copy s = ok t \<and> reading_addr D I A 0 t \<and>
    strip t = strip s \<and> next_in t = rest"
proof -
  obtain t where t: "xd3_decode_section inst_sect inst_sect_update DEC_ADDR copy s = ok t" "inst3.section_done I j DEC_ADDR s t"
    using inst3.section_completes [of I j s rest DEC_ADDR copy] s by (auto simp: reading_inst_def)
  have j: "j \<le> length I" using s(1) by (auto simp: reading_inst_def inst3.staged_def)
  then have "unat (dec_winbytes t) = length D + length I"
    using s(1) t(2) l winbytes_add [of "dec_winbytes s" "length I - j"] by (simp add: reading_inst_def inst3.section_done_def)
  note f = t(2) [unfolded inst3.section_done_def]
  have fr: "inst3.frame s t" using f by blast
  have "data3.complete D t" "addr3.staged A 0 t"
    using s(1) frame_keeps(3,4) [OF fr] by (simp_all add: reading_inst_def)
  then have "reading_addr D I A 0 t" using f \<open>unat (dec_winbytes t) = _\<close> by (simp add: reading_addr_def)
  moreover have "next_in t = rest" using f s(3) j by simp
  ultimately show ?thesis using t(1) frame_strip(2) [OF fr] by blast
qed

lemma data_to_inst:
  assumes s: "reading_data D I A j s" "roomy s" "next_in s = drop j D @ rest" and l: "length D < 2 ^ 32"
  shows "\<exists>t. xd3_decode_section data_sect data_sect_update DEC_INST copy s = ok t \<and> reading_inst D I A 0 t \<and>
    strip t = strip s \<and> next_in t = rest"
proof -
  obtain t where t: "xd3_decode_section data_sect data_sect_update DEC_INST copy s = ok t" "data3.section_done D j DEC_INST s t"
    using data3.section_completes [of D j s rest DEC_INST copy] s by (auto simp: reading_data_def)
  have j: "j \<le> length D" using s(1) by (auto simp: reading_data_def data3.staged_def)
  then have "unat (dec_winbytes t) = length D"
    using s(1) t(2) l winbytes_add [of "dec_winbytes s" "length D - j"] by (simp add: reading_data_def data3.section_done_def)
  note f = t(2) [unfolded data3.section_done_def]
  have fr: "data3.frame s t" using f by blast
  have "inst3.staged I 0 t" "addr3.staged A 0 t"
    using s(1) frame_keeps(5,6) [OF fr] by (simp_all add: reading_data_def)
  then have "reading_inst D I A 0 t" using f \<open>unat (dec_winbytes t) = _\<close> by (simp add: reading_inst_def)
  moreover have "next_in t = rest" using f s(3) j by simp
  ultimately show ?thesis using t(1) frame_strip(3) [OF fr] by blast
qed

lemma sections_done_strip: "sections_done D I A rest t u \<Longrightarrow> strip t = strip s \<Longrightarrow> sections_done D I A rest s u"
  by (simp add: sections_done_def)

lemma sections_wait_strip: "sections_wait D I A k t u \<Longrightarrow> strip t = strip s \<Longrightarrow> sections_wait D I A k s u"
  by (simp add: sections_wait_def)

lemma inst_completes:
  assumes "reading_inst D I A j s" "roomy s" "next_in s = drop j I @ A @ rest" "length D + length I < 2 ^ 32"
  shows "\<exists>t. read_inst copy s = ok t \<and> sections_done D I A rest s t"
proof -
  obtain u where u: "xd3_decode_section inst_sect inst_sect_update DEC_ADDR copy s = ok u" "reading_addr D I A 0 u"
    "strip u = strip s" "next_in u = A @ rest"
    using inst_to_addr [OF assms(1-4)] by blast
  have "roomy u" using assms(2) roomy_strip u(3) by blast
  then show ?thesis using addr_completes [OF u(2), of rest copy] u sections_done_strip by fastforce
qed

lemma data_completes:
  assumes "reading_data D I A j s" "roomy s" "next_in s = drop j D @ I @ A @ rest" "length D + length I < 2 ^ 32"
  shows "\<exists>t. read_data copy s = ok t \<and> sections_done D I A rest s t"
proof -
  obtain u where u: "xd3_decode_section data_sect data_sect_update DEC_INST copy s = ok u" "reading_inst D I A 0 u"
    "strip u = strip s" "next_in u = I @ A @ rest"
    using data_to_inst [OF assms(1-3)] assms(4) by auto
  have "roomy u" using assms(2) roomy_strip u(3) by blast
  then show ?thesis using inst_completes [OF u(2), of rest copy] u assms(4) sections_done_strip by fastforce
qed

lemma three_complete:
  assumes r: "reading D I A k s" "roomy s" and x: "next_in s = drop k (D @ I @ A) @ rest"
  shows "\<exists>t. three_sections copy s = ok t \<and> sections_done D I A rest s t"
  using r(1) unfolding reading_def
proof (elim conjE disjE exE)
  assume l: "length D + length I + length A < 2 ^ 31" and d: "reading_data D I A k s"
  have "k \<le> length D" using d by (auto simp: reading_data_def data3.staged_def)
  then show ?thesis
    using data_completes [OF d r(2), of rest copy] l x d three_sections_from(1) [of s copy] by (simp add: reading_data_def)
next
  fix j assume l: "length D + length I + length A < 2 ^ 31" and d: "k = length D + j" "reading_inst D I A j s"
  have "j \<le> length I" using d by (auto simp: reading_inst_def inst3.staged_def)
  then show ?thesis
    using inst_completes [OF d(2) r(2), of rest copy] l x d three_sections_from(2) [of s copy] by (simp add: reading_inst_def)
next
  fix j assume l: "length D + length I + length A < 2 ^ 31" and d: "k = length D + length I + j" "reading_addr D I A j s"
  show ?thesis
    using addr_completes [OF d(2) r(2), of rest copy] x d three_sections_from(3) [of s copy] by (simp add: reading_addr_def)
qed

lemma addr_continues:
  assumes s: "reading_addr D I A j s" "roomy s" and l: "length D + length I + length A < 2 ^ 31"
    and x: "j + length (next_in s) < length A" "next_in s = take (length (next_in s)) (drop j A)"
  shows "\<exists>t. read_addr True s = Some (XD3_INPUT, t) \<and> sections_wait D I A (length D + length I + j + length (next_in s)) s t"
proof -
  obtain t where t: "read_addr True s = Some (XD3_INPUT, t)" "addr3.section_waits A j s t"
    using addr3.section_continues [of A j s DEC_EMIT] s x by (auto simp: reading_addr_def)
  note f = t(2) [unfolded addr3.section_waits_def]
  have fr: "addr3.frame s t" using f by blast
  have "data3.complete D t" "inst3.complete I t"
    using s(1) frame_keeps(1,2) [OF fr] by (simp_all add: reading_addr_def)
  moreover have "unat (dec_winbytes t) = length D + length I + j + length (next_in s)"
    using s(1) f l x(1) winbytes_add [of "dec_winbytes s" "length (next_in s)"] by (simp add: reading_addr_def)
  ultimately have "reading_addr D I A (j + length (next_in s)) t" using f s(1) by (simp add: reading_addr_def)
  then have "reading D I A (length D + length I + (j + length (next_in s))) t" using l unfolding reading_def by blast
  then show ?thesis using t(1) f frame_strip(1) [OF fr] by (auto simp: sections_wait_def add.assoc)
qed

lemma split_input:
  assumes "x = take (length x) (P @ Q)" "length P \<le> length x"
  shows "x = P @ take (length x - length P) Q"
  using assms by simp

lemma inst_continues:
  assumes s: "reading_inst D I A j s" "roomy s" and l: "length D + length I + length A < 2 ^ 31"
    and x: "j + length (next_in s) < length I + length A" "next_in s = take (length (next_in s)) (drop j I @ A)"
  shows "\<exists>t. read_inst True s = Some (XD3_INPUT, t) \<and> sections_wait D I A (length D + j + length (next_in s)) s t"
proof (cases "j + length (next_in s) < length I")
  case True
  then have "next_in s = take (length (next_in s)) (drop j I)" using x(2) by simp
  then obtain t where t: "xd3_decode_section inst_sect inst_sect_update DEC_ADDR True s = Some (XD3_INPUT, t)"
    "inst3.section_waits I j s t"
    using inst3.section_continues [of I j s DEC_ADDR] s True by (auto simp: reading_inst_def)
  note f = t(2) [unfolded inst3.section_waits_def]
  have fr: "inst3.frame s t" using f by blast
  have "data3.complete D t" "addr3.staged A 0 t"
    using s(1) frame_keeps(3,4) [OF fr] by (simp_all add: reading_inst_def)
  moreover have "unat (dec_winbytes t) = length D + j + length (next_in s)"
    using s(1) f l True winbytes_add [of "dec_winbytes s" "length (next_in s)"] by (simp add: reading_inst_def)
  ultimately have "reading_inst D I A (j + length (next_in s)) t" using f s(1) by (simp add: reading_inst_def)
  then have "reading D I A (length D + (j + length (next_in s))) t" using l unfolding reading_def by blast
  then show ?thesis using t(1) f frame_strip(2) [OF fr] by (auto simp: sections_wait_def add.assoc)
next
  case False
  have j: "j \<le> length I" using s(1) by (auto simp: reading_inst_def inst3.staged_def)
  let ?r = "take (length (next_in s) - (length I - j)) A"
  have i: "next_in s = drop j I @ ?r" using split_input [OF x(2)] False by simp
  obtain u where u: "xd3_decode_section inst_sect inst_sect_update DEC_ADDR True s = ok u" "reading_addr D I A 0 u"
    "strip u = strip s" "next_in u = ?r"
    using inst_to_addr [OF s i] l by auto
  have n: "length ?r = length (next_in s) - (length I - j)" using x(1) False by simp
  have "roomy u" using s(2) roomy_strip u(3) by blast
  moreover have "0 + length (next_in u) < length A" "next_in u = take (length (next_in u)) (drop 0 A)"
    unfolding u(4) n using x(1) False j by simp_all
  ultimately obtain t where t: "read_addr True u = Some (XD3_INPUT, t)"
    "sections_wait D I A (length D + length I + 0 + length (next_in u)) u t"
    using addr_continues [OF u(2) _ l] by blast
  have e: "length D + length I + 0 + length (next_in u) = length D + j + length (next_in s)" unfolding u(4) n using False j by simp
  show ?thesis using u(1) t(1) sections_wait_strip [OF t(2) u(3)] unfolding e by simp
qed

lemma data_continues:
  assumes s: "reading_data D I A j s" "roomy s" and l: "length D + length I + length A < 2 ^ 31"
    and x: "j + length (next_in s) < length D + length I + length A" "next_in s = take (length (next_in s)) (drop j D @ I @ A)"
  shows "\<exists>t. read_data True s = Some (XD3_INPUT, t) \<and> sections_wait D I A (j + length (next_in s)) s t"
proof (cases "j + length (next_in s) < length D")
  case True
  then have "next_in s = take (length (next_in s)) (drop j D)" using x(2) by simp
  then obtain t where t: "xd3_decode_section data_sect data_sect_update DEC_INST True s = Some (XD3_INPUT, t)"
    "data3.section_waits D j s t"
    using data3.section_continues [of D j s DEC_INST] s True by (auto simp: reading_data_def)
  note f = t(2) [unfolded data3.section_waits_def]
  have fr: "data3.frame s t" using f by blast
  have "inst3.staged I 0 t" "addr3.staged A 0 t"
    using s(1) frame_keeps(5,6) [OF fr] by (simp_all add: reading_data_def)
  moreover have "unat (dec_winbytes t) = j + length (next_in s)"
    using s(1) f l True winbytes_add [of "dec_winbytes s" "length (next_in s)"] by (simp add: reading_data_def)
  ultimately have "reading_data D I A (j + length (next_in s)) t" using f s(1) by (simp add: reading_data_def)
  then have "reading D I A (j + length (next_in s)) t" using l unfolding reading_def by blast
  then show ?thesis using t(1) f frame_strip(3) [OF fr] by (auto simp: sections_wait_def)
next
  case False
  have j: "j \<le> length D" using s(1) by (auto simp: reading_data_def data3.staged_def)
  let ?r = "take (length (next_in s) - (length D - j)) (I @ A)"
  have i: "next_in s = drop j D @ ?r" using split_input [OF x(2)] False by simp
  obtain u where u: "xd3_decode_section data_sect data_sect_update DEC_INST True s = ok u" "reading_inst D I A 0 u"
    "strip u = strip s" "next_in u = ?r"
    using data_to_inst [OF s i] l by auto
  have n: "length ?r = length (next_in s) - (length D - j)" using x(1) False by simp
  have "roomy u" using s(2) roomy_strip u(3) by blast
  moreover have "0 + length (next_in u) < length I + length A" "next_in u = take (length (next_in u)) (drop 0 I @ A)"
    unfolding u(4) n using x(1) False j by simp_all
  ultimately obtain t where t: "read_inst True u = Some (XD3_INPUT, t)" "sections_wait D I A (length D + 0 + length (next_in u)) u t"
    using inst_continues [OF u(2) _ l] by blast
  have e: "length D + 0 + length (next_in u) = j + length (next_in s)" unfolding u(4) n using False j by simp
  show ?thesis using u(1) t(1) sections_wait_strip [OF t(2) u(3)] unfolding e by simp
qed

lemma three_continues:
  assumes r: "reading D I A k s" "roomy s"
    and x: "k + length (next_in s) < length D + length I + length A" "next_in s = take (length (next_in s)) (drop k (D @ I @ A))"
  shows "\<exists>t. three_sections True s = Some (XD3_INPUT, t) \<and> sections_wait D I A (k + length (next_in s)) s t"
  using r(1) unfolding reading_def
proof (elim conjE disjE exE)
  assume l: "length D + length I + length A < 2 ^ 31" and d: "reading_data D I A k s"
  have "k \<le> length D" using d by (auto simp: reading_data_def data3.staged_def)
  then have "next_in s = take (length (next_in s)) (drop k D @ I @ A)" using x(2) by simp
  then show ?thesis
    using data_continues [OF d r(2) l x(1)] d three_sections_from(1) [of s True] by (simp add: reading_data_def)
next
  fix j assume l: "length D + length I + length A < 2 ^ 31" and d: "k = length D + j" "reading_inst D I A j s"
  have "j \<le> length I" using d by (auto simp: reading_inst_def inst3.staged_def)
  then have "next_in s = take (length (next_in s)) (drop j I @ A)" using x(2) d(1) by simp
  then show ?thesis
    using inst_continues [OF d(2) r(2) l] x(1) d three_sections_from(2) [of s True] by (simp add: reading_inst_def)
next
  fix j assume l: "length D + length I + length A < 2 ^ 31" and d: "k = length D + length I + j" "reading_addr D I A j s"
  have "next_in s = take (length (next_in s)) (drop j A)" using x(2) d(1) by simp
  then show ?thesis
    using addr_continues [OF d(2) r(2) l] x(1) d three_sections_from(3) [of s True] by (simp add: reading_addr_def)
qed

section \<open>The call that reads them\<close>

definition sections_on :: "xd3_stream \<Rightarrow> bool" where
  "sections_on s \<longleftrightarrow> flags s AND XD3_JUST_HDR = 0 \<and> flags s AND XD3_SKIP_WINDOW = 0 \<and> flags s AND XD3_SKIP_EMIT = 0"

lemma reading_sizes:
  assumes "reading D I A k s"
  shows "unat (sec_size (inst_sect s) + sec_size (addr_sect s) + sec_size (data_sect s)) = length D + length I + length A"
proof -
  have "length D = unat (sec_size (data_sect s))" "length I = unat (sec_size (inst_sect s))" "length A = unat (sec_size (addr_sect s))"
    using assms by (auto simp: reading_def reading_data_def reading_inst_def reading_addr_def data3.staged_def inst3.staged_def
        addr3.staged_def data3.complete_def inst3.complete_def)
  then show ?thesis using assms by (simp add: unat_add_u32 reading_def)
qed

lemma reading_more:
  assumes "reading D I A k s" "k \<le> length D + length I + length A"
  shows "unat (sec_size (inst_sect s) + sec_size (addr_sect s) + sec_size (data_sect s) - dec_winbytes s) =
    length D + length I + length A - k"
  using reading_sizes [OF assms(1)] reading_wb [OF assms(1)] assms(2)
  by (subst unat_sub_le) (simp_all add: word_le_nat_alt)

lemma sections_complete:
  assumes r: "reading D I A k s" "roomy s" "sections_on s" and x: "next_in s = drop k (D @ I @ A) @ rest"
    and k: "k \<le> length D + length I + length A"
  shows "\<exists>t. xd3_decode_sections s = xd3_decode_setup_buffers t \<and> sections_done D I A rest s t"
proof -
  obtain t where t: "three_sections False s = ok t" "sections_done D I A rest s t" using three_complete [OF r(1,2) x] by blast
  have "flags t = flags s" using t(2) by (metis sections_done_def strip_fields(2))
  moreover have "min (unat (sec_size (inst_sect s) + sec_size (addr_sect s) + sec_size (data_sect s) - dec_winbytes s))
      (length (next_in s)) = unat (sec_size (inst_sect s) + sec_size (addr_sect s) + sec_size (data_sect s) - dec_winbytes s)"
    unfolding reading_more [OF r(1) k] by (simp add: x)
  ultimately have "xd3_decode_sections s = xd3_decode_setup_buffers t"
    using r(3) t(1) unfolding xd3_decode_sections_def sections_on_def
    by (simp add: Let_def xd3_decode_secondary_sections_def)
  then show ?thesis using t(2) by blast
qed

lemma sections_continue:
  assumes r: "reading D I A k s" "roomy s" "sections_on s"
    and x: "k + length (next_in s) < length D + length I + length A" "next_in s = take (length (next_in s)) (drop k (D @ I @ A))"
  shows "\<exists>t. xd3_decode_sections s = Some (XD3_INPUT, t) \<and> sections_wait D I A (k + length (next_in s)) s t"
proof -
  obtain t where t: "three_sections True s = Some (XD3_INPUT, t)" "sections_wait D I A (k + length (next_in s)) s t"
    using three_continues [OF r(1,2) x] by blast
  have e: "(min (unat (sec_size (inst_sect s) + sec_size (addr_sect s) + sec_size (data_sect s) - dec_winbytes s))
      (length (next_in s)) \<noteq> unat (sec_size (inst_sect s) + sec_size (addr_sect s) + sec_size (data_sect s) - dec_winbytes s)) = True"
    using reading_more [OF r(1)] x(1) by simp
  have "xd3_decode_sections s = Some (XD3_INPUT, t)"
    using r(3) unfolding xd3_decode_sections_def Let_def e t(1) sections_on_def by simp
  then show ?thesis using t(2) by blast
qed

end
