(* ===== verification/Deltafile.thy ===== *)
theory Deltafile
  imports Dedelta Sections
begin

text \<open>
  What a delta file is, and what \<^verbatim>\<open>dedelta\<close> makes of it: a file header and windows, each of
  which means its target under \<open>vcd_window\<close>. The client keeps the invariant \<open>between\<close> from
  window to window; in a window it answers the requests for source blocks as \<open>Ask\<close> says.
\<close>

section \<open>Delta files\<close>

text \<open>A window as it is transmitted: its source segment (length, offset), its checksum, its sections, its target.\<close>

record vcd_part =
  part_win :: "(u32 \<times> u64) option"
  part_sum :: "u32 option"
  part_data :: bytes
  part_inst :: bytes
  part_addr :: bytes
  part_target :: bytes

definition part_bytes :: "vcd_part \<Rightarrow> bytes" where
  "part_bytes p =
     header_bytes (part_win p) (of_nat (length (part_target p))) (of_nat (length (part_data p)))
       (of_nat (length (part_inst p))) (of_nat (length (part_addr p))) (part_sum p) @
     part_data p @ part_inst p @ part_addr p"

definition start_cache :: xd3_addr_cache where
  "start_cache = \<lparr>s_near = 4, s_same = 3, next_slot = 0, near_array = replicate 4 0, same_array = replicate 768 0\<rparr>"

lemma init_start: "s_near ac = 4 \<Longrightarrow> s_same ac = 3 \<Longrightarrow> xd3_init_cache ac = start_cache"
  by (cases ac) (simp add: xd3_init_cache_def start_cache_def)

text \<open>The window means its target over the source file; the sizes are those the decoder accepts.\<close>

definition part_ok :: "'l::len itself \<Rightarrow> bytes \<Rightarrow> vcd_part \<Rightarrow> bool" where
  "part_ok l sfile p \<longleftrightarrow>
     vcd_window xd3_rfc3284_code_table start_cache (window_segment sfile (part_win p))
       (part_data p) (part_inst p) (part_addr p) (part_target p) \<and>
     0 < length (part_target p) \<and> length (part_target p) \<le> 2 ^ 24 \<and>
     length (part_data p) + length (part_inst p) + length (part_addr p) < 2 ^ 31 \<and>
     (case part_win p of None \<Rightarrow> True | Some (len, off) \<Rightarrow>
        unat off + unat len \<le> length sfile \<and> unat off + unat len < 2 ^ 64 \<and> unat len < 2 ^ 31) \<and>
     (case part_sum p of None \<Rightarrow> True | Some x \<Rightarrow> x = window_adler32 l (part_target p))"

section \<open>The client between windows\<close>

definition copies_kept :: "xd3_stream \<Rightarrow> bool" where
  "copies_kept s \<longleftrightarrow> copy_kept (data_sect s) \<and> copy_kept (inst_sect s) \<and> copy_kept (addr_sect s)"

definition between :: "bytes \<Rightarrow> nat \<Rightarrow> xd3_stream \<Rightarrow> bool" where
  "between sfile n s \<longleftrightarrow> dec_state s = DEC_WININD \<and> enc_state s = 0 \<and>
     dec_32part s = 0 \<and> dec_64part s = 0 \<and> length (dec_cksum s) = 4 \<and> both_idle s \<and> avail_out s = 0 \<and>
     sections_idle s \<and> code_table s = xd3_rfc3284_code_table \<and> s_near (acache s) = 4 \<and> s_same (acache s) = 3 \<and>
     unat (dec_winstart s) + unat (dec_tgtlen s) = n \<and> getblk s = None \<and> dec_lastwin s = None \<and>
     buffer_kept s \<and> copies_kept s \<and> roomy s \<and>
     (\<exists>x. src s = Some x \<and> wf_source x \<and> blksize x = CHUNK \<and> block_known sfile x)"

definition block_in_file :: "bytes \<Rightarrow> xd3_stream \<Rightarrow> bool" where
  "block_in_file sfile a \<longleftrightarrow> (\<exists>x. src a = Some x \<and> unat (curblkno x) * unat (blksize x) \<le> length sfile)"

text \<open>The client inside a window: the header is read, the window is not emitted yet.\<close>

definition in_window :: "'l::len itself \<Rightarrow> bytes \<Rightarrow> nat \<Rightarrow> vcd_part \<Rightarrow> xd3_stream \<Rightarrow> bool" where
  "in_window l sfile n p s \<longleftrightarrow> part_ok l sfile p \<and> enc_state s = 0 \<and>
     dec_win_ind s = win_bits (part_win p \<noteq> None) (part_sum p \<noteq> None) \<and> dec_tgtlen s = of_nat (length (part_target p)) \<and>
     dec_cpylen s = win_len (part_win p) \<and> dec_cpyoff s = win_off (part_win p) \<and> dec_position s = win_len (part_win p) \<and>
     dec_maxpos s = win_len (part_win p) + of_nat (length (part_target p)) \<and> avail_out s = 0 \<and> both_idle s \<and>
     sections_on s \<and> code_table s = xd3_rfc3284_code_table \<and> acache s = start_cache \<and>
     (part_sum p \<noteq> None \<longrightarrow> part_sum p = Some (dec_adler32 s)) \<and> getblk s = None \<and> dec_lastwin s = None \<and>
     buffer_kept s \<and> roomy s \<and> dec_32part s = 0 \<and> dec_64part s = 0 \<and> length (dec_cksum s) = 4 \<and>
     unat (dec_winstart s) = n \<and>
     (\<exists>x. src s = Some x \<and> wf_source x \<and> blksize x = CHUNK \<and> block_known sfile x)"

lemma in_window_strip:
  assumes "strip t = strip s"
  shows "in_window l sfile n p t = in_window l sfile n p s"
proof -
  have "in_window l sfile n p s = in_window l sfile n p (strip s)" for s
    by (simp add: in_window_def strip_def both_idle_def sections_on_def buffer_kept_def roomy_def exact_alloc_def)
  then show ?thesis using assms by metis
qed

lemma part_target_size:
  assumes "part_ok l sfile p"
  shows "unat (of_nat (length (part_target p)) :: u32) = length (part_target p)"
    and "(of_nat (length (part_target p)) :: u32) \<le> XD3_HARDMAXWINSIZE" and "(of_nat (length (part_target p)) :: u32) \<noteq> 0"
    and "unat (win_len (part_win p)) + length (part_target p) < 2 ^ 32"
proof -
  have T: "0 < length (part_target p)" "length (part_target p) \<le> 2 ^ 24" "unat (win_len (part_win p)) < 2 ^ 31"
    using assms by (auto simp: part_ok_def split: option.splits)
  show tgt: "unat (of_nat (length (part_target p)) :: u32) = length (part_target p)"
    using T(2) by (simp add: unsigned_of_nat take_bit_nat_eq_self)
  show "(of_nat (length (part_target p)) :: u32) \<le> XD3_HARDMAXWINSIZE"
    using T(2) tgt by (simp add: word_le_nat_alt XD3_HARDMAXWINSIZE_def)
  show "(of_nat (length (part_target p)) :: u32) \<noteq> 0" using T(1) tgt by auto
  show "unat (win_len (part_win p)) + length (part_target p) < 2 ^ 32" using T by simp
qed

lemma in_window_buffer:
  assumes w: "in_window l sfile n p s"
  shows "buffer_ready (dec_tgtlen s) s"
proof (cases "space_out s < dec_tgtlen s")
  case True
  have tgt: "unat (dec_tgtlen s) \<le> 2 ^ 24"
    using w part_target_size(1,2) [of l sfile p] by (simp add: in_window_def part_ok_def)
  have r: "\<forall>k m. mem_alloc s k m \<noteq> None" "exact_alloc s" using w by (simp_all add: in_window_def roomy_def)
  obtain b where b: "mem_alloc s (mem_count s) (unat (xd3_round_blksize (dec_tgtlen s) DECODE_ALLOCSIZE)) = Some b"
    using r(1) by blast
  then have "unat (dec_tgtlen s) \<le> length b"
    using r(2) round_covers [of "dec_tgtlen s"] tgt by (auto simp: exact_alloc_def)
  moreover have "dec_buffer s = None \<or> blocks s (the (dec_buffer s)) \<noteq> None"
    using w by (auto simp: in_window_def buffer_kept_def)
  ultimately show ?thesis using True b by (auto simp: buffer_ready_def)
next
  case False
  have "dec_tgtlen s \<noteq> 0" using w part_target_size(3) [of l sfile p] by (simp add: in_window_def)
  then have "space_out s \<noteq> 0" using False by (auto simp: word_gt_0)
  then show ?thesis
    using w False by (auto simp: in_window_def buffer_kept_def buffer_ready_def word_le_nat_alt word_less_nat_alt)
qed

lemma in_window_source:
  assumes "in_window l sfile n p s" "src t = src s" "getblk t = Some (serve_file sfile)"
  shows "source_ready sfile (part_win p) t"
proof (cases "part_win p")
  case (Some w)
  obtain len off where w: "w = (len, off)" by fastforce
  obtain x where x: "src s = Some x" "wf_source x" "blksize x = CHUNK" "block_known sfile x"
    using assms(1) by (auto simp: in_window_def)
  have "unat off mod unat (blksize x) < 2 ^ 18" by (simp add: x(3) CHUNK_def)
  then show ?thesis using assms x Some w by (auto simp: source_ready_def part_ok_def in_window_def)
qed (simp add: source_ready_def)

text \<open>A block asked for in the middle of the window lies in the file.\<close>

lemma busy_block_in_file:
  assumes "feeds sfile s" "busy_call s a"
  shows "block_in_file sfile a"
proof -
  obtain x addr off where a: "src a = Some x" "addr < dec_cpylen a"
    "xd3_blksize_add (cpyoff_blocks x) (cpyoff_blkoff x) x addr = (curblkno x, off)"
    using assms(2) by (auto simp: busy_call_def asked_def)
  have e: "dec_cpylen a = dec_cpylen s" "rel_option same_window (src s) (src a)"
    using assms(2) by (auto simp: busy_call_def entered_def same_call_def as_client_def)
  obtain y where y: "src s = Some y" "same_window y x" using e(2) a(1) by (auto elim: option.rel_cases)
  have "dec_cpylen s \<noteq> 0" using a(2) e(1) by auto
  then have f: "wf_source y" "xd3_blksize_div (dec_cpyoff s) y = (cpyoff_blocks y, cpyoff_blkoff y)"
    "unat (cpyoff_blkoff y) + unat (dec_cpylen s) < 2 ^ 32" "unat (dec_cpyoff s) + unat (dec_cpylen s) \<le> length sfile"
    "unat (dec_cpyoff s) + unat (dec_cpylen s) < 2 ^ 64"
    using assms(1) y(1) by (auto simp: feeds_def)
  have ad: "unat addr < unat (dec_cpylen s)" using a(2) e(1) by (simp add: word_less_nat_alt)
  have "xd3_blksize_add (cpyoff_blocks y) (cpyoff_blkoff y) y addr = (curblkno x, off)"
    unfolding a(3) [symmetric] by (simp only: xd3_blksize_add_def y(2) [unfolded same_window_def])
  then have "unat (curblkno x) * unat (blksize y) + unat off = unat (dec_cpyoff s) + unat addr"
    using block_address [OF f(1,2)] f(3,5) ad by auto
  then show ?thesis using a(1) y(2) f(4) ad by (auto simp: block_in_file_def same_window_def)
qed

text \<open>The end of a window, and the state it leaves for the next.\<close>

definition window_done :: "bytes \<Rightarrow> nat \<Rightarrow> bytes \<Rightarrow> bytes \<Rightarrow> xd3_stream \<Rightarrow> bool" where
  "window_done sfile n T rest t \<longleftrightarrow> out_bytes t = Some T \<and> unat (avail_out t) = length T \<and>
     (\<exists>s. dec_FINISH (xd3_consume_output t) = Some (XD3_WINFINISH, s) \<and> between sfile (n + length T) s \<and> next_in s = rest) \<and>
     dec_state t = DEC_FINISH \<and> enc_state t = 0"

lemma window_doneE:
  assumes "window_done sfile n T rest t"
  obtains s where "dec_FINISH (xd3_consume_output t) = Some (XD3_WINFINISH, s)" "between sfile (n + length T) s"
    "next_in s = rest" "out_bytes t = Some T" "unat (avail_out t) = length T"
  using assms unfolding window_done_def by (elim conjE exE) (rule that)

lemma emitted_done:
  assumes u: "same_setup s u" "emitting sfile u" "window_bytes u = Some T" "avail_out u = dec_tgtlen u"
      "s_near (acache u) = s_near (acache s)" "s_same (acache u) = s_same (acache s)"
    and c: "unat (avail_out u) = length T" "T \<noteq> []"
    and s: "dec_state s = DEC_EMIT" "enc_state s = 0" "dec_32part s = 0" "dec_64part s = 0" "length (dec_cksum s) = 4"
      "flags s AND XD3_JUST_HDR = 0" "flags s AND XD3_SKIP_WINDOW = 0" "flags s AND XD3_SKIP_EMIT = 0"
      "code_table s = xd3_rfc3284_code_table" "s_near (acache s) = 4" "s_same (acache s) = 3"
      "unat (dec_winstart s) = n" "dec_lastwin s = None" "buffer_kept s" "roomy s" "copies_kept s"
      "dec_win_ind s AND VCD_TARGET = 0" "next_in s = rest"
    and x: "src s = Some x" "wf_source x" "blksize x = CHUNK" "block_known sfile x"
  shows "window_done sfile n T rest (as_client m (snd (count_output (XD3_OUTPUT,
    u\<lparr>dec_winbytes := 0, dec_state := DEC_FINISH, data_sect := (data_sect u)\<lparr>sec_pos := 0\<rparr>,
      inst_sect := (inst_sect u)\<lparr>sec_pos := 0\<rparr>, addr_sect := (addr_sect u)\<lparr>sec_pos := 0\<rparr>\<rparr>))))" (is "window_done sfile n T rest ?t")
proof -
  note f = u(1) [unfolded same_setup_def]
  have t: "next_out ?t = next_out u" "blocks ?t = blocks u" "avail_out ?t = avail_out u"
    by (simp_all add: count_output_def as_client_def)
  have bl: "map_option length (blocks u b) = map_option length (blocks s b)" for b using f by blast
  have out: "out_bytes ?t = Some T"
    using u(3) c unfolding out_bytes_def window_bytes_def t by (auto split: option.splits if_splits)
  define v where "v = (xd3_consume_output ?t)\<lparr>dec_lastlen := dec_tgtlen ?t, dec_laststart := dec_winstart ?t,
    dec_window_count := dec_window_count ?t + 1, dec_state := DEC_WININD\<rparr>"
  have fin: "dec_FINISH (xd3_consume_output ?t) = Some (XD3_WINFINISH, v)"
  proof -
    have "dec_win_ind (xd3_consume_output ?t) AND VCD_TARGET = 0"
      using f s(17) by (simp add: xd3_consume_output_def count_output_def as_client_def)
    then show ?thesis by (simp add: dec_FINISH_def v_def xd3_consume_output_def)
  qed
  have buf: "buffer_kept v"
  proof -
    have v: "next_out v = next_out s" "dec_buffer v = dec_buffer s" "space_out v = space_out s" "blocks v = blocks u"
      using f by (simp_all add: v_def xd3_consume_output_def count_output_def as_client_def)
    from s(14) show ?thesis unfolding buffer_kept_def v
    proof (elim disjE exE conjE)
      fix b mem
      assume b: "next_out s = Some b" "dec_buffer s = Some b" "blocks s b = Some mem" "unat (space_out s) \<le> length mem"
      obtain mem' where "blocks u b = Some mem'" "length mem' = length mem"
        using bl [of b] b(3) by (cases "blocks u b") auto
      then show "next_out s = None \<and> dec_buffer s = None \<and> space_out s = 0 \<or>
        (\<exists>b mem. next_out s = Some b \<and> dec_buffer s = Some b \<and> blocks u b = Some mem \<and> unat (space_out s) \<le> length mem)"
        using b by auto
    qed simp
  qed
  have source: "\<exists>y. src v = Some y \<and> wf_source y \<and> blksize y = CHUNK \<and> block_known sfile y"
  proof -
    have v: "src v = src u" by (simp add: v_def xd3_consume_output_def count_output_def as_client_def)
    have r: "refetched s (src u)" using f by blast
    then have b: "map_option blksize (src u) = Some CHUNK" using x by (simp add: refetched_def)
    show ?thesis
    proof (cases "dec_cpylen s = 0")
      case True
      then show ?thesis using r x v by (simp add: refetched_def)
    next
      case False
      have "feeds sfile u" "dec_cpylen u = dec_cpylen s" using u(2) f by (simp_all add: emitting_def)
      then show ?thesis using False b v by (auto simp: feeds_def)
    qed
  qed
  have "between sfile (n + length T) v"
    unfolding between_def
  proof (intro conjI source buf)
    show "unat (dec_winstart v) + unat (dec_tgtlen v) = n + length T"
      using f s(12) c(1) u(4) by (simp add: v_def xd3_consume_output_def count_output_def as_client_def)
    show "both_idle v"
      using u(2) by (simp add: emitting_def both_idle_def v_def xd3_consume_output_def count_output_def as_client_def)
    show "sections_idle v"
      using f s(6-8) by (simp add: sections_idle_def v_def xd3_consume_output_def count_output_def as_client_def)
    show "roomy v"
      using f s(15) by (simp add: roomy_def exact_alloc_def v_def xd3_consume_output_def count_output_def as_client_def)
    show "copies_kept v"
      using f s(16) by (simp add: copies_kept_def copy_kept_def v_def xd3_consume_output_def count_output_def as_client_def)
  qed (use f s u(5,6) in \<open>simp_all add: v_def xd3_consume_output_def count_output_def as_client_def\<close>)
  moreover have "next_in v = rest"
    using f s(18) by (simp add: v_def xd3_consume_output_def count_output_def as_client_def)
  moreover have "dec_state ?t = DEC_FINISH" "enc_state ?t = 0"
    using f s(2) by (simp_all add: count_output_def as_client_def)
  ultimately show ?thesis using out c fin t(3) by (simp add: window_done_def)
qed


lemma as_client_msg: "getblk s = None \<Longrightarrow> as_client (msg s) (s\<lparr>getblk := g\<rparr>) = s"
  by (simp add: as_client_def)

text \<open>From one window to the next: first the header.\<close>

lemma window_header_read:
  assumes b: "between sfile n s" and p: "part_ok l sfile p" and inp: "next_in s = part_bytes p @ rest"
    and n: "n < 2 ^ 64"
  shows "\<exists>r s1. r \<in> {XD3_GOTHEADER, XD3_WINSTART} \<and> xd3_decode_input l dm s = Some (r, s1) \<and> in_window l sfile n p s1 \<and>
    reading (part_data p) (part_inst p) (part_addr p) 0 s1 \<and>
    next_in s1 = part_data p @ part_inst p @ part_addr p @ rest"
proof -
  let ?win = "part_win p" and ?adl = "part_sum p" and ?T = "part_target p"
  let ?D = "part_data p" and ?I = "part_inst p" and ?A = "part_addr p"
  let ?tgt = "of_nat (length ?T) :: u32" and ?d = "of_nat (length ?D) :: u32" and ?i = "of_nat (length ?I) :: u32"
    and ?a = "of_nat (length ?A) :: u32"
  have T: "length ?D + length ?I + length ?A < 2 ^ 31" using p by (simp add: part_ok_def)
  note tgt = part_target_size [OF p]
  have sz: "length ?D = unat ?d" "length ?I = unat ?i" "length ?A = unat ?a"
    using T by (simp_all add: unsigned_of_nat take_bit_nat_eq_self)
  have win: "unat (win_off ?win) + unat (win_len ?win) < 2 ^ 64"
    using p by (auto simp: part_ok_def split: option.splits)
  have ov: "\<not> USIZE_T_OVERFLOW (win_len ?win) ?tgt" "\<not> XOFF_T_OVERFLOW (win_off ?win) (ucast (win_len ?win))"
    "\<not> XOFF_T_OVERFLOW (dec_winstart s) (ucast (dec_tgtlen s))"
    using tgt(1,4) win b n by (simp_all add: USIZE_T_OVERFLOW_iff XOFF_T_OVERFLOW_iff unat_ucast_u32_u64 between_def)
  have st: "dec_state s = DEC_WININD" "enc_state s = 0" "dec_32part s = 0" "dec_64part s = 0" "length (dec_cksum s) = 4"
    using b by (simp_all add: between_def)
  have inp': "next_in s = header_bytes ?win ?tgt ?d ?i ?a ?adl @ (?D @ ?I @ ?A @ rest)" using inp by (simp add: part_bytes_def)
  obtain s1 where s1: "dec_WININD s = Some (if dec_window_count s = 0 then XD3_GOTHEADER else XD3_WINSTART, s1)"
    "after_header (?D @ ?I @ ?A @ rest) ?adl (with_header ?win ?tgt ?d ?i ?a ?adl
       (init_window (win_bits (?win \<noteq> None) (?adl \<noteq> None)) s)) s1"
    using WININD_reads [OF inp' st(3-5) ov(3,1) tgt(2) ov(2)] by blast
  have D1: "xd3_decode_input l dm s = dec_WININD s" using st by (simp add: xd3_decode_input_def)
  obtain t ck cb x where e1: "s1 = (with_header ?win ?tgt ?d ?i ?a ?adl (init_window (win_bits (?win \<noteq> None) (?adl \<noteq> None)) s))
     \<lparr>dec_state := DEC_DATA, next_in := ?D @ ?I @ ?A @ rest, total_in := t, dec_32part := 0, dec_64part := 0,
      dec_cksum := ck, dec_cksumbytes := cb, dec_adler32 := x\<rparr>" "?adl \<noteq> None \<longrightarrow> ?adl = Some x" "length ck = 4"
    using s1(2) unfolding after_header_def by blast
  note f = with_header_def with_sizes_def init_window_def
  have "unat (dec_winstart s + ucast (dec_tgtlen s)) = n"
    using b n by (simp add: between_def unat_add_u64 unat_ucast_u32_u64)
  then have "in_window l sfile n p s1"
    using b p e1(2,3) init_start [of "acache s"]
    by (simp add: e1(1) f in_window_def between_def both_idle_def sections_on_def sections_idle_def buffer_kept_def roomy_def
        exact_alloc_def)
  moreover have "reading ?D ?I ?A 0 s1"
    using b T by (simp add: e1(1) f reading_def reading_data_def data3.staged_def inst3.staged_def addr3.staged_def between_def
        sections_idle_def copies_kept_def copy_kept_def sz [symmetric])
  moreover have "next_in s1 = ?D @ ?I @ ?A @ rest" by (simp add: e1(1))
  ultimately show ?thesis using s1(1) D1 by (auto split: if_splits)
qed

text \<open>Then, once the sections are complete, the window itself.\<close>

lemma window_emitted:
  assumes w: "in_window l sfile n p s" and r: "reading (part_data p) (part_inst p) (part_addr p) k s"
    and inp: "next_in s = drop k (part_data p @ part_inst p @ part_addr p) @ rest"
    and k: "k \<le> length (part_data p) + length (part_inst p) + length (part_addr p)"
  shows "\<exists>t Q. answered sfile (xd3_decode_input l dm) Q (xd3_decode_input l dm s) XD3_OUTPUT t \<and>
    (\<forall>a. Q a \<longrightarrow> block_in_file sfile a) \<and> window_done sfile n (part_target p) rest t"
proof -
  let ?win = "part_win p" and ?adl = "part_sum p" and ?T = "part_target p"
  let ?D = "part_data p" and ?I = "part_inst p" and ?A = "part_addr p"
  have p: "part_ok l sfile p" using w by (simp add: in_window_def)
  note tgt = part_target_size [OF p]
  obtain t where t: "xd3_decode_sections s = xd3_decode_setup_buffers t" "sections_done ?D ?I ?A rest s t"
    using sections_complete [OF r _ _ inp k] w by (auto simp: in_window_def)
  note fin = t(2) [unfolded sections_done_def data3.complete_def inst3.complete_def addr3.complete_def]
  have wt: "in_window l sfile n p t" using w in_window_strip fin by blast
  note f1 = wt [unfolded in_window_def]
  have wb: "dec_win_ind t AND VCD_TARGET = 0" using f1 by (simp add: win_bits_and)
  obtain bb mem bl so nn db where u: "xd3_decode_setup_buffers t =
     ok (t\<lparr>mem_count := nn, blocks := bl, next_out := Some bb, space_out := so, dec_buffer := db,
       dec_tgtaddrbase := (Some bb, - int (unat (dec_cpylen t)))\<rparr>)" "bl bb = Some mem" "unat (dec_tgtlen t) \<le> length mem"
     "buffer_kept t \<and> exact_alloc t \<longrightarrow> db = Some bb \<and> unat so \<le> length mem"
    using buffers_set_up [OF in_window_buffer [OF wt] wb] by blast
  define s2 where "s2 = t\<lparr>mem_count := nn, blocks := bl, next_out := Some bb, space_out := so, dec_buffer := db,
       dec_tgtaddrbase := (Some bb, - int (unat (dec_cpylen t)))\<rparr>"
  define s3 where "s3 = s2\<lparr>getblk := Some (serve_file sfile)\<rparr>"
  have adl: "\<forall>x. ?adl = Some x \<longrightarrow> dec_adler32 t = x" using f1 by auto
  have kept: "buffer_kept t \<and> exact_alloc t" using f1 by (simp add: roomy_def)
  have f2: "dec_win_ind s3 = win_bits (?win \<noteq> None) (?adl \<noteq> None)" "dec_tgtlen s3 = of_nat (length ?T)"
    "dec_cpylen s3 = win_len ?win" "dec_cpyoff s3 = win_off ?win"
    "dec_position s3 = win_len ?win" "dec_maxpos s3 = win_len ?win + of_nat (length ?T)" "avail_out s3 = 0"
    "code_table s3 = xd3_rfc3284_code_table" "acache s3 = start_cache"
    "getblk s3 = Some (serve_file sfile)" "src s3 = src t" "next_out s3 = Some bb" "blocks s3 bb = Some mem"
    "dec_tgtaddrbase s3 = (Some bb, - int (unat (win_len ?win)))" "sec_buf (data_sect s3) = ?D"
    "sec_buf (inst_sect s3) = ?I" "sec_buf (addr_sect s3) = ?A" "dec_state s3 = DEC_EMIT" "enc_state s3 = 0"
    "dec_32part s3 = 0" "dec_64part s3 = 0" "length (dec_cksum s3) = 4" "dec_lastwin s3 = None"
    "unat (dec_winstart s3) = n" "next_in s3 = rest" "dec_buffer s3 = Some bb" "unat (space_out s3) \<le> length mem"
    "\<forall>x. ?adl = Some x \<longrightarrow> dec_adler32 s3 = x" "both_idle s3" "sections_on s3" "roomy s3" "copies_kept s3"
    using f1 fin u(2,4) kept adl
    by (simp_all add: s3_def s2_def both_idle_def sections_on_def roomy_def exact_alloc_def copies_kept_def)
  have "source_ready sfile ?win s3" by (rule in_window_source [OF wt f2(11,10)])
  then obtain y where y: "source_blocks s3 = ok (s3\<lparr>src := y\<rparr>)" "feeds sfile (s3\<lparr>src := y\<rparr>)"
    using source_blocks_feeds [of sfile ?win s3 "?adl \<noteq> None"] f2(1,3,4) by auto
  let ?s = "s3\<lparr>src := y\<rparr>"
  have known: "\<exists>z. y = Some z \<and> wf_source z \<and> blksize z = CHUNK \<and> block_known sfile z"
    using y(1)
  proof (cases rule: source_blocks_cases)
    case 1
    then have "y = src s3" using arg_cong [OF 1(2), of src] by simp
    then show ?thesis using f1 f2(11) by auto
  next
    case (2 z no off)
    then have "y = Some (z\<lparr>cpyoff_blocks := no, cpyoff_blkoff := off\<rparr>)" using arg_cong [OF 2(4), of src] by simp
    then show ?thesis using f1 f2(11) 2(2) by (auto simp: blocks_upd_source)
  qed
  then obtain z where z: "y = Some z" "wf_source z" "blksize z = CHUNK" "block_known sfile z" by blast
  have start: "window_start sfile ?s"
    using y(2) f2 u(3) tgt f1
    by (simp add: window_start_def both_idle_def has_room_def rfc_table_entries)
  have seg: "segment sfile ?s = window_segment sfile ?win"
    by (cases ?win) (auto simp: segment_def window_segment_def f2(3,4))
  have "vcd_window (code_table ?s) (acache ?s) (segment sfile ?s) (sec_buf (data_sect ?s)) (sec_buf (inst_sect ?s))
      (sec_buf (addr_sect ?s)) ?T"
    using p unfolding seg part_ok_def by (simp add: f2)
  from emit_loop_window [OF start this] tgt(1) f2(2) obtain v where v: "emit_loop ?s = ok v" "same_setup ?s v" "emitting sfile v"
    "sec_buf (data_sect v) = []" "sec_buf (addr_sect v) = []" "window_bytes v = Some ?T" "avail_out v = dec_tgtlen v"
    "s_near (acache v) = s_near (acache ?s)" "s_same (acache v) = s_same (acache ?s)" by auto
  note fv = v(2) [unfolded same_setup_def]
  let ?t = "v\<lparr>dec_winbytes := 0, dec_state := DEC_FINISH, data_sect := (data_sect v)\<lparr>sec_pos := 0\<rparr>,
      inst_sect := (inst_sect v)\<lparr>sec_pos := 0\<rparr>, addr_sect := (addr_sect v)\<lparr>sec_pos := 0\<rparr>\<rparr>"
  have "dec_win_ind v AND VCD_ADLER32 \<noteq> 0 \<Longrightarrow> window_adler32 l ?T = dec_adler32 v"
    using fv f2(1,28) p by (auto simp: win_bits_and part_ok_def split: if_splits option.splits)
  then have check: "check_window l v = Some (XD3_OUTPUT, ?t)"
    using v(4-7) by (simp add: check_window_def xd3_decode_finish_window_def)
  obtain m' where ans: "answered sfile (xd3_decode_input l dm) (busy_call ?s) (xd3_decode_input l dm (as_client (msg s2) s3))
      XD3_OUTPUT (as_client m' (snd (count_output (XD3_OUTPUT, ?t))))"
    using emit_answered [OF y(1) v(1) check f2(10,18,19)] by blast
  have c: "as_client (msg s2) s3 = s2"
    using as_client_msg [of s2] f1 by (simp add: s3_def s2_def)
  have D2: "xd3_decode_input l dm s = xd3_decode_input l dm s2"
  proof -
    have "enc_state s = 0" using w by (simp add: in_window_def)
    moreover have "dec_state s \<in> {DEC_DATA, DEC_INST, DEC_ADDR}"
      using r by (auto simp: reading_def reading_data_def reading_inst_def reading_addr_def)
    ultimately have "xd3_decode_input l dm s = dec_DATA l s" by (auto simp: xd3_decode_input_def)
    moreover have "xd3_decode_input l dm s2 = dec_EMIT l s2"
      using f2(18,19) by (simp add: xd3_decode_input_def s3_def)
    moreover have "xd3_decode_sections s = ok s2" using t(1) u(1) by (simp add: s2_def)
    ultimately show ?thesis by (simp add: dec_DATA_def)
  qed
  have "window_done sfile n ?T rest (as_client m' (snd (count_output (XD3_OUTPUT, ?t))))"
  proof (rule emitted_done [OF v(2,3,6,7,8,9)])
    show "unat (avail_out v) = length ?T" using v(7) fv f2(2) tgt(1) by simp
    show "buffer_kept ?s" using f2(12,13,26,27) by (simp add: buffer_kept_def)
    show "roomy ?s" "copies_kept ?s" using f2(31,32) by (simp_all add: roomy_def exact_alloc_def copies_kept_def)
    show "src ?s = Some z" "wf_source z" "blksize z = CHUNK" "block_known sfile z" using z by simp_all
    show "flags ?s AND XD3_JUST_HDR = 0" "flags ?s AND XD3_SKIP_WINDOW = 0" "flags ?s AND XD3_SKIP_EMIT = 0"
      using f2(30) by (simp_all add: sections_on_def)
    show "?T \<noteq> []" using p by (auto simp: part_ok_def)
    show "dec_win_ind ?s AND VCD_TARGET = 0" using f2(1) by (simp add: win_bits_and)
  qed (use f2 in \<open>simp_all add: start_cache_def\<close>)
  then show ?thesis using ans busy_block_in_file [OF y(2)] unfolding c D2 by blast
qed


section \<open>The client's loop\<close>

text \<open>A world in which nothing fails, and \<^verbatim>\<open>off_t\<close> can address the source file.\<close>

definition serves :: "'l::len itself \<Rightarrow> bytes \<Rightarrow> dedelta_world \<Rightarrow> bool" where
  "serves l sfile w \<longleftrightarrow> length sfile < 2 ^ (LENGTH('l) - 1) \<and> LENGTH('l) \<le> 64 \<and> (\<forall>pos. source_seek w pos) \<and>
     (\<forall>pos n. source_read w pos n = Some (take n (drop pos sfile))) \<and>
     (\<forall>k bs. out_write w k bs = Some (length bs))"

lemma set_block_serves:
  assumes w: "serves l sfile w" and b: "block_in_file sfile (give_block sfile a)"
  shows "set_block (l :: 'l::len itself) w a = Some (Inr (give_block sfile a))"
proof -
  obtain x where x: "src a = Some x" "unat (getblkno x) * unat (blksize x) \<le> length sfile"
    using b by (auto simp: block_in_file_def give_block_def serve_file_def Let_def)
  have L: "length sfile < 2 ^ (LENGTH('l) - 1)" "LENGTH('l) \<le> 64" using w by (simp_all add: serves_def)
  have half: "(2::nat) ^ (LENGTH('l) - 1) < 2 ^ LENGTH('l)" by (intro power_strict_increasing) simp_all
  have "(2::nat) ^ LENGTH('l) \<le> 2 ^ 64" using L(2) by (intro power_increasing) simp_all
  then have lt: "unat (getblkno x) * unat (blksize x) < 2 ^ 64" using x(2) L(1) half by linarith
  have bs: "unat (ucast (blksize x) :: u64) = unat (blksize x)" by (rule unat_ucast_u32_u64)
  have "unat (ucast (blksize x) * getblkno x :: u64) = unat (getblkno x) * unat (blksize x)"
    using lt bs by (simp add: unat_word_ariths mult.commute)
  then have pos: "unat (ucast (ucast (blksize x) * getblkno x :: u64) :: 'l word) = unat (getblkno x) * unat (blksize x)"
  proof -
    have "unat (getblkno x) * unat (blksize x) < 2 ^ LENGTH('l)" using x(2) L(1) half by linarith
    then show ?thesis using \<open>unat (ucast (blksize x) * getblkno x :: u64) = _\<close>
      by (simp add: unsigned_ucast_eq take_bit_nat_eq_self)
  qed
  have nn: "\<not> sint (ucast (ucast (blksize x) * getblkno x :: u64) :: 'l word) < 0"
  proof -
    have "unat (ucast (ucast (blksize x) * getblkno x :: u64) :: 'l word) < 2 ^ (LENGTH('l) - 1)" using pos x(2) L(1) by linarith
    then have "unat (ucast (ucast (blksize x) * getblkno x :: u64) :: 'l word) div 2 ^ (LENGTH('l) - Suc 0) = 0" by simp
    then have "\<not> bit (unat (ucast (ucast (blksize x) * getblkno x :: u64) :: 'l word)) (LENGTH('l) - Suc 0)"
      by (simp only: bit_iff_odd) simp
    then show ?thesis by (simp only: bit_unsigned_iff bit_last_iff [symmetric]) simp
  qed
  show ?thesis
    using w pos nn
    by (simp add: set_block_def x(1) Let_def serves_def give_block_def serve_file_def file_block_def)
qed

lemma process_cong:
  "xd3_decode_input l dm s = xd3_decode_input l dm t \<Longrightarrow> process l dm w eof i k out s = process l dm w eof i k out t"
  by (subst (1 2) process.simps) simp

lemma process_answered:
  assumes "answered sfile (xd3_decode_input l dm) Q v r t" and "\<forall>a. Q a \<longrightarrow> block_in_file sfile a"
    and w: "serves l sfile w" and "v = xd3_decode_input l dm s"
  shows "\<exists>u. process l dm w eof i k out s = process l dm w eof i k out u \<and> xd3_decode_input l dm u = Some (r, t)"
  using assms(1,4)
proof (induction arbitrary: s rule: answered.induct)
  case (answered_end r t)
  then show ?case by metis
next
  case (answered_block b r t)
  have "set_block l w b = Some (Inr (give_block sfile b))"
    using set_block_serves [OF w] assms(2) answered_block.hyps(1) by blast
  then have "process l dm w eof i k out s = process l dm w eof i k out (give_block sfile b)"
    using process_cases(4) [of l dm s XD3_GETSRCBLK b] answered_block.prems by simp
  then show ?case using answered_block.IH [OF refl] by metis
qed

text \<open>The pieces in which the rest of the delta comes.\<close>

fun feeding :: "dedelta_world \<Rightarrow> nat \<Rightarrow> bytes list \<Rightarrow> bool" where
  "feeding w i [] = (delta_read w i = Some [])"
| "feeding w i (c # cs) = (delta_read w i = Some c \<and> c \<noteq> [] \<and> feeding w (i + 1) cs)"

lemma process_reads:
  assumes "xd3_decode_input l dm s = Some (XD3_INPUT, t)" "feeding w i (c # cs)"
  shows "process l dm w False i k out s = process l dm w False (i + 1) k out (xd3_avail_input c t)"
  using process_cases(2) [OF assms(1) refl, of False w i k out] assms(2) by (simp add: next_input_def)

text \<open>A header may end in a later piece than it began, by \<open>header_resumes\<close>.\<close>

lemma process_header:
  assumes r: "r \<in> {XD3_GOTHEADER, XD3_WINSTART}"
    and "dec_state s \<le> DEC_CKSUM" "enc_state s = 0"
    and "xd3_decode_input l dm (s\<lparr>next_in := next_in s @ concat cs\<rparr>) = Some (r, u)" "feeding w i cs"
  shows "\<exists>i' cs' x m. process l dm w False i k out s = process l dm w False i' k out (u\<lparr>next_in := x, msg := m\<rparr>) \<and>
    x @ concat cs' = next_in u \<and> feeding w i' cs'"
  using assms(2-)
proof (induction cs arbitrary: s u i)
  case Nil
  then have "process l dm w False i k out s = process l dm w False i k out u"
    using process_cases(3) [of l dm s r u w False i k out] r by auto
  then show ?case using Nil by (intro exI [of _ i] exI [of _ "[]"] exI [of _ "next_in u"] exI [of _ "msg u"]) simp
next
  case (Cons c cs)
  let ?D = "xd3_decode_input l dm"
  have "halts ?D (concat (c # cs)) (?D s) r u"
    using header_resumes [of l dm] Cons.prems unfolding resumes_def by blast
  then show ?case unfolding halts_def
  proof (elim disjE exE conjE)
    fix x assume x: "x @ concat (c # cs) = next_in u" "quiet (?D s) = Some (r, hush (u\<lparr>next_in := x\<rparr>))"
    then obtain m where d: "?D s = Some (r, u\<lparr>next_in := x, msg := m\<rparr>)" by (auto simp: quiet_Some)
    have "process l dm w False i k out s = process l dm w False i k out (u\<lparr>next_in := x, msg := m\<rparr>)"
      by (rule process_cases(3) [OF d]) (use r in auto)
    then show ?thesis using x(1) Cons.prems(4) by blast
  next
    fix t assume t: "?D s = Some (XD3_INPUT, t)" "dec_state t \<le> DEC_CKSUM" "enc_state t = 0"
      "\<forall>m. quiet (?D (t\<lparr>next_in := concat (c # cs), msg := m\<rparr>)) = Some (r, hush u)"
    let ?t = "xd3_avail_input c t"
    have "quiet (?D (?t\<lparr>next_in := next_in ?t @ concat cs\<rparr>)) = Some (r, hush u)"
      using t(4) [rule_format, of "msg t"] by (simp add: xd3_avail_input_def)
    then obtain m where m: "?D (?t\<lparr>next_in := next_in ?t @ concat cs\<rparr>) = Some (r, u\<lparr>msg := m\<rparr>)" by (auto simp: quiet_Some)
    have "dec_state ?t \<le> DEC_CKSUM" "enc_state ?t = 0" "feeding w (i + 1) cs"
      using t(2,3) Cons.prems(4) by (simp_all add: xd3_avail_input_def)
    from Cons.IH [OF this(1,2) m this(3)] show ?thesis
      unfolding process_reads [OF t(1) Cons.prems(4)] by simp
  qed
qed

text \<open>So may the sections.\<close>

lemma reading_input:
  "reading D I A k (s\<lparr>next_in := x\<rparr>) = reading D I A k s" "reading D I A k (s\<lparr>msg := m\<rparr>) = reading D I A k s"
  by (simp_all add: reading_def reading_data_def reading_inst_def reading_addr_def data3.staged_def inst3.staged_def
      addr3.staged_def data3.complete_def inst3.complete_def)

lemma process_sections:
  fixes p :: vcd_part
  defines "W \<equiv> part_data p @ part_inst p @ part_addr p"
  assumes "reading (part_data p) (part_inst p) (part_addr p) j s" "in_window l sfile n p s"
    and "next_in s @ concat cs = drop j W @ rest" "j \<le> length W" "feeding w i cs"
  shows "\<exists>v i' cs' j' y. process l dm w False i k out s = process l dm w False i' k out v \<and>
    reading (part_data p) (part_inst p) (part_addr p) j' v \<and> in_window l sfile n p v \<and> j' \<le> length W \<and>
    next_in v = drop j' W @ y \<and> y @ concat cs' = rest \<and> feeding w i' cs'"
  using assms(2-)
proof (induction cs arbitrary: s i j)
  case Nil
  then show ?case by (intro exI [of _ s] exI [of _ i] exI [of _ "[]"] exI [of _ j] exI [of _ rest]) simp
next
  case (Cons c cs)
  show ?case
  proof (cases "length W - j \<le> length (next_in s)")
    case True
    let ?y = "drop (length W - j) (next_in s)"
    have "take (length W - j) (next_in s @ concat (c # cs)) = drop j W"
      "drop (length W - j) (next_in s @ concat (c # cs)) = rest"
      unfolding Cons.prems(3) by simp_all
    then have "take (length W - j) (next_in s) = drop j W" "?y @ concat (c # cs) = rest" using True by simp_all
    then have "next_in s = drop j W @ ?y" "?y @ concat (c # cs) = rest" by (metis append_take_drop_id)+
    then show ?thesis
      using Cons.prems by (intro exI [of _ s] exI [of _ i] exI [of _ "c # cs"] exI [of _ j] exI [of _ ?y]) simp
  next
    case False
    have "take (length (next_in s)) (next_in s @ concat (c # cs)) = take (length (next_in s)) (drop j W)"
      "drop (length (next_in s)) (next_in s @ concat (c # cs)) = drop (j + length (next_in s)) W @ rest"
      unfolding Cons.prems(3) using False by (simp_all add: add.commute)
    then have x: "next_in s = take (length (next_in s)) (drop j W)" "c @ concat cs = drop (j + length (next_in s)) W @ rest"
      by simp_all
    have "j + length (next_in s) < length (part_data p) + length (part_inst p) + length (part_addr p)"
      using False by (simp add: W_def)
    then obtain t where t: "xd3_decode_sections s = Some (XD3_INPUT, t)"
      "sections_wait (part_data p) (part_inst p) (part_addr p) (j + length (next_in s)) s t"
      using sections_continue [OF Cons.prems(1) _ _ _ x(1) [unfolded W_def]] Cons.prems(2) by (auto simp: in_window_def)
    have d: "xd3_decode_input l dm s = Some (XD3_INPUT, t)"
    proof -
      have "enc_state s = 0" using Cons.prems(2) by (simp add: in_window_def)
      moreover have "dec_state s \<in> {DEC_DATA, DEC_INST, DEC_ADDR}"
        using Cons.prems(1) by (auto simp: reading_def reading_data_def reading_inst_def reading_addr_def)
      ultimately have "xd3_decode_input l dm s = dec_DATA l s" by (auto simp: xd3_decode_input_def)
      then show ?thesis using t(1) by (simp add: dec_DATA_def)
    qed
    let ?t = "xd3_avail_input c t"
    have "reading (part_data p) (part_inst p) (part_addr p) (j + length (next_in s)) ?t" "strip ?t = strip s"
      using t(2) by (simp_all add: sections_wait_def xd3_avail_input_def reading_input)
    moreover have "in_window l sfile n p ?t" using in_window_strip [OF calculation(2)] Cons.prems(2) by blast
    moreover have "next_in ?t @ concat cs = drop (j + length (next_in s)) W @ rest" using x(2) by (simp add: xd3_avail_input_def)
    moreover have "j + length (next_in s) \<le> length W" "feeding w (i + 1) cs" using False Cons.prems(5) by simp_all
    ultimately show ?thesis
      using Cons.IH [of "j + length (next_in s)" ?t "i + 1"] unfolding process_reads [OF d Cons.prems(5)] by blast
  qed
qed

text \<open>A stream that, given all of its input, would be between two windows.\<close>

definition starts :: "'l::len itself \<Rightarrow> decode_mem \<Rightarrow> bytes \<Rightarrow> nat \<Rightarrow> bytes list \<Rightarrow> xd3_stream \<Rightarrow> bytes \<Rightarrow> bool" where
  "starts l dm sfile n cs s bs \<longleftrightarrow> dec_state s \<le> DEC_CKSUM \<and> enc_state s = 0 \<and>
     (\<exists>s0. xd3_decode_input l dm (s\<lparr>next_in := next_in s @ concat cs\<rparr>) = xd3_decode_input l dm s0 \<and>
        between sfile n s0 \<and> next_in s0 = bs)"

lemma between_input: "between sfile n (s\<lparr>next_in := x\<rparr>) = between sfile n s"
  by (simp add: between_def both_idle_def sections_idle_def buffer_kept_def roomy_def exact_alloc_def copies_kept_def)

lemma between_starts:
  assumes "between sfile n s" "next_in s @ concat cs = bs"
  shows "starts l dm sfile n cs s bs"
proof -
  let ?s = "s\<lparr>next_in := next_in s @ concat cs\<rparr>"
  have "between sfile n ?s" "next_in ?s = bs" using assms by (simp_all add: between_input)
  moreover have "dec_state s \<le> DEC_CKSUM" "enc_state s = 0"
    using assms(1) by (simp_all add: between_def less_eq_xd3_decode_state_def)
  ultimately show ?thesis unfolding starts_def by blast
qed

lemma process_window:
  assumes s: "starts l dm sfile n cs s (part_bytes p @ rest)" and p: "part_ok l sfile p"
    and n: "n + length (part_target p) < 2 ^ 64" and w: "serves l sfile w" and f: "feeding w i cs"
  shows "\<exists>s' i' cs'. process l dm w False i k out s = process l dm w False i' (k + 1) (out @ part_target p) s' \<and>
    between sfile (n + length (part_target p)) s' \<and> next_in s' @ concat cs' = rest \<and> feeding w i' cs'"
proof -
  let ?D = "xd3_decode_input l dm" and ?T = "part_target p" and ?W = "part_data p @ part_inst p @ part_addr p"
  obtain s0 where s0: "?D (s\<lparr>next_in := next_in s @ concat cs\<rparr>) = ?D s0" "between sfile n s0" "next_in s0 = part_bytes p @ rest"
    using s unfolding starts_def by blast
  obtain r s1 where r: "r \<in> {XD3_GOTHEADER, XD3_WINSTART}" "?D s0 = Some (r, s1)" "in_window l sfile n p s1"
    "reading (part_data p) (part_inst p) (part_addr p) 0 s1" "next_in s1 = part_data p @ part_inst p @ part_addr p @ rest"
    using window_header_read [OF s0(2) p s0(3), of dm] n by auto
  obtain i1 cs1 x m where h: "process l dm w False i k out s = process l dm w False i1 k out (s1\<lparr>next_in := x, msg := m\<rparr>)"
    "x @ concat cs1 = next_in s1" "feeding w i1 cs1"
    using process_header [OF r(1) _ _ s0(1) [unfolded r(2)] f] s unfolding starts_def by blast
  let ?s1 = "s1\<lparr>next_in := x, msg := m\<rparr>"
  have in1: "in_window l sfile n p ?s1" by (rule in_window_strip [THEN iffD2, OF _ r(3)]) simp
  have re1: "reading (part_data p) (part_inst p) (part_addr p) 0 ?s1"
    using r(4) by (simp add: reading_input)
  have x: "next_in ?s1 @ concat cs1 = drop 0 ?W @ rest" using h(2) r(5) by simp
  obtain v i2 cs2 j y where
    v: "process l dm w False i1 k out ?s1 = process l dm w False i2 k out v"
    "reading (part_data p) (part_inst p) (part_addr p) j v" "in_window l sfile n p v" "j \<le> length ?W"
    "next_in v = drop j ?W @ y" "y @ concat cs2 = rest" "feeding w i2 cs2"
    using process_sections [OF re1 in1 x le0 h(3), of dm k out] by (elim exE conjE) (rule that)
  have "j \<le> length (part_data p) + length (part_inst p) + length (part_addr p)" using v(4) by simp
  from window_emitted [OF v(3,2,5) this, of dm] obtain t Q where
    t: "answered sfile ?D Q (?D v) XD3_OUTPUT t" "\<forall>a. Q a \<longrightarrow> block_in_file sfile a" "window_done sfile n ?T y t" by (elim exE conjE)
  obtain s' where s': "dec_FINISH (xd3_consume_output t) = Some (XD3_WINFINISH, s')"
    "between sfile (n + length ?T) s'" "next_in s' = y" "out_bytes t = Some ?T" "unat (avail_out t) = length ?T"
    using t(3) by (rule window_doneE)
  have "0 < length ?T" using p by (simp add: part_ok_def)
  then have av: "avail_out t > 0" using s'(5) by (simp add: word_less_nat_alt)
  obtain u where 2: "process l dm w False i2 k out v = process l dm w False i2 k out u" "?D u = Some (XD3_OUTPUT, t)"
    using process_answered [OF t(1,2) w refl] by blast
  have "out_write w k ?T = Some (length ?T)" using w by (simp add: serves_def)
  then have 3: "process l dm w False i2 k out u = process l dm w False i2 (k + 1) (out @ ?T) (xd3_consume_output t)"
    by (rule process_cases(6) [OF 2(2) refl av s'(4)])
  have "?D (xd3_consume_output t) = Some (XD3_WINFINISH, s')"
    using s'(1) t(3) by (simp add: xd3_decode_input_def window_done_def xd3_consume_output_def)
  then have "process l dm w False i2 (k + 1) (out @ ?T) (xd3_consume_output t) = process l dm w False i2 (k + 1) (out @ ?T) s'"
    by (rule process_cases(3)) simp
  with h(1) v(1) 2(1) 3 have "process l dm w False i k out s = process l dm w False i2 (k + 1) (out @ ?T) s'" by simp
  then show ?thesis using s'(2,3) v(6,7) by blast
qed

lemma process_windows:
  assumes "starts l dm sfile n cs s (concat (map part_bytes (p # ps)))" "\<forall>q \<in> set (p # ps). part_ok l sfile q"
    and "n + length (concat (map part_target (p # ps))) < 2 ^ 64" "serves l sfile w" "feeding w i cs"
  shows "\<exists>s' i' k'. process l dm w False i k out s = process l dm w False i' k' (out @ concat (map part_target (p # ps))) s' \<and>
    between sfile (n + length (concat (map part_target (p # ps)))) s' \<and> next_in s' = [] \<and> delta_read w i' = Some []"
  using assms
proof (induction ps arbitrary: p n k out s i cs)
  case Nil
  have a: "starts l dm sfile n cs s (part_bytes p @ [])" "part_ok l sfile p" "n + length (part_target p) < 2 ^ 64"
    using Nil.prems(1-3) by simp_all
  obtain s' i' cs' where s': "process l dm w False i k out s = process l dm w False i' (k + 1) (out @ part_target p) s'"
    "between sfile (n + length (part_target p)) s'" "next_in s' @ concat cs' = []" "feeding w i' cs'"
    using process_window [OF a Nil.prems(4,5), of k out] by (elim exE conjE) (rule that)
  then have "cs' = []" by (cases cs') auto
  then show ?case using s' by auto
next
  case (Cons q ps)
  have a: "starts l dm sfile n cs s (part_bytes p @ concat (map part_bytes (q # ps)))" "part_ok l sfile p"
    "n + length (part_target p) < 2 ^ 64" using Cons.prems(1-3) by simp_all
  obtain s' i' cs' where s': "process l dm w False i k out s = process l dm w False i' (k + 1) (out @ part_target p) s'"
    "between sfile (n + length (part_target p)) s'" "next_in s' @ concat cs' = concat (map part_bytes (q # ps))" "feeding w i' cs'"
    using process_window [OF a Cons.prems(4,5), of k out] by (elim exE conjE) (rule that)
  have "\<forall>r \<in> set (q # ps). part_ok l sfile r"
    "n + length (part_target p) + length (concat (map part_target (q # ps))) < 2 ^ 64"
    using Cons.prems(2,3) by simp_all
  from Cons.IH [OF between_starts [OF s'(2,3)] this Cons.prems(4) s'(4), of "k + 1" "out @ part_target p"] s'(1)
  show ?case by (simp add: add.assoc)
qed

section \<open>The file header\<close>

lemma VCHEAD_read:
  assumes s: "next_in s = [0xd6, 0xc3, 0xc4, 0, h] @ r" "dec_magicbytes s = 0" "length (dec_magic s) = 4"
    and h: "(ucast h :: u32) AND VCD_INVHDR = 0" "(ucast h :: u32) AND VCD_SECONDARY = 0"
  shows "\<exists>t. dec_VCHEAD dm s = dec_TABLEN dm (s\<lparr>dec_magic := [0xd6, 0xc3, 0xc4, 0], dec_magicbytes := 4,
    dec_hdr_ind := ucast h, total_in := t, next_in := r, dec_state := DEC_SECONDID\<rparr>)"
proof -
  have "decode_bytes_loop (dec_magic s) (dec_magicbytes s) 4 (next_in s) = Some (True, [0xd6, 0xc3, 0xc4, 0], 4, h # r)"
    using s by (subst bytes_loop_eq) (simp add: blit_def)
  then show ?thesis
    using s(1) h
    by (intro exI [of _ "5 + total_in s"])
      (simp add: dec_VCHEAD_def xd3_decode_bytes_def DECODE_INPUT_def dec_HDRIND_def xd3_decode_byte_def dec_SECONDID_def Let_def)
qed

lemma TABLEN_read:
  assumes "dec_hdr_ind s AND VCD_CODETABLE = 0" "\<forall>n. mem_words s n \<noteq> None"
  shows "\<exists>ac. dec_TABLEN dm s = dec_APPLEN (s\<lparr>code_table := xd3_rfc3284_code_table, acache := ac, dec_state := DEC_APPLEN\<rparr>) \<and>
    s_near ac = 4 \<and> s_same ac = 3"
proof -
  obtain near same where "mem_words s 4 = Some near" "mem_words s 768 = Some same" using assms(2) by blast
  then have "dec_TABLEN dm s = dec_APPLEN (s\<lparr>code_table := xd3_rfc3284_code_table,
      acache := (acache s)\<lparr>s_near := 4, s_same := 3, near_array := near, same_array := same\<rparr>, dec_state := DEC_APPLEN\<rparr>)"
    using assms(1)
    by (simp add: dec_TABLEN_def SIZE_CASE_def BYTE_CASE_def goto_def dec_NEAR_def dec_SAME_def dec_TABDAT_def
        stream_alloc_cache_def xd3_alloc_cache_def rfc3284_code_table_desc_def)
  then show ?thesis
    by (intro exI [of _ "(acache s)\<lparr>s_near := 4, s_same := 3, near_array := near, same_array := same\<rparr>"]) simp
qed

definition app_bytes :: "bytes option \<Rightarrow> bytes" where
  "app_bytes app = (case app of None \<Rightarrow> [] | Some a \<Rightarrow> integer_bytes (of_nat (length a) :: u32) @ a)"

lemma APPLEN_read:
  assumes inp: "next_in s = app_bytes app @ rest" and app: "(dec_hdr_ind s AND VCD_APPHEADER \<noteq> 0) = (app \<noteq> None)"
    and size: "\<And>a. app = Some a \<Longrightarrow> length a + 1 < 2 ^ 32"
    and fresh: "dec_appheader s = None" "dec_appheadbytes s = 0" and b: "between sfile n (s\<lparr>dec_state := DEC_WININD\<rparr>)"
  shows "\<exists>s'. dec_APPLEN s = dec_WININD s' \<and> between sfile n s' \<and> next_in s' = rest"
proof (cases app)
  case None
  let ?s = "s\<lparr>dec_hdrsize := ucast (total_in s), dec_state := DEC_WININD\<rparr>"
  have "dec_APPLEN s = dec_WININD ?s"
    using app None by (simp add: dec_APPLEN_def SIZE_CASE_def goto_def dec_APPDAT_def)
  moreover have "between sfile n ?s"
    using b by (simp add: between_def both_idle_def sections_idle_def buffer_kept_def roomy_def exact_alloc_def copies_kept_def)
  ultimately show ?thesis using inp None by (intro exI [of _ ?s]) (simp add: app_bytes_def)
next
  case (Some a)
  let ?n = "of_nat (length a) :: u32"
  have n: "unat ?n = length a" "unat (?n + 1) = length a + 1"
    using size [OF Some] by (simp_all add: unsigned_of_nat take_bit_nat_eq_self unat_add_u32)
  have p: "dec_32part s = 0" using b by (simp add: between_def)
  obtain t where 1: "SIZE_CASE True (\<lambda>v s. s\<lparr>dec_appheadsz := v\<rparr>) DEC_APPDAT s =
    ok (s\<lparr>dec_32part := 0, total_in := t, next_in := a @ rest, dec_appheadsz := ?n, dec_state := DEC_APPDAT\<rparr>)" (is "_ = ok ?s1")
    using SIZE_reads [of s ?n "a @ rest" "\<lambda>v s. s\<lparr>dec_appheadsz := v\<rparr>" DEC_APPDAT] inp Some p by (auto simp: app_bytes_def)
  obtain m where m: "mem_alloc s (mem_count s) (length a + 1) = Some m" "length m = length a + 1"
  proof -
    have "\<forall>k n. mem_alloc s k n \<noteq> None" "exact_alloc s" using b by (simp_all add: between_def roomy_def exact_alloc_def)
    then obtain m where "mem_alloc s (mem_count s) (length a + 1) = Some m" "exact_alloc s" by blast
    then show thesis using that [of m] by (simp add: exact_alloc_def)
  qed
  have 2: "blit m (unat ?n) [0] = Some (take (length a) m @ [0])" using m(2) n by (simp add: blit_def)
  have 3: "decode_bytes_loop (take (length a) m @ [0]) 0 ?n (a @ rest) = Some (True, a @ [0], ?n, rest)"
  proof (cases "a = []")
    case False
    then have "0 < ?n" using n(1) by (simp add: word_less_nat_alt)
    then show ?thesis using n(1) m(2) False by (subst bytes_loop_eq) (simp add: blit_def)
  qed (subst bytes_loop_eq, simp)
  let ?s = "?s1\<lparr>mem_count := mem_count s + 1, dec_appheader := Some (a @ [0]), dec_appheadbytes := ?n,
      total_in := t + of_nat (length a), next_in := rest, dec_hdrsize := ucast (t + of_nat (length a)), dec_state := DEC_WININD\<rparr>"
  have "dec_APPLEN s = dec_WININD ?s"
    using app Some 1 2 3 m(1) n fresh
    by (simp add: dec_APPLEN_def dec_APPDAT_def xd3_alloc_def xd3_decode_bytes_def DECODE_INPUT_def Let_def)
  moreover have "between sfile n ?s"
    using b by (simp add: between_def both_idle_def sections_idle_def buffer_kept_def roomy_def exact_alloc_def copies_kept_def)
  ultimately show ?thesis by (intro exI [of _ ?s]) simp
qed

text \<open>The whole header: the call goes on as one in the state before the first window.\<close>

definition good_heap :: "xd3_malloc \<Rightarrow> bool" where
  "good_heap h \<longleftrightarrow> (\<forall>k n. \<exists>b. heap_alloc h k n = Some b \<and> length b = n) \<and> (\<forall>n. heap_words h n \<noteq> None)"

lemma good_heapD:
  assumes "good_heap h"
  shows "\<forall>k n b. heap_alloc h k n = Some b \<longrightarrow> length b = n" and "\<forall>k n. \<exists>b. heap_alloc h k n = Some b"
  using assms unfolding good_heap_def by (metis option.inject, metis)

lemma app_header_bits:
  "(ucast (ucast VCD_APPHEADER :: u8) :: u32) AND VCD_INVHDR = 0" "(ucast (ucast VCD_APPHEADER :: u8) :: u32) AND VCD_SECONDARY = 0"
  "(ucast (ucast VCD_APPHEADER :: u8) :: u32) AND VCD_CODETABLE = 0" "(ucast (ucast VCD_APPHEADER :: u8) :: u32) AND VCD_APPHEADER \<noteq> 0"
  by code_simp+

lemma file_header_read:
  assumes h: "good_heap (stream_heap w)" and x: "wf_source x" "blksize x = CHUNK" "block_known sfile x"
    and size: "\<And>a. app = Some a \<Longrightarrow> length a + 1 < 2 ^ 32"
  shows "\<exists>s. xd3_decode_input l dm (xd3_avail_input (file_header_bytes app @ rest) (first_stream w x)) = xd3_decode_input l dm s \<and>
    between sfile 0 s \<and> next_in s = rest"
proof -
  let ?s = "xd3_avail_input (file_header_bytes app @ rest) (first_stream w x)"
  let ?h = "if app = None then 0 else ucast VCD_APPHEADER :: u8"
  have f: "next_in ?s = [0xd6, 0xc3, 0xc4, 0, ?h] @ (app_bytes app @ rest)"
    by (simp add: xd3_avail_input_def file_header_bytes_def app_bytes_def split: option.splits)
  have m: "dec_magicbytes ?s = 0" "length (dec_magic ?s) = 4"
    by (simp_all add: first_stream_def zero_stream_def xd3_avail_input_def)
  have hb: "(ucast ?h :: u32) AND VCD_INVHDR = 0" "(ucast ?h :: u32) AND VCD_SECONDARY = 0"
    "(ucast ?h :: u32) AND VCD_CODETABLE = 0" "((ucast ?h :: u32) AND VCD_APPHEADER \<noteq> 0) = (app \<noteq> None)"
    by (cases app; simp add: app_header_bits)+
  obtain t where 1: "dec_VCHEAD dm ?s = dec_TABLEN dm (?s\<lparr>dec_magic := [0xd6, 0xc3, 0xc4, 0], dec_magicbytes := 4,
    dec_hdr_ind := ucast ?h, total_in := t, next_in := app_bytes app @ rest, dec_state := DEC_SECONDID\<rparr>)" (is "_ = dec_TABLEN dm ?s1")
    using VCHEAD_read [OF f m hb(1,2), of dm] by (elim exE) (rule that)
  have w: "\<forall>n. mem_words ?s1 n \<noteq> None"
    using h by (simp add: good_heap_def first_stream_def zero_stream_def delta_config_def xd3_init_config_def xd3_avail_input_def)
  obtain ac where 2: "dec_TABLEN dm ?s1 = dec_APPLEN (?s1\<lparr>code_table := xd3_rfc3284_code_table, acache := ac, dec_state := DEC_APPLEN\<rparr>)"
      (is "_ = dec_APPLEN ?s2")
    "s_near ac = 4" "s_same ac = 3"
  proof -
    have "dec_hdr_ind ?s1 AND VCD_CODETABLE = 0" using hb(3) by simp
    from TABLEN_read [OF this w, of dm] show thesis using that by blast
  qed
  have b: "between sfile 0 (?s2\<lparr>dec_state := DEC_WININD\<rparr>)"
    using x 2(2,3) good_heapD [OF h]
    by (simp add: between_def both_idle_def sections_idle_def buffer_kept_def roomy_def exact_alloc_def copies_kept_def
        copy_kept_def first_stream_def
        zero_stream_def delta_config_def xd3_init_config_def xd3_avail_input_def zero_hinst_def zero_sect_def XD3_NOOP_def)
  obtain s where s: "dec_APPLEN ?s2 = dec_WININD s" "between sfile 0 s" "next_in s = rest"
  proof -
    have "next_in ?s2 = app_bytes app @ rest" "(dec_hdr_ind ?s2 AND VCD_APPHEADER \<noteq> 0) = (app \<noteq> None)"
      "dec_appheader ?s2 = None" "dec_appheadbytes ?s2 = 0"
      using hb(4) by (simp_all add: first_stream_def zero_stream_def xd3_avail_input_def)
    from APPLEN_read [OF this(1,2) size this(3,4) b] show thesis using that by blast
  qed
  have "xd3_decode_input l dm ?s = dec_VCHEAD dm ?s"
    by (simp add: xd3_decode_input_def first_stream_def zero_stream_def xd3_avail_input_def)
  moreover have "xd3_decode_input l dm s = dec_WININD s" using s(2) by (simp add: xd3_decode_input_def between_def)
  ultimately show ?thesis using 1 2(1) s by metis
qed


section \<open>The end of the delta\<close>

text \<open>Between windows nothing is left over: the stream can be closed and freed.\<close>

lemma between_end:
  assumes b: "between sfile n s"
  shows "\<exists>z. xd3_free_stream (snd (decoder_close s)) = Some z"
  using b by (auto simp: between_def buffer_kept_def decoder_close_def xd3_free_stream_def free_block_def)

lemma process_end:
  assumes b: "between sfile n s" "next_in s = []" and w: "delta_read w i = Some []"
  shows "\<exists>s'. process l dm w False i k out s = Some (Inr s', out) \<and> between sfile n s'"
proof -
  let ?m = "Some ''further input required''"
  have in1: "xd3_decode_input l dm s = Some (XD3_INPUT, s\<lparr>msg := ?m\<rparr>)" (is "_ = Some (_, ?s)")
    using b by (simp add: xd3_decode_input_def between_def dec_WININD_def xd3_decode_byte_def fail_def)
  let ?t = "xd3_avail_input [] (xd3_set_flags XD3_FLUSH ?s)"
  have bt: "between sfile n ?t"
    using b(1) by (simp add: between_def both_idle_def sections_idle_def buffer_kept_def roomy_def exact_alloc_def copies_kept_def xd3_avail_input_def
        xd3_set_flags_def XD3_FLUSH_def XD3_JUST_HDR_def XD3_SKIP_WINDOW_def XD3_SKIP_EMIT_def)
  have in2: "xd3_decode_input l dm ?t = Some (XD3_INPUT, ?t\<lparr>msg := ?m\<rparr>)" (is "_ = Some (_, ?u)")
    using bt by (simp add: xd3_decode_input_def between_def dec_WININD_def xd3_decode_byte_def fail_def xd3_avail_input_def)
  have "between sfile n ?u"
    using bt by (simp add: between_def both_idle_def sections_idle_def buffer_kept_def roomy_def exact_alloc_def copies_kept_def)
  moreover have "process l dm w False i k out s = process l dm w True (i + 1) k out ?t"
    using process_cases(2) [OF in1 refl, of False w i k out] w by (simp add: next_input_def)
  moreover have "process l dm w True (i + 1) k out ?t = Some (Inr ?u, out)"
    by (rule process_cases(1) [OF in2]) simp_all
  ultimately show ?thesis by (intro exI [of _ ?u]) simp
qed

section \<open>What dedelta makes of a delta\<close>

text \<open>A world in which nothing fails: the delta in the pieces \<open>cs\<close>, then its end; the memory calls give what
  they are asked for.\<close>

definition delivers :: "dedelta_world \<Rightarrow> bytes list \<Rightarrow> bool" where
  "delivers w cs \<longleftrightarrow> opens_source w \<and> opens_delta w \<and> bdelta_alloc w \<noteq> None \<and> good_heap (stream_heap w) \<and>
     (\<exists>mem. bsource_alloc w = Some mem) \<and> unat (max_winsize (source_garbage w)) \<le> 2 ^ 63 \<and>
     feeding w 0 cs"

lemma dedelta_source_set:
  assumes "unat (max_winsize (source_garbage w)) \<le> 2 ^ 63"
  shows "\<exists>x. xd3_set_source l (dedelta_source w mem) = Some x \<and> wf_source x \<and> blksize x = CHUNK \<and> block_known sfile x"
proof -
  let ?x = "dedelta_source w mem"
  have c: "blksize ?x = CHUNK" "curblkno ?x = - 1" by (simp_all add: dedelta_source_def)
  have "set_blksize l (?x\<lparr>srclen := 0, srcbase := 0\<rparr>) = Some (?x\<lparr>srclen := 0, srcbase := 0, shiftby := 18, maskby := push_bit 18 1 - 1\<rparr>)"
    using chunk_blksize [of "?x\<lparr>srclen := 0, srcbase := 0\<rparr>" l] c by simp
  moreover have "xd3_set_source l ?x \<noteq> None"
    using set_source_garbage [of ?x l] c assms by (simp add: dedelta_source_def)
  ultimately obtain mw where "xd3_set_source l ?x = Some (?x\<lparr>srclen := 0, srcbase := 0, shiftby := 18,
      maskby := push_bit 18 1 - 1, max_winsize := mw\<rparr>)"
    unfolding xd3_set_source_def by (auto split: option.splits)
  then show ?thesis
    using c by (simp add: wf_source_def block_known_def CHUNK_def push_bit_eq_mult)
qed

text \<open>C1: A delta is a file header, with or without application data, and windows that each mean their target
  over the source file (\<open>vcd_window\<close>, with a right checksum or none). When the system calls succeed, in whatever
  pieces \<^verbatim>\<open>read\<close> delivers the delta, \<^verbatim>\<open>dedelta\<close> terminates, returns 1 and writes exactly the targets, one after
  the other, whatever blocks of the source the windows copy from and however often they have to be read again.\<close>

theorem dedelta_is_vcdiff:
  assumes delta: "concat cs = file_header_bytes app @ concat (map part_bytes ps)" "delivers w cs"
    and out: "opens_out w = Some old" and w: "serves l sfile w" and app: "\<forall>a. app = Some a \<longrightarrow> length a + 1 < 2 ^ 32"
    and ps: "ps \<noteq> []" "\<forall>p \<in> set ps. part_ok l sfile p" and total: "length (concat (map part_target ps)) < 2 ^ 64"
  shows "dedelta l dm w = Some \<lparr>returns = 1, reports = None, out_file = Some (written_over old (concat (map part_target ps)))\<rparr>"
proof -
  let ?out = "concat (map part_target ps)"
  note d = delta(2) [unfolded delivers_def]
  obtain p qs where p: "ps = p # qs" using ps(1) by (cases ps) auto
  obtain c cs' where c: "cs = c # cs'" using delta(1) by (cases cs) (simp_all add: file_header_bytes_def)
  obtain mem where mem: "bsource_alloc w = Some mem" using d by blast
  obtain x where x: "xd3_set_source l (dedelta_source w mem) = Some x" "wf_source x" "blksize x = CHUNK" "block_known sfile x"
    using dedelta_source_set [of w l mem sfile] d by blast
  let ?s = "xd3_avail_input c (first_stream w x)"
  have n: "next_input w 0 (first_stream w x) = Some (False, ?s)"
    using d c by (simp add: next_input_def)
  have f: "feeding w 1 cs'" using d c by simp
  have all: "?s\<lparr>next_in := next_in ?s @ concat cs'\<rparr> =
      xd3_avail_input (file_header_bytes app @ concat (map part_bytes ps)) (first_stream w x)"
    using delta(1) c by (simp add: xd3_avail_input_def)
  have "starts l dm sfile 0 cs' ?s (concat (map part_bytes ps))"
    using file_header_read [of w x sfile app l dm "concat (map part_bytes ps)"] x(2-4) d app
    unfolding starts_def all
    by (simp add: first_stream_def zero_stream_def xd3_avail_input_def less_eq_xd3_decode_state_def)
  from process_windows [OF this [unfolded p] ps(2) [unfolded p] _ w f, of 0 "[]"] total [unfolded p]
  obtain s1 i k where s1: "process l dm w False 1 0 [] ?s = process l dm w False i k ([] @ ?out) s1"
    "between sfile (0 + length ?out) s1" "next_in s1 = []" "delta_read w i = Some []" unfolding p by auto
  obtain s2 where s2: "process l dm w False i k ([] @ ?out) s1 = Some (Inr s2, [] @ ?out)" "between sfile (0 + length ?out) s2"
    using process_end [OF s1(2,3,4)] by blast
  have "process l dm w False 1 0 [] ?s = Some (Inr s2, ?out)"
    using s1(1) s2(1) by simp
  moreover have "opens_source w" "opens_delta w" "bdelta_alloc w \<noteq> None" using d by simp_all
  ultimately show ?thesis
    using dedelta_runs [OF _ _ out mem, of l dm] x(1) n between_end [OF s2(2)] by (auto simp: dedelta_end_def)
qed

definition sample_part :: vcd_part where
  "sample_part = \<lparr>part_win = None, part_sum = None, part_data = [97, 98], part_inst = [3, 20], part_addr = [0],
     part_target = [97, 98, 97, 98, 97, 98]\<rparr>"

lemma sample_part_ok: "part_ok TYPE(32) [] sample_part"
  using sample_window_means [of start_cache] by (simp add: part_ok_def sample_part_def window_segment_def)

lemma sample_part_bytes: "part_bytes sample_part = [0, 10, 6, 0, 2, 2, 1, 97, 98, 3, 20, 0]"
  by code_simp

theorem dedelta_is_vcdiff_witness:
  "dedelta TYPE(32) (\<lambda>_ _. None)
     (sample_world 0 (\<lambda>i. Some (if i = 0 then [0xd6, 0xc3, 0xc4] else if i = 1 then [0, 0, 0, 10, 6, 0, 2, 2, 1, 97]
        else if i = 2 then [98, 3] else if i = 3 then [20, 0] else []))) =
   Some \<lparr>returns = 1, reports = None, out_file = Some [97, 98, 97, 98, 97, 98]\<rparr>"
proof -
  let ?w = "sample_world 0 (\<lambda>i. Some (if i = 0 then [0xd6, 0xc3, 0xc4] else if i = 1 then [0, 0, 0, 10, 6, 0, 2, 2, 1, 97]
        else if i = 2 then [98, 3] else if i = 3 then [20, 0] else []))"
  let ?cs = "[[0xd6, 0xc3, 0xc4], [0, 0, 0, 10, 6, 0, 2, 2, 1, 97], [98, 3], [20, 0]] :: bytes list"
  have "concat ?cs = file_header_bytes None @ concat (map part_bytes [sample_part])"
    by (simp add: sample_part_bytes file_header_bytes_def)
  moreover have "delivers ?w ?cs"
    by (simp add: delivers_def good_heap_def sample_world_def sample_source_def)
  moreover have "opens_out ?w = Some []" "serves TYPE(32) [] ?w"
    by (simp_all add: serves_def sample_world_def)
  ultimately show ?thesis
    using dedelta_is_vcdiff [of ?cs None "[sample_part]" ?w "[]" "TYPE(32)" "[]" "\<lambda>_ _. None"] sample_part_ok
    by (simp add: sample_part_def written_over_def)
qed

end
