(* ===== verification/Zipadjust.thy ===== *)
theory Zipadjust
  imports Prelude
begin

text \<open>
  \<^verbatim>\<open>zipadjust.c\<close>: rewrites a zip file without extra fields, comments and data descriptors, with the
  local headers made to agree with the central directory, and on request with its compressed
  entries inflated. OpenDelta makes and applies its deltas on such files.

  The operating system is the record \<open>zip_world\<close>. The input file does not change, so what \<^verbatim>\<open>lseek\<close>
  and \<^verbatim>\<open>read\<close> answer depends on the position (and the number of bytes) alone; the output file is part of
  the state. \<open>'p\<close> is the type of \<^verbatim>\<open>size_t\<close> and \<^verbatim>\<open>off_t\<close>, of one width on Android. zlib's \<^verbatim>\<open>inflate\<close>
  is a parameter. The machine is little-endian, and the structures are packed.
\<close>

section \<open>The structures\<close>

definition le16 :: "u16 \<Rightarrow> bytes" where "le16 w = [ucast w, ucast (drop_bit 8 w)]"

definition le32 :: "u32 \<Rightarrow> bytes" where
  "le32 w = [ucast w, ucast (drop_bit 8 w), ucast (drop_bit 16 w), ucast (drop_bit 24 w)]"

definition get16 :: "bytes \<Rightarrow> nat \<Rightarrow> u16" where
  "get16 b i = ucast (b ! i) OR push_bit 8 (ucast (b ! (i + 1)))"

definition get32 :: "bytes \<Rightarrow> nat \<Rightarrow> u32" where
  "get32 b i = ucast (b ! i) OR push_bit 8 (ucast (b ! (i + 1))) OR push_bit 16 (ucast (b ! (i + 2))) OR
     push_bit 24 (ucast (b ! (i + 3)))"

record local_header =
  lh_signature :: u32
  lh_extract_version :: u16
  lh_flags :: u16
  lh_compression_method :: u16
  lh_last_modified_time :: u16
  lh_last_modified_date :: u16
  lh_crc32 :: u32
  lh_size_compressed :: u32
  lh_size_uncompressed :: u32
  lh_length_filename :: u16
  lh_length_extra :: u16

definition local_size :: nat where "local_size = 30"

definition local_bytes :: "local_header \<Rightarrow> bytes" where
  "local_bytes h = le32 (lh_signature h) @ le16 (lh_extract_version h) @ le16 (lh_flags h) @
     le16 (lh_compression_method h) @ le16 (lh_last_modified_time h) @ le16 (lh_last_modified_date h) @
     le32 (lh_crc32 h) @ le32 (lh_size_compressed h) @ le32 (lh_size_uncompressed h) @
     le16 (lh_length_filename h) @ le16 (lh_length_extra h)"

definition local_of :: "bytes \<Rightarrow> local_header" where
  "local_of b = \<lparr>lh_signature = get32 b 0, lh_extract_version = get16 b 4, lh_flags = get16 b 6,
     lh_compression_method = get16 b 8, lh_last_modified_time = get16 b 10, lh_last_modified_date = get16 b 12,
     lh_crc32 = get32 b 14, lh_size_compressed = get32 b 18, lh_size_uncompressed = get32 b 22,
     lh_length_filename = get16 b 26, lh_length_extra = get16 b 28\<rparr>"

record central_header =
  ch_signature :: u32
  ch_version_made :: u16
  ch_version_needed :: u16
  ch_flags :: u16
  ch_compression_method :: u16
  ch_last_modified_time :: u16
  ch_last_modified_date :: u16
  ch_crc32 :: u32
  ch_size_compressed :: u32
  ch_size_uncompressed :: u32
  ch_length_filename :: u16
  ch_length_extra :: u16
  ch_length_comment :: u16
  ch_disk_start :: u16
  ch_attr_internal :: u16
  ch_attr_external :: u32
  ch_offset :: u32

definition central_size :: nat where "central_size = 46"

definition central_bytes :: "central_header \<Rightarrow> bytes" where
  "central_bytes h = le32 (ch_signature h) @ le16 (ch_version_made h) @ le16 (ch_version_needed h) @
     le16 (ch_flags h) @ le16 (ch_compression_method h) @ le16 (ch_last_modified_time h) @
     le16 (ch_last_modified_date h) @ le32 (ch_crc32 h) @ le32 (ch_size_compressed h) @
     le32 (ch_size_uncompressed h) @ le16 (ch_length_filename h) @ le16 (ch_length_extra h) @
     le16 (ch_length_comment h) @ le16 (ch_disk_start h) @ le16 (ch_attr_internal h) @
     le32 (ch_attr_external h) @ le32 (ch_offset h)"

definition central_of :: "bytes \<Rightarrow> central_header" where
  "central_of b = \<lparr>ch_signature = get32 b 0, ch_version_made = get16 b 4, ch_version_needed = get16 b 6,
     ch_flags = get16 b 8, ch_compression_method = get16 b 10, ch_last_modified_time = get16 b 12,
     ch_last_modified_date = get16 b 14, ch_crc32 = get32 b 16, ch_size_compressed = get32 b 20,
     ch_size_uncompressed = get32 b 24, ch_length_filename = get16 b 28, ch_length_extra = get16 b 30,
     ch_length_comment = get16 b 32, ch_disk_start = get16 b 34, ch_attr_internal = get16 b 36,
     ch_attr_external = get32 b 38, ch_offset = get32 b 42\<rparr>"

record central_footer =
  cf_signature :: u32
  cf_disk_number :: u16
  cf_disk_number_central_directory :: u16
  cf_central_directory_entries_this_disk :: u16
  cf_central_directory_entries_total :: u16
  cf_central_directory_size :: u32
  cf_central_directory_offset :: u32
  cf_length_comment :: u16

definition footer_size :: nat where "footer_size = 22"

definition footer_bytes :: "central_footer \<Rightarrow> bytes" where
  "footer_bytes h = le32 (cf_signature h) @ le16 (cf_disk_number h) @ le16 (cf_disk_number_central_directory h) @
     le16 (cf_central_directory_entries_this_disk h) @ le16 (cf_central_directory_entries_total h) @
     le32 (cf_central_directory_size h) @ le32 (cf_central_directory_offset h) @ le16 (cf_length_comment h)"

definition footer_of :: "bytes \<Rightarrow> central_footer" where
  "footer_of b = \<lparr>cf_signature = get32 b 0, cf_disk_number = get16 b 4, cf_disk_number_central_directory = get16 b 6,
     cf_central_directory_entries_this_disk = get16 b 8, cf_central_directory_entries_total = get16 b 10,
     cf_central_directory_size = get32 b 12, cf_central_directory_offset = get32 b 16, cf_length_comment = get16 b 20\<rparr>"

definition MAGIC_CENTRAL_HEADER :: u32 where "MAGIC_CENTRAL_HEADER = 0x02014b50"
definition MAGIC_CENTRAL_FOOTER :: u32 where "MAGIC_CENTRAL_FOOTER = 0x06054b50"

section \<open>The world\<close>

datatype zlib_ret = Z_OK | Z_STREAM_END | Z_NEED_DICT | Z_STREAM_ERROR | Z_DATA_ERROR | Z_MEM_ERROR | Z_BUF_ERROR

text \<open>
  \<open>opens_fout\<close>: what the output file holds once it is open (nothing, unless \<^verbatim>\<open>unlink\<close> failed). \<open>copy_alloc\<close>
  is asked with the place in the output. \<open>inflate z inp n\<close>: the code, the input left, the output (at most \<open>n\<close>
  bytes) and the next state of zlib.
\<close>

record 'z zip_world =
  opens_fin :: bool
  in_length :: nat
  in_seek :: "nat \<Rightarrow> bool"
  in_read :: "nat \<Rightarrow> nat \<Rightarrow> bytes option"
  opens_fout :: "bytes option"
  fout_seek :: "nat \<Rightarrow> bool"
  fout_write :: "nat \<Rightarrow> bytes \<Rightarrow> nat option"
  directory_alloc :: "bool \<times> bool"
  copy_alloc :: "nat \<Rightarrow> bool"
  inflate_init :: "zlib_ret \<times> 'z"
  inflate :: "'z \<Rightarrow> bytes \<Rightarrow> nat \<Rightarrow> zlib_ret \<times> bytes \<times> bytes \<times> 'z"

text \<open>The file positions and the output file.\<close>

record zip_io =
  in_pos :: nat
  out_pos :: nat
  out_data :: bytes

text \<open>
  A step: \<open>None\<close> where C gives it no meaning or it does not end, \<open>Inl\<close> of the output file when the
  function reports an error (\<^verbatim>\<open>zipadjust\<close> then returns 0 at once), else a value and the state.
\<close>

type_synonym 'a zip_step = "(bytes + 'a \<times> zip_io) option"

definition zip_then :: "'a zip_step \<Rightarrow> ('a \<Rightarrow> zip_io \<Rightarrow> 'b zip_step) \<Rightarrow> 'b zip_step" where
  "zip_then p f = Option.bind p (\<lambda>r. case r of Inl out \<Rightarrow> Some (Inl out) | Inr x \<Rightarrow> f (fst x) (snd x))"

definition zip_ok :: "'a \<Rightarrow> zip_io \<Rightarrow> 'a zip_step" where "zip_ok x s = Some (Inr (x, s))"
definition xerror :: "zip_io \<Rightarrow> 'a zip_step" where "xerror s = Some (Inl (out_data s))"

lemma zip_then_simps [simp]:
  "zip_then None f = None" "zip_then (Some (Inl out)) f = Some (Inl out)" "zip_then (Some (Inr (x, s))) f = f x s"
  "zip_then (zip_ok x s) f = f x s" "zip_then (xerror s) f = xerror s"
  by (simp_all add: zip_then_def zip_ok_def xerror_def)

lemma zip_ok_inject [simp]: "zip_ok x s = zip_ok y t \<longleftrightarrow> x = y \<and> s = t"
  by (simp add: zip_ok_def)

definition write_at :: "bytes \<Rightarrow> nat \<Rightarrow> bytes \<Rightarrow> bytes" where
  "write_at file i bs = take i (file @ replicate (i - length file) 0) @ bs @ drop (i + length bs) file"

section \<open>Seeking, reading and writing\<close>

definition seek_in :: "'z zip_world \<Rightarrow> 'p::len word \<Rightarrow> zip_io \<Rightarrow> unit zip_step" where
  "seek_in w offset s =
     (if sint offset < 0 \<or> \<not> in_seek w (unat offset) then xerror s else zip_ok () (s\<lparr>in_pos := unat offset\<rparr>))"

definition seek_out :: "'z zip_world \<Rightarrow> 'p::len word \<Rightarrow> zip_io \<Rightarrow> unit zip_step" where
  "seek_out w offset s =
     (if sint offset < 0 \<or> \<not> fout_seek w (unat offset) then xerror s else zip_ok () (s\<lparr>out_pos := unat offset\<rparr>))"

text \<open>\<^verbatim>\<open>write\<close> at the current position; a short one is an error for every caller.\<close>

definition write_fout :: "'z zip_world \<Rightarrow> bytes \<Rightarrow> zip_io \<Rightarrow> unit zip_step" where
  "write_fout w bs s =
     (let n = (case fout_write w (out_pos s) bs of None \<Rightarrow> 0 | Some n \<Rightarrow> n);
          t = s\<lparr>out_data := (if n = 0 then out_data s else write_at (out_data s) (out_pos s) (take n bs)), out_pos := out_pos s + n\<rparr>
      in if fout_write w (out_pos s) bs = Some (length bs) then zip_ok () t else xerror t)"

definition xseekread :: "'z zip_world \<Rightarrow> 'p::len word \<Rightarrow> nat \<Rightarrow> zip_io \<Rightarrow> bytes zip_step" where
  "xseekread w offset n s =
     zip_then (seek_in w offset s) (\<lambda>_ s.
       case in_read w (in_pos s) n of
         None \<Rightarrow> xerror s
       | Some bs \<Rightarrow> if length bs = n then zip_ok bs (s\<lparr>in_pos := in_pos s + n\<rparr>) else xerror s)"

definition xseekwrite :: "'z zip_world \<Rightarrow> 'p::len word \<Rightarrow> bytes \<Rightarrow> zip_io \<Rightarrow> unit zip_step" where
  "xseekwrite w offset bs s = zip_then (seek_out w offset s) (\<lambda>_ s. write_fout w bs s)"

definition maybe_seek_in :: "'z zip_world \<Rightarrow> 'p::len word \<Rightarrow> zip_io \<Rightarrow> unit zip_step" where
  "maybe_seek_in w offset s = (if offset \<noteq> - 1 then seek_in w offset s else zip_ok () s)"

definition maybe_seek_out :: "'z zip_world \<Rightarrow> 'p::len word \<Rightarrow> zip_io \<Rightarrow> unit zip_step" where
  "maybe_seek_out w offset s = (if offset \<noteq> - 1 then seek_out w offset s else zip_ok () s)"

definition COPY_CHUNK :: nat where "COPY_CHUNK = 256 * 1024"

text \<open>
  The loop of \<^verbatim>\<open>xfilecopy\<close>. A failed \<^verbatim>\<open>read\<close> is a length of \<^verbatim>\<open>SIZE_MAX\<close>, which passes the test
  \<^verbatim>\<open>r <= 0\<close>; the write of as many bytes leaves the buffer.
\<close>

function copy_loop :: "'z zip_world \<Rightarrow> nat \<Rightarrow> zip_io \<Rightarrow> unit zip_step" where
  "copy_loop w left s =
     (if left = 0 then zip_ok () s
      else
        (case in_read w (in_pos s) (min left COPY_CHUNK) of
           None \<Rightarrow> None
         | Some r \<Rightarrow>
             if r = [] then xerror s
             else (case write_fout w r (s\<lparr>in_pos := in_pos s + length r\<rparr>) of
                     None \<Rightarrow> None
                   | Some (Inl out) \<Rightarrow> Some (Inl out)
                   | Some (Inr (_, s)) \<Rightarrow> copy_loop w (left - length r) s)))"
  by pat_completeness auto
termination by (relation "measure (\<lambda>(w, left, s). left)") (auto simp: neq_Nil_conv)

declare copy_loop.simps [simp del]

definition xfilecopy :: "'z zip_world \<Rightarrow> 'p::len word \<Rightarrow> 'p word \<Rightarrow> nat \<Rightarrow> zip_io \<Rightarrow> unit zip_step" where
  "xfilecopy w offsetIn offsetOut n s =
     zip_then (maybe_seek_in w offsetIn s) (\<lambda>_ s.
     zip_then (maybe_seek_out w offsetOut s) (\<lambda>_ s.
       if \<not> copy_alloc w (out_pos s) then xerror s else copy_loop w n s))"

text \<open>The inner loop of \<^verbatim>\<open>xdecompress\<close>: as long as \<^verbatim>\<open>inflate\<close> fills the output buffer.\<close>

partial_function (option) inflate_loop ::
    "'z zip_world \<Rightarrow> 'z \<Rightarrow> bytes \<Rightarrow> zip_io \<Rightarrow> (bytes + (zlib_ret \<times> 'z) \<times> zip_io) option" where
  "inflate_loop w z inp s =
     (case inflate w z inp COPY_CHUNK of
        (ret, left, out, z') \<Rightarrow>
          if ret \<in> {Z_STREAM_ERROR, Z_NEED_DICT, Z_DATA_ERROR, Z_MEM_ERROR} then xerror s
          else Option.bind (write_fout w out s) (\<lambda>r.
            case r of
              Inl e \<Rightarrow> Some (Inl e)
            | Inr x \<Rightarrow> if length out = COPY_CHUNK then inflate_loop w z' left (snd x) else zip_ok (ret, z') (snd x)))"

partial_function (option) decompress_loop ::
    "'z zip_world \<Rightarrow> zlib_ret \<Rightarrow> 'z \<Rightarrow> zip_io \<Rightarrow> (bytes + zlib_ret \<times> zip_io) option" where
  "decompress_loop w ret z s =
     Option.bind (in_read w (in_pos s) COPY_CHUNK) (\<lambda>inp.
       if inp = [] then zip_ok ret s
       else Option.bind (inflate_loop w z inp (s\<lparr>in_pos := in_pos s + length inp\<rparr>)) (\<lambda>r.
         case r of
           Inl e \<Rightarrow> Some (Inl e)
         | Inr x \<Rightarrow> if fst (fst x) = Z_STREAM_END then zip_ok Z_STREAM_END (snd x)
                    else decompress_loop w (fst (fst x)) (snd (fst x)) (snd x)))"

definition xdecompress :: "'z zip_world \<Rightarrow> 'p::len word \<Rightarrow> 'p word \<Rightarrow> zip_io \<Rightarrow> unit zip_step" where
  "xdecompress w offsetIn offsetOut s =
     zip_then (maybe_seek_in w offsetIn s) (\<lambda>_ s.
     zip_then (maybe_seek_out w offsetOut s) (\<lambda>_ s.
       case inflate_init w of
         (ret, z) \<Rightarrow>
           if ret \<noteq> Z_OK then xerror s
           else zip_then (decompress_loop w Z_OK z s) (\<lambda>ret s. if ret = Z_STREAM_END then zip_ok () s else xerror s)))"

section \<open>The central directory\<close>

text \<open>One turn of the search for the footer, from the end of the file towards its beginning.\<close>

definition look_for_footer :: "'p::len itself \<Rightarrow> 'z zip_world \<Rightarrow> nat \<Rightarrow> zip_io \<Rightarrow> central_footer option zip_step" where
  "look_for_footer p w i s =
     zip_then (xseekread w (of_nat i :: 'p word) 4 s) (\<lambda>m s.
       if get32 m 0 \<noteq> MAGIC_CENTRAL_FOOTER then zip_ok None s
       else
         zip_then (xseekread w (of_nat i :: 'p word) footer_size s) (\<lambda>f s.
         let footer = footer_of f in
         zip_then (xseekread w (ucast (cf_central_directory_offset footer) :: 'p word) central_size s) (\<lambda>h s.
           zip_ok (if ch_signature (central_of h) = MAGIC_CENTRAL_HEADER then Some footer else None) s)))"

fun find_footer :: "'p::len itself \<Rightarrow> 'z zip_world \<Rightarrow> nat \<Rightarrow> zip_io \<Rightarrow> central_footer option zip_step" where
  "find_footer p w 0 s = look_for_footer p w 0 s"
| "find_footer p w (Suc i) s =
     zip_then (look_for_footer p w (Suc i) s) (\<lambda>r s.
       case r of None \<Rightarrow> find_footer p w i s | Some footer \<Rightarrow> zip_ok (Some footer) s)"

text \<open>
  The headers as they are rewritten. \<^verbatim>\<open>flags & !8\<close> is \<^verbatim>\<open>flags & 0\<close>.
\<close>

definition adjust_central :: "bool \<Rightarrow> u32 \<Rightarrow> central_header \<Rightarrow> central_header" where
  "adjust_central decompress out_index h =
     (let h1 = h\<lparr>ch_offset := out_index, ch_flags := ch_flags h AND 0\<rparr>;
          h2 = (if decompress \<and> ch_compression_method h = 8
                then h1\<lparr>ch_compression_method := 0, ch_size_compressed := ch_size_uncompressed h1\<rparr> else h1)
      in h2\<lparr>ch_length_extra := 0, ch_length_comment := 0\<rparr>)"

definition adjust_local :: "central_header \<Rightarrow> local_header \<Rightarrow> local_header" where
  "adjust_local h l = l\<lparr>lh_compression_method := ch_compression_method h, lh_flags := ch_flags h, lh_crc32 := ch_crc32 h,
     lh_size_uncompressed := ch_size_uncompressed h, lh_size_compressed := ch_size_compressed h, lh_length_extra := 0\<rparr>"

text \<open>What the loop over the directory carries: the two buffers, the place in each, and the place in the output.\<close>

record zip_loop =
  directory_in :: bytes
  in_index :: nat
  directory_out :: bytes
  out_directory_index :: nat
  out_index :: u32

text \<open>
  One entry. The name must fit \<^verbatim>\<open>filename[1024]\<close> and lie in the directory. The header is rewritten
  in place.
\<close>

definition adjust_entry ::
    "'p::len itself \<Rightarrow> 'z zip_world \<Rightarrow> bool \<Rightarrow> zip_loop \<Rightarrow> zip_io \<Rightarrow> zip_loop zip_step" where
  "adjust_entry p w decompress L s =
     (let i = in_index L; h = central_of (drop i (directory_in L)); len = unat (ch_length_filename h) in
      if len \<ge> 1024 \<or> i + central_size + len > length (directory_in L) then None
      else
        (let filename = take len (drop (i + central_size) (directory_in L)) in
         zip_then (xseekread w (ucast (ch_offset h) :: 'p word) local_size s) (\<lambda>lb s.
         let data = (ucast (ch_offset h) + of_nat local_size + ucast (ch_length_filename h) + ucast (ch_length_extra h) :: 'p word);
             inflates = (decompress \<and> ch_compression_method h = 8);
             h1 = adjust_central decompress (out_index L) h;
             l1 = adjust_local h1 (local_of lb);
             dir_in = take i (directory_in L) @ central_bytes h1 @ drop (i + central_size) (directory_in L);
             at1 = out_index L + of_nat local_size;
             at2 = at1 + ucast (ch_length_filename h);
             at3 = at2 + lh_size_compressed l1
         in
         zip_then (xseekwrite w (ucast (out_index L) :: 'p word) (local_bytes l1) s) (\<lambda>_ s.
         zip_then (xseekwrite w (ucast at1 :: 'p word) filename s) (\<lambda>_ s.
         zip_then (if inflates then xdecompress w data (ucast at2) s
                   else xfilecopy w data (ucast at2) (unat (ch_size_compressed h)) s) (\<lambda>_ s.
         if out_directory_index L + central_size + len > length (directory_out L) then None
         else zip_ok
           \<lparr>directory_in = dir_in,
            in_index = i + central_size + len + unat (ch_length_extra h) + unat (ch_length_comment h),
            directory_out = take (out_directory_index L) (directory_out L) @ take (central_size + len) (drop i dir_in) @
              drop (out_directory_index L + central_size + len) (directory_out L),
            out_directory_index = out_directory_index L + central_size + len,
            out_index = at3\<rparr> s))))))"

partial_function (option) adjust_entries ::
    "'p::len itself \<Rightarrow> 'z zip_world \<Rightarrow> bool \<Rightarrow> zip_loop \<Rightarrow> zip_io \<Rightarrow> (bytes + zip_loop \<times> zip_io) option" where
  "adjust_entries p w decompress L s =
     (if in_index L + 4 > length (directory_in L) then None
      else if get32 (directory_in L) (in_index L) \<noteq> MAGIC_CENTRAL_HEADER then zip_ok L s
      else if in_index L + central_size > length (directory_in L) then None
      else Option.bind (adjust_entry p w decompress L s) (\<lambda>r.
        case r of Inl e \<Rightarrow> Some (Inl e) | Inr x \<Rightarrow> adjust_entries p w decompress (fst x) (snd x)))"

section \<open>The function\<close>

text \<open>What it returns, and the output file (\<open>None\<close> when it was not opened).\<close>

record zip_result =
  zip_returns :: int
  zip_file :: "bytes option"

definition find_directory :: "'p::len itself \<Rightarrow> 'z zip_world \<Rightarrow> u32 \<Rightarrow> zip_io \<Rightarrow> central_footer zip_step" where
  "find_directory p w file_size s =
     (let i = sint (file_size - 4) in
      if i < 0 then xerror s
      else zip_then (find_footer p w (nat i) s) (\<lambda>r s.
        case r of
          None \<Rightarrow> xerror s
        | Some footer \<Rightarrow> if cf_central_directory_offset footer = 0 then xerror s else zip_ok footer s))"

definition write_directory ::
    "'p::len itself \<Rightarrow> 'z zip_world \<Rightarrow> central_footer \<Rightarrow> zip_loop \<Rightarrow> zip_io \<Rightarrow> unit zip_step" where
  "write_directory p w footer L s =
     (let dir_size = of_nat (out_directory_index L) :: u32;
          footer1 = footer\<lparr>cf_central_directory_size := dir_size, cf_central_directory_offset := out_index L, cf_length_comment := 0\<rparr>
      in if unat dir_size > length (directory_out L) then None
         else zip_then (xseekwrite w (ucast (out_index L) :: 'p word) (take (unat dir_size) (directory_out L)) s) (\<lambda>_ s.
           xseekwrite w (ucast (out_index L + dir_size) :: 'p word) (footer_bytes footer1) s))"

definition zipadjust :: "'p::len itself \<Rightarrow> 'z zip_world \<Rightarrow> bool \<Rightarrow> zip_result option" where
  "zipadjust p w decompress =
     (if \<not> opens_fin w then Some \<lparr>zip_returns = 0, zip_file = None\<rparr>
      else
        (let file_size = ucast (of_nat (in_length w) :: 'p word) :: u32;
             found =
               zip_then (find_directory p w file_size \<lparr>in_pos = 0, out_pos = 0, out_data = []\<rparr>) (\<lambda>footer s.
                 let n = unat (file_size - cf_central_directory_offset footer) in
                 if \<not> fst (directory_alloc w) then None
                 else zip_then (xseekread w (ucast (cf_central_directory_offset footer) :: 'p word) n s) (\<lambda>dir s.
                   if \<not> snd (directory_alloc w) then None else zip_ok (footer, dir) s))
         in case found of
              None \<Rightarrow> None
            | Some (Inl _) \<Rightarrow> Some \<lparr>zip_returns = 0, zip_file = None\<rparr>
            | Some (Inr ((footer, dir), s)) \<Rightarrow>
                (case opens_fout w of
                   None \<Rightarrow> Some \<lparr>zip_returns = 0, zip_file = None\<rparr>
                 | Some old \<Rightarrow>
                     (let L = \<lparr>directory_in = dir, in_index = 0, directory_out = replicate (length dir) 0,
                               out_directory_index = 0, out_index = 0\<rparr>
                      in case zip_then (adjust_entries p w decompress L (s\<lparr>out_pos := 0, out_data := old\<rparr>)) (write_directory p w footer) of
                           None \<Rightarrow> None
                         | Some (Inl out) \<Rightarrow> Some \<lparr>zip_returns = 0, zip_file = Some out\<rparr>
                         | Some (Inr (_, s)) \<Rightarrow> Some \<lparr>zip_returns = 1, zip_file = Some (out_data s)\<rparr>))))"

section \<open>Reading back what is written\<close>

lemma length_le [simp]: "length (le16 a) = 2" "length (le32 b) = 4"
  by (simp_all add: le16_def le32_def)

lemma get16_le [simp]: "get16 (le16 w @ r) 0 = w"
proof (rule bit_word_eqI)
  fix n assume "n < LENGTH(16)"
  then show "bit (get16 (le16 w @ r) 0) n = bit w n"
    by (cases "n < 8") (auto simp: get16_def le16_def bit_simps)
qed

lemma get32_le [simp]: "get32 (le32 w @ r) 0 = w"
proof (rule bit_word_eqI)
  fix n assume n: "n < LENGTH(32)"
  consider "n < 8" | "8 \<le> n" "n < 16" | "16 \<le> n" "n < 24" | "24 \<le> n" by linarith
  then show "bit (get32 (le32 w @ r) 0) n = bit w n"
    using n by cases (auto simp: get32_def le32_def bit_simps)
qed

lemma get_skip [simp]:
  "length a \<le> i \<Longrightarrow> get16 (a @ b) i = get16 b (i - length a)"
  "length a \<le> i \<Longrightarrow> get32 (a @ b) i = get32 b (i - length a)"
  by (simp_all add: get16_def get32_def nth_append Suc_diff_le)

lemma get_exact [simp]: "get16 (le16 v) 0 = v" "get32 (le32 w) 0 = w"
  using get16_le [of v "[]"] get32_le [of w "[]"] by simp_all

lemma header_sizes [simp]:
  "length (local_bytes l) = local_size" "length (central_bytes h) = central_size" "length (footer_bytes f) = footer_size"
  by (simp_all add: local_bytes_def central_bytes_def footer_bytes_def local_size_def central_size_def footer_size_def)

lemma headers_read_back:
  "local_of (local_bytes l @ r) = l" "central_of (central_bytes h @ r) = h" "footer_of (footer_bytes f @ r) = f"
  by (simp_all add: local_of_def local_bytes_def central_of_def central_bytes_def footer_of_def footer_bytes_def)

section \<open>A world in which nothing fails\<close>

definition zip_works :: "'p::len itself \<Rightarrow> bytes \<Rightarrow> 'z zip_world \<Rightarrow> bool" where
  "zip_works p file w \<longleftrightarrow> opens_fin w \<and> in_length w = length file \<and> length file < 2 ^ 31 \<and> 32 \<le> LENGTH('p) \<and>
     (\<forall>i. in_seek w i) \<and> (\<forall>i n. in_read w i n = Some (take n (drop i file))) \<and>
     (\<forall>i. fout_seek w i) \<and> (\<forall>i bs. fout_write w i bs = Some (length bs)) \<and>
     directory_alloc w = (True, True) \<and> (\<forall>i. copy_alloc w i)"

lemma sint_not_negative:
  assumes "unat (x :: 'p::len word) < 2 ^ 31" "32 \<le> LENGTH('p)"
  shows "\<not> sint x < 0"
proof -
  have "(2::nat) ^ 31 \<le> 2 ^ (LENGTH('p) - Suc 0)" using assms(2) by (intro power_increasing) simp_all
  then have "unat x div 2 ^ (LENGTH('p) - Suc 0) = 0" using assms(1) by simp
  then have "\<not> bit (unat x) (LENGTH('p) - Suc 0)" by (simp only: bit_iff_odd) simp
  then show ?thesis by (simp only: bit_unsigned_iff bit_last_iff [symmetric]) simp
qed

lemma unat_ucast_wider:
  assumes "32 \<le> LENGTH('p)"
  shows "unat (ucast (x :: u32) :: 'p::len word) = unat x"
proof -
  have "unat x < 2 ^ 32" using unat_less_u32 [of x] by simp
  also have "(2::nat) ^ 32 \<le> 2 ^ LENGTH('p)" using assms by (intro power_increasing) simp_all
  finally have "unat x < 2 ^ LENGTH('p)" .
  then show ?thesis by (simp add: unsigned_ucast_eq take_bit_nat_eq_self)
qed

lemma seekread_works:
  assumes w: "zip_works TYPE('p::len) file w" and i: "unat (offset :: 'p word) = i" "i + n \<le> length file"
  shows "xseekread w offset n s = zip_ok (take n (drop i file)) (s\<lparr>in_pos := i + n\<rparr>)"
proof -
  have "\<not> sint offset < 0" by (rule sint_not_negative) (use w i in \<open>simp_all add: zip_works_def\<close>)
  then show ?thesis using w i by (simp add: xseekread_def seek_in_def zip_works_def)
qed

text \<open>The output so far is \<open>out\<close>, over whatever was in the file.\<close>

definition holds :: "bytes \<Rightarrow> bytes \<Rightarrow> zip_io \<Rightarrow> bool" where
  "holds old out s \<longleftrightarrow> out_data s = out @ drop (length out) old"

lemma write_fout_works:
  assumes w: "zip_works p file w" and s: "holds old out s" "out_pos s = length out"
  shows "\<exists>t. write_fout w bs s = zip_ok () t \<and> holds old (out @ bs) t \<and> out_pos t = length (out @ bs) \<and> in_pos t = in_pos s"
proof -
  have "write_at (out @ drop (length out) old) (length out) bs = (out @ bs) @ drop (length (out @ bs)) old"
    by (simp add: write_at_def add.commute)
  then show ?thesis
    using w s by (cases "bs = []") (simp_all add: write_fout_def zip_works_def holds_def Let_def)
qed

lemma seekwrite_works:
  assumes w: "zip_works TYPE('p::len) file w" and s: "holds old out s"
    and i: "unat (offset :: 'p word) = length out" "length out < 2 ^ 31"
  shows "\<exists>t. xseekwrite w offset bs s = zip_ok () t \<and> holds old (out @ bs) t"
proof -
  have n: "\<not> sint offset < 0" by (rule sint_not_negative) (use w i in \<open>simp_all add: zip_works_def\<close>)
  have h: "holds old out (s\<lparr>out_pos := length out\<rparr>)" using s by (simp add: holds_def)
  obtain t where "write_fout w bs (s\<lparr>out_pos := length out\<rparr>) = zip_ok () t" "holds old (out @ bs) t"
    using write_fout_works [OF w h, of bs] by auto
  then show ?thesis using n w i(1) by (simp add: xseekwrite_def seek_out_def zip_works_def)
qed

lemma copy_loop_works:
  assumes w: "zip_works p file w"
  shows "holds old out s \<Longrightarrow> out_pos s = length out \<Longrightarrow> in_pos s + n \<le> length file \<Longrightarrow>
    \<exists>t. copy_loop w n s = zip_ok () t \<and> holds old (out @ take n (drop (in_pos s) file)) t"
proof (induction n arbitrary: out s rule: less_induct)
  case (less n)
  show ?case
  proof (cases "n = 0")
    case True
    then show ?thesis using less.prems by (simp add: copy_loop.simps [of w 0])
  next
    case False
    define c where "c = min n COPY_CHUNK"
    let ?r = "take c (drop (in_pos s) file)" and ?s = "s\<lparr>in_pos := in_pos s + c\<rparr>"
    have c: "0 < c" "c \<le> n" using False by (simp_all add: c_def COPY_CHUNK_def)
    have r: "length ?r = c" using c(2) less.prems(3) by simp
    have r0: "?r \<noteq> []" using r c(1) by auto
    have rd: "in_read w (in_pos s) c = Some ?r" using w by (simp add: zip_works_def)
    have "holds old out ?s" "out_pos ?s = length out" using less.prems by (simp_all add: holds_def)
    from write_fout_works [OF w this, of ?r] obtain t where t: "write_fout w ?r ?s = zip_ok () t" "holds old (out @ ?r) t"
      "out_pos t = length (out @ ?r)" "in_pos t = in_pos s + c" by auto
    have step: "copy_loop w n s = copy_loop w (n - c) t"
      using False rd r r0 t(1) by (subst copy_loop.simps) (simp add: zip_ok_def flip: c_def)
    have "n - c < n" "in_pos t + (n - c) \<le> length file" using c less.prems(3) t(4) by simp_all
    from less.IH [OF this(1) t(2,3) this(2)] obtain u where u: "copy_loop w (n - c) t = zip_ok () u"
      "holds old ((out @ ?r) @ take (n - c) (drop (in_pos t) file)) u" by blast
    have "?r @ take (n - c) (drop (in_pos t) file) = take n (drop (in_pos s) file)"
    proof -
      have "take (c + (n - c)) (drop (in_pos s) file) = ?r @ take (n - c) (drop c (drop (in_pos s) file))" by (rule take_add)
      then show ?thesis using t(4) c(2) by (simp add: add.commute)
    qed
    then show ?thesis using step u by simp
  qed
qed

text \<open>Where both places are in range, the seeks of \<^verbatim>\<open>xfilecopy\<close> and \<^verbatim>\<open>xdecompress\<close> succeed.\<close>

lemma both_seeks:
  assumes w: "zip_works TYPE('p::len) file w" and s: "holds old out s"
    and i: "unat (src_at :: 'p word) \<le> length file" and g: "unat (to :: 'p word) = length out" "length out < 2 ^ 31"
  defines "s' \<equiv> s\<lparr>in_pos := unat src_at, out_pos := length out\<rparr>"
  shows "zip_then (maybe_seek_in w src_at s) (\<lambda>_ s. zip_then (maybe_seek_out w to s) (\<lambda>_ s. k s)) = k s'"
    and "holds old out s'" "out_pos s' = length out" "in_pos s' = unat src_at"
proof -
  have p: "32 \<le> LENGTH('p)" "length file < 2 ^ 31" using w by (simp_all add: zip_works_def)
  have n: "\<not> sint src_at < 0" "\<not> sint to < 0" using sint_not_negative [of src_at] sint_not_negative [of to] p i g by simp_all
  have m: "src_at \<noteq> - 1" "to \<noteq> - 1" using n by auto
  show "zip_then (maybe_seek_in w src_at s) (\<lambda>_ s. zip_then (maybe_seek_out w to s) (\<lambda>_ s. k s)) = k s'"
    using n m w g(1) by (simp add: maybe_seek_in_def maybe_seek_out_def seek_in_def seek_out_def zip_works_def s'_def)
  show "holds old out s'" "out_pos s' = length out" "in_pos s' = unat src_at" using s by (simp_all add: holds_def s'_def)
qed

lemma filecopy_works:
  assumes w: "zip_works TYPE('p::len) file w" and s: "holds old out s"
    and i: "unat (src_at :: 'p word) + n \<le> length file" and g: "unat (to :: 'p word) = length out" "length out < 2 ^ 31"
  shows "\<exists>t. xfilecopy w src_at to n s = zip_ok () t \<and> holds old (out @ take n (drop (unat src_at) file)) t"
proof -
  have "unat src_at \<le> length file" using i by simp
  note k = both_seeks [OF w s this g]
  have w': "\<And>i. copy_alloc w i" using w by (simp add: zip_works_def)
  from copy_loop_works [OF w k(2,3), of n] i w' show ?thesis unfolding xfilecopy_def k(1) k(4) by simp
qed

section \<open>Inflating\<close>

text \<open>
  What \<^verbatim>\<open>xdecompress\<close> relies on in zlib, for one stream: \<open>pending z = Some (c, rest)\<close> when in state \<open>z\<close> the
  bytes \<open>c\<close> of the stream are still to be read and \<open>rest\<close> is still to be written. Given a beginning of \<open>c\<close>,
  or \<open>c\<close> and whatever follows it in the file, \<^verbatim>\<open>inflate\<close> consumes some of it and writes some of \<open>rest\<close>; it
  reports the end only when nothing is left, and otherwise stops early only for want of room.
\<close>

definition zlib_contract :: "('z \<Rightarrow> bytes \<Rightarrow> nat \<Rightarrow> zlib_ret \<times> bytes \<times> bytes \<times> 'z) \<Rightarrow> ('z \<Rightarrow> (bytes \<times> bytes) option) \<Rightarrow> bool" where
  "zlib_contract infl pending \<longleftrightarrow>
     (\<forall>z c rest inp ret left out z'. pending z = Some (c, rest) \<longrightarrow> (\<exists>k. inp = take k c \<or> take k inp = c) \<longrightarrow>
        infl z inp COPY_CHUNK = (ret, left, out, z') \<longrightarrow>
        (\<exists>used c' rest'. inp = used @ left \<and> c = used @ c' \<and> rest = out @ rest' \<and> length out \<le> COPY_CHUNK \<and>
           pending z' = Some (c', rest') \<and>
           (if ret = Z_STREAM_END then c' = [] \<and> rest' = []
            else ret \<in> {Z_OK, Z_BUF_ERROR} \<and> (length out < COPY_CHUNK \<longrightarrow> left = [] \<and> c' \<noteq> []))))"

text \<open>The file from here on begins with a stream whose inflated form is \<open>out\<close>.\<close>

definition zlib_inflates :: "'z zip_world \<Rightarrow> bytes \<Rightarrow> bytes \<Rightarrow> bool" where
  "zlib_inflates w inp out \<longleftrightarrow>
     (\<exists>pending z c rest. zlib_contract (inflate w) pending \<and> inflate_init w = (Z_OK, z) \<and> pending z = Some (c, out) \<and>
        c \<noteq> [] \<and> inp = c @ rest)"

lemma take_beyond:
  assumes "used @ left = take k (used @ rest)"
  shows "left = take (k - length used) rest"
proof (cases "length used \<le> k")
  case True
  then have "take k (used @ rest) = used @ take (k - length used) rest" by simp
  then have "used @ left = used @ take (k - length used) rest" using assms by (rule trans [rotated])
  then show ?thesis by (rule append_eq_append_conv [THEN iffD1, THEN conjunct2, rotated]) simp
next
  case False
  have "length (used @ left) \<le> k" unfolding assms by simp
  then show ?thesis using False by simp
qed

lemma chunk_left:
  assumes "used @ left = take k (used @ rest) \<or> take k (used @ left) = used @ rest"
  shows "left = take (k - length used) rest \<or> take (k - length used) left = rest"
  using assms
proof
  assume "used @ left = take k (used @ rest)"
  from take_beyond [OF this] show ?thesis by (rule disjI1)
next
  assume "take k (used @ left) = used @ rest"
  from take_beyond [OF this [symmetric]] show ?thesis by (rule disjI2 [OF sym])
qed

lemma inflate_loop_works:
  assumes w: "zip_works p file w" and con: "zlib_contract (inflate w) pending"
  shows "pending z = Some (c, rest) \<Longrightarrow> \<exists>k. inp = take k c \<or> take k inp = c \<Longrightarrow> holds old out s \<Longrightarrow> out_pos s = length out \<Longrightarrow>
    \<exists>ret z' t o1 rest' c'. inflate_loop w z inp s = zip_ok (ret, z') t \<and> rest = o1 @ rest' \<and> holds old (out @ o1) t \<and>
      out_pos t = length (out @ o1) \<and> in_pos t = in_pos s \<and> pending z' = Some (c', rest') \<and>
      (if ret = Z_STREAM_END then rest' = [] else c = inp @ c' \<and> c' \<noteq> [])"
proof (induction "length rest" arbitrary: z c rest inp out s rule: less_induct)
  case less
  obtain ret left o1 z1 where r: "inflate w z inp COPY_CHUNK = (ret, left, o1, z1)" by (cases "inflate w z inp COPY_CHUNK") auto
  from con [unfolded zlib_contract_def, rule_format, OF less.prems(1,2) r]
  obtain used c1 rest1 where u: "inp = used @ left" "c = used @ c1" "rest = o1 @ rest1" "length o1 \<le> COPY_CHUNK"
    "pending z1 = Some (c1, rest1)" "if ret = Z_STREAM_END then c1 = [] \<and> rest1 = []
            else ret \<in> {Z_OK, Z_BUF_ERROR} \<and> (length o1 < COPY_CHUNK \<longrightarrow> left = [] \<and> c1 \<noteq> [])"
    by (elim exE conjE) (rule that)
  have ok: "ret \<notin> {Z_STREAM_ERROR, Z_NEED_DICT, Z_DATA_ERROR, Z_MEM_ERROR}" using u(6) by (auto split: if_splits)
  obtain t where t: "write_fout w o1 s = zip_ok () t" "holds old (out @ o1) t" "out_pos t = length (out @ o1)" "in_pos t = in_pos s"
    using write_fout_works [OF w less.prems(3,4)] by blast
  have step: "inflate_loop w z inp s = (if length o1 = COPY_CHUNK then inflate_loop w z1 left t else zip_ok (ret, z1) t)"
    using ok by (subst inflate_loop.simps) (simp add: r t(1) zip_ok_def)
  show ?case
  proof (cases "length o1 = COPY_CHUNK")
    case True
    have "\<exists>k. left = take k c1 \<or> take k left = c1"
    proof -
      obtain k where "inp = take k c \<or> take k inp = c" using less.prems(2) by blast
      then have "used @ left = take k (used @ c1) \<or> take k (used @ left) = used @ c1" using u(1,2) by simp
      then have "left = take (k - length used) c1 \<or> take (k - length used) left = c1" by (rule chunk_left)
      then show ?thesis by blast
    qed
    note pre = this
    have sh: "length rest1 < length rest" using u(3) True by (simp add: COPY_CHUNK_def)
    obtain ret' z' v o2 rest' c' where v: "inflate_loop w z1 left t = zip_ok (ret', z') v" "rest1 = o2 @ rest'"
      "holds old ((out @ o1) @ o2) v" "out_pos v = length ((out @ o1) @ o2)" "in_pos v = in_pos t" "pending z' = Some (c', rest')"
      "if ret' = Z_STREAM_END then rest' = [] else c1 = left @ c' \<and> c' \<noteq> []"
      using less.hyps [OF sh u(5) pre t(2,3)] by (elim exE conjE) (rule that)
    have "inflate_loop w z inp s = zip_ok (ret', z') v \<and> rest = (o1 @ o2) @ rest' \<and> holds old (out @ (o1 @ o2)) v \<and>
      out_pos v = length (out @ (o1 @ o2)) \<and> in_pos v = in_pos s \<and> pending z' = Some (c', rest') \<and>
      (if ret' = Z_STREAM_END then rest' = [] else c = inp @ c' \<and> c' \<noteq> [])"
      using True step v t(4) u(1,2,3) by simp
    then show ?thesis by blast
  next
    case False
    then have "inflate_loop w z inp s = zip_ok (ret, z1) t \<and> rest = o1 @ rest1 \<and> holds old (out @ o1) t \<and>
      out_pos t = length (out @ o1) \<and> in_pos t = in_pos s \<and> pending z1 = Some (c1, rest1) \<and>
      (if ret = Z_STREAM_END then rest1 = [] else c = inp @ c1 \<and> c1 \<noteq> [])"
      using step t u by (auto split: if_splits)
    then show ?thesis by blast
  qed
qed

lemma decompress_loop_works:
  assumes w: "zip_works p file w" and con: "zlib_contract (inflate w) pending"
  shows "pending z = Some (c, rest) \<Longrightarrow> c \<noteq> [] \<Longrightarrow> drop (in_pos s) file = c @ after \<Longrightarrow> holds old out s \<Longrightarrow> out_pos s = length out \<Longrightarrow>
    \<exists>t. decompress_loop w ret z s = zip_ok Z_STREAM_END t \<and> holds old (out @ rest) t"
proof (induction "length c" arbitrary: z c rest ret out s rule: less_induct)
  case less
  let ?inp = "take COPY_CHUNK (drop (in_pos s) file)" and ?s = "s\<lparr>in_pos := in_pos s + length (take COPY_CHUNK (drop (in_pos s) file))\<rparr>"
  have rd: "in_read w (in_pos s) COPY_CHUNK = Some ?inp" using w by (simp add: zip_works_def)
  have ne: "?inp \<noteq> []" using less.prems(2,3) by (simp add: COPY_CHUNK_def)
  have pre: "\<exists>k. ?inp = take k c \<or> take k ?inp = c"
  proof (cases "COPY_CHUNK \<le> length c")
    case True
    then have "?inp = take COPY_CHUNK c" using less.prems(3) by simp
    then show ?thesis by blast
  next
    case False
    then have "take (length c) ?inp = c" using less.prems(3) by (simp add: min_def)
    then show ?thesis by blast
  qed
  have h: "holds old out ?s" "out_pos ?s = length out" using less.prems by (simp_all add: holds_def)
  from inflate_loop_works [OF w con less.prems(1) pre h] obtain ret' z' t o1 rest' c' where
    t: "inflate_loop w z ?inp ?s = zip_ok (ret', z') t" "rest = o1 @ rest'" "holds old (out @ o1) t"
      "out_pos t = length (out @ o1)" "in_pos t = in_pos ?s" "pending z' = Some (c', rest')"
      "if ret' = Z_STREAM_END then rest' = [] else c = ?inp @ c' \<and> c' \<noteq> []"
    by (elim exE conjE) (rule that)
  have step: "decompress_loop w ret z s = (if ret' = Z_STREAM_END then zip_ok Z_STREAM_END t else decompress_loop w ret' z' t)"
    using rd ne t(1) by (subst decompress_loop.simps) (simp add: zip_ok_def)
  show ?case
  proof (cases "ret' = Z_STREAM_END")
    case True
    then show ?thesis using step t(2,3,7) by simp
  next
    case False
    then have c: "c = ?inp @ c'" "c' \<noteq> []" using t(7) by simp_all
    have "length c' < length c" using c(1) ne by (metis length_append length_greater_0_conv less_add_same_cancel2)
    moreover have "drop (in_pos t) file = c' @ after"
    proof -
      define i where "i = ?inp"
      have "drop (in_pos t) file = drop (length i) (drop (in_pos s) file)" using t(5) by (simp add: add.commute i_def)
      also have "\<dots> = drop (length i) ((i @ c') @ after)" using less.prems(3) c(1) [folded i_def] by simp
      finally show ?thesis by simp
    qed
    ultimately show ?thesis using less.hyps [OF _ t(6) c(2) _ t(3,4)] step False t(2) by simp
  qed
qed

lemma decompress_works:
  assumes w: "zip_works TYPE('p::len) file w" and s: "holds old out s"
    and i: "unat (src_at :: 'p word) \<le> length file" and g: "unat (to :: 'p word) = length out" "length out < 2 ^ 31"
    and inf: "zlib_inflates w (drop (unat src_at) file) data"
  shows "\<exists>t. xdecompress w src_at to s = zip_ok () t \<and> holds old (out @ data) t"
proof -
  note k = both_seeks [OF w s i g]
  obtain pending z c rest where z: "zlib_contract (inflate w) pending" "inflate_init w = (Z_OK, z)" "pending z = Some (c, data)"
    "c \<noteq> []" "drop (unat src_at) file = c @ rest"
    using inf by (auto simp: zlib_inflates_def)
  have "drop (in_pos (s\<lparr>in_pos := unat src_at, out_pos := length out\<rparr>)) file = c @ rest" using z(5) by simp
  from decompress_loop_works [OF w z(1,3,4) this k(2,3), of Z_OK] show ?thesis
    unfolding xdecompress_def k(1) z(2) by auto
qed

section \<open>What an entry becomes\<close>

record zip_entry =
  ze_central :: central_header
  ze_local :: local_header
  ze_name :: bytes
  ze_extra :: bytes
  ze_comment :: bytes
  ze_data :: bytes

definition entry_bytes :: "zip_entry \<Rightarrow> bytes" where
  "entry_bytes e = central_bytes (ze_central e) @ ze_name e @ ze_extra e @ ze_comment e"

text \<open>Where its data starts in the input: the extra field of the local header is taken to be as long as that of
  the directory.\<close>

definition data_at :: "zip_entry \<Rightarrow> nat" where
  "data_at e = unat (ch_offset (ze_central e)) + local_size + length (ze_name e) + length (ze_extra e)"

text \<open>\<open>ze_data\<close> is what the entry holds in the output: its data, inflated where the code inflates it.\<close>

definition inflates :: "bool \<Rightarrow> zip_entry \<Rightarrow> bool" where
  "inflates decompress e \<longleftrightarrow> decompress \<and> ch_compression_method (ze_central e) = 8"

definition data_ok :: "'z zip_world \<Rightarrow> bytes \<Rightarrow> bool \<Rightarrow> zip_entry \<Rightarrow> bool" where
  "data_ok w file decompress e =
     (if inflates decompress e
      then zlib_inflates w (drop (data_at e) file) (ze_data e) \<and> length (ze_data e) = unat (ch_size_uncompressed (ze_central e))
      else data_at e + unat (ch_size_compressed (ze_central e)) \<le> length file \<and>
           ze_data e = take (unat (ch_size_compressed (ze_central e))) (drop (data_at e) file))"

definition entry_ok :: "'z zip_world \<Rightarrow> bytes \<Rightarrow> bool \<Rightarrow> zip_entry \<Rightarrow> bool" where
  "entry_ok w file decompress e \<longleftrightarrow> ch_signature (ze_central e) = MAGIC_CENTRAL_HEADER \<and>
     length (ze_name e) = unat (ch_length_filename (ze_central e)) \<and> length (ze_name e) < 1024 \<and>
     length (ze_extra e) = unat (ch_length_extra (ze_central e)) \<and>
     length (ze_comment e) = unat (ch_length_comment (ze_central e)) \<and>
     data_at e \<le> length file \<and> data_ok w file decompress e"

definition entry_head :: "bool \<Rightarrow> nat \<Rightarrow> zip_entry \<Rightarrow> central_header" where
  "entry_head d n e = adjust_central d (of_nat n) (ze_central e)"

definition entry_part :: "bool \<Rightarrow> bytes \<Rightarrow> nat \<Rightarrow> zip_entry \<Rightarrow> bytes" where
  "entry_part d file n e =
     local_bytes (adjust_local (entry_head d n e) (local_of (take local_size (drop (unat (ch_offset (ze_central e))) file)))) @
     ze_name e @ ze_data e"

text \<open>The parts of all entries from place \<open>n\<close> on, and the directory for them.\<close>

fun zip_parts :: "bool \<Rightarrow> bytes \<Rightarrow> nat \<Rightarrow> zip_entry list \<Rightarrow> bytes" where
  "zip_parts d file n [] = []"
| "zip_parts d file n (e # es) = entry_part d file n e @ zip_parts d file (n + length (entry_part d file n e)) es"

fun zip_directory :: "bool \<Rightarrow> bytes \<Rightarrow> nat \<Rightarrow> zip_entry list \<Rightarrow> bytes" where
  "zip_directory d file n [] = []"
| "zip_directory d file n (e # es) =
     central_bytes (entry_head d n e) @ ze_name e @ zip_directory d file (n + length (entry_part d file n e)) es"

lemma entry_head_fields [simp]:
  "ch_length_filename (entry_head d n e) = ch_length_filename (ze_central e)"
  "ch_signature (entry_head d n e) = ch_signature (ze_central e)"
  "ch_flags (entry_head d n e) = 0" "ch_length_extra (entry_head d n e) = 0" "ch_length_comment (entry_head d n e) = 0"
  "ch_offset (entry_head d n e) = of_nat n"
  by (simp_all add: entry_head_def adjust_central_def Let_def)

lemma entry_data_length:
  assumes "entry_ok w file d e"
  shows "unat (ch_size_compressed (entry_head d n e)) = length (ze_data e)"
proof (cases "inflates d e")
  case True
  then show ?thesis
    using assms by (auto simp: entry_ok_def data_ok_def inflates_def entry_head_def adjust_central_def Let_def)
next
  case False
  have "data_at e + unat (ch_size_compressed (ze_central e)) \<le> length file" using assms False by (simp add: entry_ok_def data_ok_def)
  then have "unat (ch_size_compressed (ze_central e)) \<le> length file - data_at e" by arith
  then show ?thesis
    using assms False by (auto simp: entry_ok_def data_ok_def inflates_def entry_head_def adjust_central_def Let_def min_absorb2)
qed

lemma entry_part_length: "length (entry_part d file n e) = local_size + length (ze_name e) + length (ze_data e)"
  by (simp add: entry_part_def)

lemma unat_add_wide:
  assumes "unat (a :: 'p::len word) + unat b < 2 ^ 31" "32 \<le> LENGTH('p)"
  shows "unat (a + b) = unat a + unat b"
proof -
  have "(2::nat) ^ 31 \<le> 2 ^ LENGTH('p)" using assms(2) by (intro power_increasing) simp_all
  then have "unat a + unat b < 2 ^ LENGTH('p)" using assms(1) by simp
  then show ?thesis by (simp add: unat_word_ariths)
qed

lemma unat_ucast_u16_wide:
  assumes "32 \<le> LENGTH('p)"
  shows "unat (ucast (x :: u16) :: 'p::len word) = unat x"
proof -
  have "unat x < 2 ^ 16" using unsigned_less [of x] by simp
  also have "(2::nat) ^ 16 \<le> 2 ^ LENGTH('p)" using assms by (intro power_increasing) simp_all
  finally have "unat x < 2 ^ LENGTH('p)" .
  then show ?thesis by (simp add: unsigned_ucast_eq take_bit_nat_eq_self)
qed

lemma unat_local_size:
  assumes "32 \<le> LENGTH('p)"
  shows "unat (of_nat local_size :: 'p::len word) = local_size"
proof -
  have "local_size < 2 ^ 32" by (simp add: local_size_def)
  also have "(2::nat) ^ 32 \<le> 2 ^ LENGTH('p)" using assms by (intro power_increasing) simp_all
  finally show ?thesis by (simp add: unsigned_of_nat take_bit_nat_eq_self)
qed

lemma data_offset:
  assumes "entry_ok w file decompress e" "32 \<le> LENGTH('p)" "length file < 2 ^ 31"
  shows "unat (ucast (ch_offset (ze_central e)) + of_nat local_size + ucast (ch_length_filename (ze_central e)) +
    ucast (ch_length_extra (ze_central e)) :: 'p::len word) = data_at e"
proof -
  let ?a = "ucast (ch_offset (ze_central e)) :: 'p word" and ?b = "of_nat local_size :: 'p word"
  let ?c = "ucast (ch_length_filename (ze_central e)) :: 'p word" and ?d = "ucast (ch_length_extra (ze_central e)) :: 'p word"
  have u: "unat ?a = unat (ch_offset (ze_central e))" "unat ?b = local_size" "unat ?c = length (ze_name e)"
    "unat ?d = length (ze_extra e)"
    using assms unat_ucast_wider [OF assms(2)] unat_local_size [OF assms(2)] unat_ucast_u16_wide [OF assms(2)]
    by (simp_all add: entry_ok_def)
  have lt: "data_at e < 2 ^ 31" using assms by (simp add: entry_ok_def)
  have 1: "unat (?a + ?b) = unat ?a + unat ?b"
    by (rule unat_add_wide [OF _ assms(2)]) (use lt u in \<open>simp add: data_at_def\<close>)
  have 2: "unat (?a + ?b + ?c) = unat ?a + unat ?b + unat ?c"
    using unat_add_wide [OF _ assms(2), of "?a + ?b" ?c] lt u 1 by (simp add: data_at_def)
  have "unat (?a + ?b + ?c + ?d) = unat ?a + unat ?b + unat ?c + unat ?d"
    using unat_add_wide [OF _ assms(2), of "?a + ?b + ?c" ?d] lt u 2 by (simp add: data_at_def)
  then show ?thesis using u by (simp add: data_at_def)
qed

text \<open>The state of the loop: what is written, and what is left of the directory.\<close>

definition loop_at :: "bytes \<Rightarrow> bytes \<Rightarrow> bytes \<Rightarrow> bytes \<Rightarrow> zip_loop \<Rightarrow> bool" where
  "loop_at out dir left tail L \<longleftrightarrow> in_index L \<le> length (directory_in L) \<and> drop (in_index L) (directory_in L) = left @ tail \<and>
     unat (out_index L) = length out \<and> out_directory_index L = length dir \<and>
     take (length dir) (directory_out L) = dir \<and> length dir + length left + length tail \<le> length (directory_out L)"

lemma loop_at_entry:
  assumes L: "loop_at out dir (entry_bytes e @ left) tail L" and e: "entry_ok w file decompress e"
  shows "central_of (drop (in_index L) (directory_in L)) = ze_central e"
    and "take (length (ze_name e)) (drop (in_index L + central_size) (directory_in L)) = ze_name e"
    and "in_index L + central_size + length (ze_name e) + length (ze_extra e) + length (ze_comment e) + length left + length tail =
      length (directory_in L)"
    and "drop (in_index L + central_size) (directory_in L) = ze_name e @ ze_extra e @ ze_comment e @ left @ tail"
proof -
  have d: "drop (in_index L) (directory_in L) = central_bytes (ze_central e) @ ze_name e @ ze_extra e @ ze_comment e @ left @ tail"
    and i: "in_index L \<le> length (directory_in L)"
    using L by (simp_all add: loop_at_def entry_bytes_def)
  show "central_of (drop (in_index L) (directory_in L)) = ze_central e" unfolding d by (rule headers_read_back)
  have "drop central_size (drop (in_index L) (directory_in L)) = ze_name e @ ze_extra e @ ze_comment e @ left @ tail"
    unfolding d by simp
  then show d2: "drop (in_index L + central_size) (directory_in L) = ze_name e @ ze_extra e @ ze_comment e @ left @ tail"
    by (simp add: add.commute)
  show "take (length (ze_name e)) (drop (in_index L + central_size) (directory_in L)) = ze_name e" unfolding d2 by simp
  have "length (directory_in L) = in_index L + length (drop (in_index L) (directory_in L))" using i by simp
  then show "in_index L + central_size + length (ze_name e) + length (ze_extra e) + length (ze_comment e) + length left + length tail =
      length (directory_in L)" unfolding d by simp
qed

lemma adjust_entry_works:
  fixes p :: "'p::len itself"
  assumes w: "zip_works p file w" and e: "entry_ok w file decompress e"
    and L: "loop_at out dir (entry_bytes e @ left) tail L" and s: "holds old out s"
    and total: "length out + length (entry_part decompress file (length out) e) < 2 ^ 31"
  defines "part \<equiv> entry_part decompress file (length out) e"
  shows "\<exists>L' t. adjust_entry p w decompress L s = zip_ok L' t \<and>
    loop_at (out @ part) (dir @ central_bytes (entry_head decompress (length out) e) @ ze_name e) left tail L' \<and> holds old (out @ part) t"
proof -
  let ?h = "ze_central e" and ?len = "length (ze_name e)" and ?i = "in_index L"
  let ?h1 = "entry_head decompress (length out) e" and ?size = "length (ze_data e)"
  let ?lb = "take local_size (drop (unat (ch_offset ?h)) file)"
  let ?l1 = "adjust_local ?h1 (local_of ?lb)"
  have p: "32 \<le> LENGTH('p)" "length file < 2 ^ 31" using w by (simp_all add: zip_works_def)
  have n: "?len = unat (ch_length_filename ?h)" "?len < 1024" "length (ze_extra e) = unat (ch_length_extra ?h)"
    "length (ze_comment e) = unat (ch_length_comment ?h)" "data_at e \<le> length file"
    using e by (simp_all add: entry_ok_def)
  note at = loop_at_entry [OF L e]
  have o: "unat (out_index L) = length out" using L by (simp add: loop_at_def)
  have oi: "out_index L = of_nat (length out)" by (simp flip: o)
  have pl: "length part = local_size + ?len + ?size" unfolding part_def by (rule entry_part_length)
  have tot: "length out + local_size + ?len + ?size < 2 ^ 31" using total pl by (simp add: part_def)
  have h1: "adjust_central decompress (out_index L) ?h = ?h1"
    by (simp only: entry_head_def oi)
  let ?at1 = "out_index L + of_nat local_size :: u32"
  let ?at2 = "?at1 + ucast (ch_length_filename ?h)"
  let ?at3 = "?at2 + ch_size_compressed ?h1"
  have a1: "unat ?at1 = length out + local_size"
    using tot o unat_local_size [where 'p = 32] by (subst unat_add_wide) simp_all
  have a2: "unat ?at2 = length out + local_size + ?len"
    using tot a1 n(1) unat_ucast_u16_wide [of "ch_length_filename ?h", where 'p = 32] by (subst unat_add_wide) simp_all
  have a3: "unat ?at3 = length (out @ part)"
    using tot a2 pl entry_data_length [OF e] by (subst unat_add_wide) simp_all
  have lsz: "lh_size_compressed ?l1 = ch_size_compressed ?h1" by (simp add: adjust_local_def)
  have w': "zip_works TYPE('p) file w" using w by (simp add: zip_works_def)
  have "xseekread w (ucast (ch_offset ?h) :: 'p word) local_size s = zip_ok ?lb (s\<lparr>in_pos := unat (ch_offset ?h) + local_size\<rparr>)"
    by (rule seekread_works [OF w']) (use n(5) unat_ucast_wider [OF p(1)] in \<open>simp_all add: data_at_def zip_works_def\<close>)
  then obtain s0 where s0: "xseekread w (ucast (ch_offset ?h) :: 'p word) local_size s = zip_ok ?lb s0" "holds old out s0"
    using s by (simp add: holds_def)
  obtain s1 where s1: "xseekwrite w (ucast (out_index L) :: 'p word) (local_bytes ?l1) s0 = zip_ok () s1"
    "holds old (out @ local_bytes ?l1) s1"
    using seekwrite_works [OF w' s0(2), of "ucast (out_index L)" "local_bytes ?l1"] unat_ucast_wider [OF p(1)] o tot by auto
  obtain s2 where s2: "xseekwrite w (ucast ?at1 :: 'p word) (ze_name e) s1 = zip_ok () s2"
    "holds old ((out @ local_bytes ?l1) @ ze_name e) s2"
    using seekwrite_works [OF w' s1(2), of "ucast ?at1" "ze_name e"] unat_ucast_wider [OF p(1)] a1 tot by auto
  let ?data = "ucast (ch_offset ?h) + of_nat local_size + ucast (ch_length_filename ?h) + ucast (ch_length_extra ?h) :: 'p word"
  have da: "unat ?data = data_at e" by (rule data_offset [OF e p])
  let ?copy = "if decompress \<and> ch_compression_method ?h = 8 then xdecompress w ?data (ucast ?at2) s2
    else xfilecopy w ?data (ucast ?at2) (unat (ch_size_compressed ?h)) s2"
  obtain s3 where s3: "?copy = zip_ok () s3" "holds old (((out @ local_bytes ?l1) @ ze_name e) @ ze_data e) s3"
  proof -
    have at2: "unat (ucast ?at2 :: 'p word) = length ((out @ local_bytes ?l1) @ ze_name e)"
      "length ((out @ local_bytes ?l1) @ ze_name e) < 2 ^ 31"
      using a2 unat_ucast_wider [OF p(1)] tot by simp_all
    have d: "data_ok w file decompress e" using e by (simp add: entry_ok_def)
    show thesis
    proof (cases "inflates decompress e")
      case True
      then have "zlib_inflates w (drop (unat ?data) file) (ze_data e)" using d da by (simp add: data_ok_def)
      from decompress_works [OF w' s2(2) _ at2 this] show thesis using that da n(5) True by (auto simp: inflates_def)
    next
      case False
      then have "data_at e + unat (ch_size_compressed ?h) \<le> length file"
        "ze_data e = take (unat (ch_size_compressed ?h)) (drop (unat ?data) file)" using d da by (simp_all add: data_ok_def)
      then show thesis using filecopy_works [OF w' s2(2) _ at2, of ?data "unat (ch_size_compressed ?h)"] that da False
        by (auto simp: inflates_def)
    qed
  qed
  have part: "((out @ local_bytes ?l1) @ ze_name e) @ ze_data e = out @ part"
    unfolding part_def entry_part_def by simp
  let ?dir_in = "take ?i (directory_in L) @ central_bytes ?h1 @ drop (?i + central_size) (directory_in L)"
  let ?L = "\<lparr>directory_in = ?dir_in,
            in_index = ?i + central_size + ?len + unat (ch_length_extra ?h) + unat (ch_length_comment ?h),
            directory_out = take (out_directory_index L) (directory_out L) @ take (central_size + ?len) (drop ?i ?dir_in) @
              drop (out_directory_index L + central_size + ?len) (directory_out L),
            out_directory_index = out_directory_index L + central_size + ?len,
            out_index = ?at3\<rparr>"
  have room: "out_directory_index L + central_size + ?len \<le> length (directory_out L)"
    using L by (simp add: loop_at_def entry_bytes_def)
  have "adjust_entry p w decompress L s = zip_ok ?L s3"
    unfolding adjust_entry_def Let_def at(1) n(1) [symmetric] at(2) s0(1) zip_then_simps h1 s1(1) s2(1) s3(1) lsz
    using at(3) n(2) room by simp
  moreover have "loop_at (out @ part) (dir @ central_bytes ?h1 @ ze_name e) left tail ?L"
  proof -
    have i: "?i \<le> length (directory_in L)" using L by (simp add: loop_at_def)
    have d: "drop ?i ?dir_in = central_bytes ?h1 @ ze_name e @ ze_extra e @ ze_comment e @ left @ tail"
      unfolding at(4) using i by simp
    have tk: "take (central_size + ?len) (drop ?i ?dir_in) = central_bytes ?h1 @ ze_name e" unfolding d by simp
    have od: "out_directory_index L = length dir" "take (length dir) (directory_out L) = dir" "length dir \<le> length (directory_out L)"
      "length dir + length (entry_bytes e @ left) + length tail \<le> length (directory_out L)"
      using L by (auto simp: loop_at_def)
    have 1: "drop (?i + central_size + ?len + unat (ch_length_extra ?h) + unat (ch_length_comment ?h)) ?dir_in = left @ tail"
    proof -
      have "drop (central_size + ?len + length (ze_extra e) + length (ze_comment e)) (drop ?i ?dir_in) = left @ tail" unfolding d by simp
      then show ?thesis by (simp only: drop_drop n(3,4) ac_simps)
    qed
    have 2: "length ?dir_in = length (directory_in L)" using i at(3) by simp
    show ?thesis
      unfolding loop_at_def
      using 1 2 at(3) n(3,4) a3 tk od by (simp add: entry_bytes_def)
  qed
  ultimately show ?thesis using s3(2) unfolding part by blast
qed

section \<open>All entries\<close>

lemma get32_drop: "i \<le> length b \<Longrightarrow> get32 b i = get32 (drop i b) 0"
  by (simp add: get32_def)

lemma adjust_entries_works:
  fixes p :: "'p::len itself"
  assumes w: "zip_works p file w" and tail: "4 \<le> length tail" "get32 tail 0 \<noteq> MAGIC_CENTRAL_HEADER"
  shows "\<forall>e \<in> set es. entry_ok w file decompress e \<Longrightarrow> loop_at out dir (concat (map entry_bytes es)) tail L \<Longrightarrow>
    holds old out s \<Longrightarrow> length out + length (zip_parts decompress file (length out) es) < 2 ^ 31 \<Longrightarrow>
    \<exists>L' t. adjust_entries p w decompress L s = zip_ok L' t \<and>
      loop_at (out @ zip_parts decompress file (length out) es) (dir @ zip_directory decompress file (length out) es) [] tail L' \<and>
      holds old (out @ zip_parts decompress file (length out) es) t"
proof (induction es arbitrary: out dir L s)
  case Nil
  have i: "in_index L \<le> length (directory_in L)" "drop (in_index L) (directory_in L) = tail"
    using Nil.prems(2) by (simp_all add: loop_at_def)
  have "length (drop (in_index L) (directory_in L)) \<ge> 4" using i(2) tail(1) by simp
  then have "in_index L + 4 \<le> length (directory_in L)" by simp
  moreover have "get32 (directory_in L) (in_index L) \<noteq> MAGIC_CENTRAL_HEADER" using get32_drop [OF i(1)] i(2) tail(2) by simp
  ultimately have "adjust_entries p w decompress L s = zip_ok L s" by (subst adjust_entries.simps) simp
  then show ?case using Nil.prems by simp
next
  case (Cons e es)
  let ?part = "entry_part decompress file (length out) e"
  have e: "entry_ok w file decompress e" using Cons.prems(1) by simp
  have L: "loop_at out dir (entry_bytes e @ concat (map entry_bytes es)) tail L" using Cons.prems(2) by simp
  have "length out + length ?part < 2 ^ 31" using Cons.prems(4) by simp
  from adjust_entry_works [OF w e L Cons.prems(3) this] obtain L1 s1 where
    s1: "adjust_entry p w decompress L s = zip_ok L1 s1" "loop_at (out @ ?part) (dir @ central_bytes (entry_head decompress (length out) e) @ ze_name e)
      (concat (map entry_bytes es)) tail L1" "holds old (out @ ?part) s1" by blast
  have i: "in_index L \<le> length (directory_in L)" "drop (in_index L) (directory_in L) = central_bytes (ze_central e) @ ze_name e @
      ze_extra e @ ze_comment e @ concat (map entry_bytes es) @ tail"
    using L by (simp_all add: loop_at_def entry_bytes_def)
  have "get32 (directory_in L) (in_index L) = get32 (le32 (ch_signature (ze_central e))) 0"
    unfolding get32_drop [OF i(1)] i(2) by (simp add: central_bytes_def)
  then have m: "get32 (directory_in L) (in_index L) = MAGIC_CENTRAL_HEADER" using e by (simp add: entry_ok_def)
  have len: "in_index L + central_size \<le> length (directory_in L)" using loop_at_entry(3) [OF L e] by simp
  have step: "adjust_entries p w decompress L s = adjust_entries p w decompress L1 s1"
    using m len s1(1) by (subst adjust_entries.simps) (simp add: zip_ok_def central_size_def)
  have "length (out @ ?part) + length (zip_parts decompress file (length (out @ ?part)) es) < 2 ^ 31" "\<forall>e \<in> set es. entry_ok w file decompress e"
    using Cons.prems(1,4) by simp_all
  from Cons.IH [OF this(2) s1(2,3) this(1)] show ?case unfolding step by simp
qed

section \<open>Finding the directory\<close>

lemma get32_take: "get32 (take 4 b) 0 = get32 b 0"
  by (simp add: get32_def)

text \<open>The last footer of the file, and the directory it names.\<close>

definition zip_ends :: "bytes \<Rightarrow> central_footer \<Rightarrow> nat \<Rightarrow> bool" where
  "zip_ends file footer f \<longleftrightarrow> f + footer_size \<le> length file \<and> get32 (drop f file) 0 = MAGIC_CENTRAL_FOOTER \<and>
     footer_of (take footer_size (drop f file)) = footer \<and>
     (\<forall>i. f < i \<longrightarrow> i + 4 \<le> length file \<longrightarrow> get32 (drop i file) 0 \<noteq> MAGIC_CENTRAL_FOOTER) \<and>
     0 < unat (cf_central_directory_offset footer) \<and>
     unat (cf_central_directory_offset footer) + central_size \<le> length file \<and>
     ch_signature (central_of (take central_size (drop (unat (cf_central_directory_offset footer)) file))) = MAGIC_CENTRAL_HEADER"

lemma seekread_at:
  fixes p :: "'p::len itself"
  assumes w: "zip_works p file w" and i: "i + n \<le> length file"
  shows "xseekread w (of_nat i :: 'p word) n s = zip_ok (take n (drop i file)) (s\<lparr>in_pos := i + n\<rparr>)"
proof (rule seekread_works)
  show w': "zip_works TYPE('p) file w" using w by (simp add: zip_works_def)
  have "i < 2 ^ 31" using w i by (simp add: zip_works_def)
  also have "(2::nat) ^ 31 \<le> 2 ^ LENGTH('p)" using w by (intro power_increasing) (simp_all add: zip_works_def)
  finally show "unat (of_nat i :: 'p word) = i" by (simp add: unsigned_of_nat take_bit_nat_eq_self)
qed (rule i)

lemma find_footer_works:
  fixes p :: "'p::len itself"
  assumes w: "zip_works p file w" and z: "zip_ends file footer f"
  shows "f \<le> n \<Longrightarrow> n + 4 \<le> length file \<Longrightarrow> \<exists>t. find_footer p w n s = zip_ok (Some footer) t"
proof (induction n arbitrary: s)
  have w': "zip_works TYPE('p) file w" using w by (simp add: zip_works_def)
  have found: "\<exists>t. look_for_footer p w f s = zip_ok (Some footer) t" for s
  proof -
    have l: "f + footer_size \<le> length file" "f + 4 \<le> length file" using z by (simp_all add: zip_ends_def footer_size_def)
    have c: "unat (cf_central_directory_offset footer) + central_size \<le> length file" using z by (simp add: zip_ends_def)
    have rc: "xseekread w (ucast (cf_central_directory_offset footer) :: 'p word) central_size t =
      zip_ok (take central_size (drop (unat (cf_central_directory_offset footer)) file))
        (t\<lparr>in_pos := unat (cf_central_directory_offset footer) + central_size\<rparr>)" for t
      by (rule seekread_works [OF w' _ c]) (rule unat_ucast_wider, use w in \<open>simp add: zip_works_def\<close>)
    show ?thesis
      using z unfolding look_for_footer_def seekread_at [OF w l(1)] seekread_at [OF w l(2)] zip_then_simps get32_take
      by (simp add: zip_ends_def Let_def rc)
  qed
  have miss: "\<exists>t. look_for_footer p w i s = zip_ok None t" if "f < i" "i + 4 \<le> length file" for i s
    using z that unfolding look_for_footer_def seekread_at [OF w that(2)] zip_then_simps get32_take
    by (simp add: zip_ends_def)
  { case 0
    then show ?case using found [of s] by simp
  next
    case (Suc n)
    show ?case
    proof (cases "f = Suc n")
      case True
      then show ?thesis using found [of s] by auto
    next
      case False
      then obtain t where "look_for_footer p w (Suc n) s = zip_ok None t" using miss [of "Suc n" s] Suc.prems by auto
      then show ?thesis using Suc.IH [of t] Suc.prems False by simp
    qed }
qed

section \<open>The rewritten file\<close>

definition zip_footer :: "bool \<Rightarrow> bytes \<Rightarrow> zip_entry list \<Rightarrow> central_footer \<Rightarrow> central_footer" where
  "zip_footer decompress file es footer = footer\<lparr>cf_central_directory_size := of_nat (length (zip_directory decompress file 0 es)),
     cf_central_directory_offset := of_nat (length (zip_parts decompress file 0 es)), cf_length_comment := 0\<rparr>"

definition adjusted_zip :: "bool \<Rightarrow> bytes \<Rightarrow> zip_entry list \<Rightarrow> central_footer \<Rightarrow> bytes" where
  "adjusted_zip decompress file es footer = zip_parts decompress file 0 es @ zip_directory decompress file 0 es @ footer_bytes (zip_footer decompress file es footer)"

lemma file_size_u32:
  fixes p :: "'p::len itself"
  assumes "zip_works p file w"
  shows "unat (ucast (of_nat (in_length w) :: 'p word) :: u32) = length file"
proof -
  have l: "length file < 2 ^ 31" "in_length w = length file" "32 \<le> LENGTH('p)" using assms by (simp_all add: zip_works_def)
  have "(2::nat) ^ 31 \<le> 2 ^ LENGTH('p)" using l(3) by (intro power_increasing) simp_all
  then have "length file < 2 ^ LENGTH('p)" using l(1) by simp
  then have "unat (of_nat (length file) :: 'p word) = length file" by (simp add: unsigned_of_nat take_bit_nat_eq_self)
  then show ?thesis using l by (simp add: unsigned_ucast_eq take_bit_nat_eq_self)
qed

lemma find_directory_works:
  fixes p :: "'p::len itself"
  assumes w: "zip_works p file w" and z: "zip_ends file footer f" and n: "unat file_size = length file"
  shows "\<exists>t. find_directory p w file_size s = zip_ok footer t"
proof -
  have l: "length file < 2 ^ 31" "f + 22 \<le> length file" using w z by (simp_all add: zip_works_def zip_ends_def footer_size_def)
  have sub: "unat (file_size - 4) = length file - 4"
    using l(2) n by (subst unat_sub_le) (simp_all add: word_le_nat_alt)
  have "\<not> sint (file_size - 4) < 0" by (rule sint_not_negative) (use sub l in simp_all)
  moreover have "sint (file_size - 4) = int (length file - 4)"
  proof -
    have u: "uint (file_size - 4) = int (length file - 4)" using sub by (simp add: uint_nat)
    have "\<not> bit (file_size - 4) (LENGTH(32) - Suc 0)" using \<open>\<not> sint (file_size - 4) < 0\<close> by (simp only: bit_last_iff not_False_eq_True)
    then have "\<not> bit (uint (file_size - 4)) 31" by (simp add: bit_uint_iff)
    then have "sint (file_size - 4) = take_bit 31 (uint (file_size - 4))" by (simp add: sint_uint signed_take_bit_eq_if_positive)
    then show ?thesis using u l(1) by (simp add: take_bit_int_eq_self)
  qed
  moreover obtain t where "find_footer p w (length file - 4) s = zip_ok (Some footer) t"
  proof -
    have "f \<le> length file - 4" "length file - 4 + 4 \<le> length file" using l(2) by arith+
    then show thesis using find_footer_works [OF w z, of "length file - 4" s] that by blast
  qed
  moreover have "cf_central_directory_offset footer \<noteq> 0" using z by (auto simp: zip_ends_def)
  ultimately show ?thesis by (simp add: find_directory_def)
qed

text \<open>What comes before the loop: the footer and the rest of the file from the directory on.\<close>

lemma zip_front:
  fixes p :: "'p::len itself"
  assumes w: "zip_works p file w" and z: "zip_ends file footer f"
  defines "fsize \<equiv> ucast (of_nat (in_length w) :: 'p word) :: u32" and "off \<equiv> cf_central_directory_offset footer"
  shows "\<exists>s. zip_then (find_directory p w fsize \<lparr>in_pos = 0, out_pos = 0, out_data = []\<rparr>) (\<lambda>footer s.
       if \<not> fst (directory_alloc w) then None
       else zip_then (xseekread w (ucast (cf_central_directory_offset footer) :: 'p word)
              (unat (fsize - cf_central_directory_offset footer)) s) (\<lambda>dir s.
         if \<not> snd (directory_alloc w) then None else zip_ok (footer, dir) s)) = zip_ok (footer, drop (unat off) file) s"
proof -
  have n: "unat fsize = length file" unfolding fsize_def by (rule file_size_u32 [OF w])
  have w': "zip_works TYPE('p) file w" using w by (simp add: zip_works_def)
  have p: "32 \<le> LENGTH('p)" using w by (simp add: zip_works_def)
  obtain s1 where s1: "find_directory p w fsize \<lparr>in_pos = 0, out_pos = 0, out_data = []\<rparr> = zip_ok footer s1"
    using find_directory_works [OF w z n] by blast
  have off: "unat off \<le> length file" using z by (simp add: zip_ends_def off_def)
  have sz: "unat (fsize - off) = length file - unat off"
    using off n by (subst unat_sub_le) (simp_all add: word_le_nat_alt)
  have tk: "take (length file - unat off) (drop (unat off) file) = drop (unat off) file" by simp
  have rd: "xseekread w (ucast off :: 'p word) (length file - unat off) s1 =
    zip_ok (drop (unat off) file) (s1\<lparr>in_pos := unat off + (length file - unat off)\<rparr>)"
    by (subst tk [symmetric], rule seekread_works [OF w' unat_ucast_wider [OF p]]) (use off in simp)
  have f: "directory_alloc w = (True, True)" using w by (simp add: zip_works_def)
  show ?thesis unfolding s1 zip_then_simps sz [unfolded off_def] rd [unfolded off_def] f off_def by simp
qed

lemma zip_rewritten:
  fixes p :: "'p::len itself"
  assumes w: "zip_works p file w" and out: "opens_fout w = Some old" and z: "zip_ends file footer f"
    and dir: "drop (unat (cf_central_directory_offset footer)) file = concat (map entry_bytes es) @ tail"
      "4 \<le> length tail" "get32 tail 0 \<noteq> MAGIC_CENTRAL_HEADER"
    and es: "\<forall>e \<in> set es. entry_ok w file decompress e" and small: "length (adjusted_zip decompress file es footer) < 2 ^ 31"
  shows "zipadjust p w decompress = Some \<lparr>zip_returns = 1,
    zip_file = Some (adjusted_zip decompress file es footer @ drop (length (adjusted_zip decompress file es footer)) old)\<rparr>"
proof -
  let ?dir = "concat (map entry_bytes es) @ tail" and ?parts = "zip_parts decompress file 0 es" and ?cd = "zip_directory decompress file 0 es"
  have w': "zip_works TYPE('p) file w" using w by (simp add: zip_works_def)
  have p: "32 \<le> LENGTH('p)" using w by (simp add: zip_works_def)
  obtain s1 where front: "zip_then (find_directory p w (ucast (of_nat (in_length w) :: 'p word)) \<lparr>in_pos = 0, out_pos = 0, out_data = []\<rparr>)
     (\<lambda>footer s. if \<not> fst (directory_alloc w) then None
       else zip_then (xseekread w (ucast (cf_central_directory_offset footer) :: 'p word)
              (unat (ucast (of_nat (in_length w) :: 'p word) - cf_central_directory_offset footer)) s) (\<lambda>dir s.
         if \<not> snd (directory_alloc w) then None else zip_ok (footer, dir) s)) = zip_ok (footer, ?dir) s1"
    using zip_front [OF w z] unfolding dir(1) by blast
  let ?L = "\<lparr>directory_in = ?dir, in_index = 0, directory_out = replicate (length ?dir) 0, out_directory_index = 0, out_index = 0\<rparr>"
  let ?s2 = "s1\<lparr>out_pos := 0, out_data := old\<rparr>"
  have L: "loop_at [] [] (concat (map entry_bytes es)) tail ?L" by (simp add: loop_at_def)
  have h: "holds old [] ?s2" by (simp add: holds_def)
  have total: "length ?parts + length ?cd + footer_size < 2 ^ 31" using small by (simp add: adjusted_zip_def)
  obtain L' s3 where s3: "adjust_entries p w decompress ?L ?s2 = zip_ok L' s3" "loop_at ?parts ?cd [] tail L'" "holds old ?parts s3"
    using adjust_entries_works [OF w dir(2,3) es L h] total by auto
  have o1: "unat (out_index L') = length ?parts" using s3(2) by (simp add: loop_at_def)
  have o: "out_index L' = of_nat (length ?parts)" "unat (out_index L') = length ?parts" "out_directory_index L' = length ?cd"
    "take (length ?cd) (directory_out L') = ?cd" "length ?cd \<le> length (directory_out L')"
    using s3(2) by (simp_all add: loop_at_def flip: o1)
  have ds: "unat (of_nat (length ?cd) :: u32) = length ?cd" using total by (simp add: unsigned_of_nat take_bit_nat_eq_self)
  have "unat (ucast (out_index L') :: 'p word) = length ?parts" using o(2) unat_ucast_wider [OF p] by simp
  from seekwrite_works [OF w' s3(3) this, of ?cd] total obtain s4 where
    s4: "xseekwrite w (ucast (out_index L') :: 'p word) ?cd s3 = zip_ok () s4" "holds old (?parts @ ?cd) s4" by auto
  have "unat (out_index L' + of_nat (length ?cd)) = length (?parts @ ?cd)"
    using total o(2) ds by (subst unat_add_wide) simp_all
  then have "unat (ucast (out_index L' + of_nat (length ?cd)) :: 'p word) = length (?parts @ ?cd)" using unat_ucast_wider [OF p] by simp
  from seekwrite_works [OF w' s4(2) this, of "footer_bytes (zip_footer decompress file es footer)"] total obtain s5 where
    s5: "xseekwrite w (ucast (out_index L' + of_nat (length ?cd)) :: 'p word) (footer_bytes (zip_footer decompress file es footer)) s4 = zip_ok () s5"
      "holds old ((?parts @ ?cd) @ footer_bytes (zip_footer decompress file es footer)) s5" by auto
  have wd: "write_directory p w footer L' s3 = zip_ok () s5"
    unfolding write_directory_def Let_def o(3) ds
    using o(4,5) s4(1) s5(1) by (simp add: zip_footer_def o(1))
  have last: "out_data s5 = adjusted_zip decompress file es footer @ drop (length (adjusted_zip decompress file es footer)) old"
    using s5(2) by (simp add: holds_def adjusted_zip_def)
  have f: "opens_fin w" using w by (simp add: zip_works_def)
  show ?thesis
    unfolding zipadjust_def Let_def front
    using f out s3(1) wd last by (simp add: zip_ok_def)
qed

section \<open>The zip file meant\<close>

text \<open>
  The specification, apart from the code's definitions. An entry's local header is where the directory says;
  its data begin after that header's own name and extra field. \<open>ze_data\<close> is what the output is to hold.
\<close>

definition entry_listed :: "zip_entry \<Rightarrow> bool" where
  "entry_listed e \<longleftrightarrow> ch_signature (ze_central e) = MAGIC_CENTRAL_HEADER \<and>
     length (ze_name e) = unat (ch_length_filename (ze_central e)) \<and> length (ze_name e) < 1024 \<and>
     length (ze_extra e) = unat (ch_length_extra (ze_central e)) \<and>
     length (ze_comment e) = unat (ch_length_comment (ze_central e))"

definition entry_stored :: "'z zip_world \<Rightarrow> bytes \<Rightarrow> bool \<Rightarrow> zip_entry \<Rightarrow> bool" where
  "entry_stored w file decompress e \<longleftrightarrow>
     (\<exists>name extra stored. drop (unat (ch_offset (ze_central e))) file = local_bytes (ze_local e) @ name @ extra @ stored \<and>
        length name = unat (lh_length_filename (ze_local e)) \<and> length extra = unat (lh_length_extra (ze_local e)) \<and>
        (if decompress \<and> ch_compression_method (ze_central e) = 8
         then zlib_inflates w stored (ze_data e) \<and> length (ze_data e) = unat (ch_size_uncompressed (ze_central e))
         else unat (ch_size_compressed (ze_central e)) \<le> length stored \<and>
              ze_data e = take (unat (ch_size_compressed (ze_central e))) stored))"

text \<open>The code relies on it: the directory gives the lengths that the local header has.\<close>

definition lengths_agree :: "zip_entry \<Rightarrow> bool" where
  "lengths_agree e \<longleftrightarrow> lh_length_filename (ze_local e) = ch_length_filename (ze_central e) \<and>
     lh_length_extra (ze_local e) = ch_length_extra (ze_central e)"

definition output_method :: "bool \<Rightarrow> zip_entry \<Rightarrow> u16" where
  "output_method decompress e =
     (if decompress \<and> ch_compression_method (ze_central e) = 8 then 0 else ch_compression_method (ze_central e))"

definition output_local :: "bool \<Rightarrow> zip_entry \<Rightarrow> local_header" where
  "output_local decompress e =
     \<lparr>lh_signature = lh_signature (ze_local e), lh_extract_version = lh_extract_version (ze_local e), lh_flags = 0,
      lh_compression_method = output_method decompress e,
      lh_last_modified_time = lh_last_modified_time (ze_local e), lh_last_modified_date = lh_last_modified_date (ze_local e),
      lh_crc32 = ch_crc32 (ze_central e), lh_size_compressed = of_nat (length (ze_data e)),
      lh_size_uncompressed = ch_size_uncompressed (ze_central e), lh_length_filename = of_nat (length (ze_name e)),
      lh_length_extra = 0\<rparr>"

definition output_central :: "bool \<Rightarrow> nat \<Rightarrow> zip_entry \<Rightarrow> central_header" where
  "output_central decompress place e =
     (let h = ze_central e in
      \<lparr>ch_signature = MAGIC_CENTRAL_HEADER, ch_version_made = ch_version_made h, ch_version_needed = ch_version_needed h,
       ch_flags = 0, ch_compression_method = output_method decompress e,
       ch_last_modified_time = ch_last_modified_time h, ch_last_modified_date = ch_last_modified_date h,
       ch_crc32 = ch_crc32 h, ch_size_compressed = of_nat (length (ze_data e)), ch_size_uncompressed = ch_size_uncompressed h,
       ch_length_filename = of_nat (length (ze_name e)), ch_length_extra = 0, ch_length_comment = 0,
       ch_disk_start = ch_disk_start h, ch_attr_internal = ch_attr_internal h, ch_attr_external = ch_attr_external h,
       ch_offset = of_nat place\<rparr>)"

definition output_part :: "bool \<Rightarrow> zip_entry \<Rightarrow> bytes" where
  "output_part decompress e = local_bytes (output_local decompress e) @ ze_name e @ ze_data e"

definition output_parts :: "bool \<Rightarrow> zip_entry list \<Rightarrow> bytes" where
  "output_parts decompress es = concat (map (output_part decompress) es)"

text \<open>The entry \<open>i\<close> of the directory points to where the parts before it end.\<close>

definition output_directory :: "bool \<Rightarrow> zip_entry list \<Rightarrow> bytes" where
  "output_directory decompress es =
     concat (map (\<lambda>i. central_bytes (output_central decompress (length (output_parts decompress (take i es))) (es ! i)) @ ze_name (es ! i))
       [0..<length es])"

definition output_zip :: "bool \<Rightarrow> zip_entry list \<Rightarrow> central_footer \<Rightarrow> bytes" where
  "output_zip decompress es footer =
     output_parts decompress es @ output_directory decompress es @
     footer_bytes (footer\<lparr>cf_central_directory_size := of_nat (length (output_directory decompress es)),
       cf_central_directory_offset := of_nat (length (output_parts decompress es)), cf_length_comment := 0\<rparr>)"

text \<open>What the code's definitions make of such entries.\<close>

lemma stored_entry_ok:
  assumes "entry_listed e" "entry_stored w file d e" "lengths_agree e"
  shows "entry_ok w file d e" "local_of (take local_size (drop (unat (ch_offset (ze_central e))) file)) = ze_local e"
proof -
  let ?off = "unat (ch_offset (ze_central e))"
  obtain name extra stored where s: "drop ?off file = local_bytes (ze_local e) @ name @ extra @ stored"
    "length name = length (ze_name e)" "length extra = length (ze_extra e)"
    "if inflates d e then zlib_inflates w stored (ze_data e) \<and> length (ze_data e) = unat (ch_size_uncompressed (ze_central e))
     else unat (ch_size_compressed (ze_central e)) \<le> length stored \<and> ze_data e = take (unat (ch_size_compressed (ze_central e))) stored"
    using assms by (auto simp: entry_stored_def entry_listed_def lengths_agree_def inflates_def)
  have "drop (data_at e) file = drop (local_size + length (ze_name e) + length (ze_extra e)) (drop ?off file)"
    by (simp add: data_at_def ac_simps)
  then have d: "drop (data_at e) file = stored" using s(2,3) unfolding s(1) by simp
  have "length (drop ?off file) = local_size + length name + length extra + length stored" unfolding s(1) by simp
  then have l: "length file = data_at e + length stored" using s(2,3) by (simp add: data_at_def local_size_def)
  show "entry_ok w file d e"
    using assms(1) s(4) l d by (simp add: entry_ok_def entry_listed_def data_ok_def split: if_splits)
  show "local_of (take local_size (drop ?off file)) = ze_local e"
    unfolding s(1) using headers_read_back(1) [of "ze_local e" "[]"] by simp
qed

lemma entry_head_output:
  assumes "entry_listed e" "entry_ok w file d e"
  shows "entry_head d n e = output_central d n e"
proof -
  have "ch_size_compressed (entry_head d n e) = of_nat (length (ze_data e))"
    by (simp flip: entry_data_length [OF assms(2), of n])
  moreover have "ch_length_filename (ze_central e) = of_nat (length (ze_name e))"
    using assms(1) by (simp add: entry_listed_def)
  ultimately show ?thesis
    using assms(1) by (cases "ze_central e")
      (auto simp: entry_head_def adjust_central_def output_central_def output_method_def entry_listed_def Let_def)
qed

lemma entry_part_output:
  assumes "entry_listed e" "entry_stored w file d e" "lengths_agree e"
  shows "entry_part d file n e = output_part d e"
proof -
  note k = stored_entry_ok [OF assms]
  have "lh_length_filename (ze_local e) = of_nat (length (ze_name e))"
    using assms(1,3) by (simp add: entry_listed_def lengths_agree_def)
  then have "adjust_local (entry_head d n e) (ze_local e) = output_local d e"
    unfolding entry_head_output [OF assms(1) k(1)]
    by (cases "ze_local e") (simp add: adjust_local_def output_local_def output_central_def Let_def)
  then show ?thesis by (simp add: entry_part_def output_part_def k(2))
qed

lemma zip_parts_output:
  assumes "\<forall>e \<in> set es. \<forall>n. entry_part d file n e = output_part d e"
  shows "zip_parts d file n es = output_parts d es"
  using assms by (induction es arbitrary: n) (simp_all add: output_parts_def)

lemma zip_directory_output:
  assumes "\<forall>e \<in> set es. (\<forall>n. entry_part d file n e = output_part d e) \<and> (\<forall>n. entry_head d n e = output_central d n e)"
  shows "zip_directory d file n es =
    concat (map (\<lambda>i. central_bytes (output_central d (n + length (output_parts d (take i es))) (es ! i)) @ ze_name (es ! i)) [0..<length es])"
  using assms
proof (induction es arbitrary: n)
  case (Cons e es)
  have "[0..<length (e # es)] = 0 # map Suc [0..<length es]" by (simp add: upt_conv_Cons map_Suc_upt del: upt_Suc)
  then show ?case
    using Cons by (simp add: comp_def output_parts_def add.assoc del: upt_Suc)
qed simp

lemma adjusted_output:
  assumes "\<forall>e \<in> set es. entry_listed e \<and> entry_stored w file d e \<and> lengths_agree e"
  shows "adjusted_zip d file es footer = output_zip d es footer" "\<forall>e \<in> set es. entry_ok w file d e"
proof -
  show ok: "\<forall>e \<in> set es. entry_ok w file d e" using assms stored_entry_ok(1) by blast
  have p: "\<forall>e \<in> set es. (\<forall>n. entry_part d file n e = output_part d e) \<and> (\<forall>n. entry_head d n e = output_central d n e)"
    using assms entry_part_output entry_head_output ok by blast
  have "zip_parts d file 0 es = output_parts d es" by (rule zip_parts_output) (use p in simp)
  moreover have "zip_directory d file 0 es = output_directory d es"
    using zip_directory_output [OF p, of 0] by (simp add: output_directory_def)
  ultimately show "adjusted_zip d file es footer = output_zip d es footer"
    by (simp add: adjusted_zip_def zip_footer_def output_zip_def)
qed

text \<open>C3: For a zip file whose last footer names its directory, whose entries are where the directory says, and
  in which the lengths of name and extra field are the same in both headers of an entry, \<^verbatim>\<open>zipadjust\<close> returns 1 and
  writes exactly: for every entry a local header with the sizes and checksum of the directory, no flags and no
  extra field, its name and its data, inflated (and the method 0) if this is asked for and the method was 8; then the
  directory with the new places, without extra fields and comments; then the footer without its comment.\<close>

theorem zipadjust_rewrites:
  fixes p :: "'p::len itself"
  assumes w: "zip_works p file w" and out: "opens_fout w = Some old" and z: "zip_ends file footer f"
    and dir: "drop (unat (cf_central_directory_offset footer)) file = concat (map entry_bytes es) @ tail"
      "4 \<le> length tail" "get32 tail 0 \<noteq> MAGIC_CENTRAL_HEADER"
    and es: "\<forall>e \<in> set es. entry_listed e \<and> entry_stored w file decompress e \<and> lengths_agree e"
    and small: "length (output_zip decompress es footer) < 2 ^ 31"
  shows "zipadjust p w decompress = Some \<lparr>zip_returns = 1,
    zip_file = Some (output_zip decompress es footer @ drop (length (output_zip decompress es footer)) old)\<rparr>"
  using zip_rewritten [OF w out z dir adjusted_output(2) [OF es]] small by (simp add: adjusted_output(1) [OF es])

text \<open>A file of two entries, one stored, with an extra field and a comment, the other compressed by a code whose
  inflater writes the byte twice.\<close>

definition twice_inflate :: "bool \<Rightarrow> bytes \<Rightarrow> nat \<Rightarrow> zlib_ret \<times> bytes \<times> bytes \<times> bool" where
  "twice_inflate ended inp n =
     (if ended then (Z_STREAM_END, inp, [], True)
      else case inp of [] \<Rightarrow> (Z_BUF_ERROR, [], [], False) | b # left \<Rightarrow> (Z_STREAM_END, left, [b, b], True))"

lemma twice_contract: "zlib_contract twice_inflate (\<lambda>ended. Some (if ended then ([], []) else ([67], [67, 67])))"
  unfolding zlib_contract_def
  by (auto simp: twice_inflate_def COPY_CHUNK_def take_Cons split: if_splits list.splits nat.splits)
    (case_tac k; auto)

definition sample_local :: "u16 \<Rightarrow> u16 \<Rightarrow> u32 \<Rightarrow> u32 \<Rightarrow> u16 \<Rightarrow> local_header" where
  "sample_local flags method csize usize extra =
     \<lparr>lh_signature = 0x04034b50, lh_extract_version = 20, lh_flags = flags, lh_compression_method = method,
      lh_last_modified_time = 0, lh_last_modified_date = 0, lh_crc32 = 0, lh_size_compressed = csize,
      lh_size_uncompressed = usize, lh_length_filename = 1, lh_length_extra = extra\<rparr>"

definition sample_central :: "u16 \<Rightarrow> u16 \<Rightarrow> u32 \<Rightarrow> u32 \<Rightarrow> u16 \<Rightarrow> u16 \<Rightarrow> u32 \<Rightarrow> central_header" where
  "sample_central flags method csize usize extra comment offset =
     \<lparr>ch_signature = MAGIC_CENTRAL_HEADER, ch_version_made = 20, ch_version_needed = 20, ch_flags = flags,
      ch_compression_method = method, ch_last_modified_time = 0, ch_last_modified_date = 0, ch_crc32 = 7,
      ch_size_compressed = csize, ch_size_uncompressed = usize, ch_length_filename = 1, ch_length_extra = extra,
      ch_length_comment = comment, ch_disk_start = 0, ch_attr_internal = 0, ch_attr_external = 0, ch_offset = offset\<rparr>"

definition sample_footer :: central_footer where
  "sample_footer = \<lparr>cf_signature = MAGIC_CENTRAL_FOOTER, cf_disk_number = 0, cf_disk_number_central_directory = 0,
     cf_central_directory_entries_this_disk = 2, cf_central_directory_entries_total = 2, cf_central_directory_size = 97,
     cf_central_directory_offset = 67, cf_length_comment = 0\<rparr>"

definition sample_entries :: "zip_entry list" where
  "sample_entries =
     [\<lparr>ze_central = sample_central 8 0 2 2 2 1 0, ze_local = sample_local 8 0 0 0 2, ze_name = [97], ze_extra = [1, 2], ze_comment = [3], ze_data = [65, 66]\<rparr>,
      \<lparr>ze_central = sample_central 0 8 1 2 0 0 35, ze_local = sample_local 0 8 1 2 0, ze_name = [98], ze_extra = [], ze_comment = [], ze_data = [67, 67]\<rparr>]"

definition sample_zip :: bytes where
  "sample_zip = local_bytes (sample_local 8 0 0 0 2) @ [97, 1, 2, 65, 66] @ local_bytes (sample_local 0 8 1 2 0) @ [98, 67] @
     concat (map entry_bytes sample_entries) @ footer_bytes sample_footer"

definition sample_zip_world :: "bool zip_world" where
  "sample_zip_world =
     \<lparr>opens_fin = True, in_length = length sample_zip, in_seek = (\<lambda>_. True), in_read = (\<lambda>i n. Some (take n (drop i sample_zip))),
      opens_fout = Some [], fout_seek = (\<lambda>_. True), fout_write = (\<lambda>_ bs. Some (length bs)), directory_alloc = (True, True),
      copy_alloc = (\<lambda>_. True), inflate_init = (Z_OK, False), inflate = twice_inflate\<rparr>"

lemma sample_zip_bytes: "length sample_zip = 186" "drop 67 sample_zip = concat (map entry_bytes sample_entries) @ footer_bytes sample_footer"
  by code_simp+

lemma sample_zip_ends: "zip_ends sample_zip sample_footer 164"
proof -
  have "list_all (\<lambda>i. get32 (drop i sample_zip) 0 \<noteq> MAGIC_CENTRAL_FOOTER) [165..<183]" by code_simp
  then have all: "\<forall>i \<in> {165..<183}. get32 (drop i sample_zip) 0 \<noteq> MAGIC_CENTRAL_FOOTER" by (simp only: list_all_iff set_upt)
  have "get32 (drop i sample_zip) 0 \<noteq> MAGIC_CENTRAL_FOOTER" if "164 < i" "i + 4 \<le> length sample_zip" for i
    by (rule all [rule_format]) (use that in \<open>simp add: sample_zip_bytes(1)\<close>)
  then have "\<forall>i. 164 < i \<longrightarrow> i + 4 \<le> length sample_zip \<longrightarrow> get32 (drop i sample_zip) 0 \<noteq> MAGIC_CENTRAL_FOOTER" by blast
  moreover have "get32 (drop 164 sample_zip) 0 = MAGIC_CENTRAL_FOOTER" "footer_of (take footer_size (drop 164 sample_zip)) = sample_footer"
    "ch_signature (central_of (take central_size (drop 67 sample_zip))) = MAGIC_CENTRAL_HEADER" by code_simp+
  ultimately show ?thesis
    by (simp add: zip_ends_def sample_zip_bytes(1) footer_size_def central_size_def sample_footer_def)
qed

theorem zipadjust_rewrites_witness:
  "zipadjust TYPE(64) sample_zip_world True = Some \<lparr>zip_returns = 1, zip_file = Some (
     local_bytes ((sample_local 0 0 2 2 0)\<lparr>lh_crc32 := 7\<rparr>) @ [97, 65, 66] @
     local_bytes ((sample_local 0 0 2 2 0)\<lparr>lh_crc32 := 7\<rparr>) @ [98, 67, 67] @
     central_bytes (sample_central 0 0 2 2 0 0 0) @ [97] @ central_bytes (sample_central 0 0 2 2 0 0 33) @ [98] @
     footer_bytes (sample_footer\<lparr>cf_central_directory_size := 94, cf_central_directory_offset := 66\<rparr>))\<rparr>"
proof -
  have w: "zip_works TYPE(64) sample_zip sample_zip_world"
    by (simp add: zip_works_def sample_zip_world_def sample_zip_bytes)
  let ?rest = "concat (map entry_bytes sample_entries) @ footer_bytes sample_footer"
  have inf: "zlib_inflates sample_zip_world ([67] @ ?rest) [67, 67]"
    unfolding zlib_inflates_def using twice_contract
    by (intro exI [of _ "\<lambda>ended. Some (if ended then ([], []) else ([67], [67, 67]))"] exI [of _ False] exI [of _ "[67]"]
          exI [of _ ?rest]) (simp add: sample_zip_world_def)
  have s1: "entry_stored sample_zip_world sample_zip True (sample_entries ! 0)"
    unfolding entry_stored_def
    by (intro exI [of _ "[97]"] exI [of _ "[1, 2]"] exI [of _ "[65, 66] @ local_bytes (sample_local 0 8 1 2 0) @ [98, 67] @ ?rest"])
      (simp add: sample_entries_def sample_zip_def sample_local_def sample_central_def)
  have "drop 35 sample_zip = local_bytes (sample_local 0 8 1 2 0) @ [98, 67] @ ?rest"
    by (simp add: sample_zip_def local_size_def)
  then have s2: "entry_stored sample_zip_world sample_zip True (sample_entries ! 1)"
    unfolding entry_stored_def
    by (intro exI [of _ "[98]"] exI [of _ "[]"] exI [of _ "[67] @ ?rest"])
      (use inf in \<open>simp add: sample_entries_def sample_local_def sample_central_def\<close>)
  have es: "\<forall>e \<in> set sample_entries. entry_listed e \<and> entry_stored sample_zip_world sample_zip True e \<and> lengths_agree e"
    using s1 s2 by (simp add: sample_entries_def entry_listed_def lengths_agree_def sample_central_def sample_local_def)
  have adj: "output_zip True sample_entries sample_footer =
     local_bytes ((sample_local 0 0 2 2 0)\<lparr>lh_crc32 := 7\<rparr>) @ [97, 65, 66] @
     local_bytes ((sample_local 0 0 2 2 0)\<lparr>lh_crc32 := 7\<rparr>) @ [98, 67, 67] @
     central_bytes (sample_central 0 0 2 2 0 0 0) @ [97] @ central_bytes (sample_central 0 0 2 2 0 0 33) @ [98] @
     footer_bytes (sample_footer\<lparr>cf_central_directory_size := 94, cf_central_directory_offset := 66\<rparr>)" by code_simp
  have "opens_fout sample_zip_world = Some []" by (simp add: sample_zip_world_def)
  moreover have "drop (unat (cf_central_directory_offset sample_footer)) sample_zip =
      concat (map entry_bytes sample_entries) @ footer_bytes sample_footer"
    using sample_zip_bytes(2) by (simp add: sample_footer_def)
  moreover have "get32 (footer_bytes sample_footer) 0 \<noteq> MAGIC_CENTRAL_HEADER" by code_simp
  moreover have "length (output_zip True sample_entries sample_footer) < 2 ^ 31"
    by (simp add: adj local_size_def central_size_def footer_size_def)
  ultimately show ?thesis
    using zipadjust_rewrites [OF w _ sample_zip_ends _ _ _ es] by (simp add: adj footer_size_def)
qed

text \<open>C39: A first entry whose name is as long as the buffer \<^verbatim>\<open>filename\<close> or longer makes the run meaningless: the name is
  copied there without a test of its length.\<close>

theorem zipadjust_long_name:
  fixes p :: "'p::len itself"
  assumes w: "zip_works p file w" and out: "opens_fout w \<noteq> None" and z: "zip_ends file footer f"
    and long: "1024 \<le> unat (ch_length_filename (central_of (drop (unat (cf_central_directory_offset footer)) file)))"
  shows "zipadjust p w decompress = None"
proof -
  let ?dir = "drop (unat (cf_central_directory_offset footer)) file"
  obtain s1 where front: "zip_then (find_directory p w (ucast (of_nat (in_length w) :: 'p word)) \<lparr>in_pos = 0, out_pos = 0, out_data = []\<rparr>)
     (\<lambda>footer s. if \<not> fst (directory_alloc w) then None
       else zip_then (xseekread w (ucast (cf_central_directory_offset footer) :: 'p word)
              (unat (ucast (of_nat (in_length w) :: 'p word) - cf_central_directory_offset footer)) s) (\<lambda>dir s.
         if \<not> snd (directory_alloc w) then None else zip_ok (footer, dir) s)) = zip_ok (footer, ?dir) s1"
    using zip_front [OF w z] by blast
  obtain old where old: "opens_fout w = Some old" using out by blast
  have "unat (cf_central_directory_offset footer) + central_size \<le> length file" using z by (simp add: zip_ends_def)
  then have len: "central_size \<le> length ?dir" unfolding length_drop by arith
  have "ch_signature (central_of (take central_size ?dir)) = MAGIC_CENTRAL_HEADER" using z by (simp add: zip_ends_def)
  then have m: "get32 ?dir 0 = MAGIC_CENTRAL_HEADER" using len by (simp add: central_of_def get32_def central_size_def)
  have one: "adjust_entry p w decompress L s = None" if "directory_in L = ?dir" "in_index L = 0" for L s
    using long that by (simp add: adjust_entry_def Let_def)
  have "adjust_entries p w decompress L s = None" if L: "directory_in L = ?dir" "in_index L = 0" for L s
  proof -
    have "4 \<le> length ?dir" using len by (simp add: central_size_def)
    then show ?thesis using m len L one [OF L] by (subst adjust_entries.simps) simp
  qed
  moreover have "opens_fin w" using w by (simp add: zip_works_def)
  ultimately show ?thesis unfolding zipadjust_def Let_def front using old by (simp add: zip_ok_def)
qed

definition long_name_zip :: bytes where
  "long_name_zip = [0] @ central_bytes ((sample_central 0 0 0 0 0 0 0)\<lparr>ch_length_filename := 1024\<rparr>) @
     footer_bytes (sample_footer\<lparr>cf_central_directory_offset := 1\<rparr>)"

definition long_name_world :: "bool zip_world" where
  "long_name_world = sample_zip_world\<lparr>in_length := length long_name_zip, in_read := (\<lambda>i n. Some (take n (drop i long_name_zip)))\<rparr>"

theorem zipadjust_long_name_witness: "zipadjust TYPE(32) long_name_world False = None"
proof (rule zipadjust_long_name)
  have n: "length long_name_zip = 69" by (simp add: long_name_zip_def central_size_def footer_size_def)
  show "zip_works TYPE(32) long_name_zip long_name_world"
    by (simp add: zip_works_def long_name_world_def sample_zip_world_def n)
  show "opens_fout long_name_world \<noteq> None" by (simp add: long_name_world_def sample_zip_world_def)
  have "list_all (\<lambda>i. get32 (drop i long_name_zip) 0 \<noteq> MAGIC_CENTRAL_FOOTER) [48..<66]" by code_simp
  then have all: "\<forall>i \<in> {48..<66}. get32 (drop i long_name_zip) 0 \<noteq> MAGIC_CENTRAL_FOOTER" by (simp only: list_all_iff set_upt)
  have last: "get32 (drop i long_name_zip) 0 \<noteq> MAGIC_CENTRAL_FOOTER" if "47 < i" "i + 4 \<le> length long_name_zip" for i
    by (rule all [rule_format]) (use that in \<open>simp add: n\<close>)
  have "get32 (drop 47 long_name_zip) 0 = MAGIC_CENTRAL_FOOTER"
    "footer_of (take footer_size (drop 47 long_name_zip)) = sample_footer\<lparr>cf_central_directory_offset := 1\<rparr>"
    "ch_signature (central_of (take central_size (drop 1 long_name_zip))) = MAGIC_CENTRAL_HEADER" by code_simp+
  with last show "zip_ends long_name_zip (sample_footer\<lparr>cf_central_directory_offset := 1\<rparr>) 47"
    by (simp add: zip_ends_def n footer_size_def central_size_def)
  show "1024 \<le> unat (ch_length_filename (central_of (drop (unat (cf_central_directory_offset (sample_footer\<lparr>cf_central_directory_offset := 1\<rparr>)))
      long_name_zip)))"
    by (simp add: long_name_zip_def headers_read_back)
qed

end
