(* ===== verification/Merge.thy ===== *)
theory Merge
  imports Config Vcdiff
begin

text \<open>
  Merging two deltas without their files (\<^verbatim>\<open>xdelta3-merge.h\<close>): a whole delta is kept as the
  list of its instructions (\<^verbatim>\<open>xd3_whole_state\<close>); \<^verbatim>\<open>xd3_merge_inputs\<close> replaces every copy of the
  second delta from its source by the instructions of the first that made that part.

  An array that grows is a list beside the number of bytes it was allocated with; a write past those
  is \<open>None\<close>. The stream is what these functions use of it: \<open>whole_target\<close> and the answers of the
  allocator, by the number of the request.
\<close>

section \<open>The whole state\<close>

record xd3_winst =
  w_type :: u8
  w_mode :: u8
  w_size :: u32
  w_addr :: u64
  w_position :: u64

record xd3_wininfo =
  wi_offset :: u64
  wi_length :: u32
  wi_adler32 :: u32

record xd3_whole_state =
  adds :: bytes
  adds_alloc :: u32
  winsts :: "xd3_winst list"
  inst_alloc :: u32
  wininfos :: "xd3_wininfo list"
  wininfo_alloc :: u32
  whole_length :: u64

record xd3_merge_stream =
  whole_target :: xd3_whole_state
  heap_answers :: "nat \<Rightarrow> bool"
  heap_count :: nat

text \<open>\<^verbatim>\<open>sizeof\<close> of the two structures, whose 64-bit members are aligned to 4 or 8 bytes.\<close>

definition sizeof_winst :: u32 where "sizeof_winst = 24"
definition sizeof_wininfo :: u32 where "sizeof_wininfo = 16"

type_synonym 'a whole_step = "(xd3_err + 'a) option"

definition whole_then :: "'a whole_step \<Rightarrow> ('a \<Rightarrow> 'b whole_step) \<Rightarrow> 'b whole_step" where
  "whole_then p f = Option.bind p (\<lambda>r. case r of Inl e \<Rightarrow> Some (Inl e) | Inr x \<Rightarrow> f x)"

definition whole_ok :: "'a \<Rightarrow> 'a whole_step" where "whole_ok x = Some (Inr x)"
definition whole_fail :: "xd3_ret \<Rightarrow> string \<Rightarrow> 'a whole_step" where "whole_fail r m = Some (Inl (r, m))"

lemma whole_then_simps [simp]:
  "whole_then None f = None" "whole_then (Some (Inl e)) f = Some (Inl e)" "whole_then (Some (Inr x)) f = f x"
  "whole_then (whole_ok x) f = f x" "whole_then (whole_fail r m) f = whole_fail r m"
  by (simp_all add: whole_then_def whole_ok_def whole_fail_def)

lemma whole_ok_inject [simp]: "whole_ok x = whole_ok y \<longleftrightarrow> x = y"
  by (simp add: whole_ok_def)

section \<open>Allocation\<close>

definition whole_alloc :: "xd3_merge_stream \<Rightarrow> bool \<times> xd3_merge_stream" where
  "whole_alloc s = (heap_answers s (heap_count s), s\<lparr>heap_count := heap_count s + 1\<rparr>)"

definition empty_whole :: xd3_whole_state where
  "empty_whole = \<lparr>adds = [], adds_alloc = 0, winsts = [], inst_alloc = 0, wininfos = [], wininfo_alloc = 0, whole_length = 0\<rparr>"

definition xd3_whole_state_init :: "xd3_merge_stream \<Rightarrow> xd3_merge_stream whole_step" where
  "xd3_whole_state_init s =
     (let s = s\<lparr>whole_target := (whole_target s)\<lparr>adds_alloc := DECODE_ALLOCSIZE, inst_alloc := DECODE_ALLOCSIZE,
                 wininfo_alloc := DECODE_ALLOCSIZE\<rparr>\<rparr>
      in case whole_alloc s of
           (False, _) \<Rightarrow> whole_fail ENOMEM ''''
         | (True, s) \<Rightarrow>
             (case whole_alloc s of
                (False, _) \<Rightarrow> whole_fail ENOMEM ''''
              | (True, s) \<Rightarrow>
                  (case whole_alloc s of
                     (False, _) \<Rightarrow> whole_fail ENOMEM ''''
                   | (True, s) \<Rightarrow> whole_ok s)))"

definition xd3_swap_whole_state :: "xd3_whole_state \<times> xd3_whole_state \<Rightarrow> xd3_whole_state \<times> xd3_whole_state" where
  "xd3_swap_whole_state = (\<lambda>(a, b). (b, a))"

text \<open>
  The new allocation of a buffer of \<open>current_units\<close> units (in 32 bits, as the code computes it).
  The old contents are copied into a new one, which must have room for them.
\<close>

definition xd3_realloc_buffer ::
    "u32 \<Rightarrow> u32 \<Rightarrow> u32 \<Rightarrow> u32 \<Rightarrow> xd3_merge_stream \<Rightarrow> (u32 \<times> xd3_merge_stream) whole_step" where
  "xd3_realloc_buffer current_units unit_size new_units alloc_size s =
     (let needed = (current_units + new_units) * unit_size in
      if needed \<le> alloc_size then whole_ok (alloc_size, s)
      else
        (let cur_size = current_units * unit_size;
             new_alloc = xd3_round_blksize (needed * 2) DECODE_ALLOCSIZE
         in case whole_alloc s of
              (False, _) \<Rightarrow> whole_fail ENOMEM ''''
            | (True, s) \<Rightarrow> if cur_size > new_alloc then None else whole_ok (new_alloc, s)))"

text \<open>Room for one more instruction, for more bytes, for one more window. The writes test it.\<close>

definition xd3_whole_alloc_winst :: "xd3_merge_stream \<Rightarrow> xd3_merge_stream whole_step" where
  "xd3_whole_alloc_winst s =
     whole_then (xd3_realloc_buffer (of_nat (length (winsts (whole_target s)))) sizeof_winst 1 (inst_alloc (whole_target s)) s)
       (\<lambda>(n, s). whole_ok (s\<lparr>whole_target := (whole_target s)\<lparr>inst_alloc := n\<rparr>\<rparr>))"

definition xd3_whole_alloc_adds :: "u32 \<Rightarrow> xd3_merge_stream \<Rightarrow> xd3_merge_stream whole_step" where
  "xd3_whole_alloc_adds count s =
     whole_then (xd3_realloc_buffer (of_nat (length (adds (whole_target s)))) 1 count (adds_alloc (whole_target s)) s)
       (\<lambda>(n, s). whole_ok (s\<lparr>whole_target := (whole_target s)\<lparr>adds_alloc := n\<rparr>\<rparr>))"

definition xd3_whole_alloc_wininfo :: "xd3_merge_stream \<Rightarrow> xd3_merge_stream whole_step" where
  "xd3_whole_alloc_wininfo s =
     whole_then (xd3_realloc_buffer (of_nat (length (wininfos (whole_target s)))) sizeof_wininfo 1 (wininfo_alloc (whole_target s)) s)
       (\<lambda>(n, s). whole_ok (s\<lparr>whole_target := (whole_target s)\<lparr>wininfo_alloc := n\<rparr>\<rparr>))"

definition put_winst :: "xd3_winst \<Rightarrow> xd3_merge_stream \<Rightarrow> xd3_merge_stream whole_step" where
  "put_winst w s =
     (let t = whole_target s in
      if (length (winsts t) + 1) * unat sizeof_winst \<le> unat (inst_alloc t)
      then whole_ok (s\<lparr>whole_target := t\<lparr>winsts := winsts t @ [w]\<rparr>\<rparr>) else None)"

definition put_adds :: "bytes \<Rightarrow> xd3_merge_stream \<Rightarrow> xd3_merge_stream whole_step" where
  "put_adds bs s =
     (let t = whole_target s in
      if length (adds t) + length bs \<le> unat (adds_alloc t)
      then whole_ok (s\<lparr>whole_target := t\<lparr>adds := adds t @ bs\<rparr>\<rparr>) else None)"

definition put_wininfo :: "xd3_wininfo \<Rightarrow> xd3_merge_stream \<Rightarrow> xd3_merge_stream whole_step" where
  "put_wininfo w s =
     (let t = whole_target s in
      if (length (wininfos t) + 1) * unat sizeof_wininfo \<le> unat (wininfo_alloc t)
      then whole_ok (s\<lparr>whole_target := t\<lparr>wininfos := wininfos t @ [w]\<rparr>\<rparr>) else None)"

definition add_length :: "u32 \<Rightarrow> xd3_merge_stream \<Rightarrow> xd3_merge_stream" where
  "add_length n s = s\<lparr>whole_target := (whole_target s)\<lparr>whole_length := whole_length (whole_target s) + ucast n\<rparr>\<rparr>"

definition adds_end :: "xd3_merge_stream \<Rightarrow> u64" where
  "adds_end s = of_nat (length (adds (whole_target s)))"

section \<open>Runs, adds and target copies\<close>

definition xd3_merge_run :: "xd3_whole_state \<Rightarrow> xd3_winst \<Rightarrow> xd3_merge_stream \<Rightarrow> xd3_merge_stream whole_step" where
  "xd3_merge_run input iinst s =
     whole_then (xd3_whole_alloc_winst s) (\<lambda>s.
     whole_then (xd3_whole_alloc_adds 1 s) (\<lambda>s.
     whole_then (put_winst \<lparr>w_type = w_type iinst, w_mode = w_mode iinst, w_size = w_size iinst, w_addr = adds_end s,
         w_position = whole_length (whole_target s)\<rparr> s) (\<lambda>s.
       let s = add_length (w_size iinst) s in
       if unat (w_addr iinst) < length (adds input) then put_adds [adds input ! unat (w_addr iinst)] s else None)))"

definition xd3_merge_add :: "xd3_whole_state \<Rightarrow> xd3_winst \<Rightarrow> xd3_merge_stream \<Rightarrow> xd3_merge_stream whole_step" where
  "xd3_merge_add input iinst s =
     whole_then (xd3_whole_alloc_winst s) (\<lambda>s.
     whole_then (xd3_whole_alloc_adds (w_size iinst) s) (\<lambda>s.
     whole_then (put_winst \<lparr>w_type = w_type iinst, w_mode = w_mode iinst, w_size = w_size iinst, w_addr = adds_end s,
         w_position = whole_length (whole_target s)\<rparr> s) (\<lambda>s.
       let s = add_length (w_size iinst) s in
       if unat (w_addr iinst) + unat (w_size iinst) \<le> length (adds input)
       then put_adds (take (unat (w_size iinst)) (drop (unat (w_addr iinst)) (adds input))) s else None)))"

definition xd3_merge_target_copy :: "xd3_winst \<Rightarrow> xd3_merge_stream \<Rightarrow> xd3_merge_stream whole_step" where
  "xd3_merge_target_copy iinst s = whole_then (xd3_whole_alloc_winst s) (put_winst iinst)"

section \<open>Source copies\<close>

text \<open>The binary search. \<open>low\<close> and \<open>high\<close> are indices into the array, so nothing wraps.\<close>

function find_position_loop :: "xd3_winst list \<Rightarrow> u64 \<Rightarrow> nat \<Rightarrow> nat \<Rightarrow> nat option" where
  "find_position_loop is address low high =
     (if low \<ge> high then None
      else
        (let mid = low + (high - low) div 2; mid_lpos = w_position (is ! mid) in
         if address < mid_lpos then find_position_loop is address low mid
         else if address \<ge> mid_lpos + ucast (w_size (is ! mid)) then find_position_loop is address (mid + 1) high
         else Some mid))"
  by pat_completeness auto
termination by (relation "measure (\<lambda>(is, address, low, high). high - low)") auto

declare find_position_loop.simps [simp del]

definition xd3_merge_find_position :: "xd3_whole_state \<Rightarrow> u64 \<Rightarrow> nat whole_step" where
  "xd3_merge_find_position source address =
     (if address \<ge> whole_length source then whole_fail XD3_INVALID_INPUT ''Invalid copy offset in merge''
      else case find_position_loop (winsts source) address 0 (length (winsts source)) of
             Some n \<Rightarrow> whole_ok n
           | None \<Rightarrow> whole_fail XD3_INTERNAL ''Internal error in merge'')"

text \<open>What the loop emits for one instruction of the source, other than a copy from the target.\<close>

definition merge_piece :: "xd3_whole_state \<Rightarrow> xd3_winst \<Rightarrow> u32 \<Rightarrow> u32 \<Rightarrow> u64 \<Rightarrow> xd3_merge_stream \<Rightarrow> xd3_merge_stream whole_step" where
  "merge_piece source sinst sinst_offset this_take position s =
     (let minst = \<lparr>w_type = w_type sinst, w_mode = 0, w_size = this_take, w_addr = 0, w_position = position\<rparr>;
          i = unat (w_addr sinst)
      in if unat (w_type sinst) = XD3_RUN
         then whole_then (xd3_whole_alloc_adds 1 s) (\<lambda>s.
              whole_then (put_winst (minst\<lparr>w_addr := adds_end s\<rparr>) s) (\<lambda>s.
                if i < length (adds source) then put_adds [adds source ! i] s else None))
         else if unat (w_type sinst) = XD3_ADD
         then whole_then (xd3_whole_alloc_adds this_take s) (\<lambda>s.
              whole_then (put_winst (minst\<lparr>w_addr := adds_end s\<rparr>) s) (\<lambda>s.
                if i + unat sinst_offset + unat this_take \<le> length (adds source)
                then put_adds (take (unat this_take) (drop (i + unat sinst_offset) (adds source))) s else None))
         else put_winst (minst\<lparr>w_mode := w_mode sinst, w_addr := w_addr sinst + ucast sinst_offset\<rparr>) s)"

definition copies_target :: "xd3_winst \<Rightarrow> bool" where
  "copies_target w \<longleftrightarrow> unat (w_type w) \<noteq> XD3_RUN \<and> unat (w_type w) \<noteq> XD3_ADD \<and> w_mode w = 0"

text \<open>
  The loop of \<^verbatim>\<open>xd3_merge_source_copy\<close>, from instruction \<open>n\<close> of the source on. A copy from the target is
  looked up in its turn, by the recursive call; the slot allocated for it is not used.
\<close>

partial_function (option) merge_copy_loop ::
    "xd3_whole_state \<Rightarrow> nat \<Rightarrow> xd3_winst \<Rightarrow> xd3_merge_stream \<Rightarrow> (xd3_err + xd3_merge_stream) option" where
  "merge_copy_loop source n iinst s =
     (if w_size iinst = 0 then whole_ok s
      else if n \<ge> length (winsts source) then None
      else
        (let sinst = winsts source ! n;
             sinst_offset = ucast (w_addr iinst - w_position sinst) :: u32;
             this_take = min (w_size iinst) (w_size sinst - sinst_offset);
             tinst = \<lparr>w_type = of_nat XD3_CPY, w_mode = w_mode iinst, w_size = this_take,
                      w_addr = w_addr sinst + ucast sinst_offset, w_position = w_position iinst\<rparr>;
             iinst1 = iinst\<lparr>w_size := w_size iinst - this_take, w_addr := w_addr iinst + ucast this_take,
                            w_position := w_position iinst + ucast this_take\<rparr>
         in Option.bind
              (Option.bind (xd3_whole_alloc_winst s) (\<lambda>r.
                 case r of
                   Inl e \<Rightarrow> Some (Inl e)
                 | Inr s \<Rightarrow>
                     if copies_target sinst
                     then Option.bind (xd3_merge_find_position source (w_addr tinst)) (\<lambda>r.
                            case r of Inl e \<Rightarrow> Some (Inl e) | Inr k \<Rightarrow> merge_copy_loop source k tinst s)
                     else merge_piece source sinst sinst_offset this_take (w_position iinst) s))
              (\<lambda>r. case r of Inl e \<Rightarrow> Some (Inl e) | Inr s \<Rightarrow> merge_copy_loop source (n + 1) iinst1 s)))"

definition xd3_merge_source_copy :: "xd3_whole_state \<Rightarrow> xd3_winst \<Rightarrow> xd3_merge_stream \<Rightarrow> xd3_merge_stream whole_step" where
  "xd3_merge_source_copy source iinst s =
     whole_then (xd3_merge_find_position source (w_addr iinst)) (\<lambda>k. merge_copy_loop source k iinst s)"

section \<open>Merging\<close>

definition merge_inst :: "xd3_whole_state \<Rightarrow> xd3_whole_state \<Rightarrow> xd3_winst \<Rightarrow> xd3_merge_stream \<Rightarrow> xd3_merge_stream whole_step" where
  "merge_inst source input iinst s =
     (if unat (w_type iinst) = XD3_RUN then xd3_merge_run input iinst s
      else if unat (w_type iinst) = XD3_ADD then xd3_merge_add input iinst s
      else whole_then
             (if w_mode iinst = 0 \<or> w_mode iinst = ucast VCD_TARGET then xd3_merge_target_copy iinst s
              else xd3_merge_source_copy source iinst s)
             (\<lambda>s. whole_ok (add_length (w_size iinst) s)))"

fun merge_wininfos :: "xd3_wininfo list \<Rightarrow> xd3_merge_stream \<Rightarrow> xd3_merge_stream whole_step" where
  "merge_wininfos [] s = whole_ok s"
| "merge_wininfos (w # ws) s =
     whole_then (xd3_whole_alloc_wininfo s) (\<lambda>s. whole_then (put_wininfo w s) (merge_wininfos ws))"

fun merge_insts :: "xd3_whole_state \<Rightarrow> xd3_whole_state \<Rightarrow> xd3_winst list \<Rightarrow> xd3_merge_stream \<Rightarrow> xd3_merge_stream whole_step" where
  "merge_insts source input [] s = whole_ok s"
| "merge_insts source input (w # ws) s = whole_then (merge_inst source input w s) (merge_insts source input ws)"

definition xd3_merge_inputs :: "xd3_whole_state \<Rightarrow> xd3_whole_state \<Rightarrow> xd3_merge_stream \<Rightarrow> xd3_merge_stream whole_step" where
  "xd3_merge_inputs source input s =
     whole_then (merge_wininfos (wininfos input) s) (merge_insts source input (winsts input))"

text \<open>
  \<^verbatim>\<open>xd3_merge_input_output\<close>: the result goes into a stream of its own, configured with the defaults (\<open>rinst\<close>
  and \<open>h\<close> are the platform's, \<open>answers\<close> its allocator), and is swapped in.
\<close>

definition xd3_merge_input_output ::
    "nat \<Rightarrow> xd3_malloc \<Rightarrow> (nat \<Rightarrow> bool) \<Rightarrow> xd3_whole_state \<Rightarrow> xd3_merge_stream \<Rightarrow> xd3_merge_stream whole_step" where
  "xd3_merge_input_output rinst h answers source s =
     (case xd3_config_stream rinst h None Map.empty 0 of
        (ret, _, tmp) \<Rightarrow>
          if ret \<noteq> XD3_OK then whole_fail ret (case msg tmp of None \<Rightarrow> '''' | Some m \<Rightarrow> m)
          else
            whole_then (xd3_whole_state_init \<lparr>whole_target = empty_whole, heap_answers = answers, heap_count = 0\<rparr>) (\<lambda>tmp.
            whole_then (xd3_merge_inputs source (whole_target s) tmp) (\<lambda>tmp.
              whole_ok (s\<lparr>whole_target := fst (xd3_swap_whole_state (whole_target s, whole_target tmp))\<rparr>))))"

end
