(* ===== verification/Compose.thy ===== *)
theory Compose
  imports Merge
begin

text \<open>
  What a whole delta means (\<open>whole_exec\<close>), and that merging composes: the merged delta makes from
  the first file what the second delta makes of what the first delta makes of it.
\<close>

section \<open>The meaning of a whole delta\<close>

text \<open>One instruction on what is already there, over the file \<open>A\<close>. The last case is every copy from the target.\<close>

definition winst_bytes :: "bytes \<Rightarrow> bytes \<Rightarrow> bytes \<Rightarrow> xd3_winst \<Rightarrow> bytes option" where
  "winst_bytes as A out w =
     (let a = unat (w_addr w); n = unat (w_size w) in
      if unat (w_type w) = XD3_RUN then (if a < length as then Some (replicate n (as ! a)) else None)
      else if unat (w_type w) = XD3_ADD then (if a + n \<le> length as then Some (take n (drop a as)) else None)
      else if w_mode w = ucast VCD_SOURCE then (if a + n \<le> length A then Some (take n (drop a A)) else None)
      else (if a < length out then Some (copied n a out) else None))"

fun whole_exec :: "bytes \<Rightarrow> bytes \<Rightarrow> xd3_winst list \<Rightarrow> bytes \<Rightarrow> bytes option" where
  "whole_exec as A [] out = Some out"
| "whole_exec as A (w # ws) out =
     (if unat (w_position w) = length out
      then (case winst_bytes as A out w of None \<Rightarrow> None | Some bs \<Rightarrow> whole_exec as A ws (out @ bs))
      else None)"

text \<open>The state makes \<open>M\<close> from \<open>A\<close>; no instruction is empty, none copies from the target window of another file.\<close>

definition whole_means :: "bytes \<Rightarrow> xd3_whole_state \<Rightarrow> bytes \<Rightarrow> bool" where
  "whole_means A S M \<longleftrightarrow> whole_exec (adds S) A (winsts S) [] = Some M \<and> unat (whole_length S) = length M \<and>
     (\<forall>w \<in> set (winsts S). w_size w \<noteq> 0 \<and> w_mode w \<in> {0, ucast VCD_SOURCE})"

section \<open>The meaning, instruction by instruction\<close>

text \<open>Instructions one after the other from place \<open>a\<close> to place \<open>b\<close>.\<close>

fun tiles :: "nat \<Rightarrow> xd3_winst list \<Rightarrow> nat \<Rightarrow> bool" where
  "tiles a [] b \<longleftrightarrow> a = b"
| "tiles a (w # ws) b \<longleftrightarrow> unat (w_position w) = a \<and> tiles (a + unat (w_size w)) ws b"

text \<open>What an instruction says of the whole file \<open>M\<close>.\<close>

definition winst_ok :: "bytes \<Rightarrow> bytes \<Rightarrow> bytes \<Rightarrow> xd3_winst \<Rightarrow> bool" where
  "winst_ok as A M w \<longleftrightarrow>
     (let a = unat (w_addr w); n = unat (w_size w); p = unat (w_position w) in
      if unat (w_type w) = XD3_RUN then a < length as \<and> (\<forall>j < n. M ! (p + j) = as ! a)
      else if unat (w_type w) = XD3_ADD then a + n \<le> length as \<and> (\<forall>j < n. M ! (p + j) = as ! (a + j))
      else if w_mode w = ucast VCD_SOURCE then a + n \<le> length A \<and> (\<forall>j < n. M ! (p + j) = A ! (a + j))
      else a < p \<and> (\<forall>j < n. M ! (p + j) = M ! (a + j)))"

lemma tiles_append: "tiles a (ws @ vs) c \<longleftrightarrow> (\<exists>b. tiles a ws b \<and> tiles b vs c)"
  by (induction ws arbitrary: a) auto

lemma tiles_le: "tiles a ws b \<Longrightarrow> a \<le> b"
  by (induction ws arbitrary: a) fastforce+

lemma tiles_count: "tiles a ws b \<Longrightarrow> \<forall>w \<in> set ws. w_size w \<noteq> 0 \<Longrightarrow> a + length ws \<le> b"
proof (induction ws arbitrary: a)
  case (Cons w ws)
  then have "a + unat (w_size w) + length ws \<le> b" by simp
  moreover have "unat (w_size w) \<noteq> 0" using Cons.prems by (simp add: unat_eq_0)
  ultimately show ?case by simp
qed simp

lemma tiles_nth: "tiles a ws b \<Longrightarrow> k < length ws \<Longrightarrow> a \<le> unat (w_position (ws ! k)) \<and> unat (w_position (ws ! k)) + unat (w_size (ws ! k)) \<le> b"
proof (induction ws arbitrary: a k)
  case (Cons w ws)
  show ?case
  proof (cases k)
    case 0
    then show ?thesis using Cons.prems tiles_le [of "a + unat (w_size w)" ws b] by simp
  next
    case (Suc i)
    then show ?thesis using Cons.IH [of "a + unat (w_size w)" i] Cons.prems by simp
  qed
qed simp

lemma tiles_next: "tiles a ws b \<Longrightarrow> Suc k < length ws \<Longrightarrow>
    unat (w_position (ws ! Suc k)) = unat (w_position (ws ! k)) + unat (w_size (ws ! k))"
proof (induction ws arbitrary: a k)
  case (Cons w ws)
  then show ?case by (cases k; cases ws) auto
qed simp

lemma tiles_end: "tiles a ws b \<Longrightarrow> Suc k = length ws \<Longrightarrow> b = unat (w_position (ws ! k)) + unat (w_size (ws ! k))"
proof (induction ws arbitrary: a k)
  case (Cons w ws)
  then show ?case by (cases k; cases ws) auto
qed simp

text \<open>A list copied onto its own end is the list continued with period \<open>length out - a\<close>.\<close>

lemma copied_nth: "a < length out \<Longrightarrow> j < n \<Longrightarrow> (out @ copied n a out) ! (length out + j) = (out @ copied n a out) ! (a + j)"
proof (induction n a out arbitrary: j rule: copied.induct)
  case (2 n a U)
  show ?case
  proof (cases j)
    case 0
    then show ?thesis using "2.prems" by (simp add: nth_append)
  next
    case (Suc i)
    then show ?thesis using "2.IH" [of i] "2.prems" by simp
  qed
qed simp

lemma copied_unique:
  assumes "a < length out" "length bs = n" "\<forall>j < n. (out @ bs) ! (length out + j) = (out @ bs) ! (a + j)"
  shows "bs = copied n a out"
  using assms
proof (induction n a out arbitrary: bs rule: copied.induct)
  case (2 n a U)
  then obtain b cs where bs: "bs = b # cs" by (cases bs) auto
  have b: "b = U ! a" using "2.prems"(1,3) bs by (auto simp: nth_append dest: spec [of _ 0])
  have "\<forall>j < n. ((U @ [b]) @ cs) ! (length (U @ [b]) + j) = ((U @ [b]) @ cs) ! (Suc a + j)"
  proof (intro allI impI)
    fix j assume "j < n"
    then have "(U @ bs) ! (length U + Suc j) = (U @ bs) ! (a + Suc j)" using "2.prems"(3) by blast
    moreover have "(U @ [b]) @ cs = U @ bs" "length (U @ [b]) + j = length U + Suc j" "Suc a + j = a + Suc j" by (simp_all add: bs)
    ultimately show "((U @ [b]) @ cs) ! (length (U @ [b]) + j) = ((U @ [b]) @ cs) ! (Suc a + j)" by (simp only:)
  qed
  then have "cs = copied n (Suc a) (U @ [b])" using "2.IH" [of cs] "2.prems"(1,2) bs b by simp
  then show ?case using bs b by simp
qed simp

text \<open>The two readings agree, for the part of \<open>M\<close> the instructions make.\<close>

lemma take_drop_nth: "length bs = n \<Longrightarrow> \<forall>j < n. bs ! j = as ! (a + j) \<Longrightarrow> a + n \<le> length as \<Longrightarrow> bs = take n (drop a as)"
  by (rule nth_equalityI) simp_all

lemma winst_bytes_ok:
  assumes M: "M = out @ bs @ rest" and p: "unat (w_position w) = length out" "length bs = unat (w_size w)"
  shows "winst_bytes as A out w = Some bs \<longleftrightarrow> winst_ok as A M w"
proof -
  have nth: "M ! (length out + j) = bs ! j" if "j < unat (w_size w)" for j
    using that by (simp add: M p nth_append)
  have self: "copied (unat (w_size w)) (unat (w_addr w)) out = bs \<longleftrightarrow>
      (\<forall>j < unat (w_size w). M ! (length out + j) = M ! (unat (w_addr w) + j))"
    if "unat (w_addr w) < length out"
  proof -
    have M': "M = (out @ bs) @ rest" by (simp add: M)
    have eq: "M ! i = (out @ bs) ! i" if "i < length out + length bs" for i
      unfolding M' by (subst nth_append) (use that in simp)
    have "(\<forall>j < unat (w_size w). M ! (length out + j) = M ! (unat (w_addr w) + j)) \<longleftrightarrow>
      (\<forall>j < unat (w_size w). (out @ bs) ! (length out + j) = (out @ bs) ! (unat (w_addr w) + j))"
      using that by (simp add: p eq)
    then show ?thesis using copied_nth [OF that] copied_unique [OF that p(2)] by auto
  qed
  have rep: "replicate (unat (w_size w)) x = bs \<longleftrightarrow> (\<forall>j < unat (w_size w). bs ! j = x)" for x
    using p(2) by (auto simp: list_eq_iff_nth_eq)
  have tk: "take (unat (w_size w)) (drop (unat (w_addr w)) xs) = bs \<longleftrightarrow> (\<forall>j < unat (w_size w). bs ! j = xs ! (unat (w_addr w) + j))"
    if "unat (w_addr w) + unat (w_size w) \<le> length xs" for xs
    using that p(2) by (auto simp: list_eq_iff_nth_eq)
  have none: "[] = bs" if "unat (w_addr w) + unat (w_size w) \<le> length as" "\<not> unat (w_addr w) < length as"
    using that p(2) by (cases bs) auto
  show ?thesis
    unfolding winst_bytes_def winst_ok_def Let_def p(1)
    using none by (simp add: rep tk self split: if_splits) (auto simp: nth)
qed

lemma winst_bytes_length: "winst_bytes as A out w = Some bs \<Longrightarrow> length bs = unat (w_size w)"
  by (auto simp: winst_bytes_def Let_def split: if_splits)

lemma whole_exec_prefix: "whole_exec as A ws out = Some M \<Longrightarrow> \<exists>rest. M = out @ rest"
proof (induction ws arbitrary: out)
  case (Cons w ws)
  then show ?case by (fastforce split: if_splits option.splits)
qed simp

lemma whole_exec_tiles:
  "whole_exec as A ws out = Some M \<longleftrightarrow> (\<exists>rest. M = out @ rest) \<and> tiles (length out) ws (length M) \<and> (\<forall>w \<in> set ws. winst_ok as A M w)"
proof (induction ws arbitrary: out)
  case Nil
  then show ?case by auto
next
  case (Cons w ws)
  show ?case (is "?l \<longleftrightarrow> ?r")
  proof
    assume l: ?l
    then obtain bs where bs: "unat (w_position w) = length out" "winst_bytes as A out w = Some bs"
      "whole_exec as A ws (out @ bs) = Some M" by (auto split: if_splits option.splits)
    have n: "length bs = unat (w_size w)" by (rule winst_bytes_length [OF bs(2)])
    from Cons.IH [of "out @ bs"] bs(3) obtain rest where r: "M = out @ bs @ rest" "tiles (length out + length bs) ws (length M)"
      "\<forall>w \<in> set ws. winst_ok as A M w" by auto
    then show ?r using winst_bytes_ok [OF r(1) bs(1) n] bs(1,2) n by auto
  next
    assume r: ?r
    then obtain rest where rest: "M = out @ rest" by blast
    have p: "unat (w_position w) = length out" "tiles (length out + unat (w_size w)) ws (length M)" using r by simp_all
    have n: "unat (w_size w) \<le> length rest" using tiles_le [OF p(2)] rest by simp
    let ?bs = "take (unat (w_size w)) rest"
    have M: "M = out @ ?bs @ drop (unat (w_size w)) rest" using rest by simp
    have l: "length ?bs = unat (w_size w)" using n by simp
    have "winst_bytes as A out w = Some ?bs" using winst_bytes_ok [OF M p(1) l] r by simp
    moreover have "whole_exec as A ws (out @ ?bs) = Some M"
    proof -
      have "\<exists>r. M = (out @ ?bs) @ r" using M by (intro exI [of _ "drop (unat (w_size w)) rest"]) simp
      moreover have "tiles (length (out @ ?bs)) ws (length M)" using p(2) l by simp
      ultimately show ?thesis using Cons.IH [of "out @ ?bs"] r by simp
    qed
    ultimately show ?l using p(1) by simp
  qed
qed

section \<open>Room\<close>

text \<open>The allocator never fails, and the state is small enough for its sizes not to wrap.\<close>

definition never_fails :: "xd3_merge_stream \<Rightarrow> bool" where
  "never_fails s \<longleftrightarrow> (\<forall>n. heap_answers s n)"

lemma round_alloc:
  assumes "unat n + 16384 < 2 ^ 32"
  shows "unat n \<le> unat (xd3_round_blksize n DECODE_ALLOCSIZE)"
proof -
  have m: "DECODE_ALLOCSIZE - 1 = mask 14" by (simp add: DECODE_ALLOCSIZE_def mask_eq_exp_minus_1)
  let ?md = "n AND mask 14"
  have md: "unat ?md = unat n mod 16384" by (simp add: unat_and_mask)
  have d: "unat DECODE_ALLOCSIZE = 16384" by (simp add: DECODE_ALLOCSIZE_def)
  have le: "?md \<le> DECODE_ALLOCSIZE" by (simp add: word_le_nat_alt md d)
  have "unat (DECODE_ALLOCSIZE - ?md) = 16384 - unat n mod 16384" using unat_sub_le [OF le] md d by simp
  then have "unat (n + (DECODE_ALLOCSIZE - ?md)) = unat n + (16384 - unat n mod 16384)"
    using assms by (subst unat_add_u32) simp_all
  moreover have "unat n mod 16384 < 16384" by simp
  ultimately have "unat n \<le> unat (n + (DECODE_ALLOCSIZE - ?md))" by arith
  then show ?thesis by (simp add: xd3_round_blksize_def Let_def m)
qed

lemma realloc_ok:
  assumes s: "never_fails s" and small: "(c + unat n) * unat u * 2 + 16384 < 2 ^ 32" and u: "0 < unat u"
  shows "\<exists>a' k. xd3_realloc_buffer (of_nat c) u n a s = whole_ok (a', s\<lparr>heap_count := k\<rparr>) \<and> (c + unat n) * unat u \<le> unat a'"
proof -
  have lt: "c + unat n \<le> (c + unat n) * unat u" using u by simp
  have "c < 2 ^ 32" using small lt by linarith
  then have c: "unat (of_nat c :: u32) = c" by (simp add: unsigned_of_nat take_bit_nat_eq_self)
  have "c + unat n < 2 ^ 32" using small lt by linarith
  then have cn: "unat (of_nat c + n) = c + unat n" using c by (subst unat_add_u32) simp_all
  have mul: "unat (x * y) = unat x * unat y" if "unat x * unat y < 2 ^ 32" for x y :: u32
    using that by (simp add: unat_word_ariths)
  have lt32: "(c + unat n) * unat u < 2 ^ 32" "(c + unat n) * unat u * 2 < 2 ^ 32" using small by linarith+
  have need: "unat ((of_nat c + n) * u) = (c + unat n) * unat u"
    unfolding cn [symmetric] by (rule mul) (simp only: cn lt32)
  have "unat ((of_nat c + n) * u * 2) = unat ((of_nat c + n) * u) * unat (2 :: u32)"
    by (rule mul) (use lt32(2) in \<open>simp add: need\<close>)
  then have two: "unat ((of_nat c + n) * u * 2) = (c + unat n) * unat u * 2" by (simp add: need)
  have le: "c * unat u \<le> (c + unat n) * unat u" by simp
  then have "c * unat u < 2 ^ 32" using small by linarith
  then have cur: "unat (of_nat c * u) = c * unat u" using c by (subst mul) simp_all
  let ?a = "xd3_round_blksize ((of_nat c + n) * u * 2) DECODE_ALLOCSIZE"
  have "(c + unat n) * unat u * 2 \<le> unat ?a" using round_alloc [of "(of_nat c + n) * u * 2"] two small by simp
  then have fits: "(c + unat n) * unat u \<le> unat ?a" "\<not> of_nat c * u > ?a"
    unfolding word_less_nat_alt cur using le by linarith+
  show ?thesis
  proof (cases "(of_nat c + n) * u \<le> a")
    case True
    then have "(c + unat n) * unat u \<le> unat a" using need by (simp add: word_le_nat_alt)
    then have "xd3_realloc_buffer (of_nat c) u n a s = whole_ok (a, s\<lparr>heap_count := heap_count s\<rparr>) \<and> (c + unat n) * unat u \<le> unat a"
      using True by (simp add: xd3_realloc_buffer_def)
    then show ?thesis by blast
  next
    case False
    then have "xd3_realloc_buffer (of_nat c) u n a s = whole_ok (?a, s\<lparr>heap_count := heap_count s + 1\<rparr>) \<and> (c + unat n) * unat u \<le> unat ?a"
      using fits s by (simp add: xd3_realloc_buffer_def whole_alloc_def never_fails_def Let_def)
    then show ?thesis by blast
  qed
qed

text \<open>The parts of the target state that mean something, and how an operation changes them.\<close>

definition became :: "xd3_merge_stream \<Rightarrow> bytes \<Rightarrow> xd3_winst list \<Rightarrow> xd3_wininfo list \<Rightarrow> u64 \<Rightarrow> xd3_merge_stream \<Rightarrow> bool" where
  "became s bs ws vs n t \<longleftrightarrow> heap_answers t = heap_answers s \<and> adds (whole_target t) = adds (whole_target s) @ bs \<and>
     winsts (whole_target t) = winsts (whole_target s) @ ws \<and> wininfos (whole_target t) = wininfos (whole_target s) @ vs \<and>
     whole_length (whole_target t) = whole_length (whole_target s) + n"

lemma became_trans: "became s bs ws vs n t \<Longrightarrow> became t bs' ws' vs' n' u \<Longrightarrow> became s (bs @ bs') (ws @ ws') (vs @ vs') (n + n') u"
  by (simp add: became_def add.assoc)

lemma became_never_fails: "became s bs ws vs n t \<Longrightarrow> never_fails s \<Longrightarrow> never_fails t"
  by (simp add: became_def never_fails_def)

lemma became_add_length: "became s bs ws vs n t \<Longrightarrow> became s bs ws vs (n + ucast k) (add_length k t)"
  by (simp add: became_def add_length_def add.assoc)

lemma alloc_winst_ok:
  assumes "never_fails s" "length (winsts (whole_target s)) < 2 ^ 26"
  shows "\<exists>t. xd3_whole_alloc_winst s = whole_ok t \<and> became s [] [] [] 0 t \<and> adds_alloc (whole_target t) = adds_alloc (whole_target s) \<and>
    (length (winsts (whole_target t)) + 1) * unat sizeof_winst \<le> unat (inst_alloc (whole_target t))"
proof -
  have "(length (winsts (whole_target s)) + unat (1 :: u32)) * unat sizeof_winst * 2 + 16384 < 2 ^ 32"
    using assms(2) by (simp add: sizeof_winst_def)
  from realloc_ok [OF assms(1) this, of "inst_alloc (whole_target s)"] show ?thesis
    unfolding xd3_whole_alloc_winst_def by (auto simp: became_def sizeof_winst_def)
qed

lemma alloc_adds_ok:
  assumes "never_fails s" "length (adds (whole_target s)) + unat n < 2 ^ 30"
  shows "\<exists>t. xd3_whole_alloc_adds n s = whole_ok t \<and> became s [] [] [] 0 t \<and> inst_alloc (whole_target t) = inst_alloc (whole_target s) \<and>
    length (adds (whole_target t)) + unat n \<le> unat (adds_alloc (whole_target t))"
proof -
  have "(length (adds (whole_target s)) + unat n) * unat (1 :: u32) * 2 + 16384 < 2 ^ 32" using assms(2) by simp
  from realloc_ok [OF assms(1) this, of "adds_alloc (whole_target s)"] show ?thesis
    unfolding xd3_whole_alloc_adds_def by (auto simp: became_def)
qed

lemma alloc_wininfo_ok:
  assumes "never_fails s" "length (wininfos (whole_target s)) < 2 ^ 26"
  shows "\<exists>t. xd3_whole_alloc_wininfo s = whole_ok t \<and> became s [] [] [] 0 t \<and>
    (length (wininfos (whole_target t)) + 1) * unat sizeof_wininfo \<le> unat (wininfo_alloc (whole_target t))"
proof -
  have "(length (wininfos (whole_target s)) + unat (1 :: u32)) * unat sizeof_wininfo * 2 + 16384 < 2 ^ 32"
    using assms(2) by (simp add: sizeof_wininfo_def)
  from realloc_ok [OF assms(1) this, of "wininfo_alloc (whole_target s)"] show ?thesis
    unfolding xd3_whole_alloc_wininfo_def by (auto simp: became_def sizeof_wininfo_def)
qed

section \<open>The binary search\<close>

lemma tiles_cover: "tiles a ws b \<Longrightarrow> a \<le> x \<Longrightarrow> x < b \<Longrightarrow>
    \<exists>i < length ws. unat (w_position (ws ! i)) \<le> x \<and> x < unat (w_position (ws ! i)) + unat (w_size (ws ! i))"
proof (induction ws arbitrary: a)
  case (Cons w ws)
  show ?case
  proof (cases "x < a + unat (w_size w)")
    case True
    then show ?thesis using Cons.prems by (intro exI [of _ 0]) simp
  next
    case False
    then obtain i where "i < length ws" "unat (w_position (ws ! i)) \<le> x" "x < unat (w_position (ws ! i)) + unat (w_size (ws ! i))"
      using Cons.IH [of "a + unat (w_size w)"] Cons.prems by auto
    then show ?thesis by (intro exI [of _ "Suc i"]) simp
  qed
qed simp

lemma tiles_ordered: "tiles a ws b \<Longrightarrow> i < j \<Longrightarrow> j < length ws \<Longrightarrow>
    unat (w_position (ws ! i)) + unat (w_size (ws ! i)) \<le> unat (w_position (ws ! j))"
proof (induction ws arbitrary: a i j)
  case (Cons w ws)
  show ?case
  proof (cases i)
    case 0
    then show ?thesis using Cons.prems tiles_nth [of "a + unat (w_size w)" ws b "j - 1"] by (cases j) auto
  next
    case (Suc k)
    then show ?thesis using Cons.IH [of "a + unat (w_size w)" k "j - 1"] Cons.prems by (cases j) auto
  qed
qed simp

lemma position_end:
  assumes "tiles 0 ws n" "n < 2 ^ 64" "k < length ws"
  shows "unat (w_position (ws ! k) + ucast (w_size (ws ! k))) = unat (w_position (ws ! k)) + unat (w_size (ws ! k))"
proof -
  have u: "unat (ucast (w_size (ws ! k)) :: u64) = unat (w_size (ws ! k))"
    using unat_less_u32 [of "w_size (ws ! k)"] by (simp add: unsigned_ucast_eq take_bit_nat_eq_self)
  then show ?thesis using tiles_nth [OF assms(1,3)] assms(2) by (subst unat_add_u64) simp_all
qed

lemma find_position_loop_works:
  assumes "tiles 0 ws n" "n < 2 ^ 64" and "i < length ws" "unat (w_position (ws ! i)) \<le> unat address"
    "unat address < unat (w_position (ws ! i)) + unat (w_size (ws ! i))"
  shows "low \<le> i \<Longrightarrow> i < high \<Longrightarrow> high \<le> length ws \<Longrightarrow> find_position_loop ws address low high = Some i"
  using assms
proof (induction ws address low high rule: find_position_loop.induct)
  case (1 ws address low high)
  note ws = "1.prems"(4,5) and i = "1.prems"(6-8)
  define mid where "mid = low + (high - low) div 2"
  have mid: "low \<le> mid" "mid < high" "mid < length ws" using "1.prems"(1-3) by (auto simp: mid_def)
  note top = position_end [OF ws mid(3)]
  note unfold = find_position_loop.simps [of ws address low high, folded mid_def, unfolded Let_def]
  consider "mid < i" | "mid = i" | "i < mid" by linarith
  then show ?case
  proof cases
    case 1
    have "unat (w_position (ws ! mid)) + unat (w_size (ws ! mid)) \<le> unat address" using tiles_ordered [OF ws(1) 1 i(1)] i(2) by simp
    then have c: "\<not> address < w_position (ws ! mid)" "w_position (ws ! mid) + ucast (w_size (ws ! mid)) \<le> address"
      by (simp_all add: word_less_nat_alt word_le_nat_alt top)
    have "find_position_loop ws address (mid + 1) high = Some i"
      by (rule "1.IH"(2) [OF _ mid_def refl]) (use 1 "1.prems" c in \<open>simp_all add: mid_def\<close>)
    then show ?thesis using unfold c mid by simp
  next
    case 2
    then have "\<not> address < w_position (ws ! mid)" "\<not> w_position (ws ! mid) + ucast (w_size (ws ! mid)) \<le> address"
      using i by (simp_all add: word_less_nat_alt word_le_nat_alt top [unfolded 2])
    then show ?thesis using unfold mid 2 by simp
  next
    case 3
    then have c: "address < w_position (ws ! mid)" using tiles_ordered [OF ws(1) 3 mid(3)] i(3) by (simp add: word_less_nat_alt)
    have "find_position_loop ws address low mid = Some i"
      by (rule "1.IH"(1) [OF _ mid_def refl]) (use 3 mid "1.prems" c in \<open>simp_all add: mid_def\<close>)
    then show ?thesis using unfold c mid by simp
  qed
qed

text \<open>The instruction that made byte \<open>a\<close>.\<close>

definition made_by :: "xd3_winst list \<Rightarrow> nat \<Rightarrow> nat \<Rightarrow> bool" where
  "made_by ws a k \<longleftrightarrow> k < length ws \<and> unat (w_position (ws ! k)) \<le> a \<and> a < unat (w_position (ws ! k)) + unat (w_size (ws ! k))"

lemma find_position_works:
  assumes "tiles 0 (winsts S) n" "unat (whole_length S) = n" "unat address < n"
  shows "\<exists>k. xd3_merge_find_position S address = whole_ok k \<and> made_by (winsts S) (unat address) k"
proof -
  have n: "n < 2 ^ 64" using assms(2) unat_less_u64 [of "whole_length S"] by simp
  obtain k where k: "made_by (winsts S) (unat address) k"
    using tiles_cover [OF assms(1) _ assms(3)] by (auto simp: made_by_def)
  have "find_position_loop (winsts S) address 0 (length (winsts S)) = Some k"
    by (rule find_position_loop_works [OF assms(1) n]) (use k in \<open>simp_all add: made_by_def\<close>)
  moreover have "\<not> whole_length S \<le> address" using assms(2,3) by (simp add: word_le_nat_alt)
  ultimately show ?thesis using k by (simp add: xd3_merge_find_position_def)
qed

section \<open>The merged instructions\<close>

text \<open>
  The target so far makes the first \<open>n\<close> bytes of \<open>T\<close> from \<open>A\<close>. \<open>same\<close>: what the copies leave alone.
\<close>

definition merged :: "bytes \<Rightarrow> bytes \<Rightarrow> nat \<Rightarrow> xd3_merge_stream \<Rightarrow> bool" where
  "merged A T n s \<longleftrightarrow> never_fails s \<and> tiles 0 (winsts (whole_target s)) n \<and> length (adds (whole_target s)) \<le> n \<and>
     (\<forall>w \<in> set (winsts (whole_target s)). winst_ok (adds (whole_target s)) A T w \<and> w_size w \<noteq> 0 \<and> w_mode w \<in> {0, ucast VCD_SOURCE})"

definition same :: "xd3_merge_stream \<Rightarrow> xd3_merge_stream \<Rightarrow> bool" where
  "same s t \<longleftrightarrow> whole_length (whole_target t) = whole_length (whole_target s) \<and> wininfos (whole_target t) = wininfos (whole_target s)"

lemma same_trans: "same s t \<Longrightarrow> same t u \<Longrightarrow> same s u"
  by (simp add: same_def)

lemma became_same: "became s bs ws [] 0 t \<Longrightarrow> same s t"
  by (simp add: became_def same_def)

lemma winst_ok_more: "winst_ok as A T w \<Longrightarrow> winst_ok (as @ bs) A T w"
  by (auto simp: winst_ok_def Let_def nth_append split: if_splits)

lemma merged_room: "merged A T n s \<Longrightarrow> length (winsts (whole_target s)) \<le> n"
  using tiles_count [of 0 "winsts (whole_target s)" n] by (simp add: merged_def)

lemma merged_idle: "merged A T n s \<Longrightarrow> became s [] [] vs k t \<Longrightarrow> merged A T n t"
  by (simp add: merged_def became_def never_fails_def)

lemma merged_step:
  assumes "merged A T n s" "became s bs [w] vs k t" "unat (w_position w) = n" "winst_ok (adds (whole_target s) @ bs) A T w"
    "w_size w \<noteq> 0" "w_mode w \<in> {0, ucast VCD_SOURCE}" "length bs \<le> unat (w_size w)"
  shows "merged A T (n + unat (w_size w)) t"
  using assms by (auto simp: merged_def became_def never_fails_def tiles_append intro: winst_ok_more)

definition room :: "xd3_merge_stream \<Rightarrow> bool" where
  "room s \<longleftrightarrow> (length (winsts (whole_target s)) + 1) * unat sizeof_winst \<le> unat (inst_alloc (whole_target s))"

lemma merged_alloc_winst:
  assumes "merged A T n s" "n < 2 ^ 26"
  shows "\<exists>t. xd3_whole_alloc_winst s = whole_ok t \<and> became s [] [] [] 0 t \<and> merged A T n t \<and> room t"
proof -
  have "never_fails s" "length (winsts (whole_target s)) < 2 ^ 26" using assms merged_room [OF assms(1)] by (simp_all add: merged_def)
  from alloc_winst_ok [OF this] show ?thesis using merged_idle [OF assms(1)] by (auto simp: room_def)
qed

lemma merged_alloc_adds:
  assumes "merged A T n s" "n < 2 ^ 26" "unat m \<le> 2 ^ 26" "room s"
  shows "\<exists>t. xd3_whole_alloc_adds m s = whole_ok t \<and> became s [] [] [] 0 t \<and> merged A T n t \<and> room t \<and>
    length (adds (whole_target t)) + unat m \<le> unat (adds_alloc (whole_target t))"
proof -
  have "never_fails s" "length (adds (whole_target s)) + unat m < 2 ^ 30" using assms(1-3) by (simp_all add: merged_def)
  from alloc_adds_ok [OF this] show ?thesis using merged_idle [OF assms(1)] assms(4) by (auto simp: room_def became_def)
qed

lemma put_winst_ok: "room s \<Longrightarrow> \<exists>t. put_winst w s = whole_ok t \<and> became s [] [w] [] 0 t \<and> adds_alloc (whole_target t) = adds_alloc (whole_target s)"
  by (simp add: put_winst_def room_def became_def Let_def)

lemma put_adds_ok: "length (adds (whole_target s)) + length bs \<le> unat (adds_alloc (whole_target s)) \<Longrightarrow>
    \<exists>t. put_adds bs s = whole_ok t \<and> became s bs [] [] 0 t"
  by (simp add: put_adds_def became_def Let_def)

text \<open>Bytes are allocated and an instruction for them is written, then the bytes.\<close>

lemma put_with_adds:
  assumes s: "merged A T n s" "n < 2 ^ 26" "room s" and m: "unat m = length bs" "length bs \<le> 2 ^ 26"
  shows "\<exists>s1 s2 t. xd3_whole_alloc_adds m s = whole_ok s1 \<and> unat (adds_end s1) = length (adds (whole_target s)) \<and> same s s1 \<and>
    put_winst w s1 = whole_ok s2 \<and> put_adds bs (add_length k s2) = whole_ok (add_length k t) \<and> put_adds bs s2 = whole_ok t \<and>
    became s bs [w] [] 0 t"
proof -
  have le: "unat m \<le> 2 ^ 26" using m by simp
  obtain s1 where s1: "xd3_whole_alloc_adds m s = whole_ok s1" "became s [] [] [] 0 s1" "merged A T n s1" "room s1"
    "length (adds (whole_target s1)) + unat m \<le> unat (adds_alloc (whole_target s1))"
    using merged_alloc_adds [OF s(1,2) le s(3)] by blast
  obtain s2 where s2: "put_winst w s1 = whole_ok s2" "became s1 [] [w] [] 0 s2" "adds_alloc (whole_target s2) = adds_alloc (whole_target s1)"
    using put_winst_ok [OF s1(4)] by blast
  have r: "length (adds (whole_target s2)) + length bs \<le> unat (adds_alloc (whole_target s2))"
    using s1(5) s2(2,3) m by (simp add: became_def)
  obtain t where t: "put_adds bs s2 = whole_ok t" "became s2 bs [] [] 0 t" using put_adds_ok [OF r] by blast
  have "put_adds bs (add_length k s2) = whole_ok (add_length k t)"
    using t(1) r by (auto simp: put_adds_def add_length_def Let_def)
  moreover have "unat (adds_end s1) = length (adds (whole_target s))"
  proof -
    have "length (adds (whole_target s)) < 2 ^ 64" using s(1,2) by (simp add: merged_def)
    then show ?thesis using s1(2) by (simp add: adds_end_def became_def unsigned_of_nat take_bit_nat_eq_self)
  qed
  moreover have "became s bs [w] [] 0 t" using became_trans [OF became_trans [OF s1(2) s2(2)] t(2)] by simp
  ultimately show ?thesis using s1(1) s2(1) t(1) became_same [OF s1(2)] by blast
qed

lemma merged_with_adds:
  assumes "merged A T n s" "became s bs [w] [] 0 t" "unat (w_position w) = n" "w_size w \<noteq> 0" "w_mode w \<in> {0, ucast VCD_SOURCE}"
    "unat (w_addr w) = length (adds (whole_target s))"
    "unat (w_type w) = XD3_RUN \<and> length bs = 1 \<and> (\<forall>j < unat (w_size w). T ! (n + j) = bs ! 0) \<or>
     unat (w_type w) = XD3_ADD \<and> length bs = unat (w_size w) \<and> (\<forall>j < unat (w_size w). T ! (n + j) = bs ! j)"
  shows "merged A T (n + unat (w_size w)) t"
proof (rule merged_step [OF assms(1-3) _ assms(4,5)])
  have z: "0 < unat (w_size w)" using assms(4) by (simp add: unat_gt_0)
  then show "length bs \<le> unat (w_size w)" using assms(7) by auto
  show "winst_ok (adds (whole_target s) @ bs) A T w"
    using assms(3,6,7) by (auto simp: winst_ok_def Let_def nth_append inst_types)
qed

text \<open>One piece of a copied range: source instruction \<open>w\<close>, \<open>off\<close> into it, \<open>m\<close> bytes.\<close>

lemma merge_piece_works:
  assumes s: "merged A T n s" "n < 2 ^ 26" "room s" and w: "winst_ok (adds S) A M w" "w_mode w \<in> {0, ucast VCD_SOURCE}" "\<not> copies_target w"
    and m: "m \<noteq> 0" "unat off + unat m \<le> unat (w_size w)" "unat m \<le> 2 ^ 26"
    and p: "unat p = n" "\<forall>j < unat m. T ! (n + j) = M ! (unat (w_position w) + (unat off + j))" and A: "length A < 2 ^ 64"
  shows "\<exists>t. merge_piece S w off m p s = whole_ok t \<and> merged A T (n + unat m) t \<and> same s t"
proof -
  let ?a = "unat (w_addr w)" and ?W = "\<lambda>x mode. \<lparr>w_type = w_type w, w_mode = mode, w_size = m, w_addr = x, w_position = p\<rparr>"
  consider (run) "unat (w_type w) = XD3_RUN" | (add) "unat (w_type w) = XD3_ADD" "unat (w_type w) \<noteq> XD3_RUN"
    | (copy) "unat (w_type w) \<noteq> XD3_ADD" "unat (w_type w) \<noteq> XD3_RUN" "w_mode w = ucast VCD_SOURCE"
    using w(2,3) by (cases "unat (w_type w) = XD3_RUN"; cases "unat (w_type w) = XD3_ADD") (auto simp: copies_target_def)
  then show ?thesis
  proof cases
    case run
    have r: "?a < length (adds S)" "\<forall>j < unat (w_size w). M ! (unat (w_position w) + j) = adds S ! ?a"
      using w(1) run by (simp_all add: winst_ok_def Let_def)
    have one: "unat (1 :: u32) = length [adds S ! ?a]" "length [adds S ! ?a] \<le> 2 ^ 26" by simp_all
    obtain s1 s2 t where t: "xd3_whole_alloc_adds 1 s = whole_ok s1" "unat (adds_end s1) = length (adds (whole_target s))"
      "put_winst (?W (adds_end s1) 0) s1 = whole_ok s2" "put_adds [adds S ! ?a] s2 = whole_ok t" "became s [adds S ! ?a] [?W (adds_end s1) 0] [] 0 t"
    proof -
      obtain s1 where "xd3_whole_alloc_adds 1 s = whole_ok s1" using put_with_adds [OF s one] by blast
      then show thesis using put_with_adds [OF s one, of "?W (adds_end s1) 0"] that by auto
    qed
    have "\<forall>j < unat m. T ! (n + j) = adds S ! ?a" using p(2) r(2) m(2) by simp
    then have "merged A T (n + unat m) t"
      using merged_with_adds [OF s(1) t(5)] p(1) m(1) t(2) run by simp
    moreover have "merge_piece S w off m p s = whole_ok t"
      using run t(1,3,4) r(1) by (simp add: merge_piece_def Let_def)
    ultimately show ?thesis using became_same [OF t(5)] by blast
  next
    case add
    let ?bs = "take (unat m) (drop (?a + unat off) (adds S))"
    have r: "?a + unat (w_size w) \<le> length (adds S)" "\<forall>j < unat (w_size w). M ! (unat (w_position w) + j) = adds S ! (?a + j)"
      using w(1) add by (simp_all add: winst_ok_def Let_def)
    have in_range: "?a + unat off + unat m \<le> length (adds S)" using r(1) m(2) by simp
    then have one: "unat m = length ?bs" "length ?bs \<le> 2 ^ 26" using m(3) by simp_all
    obtain s1 s2 t where t: "xd3_whole_alloc_adds m s = whole_ok s1" "unat (adds_end s1) = length (adds (whole_target s))"
      "put_winst (?W (adds_end s1) 0) s1 = whole_ok s2" "put_adds ?bs s2 = whole_ok t" "became s ?bs [?W (adds_end s1) 0] [] 0 t"
    proof -
      obtain s1 where "xd3_whole_alloc_adds m s = whole_ok s1" using put_with_adds [OF s one] by blast
      then show thesis using put_with_adds [OF s one, of "?W (adds_end s1) 0"] that by auto
    qed
    have "\<forall>j < unat m. T ! (n + j) = ?bs ! j"
      using p(2) r(2) m(2) in_range by (simp add: add.assoc)
    then have "merged A T (n + unat m) t"
      using merged_with_adds [OF s(1) t(5)] p(1) m(1) t(2) add one(1) by simp
    moreover have "merge_piece S w off m p s = whole_ok t"
      using add t(1,3,4) in_range by (simp add: merge_piece_def Let_def)
    ultimately show ?thesis using became_same [OF t(5)] by blast
  next
    case copy
    let ?w = "?W (w_addr w + ucast off) (w_mode w)"
    have r: "?a + unat (w_size w) \<le> length A" "\<forall>j < unat (w_size w). M ! (unat (w_position w) + j) = A ! (?a + j)"
      using w(1) copy by (simp_all add: winst_ok_def Let_def)
    have o: "unat (ucast off :: u64) = unat off" using unat_less_u32 [of off] by (simp add: unsigned_ucast_eq take_bit_nat_eq_self)
    have a: "unat (w_addr w + ucast off) = ?a + unat off" using r(1) m(2) A o by (subst unat_add_u64) simp_all
    have "\<forall>j < unat m. T ! (n + j) = A ! (?a + (unat off + j))" using p(2) r(2) m(2) by simp
    then have "winst_ok (adds (whole_target s) @ []) A T ?w"
      using copy a r(1) m(2) p(1) by (simp add: winst_ok_def Let_def add.assoc)
    moreover obtain t where t: "put_winst ?w s = whole_ok t" "became s [] [?w] [] 0 t" using put_winst_ok [OF s(3)] by blast
    ultimately have "merged A T (n + unat m) t"
      using merged_step [OF s(1) t(2)] p(1) m(1) copy(3) by simp
    moreover have "merge_piece S w off m p s = whole_ok t" using copy t(1) by (simp add: merge_piece_def Let_def)
    ultimately show ?thesis using became_same [OF t(2)] by blast
  qed
qed

section \<open>Copies from the source\<close>

text \<open>What the merge knows of its source.\<close>

definition source_ok :: "bytes \<Rightarrow> bytes \<Rightarrow> xd3_whole_state \<Rightarrow> bool" where
  "source_ok A M S \<longleftrightarrow> tiles 0 (winsts S) (length M) \<and> unat (whole_length S) = length M \<and> length A < 2 ^ 64 \<and>
     (\<forall>w \<in> set (winsts S). winst_ok (adds S) A M w \<and> w_size w \<noteq> 0 \<and> w_mode w \<in> {0, ucast VCD_SOURCE})"

lemma u64_of_u32 [simp]: "unat (ucast (x :: u32) :: u64) = unat x"
  using unat_less_u32 [of x] by (simp add: unsigned_ucast_eq take_bit_nat_eq_self)

lemma made_by_facts:
  assumes S: "source_ok A M S" and k: "made_by (winsts S) (unat a) k"
  defines "w \<equiv> winsts S ! k"
  defines "off \<equiv> ucast (a - w_position w) :: u32"
  shows "k < length (winsts S)" "winst_ok (adds S) A M w" "w_size w \<noteq> 0" "w_mode w \<in> {0, ucast VCD_SOURCE}"
    "unat a = unat (w_position w) + unat off" "unat off < unat (w_size w)" "unat (w_size w - off) = unat (w_size w) - unat off"
    "unat (w_position w) + unat (w_size w) \<le> length M"
proof -
  have p: "k < length (winsts S)" "unat (w_position w) \<le> unat a" "unat a < unat (w_position w) + unat (w_size w)"
    using k by (simp_all add: made_by_def w_def)
  then show "k < length (winsts S)" "winst_ok (adds S) A M w" "w_size w \<noteq> 0" "w_mode w \<in> {0, ucast VCD_SOURCE}"
    using S by (simp_all add: source_ok_def w_def)
  have d: "unat (a - w_position w) = unat a - unat (w_position w)" using p(2) by (subst unat_sub_le) (simp_all add: word_le_nat_alt)
  have "unat (a - w_position w) < 2 ^ 32" using d p unat_less_u32 [of "w_size w"] by simp
  then have o: "unat off = unat a - unat (w_position w)" using d by (simp add: off_def unsigned_ucast_eq take_bit_nat_eq_self)
  then show "unat a = unat (w_position w) + unat off" "unat off < unat (w_size w)" using p by simp_all
  then show "unat (w_size w - off) = unat (w_size w) - unat off" by (subst unat_sub_le) (simp_all add: word_le_nat_alt)
  show "unat (w_position w) + unat (w_size w) \<le> length M"
    using tiles_nth [of 0 "winsts S" "length M" k] S p(1) by (simp add: source_ok_def w_def)
qed

text \<open>After the last byte of an instruction comes the next one.\<close>

lemma made_by_next:
  assumes S: "source_ok A M S" and k: "made_by (winsts S) a k"
    and x: "x = unat (w_position (winsts S ! k)) + unat (w_size (winsts S ! k))" "x < length M"
  shows "made_by (winsts S) x (Suc k)"
proof -
  have t: "tiles 0 (winsts S) (length M)" "k < length (winsts S)" using S k by (simp_all add: source_ok_def made_by_def)
  have "Suc k \<noteq> length (winsts S)" using tiles_end [OF t(1)] x by auto
  then have k1: "Suc k < length (winsts S)" using t(2) by simp
  have "w_size (winsts S ! Suc k) \<noteq> 0" using S k1 by (simp add: source_ok_def)
  then have "0 < unat (w_size (winsts S ! Suc k))" by (simp add: unat_gt_0)
  then show ?thesis using tiles_next [OF t(1) k1] k1 x(1) by (simp add: made_by_def)
qed

definition copy_measure :: "xd3_winst \<Rightarrow> nat" where
  "copy_measure v = (unat (w_addr v) + unat (w_size v)) * 2 ^ 32 + unat (w_size v)"

lemma merge_copy_loop_works:
  assumes S: "source_ok A M S" and T: "length T < 2 ^ 26"
  shows "merged A T n s \<Longrightarrow> unat (w_position v) = n \<Longrightarrow> unat (w_addr v) + unat (w_size v) \<le> length M \<Longrightarrow>
    w_size v \<noteq> 0 \<longrightarrow> made_by (winsts S) (unat (w_addr v)) k \<Longrightarrow>
    \<forall>j < unat (w_size v). T ! (n + j) = M ! (unat (w_addr v) + j) \<Longrightarrow> n + unat (w_size v) \<le> length T \<Longrightarrow>
    \<exists>t. merge_copy_loop S k v s = whole_ok t \<and> merged A T (n + unat (w_size v)) t \<and> same s t"
proof (induction "copy_measure v" arbitrary: v n k s rule: less_induct)
  case less
  let ?a = "unat (w_addr v)" and ?z = "unat (w_size v)"
  have M64: "length M < 2 ^ 64" using S unat_less_u64 [of "whole_length S"] by (simp add: source_ok_def)
  show ?case
  proof (cases "w_size v = 0")
    case True
    then have "merge_copy_loop S k v s = whole_ok s" by (subst merge_copy_loop.simps) simp
    then show ?thesis using less.prems(1) True by (simp add: same_def)
  next
    case False
    then have mb: "made_by (winsts S) ?a k" using less.prems(4) by blast
    define w where "w = winsts S ! k"
    define off where "off = (ucast (w_addr v - w_position w) :: u32)"
    define m where "m = min (w_size v) (w_size w - off)"
    note w = made_by_facts [OF S mb, folded w_def, folded off_def]
    have mz: "unat m = min ?z (unat (w_size w) - unat off)" unfolding m_def using w(7) by (auto simp: min_def word_le_nat_alt)
    have z: "0 < ?z" using False by (simp add: unat_gt_0)
    then have m: "m \<noteq> 0" "0 < unat m" "unat m \<le> ?z" "unat off + unat m \<le> unat (w_size w)" using mz w(6) by (auto simp: unat_eq_0)
    define v1 where "v1 = v\<lparr>w_size := w_size v - m, w_addr := w_addr v + ucast m, w_position := w_position v + ucast m\<rparr>"
    define tinst where "tinst = \<lparr>w_type = of_nat XD3_CPY, w_mode = w_mode v, w_size = m, w_addr = w_addr w + ucast off, w_position = w_position v\<rparr>"
    have n: "n < 2 ^ 26" "n + unat m \<le> length T" "unat m \<le> 2 ^ 26" using less.prems(6) z m(3) T by simp_all
    have Tw: "\<forall>j < unat m. T ! (n + j) = M ! (unat (w_position w) + (unat off + j))"
      using less.prems(5) m(3) w(5) by (simp add: add.assoc)
    obtain s1 where s1: "xd3_whole_alloc_winst s = whole_ok s1" "became s [] [] [] 0 s1" "merged A T n s1" "room s1"
      using merged_alloc_winst [OF less.prems(1) n(1)] by blast
    let ?inner = "if copies_target w
                  then Option.bind (xd3_merge_find_position S (w_addr tinst)) (\<lambda>r.
                         case r of Inl e \<Rightarrow> Some (Inl e) | Inr k \<Rightarrow> merge_copy_loop S k tinst s1)
                  else merge_piece S w off m (w_position v) s1"
    obtain s2 where s2: "?inner = whole_ok s2" "merged A T (n + unat m) s2" "same s1 s2"
    proof (cases "copies_target w")
      case True
      have r: "unat (w_addr w) < unat (w_position w)" "\<forall>j < unat (w_size w). M ! (unat (w_position w) + j) = M ! (unat (w_addr w) + j)"
        using w(2) True by (auto simp: winst_ok_def copies_target_def Let_def VCD_SOURCE_def split: if_splits)
      have ta: "unat (w_addr tinst) = unat (w_addr w) + unat off"
        using r(1) w(6,8) M64 by (simp add: tinst_def) (subst unat_add_u64; simp)
      have lt: "unat (w_addr tinst) + unat m < ?a + ?z" "unat (w_addr tinst) + unat m \<le> length M"
        using ta r(1) w(5,8) m(3,4) by simp_all
      obtain k1 where k1: "xd3_merge_find_position S (w_addr tinst) = whole_ok k1" "made_by (winsts S) (unat (w_addr tinst)) k1"
        using find_position_works [of S "length M" "w_addr tinst"] S lt(2) m(2) by (auto simp: source_ok_def)
      have "(unat (w_addr tinst) + unat m + 1) * 2 ^ 32 \<le> (?a + ?z) * 2 ^ 32" using lt(1) by (intro mult_right_mono) simp_all
      then have "copy_measure tinst < copy_measure v"
        using unat_less_u32 [of m] by (simp add: copy_measure_def tinst_def)
      moreover have "\<forall>j < unat m. T ! (n + j) = M ! (unat (w_addr tinst) + j)"
        using Tw r(2) m(4) ta by (simp add: add.assoc)
      ultimately obtain s2 where "merge_copy_loop S k1 tinst s1 = whole_ok s2" "merged A T (n + unat m) s2" "same s1 s2"
        using less.hyps [of tinst n s1 k1] s1(3) less.prems(2) k1(2) lt(2) n(2) by (auto simp: tinst_def)
      then show thesis using that True k1(1) by (simp add: whole_ok_def)
    next
      case no: False
      have "length A < 2 ^ 64" using S by (simp add: source_ok_def)
      from merge_piece_works [OF s1(3) n(1) s1(4) w(2,4) no m(1,4) n(3) less.prems(2) Tw this] show thesis using that no by auto
    qed
    have inner: "Option.bind (xd3_whole_alloc_winst s) (\<lambda>r.
         case r of
           Inl e \<Rightarrow> Some (Inl e)
         | Inr s \<Rightarrow>
             if copies_target w
             then Option.bind (xd3_merge_find_position S (w_addr tinst)) (\<lambda>r.
                    case r of Inl e \<Rightarrow> Some (Inl e) | Inr k \<Rightarrow> merge_copy_loop S k tinst s)
             else merge_piece S w off m (w_position v) s) = whole_ok s2"
      using s2(1) unfolding s1(1) by (simp add: whole_ok_def)
    have step: "merge_copy_loop S k v s = merge_copy_loop S (Suc k) v1 s2"
      unfolding merge_copy_loop.simps [of S k v s] Let_def w_def [symmetric] off_def [symmetric] m_def [symmetric]
        tinst_def [symmetric] v1_def [symmetric] inner
      using False w(1) by (simp add: whole_ok_def)
    have v1: "unat (w_size v1) = ?z - unat m" "unat (w_addr v1) = ?a + unat m" "unat (w_position v1) = n + unat m"
    proof -
      show "unat (w_size v1) = ?z - unat m" using m(3) unfolding v1_def by simp (subst unat_sub_le; simp add: word_le_nat_alt)
      show "unat (w_addr v1) = ?a + unat m" using m(3) less.prems(3) M64 unfolding v1_def by simp (subst unat_add_u64; simp)
      show "unat (w_position v1) = n + unat m" using n less.prems(2) unfolding v1_def by simp (subst unat_add_u64; simp)
    qed
    have "copy_measure v1 < copy_measure v" using v1 m(2,3) by (simp add: copy_measure_def)
    moreover have "w_size v1 \<noteq> 0 \<longrightarrow> made_by (winsts S) (unat (w_addr v1)) (Suc k)"
    proof
      assume "w_size v1 \<noteq> 0"
      then have "unat m < ?z" using v1(1) by (metis diff_is_0_eq not_le unat_eq_0)
      then have "unat m = unat (w_size w) - unat off" using mz by simp
      then have "unat (w_addr v1) = unat (w_position w) + unat (w_size w)" using v1(2) w(5,6) by simp
      moreover have "unat (w_addr v1) < length M" using v1(2) \<open>unat m < ?z\<close> less.prems(3) by simp
      ultimately show "made_by (winsts S) (unat (w_addr v1)) (Suc k)" using made_by_next [OF S mb] by (simp add: w_def)
    qed
    moreover have "\<forall>j < unat (w_size v1). T ! (n + unat m + j) = M ! (unat (w_addr v1) + j)"
    proof (intro allI impI)
      fix j assume "j < unat (w_size v1)"
      then have "unat m + j < ?z" using v1(1) by simp
      then show "T ! (n + unat m + j) = M ! (unat (w_addr v1) + j)" using less.prems(5) v1(2) by (simp add: add.assoc)
    qed
    ultimately obtain t where "merge_copy_loop S (Suc k) v1 s2 = whole_ok t" "merged A T (n + unat m + unat (w_size v1)) t" "same s2 t"
      using less.hyps [of v1 "n + unat m" s2 "Suc k"] s2(2) v1 m(3) less.prems(3,6) by auto
    then show ?thesis using step v1(1) m(3) same_trans [OF same_trans [OF became_same [OF s1(2)] s2(3)]] by simp
  qed
qed

section \<open>The whole merge\<close>

lemma merged_add_length [simp]: "merged A T n (add_length k t) = merged A T n t"
  by (simp add: merged_def add_length_def never_fails_def)

lemma length_added:
  assumes "unat (whole_length (whole_target s)) = n" "n + unat k \<le> length T" "length T < 2 ^ 26"
    "whole_length (whole_target t) = whole_length (whole_target s)"
  shows "unat (whole_length (whole_target (add_length k t))) = n + unat k"
  using assms by (simp add: add_length_def) (subst unat_add_u64; simp)

text \<open>Everything that is said of the target after one more instruction.\<close>

definition after :: "bytes \<Rightarrow> bytes \<Rightarrow> nat \<Rightarrow> xd3_wininfo list \<Rightarrow> xd3_merge_stream \<Rightarrow> bool" where
  "after A T n vs t \<longleftrightarrow> merged A T n t \<and> unat (whole_length (whole_target t)) = n \<and> wininfos (whole_target t) = vs"

lemma merge_with_adds:
  assumes s: "after A T n vs s" and w: "unat (w_position w) = n" "w_size w \<noteq> 0" "w_mode w \<in> {0, ucast VCD_SOURCE}"
    and T: "n + unat (w_size w) \<le> length T" "length T < 2 ^ 26" and m: "unat m = length bs" "length bs \<le> 2 ^ 26"
    and bs: "unat (w_type w) = XD3_RUN \<and> length bs = 1 \<and> (\<forall>j < unat (w_size w). T ! (n + j) = bs ! 0) \<or>
     unat (w_type w) = XD3_ADD \<and> length bs = unat (w_size w) \<and> (\<forall>j < unat (w_size w). T ! (n + j) = bs ! j)"
  shows "\<exists>t. whole_then (xd3_whole_alloc_winst s) (\<lambda>s.
     whole_then (xd3_whole_alloc_adds m s) (\<lambda>s.
     whole_then (put_winst \<lparr>w_type = w_type w, w_mode = w_mode w, w_size = w_size w, w_addr = adds_end s,
         w_position = whole_length (whole_target s)\<rparr> s) (\<lambda>s. put_adds bs (add_length (w_size w) s)))) = whole_ok t \<and>
     after A T (n + unat (w_size w)) vs t"
proof -
  have s': "merged A T n s" "unat (whole_length (whole_target s)) = n" "wininfos (whole_target s) = vs" using s by (simp_all add: after_def)
  have n: "n < 2 ^ 26" using T by simp
  obtain s1 where s1: "xd3_whole_alloc_winst s = whole_ok s1" "became s [] [] [] 0 s1" "merged A T n s1" "room s1"
    using merged_alloc_winst [OF s'(1) n] by blast
  obtain s2 where a: "xd3_whole_alloc_adds m s1 = whole_ok s2" "unat (adds_end s2) = length (adds (whole_target s1))" "same s1 s2"
    using put_with_adds [OF s1(3) n s1(4) m] by blast
  let ?w = "\<lparr>w_type = w_type w, w_mode = w_mode w, w_size = w_size w, w_addr = adds_end s2, w_position = whole_length (whole_target s2)\<rparr>"
  obtain s3 t where t: "put_winst ?w s2 = whole_ok s3" "put_adds bs (add_length (w_size w) s3) = whole_ok (add_length (w_size w) t)"
    "became s1 bs [?w] [] 0 t"
    using put_with_adds [OF s1(3) n s1(4) m, of ?w "w_size w"] a(1) by auto
  have p: "unat (w_position ?w) = n" using a(3) s1(2) s'(2) by (simp add: same_def became_def)
  have "merged A T (n + unat (w_size ?w)) t"
    by (rule merged_with_adds [OF s1(3) t(3) p]) (use w a(2) bs in simp_all)
  moreover have "unat (whole_length (whole_target (add_length (w_size w) t))) = n + unat (w_size w)"
    by (rule length_added [OF s'(2) T]) (use t(3) s1(2) in \<open>simp add: became_def\<close>)
  ultimately have "after A T (n + unat (w_size w)) vs (add_length (w_size w) t)"
    using t(3) s1(2) s'(3) by (simp add: after_def) (simp add: became_def add_length_def)
  then show ?thesis using s1(1) a(1) t(1,2) by auto
qed

lemma merge_inst_works:
  assumes S: "source_ok A M S" and s: "after A T n vs s" and w: "winst_ok (adds I) M T w" "unat (w_position w) = n" "w_size w \<noteq> 0"
    "w_mode w \<in> {0, ucast VCD_SOURCE}" and T: "n + unat (w_size w) \<le> length T" "length T < 2 ^ 26"
  shows "\<exists>t. merge_inst S I w s = whole_ok t \<and> after A T (n + unat (w_size w)) vs t"
proof -
  let ?a = "unat (w_addr w)" and ?z = "unat (w_size w)"
  have s': "merged A T n s" "unat (whole_length (whole_target s)) = n" "wininfos (whole_target s) = vs" using s by (simp_all add: after_def)
  have n: "n < 2 ^ 26" using T by simp
  have z: "0 < ?z" using w(3) by (simp add: unat_gt_0)
  consider (run) "unat (w_type w) = XD3_RUN" | (add) "unat (w_type w) = XD3_ADD" "unat (w_type w) \<noteq> XD3_RUN"
    | (target) "unat (w_type w) \<noteq> XD3_ADD" "unat (w_type w) \<noteq> XD3_RUN" "w_mode w = 0"
    | (source) "unat (w_type w) \<noteq> XD3_ADD" "unat (w_type w) \<noteq> XD3_RUN" "w_mode w = ucast VCD_SOURCE"
    using w(4) by blast
  then show ?thesis
  proof cases
    case run
    have r: "?a < length (adds I)" "\<forall>j < ?z. T ! (n + j) = adds I ! ?a" using w(1,2) run by (simp_all add: winst_ok_def Let_def)
    have "unat (1 :: u32) = length [adds I ! ?a]" "length [adds I ! ?a] \<le> 2 ^ 26" by simp_all
    from merge_with_adds [OF s w(2,3,4) T this] show ?thesis
      using run r by (simp add: merge_inst_def xd3_merge_run_def Let_def)
  next
    case add
    let ?bs = "take ?z (drop ?a (adds I))"
    have r: "?a + ?z \<le> length (adds I)" "\<forall>j < ?z. T ! (n + j) = ?bs ! j" using w(1,2) add by (simp_all add: winst_ok_def Let_def)
    have "unat (w_size w) = length ?bs" "length ?bs \<le> 2 ^ 26" using r(1) T by simp_all
    from merge_with_adds [OF s w(2,3,4) T this] show ?thesis
      using add r by (simp add: merge_inst_def xd3_merge_add_def Let_def)
  next
    case target
    obtain s1 where s1: "xd3_whole_alloc_winst s = whole_ok s1" "became s [] [] [] 0 s1" "merged A T n s1" "room s1"
      using merged_alloc_winst [OF s'(1) n] by blast
    obtain t where t: "put_winst w s1 = whole_ok t" "became s1 [] [w] [] 0 t" using put_winst_ok [OF s1(4)] by blast
    have "winst_ok (adds (whole_target s1) @ []) A T w"
      using w(1) target by (auto simp: winst_ok_def Let_def VCD_SOURCE_def split: if_splits)
    then have "merged A T (n + ?z) t" using merged_step [OF s1(3) t(2) w(2) _ w(3,4)] by simp
    moreover have "unat (whole_length (whole_target (add_length (w_size w) t))) = n + ?z"
      by (rule length_added [OF s'(2) T]) (use t(2) s1(2) in \<open>simp add: became_def\<close>)
    ultimately have "after A T (n + ?z) vs (add_length (w_size w) t)"
      using t(2) s1(2) s'(3) by (simp add: after_def) (simp add: became_def add_length_def)
    then show ?thesis using target s1(1) t(1) by (simp add: merge_inst_def xd3_merge_target_copy_def)
  next
    case source
    have r: "?a + ?z \<le> length M" "\<forall>j < ?z. T ! (n + j) = M ! (?a + j)" using w(1,2) source by (simp_all add: winst_ok_def Let_def)
    then have "?a < length M" using z by simp
    then obtain k where k: "xd3_merge_find_position S (w_addr w) = whole_ok k" "made_by (winsts S) ?a k"
      using find_position_works [of S "length M" "w_addr w"] S by (auto simp: source_ok_def)
    obtain t where t: "merge_copy_loop S k w s = whole_ok t" "merged A T (n + ?z) t" "same s t"
      using merge_copy_loop_works [OF S T(2) s'(1) w(2) r(1) _ r(2) T(1), of k] k(2) by blast
    have "unat (whole_length (whole_target (add_length (w_size w) t))) = n + ?z"
      by (rule length_added [OF s'(2) T]) (use t(3) in \<open>simp add: same_def\<close>)
    then have "after A T (n + ?z) vs (add_length (w_size w) t)"
      using t(2,3) s'(3) by (simp add: after_def) (simp add: same_def add_length_def)
    moreover have "w_mode w \<noteq> 0" "w_mode w \<noteq> ucast VCD_TARGET" using source(3) by (simp_all add: VCD_SOURCE_def VCD_TARGET_def)
    ultimately show ?thesis using source k(1) t(1) by (simp add: merge_inst_def xd3_merge_source_copy_def)
  qed
qed

lemma merge_insts_works:
  assumes S: "source_ok A M S" and T: "length T < 2 ^ 26"
  shows "after A T n vs s \<Longrightarrow> tiles n ws (length T) \<Longrightarrow>
    \<forall>w \<in> set ws. winst_ok (adds I) M T w \<and> w_size w \<noteq> 0 \<and> w_mode w \<in> {0, ucast VCD_SOURCE} \<Longrightarrow>
    \<exists>t. merge_insts S I ws s = whole_ok t \<and> after A T (length T) vs t"
proof (induction ws arbitrary: n s)
  case (Cons w ws)
  have w: "unat (w_position w) = n" "tiles (n + unat (w_size w)) ws (length T)" using Cons.prems(2) by simp_all
  have "n + unat (w_size w) \<le> length T" by (rule tiles_le [OF w(2)])
  with w obtain t where "merge_inst S I w s = whole_ok t" "after A T (n + unat (w_size w)) vs t"
    using merge_inst_works [OF S Cons.prems(1), of I w] Cons.prems(3) T by auto
  then show ?case using Cons.IH [of "n + unat (w_size w)" t] Cons.prems(2,3) by auto
qed simp

lemma merge_wininfos_works:
  "merged A T 0 s \<Longrightarrow> length (wininfos (whole_target s)) + length vs < 2 ^ 26 \<Longrightarrow>
    \<exists>t. merge_wininfos vs s = whole_ok t \<and> merged A T 0 t \<and> whole_length (whole_target t) = whole_length (whole_target s) \<and>
      wininfos (whole_target t) = wininfos (whole_target s) @ vs"
proof (induction vs arbitrary: s)
  case (Cons v vs)
  have "never_fails s" "length (wininfos (whole_target s)) < 2 ^ 26" using Cons.prems by (simp_all add: merged_def)
  from alloc_wininfo_ok [OF this] obtain s1 where s1: "xd3_whole_alloc_wininfo s = whole_ok s1" "became s [] [] [] 0 s1"
    "(length (wininfos (whole_target s1)) + 1) * unat sizeof_wininfo \<le> unat (wininfo_alloc (whole_target s1))" by blast
  obtain s2 where s2: "put_wininfo v s1 = whole_ok s2" "became s1 [] [] [v] 0 s2"
    using s1(3) by (simp add: put_wininfo_def became_def Let_def)
  note b = became_trans [OF s1(2) s2(2), simplified]
  have "merged A T 0 s2" using merged_idle [OF Cons.prems(1) b] .
  moreover have "length (wininfos (whole_target s2)) + length vs < 2 ^ 26" using Cons.prems(2) b by (simp add: became_def)
  ultimately obtain t where "merge_wininfos vs s2 = whole_ok t" "merged A T 0 t"
    "whole_length (whole_target t) = whole_length (whole_target s2)" "wininfos (whole_target t) = wininfos (whole_target s2) @ vs"
    using Cons.IH by blast
  then show ?case using s1(1) s2(1) b by (auto simp: became_def)
qed simp

lemma whole_means_source_ok: "whole_means A S M \<Longrightarrow> length A < 2 ^ 64 \<Longrightarrow> source_ok A M S"
  by (simp add: whole_means_def whole_exec_tiles source_ok_def)

lemma after_means: "after A T (length T) vs t \<Longrightarrow> whole_means A (whole_target t) T"
  by (simp add: after_def merged_def whole_means_def whole_exec_tiles)

lemma merge_inputs_works:
  assumes S: "whole_means A S M" and I: "whole_means M I T" and small: "length A < 2 ^ 64" "length T < 2 ^ 26" "length (wininfos I) < 2 ^ 26"
    and s: "never_fails s" "winsts (whole_target s) = []" "adds (whole_target s) = []" "wininfos (whole_target s) = []"
      "whole_length (whole_target s) = 0"
  shows "\<exists>t. xd3_merge_inputs S I s = whole_ok t \<and> whole_means A (whole_target t) T \<and> wininfos (whole_target t) = wininfos I"
proof -
  have "merged A T 0 s" using s by (simp add: merged_def)
  then obtain s1 where s1: "merge_wininfos (wininfos I) s = whole_ok s1" "after A T 0 (wininfos I) s1"
    using merge_wininfos_works [of A T s "wininfos I"] s small(3) by (auto simp: after_def)
  have I': "tiles 0 (winsts I) (length T)" "\<forall>w \<in> set (winsts I). winst_ok (adds I) M T w \<and> w_size w \<noteq> 0 \<and> w_mode w \<in> {0, ucast VCD_SOURCE}"
    using I by (simp_all add: whole_means_def whole_exec_tiles)
  obtain t where t: "merge_insts S I (winsts I) s1 = whole_ok t" "after A T (length T) (wininfos I) t"
    using merge_insts_works [OF whole_means_source_ok [OF S small(1)] small(2) s1(2) I'] by blast
  then show ?thesis using s1(1) after_means [OF t(2)] by (auto simp: xd3_merge_inputs_def after_def)
qed

lemma default_config_ok: "fst (xd3_config_stream rinst h None heap n) = XD3_OK"
proof -
  have f: "cfg_winsize (xd3_init_config h 0) = 0" "cfg_sprevsz (xd3_init_config h 0) = 0" "cfg_iopt_size (xd3_init_config h 0) = 0"
    "cfg_getblk (xd3_init_config h 0) = None" "cfg_flags (xd3_init_config h 0) = 0"
    by (simp_all add: xd3_init_config_def)
  have m: "config_smatcher (xd3_init_config h 0) old = (smatcher_default, None)" for old
    by (simp add: config_smatcher_def xd3_init_config_def XD3_SMATCH_DEFAULT_def XD3_SMATCH_SOFT_def)
  show ?thesis
    unfolding xd3_config_stream_def
    by (simp add: Let_def default_checks f m config_sprevsz_def zero_settings_def smatcher_zero_def)
qed

text \<open>C4: Merging composes: if the source state makes \<open>M\<close> from \<open>A\<close> and the input state makes \<open>T\<close> from \<open>M\<close>, then
  \<^verbatim>\<open>xd3_merge_input_output\<close> ends, and the state it leaves in the stream makes \<open>T\<close> from \<open>A\<close> directly, with the
  windows of the input.\<close>

theorem merge_composes:
  assumes "whole_means A S M" and "whole_means M (whole_target s) T" and "\<forall>n. answers n"
    and "length A < 2 ^ 64" "length T < 2 ^ 26" "length (wininfos (whole_target s)) < 2 ^ 26"
  shows "\<exists>t. xd3_merge_input_output rinst h answers S s = whole_ok t \<and> whole_means A (whole_target t) T \<and>
    wininfos (whole_target t) = wininfos (whole_target s)"
proof -
  let ?s0 = "\<lparr>whole_target = empty_whole, heap_answers = answers, heap_count = 0\<rparr>"
  obtain s1 where s1: "xd3_whole_state_init ?s0 = whole_ok s1" "never_fails s1" "winsts (whole_target s1) = []" "adds (whole_target s1) = []"
      "wininfos (whole_target s1) = []" "whole_length (whole_target s1) = 0"
    using assms(3) by (simp add: xd3_whole_state_init_def whole_alloc_def Let_def never_fails_def empty_whole_def)
  obtain t where t: "xd3_merge_inputs S (whole_target s) s1 = whole_ok t" "whole_means A (whole_target t) T"
    "wininfos (whole_target t) = wininfos (whole_target s)"
    using merge_inputs_works [OF assms(1,2,4,5,6) s1(2-6)] by blast
  obtain x tmp where c: "xd3_config_stream rinst h None Map.empty 0 = (XD3_OK, x, tmp)"
    using default_config_ok by (metis prod.exhaust_sel)
  show ?thesis using s1(1) t c by (simp add: xd3_merge_input_output_def xd3_swap_whole_state_def)
qed

text \<open>A run, a copy from the file and a copy onto its own end; then a copy that takes a part of each.\<close>

definition winst :: "nat \<Rightarrow> u8 \<Rightarrow> u32 \<Rightarrow> u64 \<Rightarrow> u64 \<Rightarrow> xd3_winst" where
  "winst t mode n a p = \<lparr>w_type = of_nat t, w_mode = mode, w_size = n, w_addr = a, w_position = p\<rparr>"

definition first_delta :: xd3_whole_state where
  "first_delta = empty_whole\<lparr>adds := [7], winsts := [winst XD3_RUN 0 3 0 0, winst XD3_CPY 1 2 1 3, winst XD3_CPY 0 4 3 5], whole_length := 9\<rparr>"

definition second_delta :: xd3_merge_stream where
  "second_delta = \<lparr>whole_target = empty_whole\<lparr>adds := [9], winsts := [winst XD3_CPY 1 6 2 0, winst XD3_ADD 0 1 0 6], whole_length := 7\<rparr>,
     heap_answers = (\<lambda>_. True), heap_count = 0\<rparr>"

definition any_malloc :: xd3_malloc where
  "any_malloc = \<lparr>heap_alloc = (\<lambda>_ n. None), heap_words = (\<lambda>_. None), heap_table = True\<rparr>"

theorem merge_composes_witness:
  "\<exists>t. xd3_merge_input_output 32 any_malloc (\<lambda>_. True) first_delta second_delta = whole_ok t \<and>
    whole_means [10, 11, 12] (whole_target t) [7, 11, 12, 11, 12, 11, 9] \<and> wininfos (whole_target t) = wininfos (whole_target second_delta)"
proof (rule merge_composes)
  show "whole_means [10, 11, 12] first_delta [7, 7, 7, 11, 12, 11, 12, 11, 12]" by code_simp
  show "whole_means [7, 7, 7, 11, 12, 11, 12, 11, 12] (whole_target second_delta) [7, 11, 12, 11, 12, 11, 9]" by code_simp
qed (simp_all add: second_delta_def empty_whole_def)

text \<open>C37: The binary search of \<^verbatim>\<open>xd3_merge_find_position\<close> ends, and is exact: for instructions that follow one another it
  gives the one instruction that makes the byte at the address, and an error past the end.\<close>

theorem find_position_exact:
  assumes "tiles 0 (winsts S) (unat (whole_length S))"
  shows "if unat address < unat (whole_length S)
    then \<exists>k. xd3_merge_find_position S address = whole_ok k \<and> made_by (winsts S) (unat address) k \<and>
      (\<forall>i. made_by (winsts S) (unat address) i \<longrightarrow> i = k)
    else xd3_merge_find_position S address = whole_fail XD3_INVALID_INPUT ''Invalid copy offset in merge''"
proof (cases "unat address < unat (whole_length S)")
  case True
  obtain k where k: "xd3_merge_find_position S address = whole_ok k" "made_by (winsts S) (unat address) k"
    using find_position_works [OF assms refl True] by blast
  have "\<not> i < j" if "made_by (winsts S) (unat address) i" "made_by (winsts S) (unat address) j" for i j
  proof
    assume "i < j"
    then have "unat (w_position (winsts S ! i)) + unat (w_size (winsts S ! i)) \<le> unat (w_position (winsts S ! j))"
      by (rule tiles_ordered [OF assms]) (use that in \<open>simp add: made_by_def\<close>)
    moreover have "unat address < unat (w_position (winsts S ! i)) + unat (w_size (winsts S ! i))"
      "unat (w_position (winsts S ! j)) \<le> unat address" using that by (simp_all add: made_by_def)
    ultimately show False by linarith
  qed
  note apart = this
  have "i = k" if i: "made_by (winsts S) (unat address) i" for i
    using apart [OF i k(2)] apart [OF k(2) i] by linarith
  then have "\<forall>i. made_by (winsts S) (unat address) i \<longrightarrow> i = k" by (intro allI impI)
  with k have "xd3_merge_find_position S address = whole_ok k \<and> made_by (winsts S) (unat address) k \<and>
      (\<forall>i. made_by (winsts S) (unat address) i \<longrightarrow> i = k)" by (intro conjI)
  then show ?thesis unfolding if_P [OF True] by (rule exI)
next
  case False
  then have "whole_length S \<le> address" by (simp add: word_le_nat_alt)
  then show ?thesis using False by (simp add: xd3_merge_find_position_def)
qed

theorem find_position_exact_witness:
  "\<exists>k. xd3_merge_find_position first_delta 4 = whole_ok k \<and> made_by (winsts first_delta) 4 k"
proof -
  have "tiles 0 (winsts first_delta) (unat (whole_length first_delta))" by code_simp
  from find_position_exact [OF this, of 4] show ?thesis by (auto simp: first_delta_def)
qed

end
