(* ===== verification/Whole.thy ===== *)
theory Whole
  imports Compose Emit
begin

text \<open>
  Reading a delta into the whole state (\<^verbatim>\<open>xd3_whole_append_window\<close> of \<^verbatim>\<open>xdelta3-merge.h\<close>), which the
  merge command does instead of writing windows, and that the state means what the windows mean. The
  whole state is kept beside the decoder's stream.
\<close>

section \<open>Appending\<close>

type_synonym append_step = "((xd3_ret \<times> xd3_stream) + xd3_stream \<times> xd3_merge_stream) option"

text \<open>An error of the whole state is returned with the stream as it is.\<close>

definition with_whole :: "xd3_stream \<Rightarrow> 'a whole_step \<Rightarrow> ('a \<Rightarrow> append_step) \<Rightarrow> append_step" where
  "with_whole s p f = (case p of None \<Rightarrow> None | Some (Inl (r, _)) \<Rightarrow> Some (Inl (r, s)) | Some (Inr x) \<Rightarrow> f x)"

definition with_stream :: "result \<Rightarrow> (xd3_stream \<Rightarrow> append_step) \<Rightarrow> append_step" where
  "with_stream p f = (case p of None \<Rightarrow> None | Some (r, s) \<Rightarrow> if r \<noteq> XD3_OK then Some (Inl (r, s)) else f s)"

text \<open>The data section is read without a test of its end.\<close>

definition take_data :: "nat \<Rightarrow> xd3_stream \<Rightarrow> (bytes \<times> xd3_stream) option" where
  "take_data n s =
     (let d = sec_buf (data_sect s) in
      if n \<le> length d then Some (take n d, s\<lparr>data_sect := (data_sect s)\<lparr>sec_buf := drop n d\<rparr>\<rparr>) else None)"

definition xd3_whole_append_inst :: "xd3_hinst \<Rightarrow> xd3_stream \<Rightarrow> xd3_merge_stream \<Rightarrow> append_step" where
  "xd3_whole_append_inst inst s m =
     with_whole s (xd3_whole_alloc_winst m) (\<lambda>m.
       (let t = unat (h_type inst);
            w = \<lparr>w_type = h_type inst, w_mode = 0, w_size = h_size inst, w_addr = 0, w_position = whole_length (whole_target m)\<rparr>
        in if t = XD3_RUN \<or> t = XD3_ADD
           then
             (let n = (if t = XD3_RUN then 1 else h_size inst) in
              with_whole s (xd3_whole_alloc_adds n m) (\<lambda>m.
              with_whole s (put_winst (w\<lparr>w_addr := adds_end m\<rparr>) m) (\<lambda>m.
                case take_data (unat n) s of
                  None \<Rightarrow> None
                | Some (bs, s) \<Rightarrow> with_whole s (put_adds bs (add_length (h_size inst) m)) (\<lambda>m. Some (Inr (s, m))))))
           else
             with_whole s (put_winst
               (if h_addr inst < dec_cpylen s
                then w\<lparr>w_mode := ucast (SRCORTGT (dec_win_ind s)), w_addr := dec_cpyoff s + ucast (h_addr inst)\<rparr>
                else w\<lparr>w_addr := dec_winstart s + ucast (h_addr inst) - ucast (dec_cpylen s)\<rparr>) m) (\<lambda>m.
               Some (Inr (s, add_length (h_size inst) m)))))"

definition append_half :: "(xd3_stream \<Rightarrow> xd3_hinst) \<Rightarrow> xd3_stream \<Rightarrow> xd3_merge_stream \<Rightarrow> append_step" where
  "append_half sel s m =
     (if unat (h_type (sel s)) \<noteq> XD3_NOOP then xd3_whole_append_inst (sel s) s m else Some (Inr (s, m)))"

partial_function (option) append_loop :: "xd3_stream \<Rightarrow> xd3_merge_stream \<Rightarrow> ((xd3_ret \<times> xd3_stream) + xd3_stream \<times> xd3_merge_stream) option" where
  "append_loop s m =
     (if sec_buf (inst_sect s) = [] then Some (Inr (s, m))
      else Option.bind
             (with_stream (xd3_decode_instruction s) (\<lambda>s.
                Option.bind (append_half dec_current1 s m) (\<lambda>r.
                  case r of Inl e \<Rightarrow> Some (Inl e) | Inr x \<Rightarrow> append_half dec_current2 (fst x) (snd x))))
             (\<lambda>r. case r of Inl e \<Rightarrow> Some (Inl e) | Inr x \<Rightarrow> append_loop (fst x) (snd x)))"

definition xd3_whole_append_window :: "xd3_stream \<Rightarrow> xd3_merge_stream \<Rightarrow> append_step" where
  "xd3_whole_append_window s m =
     with_whole s (xd3_whole_alloc_wininfo m) (\<lambda>m.
     with_whole s (put_wininfo \<lparr>wi_offset = dec_winstart s, wi_length = dec_tgtlen s, wi_adler32 = dec_adler32 s\<rparr> m) (\<lambda>m.
       append_loop s m))"

lemma with_simps [simp]:
  "with_whole s (whole_ok x) f = f x" "with_stream (ok s) g = g s"
  by (simp_all add: with_whole_def whole_ok_def with_stream_def ok_def)

section \<open>Longer deltas\<close>

lemma whole_exec_more: "whole_exec as A ws out = Some M \<Longrightarrow> whole_exec (as @ bs) A ws out = Some M"
  by (auto simp: whole_exec_tiles winst_ok_more)

lemma whole_exec_append: "whole_exec as A (ws @ vs) out = Option.bind (whole_exec as A ws out) (whole_exec as A vs)"
  by (induction ws arbitrary: out) (auto split: option.splits)

text \<open>The whole state makes \<open>out\<close> from \<open>A\<close>, and there is room for \<open>i\<close> more instructions and \<open>d\<close> more bytes.\<close>

definition so_far :: "bytes \<Rightarrow> bytes \<Rightarrow> nat \<Rightarrow> nat \<Rightarrow> xd3_merge_stream \<Rightarrow> bool" where
  "so_far A out i d m \<longleftrightarrow> never_fails m \<and> whole_exec (adds (whole_target m)) A (winsts (whole_target m)) [] = Some out \<and>
     unat (whole_length (whole_target m)) = length out \<and> length (winsts (whole_target m)) + i < 2 ^ 26 \<and>
     length (adds (whole_target m)) + d < 2 ^ 26"

text \<open>The segment of the window is a part of \<open>A\<close>, and the window starts where \<open>before\<close> ends.\<close>

definition window_over :: "bytes \<Rightarrow> bytes \<Rightarrow> xd3_stream \<Rightarrow> bool" where
  "window_over A before s \<longleftrightarrow> (dec_cpylen s \<noteq> 0 \<longrightarrow> SRCORTGT (dec_win_ind s) = VCD_SOURCE) \<and>
     unat (dec_cpyoff s) + unat (dec_cpylen s) \<le> length A \<and> unat (dec_cpyoff s) + unat (dec_cpylen s) < 2 ^ 64 \<and>
     unat (dec_winstart s) = length before"

lemma so_far_step:
  assumes m: "so_far A out (Suc i) (length bs + d) m" and b: "became m bs [w] vs (ucast n) m'"
    and w: "unat (w_position w) = length out" "w_size w = n" "winst_bytes (adds (whole_target m) @ bs) A out w = Some new"
    and l: "length out + unat n < 2 ^ 64"
  shows "so_far A (out @ new) i d m'"
proof -
  have "whole_exec (adds (whole_target m) @ bs) A (winsts (whole_target m) @ [w]) [] = Some (out @ new)"
    using whole_exec_more m w(1,3) by (simp add: whole_exec_append so_far_def)
  moreover have "unat (whole_length (whole_target m) + ucast n) = length out + length new"
    using m l winst_bytes_length [OF w(3)] w(2) by (subst unat_add_u64) (simp_all add: so_far_def)
  ultimately show ?thesis using m b by (simp add: so_far_def became_def never_fails_def)
qed

section \<open>One instruction\<close>

lemma append_room:
  assumes m: "never_fails m" "length (winsts (whole_target m)) < 2 ^ 26"
  shows "\<exists>m1. xd3_whole_alloc_winst m = whole_ok m1 \<and> became m [] [] [] 0 m1 \<and> room m1"
  using alloc_winst_ok [OF m] by (auto simp: room_def)

lemma append_adds:
  assumes m: "never_fails m" "room m" and k: "unat k = length bs" "length (adds (whole_target m)) + length bs < 2 ^ 30"
  shows "\<exists>m2. xd3_whole_alloc_adds k m = whole_ok m2 \<and> adds_end m2 = adds_end m \<and>
    (\<forall>w. \<exists>m3 m4. put_winst w m2 = whole_ok m3 \<and> put_adds bs (add_length j m3) = whole_ok m4 \<and> became m bs [w] [] (ucast j) m4)"
proof -
  obtain m2 where m2: "xd3_whole_alloc_adds k m = whole_ok m2" "became m [] [] [] 0 m2"
    "inst_alloc (whole_target m2) = inst_alloc (whole_target m)"
    "length (adds (whole_target m2)) + unat k \<le> unat (adds_alloc (whole_target m2))"
    using alloc_adds_ok [OF m(1), of k] k by auto
  have r: "room m2" using m(2) m2(2,3) by (simp add: room_def became_def)
  have "\<exists>m3 m4. put_winst w m2 = whole_ok m3 \<and> put_adds bs (add_length j m3) = whole_ok m4 \<and> became m bs [w] [] (ucast j) m4" for w
  proof -
    obtain m3 where m3: "put_winst w m2 = whole_ok m3" "became m2 [] [w] [] 0 m3" "adds_alloc (whole_target m3) = adds_alloc (whole_target m2)"
      using put_winst_ok [OF r] by blast
    have b: "became m [] [w] [] (ucast j) (add_length j m3)"
      using became_add_length [OF became_trans [OF m2(2) m3(2)]] by simp
    have "length (adds (whole_target (add_length j m3))) + length bs \<le> unat (adds_alloc (whole_target (add_length j m3)))"
      using m2(4) m3(2,3) k(1) by (simp add: became_def add_length_def)
    from put_adds_ok [OF this] obtain m4 where "put_adds bs (add_length j m3) = whole_ok m4" "became (add_length j m3) bs [] [] 0 m4" by blast
    then show ?thesis using m3(1) became_trans [OF b] by fastforce
  qed
  moreover have "adds_end m2 = adds_end m" using m2(2) by (simp add: adds_end_def became_def)
  ultimately show ?thesis using m2(1) by blast
qed

text \<open>The string the instructions of a window work on, and what they have appended to it.\<close>

definition seg :: "bytes \<Rightarrow> xd3_stream \<Rightarrow> bytes" where
  "seg A s = take (unat (dec_cpylen s)) (drop (unat (dec_cpyoff s)) A)"

lemma append_inst_works:
  assumes m: "so_far A (before @ T) (Suc i) (length (sec_buf (data_sect s))) m" and s: "window_over A before s" and h: "half_ok s h"
    and exec: "vcd_exec1 (half_means h) (seg A s @ T, sec_buf (data_sect s)) = Some (U, d)"
    and small: "length before + length T + unat (h_size h) < 2 ^ 64"
  shows "\<exists>new m'. xd3_whole_append_inst h s m = Some (Inr (s\<lparr>data_sect := (data_sect s)\<lparr>sec_buf := d\<rparr>\<rparr>, m')) \<and>
    U = seg A s @ T @ new \<and> length new = unat (h_size h) \<and> so_far A (before @ T @ new) i (length d) m' \<and>
    wininfos (whole_target m') = wininfos (whole_target m)"
proof -
  let ?n = "unat (h_size h)" and ?D = "sec_buf (data_sect s)" and ?a = "unat (h_addr h)" and ?c = "unat (dec_cpylen s)"
  have room: "never_fails m" "length (winsts (whole_target m)) < 2 ^ 26" "length (adds (whole_target m)) + length ?D < 2 ^ 26"
    and len: "unat (whole_length (whole_target m)) = length before + length T" using m by (simp_all add: so_far_def)
  obtain m1 where m1: "xd3_whole_alloc_winst m = whole_ok m1" "became m [] [] [] 0 m1" "room m1" using append_room [OF room(1,2)] by blast
  have m1': "never_fails m1" "length (adds (whole_target m1)) = length (adds (whole_target m))"
    "whole_length (whole_target m1) = whole_length (whole_target m)" "adds_end m1 = adds_end m"
    using m1(2) room(1) by (auto simp: became_def never_fails_def adds_end_def)
  have ae: "unat (adds_end m) = length (adds (whole_target m))"
    using room(3) by (simp add: adds_end_def unsigned_of_nat take_bit_nat_eq_self)
  let ?w = "\<lparr>w_type = h_type h, w_mode = 0, w_size = h_size h, w_addr = 0, w_position = whole_length (whole_target m1)\<rparr>"
  have noop: "unat (h_type h) \<noteq> XD3_NOOP" using h by (simp add: half_ok_def)
  consider (run) "unat (h_type h) = XD3_RUN" | (add) "unat (h_type h) = XD3_ADD" | (copy) "unat (h_type h) \<noteq> XD3_RUN" "unat (h_type h) \<noteq> XD3_ADD"
    by blast
  then show ?thesis
  proof cases
    case run
    then obtain b where b: "?D = b # d" "U = seg A s @ T @ replicate ?n b"
      using exec by (auto simp: half_means_def inst_types split: list.splits)
    obtain m2 where m2: "xd3_whole_alloc_adds 1 m1 = whole_ok m2" "adds_end m2 = adds_end m1"
      "\<And>w. \<exists>m3 m4. put_winst w m2 = whole_ok m3 \<and> put_adds [b] (add_length (h_size h) m3) = whole_ok m4 \<and> became m1 [b] [w] [] (ucast (h_size h)) m4"
      using append_adds [OF m1'(1) m1(3), of 1 "[b]" "h_size h"] m1'(2) room(3) by auto
    let ?v = "?w\<lparr>w_addr := adds_end m2\<rparr>"
    obtain m3 m4 where m4: "put_winst ?v m2 = whole_ok m3" "put_adds [b] (add_length (h_size h) m3) = whole_ok m4"
      "became m1 [b] [?v] [] (ucast (h_size h)) m4" using m2(3) by blast
    have "became m [b] [?v] [] (ucast (h_size h)) m4" using became_trans [OF m1(2) m4(3)] by simp
    then have "so_far A ((before @ T) @ replicate ?n b) i (length d) m4"
      by (rule so_far_step [rotated]) (use m b(1) len small run m1' m2(2) ae in \<open>simp_all add: winst_bytes_def Let_def\<close>)
    moreover have "xd3_whole_append_inst h s m = Some (Inr (s\<lparr>data_sect := (data_sect s)\<lparr>sec_buf := d\<rparr>\<rparr>, m4))"
      using run m1(1) m2(1) m4(1,2) b(1) by (simp add: xd3_whole_append_inst_def Let_def take_data_def)
    ultimately show ?thesis using b(2) m1(2) m4(3) by (intro exI [of _ "replicate ?n b"] exI [of _ m4]) (simp add: became_def)
  next
    case add
    then have b: "?n \<le> length ?D" "d = drop ?n ?D" "U = seg A s @ T @ take ?n ?D" "unat (h_type h) \<noteq> XD3_RUN"
      using exec by (auto simp: half_means_def inst_types split: if_splits)
    let ?bs = "take ?n ?D"
    obtain m2 where m2: "xd3_whole_alloc_adds (h_size h) m1 = whole_ok m2" "adds_end m2 = adds_end m1"
      "\<And>w. \<exists>m3 m4. put_winst w m2 = whole_ok m3 \<and> put_adds ?bs (add_length (h_size h) m3) = whole_ok m4 \<and> became m1 ?bs [w] [] (ucast (h_size h)) m4"
      using append_adds [OF m1'(1) m1(3), of "h_size h" ?bs "h_size h"] m1'(2) room(3) b(1) by auto
    let ?v = "?w\<lparr>w_addr := adds_end m2\<rparr>"
    obtain m3 m4 where m4: "put_winst ?v m2 = whole_ok m3" "put_adds ?bs (add_length (h_size h) m3) = whole_ok m4"
      "became m1 ?bs [?v] [] (ucast (h_size h)) m4" using m2(3) by blast
    have "became m ?bs [?v] [] (ucast (h_size h)) m4" using became_trans [OF m1(2) m4(3)] by simp
    then have "so_far A ((before @ T) @ ?bs) i (length d) m4"
      by (rule so_far_step [rotated]) (use m b len small add m1' m2(2) ae in \<open>simp_all add: winst_bytes_def Let_def\<close>)
    moreover have "xd3_whole_append_inst h s m = Some (Inr (s\<lparr>data_sect := (data_sect s)\<lparr>sec_buf := d\<rparr>\<rparr>, m4))"
      using add b m1(1) m2(1) m4(1,2) by (simp add: xd3_whole_append_inst_def Let_def take_data_def)
    ultimately show ?thesis using b m1(2) m4(3) by (intro exI [of _ ?bs] exI [of _ m4]) (simp add: became_def)
  next
    case copy
    have lc: "length (seg A s) = ?c" using s by (simp add: seg_def window_over_def min_def) arith
    have e: "d = ?D" "?a < ?c + length T" "U = seg A s @ T @ copied ?n ?a (seg A s @ T)"
      using exec copy lc by (auto simp: half_means_def split: if_splits)
    let ?new = "copied ?n ?a (seg A s @ T)"
    let ?v = "if h_addr h < dec_cpylen s
                then ?w\<lparr>w_mode := ucast (SRCORTGT (dec_win_ind s)), w_addr := dec_cpyoff s + ucast (h_addr h)\<rparr>
                else ?w\<lparr>w_addr := dec_winstart s + ucast (h_addr h) - ucast (dec_cpylen s)\<rparr>"
    obtain m2 where m2: "put_winst ?v m1 = whole_ok m2" "became m1 [] [?v] [] 0 m2" using put_winst_ok [OF m1(3)] by blast
    have "winst_bytes (adds (whole_target m) @ []) A (before @ T) ?v = Some ?new"
    proof (cases "h_addr h < dec_cpylen s")
      case True
      then have ac: "?a < ?c" by (simp add: word_less_nat_alt)
      have "XD3_CPY \<le> unat (h_type h)" using copy noop by (simp add: inst_types)
      then have within: "?a + ?n \<le> ?c" using h ac by (simp add: half_ok_def)
      have u: "unat (dec_cpyoff s + ucast (h_addr h)) = unat (dec_cpyoff s) + ?a"
        using s ac by (subst unat_add_u64) (simp_all add: window_over_def)
      have mode: "SRCORTGT (dec_win_ind s) = VCD_SOURCE" using s ac by (auto simp: window_over_def)
      have "?new = take ?n (drop ?a (seg A s))" using within lc by (simp add: copied_within)
      also have "\<dots> = take ?n (drop (unat (dec_cpyoff s) + ?a) A)"
        using within by (simp add: seg_def drop_take add.commute)
      finally show ?thesis using True copy u mode s within by (simp add: winst_bytes_def Let_def window_over_def)
    next
      case False
      then have ca: "?c \<le> ?a" by (simp add: word_less_nat_alt)
      have T: "?a - ?c < length T" using e(2) ca by simp
      let ?d = "ucast (h_addr h) - ucast (dec_cpylen s) :: u64"
      have "unat ?d = ?a - ?c" using ca by (subst unat_sub_le) (simp_all add: word_le_nat_alt)
      then have "unat (dec_winstart s + ?d) = length before + (?a - ?c)"
        using s T small by (subst unat_add_u64) (simp_all add: window_over_def)
      then have u: "unat (dec_winstart s + ucast (h_addr h) - ucast (dec_cpylen s)) = length before + (?a - ?c)"
        by (simp only: add_diff_eq)
      have "copied ?n (length before + (?a - ?c)) (before @ T) = ?new"
        using copied_append [of before "length before + (?a - ?c)" ?n T] copied_append [of "seg A s" ?a ?n T] lc ca by simp
      moreover have "(0 :: u8) \<noteq> ucast VCD_SOURCE" by (simp add: VCD_SOURCE_def)
      ultimately show ?thesis using False copy u T by (simp add: winst_bytes_def Let_def)
    qed
    note wb = this
    have bc: "became m [] [?v] [] (ucast (h_size h)) (add_length (h_size h) m2)"
      using became_add_length [OF became_trans [OF m1(2) m2(2)]] by simp
    have v: "unat (w_position ?v) = length (before @ T)" "w_size ?v = h_size h" using len m1' by simp_all
    have m0: "so_far A (before @ T) (Suc i) (length ([] :: bytes) + length d) m" using m e(1) by simp
    have "so_far A ((before @ T) @ ?new) i (length d) (add_length (h_size h) m2)"
      by (rule so_far_step [OF m0 bc v wb]) (use small in simp)
    moreover have "xd3_whole_append_inst h s m = Some (Inr (s, add_length (h_size h) m2))"
      using copy m1(1) m2(1) by (simp add: xd3_whole_append_inst_def Let_def)
    ultimately show ?thesis using e m1(2) m2(2)
      by (intro exI [of _ ?new] exI [of _ "add_length (h_size h) m2"]) (simp add: became_def add_length_def)
  qed
qed

section \<open>One window\<close>

lemma so_far_less: "so_far A out i d m \<Longrightarrow> j \<le> i \<Longrightarrow> e \<le> d \<Longrightarrow> so_far A out j e m"
  by (simp add: so_far_def)

lemma append_half_works:
  assumes h: "unat (h_type (sel s)) = XD3_NOOP \<and> is = [] \<and> n = 0 \<or> half_ok s (sel s) \<and> is = [half_means (sel s)] \<and> n = unat (h_size (sel s))"
    and m: "so_far A (before @ T) (Suc i) (length (sec_buf (data_sect s))) m" and s: "window_over A before s"
    and exec: "vcd_exec is (seg A s @ T, sec_buf (data_sect s)) = Some (U, d)" and small: "length before + length T + n < 2 ^ 64"
  shows "\<exists>new m'. append_half sel s m = Some (Inr (s\<lparr>data_sect := (data_sect s)\<lparr>sec_buf := d\<rparr>\<rparr>, m')) \<and>
    U = seg A s @ T @ new \<and> length new = n \<and> so_far A (before @ T @ new) i (length d) m' \<and>
    wininfos (whole_target m') = wininfos (whole_target m)"
  using h
proof
  assume *: "unat (h_type (sel s)) = XD3_NOOP \<and> is = [] \<and> n = 0"
  then show ?thesis using exec so_far_less [OF m, of i] by (intro exI [of _ "[]"] exI [of _ m]) (simp add: append_half_def)
next
  assume *: "half_ok s (sel s) \<and> is = [half_means (sel s)] \<and> n = unat (h_size (sel s))"
  then have "vcd_exec1 (half_means (sel s)) (seg A s @ T, sec_buf (data_sect s)) = Some (U, d)"
    using exec by (auto split: option.splits)
  from append_inst_works [OF m s _ this] * small show ?thesis by (auto simp: append_half_def half_ok_def)
qed

lemma parse_half_shorter:
  assumes "parse_half sg maxpos t sz p = Some (is, p')"
  shows "length (p_inst p') \<le> length (p_inst p)"
proof -
  have "length rest \<le> length inst" if "parse_size sz inst = Some (n, rest)" for n inst rest
    using that by (auto simp: parse_size_def xd3_read_uint32_t_def UINT32_OFLOW_MASK_eq read_integer_iff split: if_splits sum.splits)
  then show ?thesis using assms
    by (auto simp: parse_half_def split: if_splits option.splits prod.splits sum.splits)
qed

lemma append_loop_works:
  assumes "vcd_parses table sg maxpos p is p'"
  shows "p = parse_of s \<Longrightarrow> table = code_table s \<Longrightarrow> sg = unat (dec_cpylen s) \<Longrightarrow> maxpos = unat (dec_maxpos s) \<Longrightarrow>
    window_bounds s \<Longrightarrow> 256 \<le> length (code_table s) \<Longrightarrow> window_over A before s \<Longrightarrow> length before < 2 ^ 63 \<Longrightarrow>
    so_far A (before @ T) (2 * length (sec_buf (inst_sect s))) (length (sec_buf (data_sect s))) m \<Longrightarrow>
    unat (dec_position s) = unat (dec_cpylen s) + length T \<Longrightarrow>
    vcd_exec is (seg A s @ T, sec_buf (data_sect s)) = Some (U, d) \<Longrightarrow>
    \<exists>s' m' new. append_loop s m = Some (Inr (s', m')) \<and> U = seg A s @ T @ new \<and> so_far A (before @ T @ new) 0 (length d) m' \<and>
      parse_of s' = p' \<and> sec_buf (data_sect s') = d \<and> wininfos (whole_target m') = wininfos (whole_target m)"
  using assms
proof (induction arbitrary: s T m rule: vcd_parses.induct)
  case (parses_end p)
  then have "append_loop s m = Some (Inr (s, m))" by (subst append_loop.simps) (simp add: parse_of_def)
  moreover have "so_far A (before @ T) 0 (length d) m" using parses_end.prems by (auto intro: so_far_less)
  ultimately show ?case using parses_end by (intro exI [of _ s] exI [of _ m] exI [of _ "[]"]) simp
next
  case (parses_op p b rest is1 p1 is2 p2 "is" p')
  note prems = parses_op.prems
  have b: "sec_buf (inst_sect s) = b # rest" using parses_op.hyps(1) prems(1) by (simp add: parse_of_def)
  obtain h1 n1 h2 n2 where i:
    "unat (h_type h1) = XD3_NOOP \<and> is1 = [] \<and> n1 = 0 \<or> half_ok s h1 \<and> is1 = [half_means h1] \<and> n1 = unat (h_size h1)"
    "unat (h_type h2) = XD3_NOOP \<and> is2 = [] \<and> n2 = 0 \<or> half_ok s h2 \<and> is2 = [half_means h2] \<and> n2 = unat (h_size h2)"
    "p_pos p2 = unat (dec_position s) + n1 + n2" "p_pos p2 \<le> unat (dec_maxpos s)"
    "xd3_decode_instruction s = ok (advance p2 (s\<lparr>dec_current1 := h1, dec_current2 := h2\<rparr>))"
    using instruction_sim [OF prems(5,6) b, of is1 p1 is2 p2] parses_op.hyps(2,3) prems(1-4) by auto
  define s1 where "s1 = advance p2 (s\<lparr>dec_current1 := h1, dec_current2 := h2\<rparr>)"
  have s1: "dec_current1 s1 = h1" "dec_current2 s1 = h2" "dec_cpylen s1 = dec_cpylen s" "data_sect s1 = data_sect s" "seg A s1 = seg A s"
    "dec_maxpos s1 = dec_maxpos s" "code_table s1 = code_table s" "window_over A before s1"
    using prems(7) by (simp_all add: s1_def advance_def seg_def window_over_def)
  have p2: "parse_of s1 = p2"
    using i(4) unat_less_u32 [of "dec_maxpos s"] unfolding s1_def by (intro parse_of_advance) simp
  have pos: "unat (dec_position s1) = p_pos p2" using p2 by (auto simp: parse_of_def)
  have bnd: "length T + n1 + n2 \<le> 2 ^ 24" using i(3,4) prems(5,10) by (simp add: window_bounds_def)
  obtain U1 d1 where x1: "vcd_exec is1 (seg A s1 @ T, sec_buf (data_sect s1)) = Some (U1, d1)"
    and x2: "vcd_exec (is2 @ is) (U1, d1) = Some (U, d)"
    using prems(11) by (auto simp: vcd_exec_append s1 split: option.splits)
  have m1: "so_far A (before @ T) (Suc (Suc (2 * length rest))) (length (sec_buf (data_sect s1))) m" using prems(9) b s1(4) by simp
  have h1: "unat (h_type (dec_current1 s1)) = XD3_NOOP \<and> is1 = [] \<and> n1 = 0 \<or>
     half_ok s1 (dec_current1 s1) \<and> is1 = [half_means (dec_current1 s1)] \<and> n1 = unat (h_size (dec_current1 s1))"
    using i(1) s1(1,3) by (auto intro: half_ok_cong)
  have "length before + length T + n1 < 2 ^ 64" using prems(8) bnd by simp
  from append_half_works [where sel = dec_current1 and s = s1, OF h1 m1 s1(8) x1 this] obtain new1 m2 where
    f1: "append_half dec_current1 s1 m = Some (Inr (s1\<lparr>data_sect := (data_sect s1)\<lparr>sec_buf := d1\<rparr>\<rparr>, m2))"
      "U1 = seg A s1 @ T @ new1" "length new1 = n1" "so_far A (before @ T @ new1) (Suc (2 * length rest)) (length d1) m2"
      "wininfos (whole_target m2) = wininfos (whole_target m)" by blast
  define s2 where "s2 = s1\<lparr>data_sect := (data_sect s1)\<lparr>sec_buf := d1\<rparr>\<rparr>"
  have s2: "dec_current2 s2 = h2" "dec_cpylen s2 = dec_cpylen s" "sec_buf (data_sect s2) = d1" "seg A s2 = seg A s" "window_over A before s2"
    using s1 by (simp_all add: s2_def seg_def window_over_def)
  have h2: "unat (h_type (dec_current2 s2)) = XD3_NOOP \<and> is2 = [] \<and> n2 = 0 \<or>
     half_ok s2 (dec_current2 s2) \<and> is2 = [half_means (dec_current2 s2)] \<and> n2 = unat (h_size (dec_current2 s2))"
    using i(2) s2(1,2) by (auto intro: half_ok_cong)
  obtain U2 d2 where x3: "vcd_exec is2 (seg A s2 @ (T @ new1), sec_buf (data_sect s2)) = Some (U2, d2)" "vcd_exec is (U2, d2) = Some (U, d)"
    using x2 f1(2) by (auto simp: vcd_exec_append s2 s1 split: option.splits)
  have m2: "so_far A (before @ (T @ new1)) (Suc (2 * length rest)) (length (sec_buf (data_sect s2))) m2" using f1(4) s2(3) by simp
  have "length before + length (T @ new1) + n2 < 2 ^ 64" using prems(8) bnd f1(3) by simp
  from append_half_works [where sel = dec_current2 and s = s2, OF h2 m2 s2(5) x3(1) this] obtain new2 m3 where
    f2: "append_half dec_current2 s2 m2 = Some (Inr (s2\<lparr>data_sect := (data_sect s2)\<lparr>sec_buf := d2\<rparr>\<rparr>, m3))"
      "U2 = seg A s2 @ (T @ new1) @ new2" "length new2 = n2" "so_far A (before @ (T @ new1) @ new2) (2 * length rest) (length d2) m3"
      "wininfos (whole_target m3) = wininfos (whole_target m2)" by blast
  define s3 where "s3 = s2\<lparr>data_sect := (data_sect s2)\<lparr>sec_buf := d2\<rparr>\<rparr>"
  have step: "append_loop s m = append_loop s3 m3"
    using b i(5) f1(1) f2(1) by (subst append_loop.simps) (simp flip: s1_def s2_def s3_def)
  have s3: "dec_cpylen s3 = dec_cpylen s" "dec_maxpos s3 = dec_maxpos s" "code_table s3 = code_table s" "seg A s3 = seg A s"
    "sec_buf (data_sect s3) = d2" "dec_position s3 = dec_position s1" "parse_of s3 = p2" "window_over A before s3"
    using s1 s2 p2 by (simp_all add: s3_def s2_def seg_def window_over_def parse_of_def)
  have "length (p_inst p2) \<le> length rest"
    using parse_half_shorter [OF parses_op.hyps(2)] parse_half_shorter [OF parses_op.hyps(3)] by simp
  then have inst3: "length (sec_buf (inst_sect s3)) \<le> length rest" using s3(7) by (auto simp: parse_of_def)
  have "\<exists>s' m' new. append_loop s3 m3 = Some (Inr (s', m')) \<and> U = seg A s3 @ (T @ new1 @ new2) @ new \<and>
      so_far A (before @ (T @ new1 @ new2) @ new) 0 (length d) m' \<and>
      parse_of s' = p' \<and> sec_buf (data_sect s') = d \<and> wininfos (whole_target m') = wininfos (whole_target m3)"
  proof (rule parses_op.IH)
    show "p2 = parse_of s3" "table = code_table s3" "sg = unat (dec_cpylen s3)" "maxpos = unat (dec_maxpos s3)"
      "256 \<le> length (code_table s3)" "window_over A before s3" "length before < 2 ^ 63"
      using s3 prems(2,3,4,6,8) by simp_all
    show "window_bounds s3" using prems(5) i(3,4) pos s3 by (simp add: window_bounds_def)
    show "so_far A (before @ T @ new1 @ new2) (2 * length (sec_buf (inst_sect s3))) (length (sec_buf (data_sect s3))) m3"
      using f2(4) inst3 s3(5) by (auto intro: so_far_less)
    show "unat (dec_position s3) = unat (dec_cpylen s3) + length (T @ new1 @ new2)"
      using pos i(3) prems(10) s3 f1(3) f2(3) by simp
    show "vcd_exec is (seg A s3 @ T @ new1 @ new2, sec_buf (data_sect s3)) = Some (U, d)" using x3(2) f2(2) s2(4) s3 by simp
  qed
  then show ?case unfolding step using s3(4) f1(5) f2(5) by auto
qed

text \<open>C9: Appending a window to the whole state: if the window's sections mean the target \<open>T\<close> over its segment of the file
  \<open>A\<close>, and the state already makes \<open>before\<close> from \<open>A\<close>, then \<^verbatim>\<open>xd3_whole_append_window\<close> ends and the state makes \<open>before @ T\<close>;
  the window's checksum and length are recorded.\<close>

theorem append_window_means:
  assumes T: "vcd_window (code_table s) (acache s) (seg A s) (sec_buf (data_sect s)) (sec_buf (inst_sect s)) (sec_buf (addr_sect s)) T"
    and s: "window_over A before s" "dec_position s = dec_cpylen s" "dec_maxpos s = dec_cpylen s + dec_tgtlen s"
      "unat (dec_cpylen s) + unat (dec_tgtlen s) < 2 ^ 32" "dec_tgtlen s \<le> XD3_HARDMAXWINSIZE" "unat (dec_tgtlen s) = length T"
      "256 \<le> length (code_table s)"
    and m: "so_far A before (2 * length (sec_buf (inst_sect s))) (length (sec_buf (data_sect s))) m"
      "length before < 2 ^ 63" "length (wininfos (whole_target m)) < 2 ^ 26"
  shows "\<exists>s' m'. xd3_whole_append_window s m = Some (Inr (s', m')) \<and>
    whole_exec (adds (whole_target m')) A (winsts (whole_target m')) [] = Some (before @ T) \<and>
    unat (whole_length (whole_target m')) = length (before @ T) \<and>
    wininfos (whole_target m') = wininfos (whole_target m) @ [\<lparr>wi_offset = dec_winstart s, wi_length = dec_tgtlen s, wi_adler32 = dec_adler32 s\<rparr>]"
proof -
  let ?v = "\<lparr>wi_offset = dec_winstart s, wi_length = dec_tgtlen s, wi_adler32 = dec_adler32 s\<rparr>"
  have lc: "length (seg A s) = unat (dec_cpylen s)" using s(1) by (simp add: seg_def window_over_def min_def) arith
  have mp: "unat (dec_maxpos s) = unat (dec_cpylen s) + unat (dec_tgtlen s)" using s(3,4) by (simp add: unat_add_u32)
  have "unat XD3_HARDMAXWINSIZE = 2 ^ 24" by (simp add: XD3_HARDMAXWINSIZE_def)
  then have tl: "unat (dec_tgtlen s) \<le> 2 ^ 24" using s(5) by (simp add: word_le_nat_alt)
  have bounds: "window_bounds s" using s(2) mp tl by (simp add: window_bounds_def)
  obtain "is" p' where p: "vcd_parses (code_table s) (unat (dec_cpylen s)) (unat (dec_maxpos s)) (parse_of s) is p'"
    "vcd_exec is (seg A s @ [], sec_buf (data_sect s)) = Some (seg A s @ T, [])"
    using T lc mp s(2,6) by (auto simp: vcd_window_def parse_of_def)
  have nf: "never_fails m" using m(1) by (simp add: so_far_def)
  obtain m1 where m1: "xd3_whole_alloc_wininfo m = whole_ok m1" "became m [] [] [] 0 m1"
    "(length (wininfos (whole_target m1)) + 1) * unat sizeof_wininfo \<le> unat (wininfo_alloc (whole_target m1))"
    using alloc_wininfo_ok [OF nf m(3)] by blast
  obtain m2 where m2: "put_wininfo ?v m1 = whole_ok m2" "became m1 [] [] [?v] 0 m2"
    using m1(3) by (simp add: put_wininfo_def became_def Let_def)
  note b = became_trans [OF m1(2) m2(2), simplified]
  have "so_far A (before @ []) (2 * length (sec_buf (inst_sect s))) (length (sec_buf (data_sect s))) m2"
    using m(1) b by (simp add: so_far_def became_def never_fails_def)
  from append_loop_works [OF p(1) refl refl refl refl bounds s(7,1) m(2) this _ p(2)] s(2) obtain s' m' new where
    l: "append_loop s m2 = Some (Inr (s', m'))" "seg A s @ T = seg A s @ [] @ new" "so_far A (before @ [] @ new) 0 (length ([] :: bytes)) m'"
      "wininfos (whole_target m') = wininfos (whole_target m2)" by auto
  then show ?thesis using m1(1) m2(1) b by (simp add: xd3_whole_append_window_def so_far_def became_def)
qed

text \<open>The window of \<open>sample_window\<close>, after one that was a run of three bytes.\<close>

definition one_run :: xd3_merge_stream where
  "one_run = \<lparr>whole_target = empty_whole\<lparr>adds := [7], winsts := [winst XD3_RUN 0 3 0 0], whole_length := 3\<rparr>,
     heap_answers = (\<lambda>_. True), heap_count = 3\<rparr>"

theorem append_window_means_witness:
  "\<exists>s' m'. xd3_whole_append_window (sample_window\<lparr>dec_winstart := 3\<rparr>) one_run = Some (Inr (s', m')) \<and>
    whole_exec (adds (whole_target m')) [] (winsts (whole_target m')) [] = Some [7, 7, 7, 97, 98, 97, 98, 97, 98] \<and>
    unat (whole_length (whole_target m')) = 9"
proof -
  let ?s = "sample_window\<lparr>dec_winstart := 3\<rparr>"
  have T: "vcd_window (code_table ?s) (acache ?s) (seg [] ?s) (sec_buf (data_sect ?s)) (sec_buf (inst_sect ?s)) (sec_buf (addr_sect ?s))
      [97, 98, 97, 98, 97, 98]"
    using sample_window_means by (simp add: sample_window_def seg_def)
  have w: "window_over [] [7, 7, 7] ?s" "dec_position ?s = dec_cpylen ?s" "dec_maxpos ?s = dec_cpylen ?s + dec_tgtlen ?s"
    "unat (dec_cpylen ?s) + unat (dec_tgtlen ?s) < 2 ^ 32" "dec_tgtlen ?s \<le> XD3_HARDMAXWINSIZE"
    "unat (dec_tgtlen ?s) = length [97, 98, 97, 98, 97, 98 :: u8]" "256 \<le> length (code_table ?s)"
    by (simp_all add: sample_window_def zero_stream_def window_over_def XD3_HARDMAXWINSIZE_def rfc_table_entries)
  have e: "whole_exec [7] [] [winst XD3_RUN 0 3 0 0] [] = Some [7, 7, 7]" by code_simp
  have "so_far [] [7, 7, 7] (2 * length (sec_buf (inst_sect ?s))) (length (sec_buf (data_sect ?s))) one_run"
    using e by (simp add: so_far_def one_run_def never_fails_def empty_whole_def sample_window_def)
  note m = this
  have "length [7, 7, 7 :: u8] < 2 ^ 63" "length (wininfos (whole_target one_run)) < 2 ^ 26" by (simp_all add: one_run_def empty_whole_def)
  from append_window_means [OF T w m this] obtain s' m' where
    c: "xd3_whole_append_window ?s one_run = Some (Inr (s', m'))"
      "whole_exec (adds (whole_target m')) [] (winsts (whole_target m')) [] = Some ([7, 7, 7] @ [97, 98, 97, 98, 97, 98])"
      "unat (whole_length (whole_target m')) = length ([7, 7, 7] @ [97, 98, 97, 98, 97, 98 :: u8])"
    by (elim exE conjE) (rule that)
  have "length ([7, 7, 7] @ [97, 98, 97, 98, 97, 98 :: u8]) = 9" by simp
  with c show ?thesis by (intro exI [of _ s'] exI [of _ m']) simp
qed

end
